(* ===== verification/Tvisor_Prelude.thy ===== *)
theory Tvisor_Prelude
  imports Main "HOL-Library.Word"
begin

text \<open>
  Shared vocabulary of the tvisor development: the machine integers of the
  AArch64 target, the checked and wrapping arithmetic of the Rust core library,
  the three ways a Rust function can end (a value, an error value, a panic),
  bounds-checked array access, the word lemmas behind every alignment argument,
  and the generic transition-system interface the protocol components instantiate.
\<close>

unbundle bit_operations_syntax

section \<open>Machine integers\<close>

type_synonym u8 = "8 word"
type_synonym u32 = "32 word"
type_synonym u64 = "64 word"

text \<open>
  The only supported target is AArch64, where \<open>usize\<close> has 64 bits and the casts
  between \<open>u64\<close> and \<open>usize\<close> in the source are the identity.
\<close>

type_synonym usize = "64 word"

named_theorems arith_defs \<open>definitions of the checked integer operations\<close>
named_theorems outcome_simps \<open>inversion rules for the result combinators\<close>

definition checked_add :: "'a::len word \<Rightarrow> 'a word \<Rightarrow> 'a word option" where
  [arith_defs]: "checked_add a b =
     (if unat a + unat b < 2 ^ LENGTH('a) then Some (a + b) else None)"

definition checked_sub :: "'a::len word \<Rightarrow> 'a word \<Rightarrow> 'a word option" where
  [arith_defs]: "checked_sub a b = (if b \<le> a then Some (a - b) else None)"

definition checked_mul :: "'a::len word \<Rightarrow> 'a word \<Rightarrow> 'a word option" where
  [arith_defs]: "checked_mul a b =
     (if unat a * unat b < 2 ^ LENGTH('a) then Some (a * b) else None)"

definition wrapping_sub :: "'a::len word \<Rightarrow> 'a word \<Rightarrow> 'a word" where
  [arith_defs]: "wrapping_sub a b = a - b"

definition is_power_of_two :: "'a::len word \<Rightarrow> bool" where
  "is_power_of_two w \<longleftrightarrow> (\<exists>n \<in> {..<LENGTH('a)}. w = 2 ^ n)"

lemma is_power_of_two_pow [simp]:
  "n < LENGTH('a) \<Longrightarrow> is_power_of_two (2 ^ n :: 'a::len word)"
  by (auto simp: is_power_of_two_def)

lemma is_power_of_twoE:
  assumes "is_power_of_two (w :: 'a::len word)"
  obtains n where "n < LENGTH('a)" and "w = 2 ^ n"
  using assms by (auto simp: is_power_of_two_def)

lemma is_power_of_two_nonzero: "is_power_of_two w \<Longrightarrow> w \<noteq> (0 :: 'a::len word)"
  by (auto simp: is_power_of_two_def)

lemma not_power_of_two_0 [simp]: "\<not> is_power_of_two (0 :: 'a::len word)"
  using is_power_of_two_nonzero by blast

lemma checked_add_Some:
  "checked_add a b = Some (c :: 'a::len word) \<longleftrightarrow>
     unat a + unat b < 2 ^ LENGTH('a) \<and> c = a + b"
  by (auto simp: checked_add_def)

lemma checked_add_None:
  "checked_add a (b :: 'a::len word) = None \<longleftrightarrow> 2 ^ LENGTH('a) \<le> unat a + unat b"
  by (auto simp: checked_add_def)

lemma unat_add_no_overflow:
  "unat a + unat b < 2 ^ LENGTH('a) \<Longrightarrow> unat (a + b :: 'a::len word) = unat a + unat b"
  by (simp add: unat_word_ariths)

lemma unat_checked_add:
  "checked_add a b = Some (c :: 'a::len word) \<Longrightarrow> unat c = unat a + unat b"
  by (auto simp: checked_add_Some unat_add_no_overflow)

lemma unat_word_of_nat_u64: "n < 2 ^ 64 \<Longrightarrow> unat (word_of_nat n :: u64) = n"
  by (simp add: unsigned_of_nat take_bit_nat_eq_self)

lemma word_of_nat_eqI: "unat w = n \<Longrightarrow> w = word_of_nat n"
  by (metis of_nat_unat ucast_id)

lemma unat_u64_bound: "unat (w :: u64) < 18446744073709551616"
proof -
  have "unat w < 2 ^ LENGTH(64)" by (rule unsigned_less)
  then show ?thesis by simp
qed

lemma unat_pred: "w \<noteq> 0 \<Longrightarrow> unat (w - 1 :: 'a::len word) = unat w - 1"
  by (simp add: unat_minus_one)

lemma unat_sub_le:
  "b \<le> a \<Longrightarrow> unat (a - b :: 'a::len word) = unat a - unat b"
  by (rule unat_sub)

text \<open>\<open>count_ones\<close> and \<open>trailing_zeros\<close> of the integer types.\<close>

definition count_ones :: "'a::len word \<Rightarrow> nat" where
  "count_ones w = length (filter (bit w) [0..<LENGTH('a)])"

definition trailing_zeros :: "'a::len word \<Rightarrow> nat" where
  "trailing_zeros w = length (takeWhile (\<lambda>n. \<not> bit w n) [0..<LENGTH('a)])"

lemma count_ones_1_iff: "count_ones (w :: 'a::len word) = 1 \<longleftrightarrow> is_power_of_two w"
proof -
  have "count_ones w = card {n. n < LENGTH('a) \<and> bit w n}"
    by (simp add: count_ones_def length_filter_conv_card cong: conj_cong)
  then have "count_ones w = 1 \<longleftrightarrow> (\<exists>n. {n. n < LENGTH('a) \<and> bit w n} = {n})"
    by (simp add: card_1_singleton_iff)
  also have "\<dots> \<longleftrightarrow> is_power_of_two w"
  proof
    assume "\<exists>n. {n. n < LENGTH('a) \<and> bit w n} = {n}"
    then obtain n where n: "{k. k < LENGTH('a) \<and> bit w k} = {n}" by blast
    then have b: "n < LENGTH('a)" and "k < LENGTH('a) \<Longrightarrow> bit w k \<longleftrightarrow> k = n" for k by blast+
    then have "w = 2 ^ n" by (intro bit_word_eqI) (auto simp: bit_simps)
    then show "is_power_of_two w" using b by simp
  next
    assume "is_power_of_two w"
    then obtain n where "n < LENGTH('a)" "w = 2 ^ n" by (rule is_power_of_twoE)
    then show "\<exists>n. {n. n < LENGTH('a) \<and> bit w n} = {n}" by (intro exI [of _ n]) (auto simp: bit_simps)
  qed
  finally show ?thesis .
qed

lemma trailing_zeros_pow: "n < LENGTH('a) \<Longrightarrow> trailing_zeros (2 ^ n :: 'a::len word) = n"
proof -
  assume n: "n < LENGTH('a)"
  have "takeWhile (\<lambda>k. \<not> bit (2 ^ n :: 'a word) k) ([0..<n] @ n # [Suc n..<LENGTH('a)]) = [0..<n]"
    using n by (subst takeWhile_append2) (auto simp: bit_simps)
  moreover have "[0..<LENGTH('a)] = [0..<n] @ n # [Suc n..<LENGTH('a)]"
    using n by (metis le_add_diff_inverse less_imp_le_nat upt_add_eq_append upt_conv_Cons zero_le)
  ultimately show ?thesis by (simp only: trailing_zeros_def length_upt)
qed

section \<open>Masks and alignment\<close>

text \<open>
  The source tests alignment with \<open>x & (2^n - 1)\<close> and rounds with
  \<open>x & !(2^n - 1)\<close>. Both are related here to remainders of natural numbers.
\<close>

lemma unat_and_mask_eq [simp]:
  "unat (w AND mask n :: 'a::len word) = unat w mod 2 ^ n"
proof -
  have "unat (w AND mask n) = unat (take_bit n w)"
    by (simp only: take_bit_eq_mask)
  also have "\<dots> = take_bit n (unat w)"
    by (rule unsigned_take_bit_eq)
  also have "\<dots> = unat w mod 2 ^ n"
    by (rule take_bit_eq_mod)
  finally show ?thesis .
qed

lemma and_mask_eq_0_iff:
  "(w AND mask n :: 'a::len word) = 0 \<longleftrightarrow> 2 ^ n dvd unat w"
  by (metis dvd_eq_mod_eq_0 unat_0 unat_and_mask_eq unat_eq_zero)

lemma and_not_mask_plus:
  "(w AND NOT (mask n)) + (w AND mask n) = (w :: 'a::len word)"
proof -
  have "(w AND NOT (mask n)) AND (w AND mask n) = 0"
    by (auto intro: bit_word_eqI simp: bit_simps)
  then have "(w AND NOT (mask n)) + (w AND mask n) = (w AND NOT (mask n)) OR (w AND mask n)"
    by (rule disjunctive_add_eq_or)
  also have "\<dots> = w"
    by (auto intro: bit_word_eqI simp: bit_simps)
  finally show ?thesis .
qed

lemma and_not_mask_eq: "w AND NOT (mask n) = (w :: 'a::len word) - (w AND mask n)"
  by (metis add_diff_cancel_right' and_not_mask_plus)

lemma unat_and_not_mask [simp]:
  "unat (w AND NOT (mask n) :: 'a::len word) = unat w - unat w mod 2 ^ n"
proof -
  have "w AND mask n \<le> w"
    by (metis mod_less_eq_dividend unat_and_mask_eq word_le_nat_alt)
  then show ?thesis
    by (simp add: and_not_mask_eq unat_sub)
qed

lemma dvd_unat_and_not_mask: "2 ^ n dvd unat (w AND NOT (mask n) :: 'a::len word)"
  by (simp add: dvd_minus_mod)

lemma multiple_le_floor:
  assumes "k dvd m" and "m \<le> n"
  shows "m \<le> n - n mod (k :: nat)"
proof -
  have "m div k * k \<le> n div k * k" using assms(2) by (intro mult_le_mono1 div_le_mono)
  with assms(1) show ?thesis by (simp add: minus_mod_eq_div_mult)
qed

lemma ceil_le_multiple:
  assumes "k dvd m" and "n \<le> m" and "0 < (k :: nat)"
  shows "(n + (k - 1)) - (n + (k - 1)) mod k \<le> m"
proof -
  obtain q where q: "m = q * k" using assms(1) by (metis dvdE mult.commute)
  have "(n + (k - 1)) div k \<le> (k - 1 + q * k) div k" using assms(2) q by (intro div_le_mono) simp
  also have "\<dots> = q" using assms(3) by (simp only: div_mult_self1 div_less)
  finally have "(n + (k - 1)) div k * k \<le> q * k" by (rule mult_le_mono1)
  then show ?thesis using q by (simp add: minus_mod_eq_div_mult)
qed

lemma ceil_ge: "0 < (k :: nat) \<Longrightarrow> n \<le> (n + (k - 1)) - (n + (k - 1)) mod k"
  using mod_less_divisor [of k "n + (k - 1)"] by linarith

lemma pow2_minus_1_mask: "(2 :: 'a::len word) ^ n - 1 = mask n"
  by (simp add: mask_eq_exp_minus_1)

lemma unat_pow2 [simp]: "n < LENGTH('a) \<Longrightarrow> unat ((2 :: 'a::len word) ^ n) = 2 ^ n"
  by transfer simp

lemma mask_12_u64: "(mask 12 :: u64) = 4095"
  by (simp add: mask_eq_exp_minus_1)

lemma and_4095_eq_0_iff: "(w :: u64) AND 4095 = 0 \<longleftrightarrow> 4096 dvd unat w"
  using and_mask_eq_0_iff [of w 12] by (simp add: mask_12_u64)

section \<open>How a Rust function ends\<close>

text \<open>
  \<open>Ok\<close> and \<open>Err\<close> are the constructors of \<open>Result\<close>. \<open>Panic\<close> stands for every
  way the source aborts: a failed \<open>unwrap\<close>/\<open>expect\<close>/\<open>assert\<close>, an index out of
  bounds, \<open>unreachable!()\<close>, or unchecked arithmetic that overflows (the debug
  profile of the source panics there). A theorem whose conclusion is an \<open>Ok\<close> or
  an \<open>Err\<close> therefore also says that the code does not panic.
\<close>

datatype ('a, 'e) outcome = Ok 'a | Err 'e | Panic

fun and_then :: "('a, 'e) outcome \<Rightarrow> ('a \<Rightarrow> ('b, 'e) outcome) \<Rightarrow> ('b, 'e) outcome" where
  "and_then (Ok x) f = f x"
| "and_then (Err e) f = Err e"
| "and_then Panic f = Panic"

fun map_err :: "('e \<Rightarrow> 'f) \<Rightarrow> ('a, 'e) outcome \<Rightarrow> ('a, 'f) outcome" where
  "map_err g (Ok x) = Ok x"
| "map_err g (Err e) = Err (g e)"
| "map_err g Panic = Panic"

fun ok_or :: "'e \<Rightarrow> 'a option \<Rightarrow> ('a, 'e) outcome" where
  "ok_or e (Some x) = Ok x"
| "ok_or e None = Err e"

fun unwrap :: "'a option \<Rightarrow> ('a, 'e) outcome" where
  "unwrap (Some x) = Ok x"
| "unwrap None = Panic"

fun is_ok :: "('a, 'e) outcome \<Rightarrow> bool" where
  "is_ok (Ok x) = True"
| "is_ok (Err e) = False"
| "is_ok Panic = False"

lemma is_ok_iff: "is_ok r \<longleftrightarrow> (\<exists>x. r = Ok x)"
  by (cases r) auto

lemma and_then_Ok [outcome_simps]:
  "and_then m f = Ok y \<longleftrightarrow> (\<exists>x. m = Ok x \<and> f x = Ok y)"
  by (cases m) auto

lemma and_then_Err [outcome_simps]:
  "and_then m f = Err e \<longleftrightarrow> m = Err e \<or> (\<exists>x. m = Ok x \<and> f x = Err e)"
  by (cases m) auto

lemma and_then_Panic [outcome_simps]:
  "and_then m f = Panic \<longleftrightarrow> m = Panic \<or> (\<exists>x. m = Ok x \<and> f x = Panic)"
  by (cases m) auto

lemma map_err_Ok [outcome_simps]: "map_err g m = Ok x \<longleftrightarrow> m = Ok x"
  by (cases m) auto

lemma map_err_Err [outcome_simps]: "map_err g m = Err e \<longleftrightarrow> (\<exists>d. m = Err d \<and> e = g d)"
  by (cases m) auto

lemma map_err_Panic [outcome_simps]: "map_err g m = Panic \<longleftrightarrow> m = Panic"
  by (cases m) auto

lemma ok_or_Ok [outcome_simps]: "ok_or e m = Ok x \<longleftrightarrow> m = Some x"
  by (cases m) auto

lemma ok_or_Err [outcome_simps]: "ok_or e m = Err d \<longleftrightarrow> m = None \<and> d = e"
  by (cases m) auto

lemma ok_or_not_Panic [simp]: "ok_or e m \<noteq> Panic"
  by (cases m) auto

lemma unwrap_Ok [outcome_simps]: "unwrap m = Ok x \<longleftrightarrow> m = Some x"
  by (cases m) auto

lemma and_then_cong [fundef_cong]:
  "m = m' \<Longrightarrow> (\<And>x. m' = Ok x \<Longrightarrow> f x = g x) \<Longrightarrow> and_then m f = and_then m' g"
  by (cases m') auto

text \<open>
  A method that takes \<open>&mut self\<close> returns its outcome together with the state it
  leaves, on every path: \<open>st_then\<close> is the \<open>?\<close> operator of such a method, \<open>st_lift\<close>
  a call that does not touch the state.
\<close>

fun st_then ::
  "('a, 'e) outcome \<times> 's \<Rightarrow> ('a \<Rightarrow> 's \<Rightarrow> ('b, 'e) outcome \<times> 's) \<Rightarrow> ('b, 'e) outcome \<times> 's" where
  "st_then (Ok x, s) f = f x s"
| "st_then (Err e, s) f = (Err e, s)"
| "st_then (Panic, s) f = (Panic, s)"

definition st_lift :: "('a, 'e) outcome \<Rightarrow> 's \<Rightarrow> ('a, 'e) outcome \<times> 's" where
  "st_lift r s = (r, s)"

definition st_map_err :: "('e \<Rightarrow> 'f) \<Rightarrow> ('a, 'e) outcome \<times> 's \<Rightarrow> ('a, 'f) outcome \<times> 's" where
  "st_map_err g p = (map_err g (fst p), snd p)"

lemma st_lift_simps [simp]:
  "st_then (st_lift (Ok x) s) f = f x s"
  "st_then (st_lift (Err e) s) f = (Err e, s)"
  "st_then (st_lift Panic s) f = (Panic, s)"
  by (simp_all add: st_lift_def)

lemma st_map_err_simps [simp]:
  "st_map_err g (Ok x, s) = (Ok x, s)"
  "st_map_err g (Err e, s) = (Err (g e), s)"
  "st_map_err g (Panic, s) = (Panic, s)"
  by (simp_all add: st_map_err_def)

lemma st_then_cong [fundef_cong]:
  "m = m' \<Longrightarrow> (\<And>x s. m' = (Ok x, s) \<Longrightarrow> f x s = g x s) \<Longrightarrow> st_then m f = st_then m' g"
  by (cases m'; cases "fst m'") auto

lemma st_then_Ok [outcome_simps]:
  "st_then m f = (Ok y, t) \<longleftrightarrow> (\<exists>x s. m = (Ok x, s) \<and> f x s = (Ok y, t))"
  by (cases m; cases "fst m") auto

lemma st_lift_Ok [outcome_simps]: "st_lift r s = (Ok x, t) \<longleftrightarrow> r = Ok x \<and> t = s"
  by (auto simp: st_lift_def)

text \<open>Unchecked arithmetic: an overflow panics.\<close>

definition or_panic :: "'a option \<Rightarrow> ('a, 'e) outcome" where
  "or_panic x = (case x of None \<Rightarrow> Panic | Some v \<Rightarrow> Ok v)"

lemma or_panic_Ok [outcome_simps]: "or_panic x = Ok v \<longleftrightarrow> x = Some v"
  by (auto simp: or_panic_def split: option.splits)

lemma or_panic_Some [simp]: "or_panic (Some v) = Ok v"
  by (simp add: or_panic_def)

section \<open>Bounds-checked arrays\<close>

definition array_get :: "'a list \<Rightarrow> nat \<Rightarrow> 'a option" where
  "array_get xs i = (if i < length xs then Some (xs ! i) else None)"

lemma array_get_Some: "array_get xs i = Some x \<longleftrightarrow> i < length xs \<and> xs ! i = x"
  by (auto simp: array_get_def)

lemma array_get_None: "array_get xs i = None \<longleftrightarrow> length xs \<le> i"
  by (auto simp: array_get_def)

lemma length_filter_le_filter:
  "(\<And>x. x \<in> set xs \<Longrightarrow> P x \<Longrightarrow> Q x) \<Longrightarrow> length (filter P xs) \<le> length (filter Q xs)"
  by (induction xs) (auto simp: le_SucI)

lemma length_filter_disjoint:
  "(\<And>x. x \<in> set xs \<Longrightarrow> \<not> (P x \<and> Q x)) \<Longrightarrow>
   length (filter P xs) + length (filter Q xs) = length (filter (\<lambda>x. P x \<or> Q x) xs)"
  by (induction xs) auto

lemma disjoint_filters_length:
  assumes "sorted_wrt (\<lambda>a b. \<forall>x. \<not> (P a x \<and> P b x)) as"
  shows "(\<Sum>a \<leftarrow> as. length (filter (P a) xs)) \<le> length xs"
proof -
  have "(\<Sum>a \<leftarrow> as. length (filter (P a) xs)) = length (filter (\<lambda>x. \<exists>a \<in> set as. P a x) xs)"
    using assms
  proof (induction as)
    case (Cons a as)
    then show ?case
      using length_filter_disjoint [of xs "P a" "\<lambda>x. \<exists>b \<in> set as. P b x"] by auto
  qed simp
  then show ?thesis by simp
qed

section \<open>Transition systems\<close>

text \<open>
  The protocol components are transition systems: a set of start states and a
  step relation whose steps are the operations of the source, taken in any order
  by any caller. The contract is an inductive invariant; what the client of a
  protocol may rely on is that the invariant holds in every state reached by any
  interleaving of operations.
\<close>

locale transition_system =
  fixes start :: "'s \<Rightarrow> bool"
    and step :: "'s \<Rightarrow> 's \<Rightarrow> bool"
    and invar :: "'s \<Rightarrow> bool"
  assumes start_invar: "start s \<Longrightarrow> invar s"
    and step_invar: "invar s \<Longrightarrow> step s t \<Longrightarrow> invar t"
begin

lemma steps_invar: "step\<^sup>*\<^sup>* s t \<Longrightarrow> invar s \<Longrightarrow> invar t"
  by (induction rule: rtranclp_induct) (auto intro: step_invar)

lemma reachable_invar: "start s \<Longrightarrow> step\<^sup>*\<^sup>* s t \<Longrightarrow> invar t"
  using steps_invar start_invar by blast

lemma stable_from_step:
  assumes stable: "\<And>s t. invar s \<Longrightarrow> step s t \<Longrightarrow> P s \<Longrightarrow> P t"
    and "step\<^sup>*\<^sup>* s t" and "invar s" and "P s"
  shows "P t"
  using assms(2,3,4)
proof (induction rule: rtranclp_induct)
  case base
  then show ?case by simp
next
  case (step u v)
  then show ?case using stable [of u v] steps_invar [of s u] by blast
qed

lemma monotone_from_step:
  fixes m :: "'s \<Rightarrow> 'b::preorder"
  assumes mono: "\<And>s t. invar s \<Longrightarrow> step s t \<Longrightarrow> m s \<le> m t"
    and "step\<^sup>*\<^sup>* s t" and "invar s"
  shows "m s \<le> m t"
  using assms(2,3)
proof (induction rule: rtranclp_induct)
  case base
  then show ?case by simp
next
  case (step u v)
  then show ?case using mono [of u v] steps_invar [of s u] order_trans by blast
qed

end

end
