(* ===== verification/Page_Arith.thy ===== *)
theory Page_Arith
  imports Tvisor_Prelude
begin

text \<open>
  Page and alignment arithmetic (\<open>tvisor_util/page.rs\<close>). Every function is total:
  an alignment that is not a power of two and an upward rounding that leaves the
  64-bit range are the \<open>None\<close> of the source. The lemmas give each function its
  meaning on natural numbers; \<open>align_up\<close> and \<open>align_down\<close> are the greatest and
  least multiples the callers expect.
\<close>

definition PAGE_SIZE :: usize where
  "PAGE_SIZE = 0x1000"

definition is_aligned :: "usize \<Rightarrow> usize \<Rightarrow> bool" where
  "is_aligned addr alignment \<longleftrightarrow>
     is_power_of_two alignment \<and> addr AND (alignment - 1) = 0"

definition is_page_aligned :: "usize \<Rightarrow> bool" where
  "is_page_aligned addr = is_aligned addr PAGE_SIZE"

definition align_down :: "usize \<Rightarrow> usize \<Rightarrow> usize option" where
  "align_down v alignment =
     (if \<not> is_power_of_two alignment then None
      else Some (v AND NOT (alignment - 1)))"

definition align_up :: "usize \<Rightarrow> usize \<Rightarrow> usize option" where
  "align_up v alignment =
     (if \<not> is_power_of_two alignment then None
      else case checked_add v (alignment - 1) of
             Some s \<Rightarrow> Some (s AND NOT (alignment - 1))
           | None \<Rightarrow> None)"

definition page_offset :: "usize \<Rightarrow> usize" where
  "page_offset addr = addr AND (PAGE_SIZE - 1)"

definition page_address :: "usize \<Rightarrow> usize" where
  "page_address addr = addr AND NOT (PAGE_SIZE - 1)"

definition round_up_to_page :: "usize \<Rightarrow> usize" where
  "round_up_to_page v =
     (if is_page_aligned v then v div PAGE_SIZE else v div PAGE_SIZE + 1)"

section \<open>Meaning on natural numbers\<close>

lemma PAGE_SIZE_pow2: "PAGE_SIZE = 2 ^ 12"
  by (simp add: PAGE_SIZE_def)

lemma PAGE_SIZE_minus_1: "PAGE_SIZE - 1 = mask 12"
  by (simp add: PAGE_SIZE_def mask_eq_exp_minus_1)

lemma unat_PAGE_SIZE [simp]: "unat PAGE_SIZE = 4096"
  by (simp add: PAGE_SIZE_def)

lemma power_of_two_PAGE_SIZE [simp]: "is_power_of_two PAGE_SIZE"
  unfolding PAGE_SIZE_pow2 by (rule is_power_of_two_pow) simp

lemma is_aligned_iff_dvd:
  "is_power_of_two a \<Longrightarrow> is_aligned w a \<longleftrightarrow> unat a dvd unat w"
  by (auto elim!: is_power_of_twoE
      simp: is_aligned_def pow2_minus_1_mask and_mask_eq_0_iff)

lemma is_page_aligned_iff [simp]: "is_page_aligned w \<longleftrightarrow> 4096 dvd unat w"
  by (simp add: is_page_aligned_def is_aligned_iff_dvd)

lemma align_down_Some:
  "is_power_of_two a \<Longrightarrow>
   \<exists>r. align_down v a = Some r \<and> unat r = unat v - unat v mod unat a"
  by (auto elim!: is_power_of_twoE simp: align_down_def pow2_minus_1_mask)

lemma align_up_Some:
  assumes p: "is_power_of_two a"
    and fits: "unat v + (unat a - 1) < 2 ^ 64"
  shows "\<exists>r. align_up v a = Some r \<and>
             unat r = unat v + (unat a - 1) - (unat v + (unat a - 1)) mod unat a"
proof -
  from p obtain n where n: "n < 64" and a: "a = 2 ^ n"
    by (auto elim: is_power_of_twoE)
  have u: "unat (a - 1) = unat a - 1"
    using a n by (simp add: unat_sub word_le_nat_alt unat_eq_zero)
  have pos: "0 < unat a" using a n by simp
  from fits u pos have c: "checked_add v (a - 1) = Some (v + (a - 1))"
    and s: "unat (v + (a - 1)) = unat v + (unat a - 1)"
    by (auto simp: checked_add_def unat_word_ariths)
  have m: "a - 1 = mask n" by (simp only: a pow2_minus_1_mask)
  have "align_up v a = Some ((v + (a - 1)) AND NOT (mask n))"
    using p c by (simp add: align_up_def m)
  moreover have "unat ((v + (a - 1)) AND NOT (mask n)) =
      unat v + (unat a - 1) - (unat v + (unat a - 1)) mod unat a"
    unfolding unat_and_not_mask s using a n by simp
  ultimately show ?thesis by simp
qed

lemma align_up_None:
  assumes p: "is_power_of_two a"
  shows "align_up v a = None \<longleftrightarrow> 2 ^ 64 \<le> unat v + (unat a - 1)"
proof -
  from p obtain n where n: "n < 64" and a: "a = 2 ^ n"
    by (auto elim: is_power_of_twoE)
  have "unat (a - 1) = unat a - 1"
    using a n by (simp add: unat_sub word_le_nat_alt unat_eq_zero)
  moreover have "0 < unat a" using a n by simp
  ultimately show ?thesis
    using p by (auto simp: align_up_def checked_add_def split: option.splits)
qed

text \<open>The page-sized instances, in the form the callers need.\<close>

definition page_floor :: "nat \<Rightarrow> nat" where
  "page_floor n = n - n mod 4096"

definition page_ceil :: "nat \<Rightarrow> nat" where
  "page_ceil n = page_floor (n + 4095)"

lemma page_floor_dvd [simp]: "4096 dvd page_floor n"
  by (simp add: page_floor_def dvd_minus_mod)

lemma page_ceil_dvd [simp]: "4096 dvd page_ceil n"
  by (simp add: page_ceil_def)

lemma page_floor_le [simp]: "page_floor n \<le> n"
  by (simp add: page_floor_def)

lemma page_ceil_ge [simp]: "n \<le> page_ceil n"
  using ceil_ge [of 4096 n] by (simp add: page_ceil_def page_floor_def)

lemma page_floor_greatest: "4096 dvd m \<Longrightarrow> m \<le> n \<Longrightarrow> m \<le> page_floor n"
  unfolding page_floor_def by (rule multiple_le_floor)

lemma page_ceil_least: "4096 dvd m \<Longrightarrow> n \<le> m \<Longrightarrow> page_ceil n \<le> m"
  using ceil_le_multiple [of 4096 m n] by (simp add: page_ceil_def page_floor_def)

lemma page_floor_id [simp]: "4096 dvd n \<Longrightarrow> page_floor n = n"
  by (simp add: page_floor_def)

lemma page_ceil_id [simp]: "4096 dvd n \<Longrightarrow> page_ceil n = n"
  by (simp add: page_ceil_least le_antisym)

lemma align_down_page: "\<exists>r. align_down v PAGE_SIZE = Some r \<and> unat r = page_floor (unat v)"
  using align_down_Some [OF power_of_two_PAGE_SIZE, of v] by (simp add: page_floor_def)

lemma align_up_page:
  "unat v + 4095 < 2 ^ 64 \<Longrightarrow>
   \<exists>r. align_up v PAGE_SIZE = Some r \<and> unat r = page_ceil (unat v)"
  using align_up_Some [OF power_of_two_PAGE_SIZE, of v]
  by (simp add: page_ceil_def page_floor_def add.commute)

lemma align_up_page_None: "align_up v PAGE_SIZE = None \<longleftrightarrow> 2 ^ 64 \<le> unat v + 4095"
  using align_up_None [OF power_of_two_PAGE_SIZE, of v] by simp

lemma align_down_page_eq: "align_down v PAGE_SIZE = Some (word_of_nat (page_floor (unat v)))"
  using align_down_page [of v] word_of_nat_eqI by blast

lemma align_up_page_eq:
  "align_up v PAGE_SIZE =
     (if unat v + 4095 < 2 ^ 64 then Some (word_of_nat (page_ceil (unat v))) else None)"
  using align_up_page [of v] align_up_page_None [of v] by (auto simp: not_less intro: word_of_nat_eqI)

section \<open>Properties\<close>

text \<open>
  Rounding up returns the least multiple of the alignment that is not below
  the value, and it fails exactly when the alignment is not a power of two or the
  rounding would leave the 64-bit range.
\<close>

theorem align_up_correct:
  "align_up v a =
     (if is_power_of_two a \<and> unat v + (unat a - 1) < 2 ^ 64
      then Some (word_of_nat (LEAST m. unat v \<le> m \<and> unat a dvd m)) else None)"
proof (cases "is_power_of_two a \<and> unat v + (unat a - 1) < 2 ^ 64")
  case True
  let ?n = "unat v + (unat a - 1)"
  from True obtain r where r: "align_up v a = Some r" and u: "unat r = ?n - ?n mod unat a"
    using align_up_Some by blast
  have pos: "0 < unat a" using True is_power_of_two_nonzero by (auto simp: unat_gt_0)
  have "(LEAST m. unat v \<le> m \<and> unat a dvd m) = unat r"
  proof (rule Least_equality)
    show "unat v \<le> unat r \<and> unat a dvd unat r"
      using u ceil_ge [OF pos, of "unat v"] by (simp only: dvd_minus_mod simp_thms)
  next
    fix m assume "unat v \<le> m \<and> unat a dvd m"
    then show "unat r \<le> m"
      using pos u ceil_le_multiple [of "unat a" m "unat v"] by simp
  qed
  with True r show ?thesis by simp
next
  case False
  then show ?thesis using align_up_None [of a v] by (auto simp: align_up_def)
qed

end
