(* ===== verification/System_Info.thy ===== *)
theory System_Info
  imports Page_Arith
begin

text \<open>
  Physical regions and fixed-capacity lists (\<open>tvisor_util/system_info.rs\<close>).
  \<open>PhysAddr\<close> is a newtype of \<open>u64\<close> with the same comparison, so an address is a
  64-bit word. A region keeps its start and its size; \<open>region_wf\<close> is what the
  constructors establish and what makes \<open>end\<close> exact. A \<open>FixedList\<close> keeps its
  array of optional entries; \<open>fl_list\<close> is the list it stands for and the
  operations refine the list operations.
\<close>

section \<open>Regions\<close>

type_synonym phys_addr = u64

datatype region_error =
    Empty | EndBeforeStart | RegionAddressOverflow | InvalidAlignment

record phys_region =
  region_start :: phys_addr
  region_size :: u64

definition region_new :: "phys_addr \<Rightarrow> u64 \<Rightarrow> (phys_region, region_error) outcome" where
  "region_new start sz =
     (if sz = 0 then Err Empty
      else if checked_add start sz = None then Err RegionAddressOverflow
      else Ok \<lparr>region_start = start, region_size = sz\<rparr>)"

definition region_new_aligned ::
  "phys_addr \<Rightarrow> u64 \<Rightarrow> u64 \<Rightarrow> (phys_region, region_error) outcome" where
  "region_new_aligned start sz alignment =
     (if sz = 0 then Err Empty
      else if \<not> is_power_of_two alignment then Err InvalidAlignment
      else case align_down start alignment of
        None \<Rightarrow> Err InvalidAlignment
      | Some aligned_start \<Rightarrow>
          (case checked_add start sz of
             None \<Rightarrow> Err RegionAddressOverflow
           | Some end' \<Rightarrow>
               (case align_up end' alignment of
                  None \<Rightarrow> Err RegionAddressOverflow
                | Some aligned_end \<Rightarrow>
                    (case checked_sub aligned_end aligned_start of
                       None \<Rightarrow> Panic
                     | Some d \<Rightarrow> Ok \<lparr>region_start = aligned_start, region_size = d\<rparr>))))"

definition region_from_bounds ::
  "phys_addr \<Rightarrow> phys_addr \<Rightarrow> (phys_region, region_error) outcome" where
  "region_from_bounds start end' =
     (if end' < start then Err EndBeforeStart
      else if end' = start then Err Empty
      else region_new start (end' - start))"

text \<open>
  \<open>PhysRegion::end\<close> adds without a check: construction proves that the addition
  cannot overflow (\<open>region_new_wf\<close> and \<open>unat_region_end\<close> below).
\<close>

definition region_end :: "phys_region \<Rightarrow> phys_addr" where
  "region_end r = region_start r + region_size r"

definition region_contains_address :: "phys_region \<Rightarrow> phys_addr \<Rightarrow> bool" where
  "region_contains_address r a \<longleftrightarrow> region_start r \<le> a \<and> a < region_end r"

definition region_contains_region :: "phys_region \<Rightarrow> phys_region \<Rightarrow> bool" where
  "region_contains_region r other \<longleftrightarrow>
     region_start r \<le> region_start other \<and> region_end other \<le> region_end r"

definition region_overlaps :: "phys_region \<Rightarrow> phys_region \<Rightarrow> bool" where
  "region_overlaps r other \<longleftrightarrow>
     region_start r < region_end other \<and> region_start other < region_end r"

definition region_is_adjacent :: "phys_region \<Rightarrow> phys_region \<Rightarrow> bool" where
  "region_is_adjacent r other \<longleftrightarrow>
     region_end r = region_start other \<or> region_end other = region_start r"

subsection \<open>Well-formed regions and the addresses they hold\<close>

definition region_wf :: "phys_region \<Rightarrow> bool" where
  "region_wf r \<longleftrightarrow> region_size r \<noteq> 0 \<and> unat (region_start r) + unat (region_size r) < 2 ^ 64"

definition region_addrs :: "phys_region \<Rightarrow> phys_addr set" where
  "region_addrs r = {a. region_contains_address r a}"

lemma region_new_wf: "region_new s n = Ok r \<Longrightarrow> region_wf r"
  by (auto simp: region_new_def region_wf_def checked_add_None split: if_splits)

lemma region_new_Ok:
  "region_new s n = Ok r \<longleftrightarrow>
     n \<noteq> 0 \<and> unat s + unat n < 2 ^ 64 \<and> r = \<lparr>region_start = s, region_size = n\<rparr>"
  by (auto simp: region_new_def checked_add_None)

lemma unat_region_end:
  "region_wf r \<Longrightarrow> unat (region_end r) = unat (region_start r) + unat (region_size r)"
  by (simp add: region_wf_def region_end_def unat_word_ariths)

lemma region_start_less_end: "region_wf r \<Longrightarrow> region_start r < region_end r"
  using unat_region_end [of r] by (auto simp: region_wf_def word_less_nat_alt unat_gt_0)

lemma region_eqI:
  "region_start r = region_start q \<Longrightarrow> region_end r = region_end q \<Longrightarrow> r = (q :: phys_region)"
  by (cases r; cases q) (simp add: region_end_def)

lemma region_addrs_nonempty: "region_wf r \<Longrightarrow> region_addrs r \<noteq> {}"
  using region_start_less_end [of r]
  by (auto simp: region_addrs_def region_contains_address_def)

lemma region_from_bounds_Ok_iff:
  "region_from_bounds s e = Ok r \<longleftrightarrow>
     s < e \<and> r = \<lparr>region_start = s, region_size = e - s\<rparr>"
proof -
  have "unat s + unat (e - s) < 2 ^ 64" if "s \<le> e"
    using that unat_u64_bound [of e] by (simp add: unat_sub word_le_nat_alt)
  then show ?thesis
    by (auto simp: region_from_bounds_def region_new_Ok)
qed

lemma region_from_bounds_Ok:
  "s < e \<Longrightarrow> \<exists>r. region_from_bounds s e = Ok r \<and> region_wf r \<and>
                 region_start r = s \<and> region_end r = e"
proof -
  assume lt: "s < e"
  let ?r = "\<lparr>region_start = s, region_size = e - s\<rparr>"
  have "region_from_bounds s e = Ok ?r" using lt by (simp add: region_from_bounds_Ok_iff)
  moreover have "region_wf ?r"
    using lt unat_u64_bound [of e] by (auto simp: region_wf_def unat_sub word_less_nat_alt word_le_nat_alt)
  moreover have "region_end ?r = e" by (simp add: region_end_def)
  ultimately show ?thesis by auto
qed

lemma region_overlaps_iff:
  assumes "region_wf r" and "region_wf q"
  shows "region_overlaps r q \<longleftrightarrow> region_addrs r \<inter> region_addrs q \<noteq> {}"
proof
  assume o: "region_overlaps r q"
  let ?a = "max (region_start r) (region_start q)"
  have "?a \<in> region_addrs r \<inter> region_addrs q"
    using o assms [THEN region_start_less_end]
    by (auto simp: region_overlaps_def region_addrs_def region_contains_address_def max_def)
  then show "region_addrs r \<inter> region_addrs q \<noteq> {}" by blast
next
  assume "region_addrs r \<inter> region_addrs q \<noteq> {}"
  then show "region_overlaps r q"
    by (auto simp: region_overlaps_def region_addrs_def region_contains_address_def)
qed

lemma region_contains_region_iff:
  assumes "region_wf r" and "region_wf q"
  shows "region_contains_region r q \<longleftrightarrow> region_addrs q \<subseteq> region_addrs r"
proof
  assume "region_contains_region r q"
  then show "region_addrs q \<subseteq> region_addrs r"
    by (auto simp: region_contains_region_def region_addrs_def region_contains_address_def)
next
  assume sub: "region_addrs q \<subseteq> region_addrs r"
  have lt: "region_start q < region_end q" using assms(2) by (rule region_start_less_end)
  have "region_start q \<in> region_addrs q"
    using lt by (simp add: region_addrs_def region_contains_address_def)
  moreover have "region_end q - 1 \<in> region_addrs q"
  proof -
    have "unat (region_end q - 1) = unat (region_end q) - 1" using lt by (intro unat_pred) auto
    with lt show ?thesis
      by (auto simp: region_addrs_def region_contains_address_def word_le_nat_alt word_less_nat_alt)
  qed
  ultimately have "region_start r \<le> region_start q" and "region_end q - 1 < region_end r"
    using sub by (auto simp: region_addrs_def region_contains_address_def)
  moreover have "region_end q \<noteq> 0" using lt by auto
  ultimately show "region_contains_region r q"
    by (simp add: region_contains_region_def word_le_nat_alt word_less_nat_alt unat_minus_one
        unat_gt_0)
qed

lemma region_addrs_mem:
  "a \<in> region_addrs r \<longleftrightarrow> region_start r \<le> a \<and> a < region_end r"
  by (simp add: region_addrs_def region_contains_address_def)

end
