(* ===== verification/Fixed_List.thy ===== *)
theory Fixed_List
  imports Tvisor_Prelude
begin

text \<open>
  \<open>FixedList<T, N>\<close> of \<open>tvisor_util/system_info.rs\<close>: an array of \<open>N\<close> optional
  entries and a length. The shifting loops of \<open>insert\<close> and \<open>remove\<close> are the
  loops of the source. \<open>fl_inv\<close> is the invariant the private fields keep,
  \<open>fl_list\<close> the list it represents; the locale \<open>bounded_list\<close> is the contract
  the clients (memory map, startup contract, stacks) rely on.
\<close>

datatype capacity_error = CapacityError nat

record 'a fixed_list =
  fl_entries :: "'a option list"
  fl_len :: nat

section \<open>Operations\<close>

definition fl_new :: "nat \<Rightarrow> 'a fixed_list" where
  "fl_new n = \<lparr>fl_entries = replicate n None, fl_len = 0\<rparr>"

definition fl_capacity :: "'a fixed_list \<Rightarrow> nat" where
  "fl_capacity l = length (fl_entries l)"

definition fl_is_empty :: "'a fixed_list \<Rightarrow> bool" where
  "fl_is_empty l \<longleftrightarrow> fl_len l = 0"

definition fl_is_full :: "'a fixed_list \<Rightarrow> bool" where
  "fl_is_full l \<longleftrightarrow> fl_len l = fl_capacity l"

definition fl_clear :: "'a fixed_list \<Rightarrow> 'a fixed_list" where
  "fl_clear l = \<lparr>fl_entries = map (\<lambda>_. None) (fl_entries l), fl_len = 0\<rparr>"

definition fl_push ::
  "'a fixed_list \<Rightarrow> 'a \<Rightarrow> (unit, capacity_error) outcome \<times> 'a fixed_list" where
  "fl_push l v =
     (if fl_is_full l then (Err (CapacityError (fl_capacity l)), l)
      else if fl_capacity l \<le> fl_len l then (Panic, l)
      else (Ok (), \<lparr>fl_entries = (fl_entries l)[fl_len l := Some v],
                    fl_len = Suc (fl_len l)\<rparr>))"

text \<open>\<open>for i in (index..len).rev() { entries[i + 1] = entries[i].take(); }\<close>\<close>

fun fl_shift_up :: "'a option list \<Rightarrow> nat \<Rightarrow> nat \<Rightarrow> 'a option list" where
  "fl_shift_up es index 0 = es"
| "fl_shift_up es index (Suc i) =
     (if index \<le> i then fl_shift_up (es[i := None, Suc i := es ! i]) index i else es)"

definition fl_insert ::
  "'a fixed_list \<Rightarrow> nat \<Rightarrow> 'a \<Rightarrow> (unit, capacity_error) outcome \<times> 'a fixed_list" where
  "fl_insert l index v =
     (if fl_is_full l then (Err (CapacityError (fl_capacity l)), l)
      else if fl_len l < index then (Err (CapacityError (fl_capacity l)), l)
      else if fl_capacity l \<le> fl_len l then (Panic, l)
      else (Ok (), \<lparr>fl_entries = (fl_shift_up (fl_entries l) index (fl_len l))[index := Some v],
                    fl_len = Suc (fl_len l)\<rparr>))"

text \<open>\<open>for i in index..(len - 1) { entries[i] = entries[i + 1].take(); }\<close>\<close>

function fl_shift_down :: "'a option list \<Rightarrow> nat \<Rightarrow> nat \<Rightarrow> 'a option list" where
  "fl_shift_down es i stop =
     (if i < stop
      then fl_shift_down (es[Suc i := None, i := es ! Suc i]) (Suc i) stop
      else es)"
  by pat_completeness auto
termination
  by (relation "measure (\<lambda>(es, i, stop). stop - i)") auto

declare fl_shift_down.simps [simp del]

definition fl_remove :: "'a fixed_list \<Rightarrow> nat \<Rightarrow> ('a option, 'e) outcome \<times> 'a fixed_list" where
  "fl_remove l index =
     (if fl_len l \<le> index then (Ok None, l)
      else if fl_capacity l < fl_len l then (Panic, l)
      else (Ok (fl_entries l ! index),
            \<lparr>fl_entries =
               (fl_shift_down ((fl_entries l)[index := None]) index (fl_len l - 1))
                 [fl_len l - 1 := None],
             fl_len = fl_len l - 1\<rparr>))"

definition fl_get :: "'a fixed_list \<Rightarrow> nat \<Rightarrow> ('a option, 'e) outcome" where
  "fl_get l index =
     (if fl_len l \<le> index then Ok None
      else if index < fl_capacity l then Ok (fl_entries l ! index) else Panic)"

text \<open>\<open>*list.get_mut(index).unwrap() = v\<close>\<close>

definition fl_set :: "'a fixed_list \<Rightarrow> nat \<Rightarrow> 'a \<Rightarrow> (unit, 'e) outcome \<times> 'a fixed_list" where
  "fl_set l index v =
     (case (fl_get l index :: ('a option, 'e) outcome) of
        Ok (Some _) \<Rightarrow> (Ok (), l\<lparr>fl_entries := (fl_entries l)[index := Some v]\<rparr>)
      | _ \<Rightarrow> (Panic, l))"

text \<open>
  \<open>iter\<close> and \<open>into_iter\<close> slice \<open>entries[..len]\<close> and \<open>expect\<close> every entry of the
  slice to be initialized.
\<close>

definition fl_iter :: "'a fixed_list \<Rightarrow> ('a list, 'e) outcome" where
  "fl_iter l =
     (if fl_capacity l < fl_len l then Panic
      else if None \<in> set (take (fl_len l) (fl_entries l)) then Panic
      else Ok (map the (take (fl_len l) (fl_entries l))))"

section \<open>Invariant and abstraction\<close>

definition fl_list :: "'a fixed_list \<Rightarrow> 'a list" where
  "fl_list l = map the (take (fl_len l) (fl_entries l))"

definition fl_inv :: "'a fixed_list \<Rightarrow> bool" where
  "fl_inv l \<longleftrightarrow> fl_entries l = map Some (fl_list l) @ replicate (fl_capacity l - fl_len l) None
                \<and> fl_len l \<le> fl_capacity l"

lemma length_fl_list: "fl_inv l \<Longrightarrow> length (fl_list l) = fl_len l"
  by (simp add: fl_inv_def fl_list_def fl_capacity_def)

text \<open>A list with its invariant is determined by its contents and its capacity.\<close>

definition fl_of :: "nat \<Rightarrow> 'a list \<Rightarrow> 'a fixed_list" where
  "fl_of n xs = \<lparr>fl_entries = map Some xs @ replicate (n - length xs) None, fl_len = length xs\<rparr>"

lemma fl_inv_fl_of: "fl_inv l \<Longrightarrow> l = fl_of (fl_capacity l) (fl_list l)"
  using length_fl_list [of l] by (cases l) (auto simp: fl_inv_def fl_of_def)

lemma fl_list_fl_of [simp]: "fl_list (fl_of n xs) = xs"
  by (simp add: fl_of_def fl_list_def comp_def)

lemma fl_len_fl_of [simp]: "fl_len (fl_of n xs) = length xs"
  by (simp add: fl_of_def)

lemma fl_capacity_fl_of [simp]: "length xs \<le> n \<Longrightarrow> fl_capacity (fl_of n xs) = n"
  by (simp add: fl_of_def fl_capacity_def)

lemma fl_inv_of [simp]: "length xs \<le> n \<Longrightarrow> fl_inv (fl_of n xs)"
  by (simp add: fl_inv_def) (simp add: fl_of_def)

lemma fl_invE:
  assumes "fl_inv l"
  obtains n xs where "l = fl_of n xs" and "length xs \<le> n"
  using assms fl_inv_fl_of [of l] length_fl_list [of l] by (metis fl_inv_def)

lemma fl_new_eq: "fl_new n = fl_of n []"
  by (simp add: fl_new_def fl_of_def)

lemma fl_clear_eq: "length xs \<le> n \<Longrightarrow> fl_clear (fl_of n xs) = fl_of n []"
  by (simp add: fl_clear_def fl_of_def map_replicate_const flip: replicate_add)

lemma fl_push_eq:
  "length xs \<le> n \<Longrightarrow>
   fl_push (fl_of n xs) v =
     (if length xs = n then (Err (CapacityError n), fl_of n xs)
      else (Ok (), fl_of n (xs @ [v])))"
proof (cases "length xs = n")
  case False
  assume "length xs \<le> n"
  with False have k: "n - length xs = Suc (n - Suc (length xs))" by simp
  show ?thesis
    using False \<open>length xs \<le> n\<close>
    by (simp add: fl_push_def fl_is_full_def) (simp add: fl_of_def k list_update_append)
qed (simp add: fl_push_def fl_is_full_def)

lemma fl_get_eq:
  "length xs \<le> n \<Longrightarrow>
   fl_get (fl_of n xs) i = Ok (if i < length xs then Some (xs ! i) else None)"
  by (simp add: fl_get_def) (simp add: fl_of_def nth_append)

lemma fl_set_eq:
  "length xs \<le> n \<Longrightarrow>
   fl_set (fl_of n xs) i v =
     (if i < length xs then (Ok (), fl_of n (xs[i := v])) else (Panic, fl_of n xs))"
  by (simp add: fl_set_def fl_get_eq) (simp add: fl_of_def list_update_append map_update)

lemma fl_iter_eq: "length xs \<le> n \<Longrightarrow> fl_iter (fl_of n xs) = Ok xs"
  by (simp add: fl_iter_def) (auto simp: fl_of_def comp_def)

text \<open>The loop of \<open>insert\<close> moves the suffix one place up and leaves a hole.\<close>

lemma fl_shift_up_eq:
  "es = ps @ map Some ys @ None # rest \<Longrightarrow> length ps = index \<Longrightarrow>
   fl_shift_up es index (index + length ys) = ps @ None # map Some ys @ rest"
proof (induction ys arbitrary: es rest rule: rev_induct)
  case Nil
  then show ?case by (cases index) simp_all
next
  case (snoc y ys)
  let ?i = "index + length ys"
  have n: "es ! ?i = Some y"
    using snoc.prems by (simp add: nth_append)
  have "es[?i := None, Suc ?i := es ! ?i] = ps @ map Some ys @ None # Some y # rest"
    using snoc.prems n by (simp add: list_update_append)
  then have "fl_shift_up (es[?i := None, Suc ?i := es ! ?i]) index ?i =
      ps @ None # map Some ys @ Some y # rest"
    using snoc.IH [of _ "Some y # rest"] snoc.prems(2) by simp
  then show ?case by simp
qed

lemma fl_insert_eq:
  assumes "length xs \<le> n"
  shows "fl_insert (fl_of n xs) i v =
     (if length xs = n \<or> length xs < i then (Err (CapacityError n), fl_of n xs)
      else (Ok (), fl_of n (take i xs @ v # drop i xs)))"
proof (cases "length xs = n \<or> length xs < i")
  case True
  then show ?thesis using assms by (auto simp: fl_insert_def fl_is_full_def)
next
  case False
  let ?rest = "replicate (n - Suc (length xs)) None"
  have len: "length xs = i + length (drop i xs)" using False by simp
  have es: "fl_entries (fl_of n xs) =
      map Some (take i xs) @ map Some (drop i xs) @ None # ?rest"
    using False assms
    by (simp add: fl_of_def Suc_diff_Suc flip: map_append replicate_Suc)
  have "fl_shift_up (fl_entries (fl_of n xs)) i (length xs) =
      map Some (take i xs) @ None # map Some (drop i xs) @ ?rest"
    using fl_shift_up_eq [OF es] False by simp
  then have "(fl_shift_up (fl_entries (fl_of n xs)) i (length xs))[i := Some v] =
      map Some (take i xs @ v # drop i xs) @ ?rest"
    using False by (simp add: list_update_append)
  then show ?thesis
    using False assms by (simp add: fl_insert_def fl_is_full_def) (simp add: fl_of_def)
qed

text \<open>The loop of \<open>remove\<close> moves the suffix one place down.\<close>

lemma fl_shift_down_eq:
  "es = ps @ None # map Some ys @ rest \<Longrightarrow> length ps = i \<Longrightarrow>
   fl_shift_down es i (i + length ys) = ps @ map Some ys @ None # rest"
proof (induction ys arbitrary: es ps i)
  case Nil
  then show ?case by (simp add: fl_shift_down.simps)
next
  case (Cons y ys)
  have n: "es ! Suc i = Some y"
    using Cons.prems by (simp add: nth_append)
  have "es[Suc i := None, i := es ! Suc i] = (ps @ [Some y]) @ None # map Some ys @ rest"
    using Cons.prems n by (simp add: list_update_append)
  then have "fl_shift_down (es[Suc i := None, i := es ! Suc i]) (Suc i) (Suc i + length ys) =
      (ps @ [Some y]) @ map Some ys @ None # rest"
    using Cons.IH [of _ "ps @ [Some y]" "Suc i"] Cons.prems by simp
  then show ?case by (subst fl_shift_down.simps) simp
qed

lemma fl_remove_eq:
  assumes "length xs \<le> n"
  shows "fl_remove (fl_of n xs) i =
     (if i < length xs then (Ok (Some (xs ! i)), fl_of n (take i xs @ drop (Suc i) xs))
      else (Ok None, fl_of n xs))"
proof (cases "i < length xs")
  case False
  then show ?thesis using assms by (simp add: fl_remove_def)
next
  case True
  let ?ys = "drop (Suc i) xs" and ?rest = "replicate (n - length xs) None"
  have es: "(fl_entries (fl_of n xs))[i := None] = map Some (take i xs) @ None # map Some ?ys @ ?rest"
    using True by (simp add: fl_of_def upd_conv_take_nth_drop list_update_append take_map drop_map)
  have len: "length xs - 1 = i + length ?ys" using True by simp
  have "fl_shift_down ((fl_entries (fl_of n xs))[i := None]) i (length xs - 1) =
      map Some (take i xs) @ map Some ?ys @ None # ?rest"
    unfolding len using True by (intro fl_shift_down_eq [OF es]) simp
  then have "(fl_shift_down ((fl_entries (fl_of n xs))[i := None]) i (length xs - 1))
        [length xs - 1 := None] = map Some (take i xs @ ?ys) @ replicate (Suc (n - length xs)) None"
    using True by (auto simp: list_update_append)
  moreover have "fl_entries (fl_of n xs) ! i = Some (xs ! i)"
    using True by (simp add: fl_of_def nth_append)
  moreover have "Suc (n - length xs) = n - (length xs - 1)" using True assms by simp
  ultimately show ?thesis
    using True assms by (simp add: fl_remove_def) (simp add: fl_of_def)
qed

lemmas fl_of_simps =
  fl_push_eq fl_get_eq fl_set_eq fl_iter_eq fl_insert_eq fl_remove_eq fl_clear_eq fl_new_eq


section \<open>The contract of a bounded list\<close>

text \<open>
  What a client may assume: below capacity the operations are the list
  operations, at capacity they fail and change nothing, and nothing panics.
\<close>

locale bounded_list =
  fixes cap :: "'l \<Rightarrow> nat"
    and contents :: "'l \<Rightarrow> 'a list"
    and valid :: "'l \<Rightarrow> bool"
    and push :: "'l \<Rightarrow> 'a \<Rightarrow> (unit, capacity_error) outcome \<times> 'l"
    and insert_at :: "'l \<Rightarrow> nat \<Rightarrow> 'a \<Rightarrow> (unit, capacity_error) outcome \<times> 'l"
    and remove_at :: "'l \<Rightarrow> nat \<Rightarrow> ('a option, capacity_error) outcome \<times> 'l"
    and lookup :: "'l \<Rightarrow> nat \<Rightarrow> ('a option, capacity_error) outcome"
  assumes within: "valid l \<Longrightarrow> length (contents l) \<le> cap l"
    and push_room: "valid l \<Longrightarrow> length (contents l) < cap l \<Longrightarrow>
      \<exists>l'. push l v = (Ok (), l') \<and> valid l' \<and> cap l' = cap l \<and> contents l' = contents l @ [v]"
    and push_full: "valid l \<Longrightarrow> length (contents l) = cap l \<Longrightarrow>
      push l v = (Err (CapacityError (cap l)), l)"
    and insert_room: "valid l \<Longrightarrow> length (contents l) < cap l \<Longrightarrow> i \<le> length (contents l) \<Longrightarrow>
      \<exists>l'. insert_at l i v = (Ok (), l') \<and> valid l' \<and> cap l' = cap l \<and>
           contents l' = take i (contents l) @ v # drop i (contents l)"
    and insert_full: "valid l \<Longrightarrow> length (contents l) = cap l \<or> length (contents l) < i \<Longrightarrow>
      insert_at l i v = (Err (CapacityError (cap l)), l)"
    and remove_in: "valid l \<Longrightarrow> i < length (contents l) \<Longrightarrow>
      \<exists>l'. remove_at l i = (Ok (Some (contents l ! i)), l') \<and> valid l' \<and> cap l' = cap l \<and>
           contents l' = take i (contents l) @ drop (Suc i) (contents l)"
    and remove_out: "valid l \<Longrightarrow> length (contents l) \<le> i \<Longrightarrow> remove_at l i = (Ok None, l)"
    and lookup_eq: "valid l \<Longrightarrow>
      lookup l i = Ok (if i < length (contents l) then Some (contents l ! i) else None)"
begin

lemma push_fails_iff_full:
  "valid l \<Longrightarrow> fst (push l v) = Err (CapacityError (cap l)) \<longleftrightarrow> length (contents l) = cap l"
  using push_room [of l v] push_full [of l v] within [of l] by fastforce

lemma insert_lookup:
  assumes "valid l" and "insert_at l i v = (Ok (), l')"
  shows "lookup l' i = Ok (Some v)"
proof -
  from assms insert_full [of l i v] within [of l]
  have room: "length (contents l) < cap l" "i \<le> length (contents l)" by fastforce+
  with assms insert_room [of l i v]
  have "valid l'" and "contents l' = take i (contents l) @ v # drop i (contents l)" by auto
  with room show ?thesis by (simp add: lookup_eq nth_append)
qed

lemma insert_remove:
  assumes "valid l" and "insert_at l i v = (Ok (), l')"
  shows "\<exists>l''. remove_at l' i = (Ok (Some v), l'') \<and> contents l'' = contents l \<and> cap l'' = cap l"
proof -
  from assms insert_full [of l i v] within [of l]
  have room: "length (contents l) < cap l" "i \<le> length (contents l)" by fastforce+
  with assms insert_room [of l i v]
  have l': "valid l'" "cap l' = cap l" "contents l' = take i (contents l) @ v # drop i (contents l)"
    by auto
  then have "i < length (contents l')" using room by simp
  from remove_in [OF l'(1) this] l' room show ?thesis
    by (auto simp: nth_append)
qed

end

interpretation fl: bounded_list fl_capacity fl_list fl_inv fl_push fl_insert fl_remove fl_get
  by unfold_locales (auto elim!: fl_invE simp: fl_of_simps)

text \<open>
  Inserting into a fixed list that has room and then removing at the same
  index returns the inserted value and restores the contents; neither panics.
\<close>

theorem fl_insert_remove_roundtrip:
  assumes "fl_inv l" and "fl_insert l i v = (Ok (), l')"
  shows "fl_get l' i = (Ok (Some v) :: ('a option, capacity_error) outcome) \<and>
    (\<exists>l''. fl_remove l' i = ((Ok (Some v) :: ('a option, capacity_error) outcome), l'') \<and>
               fl_list l'' = fl_list l \<and> fl_capacity l'' = fl_capacity l)"
  using fl.insert_lookup [OF assms] fl.insert_remove [OF assms] by blast

theorem fl_insert_remove_roundtrip_witness:
  "\<exists>l'. fl_insert (fl_of 4 [10, 30 :: nat]) 1 20 = (Ok (), l') \<and>
        fl_get l' 1 = (Ok (Some 20) :: (nat option, capacity_error) outcome)"
proof -
  have i: "fl_inv (fl_of 4 [10, 30 :: nat])" by simp
  have o: "fl_insert (fl_of 4 [10, 30 :: nat]) 1 20 = (Ok (), fl_of 4 [10, 20, 30])"
    by (simp add: fl_insert_eq)
  show ?thesis using o fl_insert_remove_roundtrip [OF i o] by blast
qed

end
