(* ===== verification/Memory_Map.thy ===== *)
theory Memory_Map
  imports System_Info Fixed_List
begin

text \<open>
  The physical memory map (\<open>tvisor_util/memory_map.rs\<close>): sorted, merged lists of
  RAM, permanent reservations and MMIO windows, and the usable RAM \<open>finalize\<close>
  derives by subtraction. The index loops of \<open>insert_sorted_merged\<close> are modelled
  as written, on the fixed list with its shifting; they are then shown to refine a
  recursive insertion on lists, and the meaning of the map is stated on sets of
  physical addresses.
\<close>

section \<open>Data\<close>

definition MAX_RAM_REGIONS :: nat where "MAX_RAM_REGIONS = 8"
definition MAX_MMIO_REGIONS :: nat where "MAX_MMIO_REGIONS = 64"
definition MAX_NORMALIZED_RESERVED_REGIONS :: nat where "MAX_NORMALIZED_RESERVED_REGIONS = 192"
definition MAX_USABLE_RAM_REGIONS :: nat where
  "MAX_USABLE_RAM_REGIONS = MAX_RAM_REGIONS + MAX_NORMALIZED_RESERVED_REGIONS"

datatype memory_map_error =
    MapCapacity nat
  | InvalidRegion region_error
  | RamMmioConflict phys_region phys_region

record memory_map =
  mm_ram :: "phys_region fixed_list"
  mm_reserved :: "phys_region fixed_list"
  mm_mmio :: "phys_region fixed_list"
  mm_usable :: "phys_region fixed_list"

definition mm_empty :: memory_map where
  "mm_empty = \<lparr>mm_ram = fl_new MAX_RAM_REGIONS,
               mm_reserved = fl_new MAX_NORMALIZED_RESERVED_REGIONS,
               mm_mmio = fl_new MAX_MMIO_REGIONS,
               mm_usable = fl_new MAX_USABLE_RAM_REGIONS\<rparr>"

definition mm_clear :: "memory_map \<Rightarrow> memory_map" where
  "mm_clear m = \<lparr>mm_ram = fl_clear (mm_ram m), mm_reserved = fl_clear (mm_reserved m),
                 mm_mmio = fl_clear (mm_mmio m), mm_usable = fl_clear (mm_usable m)\<rparr>"

section \<open>Sorted, merged insertion\<close>

definition merge_regions ::
  "phys_region \<Rightarrow> phys_region \<Rightarrow> (phys_region, memory_map_error) outcome" where
  "merge_regions a b =
     (let start = (if region_start a < region_start b then region_start a else region_start b);
          end' = (if region_end b < region_end a then region_end a else region_end b)
      in map_err InvalidRegion (region_from_bounds start end'))"

definition region_touches :: "phys_region \<Rightarrow> phys_region \<Rightarrow> bool" where
  "region_touches a b \<longleftrightarrow> region_overlaps a b \<or> region_is_adjacent a b"

text \<open>\<open>list.get(index).unwrap()\<close>\<close>

definition region_at :: "phys_region fixed_list \<Rightarrow> nat \<Rightarrow> (phys_region, memory_map_error) outcome" where
  "region_at l index = and_then (fl_get l index) unwrap"

function find_insert_index ::
  "phys_region fixed_list \<Rightarrow> phys_region \<Rightarrow> nat \<Rightarrow> (nat, memory_map_error) outcome" where
  "find_insert_index l region index =
     (if index < fl_len l
      then and_then (region_at l index) (\<lambda>x.
             if region_start x < region_start region
             then find_insert_index l region (Suc index) else Ok index)
      else Ok index)"
  by pat_completeness auto
termination
  by (relation "measure (\<lambda>(l, region, index). fl_len l - index)") auto

declare find_insert_index.simps [simp del]

lemma fl_set_len: "fl_set l i v = (r, l') \<Longrightarrow> fl_len l' = fl_len l"
  by (auto simp: fl_set_def split: outcome.splits option.splits)

lemma fl_remove_len:
  "fl_remove l i = (Ok x, l') \<Longrightarrow> i < fl_len l \<Longrightarrow> fl_len l' = fl_len l - 1"
  by (auto simp: fl_remove_def split: if_splits)

text \<open>
  The \<open>while\<close> loop that both merging branches run: absorb the entry at \<open>index\<close>
  into its predecessor as long as the two overlap or are adjacent.
\<close>

function absorb_following ::
  "phys_region fixed_list \<Rightarrow> nat \<Rightarrow> (unit, memory_map_error) outcome \<times> phys_region fixed_list" where
  "absorb_following l index =
     (if index < fl_len l
      then st_then (st_lift (region_at l (index - 1)) l) (\<lambda>previous _.
           st_then (st_lift (region_at l index) l) (\<lambda>current _.
             if region_touches previous current
             then st_then (st_lift (merge_regions previous current) l) (\<lambda>new_merged _.
                  st_then (fl_set l (index - 1) new_merged) (\<lambda>_ l1.
                  st_then (fl_remove l1 index) (\<lambda>_ l2.
                    absorb_following l2 index)))
             else (Ok (), l)))
      else (Ok (), l))"
  by pat_completeness auto
termination
  by (relation "measure (\<lambda>(l, index). fl_len l - index)")
    (auto simp: st_lift_def dest!: fl_set_len fl_remove_len)

declare absorb_following.simps [simp del]

definition merge_or_insert_current ::
  "phys_region fixed_list \<Rightarrow> phys_region \<Rightarrow> nat \<Rightarrow>
   (unit, memory_map_error) outcome \<times> phys_region fixed_list" where
  "merge_or_insert_current l region index =
     (let insert_new = st_map_err (\<lambda>_. MapCapacity (fl_capacity l)) (fl_insert l index region)
      in if index < fl_len l
         then st_then (st_lift (region_at l index) l) (\<lambda>current _.
                if region_touches current region
                then st_then (st_lift (merge_regions current region) l) (\<lambda>merged _.
                     st_then (fl_set l index merged) (\<lambda>_ l1.
                       absorb_following l1 (index + 1)))
                else insert_new)
         else insert_new)"

definition insert_sorted_merged ::
  "phys_region fixed_list \<Rightarrow> phys_region \<Rightarrow>
   (unit, memory_map_error) outcome \<times> phys_region fixed_list" where
  "insert_sorted_merged l region =
     st_then (st_lift (find_insert_index l region 0) l) (\<lambda>index _.
       if 0 < index
       then st_then (st_lift (region_at l (index - 1)) l) (\<lambda>prev _.
              if region_touches prev region
              then st_then (st_lift (merge_regions prev region) l) (\<lambda>merged _.
                   st_then (fl_set l (index - 1) merged) (\<lambda>_ l1.
                     absorb_following l1 index))
              else merge_or_insert_current l region index)
       else merge_or_insert_current l region index)"

definition insert_ram :: "memory_map \<Rightarrow> phys_region \<Rightarrow> (unit, memory_map_error) outcome \<times> memory_map" where
  "insert_ram m region =
     (let (r, l) = insert_sorted_merged (mm_ram m) region in (r, m\<lparr>mm_ram := l\<rparr>))"

definition insert_reserved :: "memory_map \<Rightarrow> phys_region \<Rightarrow> (unit, memory_map_error) outcome \<times> memory_map" where
  "insert_reserved m region =
     (let (r, l) = insert_sorted_merged (mm_reserved m) region in (r, m\<lparr>mm_reserved := l\<rparr>))"

definition insert_mmio :: "memory_map \<Rightarrow> phys_region \<Rightarrow> (unit, memory_map_error) outcome \<times> memory_map" where
  "insert_mmio m region =
     (let (r, l) = insert_sorted_merged (mm_mmio m) region in (r, m\<lparr>mm_mmio := l\<rparr>))"

section \<open>Finalization\<close>

definition push_bounds ::
  "phys_region fixed_list \<Rightarrow> phys_addr \<Rightarrow> phys_addr \<Rightarrow>
   (unit, memory_map_error) outcome \<times> phys_region fixed_list" where
  "push_bounds output s e =
     st_then (st_lift (map_err InvalidRegion (region_from_bounds s e)) output) (\<lambda>r _.
       st_map_err (\<lambda>_. MapCapacity (fl_capacity output)) (fl_push output r))"

fun subtract_loop ::
  "phys_region \<Rightarrow> phys_addr \<Rightarrow> phys_region list \<Rightarrow> phys_region fixed_list \<Rightarrow>
   (unit, memory_map_error) outcome \<times> phys_region fixed_list" where
  "subtract_loop ram cursor [] output =
     (if cursor < region_end ram then push_bounds output cursor (region_end ram)
      else (Ok (), output))"
| "subtract_loop ram cursor (reservation # rest) output =
     (if region_end reservation \<le> cursor \<or> region_end ram \<le> region_start reservation
      then subtract_loop ram cursor rest output
      else st_then
             (if cursor < region_start reservation
              then push_bounds output cursor (region_start reservation)
              else (Ok (), output))
             (\<lambda>_ output'.
                if region_end ram \<le> region_end reservation then (Ok (), output')
                else subtract_loop ram (region_end reservation) rest output'))"

definition subtract_all ::
  "phys_region \<Rightarrow> phys_region fixed_list \<Rightarrow> phys_region fixed_list \<Rightarrow>
   (unit, memory_map_error) outcome \<times> phys_region fixed_list" where
  "subtract_all ram reserved output =
     st_then (st_lift (fl_iter reserved) output) (\<lambda>rs _.
       subtract_loop ram (region_start ram) rs output)"

fun find_conflict :: "phys_region \<Rightarrow> phys_region list \<Rightarrow> (unit, memory_map_error) outcome" where
  "find_conflict ram [] = Ok ()"
| "find_conflict ram (mmio # rest) =
     (if region_overlaps ram mmio then Err (RamMmioConflict ram mmio) else find_conflict ram rest)"

fun find_conflicts :: "phys_region list \<Rightarrow> phys_region list \<Rightarrow> (unit, memory_map_error) outcome" where
  "find_conflicts [] mmios = Ok ()"
| "find_conflicts (ram # rest) mmios =
     and_then (find_conflict ram mmios) (\<lambda>_. find_conflicts rest mmios)"

fun subtract_each ::
  "phys_region list \<Rightarrow> phys_region fixed_list \<Rightarrow> phys_region fixed_list \<Rightarrow>
   (unit, memory_map_error) outcome \<times> phys_region fixed_list" where
  "subtract_each [] reserved output = (Ok (), output)"
| "subtract_each (ram # rest) reserved output =
     st_then (subtract_all ram reserved output) (\<lambda>_ output'. subtract_each rest reserved output')"

definition finalize :: "memory_map \<Rightarrow> (unit, memory_map_error) outcome \<times> memory_map" where
  "finalize m =
     st_then (st_lift (and_then (fl_iter (mm_ram m)) (\<lambda>rams.
                       and_then (fl_iter (mm_mmio m)) (\<lambda>mmios.
                       and_then (find_conflicts rams mmios) (\<lambda>_. Ok rams)))) m) (\<lambda>rams _.
       let (r, l) = subtract_each rams (mm_reserved m) (fl_clear (mm_usable m))
       in (r, m\<lparr>mm_usable := l\<rparr>))"


section \<open>Canonical lists and the address sets they denote\<close>

definition canonical :: "phys_region list \<Rightarrow> bool" where
  "canonical xs \<longleftrightarrow> (\<forall>x \<in> set xs. region_wf x) \<and>
                   sorted_wrt (\<lambda>a b. region_end a < region_start b) xs"

definition regions_addrs :: "phys_region list \<Rightarrow> phys_addr set" where
  "regions_addrs xs = (\<Union>x \<in> set xs. region_addrs x)"

lemma regions_addrs_simps [simp]:
  "regions_addrs [] = {}"
  "regions_addrs (x # xs) = region_addrs x \<union> regions_addrs xs"
  "regions_addrs (xs @ ys) = regions_addrs xs \<union> regions_addrs ys"
  by (auto simp: regions_addrs_def)

lemma canonical_simps [simp]:
  "canonical []"
  "canonical (x # xs) \<longleftrightarrow>
     region_wf x \<and> (\<forall>y \<in> set xs. region_end x < region_start y) \<and> canonical xs"
  by (auto simp: canonical_def)

lemma canonical_append:
  "canonical (xs @ ys) \<longleftrightarrow> canonical xs \<and> canonical ys \<and>
     (\<forall>x \<in> set xs. \<forall>y \<in> set ys. region_end x < region_start y)"
  by (auto simp: canonical_def sorted_wrt_append)

lemma canonical_wf: "canonical xs \<Longrightarrow> x \<in> set xs \<Longrightarrow> region_wf x"
  by (auto simp: canonical_def)

text \<open>The region \<open>merge_regions\<close> returns on well-formed arguments.\<close>

definition region_hull :: "phys_region \<Rightarrow> phys_region \<Rightarrow> phys_region" where
  "region_hull a b =
     \<lparr>region_start = min (region_start a) (region_start b),
      region_size = max (region_end a) (region_end b) - min (region_start a) (region_start b)\<rparr>"

lemma hull_bounds [simp]:
  "region_start (region_hull a b) = min (region_start a) (region_start b)"
  "region_end (region_hull a b) = max (region_end a) (region_end b)"
  by (simp_all add: region_hull_def region_end_def)

lemma merge_regions_eq:
  assumes "region_wf a" and "region_wf b"
  shows "merge_regions a b = Ok (region_hull a b)" and "region_wf (region_hull a b)"
proof -
  let ?s = "min (region_start a) (region_start b)" and ?e = "max (region_end a) (region_end b)"
  have lt: "?s < ?e"
    using assms [THEN region_start_less_end] by (auto simp: min_def max_def)
  have e: "(if region_start a < region_start b then region_start a else region_start b) = ?s"
    "(if region_end b < region_end a then region_end a else region_end b) = ?e"
    by (auto simp: min_def max_def)
  obtain r where r: "region_from_bounds ?s ?e = Ok r" "region_wf r"
      "region_start r = ?s" "region_end r = ?e"
    using region_from_bounds_Ok [OF lt] by blast
  then have "r = region_hull a b" by (intro region_eqI) simp_all
  with r e show "merge_regions a b = Ok (region_hull a b)" "region_wf (region_hull a b)"
    by (simp_all add: merge_regions_def)
qed

lemma touches_iff:
  assumes "region_wf a" and "region_wf b"
  shows "region_touches a b \<longleftrightarrow> region_start a \<le> region_end b \<and> region_start b \<le> region_end a"
  using assms [THEN region_start_less_end]
  by (auto simp: region_touches_def region_overlaps_def region_is_adjacent_def order_le_less)

lemma hull_addrs:
  assumes "region_wf a" and "region_wf b" and "region_touches a b"
  shows "region_addrs (region_hull a b) = region_addrs a \<union> region_addrs b"
  using assms(3) assms(1,2) [THEN region_start_less_end]
  by (auto simp: touches_iff [OF assms(1,2)] region_addrs_mem min_def max_def split: if_splits)

section \<open>Insertion refines a recursive insertion on lists\<close>

fun absorb :: "phys_region \<Rightarrow> phys_region list \<Rightarrow> phys_region list" where
  "absorb p [] = [p]"
| "absorb p (x # xs) =
     (if region_touches p x then absorb (region_hull p x) xs else p # x # xs)"

fun insert_merge :: "phys_region \<Rightarrow> phys_region list \<Rightarrow> phys_region list" where
  "insert_merge r [] = [r]"
| "insert_merge r (x # xs) =
     (if region_touches x r then absorb (region_hull x r) xs
      else if region_start x < region_start r then x # insert_merge r xs
      else r # x # xs)"

lemma region_at_fl_of:
  "length xs \<le> n \<Longrightarrow> i < length xs \<Longrightarrow> region_at (fl_of n xs) i = Ok (xs ! i)"
  by (simp add: region_at_def fl_get_eq)

lemma find_insert_index_eq:
  assumes "length (ps @ xs) \<le> n"
  shows "find_insert_index (fl_of n (ps @ xs)) r (length ps) =
     Ok (length ps + length (takeWhile (\<lambda>x. region_start x < region_start r) xs))"
  using assms
proof (induction xs arbitrary: ps)
  case Nil
  then show ?case by (simp add: find_insert_index.simps)
next
  case (Cons x xs)
  have "find_insert_index (fl_of n ((ps @ [x]) @ xs)) r (length (ps @ [x])) =
     Ok (length (ps @ [x]) + length (takeWhile (\<lambda>x. region_start x < region_start r) xs))"
    using Cons.prems by (intro Cons.IH) simp
  with Cons.prems show ?case
    by (subst find_insert_index.simps) (simp add: region_at_fl_of nth_append)
qed

lemma absorb_following_eq:
  assumes "length (ps @ p # xs) \<le> n" and "\<forall>x \<in> set (p # xs). region_wf x"
  shows "absorb_following (fl_of n (ps @ p # xs)) (Suc (length ps)) =
     (Ok (), fl_of n (ps @ absorb p xs))"
  using assms
proof (induction xs arbitrary: p)
  case Nil
  then show ?case by (simp add: absorb_following.simps)
next
  case (Cons x xs)
  have at: "region_at (fl_of n (ps @ p # x # xs)) (length ps) = Ok p"
    "region_at (fl_of n (ps @ p # x # xs)) (Suc (length ps)) = Ok x"
    using Cons.prems by (simp_all add: region_at_fl_of nth_append)
  show ?case
  proof (cases "region_touches p x")
    case False
    with at show ?thesis by (subst absorb_following.simps) simp
  next
    case True
    have m: "merge_regions p x = Ok (region_hull p x)" "region_wf (region_hull p x)"
      using merge_regions_eq [of p x] Cons.prems(2) by simp_all
    have "absorb_following (fl_of n (ps @ region_hull p x # xs)) (Suc (length ps)) =
       (Ok (), fl_of n (ps @ absorb (region_hull p x) xs))"
      using Cons.prems m by (intro Cons.IH) auto
    with Cons.prems True at m show ?thesis
      by (subst absorb_following.simps)
        (simp add: fl_set_eq fl_remove_eq list_update_append nth_append)
  qed
qed


lemma insert_merge_skip:
  "\<forall>x \<in> set ps. \<not> region_touches x r \<and> region_start x < region_start r \<Longrightarrow>
   insert_merge r (ps @ qs) = ps @ insert_merge r qs"
  by (induction ps) auto

lemma merge_or_insert_current_eq:
  assumes len: "length (ps @ qs) \<le> n" and can: "canonical (ps @ qs)" and wf: "region_wf r"
    and ps: "\<forall>x \<in> set ps. \<not> region_touches x r" and qs: "\<forall>x \<in> set qs. region_start r \<le> region_start x"
  shows "merge_or_insert_current (fl_of n (ps @ qs)) r (length ps) =
     (if length (ps @ qs) = n \<and> (\<forall>x \<in> set (ps @ qs). \<not> region_touches x r)
      then (Err (MapCapacity n), fl_of n (ps @ qs))
      else (Ok (), fl_of n (ps @ insert_merge r qs)))"
proof (cases qs)
  case Nil
  with len ps show ?thesis
    by (simp add: merge_or_insert_current_def fl_insert_eq)
next
  case (Cons q qs')
  have wfq: "region_wf q" "\<forall>x \<in> set qs'. region_wf x" "\<forall>x \<in> set qs'. region_end q < region_start x"
    using can Cons by (auto simp: canonical_append dest: canonical_wf)
  have at: "region_at (fl_of n (ps @ q # qs')) (length ps) = Ok q"
    using len Cons by (simp add: region_at_fl_of nth_append)
  show ?thesis
  proof (cases "region_touches q r")
    case True
    have m: "merge_regions q r = Ok (region_hull q r)" "region_wf (region_hull q r)"
      using merge_regions_eq [OF wfq(1) wf] by simp_all
    have "absorb_following (fl_of n (ps @ region_hull q r # qs')) (Suc (length ps)) =
        (Ok (), fl_of n (ps @ absorb (region_hull q r) qs'))"
      using len Cons m wfq by (intro absorb_following_eq) auto
    with True Cons at m len show ?thesis
      by (simp add: merge_or_insert_current_def fl_set_eq list_update_append)
  next
    case False
    have "\<not> region_touches x r" if "x \<in> set qs'" for x
    proof -
      have "region_end r < region_start q"
        using False qs Cons region_start_less_end [OF wfq(1)]
        by (auto simp: touches_iff [OF wfq(1) wf] not_le)
      moreover have "region_end q < region_start x" "region_wf x" using wfq that by auto
      ultimately have "region_end r < region_start x"
        using region_start_less_end [OF wfq(1)] by (meson order.strict_trans)
      then show ?thesis using touches_iff [OF \<open>region_wf x\<close> wf] by (simp add: not_le)
    qed
    moreover have "\<not> region_start q < region_start r" using qs Cons by (simp add: not_less)
    ultimately show ?thesis
      using False Cons at len ps by (auto simp: merge_or_insert_current_def fl_insert_eq)
  qed
qed

lemma insert_sorted_merged_eq:
  assumes len: "length xs \<le> n" and can: "canonical xs" and wf: "region_wf r"
  shows "insert_sorted_merged (fl_of n xs) r =
     (if length xs = n \<and> (\<forall>x \<in> set xs. \<not> region_touches x r)
      then (Err (MapCapacity n), fl_of n xs)
      else (Ok (), fl_of n (insert_merge r xs)))"
proof -
  let ?P = "\<lambda>x. region_start x < region_start r"
  define ps qs where "ps = takeWhile ?P xs" and "qs = dropWhile ?P xs"
  have xs: "xs = ps @ qs" by (simp add: ps_def qs_def)
  have lt: "\<forall>x \<in> set ps. ?P x" by (auto simp: ps_def dest: set_takeWhileD)
  have ge: "\<forall>x \<in> set qs. region_start r \<le> region_start x"
  proof
    fix x assume x: "x \<in> set qs"
    then obtain q qs' where q: "qs = q # qs'" by (cases qs) auto
    then have "region_start r \<le> region_start q"
      using hd_dropWhile [of ?P xs] by (auto simp: qs_def not_less)
    moreover have "region_start q \<le> region_start x"
      using x q can xs region_start_less_end [of q]
      by (auto simp: canonical_append dest!: bspec intro: order.trans less_imp_le)
    ultimately show "region_start r \<le> region_start x" by (rule order.trans)
  qed
  have idx: "find_insert_index (fl_of n xs) r 0 = Ok (length ps)"
    using find_insert_index_eq [of "[]" xs n r] len by (simp add: ps_def)
  show ?thesis
  proof (cases ps rule: rev_cases)
    case Nil
    then show ?thesis
      using merge_or_insert_current_eq [of "[]" qs n r] idx len can wf ge xs
      by (simp add: insert_sorted_merged_def)
  next
    case (snoc ps' p)
    have wfp: "region_wf p" "\<forall>x \<in> set ps'. region_wf x \<and> region_end x < region_start p"
      and wfqs: "\<forall>x \<in> set qs. region_wf x"
      using can xs snoc by (auto simp: canonical_append dest: canonical_wf)
    have nt: "\<not> region_touches x r" if "x \<in> set ps'" for x
    proof -
      have "region_end x < region_start r" using wfp that lt snoc by (auto intro: order.strict_trans)
      then show ?thesis using touches_iff [of x r] wfp that wf by (auto simp: not_le)
    qed
    have at: "region_at (fl_of n xs) (length ps') = Ok p"
      using len xs snoc by (simp add: region_at_fl_of nth_append)
    show ?thesis
    proof (cases "region_touches p r")
      case True
      have m: "merge_regions p r = Ok (region_hull p r)" "region_wf (region_hull p r)"
        using merge_regions_eq [OF wfp(1) wf] by simp_all
      have "absorb_following (fl_of n (ps' @ region_hull p r # qs)) (Suc (length ps')) =
          (Ok (), fl_of n (ps' @ absorb (region_hull p r) qs))"
        using len xs snoc m wfqs by (intro absorb_following_eq) auto
      moreover have "insert_merge r xs = ps' @ absorb (region_hull p r) qs"
        using insert_merge_skip [of ps' r "p # qs"] nt lt snoc xs True by simp
      ultimately show ?thesis
        using True idx at m len xs snoc
        by (simp add: insert_sorted_merged_def fl_set_eq list_update_append)
    next
      case False
      then have "\<forall>x \<in> set ps. \<not> region_touches x r" using nt snoc by auto
      moreover from this have "insert_merge r xs = ps @ insert_merge r qs"
        using insert_merge_skip [of ps r qs] lt xs by simp
      ultimately show ?thesis
        using merge_or_insert_current_eq [of ps qs n r] False idx at len can wf ge xs snoc
        by (simp add: insert_sorted_merged_def)
    qed
  qed
qed


section \<open>What insertion means\<close>

lemma absorb_addrs:
  "\<forall>x \<in> set (p # xs). region_wf x \<Longrightarrow>
   regions_addrs (absorb p xs) = region_addrs p \<union> regions_addrs xs"
proof (induction p xs rule: absorb.induct)
  case (2 p x xs)
  then show ?case using merge_regions_eq(2) [of p x] hull_addrs [of p x] by auto
qed simp

lemma absorb_canonical:
  "region_wf p \<Longrightarrow> canonical xs \<Longrightarrow> \<forall>x \<in> set xs. region_start p \<le> region_start x \<Longrightarrow>
   canonical (absorb p xs) \<and> (\<forall>y \<in> set (absorb p xs). region_start p \<le> region_start y)"
proof (induction p xs rule: absorb.induct)
  case (2 p x xs)
  have wf: "region_wf x" and lt: "\<forall>y \<in> set xs. region_end x < region_start y"
    using "2.prems" by auto
  show ?case
  proof (cases "region_touches p x")
    case True
    have min: "min (region_start p) (region_start x) = region_start p" using "2.prems" by simp
    then show ?thesis
      using "2.IH" [OF True] "2.prems" merge_regions_eq(2) [of p x] True by simp
  next
    case False
    then have "region_end p < region_start x"
      using "2.prems" touches_iff [of p x] region_start_less_end [OF wf] by (auto simp: not_le)
    moreover have "region_end p < region_start y" if "y \<in> set xs" for y
      using calculation lt that region_start_less_end [OF wf] by (meson order.strict_trans)
    ultimately show ?thesis using "2.prems" False by auto
  qed
qed simp

lemma absorb_length: "length (absorb p xs) \<le> Suc (length xs)"
  by (induction p xs rule: absorb.induct) auto

lemma insert_merge_addrs:
  "canonical xs \<Longrightarrow> region_wf r \<Longrightarrow>
   regions_addrs (insert_merge r xs) = region_addrs r \<union> regions_addrs xs"
proof (induction xs)
  case (Cons x xs)
  then have "\<forall>y \<in> set xs. region_wf y" by (auto dest: canonical_wf)
  with Cons show ?case
    using merge_regions_eq(2) [of x r] hull_addrs [of x r] absorb_addrs [of "region_hull x r" xs]
    by auto
qed simp

lemma insert_merge_canonical:
  assumes "canonical xs" and "region_wf r"
  shows "canonical (insert_merge r xs) \<and>
     (\<forall>b. b < region_start r \<longrightarrow> (\<forall>x \<in> set xs. b < region_start x) \<longrightarrow>
          (\<forall>y \<in> set (insert_merge r xs). b < region_start y))"
  using assms
proof (induction xs)
  case (Cons x xs)
  have wf: "region_wf x" and lt: "\<forall>y \<in> set xs. region_end x < region_start y"
    using Cons.prems by auto
  note se = region_start_less_end [OF wf] region_start_less_end [OF Cons.prems(2)]
  consider (touch) "region_touches x r"
    | (skip) "\<not> region_touches x r" "region_start x < region_start r"
    | (front) "\<not> region_touches x r" "region_start r \<le> region_start x"
    by fastforce
  then show ?case
  proof cases
    case touch
    let ?h = "region_hull x r"
    have le: "region_start ?h \<le> region_start y" if "y \<in> set xs" for y
    proof -
      have "region_start x < region_start y" using lt that se by (meson order.strict_trans)
      then show ?thesis by (simp add: min_le_iff_disj less_imp_le)
    qed
    have a: "canonical (absorb ?h xs) \<and> (\<forall>y \<in> set (absorb ?h xs). region_start ?h \<le> region_start y)"
      using Cons.prems merge_regions_eq(2) [of x r] le by (intro absorb_canonical) auto
    have "b < region_start y"
      if "b < region_start r" "b < region_start x" "y \<in> set (absorb ?h xs)" for b y
    proof -
      have "b < region_start ?h" using that by simp
      also have "\<dots> \<le> region_start y" using a that by blast
      finally show ?thesis .
    qed
    with a touch show ?thesis by simp
  next
    case skip
    then have "region_end x < region_start r"
      using touches_iff [OF wf Cons.prems(2)] se by (auto simp: not_le)
    then show ?thesis using Cons skip by auto
  next
    case front
    then have "region_end r < region_start x"
      using touches_iff [OF wf Cons.prems(2)] se by (auto simp: not_le)
    moreover from this have "\<forall>y \<in> set xs. region_end r < region_start y"
      using lt se by (meson order.strict_trans)
    ultimately show ?thesis using Cons.prems front by (auto simp: not_less)
  qed
qed simp

section \<open>What subtraction means\<close>

definition bounds_region :: "phys_addr \<Rightarrow> phys_addr \<Rightarrow> phys_region" where
  "bounds_region s e = \<lparr>region_start = s, region_size = e - s\<rparr>"

lemma bounds_region_simps [simp]:
  "region_start (bounds_region s e) = s" "region_end (bounds_region s e) = e"
  by (simp_all add: bounds_region_def region_end_def)

lemma bounds_region_wf: "s < e \<Longrightarrow> region_wf (bounds_region s e)"
  using region_from_bounds_Ok [of s e] by (auto simp: region_from_bounds_Ok_iff bounds_region_def)

fun pieces :: "phys_region \<Rightarrow> phys_addr \<Rightarrow> phys_region list \<Rightarrow> phys_region list" where
  "pieces ram c [] = (if c < region_end ram then [bounds_region c (region_end ram)] else [])"
| "pieces ram c (x # xs) =
     (if region_end x \<le> c \<or> region_end ram \<le> region_start x then pieces ram c xs
      else (if c < region_start x then [bounds_region c (region_start x)] else []) @
           (if region_end ram \<le> region_end x then [] else pieces ram (region_end x) xs))"

lemma push_bounds_eq:
  "s < e \<Longrightarrow> length out < n \<Longrightarrow>
   push_bounds (fl_of n out) s e = (Ok (), fl_of n (out @ [bounds_region s e]))"
proof -
  assume "s < e" and n: "length out < n"
  then have "region_from_bounds s e = Ok (bounds_region s e)"
    by (simp add: region_from_bounds_Ok_iff bounds_region_def)
  with n show ?thesis by (simp add: push_bounds_def fl_push_eq)
qed

lemma subtract_loop_eq:
  "length out + length (pieces ram c rs) \<le> n \<Longrightarrow>
   subtract_loop ram c rs (fl_of n out) = (Ok (), fl_of n (out @ pieces ram c rs))"
  by (induction ram c rs arbitrary: out rule: pieces.induct) (auto simp: push_bounds_eq)

lemma pieces_addrs:
  "canonical rs \<Longrightarrow>
   regions_addrs (pieces ram c rs) = {a. c \<le> a \<and> a < region_end ram} - regions_addrs rs"
proof (induction ram c rs rule: pieces.induct)
  case (1 ram c)
  then show ?case by (auto simp: region_addrs_mem)
next
  case (2 ram c x xs)
  have wf: "region_start x < region_end x" using "2.prems" region_start_less_end by auto
  have later: "region_end x < a" if "a \<in> regions_addrs xs" for a
    using that "2.prems"
    by (auto simp: regions_addrs_def region_addrs_mem intro: order.strict_trans2)
  show ?case
  proof (cases "region_end x \<le> c \<or> region_end ram \<le> region_start x")
    case True
    with "2.IH"(1) "2.prems" show ?thesis by (auto simp: region_addrs_mem)
  next
    case False
    show ?thesis
    proof (cases "region_end ram \<le> region_end x")
      case True
      have "a \<notin> regions_addrs xs" if "a < region_start x" for a
        using that wf later by (meson order.strict_trans order.asym)
      with True False wf show ?thesis
        by (auto simp: region_addrs_mem not_le)
    next
      case False': False
      have "a \<notin> regions_addrs xs" if "a < region_start x" for a
        using that wf later by (meson order.strict_trans order.asym)
      with False False' "2.IH"(2) "2.prems" wf show ?thesis
        by (auto simp: region_addrs_mem not_le)
    qed
  qed
qed


lemma pieces_canonical:
  "canonical rs \<Longrightarrow>
   canonical (pieces ram c rs) \<and>
   (\<forall>y \<in> set (pieces ram c rs). c \<le> region_start y \<and> region_end y \<le> region_end ram)"
proof (induction ram c rs rule: pieces.induct)
  case (1 ram c)
  then show ?case by (auto simp: bounds_region_wf)
next
  case (2 ram c x xs)
  have wf: "region_start x < region_end x" using "2.prems" region_start_less_end by auto
  show ?case
  proof (cases "region_end x \<le> c \<or> region_end ram \<le> region_start x")
    case True
    with "2" show ?thesis by simp
  next
    case False
    show ?thesis
    proof (cases "region_end ram \<le> region_end x")
      case True
      with False show ?thesis by (auto simp: bounds_region_wf not_le)
    next
      case False': False
      have IH: "canonical (pieces ram (region_end x) xs)"
        "\<And>y. y \<in> set (pieces ram (region_end x) xs) \<Longrightarrow>
          region_end x \<le> region_start y \<and> region_end y \<le> region_end ram"
        using "2.IH"(2) [OF False False'] "2.prems" by auto
      have "region_start x < region_start y \<and> c \<le> region_start y"
        if "y \<in> set (pieces ram (region_end x) xs)" for y
        using IH(2) [OF that] wf False by (auto simp: not_le intro: order.strict_trans2 less_imp_le)
      with IH False False' show ?thesis by (auto simp: bounds_region_wf not_le)
    qed
  qed
qed

text \<open>
  Every piece but the last of a RAM region ends where a reservation inside that
  region starts, so the pieces of all regions never outnumber the RAM regions and
  the reservations together: the capacity of \<open>usable_ram\<close> always suffices.
\<close>

definition starts_inside :: "phys_region \<Rightarrow> phys_addr \<Rightarrow> phys_region \<Rightarrow> bool" where
  "starts_inside ram c x \<longleftrightarrow> c < region_start x \<and> region_start x < region_end ram"

lemma pieces_length:
  "canonical rs \<Longrightarrow>
   length (pieces ram c rs) \<le> Suc (length (filter (starts_inside ram c) rs))"
proof (induction ram c rs rule: pieces.induct)
  case (1 ram c)
  then show ?case by simp
next
  case (2 ram c x xs)
  show ?case
  proof (cases "region_end x \<le> c \<or> region_end ram \<le> region_start x")
    case True
    with "2.IH"(1) "2.prems" show ?thesis by simp
  next
    case False
    then have "length (filter (starts_inside ram (region_end x)) xs) \<le>
        length (filter (starts_inside ram c) xs)"
      by (intro length_filter_le_filter) (auto simp: starts_inside_def not_le intro: order.strict_trans)
    moreover have "starts_inside ram c x \<longleftrightarrow> c < region_start x"
      using False by (auto simp: starts_inside_def)
    ultimately show ?thesis using False "2.IH"(2) "2.prems" by auto
  qed
qed

definition all_pieces :: "phys_region list \<Rightarrow> phys_region list \<Rightarrow> phys_region list" where
  "all_pieces rams rs = concat (map (\<lambda>ram. pieces ram (region_start ram) rs) rams)"

lemma all_pieces_Cons [simp]:
  "all_pieces (ram # rams) rs = pieces ram (region_start ram) rs @ all_pieces rams rs"
  "all_pieces [] rs = []"
  by (simp_all add: all_pieces_def)

lemma all_pieces_length:
  assumes "canonical rams" and "canonical rs"
  shows "length (all_pieces rams rs) \<le> length rams + length rs"
proof -
  have "length (all_pieces rams rs) \<le>
      length rams + (\<Sum>ram \<leftarrow> rams. length (filter (starts_inside ram (region_start ram)) rs))"
  proof (induction rams)
    case (Cons ram rams)
    then show ?case using pieces_length [OF assms(2), of ram "region_start ram"] by simp
  qed simp
  moreover have "(\<Sum>ram \<leftarrow> rams. length (filter (starts_inside ram (region_start ram)) rs)) \<le> length rs"
  proof (rule disjoint_filters_length)
    have "sorted_wrt (\<lambda>a b. region_end a < region_start b) rams"
      using assms(1) by (simp add: canonical_def)
    then show "sorted_wrt (\<lambda>a b. \<forall>x. \<not> (starts_inside a (region_start a) x \<and>
        starts_inside b (region_start b) x)) rams"
      by (rule sorted_wrt_mono_rel [rotated]) (auto simp: starts_inside_def dest: order.strict_trans)
  qed
  ultimately show ?thesis by linarith
qed


lemma all_pieces_addrs:
  "canonical rs \<Longrightarrow> regions_addrs (all_pieces rams rs) = regions_addrs rams - regions_addrs rs"
proof (induction rams)
  case (Cons ram rams)
  have "{a. region_start ram \<le> a \<and> a < region_end ram} = region_addrs ram"
    by (auto simp: region_addrs_mem)
  with Cons show ?case by (simp add: pieces_addrs Un_Diff)
qed simp

lemma all_pieces_canonical:
  assumes "canonical rs"
  shows "canonical rams \<Longrightarrow> canonical (all_pieces rams rs) \<and>
    (\<forall>y \<in> set (all_pieces rams rs). \<exists>ram \<in> set rams. region_start ram \<le> region_start y)"
proof (induction rams)
  case (Cons ram rams)
  have p: "canonical (pieces ram (region_start ram) rs)"
    "\<And>y. y \<in> set (pieces ram (region_start ram) rs) \<Longrightarrow>
       region_start ram \<le> region_start y \<and> region_end y \<le> region_end ram"
    using pieces_canonical [OF assms] by blast+
  have "region_end x < region_start y"
    if "x \<in> set (pieces ram (region_start ram) rs)" "y \<in> set (all_pieces rams rs)" for x y
  proof -
    from that(2) Cons obtain r where "r \<in> set rams" "region_start r \<le> region_start y" by auto
    moreover have "region_end ram < region_start r" using Cons.prems \<open>r \<in> set rams\<close> by simp
    ultimately show ?thesis using p(2) [OF that(1)] by (meson order.strict_trans1 order.strict_trans2)
  qed
  with p Cons show ?case by (auto simp: canonical_append)
qed simp

lemma subtract_each_eq:
  "length rs \<le> k \<Longrightarrow> length out + length (all_pieces rams rs) \<le> n \<Longrightarrow>
   subtract_each rams (fl_of k rs) (fl_of n out) = (Ok (), fl_of n (out @ all_pieces rams rs))"
proof (induction rams arbitrary: out)
  case (Cons ram rams)
  then show ?case
    by (simp add: subtract_all_def fl_iter_eq subtract_loop_eq)
qed simp

lemma find_conflict_eq:
  "find_conflict ram ds = Ok () \<longleftrightarrow> (\<forall>d \<in> set ds. \<not> region_overlaps ram d)"
  "find_conflict ram ds \<noteq> Panic"
  "find_conflict ram ds = Err e \<Longrightarrow>
     \<exists>d \<in> set ds. region_overlaps ram d \<and> e = RamMmioConflict ram d"
  by (induction ds) (auto split: if_splits)

lemma find_conflicts_eq:
  "find_conflicts rs ds = Ok () \<longleftrightarrow> (\<forall>r \<in> set rs. \<forall>d \<in> set ds. \<not> region_overlaps r d)"
  "find_conflicts rs ds \<noteq> Panic"
  "find_conflicts rs ds = Err e \<Longrightarrow>
     \<exists>r \<in> set rs. \<exists>d \<in> set ds. region_overlaps r d \<and> e = RamMmioConflict r d"
  by (induction rs) (auto simp: outcome_simps find_conflict_eq(1,2) dest!: find_conflict_eq(3))

section \<open>The invariant of the map\<close>

definition region_list_inv :: "nat \<Rightarrow> phys_region fixed_list \<Rightarrow> bool" where
  "region_list_inv n l \<longleftrightarrow> fl_inv l \<and> fl_capacity l = n \<and> canonical (fl_list l)"

definition mm_inv :: "memory_map \<Rightarrow> bool" where
  "mm_inv m \<longleftrightarrow>
     region_list_inv MAX_RAM_REGIONS (mm_ram m) \<and>
     region_list_inv MAX_NORMALIZED_RESERVED_REGIONS (mm_reserved m) \<and>
     region_list_inv MAX_MMIO_REGIONS (mm_mmio m) \<and>
     region_list_inv MAX_USABLE_RAM_REGIONS (mm_usable m)"

lemma region_list_invE:
  assumes "region_list_inv n l"
  obtains xs where "l = fl_of n xs" and "length xs \<le> n" and "canonical xs"
  using assms by (auto simp: region_list_inv_def elim!: fl_invE)

lemma region_list_inv_of [simp]:
  "length xs \<le> n \<Longrightarrow> region_list_inv n (fl_of n xs) \<longleftrightarrow> canonical xs"
  by (simp add: region_list_inv_def)

lemma insert_merge_length:
  "length (insert_merge r xs) \<le> Suc (length xs)"
  "x \<in> set xs \<Longrightarrow> canonical xs \<Longrightarrow> region_wf r \<Longrightarrow> region_touches x r \<Longrightarrow>
     length (insert_merge r xs) \<le> length xs"
proof -
  show "length (insert_merge r xs) \<le> Suc (length xs)"
    using absorb_length by (induction xs) (auto simp: le_SucI)
  show "length (insert_merge r xs) \<le> length xs"
    if "x \<in> set xs" "canonical xs" "region_wf r" "region_touches x r"
    using that
  proof (induction xs)
    case (Cons y ys)
    have wf: "region_wf y" "region_wf x" using Cons.prems by (auto dest: canonical_wf)
    have "region_start y < region_start r" if "\<not> region_touches y r"
    proof -
      have "x \<in> set ys" using that Cons.prems by auto
      then have "region_end y < region_start x" using Cons.prems by simp
      moreover have "region_start x \<le> region_end r"
        using Cons.prems touches_iff [OF wf(2) Cons.prems(3)] by simp
      ultimately have "region_start y < region_end r"
        using region_start_less_end [OF wf(1)] by (meson order.strict_trans order.strict_trans2)
      then have "region_end y < region_start r"
        using that touches_iff [OF wf(1) Cons.prems(3)] by (auto simp: not_le)
      then show ?thesis using region_start_less_end [OF wf(1)] by (rule order.strict_trans [rotated])
    qed
    with Cons show ?case using absorb_length by auto
  qed simp
qed

text \<open>
  The contract of \<open>insert_sorted_merged\<close> on a list that satisfies the invariant:
  the outcome, the list it leaves and the addresses that list denotes.
\<close>

lemma insert_sorted_merged_spec:
  assumes "region_list_inv n l" and "region_wf r"
  shows "(\<exists>l'. insert_sorted_merged l r = (Ok (), l') \<and> region_list_inv n l' \<and>
              regions_addrs (fl_list l') = regions_addrs (fl_list l) \<union> region_addrs r) \<or>
         insert_sorted_merged l r = (Err (MapCapacity n), l) \<and> fl_len l = n \<and>
           (\<forall>x \<in> set (fl_list l). \<not> region_touches x r)"
proof -
  from assms(1) obtain xs where l: "l = fl_of n xs" and len: "length xs \<le> n" and can: "canonical xs"
    by (rule region_list_invE)
  note eq = insert_sorted_merged_eq [OF len can assms(2)]
  show ?thesis
  proof (cases "length xs = n \<and> (\<forall>x \<in> set xs. \<not> region_touches x r)")
    case True
    then show ?thesis using eq l by simp
  next
    case False
    then have "length (insert_merge r xs) \<le> n"
      using len insert_merge_length(1) [of r xs] insert_merge_length(2) [OF _ can assms(2)]
      by (metis Suc_leI le_neq_implies_less le_trans)
    then show ?thesis
      using eq l False insert_merge_canonical [OF can assms(2)] insert_merge_addrs [OF can assms(2)]
      by auto
  qed
qed


lemma finalize_spec:
  assumes "mm_inv m"
  shows "(\<exists>u. finalize m = (Ok (), m\<lparr>mm_usable := u\<rparr>) \<and>
              region_list_inv MAX_USABLE_RAM_REGIONS u \<and>
              regions_addrs (fl_list u) =
                regions_addrs (fl_list (mm_ram m)) - regions_addrs (fl_list (mm_reserved m)) \<and>
              (\<forall>r \<in> set (fl_list (mm_ram m)). \<forall>d \<in> set (fl_list (mm_mmio m)).
                 \<not> region_overlaps r d)) \<or>
         (\<exists>r d. finalize m = (Err (RamMmioConflict r d), m) \<and>
              r \<in> set (fl_list (mm_ram m)) \<and> d \<in> set (fl_list (mm_mmio m)) \<and>
              region_overlaps r d)"
proof -
  from assms obtain rams rs ds us where
      ram: "mm_ram m = fl_of MAX_RAM_REGIONS rams" "length rams \<le> MAX_RAM_REGIONS" "canonical rams"
    and rsv: "mm_reserved m = fl_of MAX_NORMALIZED_RESERVED_REGIONS rs"
      "length rs \<le> MAX_NORMALIZED_RESERVED_REGIONS" "canonical rs"
    and mmio: "mm_mmio m = fl_of MAX_MMIO_REGIONS ds" "length ds \<le> MAX_MMIO_REGIONS"
    and us: "mm_usable m = fl_of MAX_USABLE_RAM_REGIONS us" "length us \<le> MAX_USABLE_RAM_REGIONS"
    unfolding mm_inv_def by (elim conjE region_list_invE) blast
  have len: "length (all_pieces rams rs) \<le> MAX_USABLE_RAM_REGIONS"
    using all_pieces_length [OF ram(3) rsv(3)] ram(2) rsv(2)
    by (simp add: MAX_USABLE_RAM_REGIONS_def)
  show ?thesis
  proof (cases "find_conflicts rams ds")
    case (Ok _)
    have "finalize m = (Ok (), m\<lparr>mm_usable := fl_of MAX_USABLE_RAM_REGIONS (all_pieces rams rs)\<rparr>)"
      using Ok ram rsv mmio us len subtract_each_eq [of rs _ "[]" rams]
      by (simp add: finalize_def fl_iter_eq fl_clear_eq)
    moreover have "\<forall>r \<in> set rams. \<forall>d \<in> set ds. \<not> region_overlaps r d"
      using Ok find_conflicts_eq(1) [of rams ds] by simp
    ultimately show ?thesis
      using ram rsv mmio len all_pieces_canonical [OF rsv(3) ram(3)] all_pieces_addrs [OF rsv(3)]
      by auto
  next
    case (Err e)
    then show ?thesis
      using find_conflicts_eq(3) [OF Err] ram mmio by (auto simp: finalize_def fl_iter_eq)
  next
    case Panic
    then show ?thesis using find_conflicts_eq(2) by metis
  qed
qed

lemma mm_inv_empty: "mm_inv mm_empty"
  by (simp add: mm_inv_def mm_empty_def fl_new_eq)

lemma mm_inv_clear: "mm_inv m \<Longrightarrow> mm_inv (mm_clear m)"
  by (auto simp: mm_inv_def mm_clear_def fl_clear_eq elim!: region_list_invE)

lemma mm_inv_insert:
  assumes "mm_inv m" and "region_wf r"
  shows "mm_inv (snd (insert_ram m r))" "mm_inv (snd (insert_reserved m r))"
    "mm_inv (snd (insert_mmio m r))"
  using assms insert_sorted_merged_spec [of MAX_RAM_REGIONS "mm_ram m" r]
    insert_sorted_merged_spec [of MAX_NORMALIZED_RESERVED_REGIONS "mm_reserved m" r]
    insert_sorted_merged_spec [of MAX_MMIO_REGIONS "mm_mmio m" r]
  by (auto simp: mm_inv_def insert_ram_def insert_reserved_def insert_mmio_def)

lemma mm_inv_finalize: "mm_inv m \<Longrightarrow> mm_inv (snd (finalize m))"
  using finalize_spec [of m] by (auto simp: mm_inv_def)

lemma no_overlap_disjoint:
  assumes "mm_inv m"
    and "\<forall>r \<in> set (fl_list (mm_ram m)). \<forall>d \<in> set (fl_list (mm_mmio m)). \<not> region_overlaps r d"
  shows "regions_addrs (fl_list (mm_ram m)) \<inter> regions_addrs (fl_list (mm_mmio m)) = {}"
proof -
  have "region_wf r" if "r \<in> set (fl_list (mm_ram m)) \<union> set (fl_list (mm_mmio m))" for r
    using assms(1) that by (auto simp: mm_inv_def region_list_inv_def dest: canonical_wf)
  with assms(2) show ?thesis using region_overlaps_iff by (fastforce simp: regions_addrs_def)
qed

text \<open>The map is only ever changed by these operations, in any order.\<close>

inductive mm_step :: "memory_map \<Rightarrow> memory_map \<Rightarrow> bool" where
  step_ram: "region_wf r \<Longrightarrow> mm_step m (snd (insert_ram m r))"
| step_reserved: "region_wf r \<Longrightarrow> mm_step m (snd (insert_reserved m r))"
| step_mmio: "region_wf r \<Longrightarrow> mm_step m (snd (insert_mmio m r))"
| step_clear: "mm_step m (mm_clear m)"
| step_finalize: "mm_step m (snd (finalize m))"

interpretation mm: transition_system "\<lambda>m. m = mm_empty" mm_step mm_inv
  by unfold_locales
    (auto simp: mm_inv_empty elim!: mm_step.cases intro: mm_inv_insert mm_inv_clear mm_inv_finalize)

section \<open>Properties\<close>

text \<open>
  C11: inserting a well-formed region into a sorted, merged list either leaves a
  sorted, merged list that denotes exactly the old addresses and the new ones, or
  fails with the capacity error and changes nothing, and it fails only when the
  list is full and the region merges with no entry. It never panics.
\<close>

theorem insert_sorted_merged_correct:
  assumes "fl_inv l" and "canonical (fl_list l)" and "region_wf r"
  shows "case insert_sorted_merged l r of
           (Ok _, l') \<Rightarrow> fl_inv l' \<and> canonical (fl_list l') \<and> fl_capacity l' = fl_capacity l \<and>
             regions_addrs (fl_list l') = regions_addrs (fl_list l) \<union> region_addrs r
         | (Err e, l') \<Rightarrow> e = MapCapacity (fl_capacity l) \<and> l' = l \<and> fl_is_full l \<and>
             (\<forall>x \<in> set (fl_list l). \<not> region_touches x r)
         | (Panic, l') \<Rightarrow> False"
  using insert_sorted_merged_spec [of "fl_capacity l" l r] assms
  by (auto simp: region_list_inv_def fl_is_full_def)

theorem insert_sorted_merged_correct_witness:
  "let l = fl_of 2 [\<lparr>region_start = 0x1000, region_size = 0x1000\<rparr>,
                   \<lparr>region_start = 0x4000, region_size = 0x1000\<rparr>];
       r = \<lparr>region_start = 0x2000, region_size = 0x2000\<rparr>
   in fl_inv l \<and> canonical (fl_list l) \<and> region_wf r \<and>
      (case insert_sorted_merged l r of
           (Ok _, l') \<Rightarrow> fl_inv l' \<and> canonical (fl_list l') \<and> fl_capacity l' = fl_capacity l \<and>
             regions_addrs (fl_list l') = regions_addrs (fl_list l) \<union> region_addrs r
         | (Err e, l') \<Rightarrow> e = MapCapacity (fl_capacity l) \<and> l' = l \<and> fl_is_full l \<and>
             (\<forall>x \<in> set (fl_list l). \<not> region_touches x r)
         | (Panic, l') \<Rightarrow> False)"
proof -
  let ?l = "fl_of 2 [\<lparr>region_start = 0x1000, region_size = 0x1000\<rparr>,
                     \<lparr>region_start = 0x4000, region_size = 0x1000\<rparr>] :: phys_region fixed_list"
  let ?r = "\<lparr>region_start = 0x2000, region_size = 0x2000\<rparr> :: phys_region"
  have a: "fl_inv ?l" by simp
  have b: "canonical (fl_list ?l)" by (simp add: region_wf_def region_end_def)
  have c: "region_wf ?r" by (simp add: region_wf_def)
  show ?thesis
    unfolding Let_def using a b c insert_sorted_merged_correct [OF a b c] by blast
qed

text \<open>
  C14: finalizing a map that satisfies its invariant rejects it exactly when a RAM
  region overlaps an MMIO window, and otherwise derives usable RAM that is sorted,
  merged and denotes exactly the RAM addresses outside every reservation. The
  capacity of the usable list is never exceeded and nothing panics.
\<close>

theorem finalize_correct:
  assumes "mm_inv m"
  shows "case finalize m of
           (Ok _, m') \<Rightarrow> mm_inv m' \<and> mm_ram m' = mm_ram m \<and> mm_reserved m' = mm_reserved m \<and>
             mm_mmio m' = mm_mmio m \<and>
             regions_addrs (fl_list (mm_usable m')) =
               regions_addrs (fl_list (mm_ram m)) - regions_addrs (fl_list (mm_reserved m)) \<and>
             regions_addrs (fl_list (mm_ram m)) \<inter> regions_addrs (fl_list (mm_mmio m)) = {}
         | (Err e, m') \<Rightarrow> m' = m \<and>
             (\<exists>r d. e = RamMmioConflict r d \<and> r \<in> set (fl_list (mm_ram m)) \<and>
                    d \<in> set (fl_list (mm_mmio m)) \<and> region_overlaps r d)
         | (Panic, m') \<Rightarrow> False"
  using finalize_spec [OF assms] assms no_overlap_disjoint [OF assms] by (auto simp: mm_inv_def)

theorem finalize_correct_witness:
  "let m = mm_empty\<lparr>mm_ram := fl_of 8 [\<lparr>region_start = 0x1000, region_size = 0x9000\<rparr>],
                    mm_reserved := fl_of 192 [\<lparr>region_start = 0x3000, region_size = 0x1000\<rparr>]\<rparr>
   in mm_inv m \<and>
      (case finalize m of
           (Ok _, m') \<Rightarrow> mm_inv m' \<and> mm_ram m' = mm_ram m \<and> mm_reserved m' = mm_reserved m \<and>
             mm_mmio m' = mm_mmio m \<and>
             regions_addrs (fl_list (mm_usable m')) =
               regions_addrs (fl_list (mm_ram m)) - regions_addrs (fl_list (mm_reserved m)) \<and>
             regions_addrs (fl_list (mm_ram m)) \<inter> regions_addrs (fl_list (mm_mmio m)) = {}
         | (Err e, m') \<Rightarrow> m' = m \<and>
             (\<exists>r d. e = RamMmioConflict r d \<and> r \<in> set (fl_list (mm_ram m)) \<and>
                    d \<in> set (fl_list (mm_mmio m)) \<and> region_overlaps r d)
         | (Panic, m') \<Rightarrow> False)"
proof -
  let ?m = "mm_empty\<lparr>mm_ram := fl_of 8 [\<lparr>region_start = 0x1000, region_size = 0x9000\<rparr>],
      mm_reserved := fl_of 192 [\<lparr>region_start = 0x3000, region_size = 0x1000\<rparr>]\<rparr>"
  have i: "mm_inv ?m"
    using mm_inv_empty
    by (simp add: mm_inv_def MAX_RAM_REGIONS_def MAX_NORMALIZED_RESERVED_REGIONS_def region_wf_def)
  show ?thesis unfolding Let_def using i finalize_correct [OF i] by blast
qed

text \<open>
  C15: in every memory map that any sequence of insertions, clears and finalizations
  can build from the empty one, a successful \<open>finalize\<close> exposes no reserved address
  and no device address as usable RAM.
\<close>

theorem usable_ram_safe:
  assumes "mm_step\<^sup>*\<^sup>* mm_empty m" and "finalize m = (Ok (), m')"
  shows "regions_addrs (fl_list (mm_usable m')) \<inter>
           (regions_addrs (fl_list (mm_reserved m')) \<union> regions_addrs (fl_list (mm_mmio m'))) = {}"
proof -
  have inv: "mm_inv m" using mm.reachable_invar [OF refl assms(1)] .
  show ?thesis
    using finalize_spec [OF inv] no_overlap_disjoint [OF inv] assms(2) by auto
qed

theorem usable_ram_safe_witness:
  "\<exists>m m'. mm_step\<^sup>*\<^sup>* mm_empty m \<and> finalize m = (Ok (), m') \<and>
     fl_list (mm_usable m') = [bounds_region 0 0x2000, bounds_region 0x5000 0x8000] \<and>
     regions_addrs (fl_list (mm_usable m')) \<inter>
       (regions_addrs (fl_list (mm_reserved m')) \<union> regions_addrs (fl_list (mm_mmio m'))) = {}"
proof -
  define a b :: phys_region where "a = \<lparr>region_start = 0, region_size = 0x8000\<rparr>"
    and "b = \<lparr>region_start = 0x2000, region_size = 0x3000\<rparr>"
  have wf: "region_wf a" "region_wf b" by (simp_all add: a_def b_def region_wf_def)
  define m1 where "m1 = mm_empty\<lparr>mm_ram := fl_of MAX_RAM_REGIONS [a]\<rparr>"
  define m where "m = m1\<lparr>mm_reserved := fl_of MAX_NORMALIZED_RESERVED_REGIONS [b]\<rparr>"
  define m' where "m' = m\<lparr>mm_usable :=
    fl_of MAX_USABLE_RAM_REGIONS [bounds_region 0 0x2000, bounds_region 0x5000 0x8000]\<rparr>"
  have "insert_ram mm_empty a = (Ok (), m1)"
    using insert_sorted_merged_eq [of "[]" MAX_RAM_REGIONS a] wf
    by (simp add: insert_ram_def mm_empty_def fl_new_eq m1_def MAX_RAM_REGIONS_def)
  moreover have "insert_reserved m1 b = (Ok (), m)"
    using insert_sorted_merged_eq [of "[]" MAX_NORMALIZED_RESERVED_REGIONS b] wf
    by (simp add: insert_reserved_def m1_def mm_empty_def fl_new_eq m_def
        MAX_NORMALIZED_RESERVED_REGIONS_def)
  ultimately have r: "mm_step\<^sup>*\<^sup>* mm_empty m"
    using step_ram [OF wf(1), of mm_empty] step_reserved [OF wf(2), of m1]
    by (metis rtranclp.simps snd_conv)
  have f: "finalize m = (Ok (), m')"
    by (simp add: finalize_def m_def m1_def m'_def mm_empty_def fl_new_eq fl_clear_eq fl_iter_eq
        subtract_all_def push_bounds_eq MAX_RAM_REGIONS_def MAX_NORMALIZED_RESERVED_REGIONS_def
        MAX_USABLE_RAM_REGIONS_def a_def b_def region_end_def)
  show ?thesis using r f usable_ram_safe [OF r f] by (auto simp: m'_def)
qed

end
