(* ===== verification/Page_Allocator.thy ===== *)
theory Page_Allocator
  imports System_Info Fixed_List
begin

text \<open>
  The physical page allocator (\<open>tvisor_util/page_allocator.rs\<close>): two packed
  bitmaps with cached population counts. Every search loop, every bit test and
  write, and every address computation of the source is modelled; \<open>bm_rel\<close>
  relates a bitmap to the set of page numbers it stands for, \<open>pa_rel\<close> an
  allocator to its managed and in-use sets. The locale \<open>page_provider\<close> is the
  contract on which allocation clients rely.
\<close>

section \<open>Bitmaps\<close>

definition MAX_PHYSICAL_ADDRESS :: u64 where
  "MAX_PHYSICAL_ADDRESS = 2 ^ 32"

definition PAGE_BITMAP_BYTES :: nat where
  "PAGE_BITMAP_BYTES = unat MAX_PHYSICAL_ADDRESS div unat PAGE_SIZE div 8"

datatype page_state = Reserved | InUse | Unused

datatype allocator_error =
    AddressOverflow | NotInitialized | InvalidAllocRegion region_error
  | PhysicalAddressOutOfRange | Exhausted | UnalignedPage | ReservedPage | DoubleFree
  | AlreadyAllocated | InvalidateParameter | InvalidIpa | OverlappingIpa | Unexpected

record allocator_stats =
  stat_ram_pages :: nat
  stat_reserved_pages :: nat
  stat_in_use_pages :: nat
  stat_unused_pages :: nat

record page_bitmap =
  bm_bits :: "u8 list"
  bm_set_pages :: nat

record page_allocator =
  pa_managed :: page_bitmap
  pa_in_use :: page_bitmap
  pa_ram_pages :: nat

definition bit_is_set :: "u8 list \<Rightarrow> nat \<Rightarrow> (bool, 'e) outcome" where
  "bit_is_set bitmap index =
     (case array_get bitmap (index div 8) of
        None \<Rightarrow> Panic
      | Some b \<Rightarrow> Ok (b AND push_bit (index mod 8) 1 \<noteq> 0))"

definition write_bit :: "u8 list \<Rightarrow> nat \<Rightarrow> bool \<Rightarrow> (u8 list, 'e) outcome" where
  "write_bit bitmap index v =
     (let m = push_bit (index mod 8) 1 in
      case array_get bitmap (index div 8) of
        None \<Rightarrow> Panic
      | Some b \<Rightarrow> Ok (bitmap[index div 8 := (if v then b OR m else b AND NOT m)]))"

definition bm_zeroed :: "nat \<Rightarrow> page_bitmap" where
  "bm_zeroed n = \<lparr>bm_bits = replicate n 0, bm_set_pages = 0\<rparr>"

definition bm_is_set :: "page_bitmap \<Rightarrow> nat \<Rightarrow> (bool, 'e) outcome" where
  "bm_is_set b index = bit_is_set (bm_bits b) index"

definition bm_clear :: "page_bitmap \<Rightarrow> page_bitmap" where
  "bm_clear b = \<lparr>bm_bits = map (\<lambda>_. 0) (bm_bits b), bm_set_pages = 0\<rparr>"

definition bm_set_bit :: "page_bitmap \<Rightarrow> nat \<Rightarrow> bool \<Rightarrow> (unit, 'e) outcome \<times> page_bitmap" where
  "bm_set_bit b index v =
     st_then (st_lift (bm_is_set b index) b) (\<lambda>old _.
       if old = v then (Ok (), b)
       else st_then (st_lift (write_bit (bm_bits b) index v) b) (\<lambda>bits _.
              if v then (Ok (), \<lparr>bm_bits = bits, bm_set_pages = bm_set_pages b + 1\<rparr>)
              else if bm_set_pages b = 0 then (Panic, b\<lparr>bm_bits := bits\<rparr>)
              else (Ok (), \<lparr>bm_bits = bits, bm_set_pages = bm_set_pages b - 1\<rparr>)))"

subsection \<open>A bitmap as a set of page numbers\<close>

definition bm_set :: "page_bitmap \<Rightarrow> nat set" where
  "bm_set b = {i. i < 8 * length (bm_bits b) \<and> bit (bm_bits b ! (i div 8)) (i mod 8)}"

definition bm_rel :: "nat \<Rightarrow> nat set \<Rightarrow> page_bitmap \<Rightarrow> bool" where
  "bm_rel n S b \<longleftrightarrow> length (bm_bits b) = n \<and> bm_set b = S \<and> bm_set_pages b = card S"

lemma bm_set_code:
  "bm_set b = set (filter (\<lambda>i. bit (bm_bits b ! (i div 8)) (i mod 8)) [0..<8 * length (bm_bits b)])"
  by (auto simp: bm_set_def)

lemma bm_rel_bound: "bm_rel n S b \<Longrightarrow> S \<subseteq> {..<8 * n}"
  by (auto simp: bm_rel_def bm_set_def)

lemma bm_rel_finite: "bm_rel n S b \<Longrightarrow> finite S"
  by (rule finite_subset [OF bm_rel_bound]) auto

lemma bm_rel_pages: "bm_rel n S b \<Longrightarrow> bm_set_pages b = card S"
  by (simp add: bm_rel_def)

lemma bm_rel_zeroed: "bm_rel n {} (bm_zeroed n)"
  by (auto simp: bm_rel_def bm_zeroed_def bm_set_def)

lemma bm_rel_clear: "length (bm_bits b) = n \<Longrightarrow> bm_rel n {} (bm_clear b)"
  by (auto simp: bm_rel_def bm_clear_def bm_set_def)

lemma bm_is_set_eq: "bm_rel n S b \<Longrightarrow> i < 8 * n \<Longrightarrow> bm_is_set b i = Ok (i \<in> S)"
  by (auto simp: bm_rel_def bm_is_set_def bit_is_set_def bm_set_def array_get_def
      push_bit_eq_mult and_exp_eq_0_iff_not_bit)

lemma bit_write_bit:
  assumes "i < 8 * length bits" and "j < 8 * length bits" and "write_bit bits i v = Ok bits'"
  shows "bit (bits' ! (j div 8)) (j mod 8) = (if j = i then v else bit (bits ! (j div 8)) (j mod 8))"
proof -
  let ?m = "push_bit (i mod 8) 1 :: u8"
  have b': "bits' = bits[i div 8 := (if v then bits ! (i div 8) OR ?m else bits ! (i div 8) AND NOT ?m)]"
    using assms(1,3) by (auto simp: write_bit_def array_get_def Let_def split: if_splits)
  show ?thesis
  proof (cases "j div 8 = i div 8")
    case True
    have "j mod 8 = i mod 8 \<longleftrightarrow> j = i" using True by (metis div_mult_mod_eq)
    moreover have "j mod 8 < 8" by simp
    moreover have "i div 8 < length bits" using assms(1) by (simp add: less_mult_imp_div_less mult.commute)
    ultimately show ?thesis using True by (auto simp: b' bit_simps)
  next
    case False
    then show ?thesis by (auto simp: b')
  qed
qed

lemma write_bit_Ok:
  "i < 8 * length bits \<Longrightarrow> \<exists>bits'. write_bit bits i v = Ok bits' \<and> length bits' = length bits"
  by (auto simp: write_bit_def array_get_def Let_def)

lemma bm_set_bit_eq:
  assumes rel: "bm_rel n S b" and i: "i < 8 * n"
  shows "\<exists>b'. bm_set_bit b i v = (Ok (), b') \<and> bm_rel n (if v then insert i S else S - {i}) b'"
proof (cases "(i \<in> S) = v")
  case True
  then have "(if v then insert i S else S - {i}) = S" by auto
  then show ?thesis
    using rel True by (simp add: bm_set_bit_def bm_is_set_eq [OF rel i])
next
  case False
  have len: "i < 8 * length (bm_bits b)" using rel i by (simp add: bm_rel_def)
  obtain bits' where w: "write_bit (bm_bits b) i v = (Ok bits' :: (u8 list, 'a) outcome)"
    and l: "length bits' = length (bm_bits b)"
    using write_bit_Ok [OF len] by blast
  let ?S = "if v then insert i S else S - {i}"
  have set: "bm_set \<lparr>bm_bits = bits', bm_set_pages = k\<rparr> = ?S" for k
    using rel len bit_write_bit [OF len _ w] l False
    by (auto simp: bm_set_def bm_rel_def split: if_splits)
  have fin: "finite S" using rel by (rule bm_rel_finite)
  have "v \<Longrightarrow> card ?S = Suc (card S)" "\<not> v \<Longrightarrow> card ?S = card S - 1" "\<not> v \<Longrightarrow> 0 < card S"
    using fin False by (auto simp: card_gt_0_iff)
  moreover have "bm_is_set b i = (Ok (\<not> v) :: (bool, 'a) outcome)"
    using False by (simp add: bm_is_set_eq [OF rel i])
  ultimately show ?thesis
    using rel w set l by (cases v) (auto simp: bm_set_bit_def bm_rel_def)
qed


text \<open>The set determines the bitmap.\<close>

lemma bm_rel_unique:
  assumes "bm_rel n S b" and "bm_rel n S c"
  shows "b = c"
proof -
  have bits: "bm_bits b = bm_bits c"
  proof (rule nth_equalityI)
    show "length (bm_bits b) = length (bm_bits c)" using assms by (simp add: bm_rel_def)
    fix j assume j: "j < length (bm_bits b)"
    show "bm_bits b ! j = bm_bits c ! j"
    proof (rule bit_word_eqI)
      fix i assume i: "i < LENGTH(8)"
      have mem: "8 * j + i \<in> bm_set d \<longleftrightarrow> bit (bm_bits d ! j) i" if "length (bm_bits d) = n" for d
        using i j assms that by (simp add: bm_set_def bm_rel_def)
      show "bit (bm_bits b ! j) i = bit (bm_bits c ! j) i"
        using mem [of b] mem [of c] assms by (simp add: bm_rel_def)
    qed
  qed
  show ?thesis using bits assms by (intro page_bitmap.equality) (auto simp: bm_rel_def)
qed

section \<open>Operations\<close>

text \<open>\<open>BITMAP_BYTES * 8\<close>: the number of pages the bitmaps cover.\<close>

definition pa_pages :: "page_allocator \<Rightarrow> nat" where
  "pa_pages a = length (bm_bits (pa_managed a)) * 8"

definition aperture_end :: "page_allocator \<Rightarrow> u64" where
  "aperture_end a = word_of_nat (pa_pages a * unat PAGE_SIZE)"

definition page_addr :: "nat \<Rightarrow> phys_addr" where
  "page_addr index = word_of_nat (index * unat PAGE_SIZE)"

definition bitmap_index :: "page_allocator \<Rightarrow> u64 \<Rightarrow> (nat, allocator_error) outcome" where
  "bitmap_index a address =
     (let page = unat (address div PAGE_SIZE)
      in if pa_pages a \<le> page then Err PhysicalAddressOutOfRange else Ok page)"

definition validate_bitmaps :: "page_bitmap \<Rightarrow> page_bitmap \<Rightarrow> (unit, allocator_error) outcome" where
  "validate_bitmaps managed in_use =
     (if length (bm_bits managed) = 0 then Err PhysicalAddressOutOfRange else Ok ())"

definition pa_set_in_use ::
  "page_allocator \<Rightarrow> nat \<Rightarrow> bool \<Rightarrow> (unit, allocator_error) outcome \<times> page_allocator" where
  "pa_set_in_use a index v =
     (let (r, b) = bm_set_bit (pa_in_use a) index v in (r, a\<lparr>pa_in_use := b\<rparr>))"

definition page_is_free :: "page_allocator \<Rightarrow> nat \<Rightarrow> (bool, allocator_error) outcome" where
  "page_is_free a index =
     and_then (bm_is_set (pa_managed a) index) (\<lambda>m.
       if m then and_then (bm_is_set (pa_in_use a) index) (\<lambda>u. Ok (\<not> u)) else Ok False)"

definition pa_state :: "page_allocator \<Rightarrow> phys_addr \<Rightarrow> (page_state, allocator_error) outcome" where
  "pa_state a page =
     (if \<not> is_page_aligned page then Err UnalignedPage
      else and_then (bitmap_index a page) (\<lambda>index.
           and_then (bm_is_set (pa_managed a) index) (\<lambda>m.
             if \<not> m then Ok Reserved
             else and_then (bm_is_set (pa_in_use a) index) (\<lambda>u.
                    Ok (if u then InUse else Unused)))))"

text \<open>The downward search of \<open>allocate_high\<close>; the argument is the number of pages left.\<close>

fun allocate_high_loop ::
  "page_allocator \<Rightarrow> nat \<Rightarrow> (phys_addr, allocator_error) outcome \<times> page_allocator" where
  "allocate_high_loop a 0 = (Err Exhausted, a)"
| "allocate_high_loop a (Suc index) =
     st_then (st_lift (page_is_free a index) a) (\<lambda>free _.
       if free then st_then (pa_set_in_use a index True) (\<lambda>_ a'. (Ok (page_addr index), a'))
       else allocate_high_loop a index)"

definition allocate_high :: "page_allocator \<Rightarrow> (phys_addr, allocator_error) outcome \<times> page_allocator" where
  "allocate_high a = allocate_high_loop a (pa_pages a)"

text \<open>\<open>for page in run_start..run_start + pages { in_use.set_bit(page, true) }\<close>\<close>

fun mark_run ::
  "page_allocator \<Rightarrow> nat \<Rightarrow> nat \<Rightarrow> (unit, allocator_error) outcome \<times> page_allocator" where
  "mark_run a page 0 = (Ok (), a)"
| "mark_run a page (Suc k) =
     st_then (pa_set_in_use a page True) (\<lambda>_ a'. mark_run a' (Suc page) k)"

function allocate_contiguous_loop ::
  "page_allocator \<Rightarrow> nat \<Rightarrow> nat \<Rightarrow> nat \<Rightarrow> nat \<Rightarrow>
   (phys_addr, allocator_error) outcome \<times> page_allocator" where
  "allocate_contiguous_loop a pages index run_start run_len =
     (if index < pa_pages a
      then st_then (st_lift (page_is_free a index) a) (\<lambda>free _.
             if free
             then (let run_start' = (if run_len = 0 then index else run_start);
                       run_len' = run_len + 1
                   in if run_len' = pages
                      then st_then (mark_run a run_start' pages) (\<lambda>_ a'.
                             (Ok (page_addr run_start'), a'))
                      else allocate_contiguous_loop a pages (Suc index) run_start' run_len')
             else allocate_contiguous_loop a pages (Suc index) run_start 0)
      else (Err Exhausted, a))"
  by pat_completeness auto
termination
  by (relation "measure (\<lambda>(a, pages, index, run_start, run_len). pa_pages a - index)") auto

declare allocate_contiguous_loop.simps [simp del]

definition allocate_contiguous ::
  "page_allocator \<Rightarrow> nat \<Rightarrow> (phys_addr, allocator_error) outcome \<times> page_allocator" where
  "allocate_contiguous a pages =
     (if pages = 0 then (Err Exhausted, a) else allocate_contiguous_loop a pages 0 0 0)"

definition allocate :: "page_allocator \<Rightarrow> (phys_addr, allocator_error) outcome \<times> page_allocator" where
  "allocate a = allocate_contiguous a 1"

lemma checked_add_page_less:
  "checked_add page PAGE_SIZE = Some page' \<Longrightarrow> unat page' = unat page + 4096"
  using unat_checked_add [of page PAGE_SIZE page'] by simp

function allocate_in_loop ::
  "page_allocator \<Rightarrow> usize \<Rightarrow> usize \<Rightarrow> (phys_addr, allocator_error) outcome \<times> page_allocator" where
  "allocate_in_loop a page end' =
     (if page < end'
      then st_then (st_lift (pa_state a page) a) (\<lambda>state _.
             if state = Unused
             then st_then (st_lift (bitmap_index a page) a) (\<lambda>index _.
                  st_then (pa_set_in_use a index True) (\<lambda>_ a'. (Ok page, a')))
             else st_then (st_lift (ok_or AddressOverflow (checked_add page PAGE_SIZE)) a) (\<lambda>page' _.
                    allocate_in_loop a page' end'))
      else (Err Exhausted, a))"
  by pat_completeness auto
termination
  by (relation "measure (\<lambda>(a, page, end'). unat end' - unat page)")
    (auto simp: st_lift_def outcome_simps word_less_nat_alt dest!: checked_add_page_less)

declare allocate_in_loop.simps [simp del]

text \<open>
  The page bounds \<open>release\<close>, \<open>mark_managed\<close>, \<open>allocate_in\<close> and \<open>count_pages\<close> compute
  from a region: the first page boundary at or above its start and the last one at
  or below its end.
\<close>

definition page_bounds :: "phys_region \<Rightarrow> (usize \<times> usize, allocator_error) outcome" where
  "page_bounds region =
     and_then (ok_or AddressOverflow (align_up (region_start region) PAGE_SIZE)) (\<lambda>start.
     and_then (ok_or AddressOverflow (align_down (region_end region) PAGE_SIZE)) (\<lambda>end'.
       Ok (start, end')))"

definition allocate_in ::
  "page_allocator \<Rightarrow> phys_region \<Rightarrow> (phys_addr, allocator_error) outcome \<times> page_allocator" where
  "allocate_in a requested =
     st_then (st_lift (page_bounds requested) a) (\<lambda>(start, end') _.
       allocate_in_loop a start (min end' (aperture_end a)))"

definition pa_free :: "page_allocator \<Rightarrow> phys_addr \<Rightarrow> (unit, allocator_error) outcome \<times> page_allocator" where
  "pa_free a page =
     st_then (st_lift (pa_state a page) a) (\<lambda>state _.
       case state of
         Reserved \<Rightarrow> (Err ReservedPage, a)
       | Unused \<Rightarrow> (Err DoubleFree, a)
       | InUse \<Rightarrow> st_then (st_lift (bitmap_index a page) a) (\<lambda>index _.
                    pa_set_in_use a index False))"

function release_loop ::
  "page_allocator \<Rightarrow> usize \<Rightarrow> usize \<Rightarrow> nat \<Rightarrow> (nat, allocator_error) outcome \<times> page_allocator" where
  "release_loop a page end' released =
     (if page < end'
      then st_then (st_lift (bitmap_index a page) a) (\<lambda>index _.
           st_then (st_lift (bm_is_set (pa_managed a) index) a) (\<lambda>m _.
           st_then (st_lift (if m then bm_is_set (pa_in_use a) index else Ok False) a) (\<lambda>u _.
           st_then (if u then pa_set_in_use a index False else (Ok (), a)) (\<lambda>_ a'.
           st_then (st_lift (ok_or AddressOverflow (checked_add page PAGE_SIZE)) a') (\<lambda>page' _.
             release_loop a' page' end' (if u then released + 1 else released))))))
      else (Ok released, a))"
  by pat_completeness auto
termination
  by (relation "measure (\<lambda>(a, page, end', released). unat end' - unat page)")
    (auto simp: st_lift_def outcome_simps word_less_nat_alt dest!: checked_add_page_less)

declare release_loop.simps [simp del]

definition release :: "page_allocator \<Rightarrow> phys_region \<Rightarrow> (nat, allocator_error) outcome \<times> page_allocator" where
  "release a region =
     st_then (st_lift (page_bounds region) a) (\<lambda>(start, end') _.
       release_loop a start (min end' (aperture_end a)) 0)"

definition pa_stats :: "page_allocator \<Rightarrow> (allocator_stats, allocator_error) outcome" where
  "pa_stats a =
     (let m = bm_set_pages (pa_managed a); u = bm_set_pages (pa_in_use a) in
      if pa_ram_pages a < m \<or> m < u then Panic
      else Ok \<lparr>stat_ram_pages = pa_ram_pages a, stat_reserved_pages = pa_ram_pages a - m,
               stat_in_use_pages = u, stat_unused_pages = m - u\<rparr>)"

function mark_managed_loop ::
  "page_allocator \<Rightarrow> usize \<Rightarrow> usize \<Rightarrow> (unit, allocator_error) outcome \<times> page_allocator" where
  "mark_managed_loop a page end' =
     (if page < end'
      then st_then (st_lift (bitmap_index a page) a) (\<lambda>index _.
           st_then (let (r, b) = bm_set_bit (pa_managed a) index True in (r, a\<lparr>pa_managed := b\<rparr>))
             (\<lambda>_ a'.
           st_then (st_lift (ok_or AddressOverflow (checked_add page PAGE_SIZE)) a') (\<lambda>page' _.
             mark_managed_loop a' page' end')))
      else (Ok (), a))"
  by pat_completeness auto
termination
  by (relation "measure (\<lambda>(a, page, end'). unat end' - unat page)")
    (auto simp: st_lift_def outcome_simps word_less_nat_alt dest!: checked_add_page_less)

declare mark_managed_loop.simps [simp del]

definition mark_managed :: "page_allocator \<Rightarrow> phys_region \<Rightarrow> (unit, allocator_error) outcome \<times> page_allocator" where
  "mark_managed a region =
     st_then (st_lift (page_bounds region) a) (\<lambda>(start, end') _.
       if aperture_end a < end' then (Err PhysicalAddressOutOfRange, a)
       else mark_managed_loop a start end')"

fun mark_all_managed_in_use_loop ::
  "page_allocator \<Rightarrow> nat list \<Rightarrow> (unit, allocator_error) outcome \<times> page_allocator" where
  "mark_all_managed_in_use_loop a [] = (Ok (), a)"
| "mark_all_managed_in_use_loop a (index # rest) =
     st_then (st_lift (bm_is_set (pa_managed a) index) a) (\<lambda>m _.
     st_then (if m then pa_set_in_use a index True else (Ok (), a)) (\<lambda>_ a'.
       mark_all_managed_in_use_loop a' rest))"

definition mark_all_managed_in_use ::
  "page_allocator \<Rightarrow> (unit, allocator_error) outcome \<times> page_allocator" where
  "mark_all_managed_in_use a = mark_all_managed_in_use_loop a [0..<pa_pages a]"

text \<open>
  \<open>count_pages\<close> subtracts the rounded bounds without a check; the subtraction
  overflows when no page boundary lies inside the region.
\<close>

fun count_pages_loop :: "phys_region list \<Rightarrow> usize \<Rightarrow> (usize, allocator_error) outcome" where
  "count_pages_loop [] pages = Ok pages"
| "count_pages_loop (region # rest) pages =
     and_then (page_bounds region) (\<lambda>(start, end').
       if MAX_PHYSICAL_ADDRESS < end' then Err PhysicalAddressOutOfRange
       else case checked_sub end' start of
              None \<Rightarrow> Panic
            | Some d \<Rightarrow>
                and_then (ok_or AddressOverflow (checked_add pages (d div PAGE_SIZE))) (\<lambda>pages'.
                  count_pages_loop rest pages'))"

definition count_pages :: "phys_region fixed_list \<Rightarrow> (usize, allocator_error) outcome" where
  "count_pages regions = and_then (fl_iter regions) (\<lambda>rs. count_pages_loop rs 0)"

fun mark_each_managed ::
  "page_allocator \<Rightarrow> phys_region list \<Rightarrow> (unit, allocator_error) outcome \<times> page_allocator" where
  "mark_each_managed a [] = (Ok (), a)"
| "mark_each_managed a (region # rest) =
     st_then (mark_managed a region) (\<lambda>_ a'. mark_each_managed a' rest)"

fun release_each ::
  "page_allocator \<Rightarrow> phys_region list \<Rightarrow> (unit, allocator_error) outcome \<times> page_allocator" where
  "release_each a [] = (Ok (), a)"
| "release_each a (region # rest) =
     st_then (release a region) (\<lambda>_ a'. release_each a' rest)"

definition pa_new ::
  "phys_region fixed_list \<Rightarrow> phys_region fixed_list \<Rightarrow> phys_region fixed_list \<Rightarrow>
   page_bitmap \<Rightarrow> page_bitmap \<Rightarrow> (page_allocator, allocator_error) outcome" where
  "pa_new ram allocatable initially_unused managed in_use =
     and_then (validate_bitmaps managed in_use) (\<lambda>_.
     and_then (count_pages ram) (\<lambda>ram_pages.
     and_then (fl_iter allocatable) (\<lambda>as.
     and_then (fl_iter initially_unused) (\<lambda>us.
       let a0 = \<lparr>pa_managed = bm_clear managed, pa_in_use = bm_clear in_use,
                 pa_ram_pages = unat ram_pages\<rparr>;
           (r, a3) = st_then (mark_each_managed a0 as) (\<lambda>_ a1.
                     st_then (mark_all_managed_in_use a1) (\<lambda>_ a2. release_each a2 us))
       in and_then r (\<lambda>_. Ok a3)))))"

definition pa_from_existing ::
  "page_bitmap \<Rightarrow> page_bitmap \<Rightarrow> nat \<Rightarrow> (page_allocator, allocator_error) outcome" where
  "pa_from_existing managed in_use ram_pages =
     and_then (validate_bitmaps managed in_use) (\<lambda>_.
       if length (bm_bits managed) * 8 < ram_pages \<or> ram_pages < bm_set_pages managed \<or>
          bm_set_pages managed < bm_set_pages in_use
       then Err AddressOverflow
       else Ok \<lparr>pa_managed = managed, pa_in_use = in_use, pa_ram_pages = ram_pages\<rparr>)"


section \<open>The allocator as a pair of page sets\<close>

definition pa_rel :: "nat \<Rightarrow> nat set \<Rightarrow> nat set \<Rightarrow> page_allocator \<Rightarrow> bool" where
  "pa_rel n M U a \<longleftrightarrow>
     bm_rel n M (pa_managed a) \<and> bm_rel n U (pa_in_use a) \<and> U \<subseteq> M \<and> 32768 * n < 2 ^ 64"

lemma pa_relD:
  assumes "pa_rel n M U a"
  shows "bm_rel n M (pa_managed a)" "bm_rel n U (pa_in_use a)" "U \<subseteq> M" "32768 * n < 2 ^ 64"
    "pa_pages a = 8 * n" "M \<subseteq> {..<8 * n}" "finite M" "finite U"
proof -
  show m: "bm_rel n M (pa_managed a)" and u: "bm_rel n U (pa_in_use a)"
    and "U \<subseteq> M" "32768 * n < 2 ^ 64"
    using assms unfolding pa_rel_def by simp_all
  show "pa_pages a = 8 * n" using m by (simp add: bm_rel_def pa_pages_def)
  show "M \<subseteq> {..<8 * n}" using m by (rule bm_rel_bound)
  show "finite M" using m by (rule bm_rel_finite)
  show "finite U" using u by (rule bm_rel_finite)
qed

lemma pa_rel_unique: "pa_rel n M U a \<Longrightarrow> pa_rel n M U a' \<Longrightarrow> pa_ram_pages a = pa_ram_pages a' \<Longrightarrow> a = a'"
  unfolding pa_rel_def by (intro page_allocator.equality) (auto intro: bm_rel_unique)

lemma unat_page_addr: "pa_rel n M U a \<Longrightarrow> i \<le> 8 * n \<Longrightarrow> unat (page_addr i) = 4096 * i"
  unfolding page_addr_def using pa_relD(4) [of n M U a] by (subst unat_word_of_nat_u64) auto

lemma page_addr_eqI: "unat w = 4096 * k \<Longrightarrow> w = page_addr k"
  unfolding page_addr_def by (rule word_of_nat_eqI) simp

lemma unat_aperture_end: "pa_rel n M U a \<Longrightarrow> unat (aperture_end a) = 4096 * (8 * n)"
  unfolding aperture_end_def using pa_relD(4,5) [of n M U a] by (subst unat_word_of_nat_u64) auto

lemma page_is_free_eq:
  "pa_rel n M U a \<Longrightarrow> i < 8 * n \<Longrightarrow> page_is_free a i = Ok (i \<in> M - U)"
  using pa_relD(1,2) [of n M U a] by (auto simp: page_is_free_def bm_is_set_eq)

lemma pa_set_in_use_eq:
  assumes rel: "pa_rel n M U a" and i: "i < 8 * n" and m: "v \<longrightarrow> i \<in> M"
  shows "\<exists>a'. pa_set_in_use a i v = (Ok (), a') \<and>
              pa_rel n M (if v then insert i U else U - {i}) a' \<and> pa_ram_pages a' = pa_ram_pages a"
proof -
  obtain b where b: "bm_set_bit (pa_in_use a) i v = (Ok () :: (unit, allocator_error) outcome, b)"
      "bm_rel n (if v then insert i U else U - {i}) b"
    using bm_set_bit_eq [OF pa_relD(2) [OF rel] i] by blast
  then show ?thesis using rel m by (auto simp: pa_set_in_use_def pa_rel_def)
qed

lemma bitmap_index_eq:
  "pa_rel n M U a \<Longrightarrow> bitmap_index a page =
     (if unat page div 4096 < 8 * n then Ok (unat page div 4096) else Err PhysicalAddressOutOfRange)"
  using pa_relD(5) [of n M U a] by (simp add: bitmap_index_def Let_def unat_div_distrib)

lemma pa_state_eq:
  "pa_rel n M U a \<Longrightarrow> pa_state a page =
     (if \<not> 4096 dvd unat page then Err UnalignedPage
      else if 8 * n \<le> unat page div 4096 then Err PhysicalAddressOutOfRange
      else Ok (if unat page div 4096 \<notin> M then Reserved
               else if unat page div 4096 \<in> U then InUse else Unused))"
  using pa_relD(1,2) [of n M U a] by (auto simp: pa_state_def bitmap_index_eq bm_is_set_eq)

subsection \<open>Searching\<close>

lemma allocate_high_loop_spec:
  assumes "pa_rel n M U a" and "k \<le> 8 * n"
  shows "if (M - U) \<inter> {..<k} = {} then allocate_high_loop a k = (Err Exhausted, a)
         else \<exists>a'. allocate_high_loop a k = (Ok (page_addr (Max ((M - U) \<inter> {..<k}))), a') \<and>
                   pa_rel n M (insert (Max ((M - U) \<inter> {..<k})) U) a' \<and>
                   pa_ram_pages a' = pa_ram_pages a"
  using assms(2)
proof (induction k)
  case (Suc k)
  have free: "page_is_free a k = Ok (k \<in> M - U)" using Suc.prems assms(1) by (simp add: page_is_free_eq)
  show ?case
  proof (cases "k \<in> M - U")
    case True
    then have "Max ((M - U) \<inter> {..<Suc k}) = k" by (intro Max_eqI) auto
    moreover have "k \<in> (M - U) \<inter> {..<Suc k}" using True by simp
    ultimately show ?thesis
      using pa_set_in_use_eq [OF assms(1), of k True] Suc.prems True free by auto
  next
    case False
    then have "(M - U) \<inter> {..<Suc k} = (M - U) \<inter> {..<k}" by (auto simp: less_Suc_eq)
    moreover have "allocate_high_loop a (Suc k) = allocate_high_loop a k" using False free by auto
    ultimately show ?thesis using Suc.IH Suc.prems by (simp del: allocate_high_loop.simps)
  qed
qed simp

definition free_run :: "nat set \<Rightarrow> nat \<Rightarrow> nat \<Rightarrow> bool" where
  "free_run F pages s \<longleftrightarrow> {s..<s + pages} \<subseteq> F"

lemma free_runD: "free_run F k s \<Longrightarrow> 0 < k \<Longrightarrow> s \<in> F"
  by (auto simp: free_run_def)

lemma mark_run_spec:
  assumes "pa_rel n M U a" and "{page..<page + k} \<subseteq> M"
  shows "\<exists>a'. mark_run a page k = (Ok (), a') \<and> pa_rel n M (U \<union> {page..<page + k}) a' \<and>
              pa_ram_pages a' = pa_ram_pages a"
  using assms
proof (induction k arbitrary: a U page)
  case (Suc k)
  have "page \<in> M" using Suc.prems(2) by auto
  then have p: "page < 8 * n" "page \<in> M" using pa_relD(6) [OF Suc.prems(1)] by auto
  obtain a1 where a1: "pa_set_in_use a page True = (Ok (), a1)" "pa_rel n M (insert page U) a1"
      "pa_ram_pages a1 = pa_ram_pages a"
    using pa_set_in_use_eq [OF Suc.prems(1), of page True] p by auto
  have "{Suc page..<Suc page + k} \<subseteq> M" using Suc.prems(2) by auto
  moreover have "insert page U \<union> {Suc page..<Suc page + k} = U \<union> {page..<page + Suc k}" by auto
  ultimately show ?case using Suc.IH [OF a1(2), of "Suc page"] a1 by auto
qed simp

text \<open>What the scan knows at \<open>index\<close>: the last \<open>run_len\<close> pages are free, and no run starts before them.\<close>

definition scan_inv :: "nat set \<Rightarrow> nat \<Rightarrow> nat \<Rightarrow> nat \<Rightarrow> nat \<Rightarrow> bool" where
  "scan_inv F pages index run_start run_len \<longleftrightarrow>
     run_len < pages \<and> run_len \<le> index \<and> (0 < run_len \<longrightarrow> run_start = index - run_len) \<and>
     {index - run_len..<index} \<subseteq> F \<and> (\<forall>s < index - run_len. \<not> free_run F pages s)"

lemma scan_inv_busy:
  assumes "scan_inv F pages index run_start run_len" and "index \<notin> F"
  shows "scan_inv F pages (Suc index) run_start 0"
proof -
  have "\<not> free_run F pages s" if "s < Suc index" for s
  proof (cases "s < index - run_len")
    case False
    then have "index \<in> {s..<s + pages}" using that assms(1) by (auto simp: scan_inv_def)
    then show ?thesis using assms(2) by (auto simp: free_run_def)
  qed (use assms in \<open>auto simp: scan_inv_def\<close>)
  then show ?thesis using assms(1) by (auto simp: scan_inv_def)
qed

lemma scan_inv_free:
  assumes "scan_inv F pages index run_start run_len" and "index \<in> F"
  shows "run_len + 1 \<noteq> pages \<Longrightarrow>
      scan_inv F pages (Suc index) (if run_len = 0 then index else run_start) (run_len + 1)"
    and "run_len + 1 = pages \<Longrightarrow>
      (if run_len = 0 then index else run_start) = (LEAST s. free_run F pages s) \<and>
      free_run F pages (LEAST s. free_run F pages s)"
proof -
  let ?s = "if run_len = 0 then index else run_start"
  have s: "?s = index - run_len" "run_len \<le> index" using assms(1) by (auto simp: scan_inv_def)
  have sub: "{index - run_len..<Suc index} \<subseteq> F"
    using assms by (auto simp: scan_inv_def less_Suc_eq)
  show "scan_inv F pages (Suc index) ?s (run_len + 1)" if "run_len + 1 \<noteq> pages"
    using assms(1) that s sub unfolding scan_inv_def by auto
  show "?s = (LEAST s. free_run F pages s) \<and> free_run F pages (LEAST s. free_run F pages s)"
    if "run_len + 1 = pages"
  proof -
    have r: "free_run F pages ?s" using sub s that by (auto simp: free_run_def)
    moreover have "?s \<le> y" if "free_run F pages y" for y
      using assms(1) that s by (auto simp: scan_inv_def not_less)
    ultimately have "(LEAST s. free_run F pages s) = ?s" by (intro Least_equality) auto
    then show ?thesis using r by metis
  qed
qed

lemma scan_inv_end:
  assumes "scan_inv F pages index run_start run_len" and "F \<subseteq> {..<index}" and "0 < pages"
  shows "\<not> free_run F pages s"
proof
  assume r: "free_run F pages s"
  have "s + pages - 1 \<in> {s..<s + pages}" using assms(3) by auto
  then have "s + pages - 1 < index" using r assms(2) by (auto simp: free_run_def)
  then have "s < index - run_len" using assms(1) by (auto simp: scan_inv_def)
  then show False using r assms(1) by (auto simp: scan_inv_def)
qed

definition contiguous_post ::
  "nat \<Rightarrow> nat set \<Rightarrow> nat set \<Rightarrow> page_allocator \<Rightarrow> nat \<Rightarrow>
   (phys_addr, allocator_error) outcome \<times> page_allocator \<Rightarrow> bool" where
  "contiguous_post n M U a pages r \<longleftrightarrow>
     (if \<exists>s. free_run (M - U) pages s
      then (let s = LEAST s. free_run (M - U) pages s in
            fst r = Ok (page_addr s) \<and> free_run (M - U) pages s \<and>
            pa_rel n M (U \<union> {s..<s + pages}) (snd r) \<and> pa_ram_pages (snd r) = pa_ram_pages a)
      else r = (Err Exhausted, a))"

lemma allocate_contiguous_loop_spec:
  assumes "pa_rel n M U a" and "scan_inv (M - U) pages index run_start run_len"
    and "index \<le> 8 * n"
  shows "contiguous_post n M U a pages (allocate_contiguous_loop a pages index run_start run_len)"
  using assms
proof (induction a pages index run_start run_len rule: allocate_contiguous_loop.induct)
  case (1 a pages index run_start run_len)
  note rel = "1.prems"(1) and inv = "1.prems"(2)
  note step = allocate_contiguous_loop.simps [of a pages index run_start run_len]
  have pp: "pa_pages a = 8 * n" using pa_relD(5) [OF rel] .
  show ?case
  proof (cases "index < 8 * n")
    case False
    then have "M - U \<subseteq> {..<index}" using pa_relD(6) [OF rel] by auto
    then have "\<not> free_run (M - U) pages s" for s
      using scan_inv_end [OF inv] inv by (auto simp: scan_inv_def)
    then show ?thesis using step False pp by (simp add: contiguous_post_def)
  next
    case True
    then have free: "page_is_free a index = Ok (index \<in> M - U)" using rel by (simp add: page_is_free_eq)
    have lift: "st_lift (page_is_free a index) a = (Ok (index \<in> M - U), a)"
      by (simp add: free st_lift_def)
    let ?s = "if run_len = 0 then index else run_start"
    consider (busy) "index \<notin> M - U" | (more) "index \<in> M - U" "run_len + 1 \<noteq> pages"
      | (hit) "index \<in> M - U" "run_len + 1 = pages" by blast
    then show ?thesis
    proof cases
      case busy
      have "allocate_contiguous_loop a pages index run_start run_len =
          allocate_contiguous_loop a pages (Suc index) run_start 0"
        using busy True pp free by (subst step) auto
      then show ?thesis
        using "1.IH"(2) [OF _ lift _ rel scan_inv_busy [OF inv busy]] busy True pp by simp
    next
      case more
      have "allocate_contiguous_loop a pages index run_start run_len =
          allocate_contiguous_loop a pages (Suc index) ?s (run_len + 1)"
        using more True pp free by (subst step) (auto simp: Let_def)
      then show ?thesis
        using "1.IH"(1) [OF _ lift _ refl refl _ rel scan_inv_free(1) [OF inv more]] more True pp
        by simp
    next
      case hit
      note s = scan_inv_free(2) [OF inv hit]
      then have "{?s..<?s + pages} \<subseteq> M" by (auto simp: free_run_def)
      then obtain a' where "mark_run a ?s pages = (Ok (), a')"
          "pa_rel n M (U \<union> {?s..<?s + pages}) a'" "pa_ram_pages a' = pa_ram_pages a"
        using mark_run_spec [OF rel] by blast
      moreover have "allocate_contiguous_loop a pages index run_start run_len =
          st_then (mark_run a ?s pages) (\<lambda>_ a'. (Ok (page_addr ?s), a'))"
        using hit True pp free by (subst step) (auto simp: Let_def)
      ultimately show ?thesis using s unfolding contiguous_post_def Let_def by auto
    qed
  qed
qed

lemma allocate_contiguous_spec:
  "pa_rel n M U a \<Longrightarrow> 0 < pages \<Longrightarrow> contiguous_post n M U a pages (allocate_contiguous a pages)"
  using allocate_contiguous_loop_spec [of n M U a pages 0 0 0]
  by (simp add: allocate_contiguous_def scan_inv_def)


subsection \<open>Page ranges of a region\<close>

text \<open>The numbers of the pages that lie wholly inside a region.\<close>

definition region_pages :: "phys_region \<Rightarrow> nat set" where
  "region_pages r =
     {k. unat (region_start r) \<le> 4096 * k \<and>
         4096 * k + 4096 \<le> unat (region_start r) + unat (region_size r)}"

definition bounds_fit :: "phys_region \<Rightarrow> bool" where
  "bounds_fit r \<longleftrightarrow> unat (region_start r) + 4095 < 2 ^ 64"

definition first_page :: "phys_region \<Rightarrow> nat" where
  "first_page r = page_ceil (unat (region_start r)) div 4096"

definition end_page :: "phys_region \<Rightarrow> nat" where
  "end_page r = page_floor (unat (region_end r)) div 4096"

lemma page_ceil_le_iff: "page_ceil n \<le> 4096 * k \<longleftrightarrow> n \<le> 4096 * k"
  using page_ceil_ge [of n] page_ceil_least [of "4096 * k" n] by (meson dvd_triv_left order_trans)

lemma page_floor_ge_iff: "4096 * k \<le> page_floor n \<longleftrightarrow> 4096 * k \<le> n"
  using page_floor_le [of n] page_floor_greatest [of "4096 * k" n] by (meson dvd_triv_left order_trans)

lemma first_page_mult: "4096 * first_page r = page_ceil (unat (region_start r))"
  unfolding first_page_def by (rule dvd_mult_div_cancel) simp

lemma end_page_mult: "4096 * end_page r = page_floor (unat (region_end r))"
  unfolding end_page_def by (rule dvd_mult_div_cancel) simp

lemma region_pages_eq: "region_wf r \<Longrightarrow> region_pages r = {first_page r..<end_page r}"
proof -
  assume wf: "region_wf r"
  have "first_page r \<le> k \<longleftrightarrow> unat (region_start r) \<le> 4096 * k" for k
  proof -
    have "first_page r \<le> k \<longleftrightarrow> 4096 * first_page r \<le> 4096 * k" by simp
    then show ?thesis unfolding first_page_mult page_ceil_le_iff .
  qed
  moreover have "k < end_page r \<longleftrightarrow> 4096 * k + 4096 \<le> unat (region_start r) + unat (region_size r)" for k
  proof -
    have "k < end_page r \<longleftrightarrow> 4096 * Suc k \<le> 4096 * end_page r"
      unfolding mult_le_cancel1 Suc_le_eq by simp
    then show ?thesis
      unfolding end_page_mult page_floor_ge_iff unat_region_end [OF wf] by (simp add: add.commute)
  qed
  ultimately show ?thesis by (auto simp: region_pages_def)
qed

lemma page_bounds_eq:
  "page_bounds r =
     (if bounds_fit r
      then Ok (word_of_nat (4096 * first_page r), word_of_nat (4096 * end_page r))
      else Err AddressOverflow)"
  unfolding page_bounds_def align_up_page_eq align_down_page_eq first_page_mult end_page_mult
  by (simp add: bounds_fit_def)

lemma unat_bounds:
  assumes "bounds_fit r"
  shows "unat (word_of_nat (4096 * first_page r) :: u64) = 4096 * first_page r"
    and "unat (word_of_nat (4096 * end_page r) :: u64) = 4096 * end_page r"
proof -
  have "4096 * first_page r \<le> unat (region_start r) + 4095"
    unfolding first_page_mult page_ceil_def by (rule page_floor_le)
  then show "unat (word_of_nat (4096 * first_page r) :: u64) = 4096 * first_page r"
    using assms by (intro unat_word_of_nat_u64) (simp add: bounds_fit_def)
  have "4096 * end_page r \<le> unat (region_end r)" unfolding end_page_mult by (rule page_floor_le)
  then show "unat (word_of_nat (4096 * end_page r) :: u64) = 4096 * end_page r"
    using unat_u64_bound [of "region_end r"] by (intro unat_word_of_nat_u64) simp
qed

lemma region_pages_overflow: "region_wf r \<Longrightarrow> \<not> bounds_fit r \<Longrightarrow> region_pages r = {}"
proof -
  assume wf: "region_wf r" and nf: "\<not> bounds_fit r"
  have False if "k \<in> region_pages r" for k
    using wf nf that by (simp add: region_pages_def region_wf_def bounds_fit_def)
  then show ?thesis by blast
qed

lemma finite_region_pages [simp]: "region_wf r \<Longrightarrow> finite (region_pages r)"
  by (simp add: region_pages_eq)

text \<open>One step of the page loops: the next page and its bitmap index.\<close>

lemma loop_page:
  assumes "pa_rel n M U a" and "k < e" and "e \<le> 8 * n" and "unat page = 4096 * k" and "unat end' = 4096 * e"
  shows "page < end'" and "bitmap_index a page = Ok k" and "k < 8 * n"
    and "checked_add page PAGE_SIZE = Some (page_addr (Suc k))"
    and "unat (page_addr (Suc k)) = 4096 * Suc k"
    and "page = page_addr k"
proof -
  show "page < end'" using assms by (simp add: word_less_nat_alt)
  show "bitmap_index a page = Ok k" "k < 8 * n" using assms by (simp_all add: bitmap_index_eq)
  show u: "unat (page_addr (Suc k)) = 4096 * Suc k"
    using unat_page_addr [OF assms(1), of "Suc k"] assms(2,3) by simp
  have "32768 * n < 2 ^ 64" using pa_relD(4) [OF assms(1)] .
  then have "\<exists>w. checked_add page PAGE_SIZE = Some w \<and> unat w = 4096 * Suc k"
    using assms checked_add_None [of page PAGE_SIZE] unat_checked_add [of page PAGE_SIZE]
    by (cases "checked_add page PAGE_SIZE") auto
  then show "checked_add page PAGE_SIZE = Some (page_addr (Suc k))"
    using page_addr_eqI by auto
  show "page = page_addr k" using assms(4) by (rule page_addr_eqI)
qed

lemma loop_end: "unat page = 4096 * k \<Longrightarrow> unat end' = 4096 * e \<Longrightarrow> e \<le> k \<Longrightarrow> \<not> page < (end' :: u64)"
  by (simp add: word_less_nat_alt)

lemma allocate_in_loop_spec:
  assumes "pa_rel n M U a" and "e \<le> 8 * n" and "unat page = 4096 * k" and "unat end' = 4096 * e"
  shows "if (M - U) \<inter> {k..<e} = {} then allocate_in_loop a page end' = (Err Exhausted, a)
         else \<exists>a'. allocate_in_loop a page end' = (Ok (page_addr (Min ((M - U) \<inter> {k..<e}))), a') \<and>
                   pa_rel n M (insert (Min ((M - U) \<inter> {k..<e})) U) a' \<and>
                   pa_ram_pages a' = pa_ram_pages a"
  using assms(3)
proof (induction "e - k" arbitrary: k page)
  case 0
  then show ?case using loop_end [of page k end' e] assms(4) by (simp add: allocate_in_loop.simps)
next
  case (Suc d)
  then have "k < e" by simp
  note lp = loop_page [OF assms(1) \<open>k < e\<close> assms(2) Suc.prems assms(4)]
  have st: "pa_state a page = Ok (if k \<notin> M then Reserved else if k \<in> U then InUse else Unused)"
    using lp(3) Suc.prems by (simp add: pa_state_eq [OF assms(1)])
  show ?case
  proof (cases "k \<in> M - U")
    case True
    then have "Min ((M - U) \<inter> {k..<e}) = k" using \<open>k < e\<close> by (intro Min_eqI) auto
    moreover have "k \<in> (M - U) \<inter> {k..<e}" using True \<open>k < e\<close> by simp
    moreover obtain a' where "pa_set_in_use a k True = (Ok (), a')"
        "pa_rel n M (insert k U) a'" "pa_ram_pages a' = pa_ram_pages a"
      using pa_set_in_use_eq [OF assms(1) lp(3), of True] True by auto
    moreover have "allocate_in_loop a page end' =
        st_then (pa_set_in_use a k True) (\<lambda>_ a'. (Ok page, a'))"
      using lp(1,2) st True by (simp add: allocate_in_loop.simps [of a page])
    ultimately show ?thesis using lp(6) by auto
  next
    case False
    then have "(M - U) \<inter> {k..<e} = (M - U) \<inter> {Suc k..<e}" by (auto simp: Suc_le_eq le_less)
    moreover have "allocate_in_loop a page end' = allocate_in_loop a (page_addr (Suc k)) end'"
      using lp(1,4) st False by (auto simp: allocate_in_loop.simps [of a page])
    ultimately show ?thesis using Suc.hyps(1) [of "Suc k", OF _ lp(5)] Suc.hyps(2) by simp
  qed
qed

lemma release_loop_spec:
  assumes "pa_rel n M U a" and "e \<le> 8 * n" and "unat page = 4096 * k" and "unat end' = 4096 * e"
  shows "\<exists>a'. release_loop a page end' released = (Ok (released + card (U \<inter> {k..<e})), a') \<and>
              pa_rel n M (U - {k..<e}) a' \<and> pa_ram_pages a' = pa_ram_pages a"
  using assms(1,3)
proof (induction "e - k" arbitrary: k page a U released)
  case 0
  then show ?case using loop_end [of page k end' e] assms(4) by (simp add: release_loop.simps)
next
  case (Suc d)
  then have "k < e" by simp
  note lp = loop_page [OF Suc.prems(1) \<open>k < e\<close> assms(2) Suc.prems(2) assms(4)]
  note rel = pa_relD [OF Suc.prems(1)]
  let ?u = "k \<in> U"
  obtain a1 where a1: "(if ?u then pa_set_in_use a k False else (Ok (), a)) = (Ok (), a1)"
      "pa_rel n M (U - {k}) a1" "pa_ram_pages a1 = pa_ram_pages a"
    using pa_set_in_use_eq [OF Suc.prems(1) lp(3), of False] Suc.prems(1) by (cases ?u) auto
  have set: "bm_is_set (pa_managed a) k = (Ok (k \<in> M) :: (bool, allocator_error) outcome)"
      "bm_is_set (pa_in_use a) k = (Ok ?u :: (bool, allocator_error) outcome)"
    using bm_is_set_eq [OF rel(1) lp(3)] bm_is_set_eq [OF rel(2) lp(3)] by auto
  have step: "release_loop a page end' released =
      release_loop a1 (page_addr (Suc k)) end' (if ?u then released + 1 else released)"
    using lp(1,2,4) set a1(1) rel(3) by (subst release_loop.simps) auto
  have "U \<inter> {k..<e} = (if ?u then insert k ((U - {k}) \<inter> {Suc k..<e}) else (U - {k}) \<inter> {Suc k..<e})"
    using \<open>k < e\<close> by (auto simp: Suc_le_eq le_less)
  then have "card (U \<inter> {k..<e}) = (if ?u then 1 else 0) + card ((U - {k}) \<inter> {Suc k..<e})"
    using rel(8) by simp
  moreover have "U - {k..<e} = (U - {k}) - {Suc k..<e}" using \<open>k < e\<close> by auto
  ultimately show ?case
    using Suc.hyps(1) [OF _ a1(2) lp(5), of "if ?u then released + 1 else released"] Suc.hyps(2)
      step a1(3) by auto
qed


lemma min_end:
  assumes "pa_rel n M U a" and "bounds_fit r"
  shows "unat (min (word_of_nat (4096 * end_page r)) (aperture_end a)) =
           4096 * min (end_page r) (8 * n)"
  using unat_bounds(2) [OF assms(2)] unat_aperture_end [OF assms(1)]
  by (auto simp: min_def word_le_nat_alt)

lemma region_pages_clip:
  assumes "region_wf r" and "S \<subseteq> {..<8 * n}"
  shows "S \<inter> {first_page r..<min (end_page r) (8 * n)} = S \<inter> region_pages r"
    and "S - {first_page r..<min (end_page r) (8 * n)} = S - region_pages r"
proof -
  have "x \<in> {first_page r..<min (end_page r) (8 * n)} \<longleftrightarrow> x \<in> region_pages r" if "x \<in> S" for x
    using assms that by (auto simp: region_pages_eq)
  then show "S \<inter> {first_page r..<min (end_page r) (8 * n)} = S \<inter> region_pages r"
    and "S - {first_page r..<min (end_page r) (8 * n)} = S - region_pages r"
    by blast+
qed

lemma allocate_in_spec:
  assumes rel: "pa_rel n M U a" and wf: "region_wf r"
  shows "if \<not> bounds_fit r then allocate_in a r = (Err AddressOverflow, a)
         else if (M - U) \<inter> region_pages r = {} then allocate_in a r = (Err Exhausted, a)
         else \<exists>a'. allocate_in a r = (Ok (page_addr (Min ((M - U) \<inter> region_pages r))), a') \<and>
                   pa_rel n M (insert (Min ((M - U) \<inter> region_pages r)) U) a' \<and>
                   pa_ram_pages a' = pa_ram_pages a"
proof (cases "bounds_fit r")
  case True
  have "M - U \<subseteq> {..<8 * n}" using pa_relD(6) [OF rel] by blast
  note clip = region_pages_clip(1) [OF wf this]
  show ?thesis
    using allocate_in_loop_spec [OF rel _ unat_bounds(1) [OF True] min_end [OF rel True], unfolded clip] True
    by (simp add: allocate_in_def page_bounds_eq del: of_nat_mult)
qed (simp add: allocate_in_def page_bounds_eq)

lemma release_spec:
  assumes rel: "pa_rel n M U a" and wf: "region_wf r"
  shows "if bounds_fit r
         then \<exists>a'. release a r = (Ok (card (U \<inter> region_pages r)), a') \<and>
                   pa_rel n M (U - region_pages r) a' \<and> pa_ram_pages a' = pa_ram_pages a
         else release a r = (Err AddressOverflow, a)"
proof (cases "bounds_fit r")
  case True
  have "U \<subseteq> {..<8 * n}" using pa_relD(3,6) [OF rel] by blast
  note clip = region_pages_clip [OF wf this]
  show ?thesis
    using release_loop_spec [OF rel _ unat_bounds(1) [OF True] min_end [OF rel True], of 0] True
    by (simp add: release_def page_bounds_eq clip)
qed (simp add: release_def page_bounds_eq)

lemma pa_free_spec:
  assumes rel: "pa_rel n M U a" and st: "pa_state a page = Ok InUse"
  shows "\<exists>a'. pa_free a page = (Ok (), a') \<and> pa_rel n M (U - {unat page div 4096}) a' \<and>
              pa_ram_pages a' = pa_ram_pages a"
proof -
  have p: "unat page div 4096 < 8 * n" using st by (auto simp: pa_state_eq [OF rel] split: if_splits)
  then show ?thesis
    using pa_set_in_use_eq [OF rel p, of False] st
    by (auto simp: pa_free_def bitmap_index_eq [OF rel])
qed

lemma pa_free_error:
  assumes "pa_state a page \<noteq> Ok InUse"
  shows "snd (pa_free a page) = a" and "fst (pa_free a page) \<noteq> Ok ()"
    and "pa_state a page = Ok Unused \<Longrightarrow> fst (pa_free a page) = Err DoubleFree"
    and "pa_state a page = Ok Reserved \<Longrightarrow> fst (pa_free a page) = Err ReservedPage"
  using assms by (cases "pa_state a page"; auto simp: pa_free_def split: page_state.splits)+

subsection \<open>Construction\<close>

lemma mark_managed_loop_spec:
  assumes "pa_rel n M U a" and "e \<le> 8 * n" and "unat page = 4096 * k" and "unat end' = 4096 * e"
  shows "\<exists>a'. mark_managed_loop a page end' = (Ok (), a') \<and> pa_rel n (M \<union> {k..<e}) U a' \<and>
              pa_ram_pages a' = pa_ram_pages a"
  using assms(1,3)
proof (induction "e - k" arbitrary: k page a M)
  case 0
  then show ?case using loop_end [of page k end' e] assms(4) by (simp add: mark_managed_loop.simps)
next
  case (Suc d)
  then have "k < e" by simp
  note lp = loop_page [OF Suc.prems(1) \<open>k < e\<close> assms(2) Suc.prems(2) assms(4)]
  obtain b where b: "bm_set_bit (pa_managed a) k True = (Ok () :: (unit, allocator_error) outcome, b)"
      "bm_rel n (insert k M) b"
    using bm_set_bit_eq [OF pa_relD(1) [OF Suc.prems(1)] lp(3), of True] by auto
  let ?a = "a\<lparr>pa_managed := b\<rparr>"
  have rel: "pa_rel n (insert k M) U ?a" using Suc.prems(1) b(2) by (auto simp: pa_rel_def)
  have "mark_managed_loop a page end' = mark_managed_loop ?a (page_addr (Suc k)) end'"
    using lp(1,2,4) b(1) by (subst mark_managed_loop.simps) simp
  moreover have "insert k M \<union> {Suc k..<e} = M \<union> {k..<e}" using \<open>k < e\<close> by auto
  ultimately show ?case using Suc.hyps(1) [OF _ rel lp(5)] Suc.hyps(2) by simp
qed

lemma mark_managed_spec:
  assumes rel: "pa_rel n M U a" and wf: "region_wf r"
  shows "if \<not> bounds_fit r then mark_managed a r = (Err AddressOverflow, a)
         else if 8 * n < end_page r then mark_managed a r = (Err PhysicalAddressOutOfRange, a)
         else \<exists>a'. mark_managed a r = (Ok (), a') \<and> pa_rel n (M \<union> region_pages r) U a' \<and>
                   pa_ram_pages a' = pa_ram_pages a"
proof (cases "bounds_fit r")
  case True
  have "aperture_end a < word_of_nat (4096 * end_page r) \<longleftrightarrow> 8 * n < end_page r"
    using unat_bounds(2) [OF True] unat_aperture_end [OF rel] by (simp add: word_less_nat_alt)
  then show ?thesis
    using mark_managed_loop_spec [OF rel _ unat_bounds [OF True]] True
    by (auto simp: mark_managed_def page_bounds_eq region_pages_eq [OF wf])
qed (simp add: mark_managed_def page_bounds_eq)

lemma mark_each_managed_Ok:
  assumes "pa_rel n M U a" and "\<forall>r \<in> set rs. region_wf r"
    and "mark_each_managed a rs = (Ok (), a')"
  shows "pa_rel n (M \<union> \<Union>(region_pages ` set rs)) U a' \<and> pa_ram_pages a' = pa_ram_pages a"
  using assms
proof (induction rs arbitrary: a M)
  case (Cons r rs)
  obtain a1 where a1: "mark_managed a r = (Ok (), a1)" "mark_each_managed a1 rs = (Ok (), a')"
    using Cons.prems(3) by (auto simp: outcome_simps)
  then have "pa_rel n (M \<union> region_pages r) U a1 \<and> pa_ram_pages a1 = pa_ram_pages a"
    using mark_managed_spec [OF Cons.prems(1), of r] Cons.prems(2) by (auto split: if_splits)
  then show ?case using Cons.IH [of "M \<union> region_pages r" a1] a1(2) Cons.prems(2) by (simp add: Un_assoc)
qed simp

lemma mark_all_managed_in_use_loop_spec:
  assumes "pa_rel n M U a" and "set is \<subseteq> {..<8 * n}"
  shows "\<exists>a'. mark_all_managed_in_use_loop a is = (Ok (), a') \<and>
              pa_rel n M (U \<union> (M \<inter> set is)) a' \<and> pa_ram_pages a' = pa_ram_pages a"
  using assms
proof (induction "is" arbitrary: a U)
  case (Cons i "is")
  have i: "i < 8 * n" using Cons.prems(2) by simp
  have m: "bm_is_set (pa_managed a) i = (Ok (i \<in> M) :: (bool, allocator_error) outcome)"
    using bm_is_set_eq [OF pa_relD(1) [OF Cons.prems(1)] i] .
  obtain a1 where a1: "(if i \<in> M then pa_set_in_use a i True else (Ok (), a)) = (Ok (), a1)"
      "pa_rel n M (U \<union> (M \<inter> {i})) a1" "pa_ram_pages a1 = pa_ram_pages a"
    using pa_set_in_use_eq [OF Cons.prems(1) i, of True] Cons.prems(1) by (cases "i \<in> M") auto
  have "U \<union> (M \<inter> {i}) \<union> (M \<inter> set is) = U \<union> (M \<inter> set (i # is))" by auto
  then show ?case using Cons.IH [OF a1(2)] Cons.prems(2) a1(1,3) m by simp
qed simp

lemma mark_all_managed_in_use_spec:
  assumes "pa_rel n M U a"
  shows "\<exists>a'. mark_all_managed_in_use a = (Ok (), a') \<and> pa_rel n M M a' \<and>
              pa_ram_pages a' = pa_ram_pages a"
proof -
  have "U \<union> (M \<inter> set [0..<8 * n]) = M" using pa_relD(3,6) [OF assms] by auto
  moreover have "set [0..<8 * n] \<subseteq> {..<8 * n}" by auto
  ultimately show ?thesis
    using mark_all_managed_in_use_loop_spec [OF assms, of "[0..<8 * n]"] pa_relD(5) [OF assms]
    by (auto simp: mark_all_managed_in_use_def)
qed

lemma release_each_Ok:
  assumes "pa_rel n M U a" and "\<forall>r \<in> set rs. region_wf r" and "release_each a rs = (Ok (), a')"
  shows "pa_rel n M (U - \<Union>(region_pages ` set rs)) a' \<and> pa_ram_pages a' = pa_ram_pages a"
  using assms
proof (induction rs arbitrary: a U)
  case (Cons r rs)
  obtain k a1 where a1: "release a r = (Ok k, a1)" "release_each a1 rs = (Ok (), a')"
    using Cons.prems(3) by (auto simp: outcome_simps)
  then have "pa_rel n M (U - region_pages r) a1 \<and> pa_ram_pages a1 = pa_ram_pages a"
    using release_spec [OF Cons.prems(1), of r] Cons.prems(2) by (auto split: if_splits)
  moreover have "U - region_pages r - \<Union>(region_pages ` set rs) = U - \<Union>(region_pages ` set (r # rs))"
    by auto
  ultimately show ?case using Cons.IH [of "U - region_pages r" a1] a1(2) Cons.prems(2) by simp
qed simp

lemma count_pages_loop_Ok:
  assumes "count_pages_loop rs k = Ok m" and "\<forall>r \<in> set rs. region_wf r"
  shows "unat m = unat k + (\<Sum>r\<leftarrow>rs. card (region_pages r))"
  using assms
proof (induction rs arbitrary: k)
  case (Cons r rs)
  let ?s = "word_of_nat (4096 * first_page r) :: u64" and ?e = "word_of_nat (4096 * end_page r) :: u64"
  have fit: "bounds_fit r" using Cons.prems(1) by (auto simp: page_bounds_eq split: if_splits)
  obtain d k' where d: "checked_sub ?e ?s = Some d" "checked_add k (d div PAGE_SIZE) = Some k'"
      "count_pages_loop rs k' = Ok m"
    using Cons.prems(1) fit
    by (auto simp: page_bounds_eq outcome_simps split: if_splits option.splits)
  have "unat d = 4096 * (end_page r - first_page r)" "first_page r \<le> end_page r"
    using d(1) unat_bounds [OF fit]
    by (auto simp: checked_sub_def word_le_nat_alt unat_sub split: if_splits)
  then have "unat k' = unat k + card (region_pages r)"
    using unat_checked_add [OF d(2)] Cons.prems(2) by (simp add: unat_div_distrib region_pages_eq)
  then show ?case using Cons.IH [OF d(3)] Cons.prems(2) by simp
qed simp


text \<open>
  The regions construction accepts: they contain a page boundary and end below the
  4 GiB limit.
\<close>

definition region_countable :: "phys_region \<Rightarrow> bool" where
  "region_countable r \<longleftrightarrow> region_wf r \<and> first_page r \<le> end_page r \<and> 4096 * end_page r \<le> 2 ^ 32"

lemma region_countable_fit: "region_countable r \<Longrightarrow> bounds_fit r"
proof -
  assume r: "region_countable r"
  have "unat (region_start r) \<le> 4096 * first_page r" by (simp add: first_page_mult)
  then show ?thesis using r by (auto simp: region_countable_def bounds_fit_def)
qed

lemma count_pages_loop_total:
  assumes "\<forall>r \<in> set rs. region_countable r" and "unat k + 2 ^ 32 * length rs < 2 ^ 64"
  shows "\<exists>m. count_pages_loop rs k = Ok m"
  using assms
proof (induction rs arbitrary: k)
  case (Cons r rs)
  let ?s = "word_of_nat (4096 * first_page r) :: u64" and ?e = "word_of_nat (4096 * end_page r) :: u64"
  have r: "region_countable r" using Cons.prems(1) by simp
  note fit = region_countable_fit [OF r]
  have "\<not> MAX_PHYSICAL_ADDRESS < ?e" and d: "checked_sub ?e ?s = Some (?e - ?s)"
    and u: "unat (?e - ?s) = 4096 * (end_page r - first_page r)"
    using r unat_bounds [OF fit]
    by (auto simp: region_countable_def MAX_PHYSICAL_ADDRESS_def word_less_nat_alt checked_sub_def
        word_le_nat_alt unat_sub)
  moreover have q: "unat ((?e - ?s) div PAGE_SIZE) \<le> 2 ^ 32"
    using r u by (auto simp: unat_div_distrib region_countable_def)
  moreover have "checked_add k ((?e - ?s) div PAGE_SIZE) \<noteq> None"
    using q Cons.prems(2) by (simp add: checked_add_None)
  then obtain k' where k': "checked_add k ((?e - ?s) div PAGE_SIZE) = Some k'" by blast
  have "unat k' + 2 ^ 32 * length rs < 2 ^ 64"
    using unat_checked_add [OF k'] q Cons.prems(2) by simp
  then show ?case
    using Cons.IH [of k'] Cons.prems(1) calculation k' fit by (simp add: page_bounds_eq del: of_nat_mult)
qed simp

lemma mark_each_managed_total:
  assumes "pa_rel n M U a" and "\<forall>r \<in> set rs. region_wf r \<and> bounds_fit r \<and> end_page r \<le> 8 * n"
  shows "\<exists>a'. mark_each_managed a rs = (Ok (), a')"
  using assms
proof (induction rs arbitrary: a M)
  case (Cons r rs)
  obtain a1 where "mark_managed a r = (Ok (), a1)" "pa_rel n (M \<union> region_pages r) U a1"
    using mark_managed_spec [OF Cons.prems(1), of r] Cons.prems(2) by (auto split: if_splits)
  then show ?case using Cons.IH Cons.prems(2) by simp
qed simp

lemma release_each_total:
  assumes "pa_rel n M U a" and "\<forall>r \<in> set rs. region_wf r \<and> bounds_fit r"
  shows "\<exists>a'. release_each a rs = (Ok (), a')"
  using assms
proof (induction rs arbitrary: a U)
  case (Cons r rs)
  obtain k a1 where "release a r = (Ok k, a1)" "pa_rel n M (U - region_pages r) a1"
    using release_spec [OF Cons.prems(1), of r] Cons.prems(2) by (auto split: if_splits)
  then show ?case using Cons.IH Cons.prems(2) by simp
qed simp

lemma pa_new_total:
  assumes ram: "ram = fl_of nr rs" "length rs \<le> nr" and al: "allocatable = fl_of na as" "length as \<le> na"
    and un: "initially_unused = fl_of nu us" "length us \<le> nu"
    and rs: "\<forall>r \<in> set rs. region_countable r" "length rs < 2 ^ 31"
    and as: "\<forall>r \<in> set as. region_wf r \<and> bounds_fit r \<and> end_page r \<le> 8 * n"
    and us: "\<forall>r \<in> set us. region_wf r \<and> bounds_fit r"
    and n: "length (bm_bits managed) = n" "length (bm_bits in_use) = n" "0 < n" "32768 * n < 2 ^ 64"
  shows "\<exists>a. pa_new ram allocatable initially_unused managed in_use = Ok a"
proof -
  obtain k where k: "count_pages_loop rs 0 = Ok k"
    using count_pages_loop_total [OF rs(1), of 0] rs(2) by auto
  define a0 where "a0 = \<lparr>pa_managed = bm_clear managed, pa_in_use = bm_clear in_use,
    pa_ram_pages = unat k\<rparr>"
  have r0: "pa_rel n {} {} a0"
    using n bm_rel_clear [OF n(1)] bm_rel_clear [OF n(2)] by (simp add: pa_rel_def a0_def)
  obtain a1 where a1: "mark_each_managed a0 as = (Ok (), a1)"
    using mark_each_managed_total [OF r0 as] by blast
  have r1: "pa_rel n (\<Union>(region_pages ` set as)) {} a1"
    using mark_each_managed_Ok [OF r0 _ a1] as by auto
  obtain a2 where a2: "mark_all_managed_in_use a1 = (Ok (), a2)" and r2: "\<exists>M. pa_rel n M M a2"
    using mark_all_managed_in_use_spec [OF r1] by blast
  obtain a3 where "release_each a2 us = (Ok (), a3)" using r2 release_each_total us by blast
  then show ?thesis
    using ram al un k a1 a2 n(1,3)
    by (simp add: pa_new_def validate_bitmaps_def count_pages_def fl_iter_eq a0_def)
qed

lemma pa_new_Ok:
  assumes new: "pa_new ram allocatable initially_unused managed in_use = Ok a"
    and ram: "ram = fl_of nr rs" "length rs \<le> nr" and al: "allocatable = fl_of na as" "length as \<le> na"
    and un: "initially_unused = fl_of nu us" "length us \<le> nu"
    and wf: "\<forall>r \<in> set rs \<union> set as \<union> set us. region_wf r"
    and n: "length (bm_bits managed) = n" "length (bm_bits in_use) = n" "32768 * n < 2 ^ 64"
  shows "pa_rel n (\<Union>(region_pages ` set as))
           (\<Union>(region_pages ` set as) - \<Union>(region_pages ` set us)) a \<and>
         pa_ram_pages a = (\<Sum>r\<leftarrow>rs. card (region_pages r))"
proof -
  obtain k where k: "count_pages_loop rs 0 = Ok k"
    using new ram by (auto simp: pa_new_def count_pages_def fl_iter_eq outcome_simps)
  define a0 where "a0 = \<lparr>pa_managed = bm_clear managed, pa_in_use = bm_clear in_use,
    pa_ram_pages = unat k\<rparr>"
  obtain a1 a2 where steps: "mark_each_managed a0 as = (Ok (), a1)"
      "mark_all_managed_in_use a1 = (Ok (), a2)" "release_each a2 us = (Ok (), a)"
    using new ram al un k
    by (auto simp: pa_new_def count_pages_def fl_iter_eq outcome_simps a0_def Let_def split: prod.splits)
  have r0: "pa_rel n {} {} a0"
    using n bm_rel_clear [OF n(1)] bm_rel_clear [OF n(2)] by (simp add: pa_rel_def a0_def)
  have r1: "pa_rel n (\<Union>(region_pages ` set as)) {} a1" "pa_ram_pages a1 = unat k"
    using mark_each_managed_Ok [OF r0 _ steps(1)] wf by (auto simp: a0_def)
  then have r2: "pa_rel n (\<Union>(region_pages ` set as)) (\<Union>(region_pages ` set as)) a2"
      "pa_ram_pages a2 = unat k"
    using mark_all_managed_in_use_spec [OF r1(1)] steps(2) by auto
  show ?thesis
    using release_each_Ok [OF r2(1) _ steps(3)] r2(2) wf count_pages_loop_Ok [OF k] by simp
qed

lemma pa_stats_spec:
  assumes "pa_rel n M U a" and "card M \<le> pa_ram_pages a"
  shows "\<exists>st. pa_stats a = Ok st \<and> stat_in_use_pages st = card U \<and>
     stat_unused_pages st = card (M - U) \<and>
     stat_reserved_pages st + stat_in_use_pages st + stat_unused_pages st = stat_ram_pages st"
proof -
  note r = pa_relD [OF assms(1)]
  have "card U \<le> card M" "card (M - U) = card M - card U"
    using r(3,7,8) by (auto intro: card_mono card_Diff_subset)
  then show ?thesis
    using assms(2) bm_rel_pages [OF r(1)] bm_rel_pages [OF r(2)] by (auto simp: pa_stats_def Let_def)
qed


section \<open>What clients rely on\<close>

text \<open>
  A provider of page runs, seen through a relation between its state, the set \<open>M\<close> of
  pages it manages and the set \<open>U\<close> in use. \<open>free_pages\<close> is the rollback loop of the
  clients: it frees every page of a list and stops at the first error.
\<close>

fun free_pages ::
  "('s \<Rightarrow> phys_addr \<Rightarrow> (unit, 'e) outcome \<times> 's) \<Rightarrow> 's \<Rightarrow> phys_addr list \<Rightarrow> (unit, 'e) outcome \<times> 's" where
  "free_pages dealloc s [] = (Ok (), s)"
| "free_pages dealloc s (p # ps) = st_then (dealloc s p) (\<lambda>_ s'. free_pages dealloc s' ps)"

locale page_provider =
  fixes rel :: "nat set \<Rightarrow> nat set \<Rightarrow> 's \<Rightarrow> bool"
    and alloc :: "'s \<Rightarrow> nat \<Rightarrow> (phys_addr, 'e) outcome \<times> 's"
    and dealloc :: "'s \<Rightarrow> phys_addr \<Rightarrow> (unit, 'e) outcome \<times> 's"
  assumes alloc_law: "rel M U s \<Longrightarrow> 0 < k \<Longrightarrow>
      (\<exists>i s'. alloc s k = (Ok (page_addr i), s') \<and> {i..<i + k} \<subseteq> M - U \<and>
              rel M (U \<union> {i..<i + k}) s') \<or>
      (\<exists>e. alloc s k = (Err e, s))"
    and dealloc_law: "rel M U s \<Longrightarrow> i \<in> U \<Longrightarrow>
      \<exists>s'. dealloc s (page_addr i) = (Ok (), s') \<and> rel M (U - {i}) s'"
begin

lemma free_pages_rel:
  "rel M U s \<Longrightarrow> distinct js \<Longrightarrow> set js \<subseteq> U \<Longrightarrow>
   \<exists>s'. free_pages dealloc s (map page_addr js) = (Ok (), s') \<and> rel M (U - set js) s'"
proof (induction js arbitrary: s U)
  case (Cons j js)
  obtain s1 where s1: "dealloc s (page_addr j) = (Ok (), s1)" "rel M (U - {j}) s1"
    using dealloc_law [OF Cons.prems(1), of j] Cons.prems(3) by auto
  have "set js \<subseteq> U - {j}" using Cons.prems(2,3) by auto
  then show ?case using Cons.IH [OF s1(2)] Cons.prems(2) s1(1) by (simp add: Diff_insert2 [symmetric])
qed simp

lemma alloc_free_rel:
  assumes "rel M U s" and "0 < k" and "alloc s k = (Ok p, s1)"
  shows "\<exists>i s2. p = page_addr i \<and> {i..<i + k} \<subseteq> M - U \<and>
           free_pages dealloc s1 (map page_addr [i..<i + k]) = (Ok (), s2) \<and> rel M U s2"
proof -
  obtain i where i: "p = page_addr i" "{i..<i + k} \<subseteq> M - U" "rel M (U \<union> {i..<i + k}) s1"
    using alloc_law [OF assms(1,2)] assms(3) by auto
  have "U \<union> {i..<i + k} - set [i..<i + k] = U" using i(2) by auto
  then show ?thesis using free_pages_rel [OF i(3), of "[i..<i + k]"] i by auto
qed

end

interpretation pa: page_provider "pa_rel n" allocate_contiguous pa_free for n
proof
  fix M U a and k :: nat
  assume rel: "pa_rel n M U a" and k: "0 < k"
  obtain r a' where r: "allocate_contiguous a k = (r, a')" by fastforce
  then show "(\<exists>i s'. allocate_contiguous a k = (Ok (page_addr i), s') \<and> {i..<i + k} \<subseteq> M - U \<and>
               pa_rel n M (U \<union> {i..<i + k}) s') \<or> (\<exists>e. allocate_contiguous a k = (Err e, a))"
    using allocate_contiguous_spec [OF rel k]
    by (auto simp: contiguous_post_def Let_def free_run_def split: if_splits)
next
  fix M U a i
  assume rel: "pa_rel n M U a" and i: "i \<in> U"
  then have "i < 8 * n" "i \<in> M" using pa_relD(3,6) [OF rel] by auto
  then show "\<exists>a'. pa_free a (page_addr i) = (Ok (), a') \<and> pa_rel n M (U - {i}) a'"
    using pa_free_spec [OF rel, of "page_addr i"] i unat_page_addr [OF rel, of i]
    by (auto simp: pa_state_eq [OF rel])
qed

lemma pa_free_ram_pages: "pa_ram_pages (snd (pa_free a p)) = pa_ram_pages a"
proof (cases "pa_state a p")
  case (Ok st)
  then show ?thesis
    by (cases st; cases "bitmap_index a p")
      (auto simp: pa_free_def pa_set_in_use_def split: prod.splits)
qed (auto simp: pa_free_def)

lemma free_pages_ram_pages: "free_pages pa_free a ps = (r, a') \<Longrightarrow> pa_ram_pages a' = pa_ram_pages a"
proof (induction ps arbitrary: a)
  case (Cons p ps)
  obtain q b where b: "pa_free a p = (q, b)" by fastforce
  have "pa_ram_pages b = pa_ram_pages a" using pa_free_ram_pages [of a p] b by simp
  then show ?case using Cons.IH [of b] Cons.prems b by (cases q) auto
qed simp

subsection \<open>Every sequence of operations\<close>

inductive pa_step :: "page_allocator \<Rightarrow> page_allocator \<Rightarrow> bool" where
  step_allocate: "pa_step a (snd (allocate a))"
| step_contiguous: "pa_step a (snd (allocate_contiguous a k))"
| step_high: "pa_step a (snd (allocate_high a))"
| step_in: "region_wf r \<Longrightarrow> pa_step a (snd (allocate_in a r))"
| step_free: "pa_step a (snd (pa_free a p))"
| step_release: "region_wf r \<Longrightarrow> pa_step a (snd (release a r))"

definition pa_inv :: "nat \<Rightarrow> nat set \<Rightarrow> nat \<Rightarrow> page_allocator \<Rightarrow> bool" where
  "pa_inv n M ram a \<longleftrightarrow> pa_ram_pages a = ram \<and> (\<exists>U. pa_rel n M U a)"

lemma contiguous_inv: "pa_inv n M ram a \<Longrightarrow> pa_inv n M ram (snd (allocate_contiguous a k))"
proof -
  assume "pa_inv n M ram a"
  then obtain U where U: "pa_rel n M U a" "pa_ram_pages a = ram" by (auto simp: pa_inv_def)
  show ?thesis
  proof (cases k)
    case 0
    then show ?thesis using U by (auto simp: allocate_contiguous_def pa_inv_def)
  next
    case (Suc k')
    have "contiguous_post n M U a k (allocate_contiguous a k)"
      using allocate_contiguous_spec [OF U(1), of k] Suc by simp
    then show ?thesis
      using U by (auto simp: contiguous_post_def Let_def pa_inv_def split: if_splits)
  qed
qed

lemma pa_step_inv:
  assumes "pa_inv n M ram a" and "pa_step a a'"
  shows "pa_inv n M ram a'"
proof -
  obtain U where U: "pa_rel n M U a" "pa_ram_pages a = ram" using assms(1) by (auto simp: pa_inv_def)
  from assms(2) show ?thesis
  proof cases
    case step_high
    then show ?thesis
      using allocate_high_loop_spec [OF U(1), of "8 * n"] U
      by (auto simp: allocate_high_def pa_relD(5) [OF U(1)] pa_inv_def split: if_splits)
  next
    case (step_in r)
    then show ?thesis
      using allocate_in_spec [OF U(1), of r] U by (auto simp: pa_inv_def split: if_splits)
  next
    case (step_free p)
    then show ?thesis
      using pa_free_spec [OF U(1), of p] pa_free_error(1) [of a p] U
      by (cases "pa_state a p = Ok InUse") (auto simp: pa_inv_def)
  next
    case (step_release r)
    then show ?thesis
      using release_spec [OF U(1), of r] U by (auto simp: pa_inv_def split: if_splits)
  qed (auto simp: allocate_def contiguous_inv assms(1))
qed

interpretation pas: transition_system "pa_inv n M ram" pa_step "pa_inv n M ram" for n M ram
  by unfold_locales (auto intro: pa_step_inv)

section \<open>Correctness\<close>

text \<open>An allocator of eight pages, all unused, for the concrete instances below.\<close>

definition all_unused_8 :: page_allocator where
  "all_unused_8 = \<lparr>pa_managed = \<lparr>bm_bits = [0xff], bm_set_pages = 8\<rparr>,
     pa_in_use = bm_zeroed 1, pa_ram_pages = 8\<rparr>"

lemma bm_rel_8: "bm_rel 1 {..<8} \<lparr>bm_bits = [0xff], bm_set_pages = 8\<rparr>"
proof -
  have "filter (\<lambda>i. bit ([0xff::u8] ! (i div 8)) (i mod 8)) [0..<8] = [0..<8]" by code_simp
  then show ?thesis unfolding bm_rel_def bm_set_code by (simp add: lessThan_atLeast0)
qed

lemma all_unused_8_rel: "pa_rel 1 {..<8} {} all_unused_8"
  using bm_rel_8 bm_rel_zeroed [of 1] by (simp add: pa_rel_def all_unused_8_def)

text \<open>
  C18: \<open>allocate_contiguous\<close> is first fit. On an allocator with managed pages \<open>M\<close> and
  in-use pages \<open>U\<close> it fails with \<open>Exhausted\<close>, leaving the allocator as it was, exactly
  when no \<open>pages\<close> consecutive managed pages are free; otherwise it returns the address
  of the lowest such run and marks exactly the pages of the run in use.
\<close>

theorem allocate_contiguous_correct:
  assumes "pa_rel n M U a" and "0 < pages"
  shows "if \<exists>s. {s..<s + pages} \<subseteq> M - U
         then \<exists>s a'. allocate_contiguous a pages = (Ok (page_addr s), a') \<and>
                unat (page_addr s) = 4096 * s \<and> {s..<s + pages} \<subseteq> M - U \<and>
                (\<forall>t < s. \<not> {t..<t + pages} \<subseteq> M - U) \<and>
                pa_rel n M (U \<union> {s..<s + pages}) a' \<and> pa_ram_pages a' = pa_ram_pages a
         else allocate_contiguous a pages = (Err Exhausted, a)"
proof (cases "\<exists>s. free_run (M - U) pages s")
  case True
  let ?s = "LEAST s. free_run (M - U) pages s"
  obtain r a' where r: "allocate_contiguous a pages = (r, a')" by fastforce
  have post: "r = Ok (page_addr ?s)" "free_run (M - U) pages ?s"
      "pa_rel n M (U \<union> {?s..<?s + pages}) a'" "pa_ram_pages a' = pa_ram_pages a"
    using allocate_contiguous_spec [OF assms] True r by (simp_all add: contiguous_post_def Let_def)
  have "\<not> free_run (M - U) pages t" if "t < ?s" for t using not_less_Least [OF that] .
  moreover have "?s \<in> M" using free_runD [OF post(2) assms(2)] by simp
  then have "unat (page_addr ?s) = 4096 * ?s"
    using pa_relD(6) [OF assms(1)] by (intro unat_page_addr [OF assms(1)]) auto
  ultimately show ?thesis using True r post unfolding free_run_def by auto
next
  case False
  then show ?thesis
    using allocate_contiguous_spec [OF assms] by (auto simp: contiguous_post_def free_run_def)
qed

theorem allocate_contiguous_correct_witness:
  "\<exists>s a'. allocate_contiguous \<lparr>pa_managed = \<lparr>bm_bits = [0xff], bm_set_pages = 8\<rparr>,
        pa_in_use = \<lparr>bm_bits = [0x05], bm_set_pages = 2\<rparr>, pa_ram_pages = 8\<rparr> 2
      = (Ok (page_addr s), a') \<and> {s..<s + 2} \<subseteq> {..<8} - {0, 2} \<and> (\<forall>t < s. \<not> {t..<t + 2} \<subseteq> {..<8} - {0, 2})"
proof -
  let ?a = "\<lparr>pa_managed = \<lparr>bm_bits = [0xff], bm_set_pages = 8\<rparr>,
    pa_in_use = \<lparr>bm_bits = [0x05], bm_set_pages = 2\<rparr>, pa_ram_pages = 8\<rparr>"
  have "filter (\<lambda>i. bit ([0x05::u8] ! (i div 8)) (i mod 8)) [0..<8] = [0, 2]" by code_simp
  then have u: "bm_set \<lparr>bm_bits = [0x05], bm_set_pages = 2\<rparr> = {0, 2}"
    unfolding bm_set_code by simp
  have rel: "pa_rel 1 {..<8} {0, 2} ?a" using bm_rel_8 u by (simp add: pa_rel_def bm_rel_def)
  have "{3..<3 + 2} \<subseteq> {..<8} - {0, 2::nat}" by auto
  then have ex: "\<exists>s. {s..<s + 2} \<subseteq> {..<8} - {0, 2::nat}" by blast
  show ?thesis
    using allocate_contiguous_correct [OF rel, of 2] unfolding if_P [OF ex] by (simp only: zero_less_numeral) blast
qed


text \<open>
  C20: \<open>PageAllocator::new\<close> returns an allocator whenever the RAM regions contain a
  page boundary and end below 4 GiB and the allocatable ones end inside the bitmaps,
  and it then holds exactly the three-state map the regions ask for: a page is Unused
  when it lies wholly in an allocatable and in an initially unused region, InUse when
  it lies in an allocatable region only, and Reserved otherwise; \<open>ram_pages\<close> is the
  number of whole pages of the RAM regions.
\<close>

theorem pa_new_correct:
  assumes "fl_inv ram" and "fl_inv allocatable" and "fl_inv initially_unused"
    and "\<forall>r \<in> set (fl_list ram). region_countable r" and "fl_len ram < 2 ^ 31"
    and "\<forall>r \<in> set (fl_list allocatable). region_wf r \<and> bounds_fit r \<and> end_page r \<le> 8 * n"
    and "\<forall>r \<in> set (fl_list initially_unused). region_wf r \<and> bounds_fit r"
    and "length (bm_bits managed) = n" and "length (bm_bits in_use) = n" and "0 < n" and "32768 * n < 2 ^ 64"
  shows "\<exists>a. pa_new ram allocatable initially_unused managed in_use = Ok a \<and>
           (\<forall>k < 8 * n. pa_state a (page_addr k) =
              Ok (if k \<notin> \<Union>(region_pages ` set (fl_list allocatable)) then Reserved
                  else if k \<in> \<Union>(region_pages ` set (fl_list initially_unused)) then Unused
                  else InUse)) \<and>
           pa_ram_pages a = (\<Sum>r\<leftarrow>fl_list ram. card (region_pages r))"
proof -
  let ?M = "\<Union>(region_pages ` set (fl_list allocatable))"
  let ?F = "\<Union>(region_pages ` set (fl_list initially_unused))"
  have len: "length (fl_list l) \<le> fl_capacity l" if "fl_inv l" for l :: "phys_region fixed_list"
    using that length_fl_list [OF that] by (simp add: fl_inv_def)
  note form = fl_inv_fl_of [OF assms(1)] len [OF assms(1)] fl_inv_fl_of [OF assms(2)] len [OF assms(2)]
    fl_inv_fl_of [OF assms(3)] len [OF assms(3)]
  have short: "length (fl_list ram) < 2 ^ 31" using assms(5) length_fl_list [OF assms(1)] by simp
  obtain a where a: "pa_new ram allocatable initially_unused managed in_use = Ok a"
    using pa_new_total [OF form assms(4) short assms(6-11)] by blast
  have wf: "\<forall>r \<in> set (fl_list ram) \<union> set (fl_list allocatable) \<union> set (fl_list initially_unused). region_wf r"
    using assms(4,6,7) by (auto simp: region_countable_def)
  have rel: "pa_rel n ?M (?M - ?F) a"
    and rp: "pa_ram_pages a = (\<Sum>r\<leftarrow>fl_list ram. card (region_pages r))"
    using pa_new_Ok [OF a form wf assms(8,9,11)] by simp_all
  have "pa_state a (page_addr k) = Ok (if k \<notin> ?M then Reserved else if k \<in> ?F then Unused else InUse)"
    if "k < 8 * n" for k
    using that unat_page_addr [OF rel, of k] by (auto simp: pa_state_eq [OF rel])
  then show ?thesis using a rp by blast
qed

theorem pa_new_correct_witness:
  "\<exists>a. pa_new (fl_of 1 [\<lparr>region_start = 0, region_size = 0x8000\<rparr>])
           (fl_of 1 [\<lparr>region_start = 0x1000, region_size = 0x4000\<rparr>])
           (fl_of 1 [\<lparr>region_start = 0x2000, region_size = 0x1800\<rparr>]) (bm_zeroed 1) (bm_zeroed 1) = Ok a \<and>
       pa_state a (page_addr 0) = Ok Reserved \<and> pa_state a (page_addr 1) = Ok InUse \<and>
       pa_state a (page_addr 2) = Ok Unused \<and> pa_state a (page_addr 3) = Ok InUse"
proof -
  let ?r = "\<lparr>region_start = 0, region_size = 0x8000\<rparr> :: phys_region"
    and ?m = "\<lparr>region_start = 0x1000, region_size = 0x4000\<rparr> :: phys_region"
    and ?u = "\<lparr>region_start = 0x2000, region_size = 0x1800\<rparr> :: phys_region"
  note defs = region_countable_def region_wf_def bounds_fit_def first_page_def end_page_def
    page_ceil_def page_floor_def region_end_def
  have ok: "region_countable ?r" "region_wf ?m" "bounds_fit ?m" "end_page ?m \<le> 8 * 1"
    "region_wf ?u" "bounds_fit ?u" by (simp_all add: defs)
  have l: "length [x] \<le> (1::nat)" "fl_list (fl_of 1 [x]) = [x]" "fl_inv (fl_of 1 [x])"
    "fl_len (fl_of 1 [x]) < 2 ^ 31" for x :: phys_region
    by simp_all
  have z: "length (bm_bits (bm_zeroed 1)) = 1" by (simp add: bm_zeroed_def)
  obtain a where "pa_new (fl_of 1 [?r]) (fl_of 1 [?m]) (fl_of 1 [?u]) (bm_zeroed 1) (bm_zeroed 1) = Ok a"
      and st: "\<And>k. k < 8 * 1 \<Longrightarrow> pa_state a (page_addr k) =
        Ok (if k \<notin> \<Union>(region_pages ` set [?m]) then Reserved
            else if k \<in> \<Union>(region_pages ` set [?u]) then Unused else InUse)"
    using pa_new_correct [OF l(3) l(3) l(3), unfolded l(2), OF _ l(4) _ _ z z, of ?r ?m ?u] ok by auto
  then show ?thesis using st [of 0] st [of 1] st [of 2] st [of 3] by (auto simp: region_pages_def)
qed

text \<open>
  C21: accounting and confinement. Whatever sequence of allocations, frees and
  releases runs, with whatever arguments, the set of managed pages never changes,
  in-use pages stay managed, \<open>stats\<close> never underflows and its three counters always
  add up to the RAM pages.
\<close>

theorem pa_accounting:
  assumes "pa_rel n M U a" and "card M \<le> pa_ram_pages a" and "pa_step\<^sup>*\<^sup>* a a'"
  shows "\<exists>V st. pa_rel n M V a' \<and> V \<subseteq> M \<and> pa_stats a' = Ok st \<and>
           stat_in_use_pages st = card V \<and> stat_unused_pages st = card (M - V) \<and>
           stat_ram_pages st = pa_ram_pages a \<and>
           stat_reserved_pages st + stat_in_use_pages st + stat_unused_pages st = stat_ram_pages st"
proof -
  have "pa_inv n M (pa_ram_pages a) a" using assms(1) by (auto simp: pa_inv_def)
  then have "pa_inv n M (pa_ram_pages a) a'" using pas.steps_invar [OF assms(3)] by blast
  then obtain V where V: "pa_rel n M V a'" "pa_ram_pages a' = pa_ram_pages a"
    by (auto simp: pa_inv_def)
  obtain st where st: "pa_stats a' = Ok st" "stat_in_use_pages st = card V"
      "stat_unused_pages st = card (M - V)"
      "stat_reserved_pages st + stat_in_use_pages st + stat_unused_pages st = stat_ram_pages st"
    using pa_stats_spec [OF V(1)] assms(2) V(2) by auto
  have "stat_ram_pages st = pa_ram_pages a"
    using st(1) V(2) by (auto simp: pa_stats_def Let_def split: if_splits)
  then show ?thesis using V st pa_relD(3) [OF V(1)] by blast
qed

theorem pa_accounting_witness:
  "\<exists>V st. pa_rel 1 {..<8} V (snd (allocate_high (snd (allocate all_unused_8)))) \<and>
     pa_stats (snd (allocate_high (snd (allocate all_unused_8)))) = Ok st \<and>
     stat_in_use_pages st = card V \<and> stat_ram_pages st = 8"
proof -
  have steps: "pa_step\<^sup>*\<^sup>* all_unused_8 (snd (allocate_high (snd (allocate all_unused_8))))"
    using step_allocate [of all_unused_8] step_high [of "snd (allocate all_unused_8)"]
    by (rule converse_rtranclp_into_rtranclp [OF _ r_into_rtranclp])
  have ram: "pa_ram_pages all_unused_8 = 8" by (simp add: all_unused_8_def)
  have "card {..<8::nat} \<le> pa_ram_pages all_unused_8" by (simp add: ram)
  from pa_accounting [OF all_unused_8_rel this steps] show ?thesis unfolding ram by blast
qed

text \<open>
  C22: freeing the pages of a run just allocated, one by one, succeeds and restores
  the allocator bit for bit, counters included.
\<close>

theorem allocate_free_roundtrip:
  assumes "pa_rel n M U a" and "0 < pages" and "allocate_contiguous a pages = (Ok p, a1)"
  shows "\<exists>i. p = page_addr i \<and>
             free_pages pa_free a1 (map page_addr [i..<i + pages]) = (Ok (), a)"
proof -
  obtain i a2 where i: "p = page_addr i" "pa_rel n M U a2"
      "free_pages pa_free a1 (map page_addr [i..<i + pages]) = (Ok (), a2)"
    using pa.alloc_free_rel [OF assms] by blast
  have "pa_ram_pages a2 = pa_ram_pages a1"
    using i(3) by (rule free_pages_ram_pages)
  moreover have "pa_ram_pages a1 = pa_ram_pages a"
    using allocate_contiguous_spec [OF assms(1,2)] assms(3)
    by (auto simp: contiguous_post_def Let_def split: if_splits)
  ultimately show ?thesis using pa_rel_unique [OF i(2) assms(1)] i by metis
qed


theorem allocate_free_roundtrip_witness:
  "\<exists>i a1. allocate_contiguous all_unused_8 3 = (Ok (page_addr i), a1) \<and>
     free_pages pa_free a1 (map page_addr [i..<i + 3]) = (Ok (), all_unused_8)"
proof -
  have "is_ok (fst (allocate_contiguous all_unused_8 3))" by code_simp
  then obtain p a1 where a: "allocate_contiguous all_unused_8 3 = (Ok p, a1)"
    by (cases "allocate_contiguous all_unused_8 3"; cases "fst (allocate_contiguous all_unused_8 3)") auto
  show ?thesis using allocate_free_roundtrip [OF all_unused_8_rel _ a] a by auto
qed

end
