(* ===== verification/El2_Stage1.thy ===== *)
theory El2_Stage1
  imports Page_Arith
begin

text \<open>
  The EL2 stage-1 translation tables (\<open>tvisor_util/el2_stage1_translation.rs\<close>): the
  descriptor encoding, the table set with its bump allocator of table pages, the
  builder \<open>map\<close>, the software walk and the break-before-make replacement of a page.
  A table set is its array of 512-entry pages; \<open>ts_wf\<close> says that the pages in use
  form a three-level tree, and the walk is shown to be exactly the mapping that was
  built.
\<close>

section \<open>Constants and data\<close>

definition ENTRIES_PER_TABLE :: nat where "ENTRIES_PER_TABLE = 512"
definition VA_BITS :: nat where "VA_BITS = 39"
definition L1_SHIFT :: nat where "L1_SHIFT = 30"
definition L2_SHIFT :: nat where "L2_SHIFT = 21"
definition L3_SHIFT :: nat where "L3_SHIFT = 12"
definition L1_SIZE :: u64 where "L1_SIZE = push_bit L1_SHIFT 1"
definition L2_SIZE :: u64 where "L2_SIZE = push_bit L2_SHIFT 1"
definition ADDRESS_MASK :: u64 where "ADDRESS_MASK = 0x0000fffffffff000"
definition VALID :: u64 where "VALID = 1"
definition TABLE_OR_PAGE :: u64 where "TABLE_OR_PAGE = 2"
definition ATTR_INDEX_SHIFT :: nat where "ATTR_INDEX_SHIFT = 2"
definition AP_READ_ONLY :: u64 where "AP_READ_ONLY = push_bit 7 1"
definition SH_INNER :: u64 where "SH_INNER = push_bit 8 3"
definition ACCESS_FLAG :: u64 where "ACCESS_FLAG = push_bit 10 1"
definition XN :: u64 where "XN = push_bit 54 1"
definition MAIR_INDEX_NORMAL_WB_WA :: u64 where "MAIR_INDEX_NORMAL_WB_WA = 0"
definition MAIR_INDEX_DEVICE_NGNRE :: u64 where "MAIR_INDEX_DEVICE_NGNRE = 1"

lemmas s1_consts = ENTRIES_PER_TABLE_def VA_BITS_def L1_SHIFT_def L2_SHIFT_def L3_SHIFT_def
  L1_SIZE_def L2_SIZE_def ADDRESS_MASK_def VALID_def TABLE_OR_PAGE_def ATTR_INDEX_SHIFT_def
  AP_READ_ONLY_def SH_INNER_def ACCESS_FLAG_def XN_def MAIR_INDEX_NORMAL_WB_WA_def
  MAIR_INDEX_DEVICE_NGNRE_def

datatype translation_error =
    InvalidTableBase | InvalidPaBits | EmptyMapping | UnalignedMapping | TrAddressOverflow
  | VirtualAddressOutOfRange | TrPhysicalAddressOutOfRange | TableExhausted | ConflictingEntry
  | CorruptTable | TrInvalidateParameter | TrUnexpected

datatype memory_type = Normal | Device

fun attr_index :: "memory_type \<Rightarrow> u64" where
  "attr_index Normal = MAIR_INDEX_NORMAL_WB_WA"
| "attr_index Device = MAIR_INDEX_DEVICE_NGNRE"

record mapping =
  map_va :: u64
  map_pa :: u64
  map_size :: u64
  map_memory_type :: memory_type
  map_writable :: bool
  map_executable :: bool

record trans =
  tr_pa :: u64
  tr_memory_type :: memory_type
  tr_writable :: bool
  tr_executable :: bool
  tr_level :: nat

type_synonym table_page = "u64 list"

record table_set =
  ts_pages :: "table_page list"
  ts_used :: nat
  ts_base_pa :: u64
  ts_pa_bits :: nat

definition pa_bits_from_pa_range :: "u8 \<Rightarrow> (nat, translation_error) outcome" where
  "pa_bits_from_pa_range pa_range =
     (if pa_range = 0 then Ok 32 else if pa_range = 1 then Ok 36 else if pa_range = 2 then Ok 40
      else if pa_range = 3 then Ok 42 else if pa_range = 4 then Ok 44 else if pa_range = 5 then Ok 48
      else Err InvalidPaBits)"

definition is_in_physical_address_range :: "u64 \<Rightarrow> u8 \<Rightarrow> (bool, translation_error) outcome" where
  "is_in_physical_address_range addr pa_range =
     and_then (pa_bits_from_pa_range pa_range) (\<lambda>pa_bits. Ok (addr < push_bit pa_bits 1))"

definition tp_zeroed :: table_page where
  "tp_zeroed = replicate ENTRIES_PER_TABLE 0"

definition storage_zeroed :: "nat \<Rightarrow> table_page list" where
  "storage_zeroed n = replicate n tp_zeroed"

section \<open>Descriptors\<close>

definition aligned_for :: "u64 \<Rightarrow> u64 \<Rightarrow> u64 \<Rightarrow> bool" where
  "aligned_for va pa sz \<longleftrightarrow> (va OR pa) AND (sz - 1) = 0"

text \<open>The \<open>unreachable!\<close> arms of the level tables are the last equations.\<close>

definition level_shift :: "nat \<Rightarrow> nat" where
  "level_shift level = (if level = 1 then L1_SHIFT else if level = 2 then L2_SHIFT else L3_SHIFT)"

definition index_for :: "nat \<Rightarrow> u64 \<Rightarrow> nat" where
  "index_for level va = unat (drop_bit (level_shift level) va AND 0x1ff)"

definition level_size :: "nat \<Rightarrow> u64" where
  "level_size level = (if level = 1 then L1_SIZE else if level = 2 then L2_SIZE else PAGE_SIZE)"

definition output_mask :: "nat \<Rightarrow> u64" where
  "output_mask level = ADDRESS_MASK AND NOT (level_size level - 1)"

definition leaf_descriptor :: "nat \<Rightarrow> u64 \<Rightarrow> mapping \<Rightarrow> u64" where
  "leaf_descriptor level pa m =
     (let d = (pa AND output_mask level) OR VALID OR ACCESS_FLAG OR
              push_bit ATTR_INDEX_SHIFT (attr_index (map_memory_type m));
          d = (if level = 3 then d OR TABLE_OR_PAGE else d);
          d = (if map_memory_type m = Normal then d OR SH_INNER else d);
          d = (if \<not> map_writable m then d OR AP_READ_ONLY else d)
      in if \<not> map_executable m then d OR XN else d)"

section \<open>Table set\<close>

definition ts_entry :: "table_set \<Rightarrow> nat \<Rightarrow> nat \<Rightarrow> (u64, translation_error) outcome" where
  "ts_entry ts table index =
     (case array_get (ts_pages ts) table of
        None \<Rightarrow> Panic
      | Some page \<Rightarrow> (case array_get page index of None \<Rightarrow> Panic | Some d \<Rightarrow> Ok d))"

definition ts_write ::
  "table_set \<Rightarrow> nat \<Rightarrow> nat \<Rightarrow> u64 \<Rightarrow> (unit, translation_error) outcome \<times> table_set" where
  "ts_write ts table index d =
     (case array_get (ts_pages ts) table of
        None \<Rightarrow> (Panic, ts)
      | Some page \<Rightarrow>
          if index < length page
          then (Ok (), ts\<lparr>ts_pages := (ts_pages ts)[table := page[index := d]]\<rparr>)
          else (Panic, ts))"

definition allocate_page :: "table_set \<Rightarrow> (nat, translation_error) outcome \<times> table_set" where
  "allocate_page ts =
     (if ts_used ts = length (ts_pages ts) then (Err TableExhausted, ts)
      else case array_get (ts_pages ts) (ts_used ts) of
             None \<Rightarrow> (Panic, ts)
           | Some page \<Rightarrow>
               (Ok (ts_used ts),
                ts\<lparr>ts_pages := (ts_pages ts)[ts_used ts := map (\<lambda>_. 0) page],
                   ts_used := ts_used ts + 1\<rparr>))"

definition table_pa :: "table_set \<Rightarrow> nat \<Rightarrow> u64" where
  "table_pa ts index = ts_base_pa ts + word_of_nat (index * unat PAGE_SIZE)"

definition table_index :: "table_set \<Rightarrow> u64 \<Rightarrow> (nat, translation_error) outcome" where
  "table_index ts pa =
     and_then (ok_or CorruptTable (checked_sub pa (ts_base_pa ts))) (\<lambda>offset.
       if \<not> is_page_aligned offset then Err CorruptTable
       else let index = unat (offset div PAGE_SIZE)
            in if ts_used ts \<le> index then Err CorruptTable else Ok index)"

definition ts_new :: "table_page list \<Rightarrow> u64 \<Rightarrow> nat \<Rightarrow> (table_set, translation_error) outcome" where
  "ts_new storage base_pa pa_bits =
     (let n = length storage in
      if \<not> (32 \<le> pa_bits \<and> pa_bits \<le> 48) then Err InvalidPaBits
      else if \<not> is_page_aligned base_pa then Err InvalidTableBase
      else if push_bit pa_bits 1 \<le> base_pa then Err InvalidTableBase
      else if n = 0 then Err TableExhausted
      else and_then (ok_or TrAddressOverflow (checked_mul (word_of_nat n) PAGE_SIZE)) (\<lambda>byte_len.
           and_then (ok_or TrAddressOverflow (checked_add base_pa byte_len)) (\<lambda>end'.
             if push_bit pa_bits 1 < end' then Err TrPhysicalAddressOutOfRange
             else let (r, ts) = allocate_page \<lparr>ts_pages = storage, ts_used = 0,
                                               ts_base_pa = base_pa, ts_pa_bits = pa_bits\<rparr>
                  in and_then r (\<lambda>_. Ok ts))))"

definition root_pa :: "table_set \<Rightarrow> u64" where "root_pa ts = ts_base_pa ts"

definition ts_page :: "table_set \<Rightarrow> nat \<Rightarrow> table_page option" where
  "ts_page ts index = (if index < ts_used ts then array_get (ts_pages ts) index else None)"

definition validate_mapping :: "table_set \<Rightarrow> mapping \<Rightarrow> (unit, translation_error) outcome" where
  "validate_mapping ts m =
     (if map_size m = 0 then Err EmptyMapping
      else if \<not> is_page_aligned (map_va m OR map_pa m OR map_size m) then Err UnalignedMapping
      else and_then (ok_or TrAddressOverflow (checked_add (map_va m) (map_size m))) (\<lambda>va_end.
           and_then (ok_or TrAddressOverflow (checked_add (map_pa m) (map_size m))) (\<lambda>pa_end.
             if push_bit VA_BITS 1 < va_end then Err VirtualAddressOutOfRange
             else if push_bit (ts_pa_bits ts) 1 < pa_end then Err TrPhysicalAddressOutOfRange
             else Ok ())))"

text \<open>The intermediate levels of \<open>map_leaf\<close>: the levels still to descend are the list.\<close>

fun descend ::
  "table_set \<Rightarrow> u64 \<Rightarrow> nat \<Rightarrow> nat list \<Rightarrow> (nat, translation_error) outcome \<times> table_set" where
  "descend ts va table [] = (Ok table, ts)"
| "descend ts va table (current_level # levels) =
     (let index = index_for current_level va in
      st_then (st_lift (ts_entry ts table index) ts) (\<lambda>descriptor _.
      st_then (if descriptor = 0
               then st_then (allocate_page ts) (\<lambda>child ts1.
                    st_then (ts_write ts1 table index (table_pa ts1 child OR VALID OR TABLE_OR_PAGE))
                      (\<lambda>_ ts2. (Ok child, ts2)))
               else if descriptor AND (VALID OR TABLE_OR_PAGE) = VALID OR TABLE_OR_PAGE
               then st_lift (table_index ts (descriptor AND ADDRESS_MASK)) ts
               else (Err ConflictingEntry, ts))
        (\<lambda>table' ts'. descend ts' va table' levels)))"

definition map_leaf ::
  "table_set \<Rightarrow> nat \<Rightarrow> u64 \<Rightarrow> u64 \<Rightarrow> mapping \<Rightarrow> (unit, translation_error) outcome \<times> table_set" where
  "map_leaf ts level va pa m =
     st_then (descend ts va 0 [1..<level]) (\<lambda>table ts1.
       let index = index_for level va; descriptor = leaf_descriptor level pa m in
       st_then (st_lift (ts_entry ts1 table index) ts1) (\<lambda>entry _.
         if entry \<noteq> 0 \<and> entry \<noteq> descriptor then (Err ConflictingEntry, ts1)
         else ts_write ts1 table index descriptor))"

definition leaf_choice :: "u64 \<Rightarrow> u64 \<Rightarrow> u64 \<Rightarrow> nat \<times> u64" where
  "leaf_choice va pa remaining =
     (if aligned_for va pa L1_SIZE \<and> L1_SIZE \<le> remaining then (1, L1_SIZE)
      else if aligned_for va pa L2_SIZE \<and> L2_SIZE \<le> remaining then (2, L2_SIZE)
      else (3, PAGE_SIZE))"

text \<open>The arithmetic of the loop is checked: an overflow would be a panic.\<close>

lemma leaf_choice_pos: "leaf_choice va pa remaining = (level, chunk) \<Longrightarrow> 0 < unat chunk"
  by (auto simp: leaf_choice_def s1_consts PAGE_SIZE_def split: if_splits)

function map_loop ::
  "table_set \<Rightarrow> u64 \<Rightarrow> u64 \<Rightarrow> u64 \<Rightarrow> mapping \<Rightarrow> (unit, translation_error) outcome \<times> table_set" where
  "map_loop ts va pa remaining m =
     (if remaining \<noteq> 0
      then (case leaf_choice va pa remaining of (level, chunk) \<Rightarrow>
              st_then (map_leaf ts level va pa m) (\<lambda>_ ts1.
              st_then (st_lift (or_panic (checked_add va chunk)) ts1) (\<lambda>va' _.
              st_then (st_lift (or_panic (checked_add pa chunk)) ts1) (\<lambda>pa' _.
              st_then (st_lift (or_panic (checked_sub remaining chunk)) ts1) (\<lambda>remaining' _.
                map_loop ts1 va' pa' remaining' m)))))
      else (Ok (), ts))"
  by pat_completeness auto
termination
proof (relation "measure (\<lambda>(ts, va, pa, remaining, m). unat remaining)")
qed (auto simp: st_lift_def outcome_simps checked_sub_def word_le_nat_alt unat_sub
      split: if_splits dest!: leaf_choice_pos [OF sym])

declare map_loop.simps [simp del]

definition ts_map :: "table_set \<Rightarrow> mapping \<Rightarrow> (unit, translation_error) outcome \<times> table_set" where
  "ts_map ts m =
     st_then (st_lift (validate_mapping ts m) ts) (\<lambda>_ _.
       map_loop ts (map_va m) (map_pa m) (map_size m) m)"

fun walk_loop ::
  "table_set \<Rightarrow> u64 \<Rightarrow> nat \<Rightarrow> nat list \<Rightarrow> (trans option, translation_error) outcome" where
  "walk_loop ts va table [] = Err CorruptTable"
| "walk_loop ts va table (level # levels) =
     and_then (ts_entry ts table (index_for level va)) (\<lambda>descriptor.
       if descriptor AND VALID = 0 then Ok None
       else let is_table_or_page = descriptor AND TABLE_OR_PAGE \<noteq> 0 in
         if level < 3 \<and> is_table_or_page
         then and_then (table_index ts (descriptor AND ADDRESS_MASK)) (\<lambda>table'.
                walk_loop ts va table' levels)
         else if level = 3 \<and> \<not> is_table_or_page then Err CorruptTable
         else let base = descriptor AND output_mask level;
                  pa = base OR (va AND (level_size level - 1));
                  attr = drop_bit ATTR_INDEX_SHIFT descriptor AND 7
              in if attr \<noteq> 0 \<and> attr \<noteq> 1 then Err CorruptTable
                 else Ok (Some \<lparr>tr_pa = pa,
                                tr_memory_type = (if attr = 0 then Normal else Device),
                                tr_writable = (descriptor AND AP_READ_ONLY = 0),
                                tr_executable = (descriptor AND XN = 0), tr_level = level\<rparr>))"

definition walk :: "table_set \<Rightarrow> u64 \<Rightarrow> (trans option, translation_error) outcome" where
  "walk ts va =
     (if push_bit VA_BITS 1 \<le> va then Err VirtualAddressOutOfRange
      else walk_loop ts va 0 [1, 2, 3])"


text \<open>
  \<open>replace_data_page\<close>: the callback \<open>synchronize\<close> sees the entry just stored and
  threads a state of its own.
\<close>

fun find_leaf_table ::
  "table_set \<Rightarrow> u64 \<Rightarrow> nat \<Rightarrow> nat list \<Rightarrow> (nat, translation_error) outcome" where
  "find_leaf_table ts va table [] = Ok table"
| "find_leaf_table ts va table (level # levels) =
     and_then (ts_entry ts table (index_for level va)) (\<lambda>d.
       if d AND (VALID OR TABLE_OR_PAGE) \<noteq> VALID OR TABLE_OR_PAGE then Err ConflictingEntry
       else and_then (table_index ts (d AND ADDRESS_MASK)) (\<lambda>table'.
              find_leaf_table ts va table' levels))"

text \<open>All checks of \<open>replace_data_page\<close>, up to the comparison with the expected old entry.\<close>

definition replace_locate :: "table_set \<Rightarrow> mapping \<Rightarrow> u64 \<Rightarrow> (nat, translation_error) outcome" where
  "replace_locate ts m old_pa =
     and_then (validate_mapping ts m) (\<lambda>_.
     and_then (validate_mapping ts (m\<lparr>map_pa := old_pa\<rparr>)) (\<lambda>_.
       if \<not> is_page_aligned old_pa \<or> old_pa = map_pa m then Err TrInvalidateParameter
       else and_then (find_leaf_table ts (map_va m) 0 [1..<3]) (\<lambda>table.
            and_then (ts_entry ts table (index_for 3 (map_va m))) (\<lambda>entry.
              if entry \<noteq> leaf_descriptor 3 old_pa (m\<lparr>map_pa := old_pa\<rparr>)
              then Err ConflictingEntry else Ok table))))"

definition replace_data_page ::
  "table_set \<Rightarrow> u64 \<Rightarrow> u64 \<Rightarrow> u64 \<Rightarrow>
   (u64 \<Rightarrow> 's \<Rightarrow> (unit, translation_error) outcome \<times> 's) \<Rightarrow> 's \<Rightarrow>
   (unit, translation_error) outcome \<times> table_set \<times> 's" where
  "replace_data_page ts va old_pa new_pa synchronize s =
     (let m = \<lparr>map_va = va, map_pa = new_pa, map_size = PAGE_SIZE, map_memory_type = Normal,
               map_writable = True, map_executable = False\<rparr>
      in st_then (st_lift (replace_locate ts m old_pa) (ts, s)) (\<lambda>table _.
         let index = index_for 3 va; (r0, ts0) = ts_write ts table index 0 in
         st_then (r0, (ts0, s)) (\<lambda>_ _.
         let (r1, s1) = synchronize 0 s in
         st_then (r1, (ts0, s1)) (\<lambda>_ _.
         let d = leaf_descriptor 3 new_pa m; (r2, ts2) = ts_write ts0 table index d in
         st_then (r2, (ts2, s1)) (\<lambda>_ _.
         let (r3, s3) = synchronize d s1 in (r3, (ts2, s3)))))))"

section \<open>Reading descriptors back\<close>

lemma levelE: "1 \<le> l \<Longrightarrow> l \<le> 3 \<Longrightarrow> (l = 1 \<Longrightarrow> P) \<Longrightarrow> (l = 2 \<Longrightarrow> P) \<Longrightarrow> (l = 3 \<Longrightarrow> P) \<Longrightarrow> P" for l :: nat
  by linarith

lemma output_mask_simps:
  "output_mask (Suc 0) = 0x0000ffffc0000000" "output_mask 1 = 0x0000ffffc0000000"
  "output_mask 2 = 0x0000ffffffe00000" "output_mask 3 = 0x0000fffffffff000"
  by (simp_all add: output_mask_def level_size_def s1_consts PAGE_SIZE_def)

lemma push_bit_attr_index:
  "push_bit 2 (attr_index t) = (if t = Normal then 0 else 4)"
  by (cases t) (simp_all add: s1_consts)

lemma leaf_fields:
  assumes "1 \<le> level" and "level \<le> 3"
  shows "leaf_descriptor level pa m AND 1 = 1"
    and "leaf_descriptor level pa m AND 2 = (if level = 3 then 2 else 0)"
    and "leaf_descriptor level pa m AND 28 = (if map_memory_type m = Normal then 0 else 4)"
    and "leaf_descriptor level pa m AND 128 = (if map_writable m then 0 else 128)"
    and "leaf_descriptor level pa m AND 0x40000000000000 = (if map_executable m then 0 else 0x40000000000000)"
    and "leaf_descriptor level pa m AND output_mask level = pa AND output_mask level"
proof -
  have l: "level = 1 \<or> level = 2 \<or> level = 3" using assms by linarith
  note simps = leaf_descriptor_def Let_def output_mask_simps push_bit_attr_index s1_consts
    bit.conj_disj_distrib2 and.assoc
  show "leaf_descriptor level pa m AND 1 = 1"
    and "leaf_descriptor level pa m AND 2 = (if level = 3 then 2 else 0)"
    and "leaf_descriptor level pa m AND 28 = (if map_memory_type m = Normal then 0 else 4)"
    and "leaf_descriptor level pa m AND 128 = (if map_writable m then 0 else 128)"
    and "leaf_descriptor level pa m AND 0x40000000000000 = (if map_executable m then 0 else 0x40000000000000)"
    and "leaf_descriptor level pa m AND output_mask level = pa AND output_mask level"
    using l by (elim disjE; simp add: simps)+
qed


text \<open>The entry number of an address at a level; its quotient by 512 names the table page.\<close>

definition vpn :: "nat \<Rightarrow> u64 \<Rightarrow> nat" where
  "vpn level va = unat va div 2 ^ level_shift level"

lemma level_shift_simps [simp]:
  "level_shift (Suc 0) = 30" "level_shift 1 = 30" "level_shift 2 = 21" "level_shift 3 = 12"
  "level_shift (Suc (Suc 0)) = 21"
  by (simp_all add: level_shift_def s1_consts)

lemma index_for_eq: "index_for level va = vpn level va mod 512"
proof -
  have m: "(0x1ff :: u64) = mask 9" by (simp add: mask_eq_exp_minus_1)
  show ?thesis
    unfolding index_for_def vpn_def m unat_and_mask_eq unat_drop_bit_eq by (simp add: drop_bit_eq_div)
qed

lemma index_for_less [simp]: "index_for level va < 512"
  by (simp add: index_for_eq)

lemma vpn_split: "vpn level va = vpn level va div 512 * 512 + index_for level va"
  by (simp add: index_for_eq)

lemma vpn_Suc: "1 \<le> level \<Longrightarrow> level < 3 \<Longrightarrow> vpn (Suc level) va div 512 = vpn level va"
proof -
  assume "1 \<le> level" "level < 3"
  then have "level = 1 \<or> level = 2" by linarith
  then show ?thesis by (elim disjE) (simp_all add: vpn_def div_mult2_eq [symmetric] eval_nat_numeral(3) [symmetric])
qed

lemma vpn_root: "unat va < 2 ^ 39 \<Longrightarrow> vpn 1 va div 512 = 0"
  by (simp add: vpn_def div_mult2_eq [symmetric])

lemma level_size_eq: "1 \<le> level \<Longrightarrow> level \<le> 3 \<Longrightarrow> level_size level = 2 ^ level_shift level"
proof -
  assume "1 \<le> level" "level \<le> 3"
  then have "level = 1 \<or> level = 2 \<or> level = 3" by linarith
  then show ?thesis by (elim disjE) (simp_all add: level_size_def s1_consts PAGE_SIZE_def)
qed

lemma level_size_mask: "1 \<le> level \<Longrightarrow> level \<le> 3 \<Longrightarrow> level_size level - 1 = mask (level_shift level)"
  by (simp add: level_size_eq mask_eq_exp_minus_1)

lemma level_shift_bounds: "12 \<le> level_shift level" "level_shift level < 64"
  by (auto simp: level_shift_def s1_consts)

lemma unat_level_size: "1 \<le> level \<Longrightarrow> level \<le> 3 \<Longrightarrow> unat (level_size level) = 2 ^ level_shift level"
  using level_shift_bounds [of level] by (simp add: level_size_eq unat_pow2)

text \<open>What the walk reads from a leaf.\<close>

definition leaf_trans :: "nat \<Rightarrow> u64 \<Rightarrow> u64 \<Rightarrow> mapping \<Rightarrow> trans" where
  "leaf_trans level va pa m =
     \<lparr>tr_pa = (pa AND output_mask level) OR (va AND (level_size level - 1)),
      tr_memory_type = map_memory_type m, tr_writable = map_writable m,
      tr_executable = map_executable m, tr_level = level\<rparr>"

lemma leaf_attr:
  assumes "1 \<le> level" and "level \<le> 3"
  shows "drop_bit ATTR_INDEX_SHIFT (leaf_descriptor level pa m) AND 7 =
           (if map_memory_type m = Normal then 0 else 1)"
proof -
  have "drop_bit 2 d AND 7 = drop_bit 2 (d AND 28)" for d :: u64
    by (simp add: drop_bit_and)
  then show ?thesis
    unfolding ATTR_INDEX_SHIFT_def using leaf_fields(3) [OF assms, of pa m] by (simp only:) simp
qed

lemma leaf_nonzero: "1 \<le> level \<Longrightarrow> level \<le> 3 \<Longrightarrow> leaf_descriptor level pa m \<noteq> 0"
  using leaf_fields(1) [of level pa m] by auto

lemma walk_loop_leaf:
  assumes "1 \<le> level" and "level \<le> 3"
    and "ts_entry ts table (index_for level va) = Ok (leaf_descriptor level pa m)"
  shows "walk_loop ts va table (level # levels) = Ok (Some (leaf_trans level va pa m))"
  using assms leaf_fields [OF assms(1,2), of pa m] leaf_attr [OF assms(1,2), of pa m]
  by (cases "map_memory_type m")
    (auto simp: leaf_trans_def Let_def VALID_def TABLE_OR_PAGE_def AP_READ_ONLY_def XN_def)

lemma leaf_block_address:
  assumes l: "1 \<le> level" "level \<le> 3" and al: "2 ^ level_shift level dvd unat va" "2 ^ level_shift level dvd unat pa"
    and pa: "unat pa < 2 ^ 48" and v: "vpn level v = vpn level va"
  shows "tr_pa (leaf_trans level v pa m) = pa + (v - va)"
proof -
  let ?k = "level_shift level"
  have "pa AND ADDRESS_MASK = (pa AND mask 48) AND NOT (mask 12)"
    by (simp add: ADDRESS_MASK_def mask_eq_exp_minus_1 and.assoc)
  moreover have "pa AND mask 48 = pa" using pa by (simp add: word_unat_eq_iff)
  moreover have "(pa AND NOT (mask 12)) AND NOT (mask ?k) = pa"
  proof -
    have "pa AND mask ?k = 0" using al(2) by (simp add: and_mask_eq_0_iff)
    moreover have "2 ^ 12 dvd unat pa"
      using al(2) level_shift_bounds(1) [of level] by (meson dvd_trans le_imp_power_dvd)
    then have "pa AND mask 12 = 0" by (simp add: and_mask_eq_0_iff)
    ultimately have "pa AND NOT (mask 12) = pa" "pa AND NOT (mask ?k) = pa"
      by (simp_all add: and_not_mask_eq)
    then show ?thesis by (simp only:)
  qed
  ultimately have base: "pa AND output_mask level = pa"
    unfolding output_mask_def level_size_mask [OF l] and.assoc [symmetric] by simp
  have "unat v = unat va + unat v mod 2 ^ ?k"
  proof -
    have "unat v = vpn level va * 2 ^ ?k + unat v mod 2 ^ ?k"
      using v div_mult_mod_eq [of "unat v" "2 ^ ?k"] by (simp add: vpn_def)
    then show ?thesis using al(1) by (simp add: vpn_def)
  qed
  then have "unat (v AND mask ?k) = unat v - unat va" "va \<le> v"
    by (simp_all add: word_le_nat_alt)
  then have off: "v AND mask ?k = v - va" by (simp add: word_unat_eq_iff unat_sub)
  have "pa AND mask ?k = 0" using al(2) by (simp add: and_mask_eq_0_iff)
  then have "pa AND (v AND mask ?k) = 0" using and.left_commute [of pa v "mask ?k"] by simp
  then have "pa + (v AND mask ?k) = pa OR (v AND mask ?k)" by (rule disjunctive_add_eq_or)
  then show ?thesis by (simp add: leaf_trans_def base level_size_mask [OF l] off)
qed


section \<open>The tables form a tree\<close>

definition tdesc :: "table_set \<Rightarrow> nat \<Rightarrow> u64" where
  "tdesc ts c = table_pa ts c OR VALID OR TABLE_OR_PAGE"

definition ts_frame :: "table_set \<Rightarrow> bool" where
  "ts_frame ts \<longleftrightarrow>
     (\<forall>page \<in> set (ts_pages ts). length page = 512) \<and> 0 < ts_used ts \<and>
     ts_used ts \<le> length (ts_pages ts) \<and> 4096 dvd unat (ts_base_pa ts) \<and>
     unat (ts_base_pa ts) + 4096 * length (ts_pages ts) \<le> 2 ^ ts_pa_bits ts \<and> ts_pa_bits ts \<le> 48"

definition entry_of :: "table_set \<Rightarrow> nat \<Rightarrow> nat \<Rightarrow> u64" where
  "entry_of ts p i = ts_pages ts ! p ! i"

text \<open>
  \<open>pos\<close> gives the level of every page in use and the entry number of its parent
  entry: an entry is empty, or points to the page of its own position one level
  down, or is a leaf of its level.
\<close>

definition entry_ok :: "(nat \<Rightarrow> nat \<times> nat) \<Rightarrow> table_set \<Rightarrow> nat \<Rightarrow> nat \<Rightarrow> bool" where
  "entry_ok pos ts p i \<longleftrightarrow>
     (let d = entry_of ts p i; l = fst (pos p) in
      d = 0 \<or>
      (l < 3 \<and> (\<exists>c. 0 < c \<and> c < ts_used ts \<and> d = tdesc ts c \<and> pos c = (Suc l, snd (pos p) * 512 + i))) \<or>
      (\<exists>pa m. d = leaf_descriptor l pa m))"

lemma entry_okI:
  "entry_of ts p i = 0 \<Longrightarrow> entry_ok pos ts p i"
  "fst (pos p) < 3 \<Longrightarrow> 0 < c \<Longrightarrow> c < ts_used ts \<Longrightarrow> entry_of ts p i = tdesc ts c \<Longrightarrow>
     pos c = (Suc (fst (pos p)), snd (pos p) * 512 + i) \<Longrightarrow> entry_ok pos ts p i"
  "entry_of ts p i = leaf_descriptor (fst (pos p)) pa m \<Longrightarrow> entry_ok pos ts p i"
  unfolding entry_ok_def Let_def by blast+

definition ts_wf :: "(nat \<Rightarrow> nat \<times> nat) \<Rightarrow> table_set \<Rightarrow> bool" where
  "ts_wf pos ts \<longleftrightarrow>
     ts_frame ts \<and> pos 0 = (1, 0) \<and>
     (\<forall>p < ts_used ts. 1 \<le> fst (pos p) \<and> fst (pos p) \<le> 3 \<and> (\<forall>i < 512. entry_ok pos ts p i))"

lemma ts_wfD:
  assumes "ts_wf pos ts"
  shows "ts_frame ts" "pos 0 = (1, 0)" "0 < ts_used ts"
    "p < ts_used ts \<Longrightarrow> 1 \<le> fst (pos p)" "p < ts_used ts \<Longrightarrow> fst (pos p) \<le> 3"
    "p < ts_used ts \<Longrightarrow> i < 512 \<Longrightarrow> entry_ok pos ts p i"
  using assms by (auto simp: ts_wf_def ts_frame_def)

lemma ts_frame_page:
  assumes "ts_frame ts" and "p < ts_used ts"
  shows "p < length (ts_pages ts)" "length (ts_pages ts ! p) = 512"
  using assms by (auto simp: ts_frame_def)

lemma ts_entry_eq:
  "ts_frame ts \<Longrightarrow> p < ts_used ts \<Longrightarrow> i < 512 \<Longrightarrow> ts_entry ts p i = Ok (entry_of ts p i)"
  using ts_frame_page [of ts p] by (simp add: ts_entry_def array_get_def entry_of_def)

lemma unat_table_pa:
  assumes "ts_frame ts" and "c < ts_used ts"
  shows "unat (table_pa ts c) = unat (ts_base_pa ts) + 4096 * c" "unat (table_pa ts c) < 2 ^ 48"
proof -
  have "(2::nat) ^ ts_pa_bits ts \<le> 2 ^ 48"
    using assms(1) by (intro power_increasing) (auto simp: ts_frame_def)
  then have b: "unat (ts_base_pa ts) + 4096 * c < 2 ^ 48"
    using assms by (auto simp: ts_frame_def)
  have "unat (word_of_nat (c * unat PAGE_SIZE) :: u64) = 4096 * c"
    using b by (subst unat_word_of_nat_u64) auto
  then show "unat (table_pa ts c) = unat (ts_base_pa ts) + 4096 * c"
    unfolding table_pa_def using b by (subst unat_add_no_overflow) auto
  then show "unat (table_pa ts c) < 2 ^ 48" using b by simp
qed

lemma tdesc_fields:
  assumes "ts_frame ts" and "c < ts_used ts"
  shows "tdesc ts c AND 1 = 1" "tdesc ts c AND 2 = 2" "tdesc ts c AND 3 = 3"
    "tdesc ts c AND ADDRESS_MASK = table_pa ts c" "tdesc ts c \<noteq> 0"
proof -
  let ?t = "table_pa ts c"
  have "4096 dvd unat ?t"
    using assms unat_table_pa(1) [OF assms] by (simp add: ts_frame_def)
  then have "?t AND mask 12 = 0" by (simp add: and_mask_eq_0_iff)
  then have low: "?t AND 0xfff = 0" by (simp add: mask_12_u64)
  have t: "?t AND 1 = 0" "?t AND 2 = 0" "?t AND 3 = 0"
    using arg_cong [OF low, of "\<lambda>w. w AND 1"] arg_cong [OF low, of "\<lambda>w. w AND 2"]
      arg_cong [OF low, of "\<lambda>w. w AND 3"] by (simp_all add: and.assoc)
  show "tdesc ts c AND 1 = 1" and two: "tdesc ts c AND 2 = 2" and "tdesc ts c AND 3 = 3"
    using t by (simp_all add: tdesc_def VALID_def TABLE_OR_PAGE_def bit.conj_disj_distrib2)
  have "?t AND ADDRESS_MASK = (?t AND mask 48) AND NOT (mask 12)"
    by (simp add: ADDRESS_MASK_def mask_eq_exp_minus_1 and.assoc)
  also have "?t AND mask 48 = ?t" using unat_table_pa(2) [OF assms] by (simp add: word_unat_eq_iff)
  also have "?t AND NOT (mask 12) = ?t" using \<open>?t AND mask 12 = 0\<close> by (simp add: and_not_mask_eq)
  finally show "tdesc ts c AND ADDRESS_MASK = ?t"
    by (simp add: tdesc_def bit.conj_disj_distrib2 VALID_def TABLE_OR_PAGE_def ADDRESS_MASK_def)
  show "tdesc ts c \<noteq> 0" using two by auto
qed

lemma table_index_eq: "ts_frame ts \<Longrightarrow> c < ts_used ts \<Longrightarrow> table_index ts (table_pa ts c) = Ok c"
proof -
  assume a: "ts_frame ts" "c < ts_used ts"
  note u = unat_table_pa(1) [OF a]
  have le: "ts_base_pa ts \<le> table_pa ts c" using u by (simp add: word_le_nat_alt)
  then have "unat (table_pa ts c - ts_base_pa ts) = 4096 * c" using u by (simp add: unat_sub)
  then show ?thesis using a le by (simp add: table_index_def checked_sub_def unat_div_distrib Let_def)
qed

text \<open>Reading one entry of a well-formed table.\<close>

lemma walk_loop_zero:
  "ts_frame ts \<Longrightarrow> p < ts_used ts \<Longrightarrow> entry_of ts p (index_for l v) = 0 \<Longrightarrow>
   walk_loop ts v p (l # ls) = Ok None"
  by (simp add: ts_entry_eq)

lemma walk_loop_table:
  assumes "ts_frame ts" and "p < ts_used ts" and "c < ts_used ts" and "l < 3"
    and "entry_of ts p (index_for l v) = tdesc ts c"
  shows "walk_loop ts v p (l # ls) = walk_loop ts v c ls"
  using assms tdesc_fields [OF assms(1,3)] table_index_eq [OF assms(1,3)]
  by (simp add: ts_entry_eq VALID_def TABLE_OR_PAGE_def)

lemma entry_cases:
  assumes "ts_wf pos ts" and "p < ts_used ts" and "i < 512"
  obtains "entry_of ts p i = 0"
  | c where "fst (pos p) < 3" "0 < c" "c < ts_used ts" "entry_of ts p i = tdesc ts c"
      "pos c = (Suc (fst (pos p)), snd (pos p) * 512 + i)"
  | pa m where "entry_of ts p i = leaf_descriptor (fst (pos p)) pa m"
  using ts_wfD(6) [OF assms] unfolding entry_ok_def Let_def by blast


definition on_path :: "(nat \<Rightarrow> nat \<times> nat) \<Rightarrow> u64 \<Rightarrow> nat \<Rightarrow> nat \<Rightarrow> bool" where
  "on_path pos v l p \<longleftrightarrow> pos p = (l, vpn l v div 512)"

lemma on_path_child:
  assumes "on_path pos v l p" and "1 \<le> l" and "l < 3"
    and "pos c = (Suc (fst (pos p)), snd (pos p) * 512 + index_for l v)"
  shows "on_path pos v (Suc l) c"
  using assms vpn_Suc [OF assms(2,3), of v] vpn_split [of l v] by (simp add: on_path_def)

lemma on_path_root: "ts_wf pos ts \<Longrightarrow> unat v < 2 ^ 39 \<Longrightarrow> on_path pos v 1 0"
  using vpn_root [of v] ts_wfD(2) [of pos ts] by (simp add: on_path_def)

lemma levels_Cons: "l \<le> 3 \<Longrightarrow> [l..<4] = l # [Suc l..<4]"
  by (simp add: upt_rec)

lemma walk_eq: "unat v < 2 ^ 39 \<Longrightarrow> walk ts v = walk_loop ts v 0 [1..<4]"
proof -
  assume v: "unat v < 2 ^ 39"
  have "unat (push_bit VA_BITS (1::u64)) = 2 ^ 39" by (simp add: VA_BITS_def)
  then have "\<not> push_bit VA_BITS 1 \<le> v" using v by (simp add: word_le_nat_alt)
  moreover have "[1, 2, 3] = [1..<4::nat]" by (simp add: upt_rec)
  ultimately show ?thesis by (simp add: walk_def del: walk_loop.simps)
qed

text \<open>A walk through a well-formed tree never fails.\<close>

lemma walk_loop_total:
  assumes "ts_wf pos ts" and "p < ts_used ts" and "on_path pos v l p"
  shows "\<exists>t. walk_loop ts v p [l..<4] = Ok t"
  using assms(2,3)
proof (induction "3 - l" arbitrary: l p)
  case 0
  have l: "1 \<le> l" "l \<le> 3" "fst (pos p) = l"
    using ts_wfD(4,5) [OF assms(1) 0(2)] 0(3) by (auto simp: on_path_def)
  from entry_cases [OF assms(1) 0(2), of "index_for l v", simplified] show ?case
  proof cases
    case 1
    then show ?thesis
      using walk_loop_zero [OF ts_wfD(1) [OF assms(1)] 0(2)] by (simp add: levels_Cons [OF l(2)] del: walk_loop.simps)
  next
    case (3 pa m)
    then show ?thesis
      using walk_loop_leaf [OF l(1,2)] ts_entry_eq [OF ts_wfD(1) [OF assms(1)] 0(2)] l
      by (simp add: levels_Cons [OF l(2)] del: walk_loop.simps)
  qed (use 0(1) l in simp)
next
  case (Suc d)
  have l: "1 \<le> l" "l \<le> 3" "fst (pos p) = l" "l < 3"
    using ts_wfD(4,5) [OF assms(1) Suc.prems(1)] Suc.prems(2) Suc.hyps(2) by (auto simp: on_path_def)
  from entry_cases [OF assms(1) Suc.prems(1), of "index_for l v", simplified] show ?case
  proof cases
    case 1
    then show ?thesis
      using walk_loop_zero [OF ts_wfD(1) [OF assms(1)] Suc.prems(1)]
      by (simp add: levels_Cons [OF l(2)] del: walk_loop.simps)
  next
    case (2 c)
    have "on_path pos v (Suc l) c" using on_path_child [OF Suc.prems(2) l(1,4) 2(5)] .
    then show ?thesis
      using Suc.hyps(1) [of "Suc l" c] Suc.hyps(2) 2(3,4)
        walk_loop_table [OF ts_wfD(1) [OF assms(1)] Suc.prems(1) 2(3) l(4)]
      by (simp add: levels_Cons [OF l(2)] del: walk_loop.simps)
  next
    case (3 pa m)
    then show ?thesis
      using walk_loop_leaf [OF l(1,2)] ts_entry_eq [OF ts_wfD(1) [OF assms(1)] Suc.prems(1)] l
      by (simp add: levels_Cons [OF l(2)] del: walk_loop.simps)
  qed
qed

subsection \<open>Growing the tree\<close>

definition ts_ext :: "table_set \<Rightarrow> table_set \<Rightarrow> bool" where
  "ts_ext ts ts' \<longleftrightarrow>
     ts_base_pa ts' = ts_base_pa ts \<and> ts_pa_bits ts' = ts_pa_bits ts \<and>
     length (ts_pages ts') = length (ts_pages ts) \<and> ts_used ts \<le> ts_used ts' \<and>
     (\<forall>p < ts_used ts. \<forall>i < 512. entry_of ts p i \<noteq> 0 \<longrightarrow> entry_of ts' p i = entry_of ts p i)"

lemma ts_ext_refl [simp]: "ts_ext ts ts"
  by (simp add: ts_ext_def)

lemma ts_ext_trans: "ts_ext a b \<Longrightarrow> ts_ext b c \<Longrightarrow> ts_ext a c"
  unfolding ts_ext_def by (metis order.strict_trans2 order_trans)

lemma ts_ext_tdesc: "ts_ext ts ts' \<Longrightarrow> tdesc ts' c = tdesc ts c"
  by (simp add: tdesc_def table_pa_def ts_ext_def)

text \<open>The pages the walk of an address passes through.\<close>

inductive reach :: "table_set \<Rightarrow> u64 \<Rightarrow> nat \<Rightarrow> nat \<Rightarrow> bool" for ts v where
  reach_root: "reach ts v 1 0"
| reach_child: "reach ts v l p \<Longrightarrow> 1 \<le> l \<Longrightarrow> l < 3 \<Longrightarrow> p < ts_used ts \<Longrightarrow> c < ts_used ts \<Longrightarrow>
    entry_of ts p (index_for l v) = tdesc ts c \<Longrightarrow> reach ts v (Suc l) c"

lemma reach_ext:
  assumes "ts_frame ts" and "ts_ext ts ts'"
  shows "reach ts v l p \<Longrightarrow> reach ts' v l p"
proof (induction rule: reach.induct)
  case (reach_child l p c)
  have "entry_of ts' p (index_for l v) = tdesc ts' c"
    using reach_child assms(2) ts_ext_tdesc [OF assms(2)] tdesc_fields(5) [OF assms(1), of c]
    by (simp add: ts_ext_def)
  then show ?case
    using reach_child assms(2) by (intro reach.reach_child [of ts' v l p c]) (auto simp: ts_ext_def)
qed (rule reach_root)

lemma reach_cong:
  "reach ts v l p \<Longrightarrow> unat v < 2 ^ 39 \<Longrightarrow> vpn l w div 512 = vpn l v div 512 \<Longrightarrow> reach ts w l p"
proof (induction rule: reach.induct)
  case (reach_child l p c)
  have "vpn l w = vpn l v" using reach_child vpn_Suc [of l] by simp
  then show ?case
    using reach_child by (intro reach.reach_child [of ts w l p c]) (auto simp: index_for_eq)
qed (rule reach_root)

lemma reach_walk:
  "reach ts v l p \<Longrightarrow> ts_frame ts \<Longrightarrow> walk_loop ts v 0 [1..<4] = walk_loop ts v p [l..<4]"
proof (induction rule: reach.induct)
  case (reach_child l p c)
  then show ?case
    using walk_loop_table [of ts p c l v "[Suc l..<4]"] levels_Cons [of l] by simp
qed simp


text \<open>Writing an entry of a page in use.\<close>

definition put_entry :: "table_set \<Rightarrow> nat \<Rightarrow> nat \<Rightarrow> u64 \<Rightarrow> table_set" where
  "put_entry ts p i d = ts\<lparr>ts_pages := (ts_pages ts)[p := (ts_pages ts ! p)[i := d]]\<rparr>"

lemma ts_write_eq:
  "ts_frame ts \<Longrightarrow> p < ts_used ts \<Longrightarrow> i < 512 \<Longrightarrow> ts_write ts p i d = (Ok (), put_entry ts p i d)"
  using ts_frame_page [of ts p] by (simp add: ts_write_def array_get_def put_entry_def)

lemma put_entry_simps [simp]:
  "ts_used (put_entry ts p i d) = ts_used ts" "ts_base_pa (put_entry ts p i d) = ts_base_pa ts"
  "ts_pa_bits (put_entry ts p i d) = ts_pa_bits ts"
  "length (ts_pages (put_entry ts p i d)) = length (ts_pages ts)"
  "tdesc (put_entry ts p i d) c = tdesc ts c"
  by (simp_all add: put_entry_def tdesc_def table_pa_def)

lemma put_entry_frame: "ts_frame ts \<Longrightarrow> p < ts_used ts \<Longrightarrow> ts_frame (put_entry ts p i d)"
  using ts_frame_page [of ts p]
  by (auto simp: ts_frame_def put_entry_def dest!: set_update_subset_insert [THEN subsetD])

lemma entry_of_put:
  assumes "ts_frame ts" and "p < ts_used ts" and "i < 512" and "q < ts_used ts"
  shows "entry_of (put_entry ts p i d) q j = (if q = p \<and> j = i then d else entry_of ts q j)"
  using ts_frame_page [OF assms(1,2)] assms
  by (cases "q = p"; cases "j = i") (simp_all add: entry_of_def put_entry_def)

lemma put_entry_wf:
  assumes "ts_wf pos ts" and "p < ts_used ts" and "i < 512"
    and "d = 0 \<or> (\<exists>pa m. d = leaf_descriptor (fst (pos p)) pa m)"
  shows "ts_wf pos (put_entry ts p i d)"
proof -
  note fr = ts_wfD(1) [OF assms(1)]
  have "entry_ok pos (put_entry ts p i d) q j" if "q < ts_used ts" "j < 512" for q j
    using ts_wfD(6) [OF assms(1) that] assms(4) entry_of_put [OF fr assms(2,3) that(1), of d j]
    by (auto simp: entry_ok_def Let_def)
  then show ?thesis
    using assms(1) put_entry_frame [OF fr assms(2)] by (auto simp: ts_wf_def)
qed

text \<open>An update off the path of an address leaves its walk as it was.\<close>

lemma walk_loop_put_other:
  assumes wf: "ts_wf pos ts" and p: "p < ts_used ts" "i < 512" "on_path pos va l p"
    and other: "vpn l v \<noteq> vpn l va" "i = index_for l va"
    and q: "q < ts_used ts" "on_path pos v k q"
  shows "walk_loop (put_entry ts p i d) v q [k..<4] = walk_loop ts v q [k..<4]"
  using q
proof (induction "4 - k" arbitrary: k q)
  case 0
  then show ?case by simp
next
  case (Suc n)
  note fr = ts_wfD(1) [OF wf] and fr' = put_entry_frame [OF ts_wfD(1) [OF wf] p(1), of i d]
  let ?j = "index_for k v"
  have k: "1 \<le> k" "k \<le> 3" "fst (pos q) = k"
    using ts_wfD(4,5) [OF wf Suc.prems(1)] Suc.prems(2) by (auto simp: on_path_def)
  have "\<not> (q = p \<and> ?j = i)"
  proof
    assume "q = p \<and> ?j = i"
    then have "k = l" "vpn k v div 512 = vpn k va div 512" "index_for k v = index_for k va"
      using p(3) Suc.prems(2) other(2) by (auto simp: on_path_def)
    then show False using other(1) vpn_split [of k v] vpn_split [of k va] by simp
  qed
  then have same: "entry_of (put_entry ts p i d) q ?j = entry_of ts q ?j"
    using entry_of_put [OF fr p(1,2) Suc.prems(1)] by auto
  note e = ts_entry_eq [OF fr Suc.prems(1) index_for_less] ts_entry_eq [OF fr' _ index_for_less, of q, simplified, OF Suc.prems(1)]
  from entry_cases [OF wf Suc.prems(1), of ?j, simplified] show ?case
  proof cases
    case 1
    then show ?thesis
      using walk_loop_zero [OF fr Suc.prems(1)] walk_loop_zero [OF fr', of q k v] same Suc.prems(1)
      by (simp add: levels_Cons [OF k(2)] del: walk_loop.simps)
  next
    case (2 c)
    have "k < 3" using 2(1) k(3) by simp
    have "on_path pos v (Suc k) c" using on_path_child [OF Suc.prems(2) k(1) \<open>k < 3\<close> 2(5)] .
    then show ?thesis
      using Suc.hyps(1) [of "Suc k" c] Suc.hyps(2) 2(3,4) same Suc.prems(1)
        walk_loop_table [OF fr Suc.prems(1) 2(3) \<open>k < 3\<close>] walk_loop_table [OF fr', of q c k] \<open>k < 3\<close>
      by (simp add: levels_Cons [OF k(2)] del: walk_loop.simps)
  next
    case (3 pa m)
    then show ?thesis
      using walk_loop_leaf [OF k(1,2)] e same k by (simp add: levels_Cons [OF k(2)] del: walk_loop.simps)
  qed
qed


text \<open>Linking a fresh, empty table page into an empty entry.\<close>

definition grow :: "table_set \<Rightarrow> table_set" where
  "grow ts = ts\<lparr>ts_pages := (ts_pages ts)[ts_used ts := replicate 512 0], ts_used := ts_used ts + 1\<rparr>"

definition link :: "table_set \<Rightarrow> nat \<Rightarrow> nat \<Rightarrow> table_set" where
  "link ts p i = put_entry (grow ts) p i (tdesc ts (ts_used ts))"

lemma grow_simps [simp]:
  "ts_used (grow ts) = Suc (ts_used ts)" "ts_base_pa (grow ts) = ts_base_pa ts"
  "ts_pa_bits (grow ts) = ts_pa_bits ts" "length (ts_pages (grow ts)) = length (ts_pages ts)"
  "tdesc (grow ts) c = tdesc ts c"
  by (simp_all add: grow_def tdesc_def table_pa_def)

lemma allocate_page_eq:
  "ts_frame ts \<Longrightarrow> allocate_page ts =
     (if ts_used ts = length (ts_pages ts) then (Err TableExhausted, ts) else (Ok (ts_used ts), grow ts))"
  by (auto simp: allocate_page_def grow_def array_get_def ts_frame_def map_replicate_const)

lemma grow_frame: "ts_frame ts \<Longrightarrow> ts_used ts < length (ts_pages ts) \<Longrightarrow> ts_frame (grow ts)"
  by (auto simp: ts_frame_def grow_def dest!: set_update_subset_insert [THEN subsetD])

lemma entry_of_grow:
  "ts_used ts < length (ts_pages ts) \<Longrightarrow> j < 512 \<Longrightarrow>
   entry_of (grow ts) q j = (if q = ts_used ts then 0 else entry_of ts q j)"
  by (simp add: entry_of_def grow_def)

lemma link_facts:
  assumes "ts_frame ts" and "ts_used ts < length (ts_pages ts)" and "p < ts_used ts" and "i < 512"
  shows "ts_frame (link ts p i)" and "ts_used (link ts p i) = Suc (ts_used ts)"
    and "tdesc (link ts p i) c = tdesc ts c"
    and "q \<le> ts_used ts \<Longrightarrow> j < 512 \<Longrightarrow> entry_of (link ts p i) q j =
           (if q = p \<and> j = i then tdesc ts (ts_used ts) else if q = ts_used ts then 0 else entry_of ts q j)"
proof -
  note gf = grow_frame [OF assms(1,2)]
  show "ts_frame (link ts p i)" unfolding link_def using assms by (intro put_entry_frame [OF gf]) simp
  show "ts_used (link ts p i) = Suc (ts_used ts)" "tdesc (link ts p i) c = tdesc ts c"
    by (simp_all add: link_def)
  show "entry_of (link ts p i) q j =
      (if q = p \<and> j = i then tdesc ts (ts_used ts) else if q = ts_used ts then 0 else entry_of ts q j)"
    if "q \<le> ts_used ts" "j < 512"
    unfolding link_def
    using entry_of_put [OF gf, of p i q] assms that entry_of_grow [OF assms(2) that(2)] by simp
qed

lemma link_ext:
  assumes "ts_frame ts" and "ts_used ts < length (ts_pages ts)" and "p < ts_used ts" and "i < 512"
    and "entry_of ts p i = 0"
  shows "ts_ext ts (link ts p i)"
  using link_facts [OF assms(1-4)] assms by (auto simp: ts_ext_def link_def)

lemma link_wf:
  assumes wf: "ts_wf pos ts" and u: "ts_used ts < length (ts_pages ts)" and p: "p < ts_used ts" "i < 512"
    and l: "fst (pos p) < 3"
  shows "ts_wf (pos(ts_used ts := (Suc (fst (pos p)), snd (pos p) * 512 + i))) (link ts p i)"
proof -
  note fr = ts_wfD(1) [OF wf]
  note lf = link_facts [OF fr u p]
  let ?pos = "pos(ts_used ts := (Suc (fst (pos p)), snd (pos p) * 512 + i))"
  have "entry_ok ?pos (link ts p i) q j" if q: "q < Suc (ts_used ts)" "j < 512" for q j
  proof (cases "q = ts_used ts")
    case True
    then show ?thesis using lf(4) [of q j] q p by (simp add: entry_ok_def)
  next
    case False
    then have qu: "q < ts_used ts" using q by simp
    have e: "entry_of (link ts p i) q j = (if q = p \<and> j = i then tdesc ts (ts_used ts) else entry_of ts q j)"
      using lf(4) [of q j] qu q(2) by simp
    show ?thesis
    proof (cases "q = p \<and> j = i")
      case True
      then show ?thesis
        unfolding entry_ok_def Let_def e lf(2,3) using qu p l
        by (intro disjI2 disjI1 conjI exI [of _ "ts_used ts"]) auto
    next
      case False
      from entry_cases [OF wf qu q(2)] show ?thesis
      proof cases
        case (2 c)
        then show ?thesis
          unfolding entry_ok_def Let_def e lf(2,3) using qu False
          by (intro disjI2 disjI1 conjI exI [of _ c]) auto
      qed (use False qu e in \<open>auto simp: entry_ok_def Let_def\<close>)
    qed
  qed
  moreover have "1 \<le> fst (?pos q) \<and> fst (?pos q) \<le> 3" if "q < Suc (ts_used ts)" for q
    using ts_wfD(4,5) [OF wf] that l by (auto simp: less_Suc_eq)
  moreover have "?pos 0 = (1, 0)" using ts_wfD(2,3) [OF wf] by simp
  ultimately show ?thesis unfolding ts_wf_def lf(2) using lf(1) by blast
qed

lemma walk_loop_link:
  assumes wf: "ts_wf pos ts" and u: "ts_used ts < length (ts_pages ts)" and p: "p < ts_used ts" "i < 512"
    and l: "fst (pos p) < 3" and zero: "entry_of ts p i = 0"
    and q: "q < ts_used ts" "on_path pos v k q"
  shows "walk_loop (link ts p i) v q [k..<4] = walk_loop ts v q [k..<4]"
  using q
proof (induction "4 - k" arbitrary: k q)
  case 0
  then show ?case by simp
next
  case (Suc n)
  note fr = ts_wfD(1) [OF wf]
  note lf = link_facts [OF fr u p] and ts = link_facts(2,3) [OF fr u p]
  let ?j = "index_for k v"
  have k: "1 \<le> k" "k \<le> 3" "fst (pos q) = k"
    using ts_wfD(4,5) [OF wf Suc.prems(1)] Suc.prems(2) by (auto simp: on_path_def)
  note e = ts_entry_eq [OF fr Suc.prems(1) index_for_less]
  have e': "ts_entry (link ts p i) q ?j = Ok (entry_of (link ts p i) q ?j)"
    using ts_entry_eq [OF lf(1)] Suc.prems(1) lf(2) by simp
  show ?case
  proof (cases "q = p \<and> ?j = i")
    case True
    then have "k < 3" using k(3) l by simp
    then have k2: "Suc k \<le> 3" by simp
    have "entry_of (link ts p i) q ?j = tdesc ts (ts_used ts)"
      using lf(4) [of q ?j] True Suc.prems(1) p(2) by simp
    then have "walk_loop (link ts p i) v q [k..<4] = walk_loop (link ts p i) v (ts_used ts) [Suc k..<4]"
      using walk_loop_table [OF lf(1), of q "ts_used ts" k v] lf(2,3) Suc.prems(1) \<open>k < 3\<close>
      by (simp add: levels_Cons [OF k(2)] del: walk_loop.simps)
    also have "\<dots> = Ok None"
      using walk_loop_zero [OF lf(1), of "ts_used ts" "Suc k" v] lf(2,4) p
      by (simp add: levels_Cons [OF k2] del: walk_loop.simps)
    finally show ?thesis
      using walk_loop_zero [OF fr Suc.prems(1), of k v] zero True
      by (simp add: levels_Cons [OF k(2)] del: walk_loop.simps)
  next
    case False
    then have same: "entry_of (link ts p i) q ?j = entry_of ts q ?j"
      using lf(4) [of q ?j] Suc.prems(1) by auto
    from entry_cases [OF wf Suc.prems(1), of ?j, simplified] show ?thesis
    proof cases
      case 1
      then show ?thesis
        using e e' same by (simp add: levels_Cons [OF k(2)])
    next
      case (2 c)
      have "k < 3" using 2(1) k(3) by simp
      have "on_path pos v (Suc k) c" using on_path_child [OF Suc.prems(2) k(1) \<open>k < 3\<close> 2(5)] .
      then show ?thesis
        using Suc.hyps(1) [of "Suc k" c] Suc.hyps(2) 2(3,4) same Suc.prems(1) ts \<open>k < 3\<close>
          walk_loop_table [OF fr Suc.prems(1) 2(3) \<open>k < 3\<close>] walk_loop_table [OF lf(1), of q c k]
        by (simp add: levels_Cons [OF k(2)] del: walk_loop.simps)
    next
      case (3 pa m)
      then show ?thesis
        using walk_loop_leaf [OF k(1,2)] e e' same k by (simp add: levels_Cons [OF k(2)] del: walk_loop.simps)
    qed
  qed
qed


subsection \<open>Descending and mapping\<close>

definition grown :: "table_set \<Rightarrow> table_set \<Rightarrow> bool" where
  "grown ts ts' \<longleftrightarrow> ts_ext ts ts' \<and> (\<forall>v. unat v < 2 ^ 39 \<longrightarrow> walk ts' v = walk ts v)"

lemma grown_refl [simp]: "grown ts ts"
  by (simp add: grown_def)

lemma grown_trans: "grown a b \<Longrightarrow> grown b c \<Longrightarrow> grown a c"
  by (auto simp: grown_def intro: ts_ext_trans)

lemma link_grown:
  assumes wf: "ts_wf pos ts" and u: "ts_used ts < length (ts_pages ts)" and p: "p < ts_used ts" "i < 512"
    and l: "fst (pos p) < 3" and zero: "entry_of ts p i = 0"
  shows "grown ts (link ts p i)"
  using link_ext [OF ts_wfD(1) [OF wf] u p zero]
    walk_loop_link [OF wf u p l zero ts_wfD(3) [OF wf] on_path_root [OF wf]]
  by (auto simp: grown_def walk_eq)

definition descend_post ::
  "table_set \<Rightarrow> u64 \<Rightarrow> nat \<Rightarrow> (nat, translation_error) outcome \<times> table_set \<Rightarrow> bool" where
  "descend_post ts va level res \<longleftrightarrow>
     (\<exists>pos'. ts_wf pos' (snd res) \<and> grown ts (snd res) \<and>
        (case fst res of
           Ok q \<Rightarrow> q < ts_used (snd res) \<and> on_path pos' va level q \<and> reach (snd res) va level q
         | Err e \<Rightarrow> e = TableExhausted \<or> e = ConflictingEntry
         | Panic \<Rightarrow> False))"

lemma and_3_split: "d AND 3 = (d AND 1) OR (d AND 2)" for d :: u64
  by (simp add: bit.conj_disj_distrib [symmetric])

lemma descend_step:
  assumes wf: "ts_wf pos ts" and p: "p < ts_used ts" "on_path pos va l p" "reach ts va l p"
    and l: "1 \<le> l" "l < 3"
  shows "(\<exists>e. (e = TableExhausted \<or> e = ConflictingEntry) \<and>
            (\<forall>ls. descend ts va p (l # ls) = (Err e, ts))) \<or>
         (\<exists>pos' ts' c. (\<forall>ls. descend ts va p (l # ls) = descend ts' va c ls) \<and> ts_wf pos' ts' \<and>
            grown ts ts' \<and> c < ts_used ts' \<and> on_path pos' va (Suc l) c \<and> reach ts' va (Suc l) c)"
proof -
  let ?i = "index_for l va"
  note fr = ts_wfD(1) [OF wf]
  have lp: "fst (pos p) = l" using p(2) by (simp add: on_path_def)
  note e = ts_entry_eq [OF fr p(1) index_for_less [of l va]]
  have vt: "VALID OR TABLE_OR_PAGE = 3" by (simp add: VALID_def TABLE_OR_PAGE_def)
  from entry_cases [OF wf p(1) index_for_less [of l va]] show ?thesis
  proof cases
    case 1
    show ?thesis
    proof (cases "ts_used ts = length (ts_pages ts)")
      case True
      then show ?thesis using e 1 allocate_page_eq [OF fr] by simp
    next
      case False
      then have u: "ts_used ts < length (ts_pages ts)" using fr by (simp add: ts_frame_def)
      let ?c = "ts_used ts" and ?ts = "link ts p ?i"
      let ?pos = "pos(?c := (Suc (fst (pos p)), snd (pos p) * 512 + ?i))"
      note lf = link_facts [OF fr u p(1) index_for_less [of l va]]
      have "ts_write (grow ts) p ?i (table_pa (grow ts) ?c OR VALID OR TABLE_OR_PAGE) = (Ok (), ?ts)"
        using ts_write_eq [OF grow_frame [OF fr u], of p ?i] p(1)
        by (simp add: link_def tdesc_def table_pa_def)
      then have "\<forall>ls. descend ts va p (l # ls) = descend ?ts va ?c ls"
        using e 1 allocate_page_eq [OF fr] False by simp
      moreover have "on_path ?pos va (Suc l) ?c"
        using vpn_Suc [OF l, of va] vpn_split [of l va] p(2) by (simp add: on_path_def)
      moreover have "grown ts ?ts" using link_grown [OF wf u p(1) index_for_less _ 1] l lp by simp
      moreover have "ts_wf ?pos ?ts" using link_wf [OF wf u p(1) index_for_less, of l va] l lp by simp
      moreover have "reach ?ts va (Suc l) ?c"
      proof (rule reach_child [OF reach_ext [OF fr _ p(3)] l])
        show "ts_ext ts ?ts" using link_ext [OF fr u p(1) index_for_less 1] .
        show "entry_of ?ts p ?i = tdesc ?ts ?c" using lf(3) lf(4) [of p ?i] p(1) by simp
      qed (use lf(2) p(1) in simp_all)
      moreover have "?c < ts_used ?ts" using lf(2) by simp
      ultimately show ?thesis by blast
    qed
  next
    case (2 c)
    then have "\<forall>ls. descend ts va p (l # ls) = descend ts va c ls"
      using e tdesc_fields [OF fr 2(3)] table_index_eq [OF fr 2(3)] by (simp add: vt)
    moreover have "on_path pos va (Suc l) c" using on_path_child [OF p(2) l 2(5)] .
    moreover have "reach ts va (Suc l) c" using reach_child [OF p(3) l p(1) 2(3,4)] .
    ultimately show ?thesis using wf 2(3) grown_refl by blast
  next
    case (3 pa m)
    have "leaf_descriptor l pa m AND 3 = 1"
      using leaf_fields(1,2) [of l pa m] l and_3_split [of "leaf_descriptor l pa m"] by simp
    then have "\<forall>ls. descend ts va p (l # ls) = (Err ConflictingEntry, ts)"
      using e 3 lp leaf_nonzero [of l pa m] l by (simp add: vt)
    then show ?thesis by blast
  qed
qed

lemma descend_spec:
  assumes "ts_wf pos ts" and "p < ts_used ts" "on_path pos va l p" "reach ts va l p"
    and "1 \<le> l" "l \<le> level" "level \<le> 3"
  shows "descend_post ts va level (descend ts va p [l..<level])"
  using assms
proof (induction "level - l" arbitrary: l p ts pos)
  case 0
  then have "l = level" by simp
  then show ?case using 0 by (auto simp: descend_post_def)
next
  case (Suc n)
  then have ll: "l < level" "l < 3" by simp_all
  then have lv: "[l..<level] = l # [Suc l..<level]" by (simp add: upt_rec)
  from descend_step [OF Suc.prems(1-5) ll(2)] show ?case
  proof (elim disjE exE conjE)
    fix e assume "\<forall>ls. descend ts va p (l # ls) = (Err e, ts)" "e = TableExhausted"
    then show ?case using Suc.prems(1) by (auto simp: lv descend_post_def simp del: descend.simps)
  next
    fix e assume "\<forall>ls. descend ts va p (l # ls) = (Err e, ts)" "e = ConflictingEntry"
    then show ?case using Suc.prems(1) by (auto simp: lv descend_post_def simp del: descend.simps)
  next
    fix pos' ts' c
    assume d: "\<forall>ls. descend ts va p (l # ls) = descend ts' va c ls" and g: "grown ts ts'"
      and s: "ts_wf pos' ts'" "c < ts_used ts'" "on_path pos' va (Suc l) c" "reach ts' va (Suc l) c"
    let ?R = "descend ts' va c [Suc l..<level]"
    have "descend_post ts' va level ?R"
      using Suc.hyps(1) [OF _ s] Suc.hyps(2) ll Suc.prems(7) by simp
    then obtain P where "ts_wf P (snd ?R)" "grown ts (snd ?R)"
        "case fst ?R of Ok q \<Rightarrow> q < ts_used (snd ?R) \<and> on_path P va level q \<and> reach (snd ?R) va level q
         | Err e \<Rightarrow> e = TableExhausted \<or> e = ConflictingEntry | Panic \<Rightarrow> False"
      unfolding descend_post_def using grown_trans [OF g] by blast
    then show ?case unfolding lv d [rule_format] descend_post_def by blast
  qed
qed


definition same_frame :: "table_set \<Rightarrow> table_set \<Rightarrow> bool" where
  "same_frame ts ts' \<longleftrightarrow> ts_base_pa ts' = ts_base_pa ts \<and> ts_pa_bits ts' = ts_pa_bits ts \<and>
     length (ts_pages ts') = length (ts_pages ts)"

text \<open>Existing translations are kept as they are.\<close>

definition stable :: "table_set \<Rightarrow> table_set \<Rightarrow> bool" where
  "stable ts ts' \<longleftrightarrow>
     (\<forall>v t. unat v < 2 ^ 39 \<longrightarrow> walk ts v = Ok (Some t) \<longrightarrow> walk ts' v = Ok (Some t))"

lemma stable_trans: "stable a b \<Longrightarrow> stable b c \<Longrightarrow> stable a c"
  by (simp add: stable_def)

definition map_leaf_post ::
  "table_set \<Rightarrow> nat \<Rightarrow> u64 \<Rightarrow> u64 \<Rightarrow> mapping \<Rightarrow> (unit, translation_error) outcome \<times> table_set \<Rightarrow> bool" where
  "map_leaf_post ts level va pa m res \<longleftrightarrow>
     (\<exists>pos'. ts_wf pos' (snd res)) \<and> same_frame ts (snd res) \<and> stable ts (snd res) \<and>
     (case fst res of
        Ok _ \<Rightarrow> (\<forall>v. unat v < 2 ^ 39 \<longrightarrow> walk (snd res) v =
                   (if vpn level v = vpn level va then Ok (Some (leaf_trans level v pa m)) else walk ts v))
      | Err e \<Rightarrow> (e = TableExhausted \<or> e = ConflictingEntry) \<and>
                 (\<forall>v. unat v < 2 ^ 39 \<longrightarrow> walk (snd res) v = walk ts v)
      | Panic \<Rightarrow> False)"

lemma walk_put_leaf:
  assumes wf: "ts_wf pos ts" and p: "p < ts_used ts" "on_path pos va l p" "reach ts va l p"
    and l: "1 \<le> l" "l \<le> 3" and i: "i = index_for l va"
    and e: "entry_of ts p i = 0 \<or> entry_of ts p i = d" and d: "d = leaf_descriptor l pa m"
    and va: "unat va < 2 ^ 39" and v: "unat v < 2 ^ 39"
  shows "walk (put_entry ts p i d) v =
           (if vpn l v = vpn l va then Ok (Some (leaf_trans l v pa m)) else walk ts v)"
proof (cases "vpn l v = vpn l va")
  case True
  note fr = ts_wfD(1) [OF wf] and fr' = put_entry_frame [OF ts_wfD(1) [OF wf] p(1), of i d]
  have i5: "i < 512" using i by simp
  have ext: "ts_ext ts (put_entry ts p i d)"
    using entry_of_put [OF fr p(1) i5] e by (auto simp: ts_ext_def)
  have "reach (put_entry ts p i d) v l p"
    using reach_cong [OF reach_ext [OF fr ext p(3)] va] True by simp
  then have "walk (put_entry ts p i d) v = walk_loop (put_entry ts p i d) v p [l..<4]"
    using reach_walk fr' walk_eq [OF v] by simp
  moreover have "ts_entry (put_entry ts p i d) p (index_for l v) = Ok (leaf_descriptor l pa m)"
    using ts_entry_eq [OF fr', of p i] entry_of_put [OF fr p(1) i5 p(1), of d i] p(1) i5 True i d
    by (simp add: index_for_eq)
  ultimately show ?thesis
    using True walk_loop_leaf [OF l] by (simp add: levels_Cons [OF l(2)] del: walk_loop.simps)
next
  case False
  then show ?thesis
    using walk_loop_put_other [OF wf p(1) _ p(2) False i ts_wfD(3) [OF wf] on_path_root [OF wf v]] i
    by (simp add: walk_eq [OF v])
qed

lemma put_leaf_stable:
  assumes wf: "ts_wf pos ts" and p: "p < ts_used ts" "on_path pos va l p" "reach ts va l p"
    and l: "1 \<le> l" "l \<le> 3" and i: "i = index_for l va"
    and e: "entry_of ts p i = 0 \<or> entry_of ts p i = d" and d: "d = leaf_descriptor l pa m"
    and va: "unat va < 2 ^ 39"
  shows "stable ts (put_entry ts p i d)"
  unfolding stable_def
proof (intro allI impI)
  fix v t assume v: "unat v < 2 ^ 39" and t: "walk ts v = Ok (Some t)"
  note put = walk_put_leaf [OF wf p l i e d va v]
  show "walk (put_entry ts p i d) v = Ok (Some t)"
  proof (cases "vpn l v = vpn l va")
    case True
    have "reach ts v l p" using reach_cong [OF p(3) va] True by simp
    then have w: "walk ts v = walk_loop ts v p [l..<4]"
      using reach_walk ts_wfD(1) [OF wf] walk_eq [OF v] by simp
    have i': "index_for l v = i" using True i by (simp add: index_for_eq)
    have "entry_of ts p i \<noteq> 0"
    proof
      assume "entry_of ts p i = 0"
      then have "walk ts v = Ok None"
        using w walk_loop_zero [OF ts_wfD(1) [OF wf] p(1)] i' by (simp add: levels_Cons [OF l(2)] del: walk_loop.simps)
      then show False using t by simp
    qed
    then have "ts_entry ts p (index_for l v) = Ok (leaf_descriptor l pa m)"
      using e d i' ts_entry_eq [OF ts_wfD(1) [OF wf] p(1) index_for_less [of l v]] by auto
    then have "walk ts v = Ok (Some (leaf_trans l v pa m))"
      using w walk_loop_leaf [OF l] by (simp add: levels_Cons [OF l(2)] del: walk_loop.simps)
    then show ?thesis using put True t by simp
  qed (use put t in simp)
qed

lemma map_leaf_spec:
  assumes wf: "ts_wf pos ts" and va: "unat va < 2 ^ 39" and l: "1 \<le> level" "level \<le> 3"
  shows "map_leaf_post ts level va pa m (map_leaf ts level va pa m)"
proof -
  obtain r ts1 where R: "descend ts va 0 [1..<level] = (r, ts1)" by fastforce
  have "descend_post ts va level (descend ts va 0 [1..<level])"
    using descend_spec [OF wf ts_wfD(3) [OF wf] on_path_root [OF wf va] reach_root order_refl l] .
  then obtain pos1 where wf1: "ts_wf pos1 ts1" and g: "grown ts ts1"
    and r: "case r of Ok q \<Rightarrow> q < ts_used ts1 \<and> on_path pos1 va level q \<and> reach ts1 va level q
      | Err e \<Rightarrow> e = TableExhausted \<or> e = ConflictingEntry | Panic \<Rightarrow> False"
    unfolding descend_post_def R fst_conv snd_conv by blast
  have sf: "same_frame ts ts1" using g by (auto simp: grown_def ts_ext_def same_frame_def)
  have sb: "stable ts ts1" using g by (simp add: grown_def stable_def)
  have w: "unat v < 2 ^ 39 \<Longrightarrow> walk ts1 v = walk ts v" for v using g by (simp add: grown_def)
  show ?thesis
  proof (cases r)
    case (Ok q)
    then have q: "q < ts_used ts1" "on_path pos1 va level q" "reach ts1 va level q" using r by auto
    let ?i = "index_for level va" and ?d = "leaf_descriptor level pa m"
    note fr1 = ts_wfD(1) [OF wf1]
    have e: "ts_entry ts1 q ?i = Ok (entry_of ts1 q ?i)" using ts_entry_eq [OF fr1 q(1)] by simp
    show ?thesis
    proof (cases "entry_of ts1 q ?i = 0 \<or> entry_of ts1 q ?i = ?d")
      case True
      then have "map_leaf ts level va pa m = (Ok (), put_entry ts1 q ?i ?d)"
        using R Ok e ts_write_eq [OF fr1 q(1)] by (auto simp: map_leaf_def Let_def)
      moreover have "ts_wf pos1 (put_entry ts1 q ?i ?d)"
        using put_entry_wf [OF wf1 q(1), of ?i ?d] q(2) by (auto simp: on_path_def)
      moreover have "same_frame ts (put_entry ts1 q ?i ?d)" using sf by (simp add: same_frame_def)
      moreover have "stable ts (put_entry ts1 q ?i ?d)"
        using stable_trans [OF sb put_leaf_stable [OF wf1 q l refl True refl va]] .
      ultimately show ?thesis
        using walk_put_leaf [OF wf1 q l refl True refl va] w unfolding map_leaf_post_def by auto
    next
      case False
      then have "map_leaf ts level va pa m = (Err ConflictingEntry, ts1)"
        using R Ok e by (simp add: map_leaf_def Let_def)
      then show ?thesis using wf1 sf sb w by (auto simp: map_leaf_post_def)
    qed
  qed (use R r wf1 sf sb w in \<open>auto simp: map_leaf_def map_leaf_post_def\<close>)
qed


subsection \<open>Mapping a range\<close>

lemma aligned_for_iff:
  "n < 64 \<Longrightarrow> aligned_for va pa (2 ^ n) \<longleftrightarrow> 2 ^ n dvd unat va \<and> 2 ^ n dvd unat pa"
  by (simp add: aligned_for_def pow2_minus_1_mask bit.conj_disj_distrib2 or_eq_0_iff and_mask_eq_0_iff)

lemma leaf_choice_spec:
  assumes "leaf_choice va pa remaining = (level, chunk)" and "remaining \<noteq> 0"
    and "4096 dvd unat va" and "4096 dvd unat pa" and "4096 dvd unat remaining"
  shows "1 \<le> level" "level \<le> 3" "chunk = level_size level"
    "2 ^ level_shift level dvd unat va" "2 ^ level_shift level dvd unat pa"
    "unat chunk \<le> unat remaining" "4096 dvd unat chunk"
proof -
  have "L1_SIZE = 2 ^ 30" "L2_SIZE = 2 ^ 21" by (simp_all add: s1_consts)
  then have al: "aligned_for va pa L1_SIZE \<longleftrightarrow> 2 ^ 30 dvd unat va \<and> 2 ^ 30 dvd unat pa"
      "aligned_for va pa L2_SIZE \<longleftrightarrow> 2 ^ 21 dvd unat va \<and> 2 ^ 21 dvd unat pa"
    using aligned_for_iff [of 30 va pa] aligned_for_iff [of 21 va pa] by simp_all
  have "4096 \<le> unat remaining" using assms(2,5) by (simp add: dvd_imp_le unat_gt_0)
  moreover have "(4096::nat) dvd 2 ^ 30" "(4096::nat) dvd 2 ^ 21" by simp_all
  ultimately have "(level = 1 \<and> chunk = L1_SIZE \<or> level = 2 \<and> chunk = L2_SIZE \<or> level = 3 \<and> chunk = PAGE_SIZE) \<and>
      2 ^ level_shift level dvd unat va \<and> 2 ^ level_shift level dvd unat pa \<and> unat chunk \<le> unat remaining"
    using assms al by (auto simp: leaf_choice_def word_le_nat_alt split: if_splits)
  then show "1 \<le> level" "level \<le> 3" "chunk = level_size level"
    "2 ^ level_shift level dvd unat va" "2 ^ level_shift level dvd unat pa"
    "unat chunk \<le> unat remaining" "4096 dvd unat chunk"
    by (auto simp: level_size_def s1_consts)
qed

definition in_range :: "u64 \<Rightarrow> nat \<Rightarrow> u64 \<Rightarrow> bool" where
  "in_range va n v \<longleftrightarrow> unat va \<le> unat v \<and> unat v < unat va + n"

lemma div_eq_iff_range: "0 < k \<Longrightarrow> k dvd a \<Longrightarrow> v div k = a div k \<longleftrightarrow> a \<le> v \<and> v < a + k" for a :: nat
proof
  assume k: "0 < k" "k dvd a" and "v div k = a div k"
  then have "v = a + v mod k" using div_mult_mod_eq [of v k] by simp
  moreover have "v mod k < k" using k by simp
  ultimately show "a \<le> v \<and> v < a + k" by linarith
next
  assume k: "0 < k" "k dvd a" and "a \<le> v \<and> v < a + k"
  then obtain b where "v = a + b" "b < k" using le_Suc_ex by fastforce
  then show "v div k = a div k" using k by (auto elim!: dvdE)
qed

lemma vpn_block: "2 ^ level_shift l dvd unat va \<Longrightarrow> vpn l v = vpn l va \<longleftrightarrow> in_range va (2 ^ level_shift l) v"
  unfolding vpn_def in_range_def by (rule div_eq_iff_range) simp_all

text \<open>An address is mapped with the attributes of a request, by a leaf of some level.\<close>

definition mapped :: "table_set \<Rightarrow> mapping \<Rightarrow> u64 \<Rightarrow> u64 \<Rightarrow> bool" where
  "mapped ts m v pa \<longleftrightarrow>
     (\<exists>level. 1 \<le> level \<and> level \<le> 3 \<and>
        walk ts v = Ok (Some \<lparr>tr_pa = pa, tr_memory_type = map_memory_type m,
          tr_writable = map_writable m, tr_executable = map_executable m, tr_level = level\<rparr>))"

definition map_post ::
  "table_set \<Rightarrow> u64 \<Rightarrow> u64 \<Rightarrow> nat \<Rightarrow> mapping \<Rightarrow> (unit, translation_error) outcome \<times> table_set \<Rightarrow> bool" where
  "map_post ts va pa n m res \<longleftrightarrow>
     (\<exists>pos'. ts_wf pos' (snd res)) \<and> same_frame ts (snd res) \<and> stable ts (snd res) \<and>
     (case fst res of
        Ok _ \<Rightarrow> (\<forall>v. unat v < 2 ^ 39 \<longrightarrow>
                   (if in_range va n v then mapped (snd res) m v (pa + (v - va))
                    else walk (snd res) v = walk ts v))
      | Err e \<Rightarrow> (e = TableExhausted \<or> e = ConflictingEntry) \<and>
                 (\<forall>v. unat v < 2 ^ 39 \<longrightarrow>
                    walk (snd res) v = walk ts v \<or>
                    (in_range va n v \<and> mapped (snd res) m v (pa + (v - va))))
      | Panic \<Rightarrow> False)"

lemma leaf_trans_mapped:
  assumes "1 \<le> l" "l \<le> 3" and "2 ^ level_shift l dvd unat va" "2 ^ level_shift l dvd unat pa"
    and "unat pa < 2 ^ 48" and "vpn l v = vpn l va"
    and "walk ts v = Ok (Some (leaf_trans l v pa m))"
  shows "mapped ts m v (pa + (v - va))"
  using leaf_block_address [OF assms(1-6), of m] assms(1,2,7)
  unfolding mapped_def by (intro exI [of _ l]) (simp add: leaf_trans_def)


lemma in_range_split:
  assumes "unat va' = unat va + k" and "k \<le> n"
  shows "in_range va n v \<longleftrightarrow> in_range va k v \<or> in_range va' (n - k) v"
    and "\<not> (in_range va k v \<and> in_range va' (n - k) v)"
  using assms by (auto simp: in_range_def)

lemma map_post_step:
  assumes leaf: "map_leaf_post ts l va pa m (Ok u, ts1)" and l: "1 \<le> l" "l \<le> 3"
    and al: "2 ^ level_shift l dvd unat va" "2 ^ level_shift l dvd unat pa" and pa: "unat pa < 2 ^ 48"
    and va': "unat va' = unat va + 2 ^ level_shift l" "va' - va = pa' - pa" and n: "2 ^ level_shift l \<le> n"
    and rest: "map_post ts1 va' pa' (n - 2 ^ level_shift l) m res"
  shows "map_post ts va pa n m res"
proof -
  let ?k = "2 ^ level_shift l"
  note split = in_range_split [OF va'(1) n]
  have shift: "pa' + (v - va') = pa + (v - va)" for v
    using va'(2) by (metis (no_types, opaque_lifting) add.commute add_diff_cancel_left' diff_add_cancel
        diff_diff_eq2 add_diff_eq)
  have w1: "walk ts1 v = (if in_range va ?k v then Ok (Some (leaf_trans l v pa m)) else walk ts v)"
    if "unat v < 2 ^ 39" for v
    using leaf that vpn_block [OF al(1), of v] by (simp add: map_leaf_post_def)
  have m1: "mapped t m v (pa + (v - va))" if "unat v < 2 ^ 39" "in_range va ?k v" "walk t v = walk ts1 v" for t v
    using leaf_trans_mapped [OF l al pa, of v t m] w1 [OF that(1)] that vpn_block [OF al(1), of v] by simp
  have sf: "same_frame ts (snd res)"
    using leaf rest by (auto simp: map_leaf_post_def map_post_def same_frame_def)
  have sb: "stable ts (snd res)"
    using leaf rest stable_trans unfolding map_leaf_post_def map_post_def snd_conv by blast
  show ?thesis
  proof (cases "fst res")
    case (Ok x)
    then have r: "if in_range va' (n - ?k) v then mapped (snd res) m v (pa' + (v - va'))
        else walk (snd res) v = walk ts1 v" if "unat v < 2 ^ 39" for v
      using rest that by (simp add: map_post_def)
    have "if in_range va n v then mapped (snd res) m v (pa + (v - va)) else walk (snd res) v = walk ts v"
      if v: "unat v < 2 ^ 39" for v
      using r [OF v] w1 [OF v] m1 [OF v] split [of v] by (auto simp: shift split: if_splits)
    then show ?thesis using Ok rest sf sb by (simp add: map_post_def)
  next
    case (Err e)
    then have r: "walk (snd res) v = walk ts1 v \<or> in_range va' (n - ?k) v \<and> mapped (snd res) m v (pa' + (v - va'))"
      if "unat v < 2 ^ 39" for v
      using rest that by (simp add: map_post_def)
    have "walk (snd res) v = walk ts v \<or> in_range va n v \<and> mapped (snd res) m v (pa + (v - va))"
      if v: "unat v < 2 ^ 39" for v
      using r [OF v] w1 [OF v] m1 [OF v] split [of v] by (auto simp: shift split: if_splits)
    then show ?thesis using Err rest sf sb by (simp add: map_post_def)
  qed (use rest in \<open>simp add: map_post_def\<close>)
qed

lemma map_loop_spec:
  assumes "ts_wf pos ts" and "unat va + unat remaining \<le> 2 ^ 39" and "unat pa + unat remaining \<le> 2 ^ 48"
    and "4096 dvd unat va" "4096 dvd unat pa" "4096 dvd unat remaining"
  shows "map_post ts va pa (unat remaining) m (map_loop ts va pa remaining m)"
  using assms
proof (induction "unat remaining" arbitrary: ts pos va pa remaining rule: less_induct)
  case less
  show ?case
  proof (cases "remaining = 0")
    case True
    then show ?thesis
      using less.prems(1) by (auto simp: map_loop.simps map_post_def same_frame_def in_range_def stable_def)
  next
    case False
    obtain l chunk where lc: "leaf_choice va pa remaining = (l, chunk)" by fastforce
    note c = leaf_choice_spec [OF lc False less.prems(4-6)]
    have k: "unat chunk = 2 ^ level_shift l" "0 < unat chunk"
      using unat_level_size [OF c(1,2)] c(3) by simp_all
    have va: "unat va < 2 ^ 39" "unat pa < 2 ^ 48" using less.prems(2,3) k c(6) by linarith+
    obtain r ts1 where R: "map_leaf ts l va pa m = (r, ts1)" by fastforce
    have leaf: "map_leaf_post ts l va pa m (r, ts1)"
      using map_leaf_spec [OF less.prems(1) va(1) c(1,2), of pa m] R by simp
    have u: "unat (va + chunk) = unat va + unat chunk" "unat (pa + chunk) = unat pa + unat chunk"
        "unat (remaining - chunk) = unat remaining - unat chunk"
      using less.prems(2,3) c(6) by (auto simp: word_le_nat_alt unat_sub intro!: unat_add_no_overflow)
    have ch: "checked_add va chunk = Some (va + chunk)" "checked_add pa chunk = Some (pa + chunk)"
        "checked_sub remaining chunk = Some (remaining - chunk)"
      using less.prems(2,3) c(6) by (auto simp: checked_add_Some checked_sub_def word_le_nat_alt)
    show ?thesis
    proof (cases r)
      case (Ok x)
      then have step: "map_loop ts va pa remaining m =
          map_loop ts1 (va + chunk) (pa + chunk) (remaining - chunk) m"
        using False lc R ch by (subst map_loop.simps) simp
      obtain pos1 where wf1: "ts_wf pos1 ts1" using leaf by (auto simp: map_leaf_post_def)
      have rest: "map_post ts1 (va + chunk) (pa + chunk) (unat (remaining - chunk)) m
          (map_loop ts1 (va + chunk) (pa + chunk) (remaining - chunk) m)"
        using less.hyps [OF _ wf1, of "remaining - chunk" "va + chunk" "pa + chunk"]
          less.prems c(6,7) u k(2) by (auto intro: dvd_diff_nat)
      show ?thesis
        unfolding step
        by (rule map_post_step [OF leaf [unfolded Ok] c(1,2,4,5) va(2)])
          (use u k c(6) rest in simp_all)
    next
      case (Err e)
      then have "map_loop ts va pa remaining m = (Err e, ts1)"
        using False lc R by (subst map_loop.simps) simp
      then show ?thesis using leaf Err by (auto simp: map_post_def map_leaf_post_def)
    next
      case Panic
      then show ?thesis using leaf by (simp add: map_leaf_post_def)
    qed
  qed
qed


lemma validate_mapping_Ok:
  assumes "validate_mapping ts m = Ok ()" and "ts_pa_bits ts \<le> 48"
  shows "map_size m \<noteq> 0" "4096 dvd unat (map_va m)" "4096 dvd unat (map_pa m)" "4096 dvd unat (map_size m)"
    "unat (map_va m) + unat (map_size m) \<le> 2 ^ 39"
    "unat (map_pa m) + unat (map_size m) \<le> 2 ^ ts_pa_bits ts"
    "unat (map_pa m) + unat (map_size m) \<le> 2 ^ 48"
proof -
  obtain ve pe where e: "checked_add (map_va m) (map_size m) = Some ve" "checked_add (map_pa m) (map_size m) = Some pe"
      "\<not> push_bit VA_BITS 1 < ve" "\<not> push_bit (ts_pa_bits ts) 1 < pe" "map_size m \<noteq> 0"
      "is_page_aligned (map_va m OR map_pa m OR map_size m)"
    using assms(1) by (auto simp: validate_mapping_def outcome_simps split: if_splits)
  have "(map_va m OR map_pa m OR map_size m) AND mask 12 = 0"
    using e(6) by (simp add: and_mask_eq_0_iff)
  then have "map_va m AND mask 12 = 0" "map_pa m AND mask 12 = 0" "map_size m AND mask 12 = 0"
    unfolding bit.conj_disj_distrib2 or_eq_0_iff by blast+
  then show "4096 dvd unat (map_va m)" "4096 dvd unat (map_pa m)" "4096 dvd unat (map_size m)"
    by (simp_all add: and_mask_eq_0_iff)
  show "map_size m \<noteq> 0" using e(5) .
  have "unat (push_bit VA_BITS (1::u64)) = 2 ^ 39" by (simp add: VA_BITS_def)
  then show "unat (map_va m) + unat (map_size m) \<le> 2 ^ 39"
    using e(3) unat_checked_add [OF e(1)] by (simp add: word_less_nat_alt)
  have "unat (push_bit (ts_pa_bits ts) (1::u64)) = 2 ^ ts_pa_bits ts"
    using assms(2) by (simp add: push_bit_eq_mult unat_pow2)
  then show b: "unat (map_pa m) + unat (map_size m) \<le> 2 ^ ts_pa_bits ts"
    using e(4) unat_checked_add [OF e(2)] by (simp add: word_less_nat_alt)
  have "(2::nat) ^ ts_pa_bits ts \<le> 2 ^ 48" using assms(2) by (rule power_increasing) simp
  then show "unat (map_pa m) + unat (map_size m) \<le> 2 ^ 48" using b by linarith
qed

lemma ts_map_spec:
  assumes wf: "ts_wf pos ts"
  shows "case validate_mapping ts m of
           Ok _ \<Rightarrow> map_post ts (map_va m) (map_pa m) (unat (map_size m)) m (ts_map ts m)
         | Err e \<Rightarrow> ts_map ts m = (Err e, ts) | Panic \<Rightarrow> False"
proof (cases "validate_mapping ts m")
  case (Ok u)
  have "ts_pa_bits ts \<le> 48" using ts_wfD(1) [OF wf] by (simp add: ts_frame_def)
  note v = validate_mapping_Ok [OF _ this, of m]
  show ?thesis
    using map_loop_spec [OF wf, of "map_va m" "map_size m" "map_pa m" m] v Ok by (simp add: ts_map_def)
next
  case Panic
  then show ?thesis by (auto simp: validate_mapping_def outcome_simps split: if_splits)
qed (simp add: ts_map_def)

lemma ts_map_wf: "ts_wf pos ts \<Longrightarrow> \<exists>pos'. ts_wf pos' (snd (ts_map ts m))"
  using ts_map_spec [of pos ts m]
  by (cases "validate_mapping ts m") (auto simp: map_post_def)

lemma ts_new_wf:
  assumes "ts_new storage base bits = Ok ts" and "\<forall>page \<in> set storage. length page = 512"
    and "length storage < 2 ^ 64"
  shows "ts_wf (\<lambda>_. (1, 0)) ts" and "unat v < 2 ^ 39 \<Longrightarrow> walk ts v = Ok None"
    and "ts_base_pa ts = base" "ts_pa_bits ts = bits" "length (ts_pages ts) = length storage"
proof -
  let ?n = "length storage"
  obtain len e where n: "0 < ?n" "checked_mul (word_of_nat ?n) PAGE_SIZE = Some len"
      "checked_add base len = Some e" "\<not> push_bit bits 1 < e" "32 \<le> bits" "bits \<le> 48" "4096 dvd unat base"
      "ts = \<lparr>ts_pages = storage[0 := map (\<lambda>_. 0) (storage ! 0)], ts_used = 1, ts_base_pa = base, ts_pa_bits = bits\<rparr>"
    using assms(1)
    by (auto simp: ts_new_def Let_def outcome_simps allocate_page_def array_get_def split: if_splits)
  have "unat (word_of_nat ?n :: u64) = ?n" using assms(3) by (rule unat_word_of_nat_u64)
  then have "unat len = 4096 * ?n"
    using n(2) by (auto simp: checked_mul_def unat_word_ariths split: if_splits)
  moreover have "unat (push_bit bits (1::u64)) = 2 ^ bits"
    using n(6) by (simp add: push_bit_eq_mult unat_pow2)
  ultimately have "unat base + 4096 * ?n \<le> 2 ^ bits"
    using n(4) unat_checked_add [OF n(3)] by (simp add: word_less_nat_alt)
  then have fr: "ts_frame ts"
    using n assms(2)
    by (auto simp: ts_frame_def Suc_le_eq dest!: set_update_subset_insert [THEN subsetD])
  have z: "entry_of ts 0 i = 0" if "i < 512" for i
    using n(1,8) assms(2) that by (simp add: entry_of_def)
  show wf: "ts_wf (\<lambda>_. (1, 0)) ts"
    using fr z n(8) by (simp add: ts_wf_def entry_ok_def)
  show "walk ts v = Ok None" if v: "unat v < 2 ^ 39"
  proof -
    have "walk_loop ts v 0 [1..<4] = Ok None"
      using walk_loop_zero [OF fr ts_wfD(3) [OF wf], of 1 v] z by (simp add: levels_Cons del: walk_loop.simps)
    then show ?thesis using walk_eq [OF v] by simp
  qed
  show "ts_base_pa ts = base" "ts_pa_bits ts = bits" "length (ts_pages ts) = length storage"
    using n(8) by simp_all
qed

subsection \<open>Replacing a page\<close>

lemma find_leaf_table_spec:
  assumes "ts_wf pos ts" and "p < ts_used ts"
    and "on_path pos va l p" "reach ts va l p" and "1 \<le> l" "l \<le> 3"
  shows "case find_leaf_table ts va p [l..<3] of
           Ok q \<Rightarrow> q < ts_used ts \<and> on_path pos va 3 q \<and> reach ts va 3 q
         | Err e \<Rightarrow> e = ConflictingEntry | Panic \<Rightarrow> False"
  using assms(2-)
proof (induction "3 - l" arbitrary: l p)
  case (Suc n)
  note pu = Suc.prems(1) and on = Suc.prems(2) and re = Suc.prems(3) and l1 = Suc.prems(4)
  have l: "l < 3" using Suc.hyps(2) by simp
  then have lv: "[l..<3] = l # [Suc l..<3]" by (simp add: upt_rec)
  note fr = ts_wfD(1) [OF assms(1)]
  have lp: "fst (pos p) = l" using on by (simp add: on_path_def)
  note e = ts_entry_eq [OF fr pu index_for_less [of l va]]
  have vt: "VALID OR TABLE_OR_PAGE = 3" by (simp add: VALID_def TABLE_OR_PAGE_def)
  from entry_cases [OF assms(1) pu index_for_less [of l va]] show ?case
  proof cases
    case 1
    then show ?thesis using e by (simp add: lv vt)
  next
    case (2 c)
    then have "find_leaf_table ts va p [l..<3] = find_leaf_table ts va c [Suc l..<3]"
      using e tdesc_fields [OF fr 2(3)] table_index_eq [OF fr 2(3)] by (simp add: lv vt)
    then show ?thesis
      using Suc.hyps(1) [of "Suc l" c] Suc.hyps(2) 2(3) on_path_child [OF on l1 l 2(5)]
        reach_child [OF re l1 l pu 2(3,4)] l by simp
  next
    case (3 pa m)
    have "leaf_descriptor l pa m AND 3 = 1"
      using leaf_fields(1,2) [of l pa m] l l1 and_3_split [of "leaf_descriptor l pa m"] by simp
    then show ?thesis using e 3 lp by (simp add: lv vt)
  qed
qed simp

lemma reach_used:
  "reach ts v l p \<Longrightarrow> ts_wf pos ts \<Longrightarrow> unat v < 2 ^ 39 \<Longrightarrow> p < ts_used ts \<and> on_path pos v l p"
proof (induction rule: reach.induct)
  case reach_root
  then show ?case using ts_wfD(3) on_path_root by blast
next
  case (reach_child l p c)
  have p: "on_path pos v l p" using reach_child by blast
  note fr = ts_wfD(1) [OF reach_child(8)]
  have vt: "tdesc ts c AND 3 = 3" "tdesc ts c \<noteq> 0" using tdesc_fields [OF fr reach_child(5)] by simp_all
  have lp: "fst (pos p) = l" using p by (simp add: on_path_def)
  from entry_cases [OF reach_child(8,4) index_for_less [of l v]] show ?case
  proof cases
    case (2 c')
    then have "tdesc ts c = tdesc ts c'" using reach_child(6) by simp
    then have "c = c'"
      using tdesc_fields(4) [OF fr reach_child(5)] tdesc_fields(4) [OF fr 2(3)]
        table_index_eq [OF fr reach_child(5)] table_index_eq [OF fr 2(3)] by (metis outcome.inject(1))
    then show ?thesis using on_path_child [OF p reach_child(2,3) 2(5)] 2(3) by simp
  next
    case (3 pa m)
    have "leaf_descriptor l pa m AND 3 = 1"
      using leaf_fields(1,2) [of l pa m] reach_child(2,3) and_3_split [of "leaf_descriptor l pa m"] by simp
    then show ?thesis using 3 lp reach_child(6) vt by simp
  qed (use reach_child(6) vt in simp)
qed

lemma reach_put_leaf_table:
  assumes wf: "ts_wf pos ts" and p: "p < ts_used ts" "fst (pos p) = 3" "i < 512" and v: "unat v < 2 ^ 39"
  shows "reach ts v l q \<Longrightarrow> reach (put_entry ts p i d) v l q"
proof (induction rule: reach.induct)
  case (reach_child l q c)
  have "q \<noteq> p" using reach_used [OF reach_child(1) wf v] p(2) reach_child(3) by (auto simp: on_path_def)
  then have "entry_of (put_entry ts p i d) q (index_for l v) = tdesc (put_entry ts p i d) c"
    using entry_of_put [OF ts_wfD(1) [OF wf] p(1,3) reach_child(4)] reach_child(6) by simp
  then show ?case using reach_child by (intro reach.reach_child [of _ v l q c]) simp_all
qed (rule reach_root)

lemma walk_put_page:
  assumes wf: "ts_wf pos ts" and p: "p < ts_used ts" "on_path pos va 3 p" "reach ts va 3 p"
    and va: "unat va < 2 ^ 39" "4096 dvd unat va" and v: "unat v < 2 ^ 39"
  shows "walk (put_entry ts p (index_for 3 va) d) v =
           (if in_range va 4096 v then walk_loop (put_entry ts p (index_for 3 va) d) v p [3] else walk ts v)"
proof (cases "vpn 3 v = vpn 3 va")
  case True
  let ?i = "index_for 3 va"
  have rv: "reach ts v 3 p" using reach_cong [OF p(3) va(1)] True by simp
  have "reach (put_entry ts p ?i d) v 3 p"
    using reach_put_leaf_table [OF wf p(1) _ index_for_less v rv] p(2) by (simp add: on_path_def)
  then show ?thesis
    using reach_walk put_entry_frame [OF ts_wfD(1) [OF wf] p(1)] walk_eq [OF v] True vpn_block [of 3 va v] va(2)
    by (simp add: upt_rec del: walk_loop.simps)
next
  case False
  then show ?thesis
    using walk_loop_put_other [OF wf p(1) index_for_less p(2) False refl ts_wfD(3) [OF wf] on_path_root [OF wf v]]
      vpn_block [of 3 va v] va(2) by (simp add: walk_eq [OF v])
qed



lemma validate_mapping_no_panic: "validate_mapping ts m \<noteq> Panic"
  by (auto simp: validate_mapping_def outcome_simps split: if_splits)

lemma replace_locate_spec:
  assumes wf: "ts_wf pos ts"
  shows "replace_locate ts m old_pa \<noteq> Panic"
    and "replace_locate ts m old_pa = Ok q \<Longrightarrow>
      validate_mapping ts m = Ok () \<and> validate_mapping ts (m\<lparr>map_pa := old_pa\<rparr>) = Ok () \<and>
      q < ts_used ts \<and> on_path pos (map_va m) 3 q \<and> reach ts (map_va m) 3 q \<and>
      entry_of ts q (index_for 3 (map_va m)) = leaf_descriptor 3 old_pa (m\<lparr>map_pa := old_pa\<rparr>)"
proof -
  note fr = ts_wfD(1) [OF wf]
  have b: "ts_pa_bits ts \<le> 48" using fr by (simp add: ts_frame_def)
  have f: "case find_leaf_table ts (map_va m) 0 [1..<3] of
      Ok q \<Rightarrow> q < ts_used ts \<and> on_path pos (map_va m) 3 q \<and> reach ts (map_va m) 3 q
    | Err e \<Rightarrow> e = ConflictingEntry | Panic \<Rightarrow> False" if v: "validate_mapping ts m = Ok ()"
  proof -
    have "0 < unat (map_size m)" using validate_mapping_Ok(1) [OF v b] by (simp add: unat_gt_0)
    then have "unat (map_va m) < 2 ^ 39" using validate_mapping_Ok(5) [OF v b] by linarith
    from find_leaf_table_spec [OF wf ts_wfD(3) [OF wf] on_path_root [OF wf this] reach_root] show ?thesis by simp
  qed
  have e: "q < ts_used ts \<Longrightarrow> ts_entry ts q (index_for 3 (map_va m)) = Ok (entry_of ts q (index_for 3 (map_va m)))" for q
    using ts_entry_eq [OF fr] by simp
  show "replace_locate ts m old_pa \<noteq> Panic"
    using f e validate_mapping_no_panic
    by (auto simp: replace_locate_def outcome_simps split: if_splits outcome.splits)
  show "replace_locate ts m old_pa = Ok q \<Longrightarrow>
      validate_mapping ts m = Ok () \<and> validate_mapping ts (m\<lparr>map_pa := old_pa\<rparr>) = Ok () \<and>
      q < ts_used ts \<and> on_path pos (map_va m) 3 q \<and> reach ts (map_va m) 3 q \<and>
      entry_of ts q (index_for 3 (map_va m)) = leaf_descriptor 3 old_pa (m\<lparr>map_pa := old_pa\<rparr>)"
    using f e by (auto simp: replace_locate_def outcome_simps split: if_splits)
qed

text \<open>What the walk of the page sees when its level-3 entry is overwritten.\<close>

lemma leaf_descriptor_cong:
  "map_memory_type m = map_memory_type m' \<Longrightarrow> map_writable m = map_writable m' \<Longrightarrow>
   map_executable m = map_executable m' \<Longrightarrow> leaf_descriptor l pa m = leaf_descriptor l pa m'"
  by (simp add: leaf_descriptor_def)

lemma put_page_walks:
  assumes wf: "ts_wf pos ts" and q: "q < ts_used ts" "on_path pos va 3 q" "reach ts va 3 q"
    and va: "unat va + 4096 \<le> 2 ^ 39" "4096 dvd unat va" and v: "in_range va 4096 v"
  shows "walk (put_entry ts q (index_for 3 va) 0) v = Ok None"
    and "4096 dvd unat pa \<Longrightarrow> unat pa < 2 ^ 48 \<Longrightarrow>
         mapped (put_entry ts q (index_for 3 va) (leaf_descriptor 3 pa m)) m v (pa + (v - va))"
proof -
  note fr = ts_wfD(1) [OF wf]
  have bounds: "unat va < 2 ^ 39" "unat v < 2 ^ 39" using va(1) v by (auto simp: in_range_def)
  have "vpn 3 v = vpn 3 va" using vpn_block [of 3 va v] va(2) v by simp
  then have iv: "index_for 3 v = index_for 3 va" by (simp add: index_for_eq)
  note put = walk_put_page [OF wf q bounds(1) va(2) bounds(2)]
  note fp = put_entry_frame [OF fr q(1)]
  have e: "ts_entry (put_entry ts q (index_for 3 va) d) q (index_for 3 v) = Ok d" for d
    using ts_entry_eq [OF fp, of q "index_for 3 va"] q(1) iv entry_of_put [OF fr q(1) index_for_less q(1)] by simp
  show "walk (put_entry ts q (index_for 3 va) 0) v = Ok None"
    using put v e [of 0] by simp
  show "mapped (put_entry ts q (index_for 3 va) (leaf_descriptor 3 pa m)) m v (pa + (v - va))"
    if "4096 dvd unat pa" "unat pa < 2 ^ 48"
    by (rule leaf_trans_mapped [of 3])
      (use that va(2) \<open>vpn 3 v = vpn 3 va\<close> put v walk_loop_leaf [OF _ _ e] in \<open>simp_all del: walk_loop.simps\<close>)
qed

section \<open>Correctness\<close>

inductive map_step :: "table_set \<Rightarrow> table_set \<Rightarrow> bool" where
  "map_step ts (snd (ts_map ts m))"

definition ts_inv :: "table_set \<Rightarrow> bool" where
  "ts_inv ts \<longleftrightarrow> (\<exists>pos. ts_wf pos ts)"

interpretation tsm: transition_system ts_inv map_step ts_inv
  by unfold_locales (auto simp: ts_inv_def elim!: map_step.cases dest: ts_map_wf)

text \<open>A fresh table set of four pages at 0x80000, for the concrete instances below.\<close>

lemma example_tables: "\<exists>ts. ts_new (storage_zeroed 4) 0x80000 32 = Ok ts \<and> ts_wf (\<lambda>_. (1, 0)) ts"
proof -
  have "\<exists>ts. ts_new (storage_zeroed 4) 0x80000 32 = Ok ts"
    by (simp add: ts_new_def storage_zeroed_def checked_mul_def checked_add_def PAGE_SIZE_def
        allocate_page_def array_get_def Let_def)
  then show ?thesis
    using ts_new_wf(1) by (fastforce simp: storage_zeroed_def tp_zeroed_def ENTRIES_PER_TABLE_def)
qed

text \<open>
  C1: \<open>TableSet::map\<close> on a well-formed table set. A successful call makes the walk of
  every address of the requested range yield the requested physical address, memory
  type and permissions and leaves the walk of every other address as it was. A
  failing call reports the first violated validity condition without touching the
  tables, or runs out of table pages or meets a conflicting entry; then every address
  translates as before or already has the requested translation. The call never
  panics and the tables stay well formed, whatever leaf sizes it chooses.
\<close>

theorem map_correct:
  assumes "ts_inv ts"
  shows "case ts_map ts m of
           (Ok _, ts') \<Rightarrow> ts_inv ts' \<and>
             (\<forall>v. unat v < 2 ^ 39 \<longrightarrow>
                (if in_range (map_va m) (unat (map_size m)) v
                 then mapped ts' m v (map_pa m + (v - map_va m)) else walk ts' v = walk ts v))
         | (Err e, ts') \<Rightarrow> ts_inv ts' \<and>
             (ts' = ts \<and> validate_mapping ts m = Err e \<or>
              (e = TableExhausted \<or> e = ConflictingEntry) \<and>
              (\<forall>v. unat v < 2 ^ 39 \<longrightarrow>
                 walk ts' v = walk ts v \<or>
                 (in_range (map_va m) (unat (map_size m)) v \<and>
                  mapped ts' m v (map_pa m + (v - map_va m)))))
         | (Panic, _) \<Rightarrow> False"
proof -
  obtain pos where wf: "ts_wf pos ts" using assms by (auto simp: ts_inv_def)
  obtain r ts' where R: "ts_map ts m = (r, ts')" by fastforce
  show ?thesis
  proof (cases "validate_mapping ts m")
    case (Ok u)
    then have "map_post ts (map_va m) (map_pa m) (unat (map_size m)) m (r, ts')"
      using ts_map_spec [OF wf, of m] R by simp
    then show ?thesis
      unfolding R by (cases r) (auto simp: map_post_def ts_inv_def)
  qed (use ts_map_spec [OF wf, of m] R assms in auto)
qed

theorem map_correct_witness:
  "\<exists>ts. ts_new (storage_zeroed 4) 0x80000 32 = Ok ts \<and> ts_inv ts \<and>
     (let m = \<lparr>map_va = 0x200000, map_pa = 0x400000, map_size = 0x201000, map_memory_type = Device,
               map_writable = True, map_executable = False\<rparr>
      in case ts_map ts m of
           (Ok _, ts') \<Rightarrow> ts_inv ts' \<and> mapped ts' m 0x400ff0 0x600ff0 \<and> walk ts' 0x1000 = walk ts 0x1000
         | (Err e, ts') \<Rightarrow> ts_inv ts' \<and> (e = TableExhausted \<or> e = ConflictingEntry)
         | (Panic, _) \<Rightarrow> False)"
proof -
  obtain ts where ts: "ts_new (storage_zeroed 4) 0x80000 32 = Ok ts" "ts_wf (\<lambda>_. (1, 0)) ts"
    using example_tables by blast
  then have inv: "ts_inv ts" by (auto simp: ts_inv_def)
  let ?m = "\<lparr>map_va = 0x200000, map_pa = 0x400000, map_size = 0x201000, map_memory_type = Device,
    map_writable = True, map_executable = False\<rparr>"
  have "ts_pa_bits ts = 32"
    using ts_new_wf(4) [OF ts(1)] by (simp add: storage_zeroed_def tp_zeroed_def ENTRIES_PER_TABLE_def)
  then have v: "validate_mapping ts ?m = Ok ()"
    by (simp add: validate_mapping_def checked_add_def VA_BITS_def)
  have r: "in_range 0x200000 0x201000 0x400ff0" "\<not> in_range 0x200000 0x201000 0x1000" by (simp_all add: in_range_def)
  obtain r ts' where R: "ts_map ts ?m = (r, ts')" by fastforce
  show ?thesis
  proof (cases r)
    case (Ok u)
    then have "ts_inv ts'" and all: "\<And>v. unat v < 2 ^ 39 \<Longrightarrow>
        if in_range 0x200000 0x201000 v then mapped ts' ?m v (0x400000 + (v - 0x200000)) else walk ts' v = walk ts v"
      using map_correct [OF inv, of ?m] R by auto
    then show ?thesis
      using ts inv r R Ok all [of "0x400ff0"] all [of "0x1000"] by (auto simp: Let_def)
  qed (use map_correct [OF inv, of ?m] ts inv v R in \<open>auto simp: Let_def\<close>)
qed

text \<open>
  C12: no call of \<open>map\<close>, successful or not, ever changes an existing translation, and in
  every table set that any sequence of \<open>map\<close> calls builds from a fresh one the walk of
  every address of the 39-bit space succeeds: no corrupt table is ever met.
\<close>

theorem map_sequence_safe:
  assumes "ts_new storage base bits = Ok ts0" and "\<forall>page \<in> set storage. length page = ENTRIES_PER_TABLE"
    and "length storage < 2 ^ 64" and "map_step\<^sup>*\<^sup>* ts0 ts" and "unat v < 2 ^ 39"
  shows "(\<exists>t. walk ts v = Ok t) \<and>
         (\<forall>t m. walk ts v = Ok (Some t) \<longrightarrow> walk (snd (ts_map ts m)) v = Ok (Some t))"
proof -
  have "ts_inv ts0"
    using ts_new_wf(1) [OF assms(1)] assms(2,3) by (auto simp: ts_inv_def ENTRIES_PER_TABLE_def)
  then have "ts_inv ts" using tsm.steps_invar [OF assms(4)] by blast
  then obtain pos where wf: "ts_wf pos ts" by (auto simp: ts_inv_def)
  have "\<exists>t. walk ts v = Ok t"
    using walk_loop_total [OF wf ts_wfD(3) [OF wf] on_path_root [OF wf assms(5)]] walk_eq [OF assms(5)] by simp
  moreover have "stable ts (snd (ts_map ts m))" for m
    using ts_map_spec [OF wf, of m] by (cases "validate_mapping ts m") (auto simp: map_post_def stable_def)
  ultimately show ?thesis using assms(5) by (auto simp: stable_def)
qed


theorem map_sequence_safe_witness:
  "\<exists>ts0. ts_new (storage_zeroed 4) 0x80000 32 = Ok ts0 \<and>
     (\<exists>t. walk (snd (ts_map ts0 \<lparr>map_va = 0, map_pa = 0, map_size = 0x1000, map_memory_type = Normal,
                  map_writable = False, map_executable = True\<rparr>)) 0x10 = Ok t)"
proof -
  obtain ts where ts: "ts_new (storage_zeroed 4) 0x80000 32 = Ok ts" using example_tables by blast
  have "\<forall>page \<in> set (storage_zeroed 4). length page = ENTRIES_PER_TABLE" "length (storage_zeroed 4) < 2 ^ 64"
    by (simp_all add: storage_zeroed_def tp_zeroed_def)
  note st = this
  let ?m = "\<lparr>map_va = 0, map_pa = 0, map_size = 0x1000, map_memory_type = Normal,
    map_writable = False, map_executable = True\<rparr>"
  have "map_step\<^sup>*\<^sup>* ts (snd (ts_map ts ?m))" by (rule r_into_rtranclp) (rule map_step.intros)
  from map_sequence_safe [OF ts st this, of "0x10"] ts show ?thesis by auto
qed

text \<open>Three linked tables that map the page 0x1000 to 0x5000.\<close>

definition example_ts :: table_set where
  "example_ts = \<lparr>ts_pages = [(replicate 512 0)[0 := 0x81003], (replicate 512 0)[0 := 0x82003],
     (replicate 512 0)[1 := 0x40000000005703]], ts_used = 3, ts_base_pa = 0x80000, ts_pa_bits = 32\<rparr>"

lemma example_entries:
  assumes "i < 512"
  shows "entry_of example_ts 0 i = (if i = 0 then tdesc example_ts 1 else 0)"
    and "entry_of example_ts 1 i = (if i = 0 then tdesc example_ts 2 else 0)"
    and "entry_of example_ts 2 i = (if i = 1 then 0x40000000005703 else 0)"
  using assms
  by (auto simp: entry_of_def example_ts_def nth_list_update tdesc_def table_pa_def VALID_def TABLE_OR_PAGE_def)

lemma example_leaf:
  "leaf_descriptor 3 0x5000 \<lparr>map_va = va, map_pa = pa, map_size = sz, map_memory_type = Normal,
     map_writable = True, map_executable = False\<rparr> = 0x40000000005703"
  "leaf_descriptor 3 0x6000 \<lparr>map_va = va, map_pa = pa, map_size = sz, map_memory_type = Normal,
     map_writable = True, map_executable = False\<rparr> = 0x40000000006703"
  by (simp_all add: leaf_descriptor_def Let_def output_mask_simps s1_consts)

lemma example_ts_wf: "ts_wf (\<lambda>p. (Suc p, 0)) example_ts"
proof -
  have fr: "ts_frame example_ts" and u: "ts_used example_ts = 3" by (auto simp: ts_frame_def example_ts_def)
  have "entry_ok (\<lambda>p. (Suc p, 0)) example_ts p i" if "p < 3" "i < 512" for p i
  proof -
    have p: "p = 0 \<or> p = 1 \<or> p = 2" using that(1) by linarith
    note e = example_entries [OF that(2)]
    have "entry_ok (\<lambda>p. (Suc p, 0)) example_ts 0 i"
      using e(1) u entry_okI(1) [of example_ts 0 i] entry_okI(2) [of "\<lambda>p. (Suc p, 0)" 0 1 example_ts i]
      by (cases "i = 0") simp_all
    moreover have "entry_ok (\<lambda>p. (Suc p, 0)) example_ts 1 i"
      using e(2) u entry_okI(1) [of example_ts 1 i] entry_okI(2) [of "\<lambda>p. (Suc p, 0)" 1 2 example_ts i]
      by (cases "i = 0") simp_all
    moreover have "entry_ok (\<lambda>p. (Suc p, 0)) example_ts 2 i"
    proof (cases "i = 1")
      case True
      then show ?thesis
        using e(3) example_leaf(1) [of 0 0 0] entry_okI(3) [of example_ts 2 i "\<lambda>p. (Suc p, 0)" "0x5000"]
        by simp
    qed (use e(3) entry_okI(1) [of example_ts 2 i] in simp)
    ultimately show ?thesis using p by blast
  qed
  then show ?thesis using fr u by (simp add: ts_wf_def)
qed

lemma example_replace:
  "\<exists>ts'. replace_data_page example_ts 0x1000 0x5000 0x6000 (\<lambda>d s. (Ok (), s @ [d])) [] =
     (Ok (), ts', [0, 0x40000000006703])"
proof -
  have fr: "ts_frame example_ts" and u: "ts_used example_ts = 3" by (auto simp: ts_frame_def example_ts_def)
  have idx: "index_for 1 0x1000 = 0" "index_for 2 0x1000 = 0" "index_for 3 0x1000 = 1"
    by (simp_all add: index_for_eq vpn_def)
  have vt: "VALID OR TABLE_OR_PAGE = 3" by (simp add: VALID_def TABLE_OR_PAGE_def)
  have e: "ts_entry example_ts 0 0 = Ok (tdesc example_ts 1)" "ts_entry example_ts 1 0 = Ok (tdesc example_ts 2)"
      "ts_entry example_ts 2 1 = Ok 0x40000000005703"
    using ts_entry_eq [OF fr] example_entries u by simp_all
  have "find_leaf_table example_ts 0x1000 0 [1..<3] = Ok 2"
    using e idx tdesc_fields [OF fr] table_index_eq [OF fr] u
    by (simp add: upt_rec vt eval_nat_numeral(2) [symmetric] del: One_nat_def)
  then have "replace_locate example_ts \<lparr>map_va = 0x1000, map_pa = 0x6000, map_size = PAGE_SIZE,
      map_memory_type = Normal, map_writable = True, map_executable = False\<rparr> 0x5000 = Ok 2"
    using e idx by (simp add: replace_locate_def validate_mapping_def checked_add_def VA_BITS_def PAGE_SIZE_def
        example_leaf) (simp add: example_ts_def)
  then show ?thesis
    using ts_write_eq [OF fr, of 2 1] ts_write_eq [OF put_entry_frame [OF fr, of 2], of 2 1] u idx
    by (simp add: replace_data_page_def example_leaf PAGE_SIZE_def)
qed

text \<open>The two runs of \<open>replace_data_page\<close>: refused before any write, or carried out on the entry found.\<close>

lemma replace_data_page_runs:
  assumes wf: "ts_wf pos ts" and "replace_data_page ts va old_pa new_pa synchronize s = (r, ts', s')"
    and m: "m = \<lparr>map_va = va, map_pa = new_pa, map_size = PAGE_SIZE, map_memory_type = Normal,
      map_writable = True, map_executable = False\<rparr>"
  shows "(ts' = ts \<and> s' = s \<and> r \<noteq> Ok () \<and> r \<noteq> Panic) \<or>
    (\<exists>q r1 s1 r3 s3. q < ts_used ts \<and> on_path pos va 3 q \<and> reach ts va 3 q \<and>
       entry_of ts q (index_for 3 va) = leaf_descriptor 3 old_pa m \<and>
       unat va + 4096 \<le> 2 ^ 39 \<and> 4096 dvd unat va \<and> 4096 dvd unat new_pa \<and> unat new_pa < 2 ^ 48 \<and>
       4096 dvd unat old_pa \<and> unat old_pa < 2 ^ 48 \<and>
       synchronize 0 s = (r1, s1) \<and> synchronize (leaf_descriptor 3 new_pa m) s1 = (r3, s3) \<and>
       (r, ts', s') = (if r1 = Ok () then (r3, put_entry ts q (index_for 3 va) (leaf_descriptor 3 new_pa m), s3)
                       else (r1, put_entry ts q (index_for 3 va) 0, s1)))"
proof -
  note fr = ts_wfD(1) [OF wf]
  have unf: "replace_data_page ts va old_pa new_pa synchronize s =
      st_then (st_lift (replace_locate ts m old_pa) (ts, s)) (\<lambda>table _.
         let index = index_for 3 va; (r0, ts0) = ts_write ts table index 0 in
         st_then (r0, (ts0, s)) (\<lambda>_ _.
         let (r1, s1) = synchronize 0 s in
         st_then (r1, (ts0, s1)) (\<lambda>_ _.
         let d = leaf_descriptor 3 new_pa m; (r2, ts2) = ts_write ts0 table index d in
         st_then (r2, (ts2, s1)) (\<lambda>_ _.
         let (r3, s3) = synchronize d s1 in (r3, (ts2, s3))))))"
    by (simp add: replace_data_page_def m Let_def)
  show ?thesis
  proof (cases "replace_locate ts m old_pa")
    case (Ok q)
    let ?i = "index_for 3 va" and ?d = "leaf_descriptor 3 new_pa m" and ?o = "leaf_descriptor 3 old_pa m"
    have mv: "map_va m = va" "map_pa m = new_pa" "map_size m = PAGE_SIZE" by (simp_all add: m)
    have L: "validate_mapping ts m = Ok ()" "validate_mapping ts (m\<lparr>map_pa := old_pa\<rparr>) = Ok ()"
        "q < ts_used ts" "on_path pos va 3 q" "reach ts va 3 q" "entry_of ts q ?i = ?o"
      using replace_locate_spec(2) [OF wf Ok] leaf_descriptor_cong [of "m\<lparr>map_pa := old_pa\<rparr>" m]
      by (simp_all add: mv)
    have b: "ts_pa_bits ts \<le> 48" using fr by (simp add: ts_frame_def)
    have va: "unat va + 4096 \<le> 2 ^ 39" "4096 dvd unat va" "4096 dvd unat new_pa" "unat new_pa < 2 ^ 48"
        "4096 dvd unat old_pa" "unat old_pa < 2 ^ 48"
      using validate_mapping_Ok(2,3,5,7) [OF L(1) b] validate_mapping_Ok(3,7) [OF L(2) b] by (simp_all add: mv)
    have w0: "ts_write ts q ?i 0 = (Ok (), put_entry ts q ?i 0)" using ts_write_eq [OF fr L(3)] by simp
    have w2: "ts_write (put_entry ts q ?i 0) q ?i ?d = (Ok (), put_entry ts q ?i ?d)"
      using ts_write_eq [OF put_entry_frame [OF fr L(3)], of q ?i] L(3) ts_frame_page [OF fr L(3)]
      by (simp add: put_entry_def)
    obtain r1 s1 where s1: "synchronize 0 s = (r1, s1)" by fastforce
    obtain r3 s3 where s3: "synchronize ?d s1 = (r3, s3)" by fastforce
    have "(r, ts', s') = (if r1 = Ok () then (r3, put_entry ts q ?i ?d, s3) else (r1, put_entry ts q ?i 0, s1))"
      using assms(2) unfolding unf Ok by (cases r1) (auto simp: w0 s1 w2 s3)
    then show ?thesis using L va s1 s3 by blast
  qed (use assms(2) replace_locate_spec(1) [OF wf] in \<open>auto simp: unf\<close>)
qed

text \<open>Whatever happens, no address outside the page is affected and the tables stay well formed.\<close>

lemma replace_data_page_other:
  assumes "ts_inv ts" and "replace_data_page ts va old_pa new_pa synchronize s = (r, ts', s')"
  shows "ts_inv ts'" and "unat v < 2 ^ 39 \<Longrightarrow> \<not> in_range va 4096 v \<Longrightarrow> walk ts' v = walk ts v"
proof -
  obtain pos where wf: "ts_wf pos ts" using assms(1) by (auto simp: ts_inv_def)
  consider "ts' = ts" | q d where "q < ts_used ts" "on_path pos va 3 q" "reach ts va 3 q" "unat va + 4096 \<le> 2 ^ 39"
      "4096 dvd unat va" "ts' = put_entry ts q (index_for 3 va) d" "d = 0 \<or> (\<exists>m pa. d = leaf_descriptor 3 pa m \<and> 4096 dvd unat pa)"
    using replace_data_page_runs [OF wf assms(2) refl] by (auto split: if_splits)
  then have "ts_inv ts' \<and> (unat v < 2 ^ 39 \<longrightarrow> \<not> in_range va 4096 v \<longrightarrow> walk ts' v = walk ts v)"
  proof cases
    case 2
    have "ts_inv ts'" using put_entry_wf [OF wf 2(1), of "index_for 3 va"] 2 by (auto simp: ts_inv_def on_path_def)
    moreover have "walk ts' v = walk ts v" if "unat v < 2 ^ 39" "\<not> in_range va 4096 v"
      using walk_put_page [OF wf 2(1-3) _ 2(5) that(1), of d] that(2) 2(4,6) by simp
    ultimately show ?thesis by blast
  qed (use assms in simp)
  then show "ts_inv ts'" "unat v < 2 ^ 39 \<Longrightarrow> \<not> in_range va 4096 v \<Longrightarrow> walk ts' v = walk ts v" by blast+
qed

text \<open>
  C13: \<open>replace_data_page\<close> is break-before-make. Either it is refused and nothing is
  written or synchronised, or the page was mapped to the old address and then: the
  entry is first emptied and synchronised, and only when that succeeded is the new
  descriptor stored and synchronised; the final state maps the page to the new address
  (or nowhere, if the first synchronisation failed) and no other address is affected.
\<close>

theorem replace_data_page_break_before_make:
  assumes "ts_inv ts" and "replace_data_page ts va old_pa new_pa synchronize s = (r, ts', s')"
  shows "(ts' = ts \<and> s' = s \<and> r \<noteq> Ok () \<and> r \<noteq> Panic) \<or>
    (let m = \<lparr>map_va = va, map_pa = new_pa, map_size = PAGE_SIZE, map_memory_type = Normal,
              map_writable = True, map_executable = False\<rparr> in
     ts_inv ts' \<and>
     (\<forall>v. unat v < 2 ^ 39 \<longrightarrow> \<not> in_range va 4096 v \<longrightarrow> walk ts' v = walk ts v) \<and>
     (\<forall>v. in_range va 4096 v \<longrightarrow> mapped ts m v (old_pa + (v - va))) \<and>
     (\<exists>r1 s1. synchronize 0 s = (r1, s1) \<and>
        (if r1 = Ok ()
         then synchronize (leaf_descriptor 3 new_pa m) s1 = (r, s') \<and>
              (\<forall>v. in_range va 4096 v \<longrightarrow> mapped ts' m v (new_pa + (v - va)))
         else r = r1 \<and> s' = s1 \<and> (\<forall>v. in_range va 4096 v \<longrightarrow> walk ts' v = Ok None))))"
proof -
  define m where "m = \<lparr>map_va = va, map_pa = new_pa, map_size = PAGE_SIZE, map_memory_type = Normal,
    map_writable = True, map_executable = False\<rparr>"
  obtain pos where wf: "ts_wf pos ts" using assms(1) by (auto simp: ts_inv_def)
  let ?i = "index_for 3 va" and ?d = "leaf_descriptor 3 new_pa m" and ?o = "leaf_descriptor 3 old_pa m"
  consider "ts' = ts \<and> s' = s \<and> r \<noteq> Ok () \<and> r \<noteq> Panic"
    | (run) q r1 s1 r3 s3 where "q < ts_used ts" "on_path pos va 3 q" "reach ts va 3 q" "entry_of ts q ?i = ?o"
      "unat va + 4096 \<le> 2 ^ 39" "4096 dvd unat va" "4096 dvd unat new_pa" "unat new_pa < 2 ^ 48"
      "4096 dvd unat old_pa" "unat old_pa < 2 ^ 48" "synchronize 0 s = (r1, s1)" "synchronize ?d s1 = (r3, s3)"
      "(r, ts', s') = (if r1 = Ok () then (r3, put_entry ts q ?i ?d, s3) else (r1, put_entry ts q ?i 0, s1))"
    using replace_data_page_runs [OF wf assms(2) m_def] by blast
  then show ?thesis
  proof cases
    case run
    note walks = put_page_walks [OF wf run(1-3,5,6)]
    have "put_entry ts q ?i ?o = ts" unfolding put_entry_def run(4) [symmetric] entry_of_def by simp
    then have "in_range va 4096 v \<Longrightarrow> mapped ts m v (old_pa + (v - va))" for v
      using walks(2) [of v old_pa m] run(9,10) by simp
    then show ?thesis
      unfolding m_def [symmetric] Let_def
      using run(11-13) replace_data_page_other [OF assms] walks(1) walks(2) [of _ new_pa m] run(7,8)
      by (intro disjI2) (auto split: if_splits)
  qed blast
qed

theorem replace_data_page_break_before_make_witness:
  "\<exists>ts'. replace_data_page example_ts 0x1000 0x5000 0x6000 (\<lambda>d s. (Ok (), s @ [d])) [] =
      (Ok (), ts', [0, 0x40000000006703]) \<and>
    (let m = \<lparr>map_va = 0x1000, map_pa = 0x6000, map_size = PAGE_SIZE, map_memory_type = Normal,
             map_writable = True, map_executable = False\<rparr>
     in mapped example_ts m 0x1008 0x5008 \<and> mapped ts' m 0x1008 0x6008)"
proof -
  let ?m = "\<lparr>map_va = 0x1000, map_pa = 0x6000, map_size = PAGE_SIZE, map_memory_type = Normal,
    map_writable = True, map_executable = False\<rparr>"
  let ?sync = "\<lambda>d s. (Ok () :: (unit, translation_error) outcome, s @ [d :: u64])"
  have inv: "ts_inv example_ts" using example_ts_wf by (auto simp: ts_inv_def)
  obtain ts' where R: "replace_data_page example_ts 0x1000 0x5000 0x6000 ?sync [] =
      (Ok (), ts', [0, 0x40000000006703])"
    using example_replace by blast
  have "in_range 0x1000 4096 0x1008" by (simp add: in_range_def)
  then show ?thesis
    using replace_data_page_break_before_make [OF inv R] R by (auto simp: Let_def dest!: spec [of _ "0x1008"])
qed

end
