(* ===== verification/Atomic_Prog.thy ===== *)
theory Atomic_Prog
  imports Tvisor_Prelude
begin

text \<open>
  Programs over shared atomics. A program is a tree of single atomic accesses, each a
  function of the shared state; \<open>run\<close> executes it alone, \<open>istep\<close> interleaves any
  number of threads one access at a time (a sequentially consistent memory). The
  proof rules are rely/guarantee: \<open>safe\<close> checks a program once against what other
  threads may do, and the locale \<open>shared_protocol\<close> turns it into an invariant of every
  interleaving.
\<close>

section \<open>Programs\<close>

datatype (dead 's, 'a) prog = Ret 'a | Atom "'s \<Rightarrow> 's \<times> ('s, 'a) prog"

primrec run :: "('s, 'a) prog \<Rightarrow> 's \<Rightarrow> 'a \<times> 's" where
  "run (Ret a) = (\<lambda>s. (a, s))"
| "run (Atom f) = (\<lambda>s. case (map_prod id run \<circ> f) s of (s', r) \<Rightarrow> r s')"

primrec pbind :: "('s, 'a) prog \<Rightarrow> ('a \<Rightarrow> ('s, 'b) prog) \<Rightarrow> ('s, 'b) prog" where
  "pbind (Ret a) = (\<lambda>k. k a)"
| "pbind (Atom f) = (\<lambda>k. Atom (\<lambda>s. map_prod id (\<lambda>b. b k) ((map_prod id pbind \<circ> f) s)))"

lemma run_Atom [simp]: "run (Atom f) s = run (snd (f s)) (fst (f s))"
  by (cases "f s") simp

lemma pbind_Atom [simp]: "pbind (Atom f) k = Atom (\<lambda>s. (fst (f s), pbind (snd (f s)) k))"
  by (simp add: fun_eq_iff map_prod_def split: prod.splits)

declare run.simps(2) [simp del] pbind.simps(2) [simp del]

lemma run_pbind: "run (pbind p k) s = (case run p s of (a, s') \<Rightarrow> run (k a) s')"
proof (induction p arbitrary: s)
  case (Atom f)
  have "snd (f s) \<in> Basic_BNFs.snds (f s)" by (cases "f s") simp
  then show ?case using Atom.IH [of "f s" "snd (f s)" "fst (f s)"] by simp
qed simp

text \<open>The accesses: a load, a read-modify-write with a result, a store and a compare-exchange.\<close>

definition aload :: "('s \<Rightarrow> 'a) \<Rightarrow> ('s, 'a) prog" where
  "aload get = Atom (\<lambda>s. (s, Ret (get s)))"

definition armw :: "('s \<Rightarrow> 's \<times> 'a) \<Rightarrow> ('s, 'a) prog" where
  "armw f = Atom (\<lambda>s. (fst (f s), Ret (snd (f s))))"

definition astore :: "('s \<Rightarrow> 's) \<Rightarrow> ('s, unit) prog" where
  "astore f = Atom (\<lambda>s. (f s, Ret ()))"

definition acas :: "('s \<Rightarrow> 'v) \<Rightarrow> ('v \<Rightarrow> 's \<Rightarrow> 's) \<Rightarrow> 'v \<Rightarrow> 'v \<Rightarrow> ('s, bool) prog" where
  "acas get put old new = armw (\<lambda>s. if get s = old then (put new s, True) else (s, False))"

text \<open>The \<open>?\<close> operator on programs that return a result.\<close>

definition pthen ::
  "('s, ('a, 'e) outcome) prog \<Rightarrow> ('a \<Rightarrow> ('s, ('b, 'e) outcome) prog) \<Rightarrow> ('s, ('b, 'e) outcome) prog" where
  "pthen p k = pbind p (\<lambda>r. case r of Ok x \<Rightarrow> k x | Err e \<Rightarrow> Ret (Err e) | Panic \<Rightarrow> Ret Panic)"

lemmas prog_defs = aload_def armw_def astore_def acas_def pthen_def

text \<open>The end of a compare-exchange whose failure is an error.\<close>

definition cas_or :: "'e \<Rightarrow> bool \<Rightarrow> ('s, (unit, 'e) outcome) prog" where
  "cas_or e won = Ret (if won then Ok () else Err e)"

section \<open>Interleavings\<close>

text \<open>
  A configuration is the shared state and the program every thread is in; a finished
  thread may enter any program \<open>api\<close> allows it.
\<close>

inductive istep ::
  "('i \<Rightarrow> ('s, unit) prog \<Rightarrow> bool) \<Rightarrow> 's \<times> ('i \<Rightarrow> ('s, unit) prog) \<Rightarrow> 's \<times> ('i \<Rightarrow> ('s, unit) prog) \<Rightarrow> bool"
  for api where
  istep_call: "pool i = Ret () \<Longrightarrow> api i p \<Longrightarrow> istep api (s, pool) (s, pool(i := p))"
| istep_atom: "pool i = Atom f \<Longrightarrow> istep api (s, pool) (fst (f s), pool(i := snd (f s)))"

definition discard :: "('s, 'a) prog \<Rightarrow> ('s, unit) prog" where
  "discard p = pbind p (\<lambda>_. Ret ())"

text \<open>A call that runs to its end without interruption is one of the interleavings.\<close>

lemma run_isteps_aux: "(istep api)\<^sup>*\<^sup>* (s, pool(i := p)) (snd (run p s), pool(i := Ret ()))"
proof (induction p arbitrary: s)
  case (Ret u)
  then show ?case by simp
next
  case (Atom f)
  have "snd (f s) \<in> Basic_BNFs.snds (f s)" by (cases "f s") simp
  then have ih: "(istep api)\<^sup>*\<^sup>* (fst (f s), pool(i := snd (f s))) (snd (run (snd (f s)) (fst (f s))), pool(i := Ret ()))"
    by (intro Atom.IH [of "f s"]) simp_all
  have "istep api (s, pool(i := Atom f)) (fst (f s), pool(i := snd (f s)))"
    using istep_atom [of "pool(i := Atom f)" i f api s] by simp
  then show ?case unfolding run_Atom using ih by (rule converse_rtranclp_into_rtranclp)
qed

lemma run_isteps:
  assumes "api i p" and "pool i = Ret ()"
  shows "(istep api)\<^sup>*\<^sup>* (s, pool) (snd (run p s), pool)"
proof -
  have "istep api (s, pool) (s, pool(i := p))" using assms by (intro istep_call) auto
  moreover have "pool(i := Ret ()) = pool" using assms(2) by auto
  ultimately show ?thesis
    using run_isteps_aux [of api s pool i p] by (simp add: converse_rtranclp_into_rtranclp)
qed

lemma run_discard [simp]: "run (discard p) s = ((), snd (run p s))"
  by (simp add: discard_def run_pbind split: prod.splits)

section \<open>Rely and guarantee\<close>

definition stable_under :: "('s \<Rightarrow> bool) \<Rightarrow> ('s \<Rightarrow> 's \<Rightarrow> bool) \<Rightarrow> ('s \<Rightarrow> bool) \<Rightarrow> bool" where
  "stable_under I R P \<longleftrightarrow> (\<forall>s s'. I s \<longrightarrow> P s \<longrightarrow> R s s' \<longrightarrow> P s')"

lemma stable_under_True [simp]: "stable_under I R (\<lambda>_. True)"
  by (simp add: stable_under_def)

lemma stable_under_const [simp]: "stable_under I R (\<lambda>_. b)"
  by (simp add: stable_under_def)

lemma stable_under_conj [simp, intro]:
  "stable_under I R P \<Longrightarrow> stable_under I R Q \<Longrightarrow> stable_under I R (\<lambda>s. P s \<and> Q s)"
  by (auto simp: stable_under_def)

inductive safe ::
  "('s \<Rightarrow> bool) \<Rightarrow> ('s \<Rightarrow> 's \<Rightarrow> bool) \<Rightarrow> ('s \<Rightarrow> 's \<Rightarrow> bool) \<Rightarrow> ('s \<Rightarrow> bool) \<Rightarrow> ('s, 'a) prog \<Rightarrow>
   ('a \<Rightarrow> 's \<Rightarrow> bool) \<Rightarrow> bool" for I R G where
  safe_Ret: "(\<And>s. I s \<Longrightarrow> P s \<Longrightarrow> post a s) \<Longrightarrow> safe I R G P (Ret a) post"
| safe_Atom: "(\<And>s. I s \<Longrightarrow> P s \<Longrightarrow>
      G s (fst (f s)) \<and>
      (\<exists>Q. stable_under I R Q \<and> Q (fst (f s)) \<and> safe I R G Q (snd (f s)) post)) \<Longrightarrow>
    safe I R G P (Atom f) post"

inductive_cases safe_AtomE: "safe I R G P (Atom f) post"
inductive_cases safe_RetE: "safe I R G P (Ret a) post"

lemma safe_weaken:
  assumes "safe I R G Q p post" and "\<And>s. I s \<Longrightarrow> P s \<Longrightarrow> Q s"
  shows "safe I R G P p post"
  using assms
proof (cases rule: safe.cases)
  case (safe_Ret a)
  then show ?thesis using assms(2) by (auto intro: safe.safe_Ret)
next
  case (safe_Atom f)
  then show ?thesis using assms(2) by (auto intro: safe.safe_Atom)
qed

lemma safe_if:
  "(b \<Longrightarrow> safe I R G P p post) \<Longrightarrow> (\<not> b \<Longrightarrow> safe I R G P q post) \<Longrightarrow> safe I R G P (if b then p else q) post"
  by simp

lemma safe_post:
  "safe I R G P p post \<Longrightarrow> (\<And>a s. I s \<Longrightarrow> post a s \<Longrightarrow> post' a s) \<Longrightarrow> safe I R G P p post'"
proof (induction rule: safe.induct)
  case (safe_Ret P post a)
  then show ?case by (auto intro: safe.safe_Ret)
next
  case (safe_Atom P f post)
  show ?case
  proof (rule safe.safe_Atom)
    fix s assume "I s" "P s"
    then show "G s (fst (f s)) \<and> (\<exists>Q. stable_under I R Q \<and> Q (fst (f s)) \<and> safe I R G Q (snd (f s)) post')"
      using safe_Atom by blast
  qed
qed

lemma safe_pbind:
  "safe I R G P p mid \<Longrightarrow> (\<And>a. safe I R G (mid a) (k a) post) \<Longrightarrow> safe I R G P (pbind p k) post"
proof (induction rule: safe.induct)
  case (safe_Ret P mid a)
  show ?case by (simp, rule safe_weaken [OF safe_Ret(2)]) (rule safe_Ret(1))
next
  case (safe_Atom P f mid)
  show ?case unfolding pbind_Atom
  proof (rule safe.safe_Atom)
    fix s assume "I s" "P s"
    then show "G s (fst (fst (f s), pbind (snd (f s)) k)) \<and>
        (\<exists>Q. stable_under I R Q \<and> Q (fst (fst (f s), pbind (snd (f s)) k)) \<and>
             safe I R G Q (snd (fst (f s), pbind (snd (f s)) k)) post)"
      using safe_Atom(1) [of s] safe_Atom(2) unfolding fst_conv snd_conv by blast
  qed
qed

lemma safe_pthen:
  assumes "safe I R G P p mid" and "\<And>x. safe I R G (mid (Ok x)) (k x) post"
    and "\<And>e s. I s \<Longrightarrow> mid (Err e) s \<Longrightarrow> post (Err e) s" and "\<And>s. I s \<Longrightarrow> mid Panic s \<Longrightarrow> post Panic s"
  shows "safe I R G P (pthen p k) post"
  unfolding pthen_def
proof (rule safe_pbind [OF assms(1)])
  fix r show "safe I R G (mid r) (case r of Ok x \<Rightarrow> k x | Err e \<Rightarrow> Ret (Err e) | Panic \<Rightarrow> Ret Panic) post"
    using assms(2-4) by (cases r) (auto intro: safe_Ret)
qed

lemma safe_False [simp]: "safe I R G (\<lambda>_. False) p post"
  by (cases p) (auto intro: safe_Ret safe_Atom)

lemma safe_pure: "(b \<Longrightarrow> safe I R G P p post) \<Longrightarrow> safe I R G (\<lambda>s. b \<and> P s) p post"
  by (cases b) simp_all

lemma safe_ex:
  assumes "\<And>q. safe I R G (P q) p post"
  shows "safe I R G (\<lambda>s. \<exists>q. P q s) p post"
proof (cases p)
  case (Ret a)
  have "post a s" if "I s" "P q s" for q s
    using assms [of q] that unfolding Ret by (auto elim: safe_RetE)
  then show ?thesis unfolding Ret by (auto intro: safe_Ret)
next
  case (Atom f)
  have "G s (fst (f s)) \<and> (\<exists>Q. stable_under I R Q \<and> Q (fst (f s)) \<and> safe I R G Q (snd (f s)) post)" if "I s" "P q s" for q s
    using safe_AtomE [OF assms [of q, unfolded Atom]] that by metis
  then show ?thesis unfolding Atom by (intro safe_Atom) auto
qed

lemma safe_discard: "safe I R G P p post \<Longrightarrow> safe I R G P (discard p) (\<lambda>_ _. True)"
  unfolding discard_def by (rule safe_pbind) (auto intro: safe.safe_Ret)

text \<open>The rule of one access: its guarantee and what is known, stably, afterwards.\<close>

lemma safe_armw:
  assumes "\<And>s. I s \<Longrightarrow> P s \<Longrightarrow> G s (fst (f s))"
    and "\<And>s. I s \<Longrightarrow> P s \<Longrightarrow> I (fst (f s)) \<Longrightarrow> post (snd (f s)) (fst (f s))"
    and "\<And>a. stable_under I R (post a)" and "\<And>s s'. I s \<Longrightarrow> G s s' \<Longrightarrow> I s'"
  shows "safe I R G P (armw f) post"
  unfolding armw_def
proof (rule safe_Atom)
  fix s assume s: "I s" "P s"
  have "I (fst (f s))" using assms(4) [OF s(1)] assms(1) [OF s] by blast
  then have "post (snd (f s)) (fst (f s))" using assms(2) [OF s] by blast
  then show "G s (fst (fst (f s), Ret (snd (f s)))) \<and>
      (\<exists>Q. stable_under I R Q \<and> Q (fst (fst (f s), Ret (snd (f s)))) \<and>
           safe I R G Q (snd (fst (f s), Ret (snd (f s)))) post)"
    using assms(1) [OF s] assms(3) [of "snd (f s)"]
    by (auto intro!: exI [of _ "post (snd (f s))"] safe_Ret)
qed

lemma aload_armw: "aload get = armw (\<lambda>s. (s, get s))"
  by (simp add: aload_def armw_def)

lemma astore_armw: "astore f = armw (\<lambda>s. (f s, ()))"
  by (simp add: astore_def armw_def)

lemma safe_aload:
  assumes "\<And>s. I s \<Longrightarrow> G s s" and "\<And>s. I s \<Longrightarrow> P s \<Longrightarrow> post (get s) s"
    and "\<And>a. stable_under I R (post a)"
  shows "safe I R G P (aload get) post"
  unfolding aload_def
proof (rule safe_Atom)
  fix s assume s: "I s" "P s"
  then show "G s (fst (s, Ret (get s))) \<and>
      (\<exists>Q. stable_under I R Q \<and> Q (fst (s, Ret (get s))) \<and> safe I R G Q (snd (s, Ret (get s))) post)"
    using assms by (auto intro!: exI [of _ "post (get s)"] safe_Ret)
qed

lemma stable_under_imp [simp, intro]:
  "(b \<Longrightarrow> stable_under I R P) \<Longrightarrow> stable_under I R (\<lambda>s. b \<longrightarrow> P s)"
  by (cases b) simp_all

lemma safe_done [simp]: "safe I R G P (Ret a) (\<lambda>_ _. True)"
  by (rule safe_Ret) simp

text \<open>
  One call among others: \<open>exec R p s a t\<close> runs \<open>p\<close> from \<open>s\<close> to its result \<open>a\<close> in state
  \<open>t\<close>, with any number of steps of the environment \<open>R\<close> before every access.
\<close>

inductive exec :: "('s \<Rightarrow> 's \<Rightarrow> bool) \<Rightarrow> ('s, 'a) prog \<Rightarrow> 's \<Rightarrow> 'a \<Rightarrow> 's \<Rightarrow> bool" for R where
  exec_Ret: "exec R (Ret a) s a s"
| exec_env: "R s s' \<Longrightarrow> exec R (Atom f) s' a t \<Longrightarrow> exec R (Atom f) s a t"
| exec_Atom: "exec R (snd (f s)) (fst (f s)) a t \<Longrightarrow> exec R (Atom f) s a t"

text \<open>A program that only reads, with at most \<open>n\<close> accesses on any path.\<close>

inductive reads :: "nat \<Rightarrow> ('s, 'a) prog \<Rightarrow> bool" where
  reads_Ret: "reads n (Ret a)"
| reads_Atom: "(\<And>s. fst (f s) = s \<and> reads n (snd (f s))) \<Longrightarrow> reads (Suc n) (Atom f)"

inductive_simps reads_Ret_simp [simp]: "reads n (Ret a)"
inductive_cases reads_AtomE: "reads n (Atom f)"

lemma reads_aload [simp]: "reads (Suc n) (aload get)"
  unfolding aload_def by (rule reads_Atom) simp

lemma reads_mono: "reads n p \<Longrightarrow> n \<le> m \<Longrightarrow> reads m p"
proof (induction arbitrary: m rule: reads.induct)
  case (reads_Atom f n)
  then show ?case by (cases m) (auto intro: reads.reads_Atom)
qed (rule reads_Ret)

lemma reads_pbind: "reads n p \<Longrightarrow> (\<And>a. reads m (k a)) \<Longrightarrow> reads (n + m) (pbind p k)"
proof (induction rule: reads.induct)
  case (reads_Ret n a)
  then show ?case using reads_mono [of m "k a" "n + m"] by simp
next
  case (reads_Atom f n)
  then show ?case by (auto intro!: reads.reads_Atom)
qed

lemma reads_safe:
  assumes "reads n p" and "\<And>s. I s \<Longrightarrow> G s s"
  shows "safe I R G P p (\<lambda>_ _. True)"
  using assms(1)
proof (induction arbitrary: P rule: reads.induct)
  case (reads_Atom f n)
  then show ?case using assms(2) by (intro safe_Atom) (metis stable_under_True)
qed (auto intro: safe_Ret)

lemma reads_run: "reads n p \<Longrightarrow> snd (run p s) = s"
  by (induction arbitrary: s rule: reads.induct) auto

lemma safe_exec:
  assumes "exec R p s a t" and "safe I R G P p post" and "stable_under I R P" and "I s" and "P s"
    and R: "\<And>s s'. I s \<Longrightarrow> R s s' \<Longrightarrow> I s'" and G: "\<And>s s'. I s \<Longrightarrow> G s s' \<Longrightarrow> I s'"
  shows "post a t \<and> I t"
  using assms(1-5)
proof (induction arbitrary: P rule: exec.induct)
  case (exec_Ret a s)
  then show ?case by (auto elim: safe_RetE)
next
  case (exec_env s s' f a t)
  have "I s'" "P s'" using exec_env.prems exec_env.hyps R by (auto simp: stable_under_def)
  then show ?case using exec_env.IH exec_env.prems by blast
next
  case (exec_Atom f s a t)
  obtain Q where "G s (fst (f s))" "stable_under I R Q" "Q (fst (f s))" "safe I R G Q (snd (f s)) post"
    using safe_AtomE [OF exec_Atom.prems(1)] exec_Atom.prems by metis
  then show ?case using exec_Atom.IH exec_Atom.prems(3) G by blast
qed

lemma exec_run: "exec R p s (fst (run p s)) (snd (run p s))"
proof (induction p arbitrary: s)
  case (Atom f)
  have "snd (f s) \<in> Basic_BNFs.snds (f s)" by (cases "f s") simp
  then have "exec R (snd (f s)) (fst (f s)) (fst (run (snd (f s)) (fst (f s)))) (snd (run (snd (f s)) (fst (f s))))"
    by (intro Atom.IH [of "f s"]) simp_all
  then show ?case unfolding run_Atom by (rule exec_Atom)
qed (simp add: exec_Ret)

locale shared_protocol =
  fixes inv :: "'s \<Rightarrow> bool"
    and guar :: "'i \<Rightarrow> 's \<Rightarrow> 's \<Rightarrow> bool"
    and api :: "'i \<Rightarrow> ('s, unit) prog \<Rightarrow> bool"
  assumes guar_inv: "inv s \<Longrightarrow> guar i s s' \<Longrightarrow> inv s'"
    and api_safe: "api i p \<Longrightarrow>
      safe inv (\<lambda>s s'. \<exists>j. j \<noteq> i \<and> guar j s s') (guar i) (\<lambda>_. True) p (\<lambda>_ _. True)"
begin

definition rely :: "'i \<Rightarrow> 's \<Rightarrow> 's \<Rightarrow> bool" where
  "rely i s s' \<longleftrightarrow> (\<exists>j. j \<noteq> i \<and> guar j s s')"

definition conf_ok :: "'s \<times> ('i \<Rightarrow> ('s, unit) prog) \<Rightarrow> bool" where
  "conf_ok c \<longleftrightarrow> inv (fst c) \<and>
     (\<forall>i. \<exists>P. stable_under inv (rely i) P \<and> P (fst c) \<and> safe inv (rely i) (guar i) P (snd c i) (\<lambda>_ _. True))"

lemma istep_ok:
  assumes "istep api c c'" and ok: "conf_ok c"
  shows "conf_ok c' \<and> (fst c' = fst c \<or> (\<exists>i. guar i (fst c) (fst c')))"
  using assms(1)
proof cases
  case (istep_call pool i p s)
  have "safe inv (rely i) (guar i) (\<lambda>_. True) p (\<lambda>_ _. True)"
    using api_safe [OF istep_call(4)] unfolding rely_def .
  then have "\<exists>P. stable_under inv (rely j) P \<and> P s \<and> safe inv (rely j) (guar j) P ((pool(i := p)) j) (\<lambda>_ _. True)" for j
    using ok istep_call by (cases "j = i") (auto simp: conf_ok_def intro!: exI [of _ "\<lambda>_. True"])
  then show ?thesis using ok istep_call by (simp add: conf_ok_def)
next
  case (istep_atom pool i f s)
  have inv: "inv s" using ok istep_atom by (simp add: conf_ok_def)
  obtain P where P: "P s" "safe inv (rely i) (guar i) P (Atom f) (\<lambda>_ _. True)"
    using ok istep_atom unfolding conf_ok_def by (metis fst_conv snd_conv)
  obtain Q where g: "guar i s (fst (f s))" and Q: "stable_under inv (rely i) Q" "Q (fst (f s))"
      "safe inv (rely i) (guar i) Q (snd (f s)) (\<lambda>_ _. True)"
    using safe_AtomE [OF P(2)] inv P(1) by metis
  have "\<exists>P. stable_under inv (rely j) P \<and> P (fst (f s)) \<and>
      safe inv (rely j) (guar j) P ((pool(i := snd (f s))) j) (\<lambda>_ _. True)" for j
  proof (cases "j = i")
    case False
    obtain P' where P': "stable_under inv (rely j) P'" "P' s" "safe inv (rely j) (guar j) P' (pool j) (\<lambda>_ _. True)"
      using ok istep_atom unfolding conf_ok_def by (metis fst_conv snd_conv)
    have "rely j s (fst (f s))" using g False by (auto simp: rely_def)
    then have "P' (fst (f s))" using P'(1,2) inv by (auto simp: stable_under_def)
    then show ?thesis using P' False by auto
  qed (use Q in auto)
  then show ?thesis using guar_inv [OF inv g] g istep_atom by (auto simp: conf_ok_def)
qed

lemma isteps_ok: "(istep api)\<^sup>*\<^sup>* c c' \<Longrightarrow> conf_ok c \<Longrightarrow> conf_ok c'"
  by (induction rule: rtranclp_induct) (use istep_ok in blast)+

lemma start_ok: "inv s \<Longrightarrow> (\<And>i. pool i = Ret ()) \<Longrightarrow> conf_ok (s, pool)"
  unfolding conf_ok_def by (auto intro!: exI [of _ "\<lambda>_. True"] safe_Ret)

lemma exec_ok:
  assumes "exec (\<lambda>s s'. \<exists>j. j \<noteq> i \<and> guar j s s') p s a t" and "inv s" and "P s"
    and "safe inv (\<lambda>s s'. \<exists>j. j \<noteq> i \<and> guar j s s') (guar i) P p post"
    and "stable_under inv (\<lambda>s s'. \<exists>j. j \<noteq> i \<and> guar j s s') P"
  shows "post a t \<and> inv t"
  using safe_exec [OF assms(1,4,5,2,3)] guar_inv by blast

lemma reachable_inv:
  "inv s \<Longrightarrow> (\<And>i. pool i = Ret ()) \<Longrightarrow> (istep api)\<^sup>*\<^sup>* (s, pool) (s', pool') \<Longrightarrow> inv s'"
  using isteps_ok [OF _ start_ok, of s pool "(s', pool')"] by (auto simp: conf_ok_def)

text \<open>A property the guarantees keep is kept along every interleaving.\<close>

lemma isteps_stable:
  assumes "(istep api)\<^sup>*\<^sup>* c c'" and "conf_ok c" and "P (fst c)"
    and "\<And>i s s'. inv s \<Longrightarrow> P s \<Longrightarrow> guar i s s' \<Longrightarrow> P s'"
  shows "P (fst c')"
  using assms(1,2,3)
proof (induction rule: rtranclp_induct)
  case (step c1 c2)
  have ok: "conf_ok c1" using isteps_ok [OF step(1)] step by blast
  then have "inv (fst c1)" by (simp add: conf_ok_def)
  then show ?case using istep_ok [OF step(2) ok] step assms(4) [of "fst c1" _ "fst c2"] by auto
qed simp

end

end
