(* ===== verification/El2_Policy.thy ===== *)
theory El2_Policy
  imports Atomic_Prog
begin

text \<open>
  The host EL2 policy (\<open>tvisor_util/el2_policy.rs\<close>): the control-register constants,
  \<open>HostTranslation::new\<close>, and the publish-once configuration storage shared by all
  CPUs, whose writer stores the fields one by one while other CPUs may run.
\<close>

section \<open>Register values\<close>

definition TCR_EL2_RES1 :: u64 where "TCR_EL2_RES1 = push_bit 31 1 OR push_bit 23 1"
definition TCR_EL2_T0SZ_FOR_VA_39_BIT :: u64 where "TCR_EL2_T0SZ_FOR_VA_39_BIT = 64 - 39"
definition TCR_EL2_IRGN0_MEM_WB_RA_WA :: u64 where "TCR_EL2_IRGN0_MEM_WB_RA_WA = push_bit 8 1"
definition TCR_EL2_ORGN0_MEM_WB_RA_WA :: u64 where "TCR_EL2_ORGN0_MEM_WB_RA_WA = push_bit 10 1"
definition TCR_EL2_SH0_INNER_SHAREABLE :: u64 where "TCR_EL2_SH0_INNER_SHAREABLE = push_bit 12 3"
definition MAIR_NORMAL_WB_WA :: u64 where "MAIR_NORMAL_WB_WA = 0xff"
definition MAIR_DEVICE_NGNRE :: u64 where "MAIR_DEVICE_NGNRE = 0x04"
definition MAIR_EL2_VALUE :: u64 where
  "MAIR_EL2_VALUE = push_bit (0 * 8) MAIR_NORMAL_WB_WA OR push_bit (1 * 8) MAIR_DEVICE_NGNRE"

definition HCR_RW :: u64 where "HCR_RW = push_bit 31 1"
definition HCR_IMO :: u64 where "HCR_IMO = push_bit 4 1"
definition HCR_VM :: u64 where "HCR_VM = 1"
definition HCR_SWIO :: u64 where "HCR_SWIO = push_bit 1 1"
definition HCR_TSC :: u64 where "HCR_TSC = push_bit 19 1"
definition HOST_HCR :: u64 where "HOST_HCR = HCR_RW OR HCR_IMO"
definition GUEST_HCR_ADDITIONS :: u64 where "GUEST_HCR_ADDITIONS = HCR_VM OR HCR_SWIO OR HCR_TSC"
definition GUEST_HCR :: u64 where "GUEST_HCR = HOST_HCR OR GUEST_HCR_ADDITIONS"
definition CPTR_RES1 :: u64 where "CPTR_RES1 = push_bit 12 3 OR 0x3ff"
definition HOST_CPTR :: u64 where "HOST_CPTR = CPTR_RES1"
definition HOST_HSTR :: u64 where "HOST_HSTR = 0"
definition HOST_VTTBR :: u64 where "HOST_VTTBR = 0"
definition HOST_CNTVOFF :: u64 where "HOST_CNTVOFF = 0"
definition HOST_CNTHCTL :: u64 where "HOST_CNTHCTL = 3"
definition DISABLED_TIMER_CTL :: u64 where "DISABLED_TIMER_CTL = 0"
definition SCTLR_RES1 :: u64 where
  "SCTLR_RES1 = push_bit 28 3 OR push_bit 22 3 OR push_bit 18 1 OR push_bit 16 1 OR push_bit 11 1 OR push_bit 4 3"
definition HOST_SCTLR :: u64 where
  "HOST_SCTLR = SCTLR_RES1 OR push_bit 0 1 OR push_bit 2 1 OR push_bit 3 1 OR push_bit 12 1 OR push_bit 19 1"
definition HOST_MAIR :: u64 where "HOST_MAIR = MAIR_EL2_VALUE"
definition MASKED_DAIF :: u64 where "MASKED_DAIF = 0x3c0"

lemmas tcr_defs = TCR_EL2_RES1_def TCR_EL2_T0SZ_FOR_VA_39_BIT_def TCR_EL2_IRGN0_MEM_WB_RA_WA_def
  TCR_EL2_ORGN0_MEM_WB_RA_WA_def TCR_EL2_SH0_INNER_SHAREABLE_def

lemmas host_consts = HCR_RW_def HCR_IMO_def HCR_VM_def HCR_SWIO_def HCR_TSC_def HOST_HCR_def
  GUEST_HCR_ADDITIONS_def GUEST_HCR_def CPTR_RES1_def HOST_CPTR_def

section \<open>Translation policy\<close>

datatype policy_error = UnsupportedPaRange | InvalidRoot

record host_translation =
  ht_root :: u64
  ht_tcr :: u64

definition ht_new :: "u64 \<Rightarrow> u8 \<Rightarrow> (host_translation, policy_error) outcome" where
  "ht_new root pa_range =
     (if 5 < pa_range then Err UnsupportedPaRange
      else case array_get [32, 36, 40, 42, 44, 48] (unat pa_range) of
             None \<Rightarrow> Panic
           | Some bits \<Rightarrow>
               if root = 0 \<or> root AND 4095 \<noteq> 0 \<or> drop_bit bits root \<noteq> 0 then Err InvalidRoot
               else Ok \<lparr>ht_root = root,
                        ht_tcr = TCR_EL2_RES1 OR TCR_EL2_T0SZ_FOR_VA_39_BIT OR TCR_EL2_IRGN0_MEM_WB_RA_WA
                          OR TCR_EL2_ORGN0_MEM_WB_RA_WA OR TCR_EL2_SH0_INNER_SHAREABLE
                          OR push_bit 16 (ucast pa_range)\<rparr>)"

definition ht_mair :: "host_translation \<Rightarrow> u64" where "ht_mair p = HOST_MAIR"
definition ht_sctlr :: "host_translation \<Rightarrow> u64" where "ht_sctlr p = HOST_SCTLR"

text \<open>The range field of a control value, as the readers of a published configuration extract it.\<close>

definition tcr_pa_range :: "u64 \<Rightarrow> u8" where
  "tcr_pa_range tcr = ucast (drop_bit 16 tcr AND 7)"

definition pa_range_bits :: "u8 \<Rightarrow> nat" where
  "pa_range_bits pa_range = [32, 36, 40, 42, 44, 48] ! unat pa_range"

lemma le5_cases: "pa_range \<le> (5::u8) \<Longrightarrow> pa_range \<in> {0, 1, 2, 3, 4, 5}"
proof -
  assume "pa_range \<le> 5"
  then have "unat pa_range \<le> 5" by (simp add: word_le_nat_alt)
  then show ?thesis by (auto simp: word_unat_eq_iff)
qed

lemma tcr_value:
  "TCR_EL2_RES1 OR TCR_EL2_T0SZ_FOR_VA_39_BIT OR TCR_EL2_IRGN0_MEM_WB_RA_WA
     OR TCR_EL2_ORGN0_MEM_WB_RA_WA OR TCR_EL2_SH0_INNER_SHAREABLE OR x = 0x80803519 OR x"
  by (simp add: tcr_defs or.assoc [symmetric])

lemma ht_new_Ok:
  "ht_new root pa_range = Ok p \<longleftrightarrow>
     pa_range \<le> 5 \<and> root \<noteq> 0 \<and> 4096 dvd unat root \<and> unat root < 2 ^ pa_range_bits pa_range \<and>
     p = \<lparr>ht_root = root, ht_tcr = 0x80803519 OR push_bit 16 (ucast pa_range)\<rparr>"
proof (cases "pa_range \<le> 5")
  case True
  have "unat pa_range < 6" using True by (simp add: word_le_nat_alt)
  then have a: "array_get [32, 36, 40, 42, 44, 48] (unat pa_range) = Some (pa_range_bits pa_range)"
    by (simp add: array_get_def pa_range_bits_def)
  have "drop_bit b root = 0 \<longleftrightarrow> unat root < 2 ^ b" for b
  proof -
    have "unat (drop_bit b root) = unat root div 2 ^ b" 
      unfolding unat_drop_bit_eq by (simp add: drop_bit_eq_div)
    then show ?thesis by (metis div_eq_0_iff power_not_zero unat_eq_zero zero_neq_numeral)
  qed
  then show ?thesis
    using True a by (auto simp: ht_new_def tcr_value and_4095_eq_0_iff not_less)
qed (auto simp: ht_new_def not_le)

lemma tcr_pa_range_eq:
  assumes "ht_new root pa_range = Ok p"
  shows "tcr_pa_range (ht_tcr p) = pa_range"
  using assms le5_cases [of pa_range] by (auto simp: ht_new_Ok tcr_pa_range_def)


section \<open>Publish-once configuration\<close>

record host_config =
  cfg_mair :: u64
  cfg_tcr :: u64
  cfg_root :: u64
  cfg_sctlr :: u64

text \<open>
  \<open>hs_winner\<close> is auxiliary: it remembers which CPU claimed the storage. No program
  reads it.
\<close>

record host_storage =
  hs_config :: host_config
  hs_claimed :: bool
  hs_ready :: bool
  hs_winner :: "nat option"

definition hs_new :: host_storage where
  "hs_new = \<lparr>hs_config = \<lparr>cfg_mair = 0, cfg_tcr = 0, cfg_root = 0, cfg_sctlr = 0\<rparr>,
     hs_claimed = False, hs_ready = False, hs_winner = None\<rparr>"

definition config_of :: "host_translation \<Rightarrow> host_config" where
  "config_of p = \<lparr>cfg_mair = ht_mair p, cfg_tcr = ht_tcr p, cfg_root = ht_root p, cfg_sctlr = ht_sctlr p\<rparr>"

datatype publish_error = HostConfigAlreadyPublished

definition hs_claim :: "nat \<Rightarrow> (host_storage, bool) prog" where
  "hs_claim cpu = armw (\<lambda>s. (if hs_claimed s then s
     else s\<lparr>hs_claimed := True, hs_winner := Some cpu\<rparr>, hs_claimed s))"

definition hs_write :: "(host_config \<Rightarrow> host_config) \<Rightarrow> (host_storage, unit) prog" where
  "hs_write f = astore (\<lambda>s. s\<lparr>hs_config := f (hs_config s)\<rparr>)"

definition hs_publish :: "nat \<Rightarrow> host_translation \<Rightarrow> (host_storage, (unit, publish_error) outcome) prog" where
  "hs_publish cpu policy =
     pbind (hs_claim cpu) (\<lambda>claimed.
       if claimed then Ret (Err HostConfigAlreadyPublished)
       else pbind (hs_write (cfg_mair_update (\<lambda>_. ht_mair policy))) (\<lambda>_.
            pbind (hs_write (cfg_tcr_update (\<lambda>_. ht_tcr policy))) (\<lambda>_.
            pbind (hs_write (cfg_root_update (\<lambda>_. ht_root policy))) (\<lambda>_.
            pbind (hs_write (cfg_sctlr_update (\<lambda>_. ht_sctlr policy))) (\<lambda>_.
            pbind (astore (hs_ready_update (\<lambda>_. True))) (\<lambda>_. Ret (Ok ())))))))"

text \<open>\<open>get\<close> and the use of the reference it returns: the fields are read afterwards, one by one.\<close>

definition hs_get :: "(host_storage, host_config option) prog" where
  "hs_get =
     pbind (aload hs_ready) (\<lambda>ready.
       if \<not> ready then Ret None
       else pbind (aload (cfg_mair \<circ> hs_config)) (\<lambda>m.
            pbind (aload (cfg_tcr \<circ> hs_config)) (\<lambda>t.
            pbind (aload (cfg_root \<circ> hs_config)) (\<lambda>r.
            pbind (aload (cfg_sctlr \<circ> hs_config)) (\<lambda>c.
              Ret (Some \<lparr>cfg_mair = m, cfg_tcr = t, cfg_root = r, cfg_sctlr = c\<rparr>))))))"

definition hs_inv :: "host_storage \<Rightarrow> bool" where
  "hs_inv s \<longleftrightarrow> (hs_claimed s \<longleftrightarrow> hs_winner s \<noteq> None) \<and>
     (hs_ready s \<longrightarrow> hs_claimed s \<and> (\<exists>p. hs_config s = config_of p))"

text \<open>What a CPU may do to the storage: nothing, claim it, or fill it in while it is the winner.\<close>

definition hs_guar :: "nat \<Rightarrow> host_storage \<Rightarrow> host_storage \<Rightarrow> bool" where
  "hs_guar cpu s s' \<longleftrightarrow>
     s' = s \<or>
     \<not> hs_claimed s \<and> \<not> hs_ready s \<and> s' = s\<lparr>hs_claimed := True, hs_winner := Some cpu\<rparr> \<or>
     hs_winner s = Some cpu \<and> \<not> hs_ready s \<and> hs_winner s' = hs_winner s \<and> hs_claimed s' = hs_claimed s \<and>
       (hs_ready s' \<longrightarrow> (\<exists>p. hs_config s' = config_of p))"

definition hs_api :: "nat \<Rightarrow> (host_storage, unit) prog \<Rightarrow> bool" where
  "hs_api cpu prog \<longleftrightarrow> (\<exists>p. prog = discard (hs_publish cpu p)) \<or> prog = discard hs_get"

lemma hs_guar_inv: "hs_inv s \<Longrightarrow> hs_guar cpu s s' \<Longrightarrow> hs_inv s'"
  by (auto simp: hs_inv_def hs_guar_def)

abbreviation hs_rely :: "nat \<Rightarrow> host_storage \<Rightarrow> host_storage \<Rightarrow> bool" where
  "hs_rely cpu \<equiv> (\<lambda>s s'. \<exists>j. j \<noteq> cpu \<and> hs_guar j s s')"

abbreviation hs_safe ::
  "nat \<Rightarrow> (host_storage \<Rightarrow> bool) \<Rightarrow> (host_storage, 'a) prog \<Rightarrow> ('a \<Rightarrow> host_storage \<Rightarrow> bool) \<Rightarrow> bool" where
  "hs_safe cpu \<equiv> safe hs_inv (hs_rely cpu) (hs_guar cpu)"

lemma hs_guar_refl [simp]: "hs_guar cpu s s"
  by (simp add: hs_guar_def)

text \<open>A thread that won may rely on what it wrote; a reader that saw \<open>ready\<close> on everything.\<close>

definition hs_mine :: "nat \<Rightarrow> (host_config \<Rightarrow> bool) \<Rightarrow> host_storage \<Rightarrow> bool" where
  "hs_mine cpu Q s \<longleftrightarrow> hs_winner s = Some cpu \<and> \<not> hs_ready s \<and> Q (hs_config s)"

lemma hs_mine_stable [simp]: "stable_under hs_inv (hs_rely cpu) (hs_mine cpu Q)"
  by (auto simp: stable_under_def hs_mine_def hs_guar_def hs_inv_def)

definition hs_seen :: "(host_config \<Rightarrow> bool) \<Rightarrow> host_storage \<Rightarrow> bool" where
  "hs_seen Q s \<longleftrightarrow> hs_ready s \<and> Q (hs_config s)"

lemma hs_seen_stable [simp]: "stable_under hs_inv (hs_rely cpu) (hs_seen Q)"
  by (auto simp: stable_under_def hs_seen_def hs_guar_def hs_inv_def)

lemma hs_seen_guar: "hs_inv s \<Longrightarrow> hs_seen Q s \<Longrightarrow> hs_guar cpu s s' \<Longrightarrow> hs_seen Q s'"
  by (auto simp: hs_seen_def hs_guar_def hs_inv_def)

lemma hs_armw:
  assumes "\<And>s. hs_inv s \<Longrightarrow> P s \<Longrightarrow> hs_guar cpu s (fst (f s))"
    and "\<And>s. hs_inv s \<Longrightarrow> P s \<Longrightarrow> post (snd (f s)) (fst (f s))"
    and "\<And>a. stable_under hs_inv (hs_rely cpu) (post a)"
  shows "safe hs_inv (hs_rely cpu) (hs_guar cpu) P (armw f) post"
  using assms by (intro safe_armw) (auto intro: hs_guar_inv)

lemma hs_write_safe:
  assumes "\<And>c. Q c \<Longrightarrow> Q' (f c)"
  shows "safe hs_inv (hs_rely cpu) (hs_guar cpu) (hs_mine cpu Q) (hs_write f) (\<lambda>_. hs_mine cpu Q')"
  unfolding hs_write_def astore_armw
proof (rule hs_armw)
  fix s assume "hs_mine cpu Q s"
  then show "hs_guar cpu s (fst (s\<lparr>hs_config := f (hs_config s)\<rparr>, ()))"
    and "hs_mine cpu Q' (fst (s\<lparr>hs_config := f (hs_config s)\<rparr>, ()))"
    using assms by (auto simp: hs_mine_def hs_guar_def)
qed simp

lemma hs_claim_safe:
  "safe hs_inv (hs_rely cpu) (hs_guar cpu) (\<lambda>_. True) (hs_claim cpu)
     (\<lambda>claimed s. \<not> claimed \<longrightarrow> hs_mine cpu (\<lambda>_. True) s)"
  unfolding hs_claim_def
proof (rule hs_armw)
  show "stable_under hs_inv (hs_rely cpu) (\<lambda>s. \<not> a \<longrightarrow> hs_mine cpu (\<lambda>_. True) s)" for a
    by (cases a) simp_all
qed (auto simp: hs_guar_def hs_mine_def hs_inv_def)

lemma hs_set_ready_safe:
  "safe hs_inv (hs_rely cpu) (hs_guar cpu) (hs_mine cpu (\<lambda>c. c = config_of p))
     (astore (hs_ready_update (\<lambda>_. True))) (\<lambda>_ _. True)"
  unfolding astore_armw by (rule hs_armw) (auto simp: hs_mine_def hs_guar_def)

lemma hs_publish_safe:
  "safe hs_inv (hs_rely cpu) (hs_guar cpu) (\<lambda>_. True) (hs_publish cpu p) (\<lambda>_ _. True)"
proof -
  let ?safe = "safe hs_inv (hs_rely cpu) (hs_guar cpu)"
  let ?m = "\<lambda>c. cfg_mair c = ht_mair p" and ?t = "\<lambda>c. cfg_mair c = ht_mair p \<and> cfg_tcr c = ht_tcr p"
    and ?r = "\<lambda>c. cfg_mair c = ht_mair p \<and> cfg_tcr c = ht_tcr p \<and> cfg_root c = ht_root p"
  have fin: "?safe P (Ret x) (\<lambda>_ _. True)" for P and x :: "(unit, publish_error) outcome"
    by (rule safe_Ret) simp
  have w1: "?safe (hs_mine cpu (\<lambda>_. True)) (hs_write (cfg_mair_update (\<lambda>_. ht_mair p))) (\<lambda>_. hs_mine cpu ?m)"
    by (rule hs_write_safe) simp
  have w2: "?safe (hs_mine cpu ?m) (hs_write (cfg_tcr_update (\<lambda>_. ht_tcr p))) (\<lambda>_. hs_mine cpu ?t)"
    by (rule hs_write_safe) simp
  have w3: "?safe (hs_mine cpu ?t) (hs_write (cfg_root_update (\<lambda>_. ht_root p))) (\<lambda>_. hs_mine cpu ?r)"
    by (rule hs_write_safe) simp
  have w4: "?safe (hs_mine cpu ?r) (hs_write (cfg_sctlr_update (\<lambda>_. ht_sctlr p)))
      (\<lambda>_. hs_mine cpu (\<lambda>c. c = config_of p))"
    by (rule hs_write_safe) (simp add: config_of_def)
  note body = safe_pbind [OF w1 safe_pbind [OF w2 safe_pbind [OF w3 safe_pbind [OF w4
    safe_pbind [OF hs_set_ready_safe fin]]]]]
  show ?thesis
    unfolding hs_publish_def
  proof (rule safe_pbind [OF hs_claim_safe])
    fix claimed
    show "?safe (\<lambda>s. \<not> claimed \<longrightarrow> hs_mine cpu (\<lambda>_. True) s)
      (if claimed then Ret (Err HostConfigAlreadyPublished)
       else pbind (hs_write (cfg_mair_update (\<lambda>_. ht_mair p))) (\<lambda>_.
            pbind (hs_write (cfg_tcr_update (\<lambda>_. ht_tcr p))) (\<lambda>_.
            pbind (hs_write (cfg_root_update (\<lambda>_. ht_root p))) (\<lambda>_.
            pbind (hs_write (cfg_sctlr_update (\<lambda>_. ht_sctlr p))) (\<lambda>_.
            pbind (astore (hs_ready_update (\<lambda>_. True))) (\<lambda>_. Ret (Ok ()))))))) (\<lambda>_ _. True)"
      using fin body by (cases claimed) simp_all
  qed
qed

lemma hs_read_safe:
  "hs_safe cpu (hs_seen Q) (aload (get \<circ> hs_config)) (\<lambda>v. hs_seen (\<lambda>c. Q c \<and> get c = v))"
proof (rule safe_aload)
  show "hs_seen Q s \<Longrightarrow> hs_seen (\<lambda>c. Q c \<and> get c = (get \<circ> hs_config) s) s" for s
    by (simp add: hs_seen_def)
qed simp_all

lemma hs_ready_safe:
  "hs_safe cpu (\<lambda>_. True) (aload hs_ready) (\<lambda>r s. r \<longrightarrow> hs_seen (\<lambda>_. True) s)"
proof (rule safe_aload)
  show "hs_ready s \<longrightarrow> hs_seen (\<lambda>_. True) s" for s by (simp add: hs_seen_def)
qed simp_all

lemma hs_get_safe:
  "hs_safe cpu (\<lambda>_. True) hs_get (\<lambda>r s. \<forall>c. r = Some c \<longrightarrow> hs_ready s \<and> hs_config s = c)"
proof -
  let ?post = "\<lambda>r s. \<forall>c. r = Some c \<longrightarrow> hs_ready s \<and> hs_config s = c"
  have fin: "hs_safe cpu (hs_seen (\<lambda>c. (((True \<and> cfg_mair c = m) \<and> cfg_tcr c = t) \<and> cfg_root c = r) \<and> cfg_sctlr c = k))
      (Ret (Some \<lparr>cfg_mair = m, cfg_tcr = t, cfg_root = r, cfg_sctlr = k\<rparr>)) ?post" for m t r k
    by (rule safe_Ret) (auto simp: hs_seen_def)
  note body = safe_pbind [OF hs_read_safe safe_pbind [OF hs_read_safe safe_pbind [OF hs_read_safe
    safe_pbind [OF hs_read_safe fin]]]]
  show ?thesis
    unfolding hs_get_def
  proof (rule safe_pbind [OF hs_ready_safe])
    fix ready
    have "hs_safe cpu (\<lambda>s. ready \<longrightarrow> hs_seen (\<lambda>_. True) s) (Ret None) ?post" by (rule safe_Ret) simp
    then show "hs_safe cpu (\<lambda>s. ready \<longrightarrow> hs_seen (\<lambda>_. True) s)
       (if \<not> ready then Ret None
        else pbind (aload (cfg_mair \<circ> hs_config)) (\<lambda>m.
             pbind (aload (cfg_tcr \<circ> hs_config)) (\<lambda>t.
             pbind (aload (cfg_root \<circ> hs_config)) (\<lambda>r.
             pbind (aload (cfg_sctlr \<circ> hs_config)) (\<lambda>c.
               Ret (Some \<lparr>cfg_mair = m, cfg_tcr = t, cfg_root = r, cfg_sctlr = c\<rparr>)))))) ?post"
      using body by (cases ready) simp_all
  qed
qed

lemma hs_api_safe:
  "hs_api cpu p \<Longrightarrow> safe hs_inv (hs_rely cpu) (hs_guar cpu) (\<lambda>_. True) p (\<lambda>_ _. True)"
  by (auto simp: hs_api_def intro: safe_discard [OF hs_publish_safe] safe_discard [OF hs_get_safe])

interpretation hs: shared_protocol hs_inv hs_guar hs_api
  by unfold_locales (auto intro: hs_guar_inv hs_api_safe)

section \<open>Correctness\<close>

text \<open>
  C28: \<open>HostTranslation::new\<close> accepts exactly a non-zero page-aligned root below the
  supported physical range, and the control value it builds carries that range in the
  field from which the published configuration is later re-validated.
\<close>

theorem ht_new_correct:
  "ht_new root pa_range =
     (if 5 < pa_range then Err UnsupportedPaRange
      else if root = 0 \<or> 0 < unat root mod 4096 \<or> 2 ^ pa_range_bits pa_range \<le> unat root then Err InvalidRoot
      else Ok \<lparr>ht_root = root, ht_tcr = 0x80803519 OR push_bit 16 (ucast pa_range)\<rparr>) \<and>
   (case ht_new root pa_range of Ok p \<Rightarrow> tcr_pa_range (ht_tcr p) = pa_range | _ \<Rightarrow> True)"
proof -
  have m: "(0 < unat root mod 4096) = (\<not> 4096 dvd unat root)" by (simp add: dvd_eq_mod_eq_0)
  have "ht_new root pa_range = Err InvalidRoot"
    if "\<not> 5 < pa_range" "root = 0 \<or> \<not> 4096 dvd unat root \<or> 2 ^ pa_range_bits pa_range \<le> unat root"
  proof -
    have "\<nexists>p. ht_new root pa_range = Ok p" using that by (auto simp: ht_new_Ok)
    moreover have "unat pa_range < 6" using that(1) by (simp add: word_less_nat_alt)
    ultimately show ?thesis
      using that(1) by (auto simp: ht_new_def array_get_def split: if_splits)
  qed
  moreover have "ht_new root pa_range = Err UnsupportedPaRange" if "5 < pa_range"
    using that by (simp add: ht_new_def)
  ultimately show ?thesis
    unfolding m using ht_new_Ok [of root pa_range] tcr_pa_range_eq [of root pa_range]
    by (auto simp: not_less split: outcome.splits)
qed

text \<open>
  C27: publication of the shared EL2 configuration is atomic and final. Whatever CPUs
  publish and read it, interleaved access by access, once it is ready it is the
  complete configuration of one policy, and it is ready with the same contents in
  every later state; a \<open>get\<close> that runs there returns exactly these contents.
\<close>

theorem host_config_published_once:
  assumes "(istep hs_api)\<^sup>*\<^sup>* (hs_new, \<lambda>_. Ret ()) (s, pool)" and "hs_ready s"
    and "(istep hs_api)\<^sup>*\<^sup>* (s, pool) (s', pool')"
  shows "(\<exists>p. hs_config s = config_of p) \<and> hs_ready s' \<and> hs_config s' = hs_config s \<and>
         run hs_get s' = (Some (hs_config s), s')"
proof -
  have inv0: "hs_inv hs_new" by (simp add: hs_inv_def hs_new_def)
  have ok: "hs.conf_ok (s, pool)" by (rule hs.isteps_ok [OF assms(1) hs.start_ok [OF inv0]]) simp
  have "\<exists>p. hs_config s = config_of p"
    using hs.reachable_inv [OF inv0 refl assms(1)] assms(2) by (simp add: hs_inv_def)
  moreover have "hs_seen (\<lambda>c. c = hs_config s) (fst (s, pool))" using assms(2) by (simp add: hs_seen_def)
  then have r: "hs_seen (\<lambda>c. c = hs_config s) s'"
    using hs.isteps_stable [OF assms(3) ok, of "hs_seen (\<lambda>c. c = hs_config s)"] hs_seen_guar by simp
  moreover have "run hs_get s' = (Some (hs_config s'), s')"
    using r by (simp add: hs_get_def run_pbind aload_def hs_seen_def)
  ultimately show ?thesis by (simp add: hs_seen_def)
qed


theorem host_config_published_once_witness:
  "\<exists>s. (istep hs_api)\<^sup>*\<^sup>* (hs_new, \<lambda>_. Ret ()) (s, \<lambda>_. Ret ()) \<and>
     run hs_get s = (Some (config_of \<lparr>ht_root = 0x81000, ht_tcr = 0x80843519\<rparr>), s)"
proof -
  let ?p = "\<lparr>ht_root = 0x81000, ht_tcr = 0x80843519\<rparr>"
  let ?s = "snd (run (hs_publish 0 ?p) hs_new)"
  have "(istep hs_api)\<^sup>*\<^sup>* (hs_new, \<lambda>_. Ret ()) (snd (run (discard (hs_publish 0 ?p)) hs_new), \<lambda>_. Ret ())"
    by (rule run_isteps [where i = 0]) (auto simp: hs_api_def)
  then have r: "(istep hs_api)\<^sup>*\<^sup>* (hs_new, \<lambda>_. Ret ()) (?s, \<lambda>_. Ret ())" by simp
  have "hs_ready ?s" and c: "hs_config ?s = config_of ?p"
    by (simp_all add: hs_publish_def hs_claim_def hs_write_def prog_defs run_pbind hs_new_def config_of_def)
  from host_config_published_once [OF r this(1) rtranclp.rtrancl_refl] have "run hs_get ?s = (Some (hs_config ?s), ?s)" by blast
  then show ?thesis using r c by metis
qed

end
