(* ===== verification/Guest_Stage2.thy ===== *)
theory Guest_Stage2
  imports El2_Stage1 El2_Policy
begin

text \<open>
  The guest stage-2 descriptor encoding and register values
  (\<open>tvisor_util/guest_stage2_translation.rs\<close>). The reference decoder \<open>s2_decode\<close> reads a
  page descriptor by its architectural fields; the encoder is shown to be its inverse.
\<close>

definition S2_ADDRESS_MASK :: u64 where "S2_ADDRESS_MASK = 0x0000fffffffff000"
definition S2_VALID :: u64 where "S2_VALID = 1"
definition S2_TABLE_OR_PAGE :: u64 where "S2_TABLE_OR_PAGE = push_bit 1 1"
definition MEM_ATTR_NORMAL_WB_WA :: u64 where "MEM_ATTR_NORMAL_WB_WA = push_bit 2 0xf"
definition MEM_ATTR_DEVICE_NGNRE :: u64 where "MEM_ATTR_DEVICE_NGNRE = push_bit 2 1"
definition S2AP_NONE :: u64 where "S2AP_NONE = push_bit 6 0"
definition S2AP_READ_ONLY :: u64 where "S2AP_READ_ONLY = push_bit 6 1"
definition S2AP_WRITE_ONLY :: u64 where "S2AP_WRITE_ONLY = push_bit 6 2"
definition S2AP_READ_WRITE :: u64 where "S2AP_READ_WRITE = push_bit 6 3"
definition S2_SH_NONE :: u64 where "S2_SH_NONE = push_bit 8 0"
definition S2_SH_INNER :: u64 where "S2_SH_INNER = push_bit 8 3"
definition S2_ACCESS_FLAG :: u64 where "S2_ACCESS_FLAG = push_bit 10 1"
definition XN_EXEC :: u64 where "XN_EXEC = push_bit 53 0"
definition XN_NON_EXEC :: u64 where "XN_NON_EXEC = push_bit 53 2"
definition VTCR_EL2_T0SZ_39_BIT :: u64 where "VTCR_EL2_T0SZ_39_BIT = 25"
definition VTCR_EL2_SL0_LEVEL_1 :: u64 where "VTCR_EL2_SL0_LEVEL_1 = push_bit 6 1"
definition VTCR_EL2_IRGN0_NORMAL_WB_WA :: u64 where "VTCR_EL2_IRGN0_NORMAL_WB_WA = push_bit 8 1"
definition VTCR_EL2_ORGN0_NORMAL_WB_WA :: u64 where "VTCR_EL2_ORGN0_NORMAL_WB_WA = push_bit 10 1"
definition VTCR_EL2_SH0_INNER :: u64 where "VTCR_EL2_SH0_INNER = push_bit 12 3"
definition VTCR_EL2_TG0_4KB :: u64 where "VTCR_EL2_TG0_4KB = push_bit 14 0"
definition VTCR_EL2_RES1 :: u64 where "VTCR_EL2_RES1 = push_bit 31 1"
definition HCR_EL2_STAGE2_VALUE :: u64 where "HCR_EL2_STAGE2_VALUE = GUEST_HCR"
definition CPTR_EL2_STAGE2_VALUE :: u64 where "CPTR_EL2_STAGE2_VALUE = HOST_CPTR"
definition VMPIDR_EL2_VCPU0 :: u64 where "VMPIDR_EL2_VCPU0 = push_bit 31 1 OR push_bit 30 1"

lemmas s2_consts = S2_ADDRESS_MASK_def S2_VALID_def S2_TABLE_OR_PAGE_def MEM_ATTR_NORMAL_WB_WA_def
  MEM_ATTR_DEVICE_NGNRE_def S2AP_NONE_def S2AP_READ_ONLY_def S2AP_WRITE_ONLY_def S2AP_READ_WRITE_def
  S2_SH_NONE_def S2_SH_INNER_def S2_ACCESS_FLAG_def XN_EXEC_def XN_NON_EXEC_def

lemmas vtcr_consts = VTCR_EL2_T0SZ_39_BIT_def VTCR_EL2_SL0_LEVEL_1_def VTCR_EL2_IRGN0_NORMAL_WB_WA_def
  VTCR_EL2_ORGN0_NORMAL_WB_WA_def VTCR_EL2_SH0_INNER_def VTCR_EL2_TG0_4KB_def VTCR_EL2_RES1_def

datatype s2_memory_type = NormalWbWa | DeviceNgNre
datatype s2_access = AccessNone | ReadOnly | WriteOnly | ReadWrite
datatype s2_exec = Executable | ExecuteNever

record s2_register_values =
  vtcr_el2 :: u64
  vttbr_el2 :: u64
  hcr_el2 :: u64
  cptr_el2 :: u64
  vmpidr_el2 :: u64

definition encode_l3_page_descriptor ::
  "u64 \<Rightarrow> s2_memory_type \<Rightarrow> s2_access \<Rightarrow> s2_exec \<Rightarrow> u64" where
  "encode_l3_page_descriptor pa mem_type access execution =
     (let mem_attr = (case mem_type of NormalWbWa \<Rightarrow> MEM_ATTR_NORMAL_WB_WA | DeviceNgNre \<Rightarrow> MEM_ATTR_DEVICE_NGNRE);
          s2ap = (case access of AccessNone \<Rightarrow> S2AP_NONE | ReadOnly \<Rightarrow> S2AP_READ_ONLY
                  | WriteOnly \<Rightarrow> S2AP_WRITE_ONLY | ReadWrite \<Rightarrow> S2AP_READ_WRITE);
          sh = (case mem_type of NormalWbWa \<Rightarrow> S2_SH_INNER | DeviceNgNre \<Rightarrow> S2_SH_NONE);
          xn = (case execution of Executable \<Rightarrow> XN_EXEC | ExecuteNever \<Rightarrow> XN_NON_EXEC)
      in S2_VALID OR S2_TABLE_OR_PAGE OR mem_attr OR s2ap OR sh OR S2_ACCESS_FLAG OR xn OR
         (pa AND S2_ADDRESS_MASK))"

definition guest_stage2_register_values ::
  "u8 \<Rightarrow> u64 \<Rightarrow> u8 \<Rightarrow> (s2_register_values, translation_error) outcome" where
  "guest_stage2_register_values vm_id root_table_pa pa_range =
     and_then (pa_bits_from_pa_range pa_range) (\<lambda>pa_bits.
       let max_root_pa = push_bit pa_bits 1 - 1 in
       if \<not> is_page_aligned root_table_pa \<or> max_root_pa < root_table_pa then Err InvalidTableBase
       else let ps_field = push_bit 16 (ucast (pa_range AND 7)) in
            Ok \<lparr>vtcr_el2 = VTCR_EL2_RES1 OR VTCR_EL2_TG0_4KB OR VTCR_EL2_SH0_INNER
                  OR VTCR_EL2_ORGN0_NORMAL_WB_WA OR VTCR_EL2_IRGN0_NORMAL_WB_WA OR VTCR_EL2_SL0_LEVEL_1
                  OR ps_field OR VTCR_EL2_T0SZ_39_BIT,
                vttbr_el2 = push_bit 48 (ucast vm_id) OR (root_table_pa AND S2_ADDRESS_MASK),
                hcr_el2 = HCR_EL2_STAGE2_VALUE, cptr_el2 = CPTR_EL2_STAGE2_VALUE,
                vmpidr_el2 = VMPIDR_EL2_VCPU0\<rparr>)"

section \<open>A reference decoder\<close>

text \<open>The fields of a stage-2 level-3 page descriptor: type, MemAttr, S2AP, XN and output address.\<close>

definition s2_decode :: "u64 \<Rightarrow> (u64 \<times> s2_memory_type \<times> s2_access \<times> s2_exec) option" where
  "s2_decode d =
     (if d AND 3 \<noteq> 3 \<or> d AND 0x400 = 0 then None
      else let ap = d AND 0xc0; attr = d AND 0x3c in
        if attr \<noteq> 0x3c \<and> attr \<noteq> 4 then None
        else Some (d AND 0x0000fffffffff000, if attr = 0x3c then NormalWbWa else DeviceNgNre,
          if ap = 0 then AccessNone else if ap = 0x40 then ReadOnly else if ap = 0x80 then WriteOnly else ReadWrite,
          if d AND 0x40000000000000 = 0 then Executable else ExecuteNever))"

text \<open>
  C29: decoding an encoded page descriptor by its architectural fields gives back the
  page address, memory type, access and execution permission it was built from, and
  nothing outside the 48-bit page address leaks into the descriptor.
\<close>

theorem s2_encode_decode:
  "s2_decode (encode_l3_page_descriptor pa t a x) = Some (pa AND S2_ADDRESS_MASK, t, a, x)"
  by (cases t; cases a; cases x)
    (simp_all add: s2_decode_def encode_l3_page_descriptor_def Let_def s2_consts bit.conj_disj_distrib2
      and.assoc or.assoc)

lemma pa_bits_from_pa_range_eq:
  "pa_bits_from_pa_range pa_range = (if pa_range \<le> 5 then Ok (pa_range_bits pa_range) else Err InvalidPaBits)"
  using le5_cases [of pa_range] by (auto simp: pa_bits_from_pa_range_def pa_range_bits_def)

lemma pa_range_bits_bound: "pa_range \<le> 5 \<Longrightarrow> pa_range_bits pa_range \<le> 48"
  using le5_cases [of pa_range] by (auto simp: pa_range_bits_def)

lemma below_pa_limit:
  assumes "bits \<le> 48"
  shows "push_bit bits 1 - 1 < (root::u64) \<longleftrightarrow> 2 ^ bits \<le> unat root"
proof -
  have "(2::nat) ^ bits < 2 ^ 64" using assms by (intro power_strict_increasing) auto
  then have n: "unat (push_bit bits (1::u64)) = 2 ^ bits"
    by (simp add: push_bit_eq_mult unat_word_of_nat_u64 [of "2 ^ bits", simplified])
  then have "unat (push_bit bits (1::u64) - 1) = 2 ^ bits - 1"
    by (metis unat_1 unat_sub one_le_numeral one_le_power word_le_nat_alt)
  moreover have "0 < (2::nat) ^ bits" by simp
  ultimately show ?thesis unfolding word_less_nat_alt by linarith
qed

lemma page_address_fixed:
  assumes "4096 dvd unat (root::u64)" and "unat root < 2 ^ 48"
  shows "root AND S2_ADDRESS_MASK = root"
proof -
  have "root AND S2_ADDRESS_MASK = (root AND mask 48) AND NOT (mask 12)"
    by (simp add: S2_ADDRESS_MASK_def mask_eq_exp_minus_1 and.assoc)
  moreover have "root AND mask 48 = root" using assms(2) by (simp add: word_unat_eq_iff)
  moreover have "root AND mask 12 = 0" using assms(1) by (simp add: and_mask_eq_0_iff)
  ultimately show ?thesis by (simp add: and_not_mask_eq)
qed

lemma vttbr_fields:
  assumes "4096 dvd unat (root::u64)" and "unat root < 2 ^ 48"
    and v_def: "v = push_bit 48 (ucast (vm::u8)) OR (root AND S2_ADDRESS_MASK)"
  shows "drop_bit 48 v = ucast vm" and "v AND S2_ADDRESS_MASK = root"
proof -
  have v: "v = push_bit 48 (ucast vm) OR root"
    unfolding v_def page_address_fixed [OF assms(1,2)] ..
  have "root AND mask 48 = root" using assms(2) by (simp add: word_unat_eq_iff)
  then have high: "\<not> bit root (48 + i)" for i by (metis bit_and_iff bit_mask_iff not_add_less1)
  show "drop_bit 48 v = ucast vm"
    unfolding v
    by (rule bit_word_eqI)
      (auto simp: high bit_drop_bit_eq bit_or_iff bit_push_bit_iff bit_ucast_iff dest: bit_imp_le_length)
  have "push_bit 48 x AND S2_ADDRESS_MASK = (0::u64)" for x
  proof -
    have m: "S2_ADDRESS_MASK = mask 48 AND NOT (mask 12)"
      by (simp add: S2_ADDRESS_MASK_def mask_eq_exp_minus_1)
    show ?thesis unfolding m by (rule bit_word_eqI) (simp add: bit_and_iff bit_push_bit_iff bit_mask_iff)
  qed
  then show "v AND S2_ADDRESS_MASK = root"
    unfolding v bit.conj_disj_distrib2 page_address_fixed [OF assms(1,2)] by simp
qed

lemma vtcr_range_field:
  assumes "pa_range \<le> (5::u8)"
    and "w = (VTCR_EL2_RES1 OR VTCR_EL2_TG0_4KB OR VTCR_EL2_SH0_INNER OR VTCR_EL2_ORGN0_NORMAL_WB_WA
     OR VTCR_EL2_IRGN0_NORMAL_WB_WA OR VTCR_EL2_SL0_LEVEL_1 OR push_bit 16 (ucast (pa_range AND 7))
     OR VTCR_EL2_T0SZ_39_BIT)"
  shows "drop_bit 16 w AND 7 = (ucast pa_range :: u64)"
  using le5_cases [OF assms(1)] assms(2) by (auto simp: vtcr_consts)

lemma stage2_hcr: "HCR_EL2_STAGE2_VALUE AND HCR_VM = HCR_VM" "HCR_EL2_STAGE2_VALUE AND HOST_HCR = HOST_HCR"
  by (simp_all add: HCR_EL2_STAGE2_VALUE_def host_consts)

text \<open>
  C30: the stage-2 register values are rejected exactly for an unsupported physical
  range or a root table that is misaligned or out of that range; otherwise VTTBR holds
  the VM identifier in its top 16 bits and the root table below them, VTCR carries the
  range field, and HCR has stage 2 on together with every host control bit.
\<close>

theorem guest_stage2_registers_correct:
  "case guest_stage2_register_values vm root pa_range of
     Ok v \<Rightarrow> pa_range \<le> 5 \<and> 4096 dvd unat root \<and> unat root < 2 ^ pa_range_bits pa_range \<and>
        drop_bit 48 (vttbr_el2 v) = ucast vm \<and> vttbr_el2 v AND S2_ADDRESS_MASK = root \<and>
        drop_bit 16 (vtcr_el2 v) AND 7 = ucast pa_range \<and>
        hcr_el2 v AND HCR_VM = HCR_VM \<and> hcr_el2 v AND HOST_HCR = HOST_HCR
   | Err e \<Rightarrow> (5 < pa_range \<and> e = InvalidPaBits) \<or>
        (pa_range \<le> 5 \<and> e = InvalidTableBase \<and>
         (0 < unat root mod 4096 \<or> 2 ^ pa_range_bits pa_range \<le> unat root))
   | Panic \<Rightarrow> False"
proof -
  have m: "(0 < unat root mod 4096) = (\<not> 4096 dvd unat root)" by (simp add: dvd_eq_mod_eq_0)
  consider "\<not> pa_range \<le> 5" | "pa_range \<le> 5" "\<not> 4096 dvd unat root \<or> 2 ^ pa_range_bits pa_range \<le> unat root"
    | "pa_range \<le> 5" "4096 dvd unat root" "unat root < 2 ^ pa_range_bits pa_range" by fastforce
  then show ?thesis
  proof cases
    case 1
    then show ?thesis by (simp add: guest_stage2_register_values_def pa_bits_from_pa_range_eq)
  next
    case 2
    then have "guest_stage2_register_values vm root pa_range = Err InvalidTableBase"
      unfolding guest_stage2_register_values_def pa_bits_from_pa_range_eq Let_def
      by (simp only: if_True and_then.simps below_pa_limit pa_range_bits_bound is_page_aligned_iff)
    with 2 m show ?thesis by simp
  next
    case 3
    then have ok: "\<not> push_bit (pa_range_bits pa_range) 1 - 1 < root"
      unfolding below_pa_limit [OF pa_range_bits_bound [OF 3(1)]] by simp
    obtain v where v: "guest_stage2_register_values vm root pa_range = Ok v"
      "vttbr_el2 v = push_bit 48 (ucast vm) OR (root AND S2_ADDRESS_MASK)"
      "vtcr_el2 v = VTCR_EL2_RES1 OR VTCR_EL2_TG0_4KB OR VTCR_EL2_SH0_INNER OR VTCR_EL2_ORGN0_NORMAL_WB_WA
         OR VTCR_EL2_IRGN0_NORMAL_WB_WA OR VTCR_EL2_SL0_LEVEL_1 OR push_bit 16 (ucast (pa_range AND 7))
         OR VTCR_EL2_T0SZ_39_BIT" "hcr_el2 v = HCR_EL2_STAGE2_VALUE"
      unfolding guest_stage2_register_values_def pa_bits_from_pa_range_eq Let_def
      using 3 by (simp only: ok if_True if_False and_then.simps is_page_aligned_iff simp_thms) simp
    have "unat root < 2 ^ 48"
      using 3 by (meson order_less_le_trans pa_range_bits_bound power_increasing one_le_numeral)
    note vttbr_fields [OF 3(2) this v(2)] vtcr_range_field [OF 3(1) v(3)]
    with 3 v show ?thesis by (simp add: stage2_hcr)
  qed
qed

end
