(* ===== verification/Secondary_Mailbox.thy ===== *)
theory Secondary_Mailbox
  imports Atomic_Prog
begin

text \<open>
  The mailbox of a secondary CPU (\<open>tvisor_util/secondary_mailbox.rs\<close>): its publication
  token, lifecycle state and entry claim, as programs over three atomics. The
  rely/guarantee proof fixes which lifecycle edges exist and who may take them, for any
  number of CPUs calling the operations at the same time.
\<close>

datatype protocol_error = InvalidGeneration | InvalidTransition | DuplicateEntry
datatype cpu_state = Offline | Prepared | Starting | Parked | Online | Failed
datatype wait_error = WTimeout | WCpuFailed | WPollLimit | WInvalidDeadline | WInvalidGeneration

text \<open>\<open>mb_winner\<close> is auxiliary (which CPU holds the entry claim); no program reads it.\<close>

record mailbox =
  mb_ready :: u64
  mb_state :: u64
  mb_claimed :: bool
  mb_winner :: "nat option"

primrec state_code :: "cpu_state \<Rightarrow> u64" where
  "state_code Offline = 0"
| "state_code Prepared = 1"
| "state_code Starting = 2"
| "state_code Parked = 3"
| "state_code Online = 4"
| "state_code Failed = 5"

definition mb_new :: mailbox where
  "mb_new = \<lparr>mb_ready = 0, mb_state = state_code Offline, mb_claimed = False, mb_winner = None\<rparr>"

definition decode_state :: "u64 \<Rightarrow> (cpu_state, 'e) outcome" where
  "decode_state w = (if w = 0 then Ok Offline else if w = 1 then Ok Prepared else if w = 2 then Ok Starting
     else if w = 3 then Ok Parked else if w = 4 then Ok Online else if w = 5 then Ok Failed else Panic)"

definition lifecycle :: "(mailbox, (cpu_state, 'e) outcome) prog" where
  "lifecycle = aload (\<lambda>s. decode_state (mb_state s))"

definition state_cas :: "cpu_state \<Rightarrow> cpu_state \<Rightarrow> (mailbox, bool) prog" where
  "state_cas from to = acas mb_state (\<lambda>v. mb_state_update (\<lambda>_. v)) (state_code from) (state_code to)"

definition mark_prepared :: "(mailbox, (unit, protocol_error) outcome) prog" where
  "mark_prepared = pbind (state_cas Offline Prepared) (cas_or InvalidTransition)"

definition mb_publish :: "u64 \<Rightarrow> (mailbox, (unit, protocol_error) outcome) prog" where
  "mb_publish generation =
     (if generation = 0 then Ret (Err InvalidGeneration)
      else pthen lifecycle (\<lambda>st.
        if st \<noteq> Prepared then Ret (Err InvalidTransition)
        else pbind (acas mb_ready (\<lambda>v. mb_ready_update (\<lambda>_. v)) 0 generation) (cas_or InvalidTransition)))"

definition observe_ready :: "u64 \<Rightarrow> (mailbox, bool) prog" where
  "observe_ready generation =
     (if generation = 0 then Ret False else aload (\<lambda>s. mb_ready s = generation))"

definition mb_check :: "u64 \<Rightarrow> (mailbox, (unit, protocol_error) outcome) prog" where
  "mb_check generation = pbind (observe_ready generation) (\<lambda>b. Ret (if b then Ok () else Err InvalidGeneration))"

definition mb_lifecycle_of :: "u64 \<Rightarrow> (mailbox, (cpu_state, protocol_error) outcome) prog" where
  "mb_lifecycle_of generation = pthen (mb_check generation) (\<lambda>_. lifecycle)"

definition transition :: "u64 \<Rightarrow> cpu_state \<Rightarrow> cpu_state \<Rightarrow> (mailbox, (unit, protocol_error) outcome) prog" where
  "transition generation from to =
     pthen (mb_check generation) (\<lambda>_. pbind (state_cas from to) (cas_or InvalidTransition))"

definition begin_start :: "u64 \<Rightarrow> (mailbox, (unit, protocol_error) outcome) prog" where
  "begin_start generation = transition generation Prepared Starting"

definition management_online :: "u64 \<Rightarrow> (mailbox, (unit, protocol_error) outcome) prog" where
  "management_online generation = transition generation Parked Online"

definition management_park :: "u64 \<Rightarrow> (mailbox, (unit, protocol_error) outcome) prog" where
  "management_park generation = transition generation Online Parked"

definition management_failed :: "u64 \<Rightarrow> (mailbox, (unit, protocol_error) outcome) prog" where
  "management_failed generation =
     pthen (mb_lifecycle_of generation) (\<lambda>st. case st of
         Parked \<Rightarrow> transition generation Parked Failed
       | Online \<Rightarrow> transition generation Online Failed
       | _ \<Rightarrow> Ret (Err InvalidTransition))"

record entry_claim =
  claim_generation :: u64

definition claim_cas :: "nat \<Rightarrow> (mailbox, bool) prog" where
  "claim_cas cpu = armw (\<lambda>s. if mb_claimed s then (s, False)
     else (s\<lparr>mb_claimed := True, mb_winner := Some cpu\<rparr>, True))"

definition claim_entry :: "nat \<Rightarrow> u64 \<Rightarrow> (mailbox, (entry_claim, protocol_error) outcome) prog" where
  "claim_entry cpu generation =
     pthen (mb_lifecycle_of generation) (\<lambda>st.
       if st \<noteq> Starting then Ret (Err InvalidTransition)
       else pthen (pbind (claim_cas cpu) (cas_or DuplicateEntry)) (\<lambda>_.
         Ret (Ok \<lparr>claim_generation = generation\<rparr>)))"

definition claim_park :: "entry_claim \<Rightarrow> (mailbox, (unit, protocol_error) outcome) prog" where
  "claim_park c = transition (claim_generation c) Starting Parked"

definition claim_fail :: "entry_claim \<Rightarrow> (mailbox, (unit, protocol_error) outcome) prog" where
  "claim_fail c = transition (claim_generation c) Starting Failed"

definition entry_is_claimed :: "u64 \<Rightarrow> (mailbox, (bool, protocol_error) outcome) prog" where
  "entry_is_claimed generation = pthen (mb_check generation) (\<lambda>_. pbind (aload mb_claimed) (\<lambda>b. Ret (Ok b)))"

definition has_parked :: "u64 \<Rightarrow> (mailbox, (bool, protocol_error) outcome) prog" where
  "has_parked generation = pbind (mb_lifecycle_of generation) (\<lambda>r.
     Ret (case r of Panic \<Rightarrow> Panic | _ \<Rightarrow> Ok (r = Ok Parked)))"

text \<open>
  The readiness wait. The \<open>counter\<close> closure is a parameter: \<open>counter k\<close> is what its
  \<open>k\<close>-th call returns.
\<close>

fun wait_loop ::
  "(nat \<Rightarrow> u64) \<Rightarrow> u64 \<Rightarrow> u64 \<Rightarrow> nat \<Rightarrow> nat \<Rightarrow> (mailbox, (unit, wait_error) outcome) prog" where
  "wait_loop counter start ticks 0 k = Ret (Err WPollLimit)"
| "wait_loop counter start ticks (Suc polls) k =
     (if ticks \<le> counter k - start then Ret (Err WTimeout)
      else pthen lifecycle (\<lambda>st. case st of
          Failed \<Rightarrow> Ret (Err WCpuFailed)
        | Parked \<Rightarrow> Ret (if ticks \<le> counter (k + 1) - start then Err WTimeout else Ok ())
        | _ \<Rightarrow> wait_loop counter start ticks polls (k + 1)))"

definition wait_until_parked ::
  "u64 \<Rightarrow> u64 \<Rightarrow> u64 \<Rightarrow> nat \<Rightarrow> (nat \<Rightarrow> u64) \<Rightarrow> (mailbox, (unit, wait_error) outcome) prog" where
  "wait_until_parked generation start ticks max_polls counter =
     pbind (mb_check generation) (\<lambda>r. case r of
         Panic \<Rightarrow> Ret Panic
       | Err _ \<Rightarrow> Ret (Err WInvalidGeneration)
       | Ok _ \<Rightarrow> if ticks = 0 \<or> push_bit 63 1 \<le> ticks then Ret (Err WInvalidDeadline)
                else wait_loop counter start ticks max_polls 0)"

section \<open>The protocol\<close>

text \<open>
  What one CPU may do to the mailbox of \<open>owner\<close>: prepare and publish it, request its
  start, claim the entry, finish the entry it claimed, and, as the owner, move between
  parked, online and failed.
\<close>

definition mb_edge :: "nat \<Rightarrow> nat \<Rightarrow> mailbox \<Rightarrow> cpu_state \<Rightarrow> cpu_state \<Rightarrow> bool" where
  "mb_edge owner cpu s from to \<longleftrightarrow>
     (from = Offline \<and> to = Prepared) \<or>
     (mb_ready s \<noteq> 0 \<and> from = Prepared \<and> to = Starting) \<or>
     (mb_winner s = Some cpu \<and> from = Starting \<and> (to = Parked \<or> to = Failed)) \<or>
     (cpu = owner \<and> (from = Parked \<and> to = Online \<or> from = Online \<and> to = Parked \<or>
        (from = Parked \<or> from = Online) \<and> to = Failed))"

definition mb_guar :: "nat \<Rightarrow> nat \<Rightarrow> mailbox \<Rightarrow> mailbox \<Rightarrow> bool" where
  "mb_guar owner cpu s s' \<longleftrightarrow>
     s' = s \<or>
     (\<exists>from to. mb_edge owner cpu s from to \<and> mb_state s = state_code from \<and>
        s' = s\<lparr>mb_state := state_code to\<rparr>) \<or>
     (\<exists>g. g \<noteq> 0 \<and> mb_ready s = 0 \<and> mb_state s = state_code Prepared \<and> s' = s\<lparr>mb_ready := g\<rparr>) \<or>
     (\<not> mb_claimed s \<and> mb_state s = state_code Starting \<and>
        s' = s\<lparr>mb_claimed := True, mb_winner := Some cpu\<rparr>)"

definition mb_inv :: "mailbox \<Rightarrow> bool" where
  "mb_inv s \<longleftrightarrow> (\<exists>st. mb_state s = state_code st \<and>
     (mb_ready s = 0 \<longrightarrow> st \<in> {Offline, Prepared}) \<and> (st = Offline \<longrightarrow> mb_ready s = 0) \<and>
     (mb_claimed s \<longleftrightarrow> mb_winner s \<noteq> None) \<and> (mb_claimed s \<longrightarrow> st \<notin> {Offline, Prepared}) \<and>
     (st \<in> {Parked, Online, Failed} \<longrightarrow> mb_claimed s))"

datatype claim_use = UsePark | UseFail | UseDrop

text \<open>An entry: the claim and what the winner does with it.\<close>

definition mb_enter :: "nat \<Rightarrow> u64 \<Rightarrow> claim_use \<Rightarrow> (mailbox, (unit, protocol_error) outcome) prog" where
  "mb_enter cpu generation use = pthen (claim_entry cpu generation) (\<lambda>c. case use of
       UsePark \<Rightarrow> claim_park c | UseFail \<Rightarrow> claim_fail c | UseDrop \<Rightarrow> Ret (Ok ()))"

definition mb_api :: "nat \<Rightarrow> nat \<Rightarrow> (mailbox, unit) prog \<Rightarrow> bool" where
  "mb_api owner cpu p \<longleftrightarrow>
     p = discard mark_prepared \<or> (\<exists>g. p = discard (mb_publish g)) \<or> (\<exists>g. p = discard (begin_start g)) \<or>
     (\<exists>g use. p = discard (mb_enter cpu g use)) \<or>
     (\<exists>g. cpu = owner \<and> (p = discard (management_online g) \<or> p = discard (management_park g) \<or>
        p = discard (management_failed g))) \<or>
     (\<exists>g. p = discard (mb_lifecycle_of g) \<or> p = discard (entry_is_claimed g) \<or> p = discard (has_parked g)) \<or>
     (\<exists>g start ticks polls counter. p = discard (wait_until_parked g start ticks polls counter))"

lemma state_code_inj [simp]: "state_code a = state_code b \<longleftrightarrow> a = b"
  by (cases a; cases b) simp_all

lemma decode_state_code [simp]: "decode_state (state_code st) = Ok st"
  by (cases st) (simp_all add: decode_state_def)

declare state_code.simps [simp del]

lemma mb_inv_state: "mb_inv s \<Longrightarrow> \<exists>st. mb_state s = state_code st"
  by (auto simp: mb_inv_def)

lemma mb_guar_inv:
  assumes "mb_inv s" and "mb_guar owner cpu s s'"
  shows "mb_inv s'"
  using assms(2) unfolding mb_guar_def
proof (elim disjE exE conjE)
  fix a b
  assume e: "mb_edge owner cpu s a b" "mb_state s = state_code a" "s' = s\<lparr>mb_state := state_code b\<rparr>"
  show ?thesis using assms(1) e by (auto simp: mb_inv_def mb_edge_def)
next
  fix g assume "g \<noteq> 0" "mb_ready s = 0" "mb_state s = state_code Prepared" "s' = s\<lparr>mb_ready := g\<rparr>"
  then show ?thesis using assms(1) by (auto simp: mb_inv_def)
next
  assume "\<not> mb_claimed s" "mb_state s = state_code Starting" "s' = s\<lparr>mb_claimed := True, mb_winner := Some cpu\<rparr>"
  then show ?thesis using assms(1) by (auto simp: mb_inv_def)
qed (use assms in simp)

lemma mb_guar_refl [simp]: "mb_guar owner cpu s s"
  by (simp add: mb_guar_def)

abbreviation mb_rely :: "nat \<Rightarrow> nat \<Rightarrow> mailbox \<Rightarrow> mailbox \<Rightarrow> bool" where
  "mb_rely owner cpu \<equiv> (\<lambda>s s'. \<exists>j. j \<noteq> cpu \<and> mb_guar owner j s s')"

abbreviation mb_safe ::
  "nat \<Rightarrow> nat \<Rightarrow> (mailbox \<Rightarrow> bool) \<Rightarrow> (mailbox, 'a) prog \<Rightarrow> ('a \<Rightarrow> mailbox \<Rightarrow> bool) \<Rightarrow> bool" where
  "mb_safe owner cpu \<equiv> safe mb_inv (mb_rely owner cpu) (mb_guar owner cpu)"

abbreviation mb_stable :: "nat \<Rightarrow> nat \<Rightarrow> (mailbox \<Rightarrow> bool) \<Rightarrow> bool" where
  "mb_stable owner cpu \<equiv> stable_under mb_inv (mb_rely owner cpu)"

section \<open>Stable knowledge\<close>

definition mb_gen :: "u64 \<Rightarrow> mailbox \<Rightarrow> bool" where
  "mb_gen g s \<longleftrightarrow> g \<noteq> 0 \<and> mb_ready s = g"

definition mb_past :: "cpu_state set \<Rightarrow> mailbox \<Rightarrow> bool" where
  "mb_past S s \<longleftrightarrow> (\<exists>st\<in>S. mb_state s = state_code st)"

definition mb_held :: "nat \<Rightarrow> mailbox \<Rightarrow> bool" where
  "mb_held cpu s \<longleftrightarrow> mb_winner s = Some cpu \<and> mb_state s = state_code Starting"

abbreviation (input) finished :: "cpu_state set" where "finished \<equiv> {Parked, Online, Failed}"

lemma mb_gen_stable [simp]: "mb_stable owner cpu (mb_gen g)"
  by (auto simp: stable_under_def mb_gen_def mb_guar_def)

lemma mb_gen_guar: "mb_gen g s \<Longrightarrow> mb_guar owner cpu s s' \<Longrightarrow> mb_gen g s'"
  by (auto simp: mb_gen_def mb_guar_def)

lemma mb_winner_guar: "mb_inv s \<Longrightarrow> mb_winner s = Some w \<Longrightarrow> mb_guar owner cpu s s' \<Longrightarrow> mb_winner s' = Some w"
  by (auto simp: mb_guar_def mb_inv_def)

lemma mb_finished_guar: "mb_past finished s \<Longrightarrow> mb_guar owner cpu s s' \<Longrightarrow> mb_past finished s'"
  by (auto simp: mb_past_def mb_guar_def mb_edge_def)

lemma mb_failed_guar: "mb_past {Failed} s \<Longrightarrow> mb_guar owner cpu s s' \<Longrightarrow> mb_past {Failed} s'"
  by (auto simp: mb_past_def mb_guar_def mb_edge_def)

lemma mb_finished_stable [simp]: "mb_stable owner cpu (mb_past finished)"
  using mb_finished_guar by (auto simp: stable_under_def)

lemma mb_failed_stable [simp]: "mb_stable owner cpu (mb_past {Failed})"
  using mb_failed_guar by (auto simp: stable_under_def)

lemma mb_held_stable [simp]: "mb_stable owner cpu (mb_held cpu)"
  by (auto simp: stable_under_def mb_held_def mb_guar_def mb_edge_def mb_inv_def)

text \<open>The owner alone leaves \<open>Parked\<close> and \<open>Online\<close>.\<close>

lemma mb_owned_stable [simp]: "st \<in> {Parked, Online} \<Longrightarrow> mb_stable owner owner (mb_past {st})"
  by (auto simp: stable_under_def mb_past_def mb_guar_def mb_edge_def mb_inv_def)

section \<open>The operations keep to the protocol\<close>

lemma mb_armw:
  assumes "\<And>s. mb_inv s \<Longrightarrow> P s \<Longrightarrow> mb_guar owner cpu s (fst (f s))"
    and "\<And>s. mb_inv s \<Longrightarrow> P s \<Longrightarrow> post (snd (f s)) (fst (f s))"
    and "\<And>a. mb_stable owner cpu (post a)"
  shows "mb_safe owner cpu P (armw f) post"
  using assms by (intro safe_armw) (auto intro: mb_guar_inv)

text \<open>What a lifecycle read tells its reader for good.\<close>

definition mb_known :: "nat \<Rightarrow> nat \<Rightarrow> cpu_state \<Rightarrow> mailbox \<Rightarrow> bool" where
  "mb_known owner cpu st s \<longleftrightarrow> (st \<in> finished \<longrightarrow> mb_past finished s) \<and> (st = Failed \<longrightarrow> mb_past {Failed} s) \<and>
     (cpu = owner \<and> st \<in> {Parked, Online} \<longrightarrow> mb_past {st} s) \<and> (st = Prepared \<longrightarrow> mb_past (- {Offline}) s) \<and>
     (st = Starting \<longrightarrow> mb_past (- {Offline, Prepared}) s)"

lemma mb_started_stable [simp]: "mb_stable owner cpu (mb_past (- {Offline}))"
  by (auto simp: stable_under_def mb_past_def mb_guar_def mb_edge_def)

lemma mb_requested_stable [simp]: "mb_stable owner cpu (mb_past (- {Offline, Prepared}))"
  by (auto simp: stable_under_def mb_past_def mb_guar_def mb_edge_def)

lemma mb_known_stable [simp]: "mb_stable owner cpu (mb_known owner cpu st)"
  unfolding mb_known_def by (intro stable_under_conj stable_under_imp) auto

lemma lifecycle_safe:
  assumes "mb_stable owner cpu P"
  shows "mb_safe owner cpu P lifecycle (\<lambda>r s. P s \<and> (case r of Ok st \<Rightarrow> mb_known owner cpu st s \<and>
     ((\<forall>s. mb_inv s \<longrightarrow> P s \<longrightarrow> mb_past S s) \<longrightarrow> st \<in> S) | _ \<Rightarrow> False))"
  unfolding lifecycle_def
proof (rule safe_aload)
  fix s assume s: "mb_inv s" "P s"
  obtain st where st: "mb_state s = state_code st" using mb_inv_state [OF s(1)] by blast
  then have "(\<forall>s. mb_inv s \<longrightarrow> P s \<longrightarrow> mb_past S s) \<longrightarrow> st \<in> S" using s by (auto simp: mb_past_def)
  then show "P s \<and> (case decode_state (mb_state s) of Ok st \<Rightarrow> mb_known owner cpu st s \<and>
     ((\<forall>s. mb_inv s \<longrightarrow> P s \<longrightarrow> mb_past S s) \<longrightarrow> st \<in> S) | _ \<Rightarrow> False)"
    using s st by (auto simp: mb_past_def mb_known_def)
next
  show "mb_stable owner cpu (\<lambda>s. P s \<and> (case r of Ok st \<Rightarrow> mb_known owner cpu st s \<and>
     ((\<forall>s. mb_inv s \<longrightarrow> P s \<longrightarrow> mb_past S s) \<longrightarrow> st \<in> S) | _ \<Rightarrow> False))" for r :: "(cpu_state, 'e) outcome"
    using assms by (cases r) auto
qed simp

lemma check_safe:
  assumes "mb_stable owner cpu P"
  shows "mb_safe owner cpu P (mb_check g) (\<lambda>r s. P s \<and> r \<noteq> Panic \<and> (r = Ok () \<longrightarrow> mb_gen g s) \<and>
     ((\<forall>s. mb_inv s \<longrightarrow> P s \<longrightarrow> mb_gen g s) \<longrightarrow> r = Ok ()))"
proof -
  let ?mid = "\<lambda>b s. P s \<and> (b \<longrightarrow> mb_gen g s) \<and> ((\<forall>s. mb_inv s \<longrightarrow> P s \<longrightarrow> mb_gen g s) \<longrightarrow> b)"
  have "mb_safe owner cpu P (observe_ready g) ?mid"
  proof (cases "g = 0")
    case True
    then show ?thesis by (auto simp: observe_ready_def mb_gen_def intro!: safe_Ret)
  next
    case False
    have "mb_safe owner cpu P (aload (\<lambda>s. mb_ready s = g)) ?mid"
    proof (rule safe_aload)
      show "mb_stable owner cpu (?mid a)" for a using assms by (cases a) auto
    qed (use False in \<open>auto simp: mb_gen_def\<close>)
    then show ?thesis using False by (simp add: observe_ready_def)
  qed
  then show ?thesis
    unfolding mb_check_def by (rule safe_pbind) (auto intro!: safe_Ret)
qed

lemma state_cas_safe:
  assumes "\<And>s. mb_inv s \<Longrightarrow> P s \<Longrightarrow> mb_state s = state_code a \<Longrightarrow> mb_guar owner cpu s (s\<lparr>mb_state := state_code b\<rparr>)"
    and "mb_stable owner cpu Q"
    and "\<And>s. mb_inv s \<Longrightarrow> P s \<Longrightarrow> mb_state s = state_code a \<Longrightarrow> Q (s\<lparr>mb_state := state_code b\<rparr>)"
  shows "mb_safe owner cpu P (state_cas a b) (\<lambda>won s. (won \<longrightarrow> Q s) \<and>
     ((\<forall>s. mb_inv s \<longrightarrow> P s \<longrightarrow> mb_past {a} s) \<longrightarrow> won))"
  unfolding state_cas_def acas_def
proof (rule mb_armw)
  show "mb_stable owner cpu (\<lambda>s. (won \<longrightarrow> Q s) \<and> ((\<forall>s. mb_inv s \<longrightarrow> P s \<longrightarrow> mb_past {a} s) \<longrightarrow> won))" for won
    using assms(2) by (cases won) auto
qed (use assms in \<open>auto simp: mb_past_def\<close>)

lemma cas_or_safe:
  assumes "mb_safe owner cpu P p (\<lambda>won s. (won \<longrightarrow> Q s) \<and> (must \<longrightarrow> won))"
  shows "mb_safe owner cpu P (pbind p (cas_or e)) (\<lambda>r s. r \<noteq> Panic \<and> (r = Ok () \<longrightarrow> Q s) \<and> (must \<longrightarrow> r = Ok ()))"
  by (rule safe_pbind [OF assms]) (auto simp: cas_or_def intro!: safe_Ret)

lemma transition_safe:
  assumes "mb_stable owner cpu P" and "mb_stable owner cpu Q"
    and "\<And>s. mb_inv s \<Longrightarrow> P s \<Longrightarrow> mb_gen g s \<Longrightarrow> mb_state s = state_code a \<Longrightarrow> mb_edge owner cpu s a b"
    and "\<And>s. mb_inv s \<Longrightarrow> P s \<Longrightarrow> mb_gen g s \<Longrightarrow> mb_state s = state_code a \<Longrightarrow> Q (s\<lparr>mb_state := state_code b\<rparr>)"
  shows "mb_safe owner cpu P (transition g a b) (\<lambda>r s. r \<noteq> Panic \<and> (r = Ok () \<longrightarrow> Q s) \<and>
     ((\<forall>s. mb_inv s \<longrightarrow> P s \<longrightarrow> mb_gen g s \<and> mb_past {a} s) \<longrightarrow> r = Ok ()))"
  unfolding transition_def
proof (rule safe_pthen [OF check_safe [OF assms(1)]])
  let ?P = "\<lambda>s. P s \<and> Ok () \<noteq> Panic \<and> (Ok () = Ok () \<longrightarrow> mb_gen g s) \<and> ((\<forall>s. mb_inv s \<longrightarrow> P s \<longrightarrow> mb_gen g s) \<longrightarrow> Ok () = Ok ())"
  have "mb_safe owner cpu (\<lambda>s. P s \<and> mb_gen g s) (state_cas a b) (\<lambda>won s. (won \<longrightarrow> Q s) \<and>
     ((\<forall>s. mb_inv s \<longrightarrow> (P s \<and> mb_gen g s) \<longrightarrow> mb_past {a} s) \<longrightarrow> won))"
    by (rule state_cas_safe) (use assms in \<open>auto simp: mb_guar_def\<close>)
  from cas_or_safe [OF this, of InvalidTransition]
  show "mb_safe owner cpu (\<lambda>s. P s \<and> Ok x \<noteq> Panic \<and> (Ok x = Ok () \<longrightarrow> mb_gen g s) \<and> ((\<forall>s. mb_inv s \<longrightarrow> P s \<longrightarrow> mb_gen g s) \<longrightarrow> Ok x = Ok ()))
      (pbind (state_cas a b) (cas_or InvalidTransition)) (\<lambda>r s. r \<noteq> Panic \<and> (r = Ok () \<longrightarrow> Q s) \<and>
     ((\<forall>s. mb_inv s \<longrightarrow> P s \<longrightarrow> mb_gen g s \<and> mb_past {a} s) \<longrightarrow> r = Ok ()))" for x :: unit
    by (auto elim!: safe_weaken intro: safe_post)
qed auto

lemma lifecycle_of_safe:
  assumes "mb_stable owner cpu P"
  shows "mb_safe owner cpu P (mb_lifecycle_of g) (\<lambda>r s. P s \<and> (case r of
     Ok st \<Rightarrow> mb_gen g s \<and> mb_known owner cpu st s \<and>
        ((\<forall>s. mb_inv s \<longrightarrow> P s \<and> mb_gen g s \<longrightarrow> mb_past S s) \<longrightarrow> st \<in> S)
   | Err e \<Rightarrow> \<not> (\<forall>s. mb_inv s \<longrightarrow> P s \<longrightarrow> mb_gen g s) | Panic \<Rightarrow> False))"
  unfolding mb_lifecycle_of_def
proof (rule safe_pthen [OF check_safe [OF assms]])
  have st: "mb_stable owner cpu (\<lambda>s. P s \<and> mb_gen g s)" using assms by auto
  show "mb_safe owner cpu (\<lambda>s. P s \<and> Ok x \<noteq> Panic \<and> (Ok x = Ok () \<longrightarrow> mb_gen g s) \<and>
       ((\<forall>s. mb_inv s \<longrightarrow> P s \<longrightarrow> mb_gen g s) \<longrightarrow> Ok x = Ok ())) lifecycle (\<lambda>r s. P s \<and> (case r of
     Ok st \<Rightarrow> mb_gen g s \<and> mb_known owner cpu st s \<and>
        ((\<forall>s. mb_inv s \<longrightarrow> P s \<and> mb_gen g s \<longrightarrow> mb_past S s) \<longrightarrow> st \<in> S)
   | Err e \<Rightarrow> \<not> (\<forall>s. mb_inv s \<longrightarrow> P s \<longrightarrow> mb_gen g s) | Panic \<Rightarrow> False))" for x
    by (rule safe_weaken [OF safe_post [OF lifecycle_safe [OF st, where S = S]]]) (auto split: outcome.splits)
qed auto

lemma mark_prepared_safe: "mb_safe owner cpu (\<lambda>_. True) mark_prepared (\<lambda>r _. r \<noteq> Panic)"
proof -
  have "mb_safe owner cpu (\<lambda>_. True) (state_cas Offline Prepared) (\<lambda>won s. (won \<longrightarrow> True) \<and> (False \<longrightarrow> won))"
    by (rule safe_post [OF state_cas_safe [where Q = "\<lambda>_. True"]]) (auto simp: mb_guar_def mb_edge_def)
  from cas_or_safe [OF this] show ?thesis unfolding mark_prepared_def by (rule safe_post) simp
qed

lemma publish_cas_safe:
  assumes "g \<noteq> 0"
  shows "mb_safe owner cpu (mb_past (- {Offline})) (acas mb_ready (\<lambda>v. mb_ready_update (\<lambda>_. v)) 0 g)
     (\<lambda>won s. (won \<longrightarrow> mb_gen g s) \<and> (False \<longrightarrow> won))"
  unfolding acas_def
proof (rule mb_armw)
  show "mb_stable owner cpu (\<lambda>s. (won \<longrightarrow> mb_gen g s) \<and> (False \<longrightarrow> won))" for won by auto
  fix s assume "mb_inv s" "mb_past (- {Offline}) s"
  then show "mb_guar owner cpu s (fst (if mb_ready s = 0 then (s\<lparr>mb_ready := g\<rparr>, True) else (s, False)))"
    using assms by (auto simp: mb_guar_def mb_past_def mb_inv_def)
qed (use assms in \<open>auto simp: mb_gen_def\<close>)

lemma publish_safe:
  "mb_safe owner cpu (\<lambda>_. True) (mb_publish g) (\<lambda>r s. r \<noteq> Panic \<and> (r = Ok () \<longrightarrow> mb_gen g s))"
proof (cases "g = 0")
  case False
  have *: "mb_safe owner cpu (mb_past (- {Offline}))
      (pbind (acas mb_ready (\<lambda>v. mb_ready_update (\<lambda>_. v)) 0 g) (cas_or InvalidTransition))
      (\<lambda>r s. r \<noteq> Panic \<and> (r = Ok () \<longrightarrow> mb_gen g s))"
    using safe_post [OF cas_or_safe [OF publish_cas_safe [OF False]]] by simp
  show ?thesis
    unfolding mb_publish_def
    using False
    by (auto intro!: safe_pthen [OF lifecycle_safe [where P = "\<lambda>_. True" and S = UNIV]] safe_Ret
        intro: safe_weaken [OF *] simp: mb_known_def)
qed (auto simp: mb_publish_def intro!: safe_Ret)

lemma claim_cas_safe:
  "mb_safe owner cpu (\<lambda>s. mb_gen g s \<and> mb_past (- {Offline, Prepared}) s) (claim_cas cpu)
     (\<lambda>won s. (won \<longrightarrow> mb_gen g s \<and> mb_held cpu s) \<and> (False \<longrightarrow> won))"
  unfolding claim_cas_def
proof (rule mb_armw)
  show "mb_stable owner cpu (\<lambda>s. (won \<longrightarrow> mb_gen g s \<and> mb_held cpu s) \<and> (False \<longrightarrow> won))" for won by auto
  fix s assume s: "mb_inv s" "mb_gen g s \<and> mb_past (- {Offline, Prepared}) s"
  then have "mb_claimed s \<or> mb_state s = state_code Starting" by (auto simp: mb_inv_def mb_past_def) (metis cpu_state.exhaust)+
  then show "mb_guar owner cpu s (fst (if mb_claimed s then (s, False)
       else (s\<lparr>mb_claimed := True, mb_winner := Some cpu\<rparr>, True)))"
    "(snd (if mb_claimed s then (s, False) else (s\<lparr>mb_claimed := True, mb_winner := Some cpu\<rparr>, True)) \<longrightarrow>
        mb_gen g (fst (if mb_claimed s then (s, False) else (s\<lparr>mb_claimed := True, mb_winner := Some cpu\<rparr>, True))) \<and>
        mb_held cpu (fst (if mb_claimed s then (s, False) else (s\<lparr>mb_claimed := True, mb_winner := Some cpu\<rparr>, True)))) \<and>
     (False \<longrightarrow> snd (if mb_claimed s then (s, False) else (s\<lparr>mb_claimed := True, mb_winner := Some cpu\<rparr>, True)))"
    using s by (auto simp: mb_guar_def mb_gen_def mb_held_def)
qed

lemma claim_entry_safe:
  "mb_safe owner cpu (\<lambda>_. True) (claim_entry cpu g) (\<lambda>r s. r \<noteq> Panic \<and>
     (\<forall>c. r = Ok c \<longrightarrow> claim_generation c = g \<and> mb_gen g s \<and> mb_held cpu s))"
proof -
  note cas = cas_or_safe [OF claim_cas_safe [where g = g and cpu = cpu and owner = owner], of DuplicateEntry]
  have "mb_safe owner cpu (\<lambda>s. mb_gen g s \<and> mb_past (- {Offline, Prepared}) s)
      (pthen (pbind (claim_cas cpu) (cas_or DuplicateEntry)) (\<lambda>_. Ret (Ok \<lparr>claim_generation = g\<rparr>)))
      (\<lambda>r s. r \<noteq> Panic \<and> (\<forall>c. r = Ok c \<longrightarrow> claim_generation c = g \<and> mb_gen g s \<and> mb_held cpu s))"
    by (rule safe_pthen [OF cas]) (auto intro!: safe_Ret)
  note step = safe_weaken [OF this]
  show ?thesis
    unfolding claim_entry_def
    by (rule safe_pthen [OF lifecycle_of_safe [where P = "\<lambda>_. True" and S = UNIV]])
      (auto intro!: safe_Ret intro: step simp: mb_known_def)
qed

lemma begin_start_safe:
  "mb_safe owner cpu (\<lambda>_. True) (begin_start g) (\<lambda>r s. r \<noteq> Panic \<and> (r = Ok () \<longrightarrow> mb_past (- {Offline, Prepared}) s))"
  unfolding begin_start_def
  by (rule safe_post [OF transition_safe [where Q = "mb_past (- {Offline, Prepared})"]])
    (auto simp: mb_edge_def mb_gen_def mb_past_def)

lemma claim_finish_safe:
  assumes "b \<in> {Parked, Failed}"
  shows "mb_safe owner cpu (\<lambda>s. mb_gen g s \<and> mb_held cpu s) (transition g Starting b)
     (\<lambda>r s. r = Ok () \<and> mb_gen g s \<and> mb_past finished s \<and> (b = Failed \<longrightarrow> mb_past {Failed} s))"
proof (rule safe_post [OF transition_safe [where P = "\<lambda>s. mb_gen g s \<and> mb_held cpu s" and
      Q = "\<lambda>s. mb_gen g s \<and> mb_past finished s \<and> (b = Failed \<longrightarrow> mb_past {Failed} s)"]])
  show "mb_stable owner cpu (\<lambda>s. mb_gen g s \<and> mb_past finished s \<and> (b = Failed \<longrightarrow> mb_past {Failed} s))"
    by (intro stable_under_conj stable_under_imp) auto
  show "mb_stable owner cpu (\<lambda>s. mb_gen g s \<and> mb_held cpu s)" by auto
qed (use assms in \<open>auto simp: mb_held_def mb_edge_def mb_past_def mb_gen_def\<close>)

lemma management_safe:
  assumes "(a, b) \<in> {(Parked, Online), (Online, Parked), (Parked, Failed), (Online, Failed)}"
  shows "mb_safe owner owner (\<lambda>_. True) (transition g a b)
     (\<lambda>r s. r \<noteq> Panic \<and> (r = Ok () \<longrightarrow> mb_past {b} s))"
    and "mb_safe owner owner (\<lambda>s. mb_gen g s \<and> mb_past {a} s) (transition g a b)
     (\<lambda>r s. r = Ok () \<and> mb_past {b} s)"
proof -
  have b: "mb_stable owner owner (mb_past {b})" and a: "mb_stable owner owner (mb_past {a})" using assms by auto
  show "mb_safe owner owner (\<lambda>_. True) (transition g a b) (\<lambda>r s. r \<noteq> Panic \<and> (r = Ok () \<longrightarrow> mb_past {b} s))"
    by (rule safe_post [OF transition_safe [OF _ b]]) (use assms in \<open>auto simp: mb_edge_def mb_past_def\<close>)
  have ga: "mb_stable owner owner (\<lambda>s. mb_gen g s \<and> mb_past {a} s)" using a by auto
  show "mb_safe owner owner (\<lambda>s. mb_gen g s \<and> mb_past {a} s) (transition g a b) (\<lambda>r s. r = Ok () \<and> mb_past {b} s)"
    by (rule safe_post [OF transition_safe [OF ga b]]) (use assms in \<open>auto simp: mb_edge_def mb_past_def\<close>)
qed

lemma management_failed_safe:
  "mb_safe owner owner (\<lambda>_. True) (management_failed g) (\<lambda>r _. r \<noteq> Panic)"
  "mb_safe owner owner (\<lambda>s. mb_gen g s \<and> mb_past {Parked, Online} s) (management_failed g)
     (\<lambda>r s. r = Ok () \<and> mb_past {Failed} s)"
proof -
  have to_failed: "mb_safe owner owner (\<lambda>s. mb_gen g s \<and> mb_known owner owner st s)
      (case st of Parked \<Rightarrow> transition g Parked Failed | Online \<Rightarrow> transition g Online Failed
       | _ \<Rightarrow> Ret (Err InvalidTransition)) (\<lambda>r s. r \<noteq> Panic \<and> (st \<in> {Parked, Online} \<longrightarrow> r = Ok () \<and> mb_past {Failed} s))" for st
    by (cases st) (auto intro!: safe_Ret safe_weaken [OF safe_post [OF management_safe(2)]] simp: mb_known_def)
  show "mb_safe owner owner (\<lambda>_. True) (management_failed g) (\<lambda>r _. r \<noteq> Panic)"
    unfolding management_failed_def
    by (rule safe_pthen [OF lifecycle_of_safe [where P = "\<lambda>_. True" and S = UNIV]])
      (auto intro!: safe_weaken [OF safe_post [OF to_failed]])
  have st: "mb_stable owner owner (\<lambda>s. mb_gen g s \<and> mb_past {Parked, Online} s)"
    by (auto simp: stable_under_def mb_past_def mb_guar_def mb_edge_def mb_gen_def)
  show "mb_safe owner owner (\<lambda>s. mb_gen g s \<and> mb_past {Parked, Online} s) (management_failed g)
     (\<lambda>r s. r = Ok () \<and> mb_past {Failed} s)"
    unfolding management_failed_def
  proof (rule safe_pthen [OF lifecycle_of_safe [OF st, where S = "{Parked, Online}"]])
    let ?P = "\<lambda>s. mb_gen g s \<and> mb_past {Parked, Online} s"
    let ?mid = "\<lambda>x s. ?P s \<and> (case x of Ok st \<Rightarrow> mb_gen g s \<and> mb_known owner owner st s \<and>
        ((\<forall>s. mb_inv s \<longrightarrow> ?P s \<and> mb_gen g s \<longrightarrow> mb_past {Parked, Online} s) \<longrightarrow> st \<in> {Parked, Online})
      | Err e \<Rightarrow> \<not> (\<forall>s. mb_inv s \<longrightarrow> ?P s \<longrightarrow> mb_gen g s) | Panic \<Rightarrow> False)"
    show "mb_safe owner owner (?mid (Ok x)) (case x of Parked \<Rightarrow> transition g Parked Failed | Online \<Rightarrow> transition g Online Failed
       | _ \<Rightarrow> Ret (Err InvalidTransition)) (\<lambda>r s. r = Ok () \<and> mb_past {Failed} s)" for x
    proof (cases "x \<in> {Parked, Online}")
      case True
      show ?thesis by (rule safe_weaken [OF safe_post [OF to_failed]]) (use True in auto)
    next
      case False
      then show ?thesis by (cases x) (auto intro!: safe_Ret)
    qed
  qed auto
qed

lemma claim_use_safe:
  "mb_safe owner cpu (\<lambda>s. claim_generation c = g \<and> mb_gen g s \<and> mb_held cpu s)
     (case use of UsePark \<Rightarrow> claim_park c | UseFail \<Rightarrow> claim_fail c | UseDrop \<Rightarrow> Ret (Ok ()))
     (\<lambda>r s. r = Ok () \<and> mb_gen g s \<and> (use \<noteq> UseDrop \<longrightarrow> mb_past finished s))"
proof (cases "claim_generation c = g")
  case True
  then show ?thesis
    by (cases use) (auto simp: claim_park_def claim_fail_def intro!: safe_Ret
      intro: safe_weaken [OF safe_post [OF claim_finish_safe]])
next
  case False
  then have "mb_safe owner cpu (\<lambda>_. False) p post" for p :: "(mailbox, (unit, protocol_error) outcome) prog" and post
    by (cases p) (auto intro: safe.intros)
  from safe_weaken [OF this] show ?thesis using False by auto
qed

lemma enter_safe: "mb_safe owner cpu (\<lambda>_. True) (mb_enter cpu g use) (\<lambda>r _. r \<noteq> Panic)"
  unfolding mb_enter_def
  by (rule safe_pthen [OF claim_entry_safe [where g = g]])
    (auto intro!: safe_weaken [OF safe_post [OF claim_use_safe [where g = g]]])

lemma wait_loop_safe:
  "mb_safe owner cpu (mb_gen g) (wait_loop counter start ticks polls k)
     (\<lambda>r s. r \<noteq> Panic \<and> mb_gen g s \<and> (r = Ok () \<longrightarrow> mb_past finished s) \<and> (r = Err WCpuFailed \<longrightarrow> mb_past {Failed} s))"
proof (induction polls arbitrary: k)
  case (Suc polls)
  note ih = safe_weaken [OF Suc]
  show ?case
    by (auto intro!: safe_Ret safe_pthen [OF lifecycle_safe [where P = "mb_gen g" and S = UNIV]]
        intro: ih simp: mb_known_def split: cpu_state.splits)
qed (auto intro: safe_Ret)

lemma wait_until_parked_safe:
  "mb_safe owner cpu (\<lambda>_. True) (wait_until_parked g start ticks polls counter)
     (\<lambda>r s. r \<noteq> Panic \<and> (r = Ok () \<longrightarrow> mb_gen g s \<and> mb_past finished s) \<and> (r = Err WCpuFailed \<longrightarrow> mb_past {Failed} s))"
  unfolding wait_until_parked_def
  by (rule safe_pbind [OF check_safe [where P = "\<lambda>_. True"]])
    (auto intro!: safe_Ret intro: safe_weaken [OF safe_post [OF wait_loop_safe]] split: outcome.splits)

lemma queries_safe:
  "mb_safe owner cpu (\<lambda>_. True) (entry_is_claimed g) (\<lambda>_ _. True)"
  "mb_safe owner cpu (\<lambda>_. True) (has_parked g) (\<lambda>_ _. True)"
proof -
  have "mb_safe owner cpu P (pbind (aload mb_claimed) (\<lambda>b. Ret (Ok b))) (\<lambda>_ _. True)" for P
    by (rule safe_pbind [OF safe_aload]) auto
  then show "mb_safe owner cpu (\<lambda>_. True) (entry_is_claimed g) (\<lambda>_ _. True)"
    unfolding entry_is_claimed_def by (intro safe_pthen [OF check_safe [where P = "\<lambda>_. True"]]) auto
  show "mb_safe owner cpu (\<lambda>_. True) (has_parked g) (\<lambda>_ _. True)"
    unfolding has_parked_def
    by (rule safe_pbind [OF lifecycle_of_safe [where P = "\<lambda>_. True" and S = UNIV]]) auto
qed

lemmas mb_programs_safe = mark_prepared_safe publish_safe begin_start_safe enter_safe
  management_failed_safe(1) queries_safe wait_until_parked_safe lifecycle_of_safe [where P = "\<lambda>_. True" and S = UNIV]

lemma mb_api_safe: "mb_api owner cpu p \<Longrightarrow> mb_safe owner cpu (\<lambda>_. True) p (\<lambda>_ _. True)"
  unfolding mb_api_def
  by (auto intro!: safe_discard [OF management_safe(1)] simp: management_online_def management_park_def
      intro: safe_discard [OF mark_prepared_safe] safe_discard [OF publish_safe] safe_discard [OF begin_start_safe]
        safe_discard [OF enter_safe] safe_discard [OF management_failed_safe(1)] safe_discard [OF queries_safe(1)]
        safe_discard [OF queries_safe(2)] safe_discard [OF wait_until_parked_safe]
        safe_discard [OF lifecycle_of_safe [where P = "\<lambda>_. True" and S = UNIV]])

interpretation mb: shared_protocol mb_inv "mb_guar owner" "mb_api owner" for owner
  by unfold_locales (auto intro: mb_guar_inv mb_api_safe)

lemma wait_loop_reads: "reads polls (wait_loop counter start ticks polls k)"
proof (induction polls arbitrary: k)
  case (Suc polls)
  have "reads (Suc 0 + polls) (pthen lifecycle (\<lambda>st. case st of
          Failed \<Rightarrow> Ret (Err WCpuFailed)
        | Parked \<Rightarrow> Ret (if ticks \<le> counter (k + 1) - start then Err WTimeout else Ok ())
        | _ \<Rightarrow> wait_loop counter start ticks polls (k + 1)))"
    unfolding pthen_def lifecycle_def
    by (rule reads_pbind) (auto split: outcome.splits cpu_state.splits intro: Suc)
  then show ?case unfolding wait_loop.simps by (simp only: plus_nat.add_Suc add_0 split: if_split) simp
qed simp

section \<open>A start without interference\<close>

definition mb_started :: mailbox where
  "mb_started = \<lparr>mb_ready = 7, mb_state = state_code Starting, mb_claimed = False, mb_winner = None\<rparr>"

lemmas mb_program_defs = mark_prepared_def mb_publish_def begin_start_def transition_def mb_check_def
  observe_ready_def lifecycle_def state_cas_def cas_or_def claim_entry_def mb_lifecycle_of_def claim_cas_def
  claim_fail_def claim_park_def mb_enter_def

lemma mb_start_run:
  "run mark_prepared mb_new = (Ok (), mb_new\<lparr>mb_state := state_code Prepared\<rparr>)"
  "run (mb_publish 7) (mb_new\<lparr>mb_state := state_code Prepared\<rparr>) = (Ok (), mb_new\<lparr>mb_state := state_code Prepared, mb_ready := 7\<rparr>)"
  "run (begin_start 7) (mb_new\<lparr>mb_state := state_code Prepared, mb_ready := 7\<rparr>) = (Ok (), mb_started)"
  "run (claim_entry 1 7) mb_started = (Ok \<lparr>claim_generation = 7\<rparr>, mb_started\<lparr>mb_claimed := True, mb_winner := Some 1\<rparr>)"
  "run (claim_park \<lparr>claim_generation = 7\<rparr>) (mb_started\<lparr>mb_claimed := True, mb_winner := Some 1\<rparr>) =
     (Ok (), mb_started\<lparr>mb_claimed := True, mb_winner := Some 1, mb_state := state_code Parked\<rparr>)"
  by (simp_all add: mb_program_defs prog_defs run_pbind mb_new_def mb_started_def)

lemma mb_start_steps:
  "(istep (mb_api 1))\<^sup>*\<^sup>* (mb_new, \<lambda>_. Ret ())
     (mb_started\<lparr>mb_claimed := True, mb_winner := Some 1, mb_state := state_code Parked\<rparr>, \<lambda>_. Ret ())"
proof -
  have step: "(istep (mb_api 1))\<^sup>*\<^sup>* (s, \<lambda>_. Ret ()) (t, \<lambda>_. Ret ())"
    if "run p s = (a, t)" "mb_api 1 1 (discard p)" for p s t and a :: "(unit, protocol_error) outcome"
    using run_isteps [of "mb_api 1" 1 "discard p" "\<lambda>_. Ret ()" s] that by simp
  have enter: "run (mb_enter 1 7 UsePark) mb_started =
      (Ok (), mb_started\<lparr>mb_claimed := True, mb_winner := Some 1, mb_state := state_code Parked\<rparr>)"
    using mb_start_run(4,5) by (simp add: mb_enter_def pthen_def run_pbind)
  have "mb_api 1 1 (discard mark_prepared)" "mb_api 1 1 (discard (mb_publish 7))" "mb_api 1 1 (discard (begin_start 7))"
    "mb_api 1 1 (discard (mb_enter 1 7 UsePark))" by (auto simp: mb_api_def)
  with step [OF mb_start_run(1)] step [OF mb_start_run(2)] step [OF mb_start_run(3)] step [OF enter]
  show ?thesis by (meson rtranclp_trans)
qed

section \<open>Correctness\<close>

text \<open>
  C3: the lifecycle of a secondary CPU under any interleaving of the mailbox operations
  (management operations by the owner only). The state word is always one of the six
  states, so \<open>unreachable!\<close> is never reached; a CPU that parked, came online or failed
  was published and its entry was claimed; and for good: the generation, the one CPU
  that won the claim, having finished entry, and failure.
\<close>

theorem mailbox_lifecycle:
  assumes "(istep (mb_api owner))\<^sup>*\<^sup>* (mb_new, \<lambda>_. Ret ()) (s, pool)"
    and "(istep (mb_api owner))\<^sup>*\<^sup>* (s, pool) (s', pool')"
  shows "(\<exists>st. (decode_state (mb_state s) :: (_, unit) outcome) = Ok st) \<and>
         (mb_past {Parked, Online, Failed} s \<longrightarrow> mb_ready s \<noteq> 0 \<and> mb_winner s \<noteq> None \<and>
            mb_past {Parked, Online, Failed} s') \<and>
         (mb_ready s \<noteq> 0 \<longrightarrow> mb_ready s' = mb_ready s) \<and>
         (mb_winner s \<noteq> None \<longrightarrow> mb_winner s' = mb_winner s) \<and>
         (mb_past {Failed} s \<longrightarrow> mb_past {Failed} s')"
proof -
  have inv0: "mb_inv mb_new" by (simp add: mb_inv_def mb_new_def)
  have ok: "mb.conf_ok owner (s, pool)" by (rule mb.isteps_ok [OF assms(1) mb.start_ok [OF inv0]]) simp
  have inv: "mb_inv s" using mb.reachable_inv [OF inv0 refl assms(1)] .
  have keep: "P s'" if "P s" and "\<And>i s s'. mb_inv s \<Longrightarrow> P s \<Longrightarrow> mb_guar owner i s s' \<Longrightarrow> P s'" for P
    using mb.isteps_stable [OF assms(2) ok, of P, unfolded fst_conv] that by blast
  have "mb_winner s' = Some w" if "mb_winner s = Some w" for w
    by (rule keep [of "\<lambda>s. mb_winner s = Some w", OF that]) (rule mb_winner_guar)
  moreover have "mb_ready s' = mb_ready s" if "mb_ready s \<noteq> 0"
  proof -
    have "mb_gen (mb_ready s) s" using that by (simp add: mb_gen_def)
    then have "mb_gen (mb_ready s) s'" by (rule keep [of "mb_gen (mb_ready s)"]) (rule mb_gen_guar)
    then show ?thesis by (simp add: mb_gen_def)
  qed
  moreover have "mb_past finished s'" if "mb_past finished s"
    by (rule keep [of "mb_past finished", OF that]) (rule mb_finished_guar)
  moreover have "mb_past {Failed} s'" if "mb_past {Failed} s"
    by (rule keep [of "mb_past {Failed}", OF that]) (rule mb_failed_guar)
  moreover have "mb_past finished s \<Longrightarrow> mb_ready s \<noteq> 0 \<and> mb_winner s \<noteq> None"
    using inv by (auto simp: mb_past_def mb_inv_def)
  moreover have "\<exists>st. (decode_state (mb_state s) :: (_, unit) outcome) = Ok st" using mb_inv_state [OF inv] by auto
  ultimately show ?thesis by (cases "mb_winner s") auto
qed

theorem mailbox_lifecycle_witness:
  "\<exists>s. (istep (mb_api 1))\<^sup>*\<^sup>* (mb_new, \<lambda>_. Ret ()) (s, \<lambda>_. Ret ()) \<and> mb_past {Parked, Online, Failed} s \<and>
       mb_ready s \<noteq> 0 \<and> mb_winner s \<noteq> None"
proof -
  let ?s = "mb_started\<lparr>mb_claimed := True, mb_winner := Some 1, mb_state := state_code Parked\<rparr>"
  have "mb_past {Parked, Online, Failed} ?s" by (simp add: mb_past_def)
  then show ?thesis
    using mailbox_lifecycle [OF mb_start_steps rtranclp.rtrancl_refl] mb_start_steps by blast
qed

text \<open>
  C24: the single writer of the entry. A claim that succeeds while other CPUs keep using
  the mailbox makes its holder the only one to leave \<open>Starting\<close>: parking or failing
  through the claim then always succeeds, whatever happens in between.
\<close>

theorem entry_claim_always_finishes:
  assumes "mb_inv s" and "exec (mb_rely owner cpu) (claim_entry cpu g) s (Ok c) t"
    and "(mb_rely owner cpu)\<^sup>*\<^sup>* t t'"
    and "exec (mb_rely owner cpu) (if park then claim_park c else claim_fail c) t' r u"
  shows "r = Ok () \<and> mb_past {Parked, Online, Failed} u \<and> mb_ready u = g"
proof -
  note claimed = mb.exec_ok [where P = "\<lambda>_. True", OF assms(2,1) TrueI claim_entry_safe stable_under_True]
  have * : "claim_generation c = g \<and> mb_gen g t \<and> mb_held cpu t" and inv: "mb_inv t"
    using conjunct1 [OF claimed] conjunct2 [OF claimed] by simp_all
  let ?P = "\<lambda>s. claim_generation c = g \<and> mb_gen g s \<and> mb_held cpu s"
  have st: "mb_stable owner cpu ?P" by auto
  have t': "mb_inv t' \<and> ?P t'"
    using assms(3)
  proof (induction rule: rtranclp_induct)
    case (step t1 t2)
    then have "mb_inv t1" "?P t1" by blast+
    then show ?case using st step(2) mb_guar_inv [of t1] unfolding stable_under_def by metis
  qed (use * inv in blast)
  let ?use = "if park then UsePark else UseFail"
  have "(if park then claim_park c else claim_fail c) =
      (case ?use of UsePark \<Rightarrow> claim_park c | UseFail \<Rightarrow> claim_fail c | UseDrop \<Rightarrow> Ret (Ok ()))" by simp
  from mb.exec_ok [OF assms(4) [unfolded this] _ _ claim_use_safe st, OF conjunct1 [OF t'] conjunct2 [OF t']]
  have "r = Ok () \<and> mb_gen g u \<and> (?use \<noteq> UseDrop \<longrightarrow> mb_past finished u)" by (rule conjunct1)
  then show ?thesis by (auto simp: mb_gen_def split: if_splits)
qed

theorem entry_claim_always_finishes_witness:
  "\<exists>c t u. exec (mb_rely 1 1) (claim_entry 1 7) mb_started (Ok c) t \<and> exec (mb_rely 1 1) (claim_park c) t (Ok ()) u \<and>
     mb_past {Parked, Online, Failed} u \<and> mb_ready u = 7"
proof -
  let ?t = "mb_started\<lparr>mb_claimed := True, mb_winner := Some 1\<rparr>"
  let ?u = "?t\<lparr>mb_state := state_code Parked\<rparr>"
  have inv: "mb_inv mb_started" by (auto simp: mb_inv_def mb_started_def)
  have c: "exec (mb_rely 1 1) (claim_entry 1 7) mb_started (Ok \<lparr>claim_generation = 7\<rparr>) ?t"
    using exec_run [of "mb_rely 1 1" "claim_entry 1 7" mb_started] mb_start_run(4) by simp
  have "exec (mb_rely 1 1) (claim_park \<lparr>claim_generation = 7\<rparr>) ?t (Ok ()) ?u"
    using exec_run [of "mb_rely 1 1" "claim_park \<lparr>claim_generation = 7\<rparr>" ?t] mb_start_run(5) by simp
  moreover from this have "exec (mb_rely 1 1) (if True then claim_park \<lparr>claim_generation = 7\<rparr>
      else claim_fail \<lparr>claim_generation = 7\<rparr>) ?t (Ok ()) ?u" by simp
  from entry_claim_always_finishes [OF inv c rtranclp.rtrancl_refl this]
  have "mb_past {Parked, Online, Failed} ?u \<and> mb_ready ?u = 7" by blast
  ultimately show ?thesis using c by blast
qed

text \<open>
  C25: readiness waits are bounded and free of side effects. On every path a wait performs
  at most \<open>max_polls + 1\<close> accesses, all of them reads; whatever other CPUs do meanwhile it
  never panics, reports success only for a published CPU that finished its entry, and
  reports a CPU failure only for one that failed.
\<close>

theorem wait_until_parked_correct:
  assumes "mb_inv s" and "exec (mb_rely owner cpu) (wait_until_parked g start ticks polls counter) s r t"
  shows "reads (Suc polls) (wait_until_parked g start ticks polls counter) \<and> r \<noteq> Panic \<and>
         (r = Ok () \<longrightarrow> g \<noteq> 0 \<and> mb_ready t = g \<and> mb_past {Parked, Online, Failed} t) \<and>
         (r = Err WCpuFailed \<longrightarrow> mb_past {Failed} t)"
proof -
  have "reads (Suc 0) (mb_check g)"
  proof -
    have "reads (Suc 0 + 0) (mb_check g)"
      unfolding mb_check_def by (rule reads_pbind) (auto simp: observe_ready_def)
    then show ?thesis by simp
  qed
  then have "reads (Suc 0 + polls) (wait_until_parked g start ticks polls counter)"
    unfolding wait_until_parked_def
    by (rule reads_pbind) (auto split: outcome.splits intro: wait_loop_reads)
  then show ?thesis
    using mb.exec_ok [where P = "\<lambda>_. True", OF assms(2,1) TrueI wait_until_parked_safe stable_under_True]
    by (simp add: mb_gen_def)
qed

theorem wait_until_parked_correct_witness:
  "\<exists>s t. exec (mb_rely 1 0) (wait_until_parked 7 100 50 3 (\<lambda>_. 110)) s (Ok ()) t \<and>
     mb_ready t = 7 \<and> mb_past {Parked, Online, Failed} t"
proof -
  let ?s = "mb_started\<lparr>mb_claimed := True, mb_winner := Some 1, mb_state := state_code Parked\<rparr>"
  let ?w = "wait_until_parked 7 100 50 3 (\<lambda>_. 110)"
  have inv: "mb_inv ?s" by (auto simp: mb_inv_def mb_started_def)
  have "run ?w ?s = (Ok (), ?s)"
    by (simp add: wait_until_parked_def mb_program_defs prog_defs run_pbind mb_started_def numeral_3_eq_3)
  then have e: "exec (mb_rely 1 0) ?w ?s (Ok ()) ?s"
    using exec_run [of "mb_rely 1 0" ?w ?s] by simp
  from wait_until_parked_correct [OF inv this] show ?thesis using e by blast
qed

end
