(* ===== verification/Device_Tree.thy ===== *)
theory Device_Tree
  imports Tvisor_Prelude
begin

text \<open>
  The device tree as the discovery code sees it. Parsing the flattened tree is the work
  of the external \<open>dtoolkit\<close> crate, which is a parameter of this development: a value of
  \<open>device_tree\<close> holds, for an arbitrary type of nodes and of properties, what each
  accessor the source calls returns. A \<open>Result\<close> is an option whose \<open>None\<close> is the error;
  where the crate returns a \<open>Result\<close> of an \<open>Option\<close>, the outer option is the result.
  No law is assumed of the accessors.
\<close>

record ('n, 'p) device_tree =
  dt_root :: 'n
  dt_find_node :: "string \<Rightarrow> 'n option"
  dt_children :: "'n \<Rightarrow> 'n list"
  dt_name :: "'n \<Rightarrow> string"
  dt_name_without_address :: "'n \<Rightarrow> string"
  dt_is_compatible :: "'n \<Rightarrow> string \<Rightarrow> bool"
  dt_status_okay :: "'n \<Rightarrow> bool option"
  dt_property :: "'n \<Rightarrow> string \<Rightarrow> 'p option"
  dt_as_str :: "'p \<Rightarrow> string option"
  dt_as_u32 :: "'p \<Rightarrow> u32 option"
  dt_as_u64 :: "'p \<Rightarrow> u64 option"
  dt_value :: "'p \<Rightarrow> u8 list"
  dt_reg :: "'n \<Rightarrow> (u64 option \<times> u64 option) list option option"
  dt_ranges :: "'n \<Rightarrow> (u64 option \<times> u64 option \<times> u64 option) list option option"
  dt_chosen :: "'n option"
  dt_stdout_path :: "'n \<Rightarrow> string option option"
  dt_memory_reservations :: "(u64 \<times> u64) list"
  dt_reserved_memory :: "'n list option"
  dt_no_map :: "'n \<Rightarrow> bool"
  dt_reusable :: "'n \<Rightarrow> bool"
  dt_no_map_fixup :: "'n \<Rightarrow> bool"
  dt_size :: "'n \<Rightarrow> u64 option option option"
  dt_alignment :: "'n \<Rightarrow> u64 option option option"
  dt_alloc_ranges :: "'n \<Rightarrow> (u64 option \<times> u64 option) list option option"
  dt_data_len :: u64

text \<open>The \<open>for\<close> loop whose body may return early with \<open>?\<close>.\<close>

fun try_fold :: "('s \<Rightarrow> 'a \<Rightarrow> ('s, 'e) outcome) \<Rightarrow> 's \<Rightarrow> 'a list \<Rightarrow> ('s, 'e) outcome" where
  "try_fold f s [] = Ok s"
| "try_fold f s (x # xs) = and_then (f s x) (\<lambda>s'. try_fold f s' xs)"

lemma try_fold_invariant:
  assumes "try_fold f s xs = Ok t" and "P s" and step: "\<And>s x t. x \<in> set xs \<Longrightarrow> P s \<Longrightarrow> f s x = Ok t \<Longrightarrow> P t"
  shows "P t"
  using assms
proof (induction xs arbitrary: s)
  case (Cons x xs)
  then obtain u where u: "f s x = Ok u" "try_fold f u xs = Ok t" by (auto simp: outcome_simps)
  have "P u" using Cons.prems(3) [of x s u] Cons.prems(2) u(1) by simp
  show ?case by (rule Cons.IH [OF u(2) \<open>P u\<close>]) (use Cons.prems(3) in \<open>meson list.set_intros(2)\<close>)
qed simp

lemma try_fold_no_panic:
  assumes "P s" and "\<And>s x. P s \<Longrightarrow> x \<in> set xs \<Longrightarrow> f s x \<noteq> Panic \<and> (\<forall>t. f s x = Ok t \<longrightarrow> P t)"
  shows "try_fold f s xs \<noteq> Panic"
  using assms
proof (induction xs arbitrary: s)
  case (Cons x xs)
  have x: "f s x \<noteq> Panic \<and> (\<forall>t. f s x = Ok t \<longrightarrow> P t)" using Cons.prems(2) [of s x] Cons.prems(1) by simp
  have "try_fold f u xs \<noteq> Panic" if "P u" for u
    by (rule Cons.IH [OF that]) (use Cons.prems(2) in \<open>meson list.set_intros(2)\<close>)
  then show ?case using x by (auto simp: outcome_simps)
qed simp

lemma try_fold_Ok_step:
  "try_fold f s (x # xs) = Ok t \<longleftrightarrow> (\<exists>s'. f s x = Ok s' \<and> try_fold f s' xs = Ok t)"
  by (auto simp: outcome_simps)

end
