(* ===== verification/Cpu_Topology.thy ===== *)
theory Cpu_Topology
  imports Device_Tree "HOL-Library.Multiset"
begin

text \<open>
  Physical CPU discovery (\<open>tvisor_util/cpu_topology.rs\<close>): the bounded, allocation-free
  reading of \<open>/cpus\<close> and of the PSCI description. \<open>topology_wf\<close> is what every consumer of
  a discovered topology relies on.
\<close>

definition MAX_CPUS :: nat where "MAX_CPUS = 4"
definition MPIDR_AFFINITY_MASK :: u64 where "MPIDR_AFFINITY_MASK = 0x000000ff00ffffff"

datatype startup_method = SmMissing | SmUnsupported | SpinTable (release_address: u64) | SmPsci
datatype psci_binding = Legacy | V0_2 | V1_0
datatype psci_conduit = Smc | Hvc

record psci_description =
  psci_bind :: psci_binding
  psci_cond :: psci_conduit
  legacy_cpu_on :: "u32 option"

record cpu_descriptor =
  cd_affinity :: u64
  cd_enabled :: bool
  cd_logical_id :: "nat option"
  cd_startup :: startup_method

definition EMPTY_CPU :: cpu_descriptor where
  "EMPTY_CPU = \<lparr>cd_affinity = 0, cd_enabled = False, cd_logical_id = None, cd_startup = SmMissing\<rparr>"

record cpu_topology =
  ct_array :: "cpu_descriptor list"
  ct_count :: nat
  ct_psci :: "psci_description option"

definition ct_cpus :: "cpu_topology \<Rightarrow> cpu_descriptor list" where
  "ct_cpus t = take (ct_count t) (ct_array t)"

datatype cpu_discovery_error = MissingCpus | InvalidCells | InvalidCpu | InvalidAffinity
  | InvalidReleaseAddress | DuplicateAffinity | CpuCapacity | BootCpuMissing | InvalidPsci

definition psci_binding_of :: "('n, 'p, 'z) device_tree_scheme \<Rightarrow> 'n \<Rightarrow> psci_binding option" where
  "psci_binding_of dt node =
     (if dt_is_compatible dt node ''arm,psci-1.0'' then Some V1_0
      else if dt_is_compatible dt node ''arm,psci-0.2'' then Some V0_2
      else if dt_is_compatible dt node ''arm,psci'' then Some Legacy else None)"

definition discover_psci_node ::
  "('n, 'p, 'z) device_tree_scheme \<Rightarrow> psci_description option \<Rightarrow> 'n \<Rightarrow> (psci_description option, cpu_discovery_error) outcome" where
  "discover_psci_node dt found node =
     (case psci_binding_of dt node of
        None \<Rightarrow> if dt_name_without_address dt node = ''psci'' then Err InvalidPsci else Ok found
      | Some binding \<Rightarrow>
          and_then (ok_or InvalidPsci (dt_status_okay dt node)) (\<lambda>okay.
          if \<not> okay then Ok found
          else if found \<noteq> None then Err InvalidPsci
          else and_then (ok_or InvalidPsci (dt_property dt node ''method'')) (\<lambda>m.
               and_then (ok_or InvalidPsci (dt_as_str dt m)) (\<lambda>method.
               and_then (if method = ''smc'' then Ok Smc else if method = ''hvc'' then Ok Hvc else Err InvalidPsci) (\<lambda>conduit.
               and_then (case dt_property dt node ''cpu_on'' of None \<Rightarrow> Ok None
                         | Some p \<Rightarrow> and_then (ok_or InvalidPsci (dt_as_u32 dt p)) (\<lambda>v. Ok (Some v))) (\<lambda>legacy.
               Ok (Some \<lparr>psci_bind = binding, psci_cond = conduit, legacy_cpu_on = legacy\<rparr>)))))))"

definition discover_psci ::
  "('n, 'p, 'z) device_tree_scheme \<Rightarrow> (psci_description option, cpu_discovery_error) outcome" where
  "discover_psci dt = try_fold (discover_psci_node dt) None (dt_children dt (dt_root dt))"

definition discover_startup ::
  "('n, 'p, 'z) device_tree_scheme \<Rightarrow> psci_description option \<Rightarrow> 'n \<Rightarrow> (startup_method, cpu_discovery_error) outcome" where
  "discover_startup dt psci node =
     (case dt_property dt node ''enable-method'' of
        None \<Rightarrow> Ok SmMissing
      | Some property \<Rightarrow>
          and_then (ok_or InvalidCpu (dt_as_str dt property)) (\<lambda>method.
          if method = ''psci'' then (if psci = None then Err InvalidPsci else Ok SmPsci)
          else if method = ''spin-table'' then
            and_then (ok_or InvalidReleaseAddress (dt_property dt node ''cpu-release-addr'')) (\<lambda>p.
            and_then (ok_or InvalidReleaseAddress (dt_as_u64 dt p)) (\<lambda>address.
            if address AND 7 \<noteq> 0 \<or> checked_add address 8 = None then Err InvalidReleaseAddress
            else Ok (SpinTable address)))
          else Ok SmUnsupported))"

definition discover_affinity ::
  "('n, 'p, 'z) device_tree_scheme \<Rightarrow> u32 \<Rightarrow> 'n \<Rightarrow> (u64, cpu_discovery_error) outcome" where
  "discover_affinity dt cells node =
     and_then (ok_or InvalidCpu (dt_property dt node ''reg'')) (\<lambda>reg.
       if cells = 1 then and_then (ok_or InvalidCpu (dt_as_u32 dt reg)) (\<lambda>v. Ok (ucast v))
       else ok_or InvalidCpu (dt_as_u64 dt reg))"

definition discover_cpu ::
  "('n, 'p, 'z) device_tree_scheme \<Rightarrow> u32 \<Rightarrow> cpu_topology \<Rightarrow> 'n \<Rightarrow> (cpu_topology, cpu_discovery_error) outcome" where
  "discover_cpu dt cells result node =
     (case dt_property dt node ''device_type'' of
        None \<Rightarrow> if dt_name_without_address dt node = ''cpu'' then Err InvalidCpu else Ok result
      | Some kind \<Rightarrow>
          and_then (ok_or InvalidCpu (dt_as_str dt kind)) (\<lambda>k.
          if k \<noteq> ''cpu'' then Ok result
          else and_then (ok_or InvalidCpu (dt_status_okay dt node)) (\<lambda>enabled.
               and_then (discover_affinity dt cells node) (\<lambda>affinity.
               if affinity AND NOT MPIDR_AFFINITY_MASK \<noteq> 0 then Err InvalidAffinity
               else if \<exists>cpu \<in> set (ct_cpus result). cd_affinity cpu = affinity then Err DuplicateAffinity
               else if ct_count result = MAX_CPUS then Err CpuCapacity
               else and_then (discover_startup dt (ct_psci result) node) (\<lambda>startup.
                 if length (ct_array result) \<le> ct_count result then Panic
                 else Ok (result\<lparr>ct_array := (ct_array result)[ct_count result :=
                            \<lparr>cd_affinity = affinity, cd_enabled = enabled, cd_logical_id = None, cd_startup = startup\<rparr>],
                          ct_count := Suc (ct_count result)\<rparr>))))))"

fun find_position :: "('a \<Rightarrow> bool) \<Rightarrow> nat \<Rightarrow> 'a list \<Rightarrow> nat option" where
  "find_position P i [] = None"
| "find_position P i (x # xs) = (if P x then Some i else find_position P (Suc i) xs)"

fun assign_ids :: "nat \<Rightarrow> cpu_descriptor list \<Rightarrow> cpu_descriptor list" where
  "assign_ids next [] = []"
| "assign_ids next (cpu # cpus) =
     (if cd_enabled cpu then cpu\<lparr>cd_logical_id := Some next\<rparr> # assign_ids (Suc next) cpus
      else cpu # assign_ids next cpus)"

definition swap_at :: "nat \<Rightarrow> nat \<Rightarrow> 'a list \<Rightarrow> 'a list" where
  "swap_at i j xs = xs[i := xs ! j, j := xs ! i]"

text \<open>
  The end of the discovery: the boot CPU to the front, the others by affinity (the keys
  are distinct, so every sorting algorithm gives this list), then the logical ids.
\<close>

definition order_cpus :: "cpu_topology \<Rightarrow> nat \<Rightarrow> cpu_topology" where
  "order_cpus result boot =
     (let swapped = swap_at 0 boot (ct_array result);
          sorted' = take 1 swapped @ sort_key cd_affinity (take (ct_count result - 1) (drop 1 swapped))
                    @ drop (ct_count result) swapped
      in result\<lparr>ct_array := assign_ids 0 (take (ct_count result) sorted') @ drop (ct_count result) sorted'\<rparr>)"

definition discover_cpu_topology ::
  "('n, 'p, 'z) device_tree_scheme \<Rightarrow> u64 \<Rightarrow> (cpu_topology, cpu_discovery_error) outcome" where
  "discover_cpu_topology dt boot_mpidr =
     and_then (ok_or MissingCpus (dt_find_node dt ''/cpus'')) (\<lambda>parent.
     and_then (ok_or InvalidCpu (dt_status_okay dt parent)) (\<lambda>okay.
     if \<not> okay then Err MissingCpus
     else and_then (ok_or InvalidCells (dt_property dt parent ''#address-cells'')) (\<lambda>p.
     and_then (ok_or InvalidCells (dt_as_u32 dt p)) (\<lambda>cells.
     and_then (if \<not> (cells = 1 \<or> cells = 2) then Ok True
               else and_then (ok_or InvalidCells (dt_property dt parent ''#size-cells'')) (\<lambda>p.
                    and_then (ok_or InvalidCells (dt_as_u32 dt p)) (\<lambda>sz. Ok (sz \<noteq> 0)))) (\<lambda>bad.
     if bad then Err InvalidCells
     else and_then (discover_psci dt) (\<lambda>psci.
     and_then (try_fold (discover_cpu dt cells)
                \<lparr>ct_array = replicate MAX_CPUS EMPTY_CPU, ct_count = 0, ct_psci = psci\<rparr> (dt_children dt parent)) (\<lambda>result.
     and_then (ok_or BootCpuMissing (find_position (\<lambda>cpu. cd_enabled cpu \<and> cd_affinity cpu = boot_mpidr AND MPIDR_AFFINITY_MASK)
                 0 (ct_cpus result))) (\<lambda>boot.
     Ok (order_cpus result boot)))))))))"

datatype cpu_on_check = MandatoryV0_2 | QueryFeatures u32

definition cpu_on_check_of :: "u32 \<Rightarrow> cpu_on_check option" where
  "cpu_on_check_of version =
     (let major = drop_bit 16 version; minor = version AND 0xffff in
      if 1 \<le> major \<and> major < 0x8000 then Some (QueryFeatures 0xc4000003)
      else if major = 0 \<and> minor = 2 then Some MandatoryV0_2 else None)"

section \<open>Well-formed topologies\<close>

definition cpu_wf :: "cpu_descriptor \<Rightarrow> bool" where
  "cpu_wf c \<longleftrightarrow> cd_affinity c AND NOT MPIDR_AFFINITY_MASK = 0 \<and>
     (\<forall>a. cd_startup c = SpinTable a \<longrightarrow> a AND 7 = 0 \<and> unat a + 8 < 2 ^ 64)"

definition ids_ok :: "nat \<Rightarrow> cpu_descriptor list \<Rightarrow> bool" where
  "ids_ok next cpus \<longleftrightarrow> (\<forall>i < length cpus. cd_logical_id (cpus ! i) =
     (if cd_enabled (cpus ! i) then Some (next + length (filter cd_enabled (take i cpus))) else None))"

definition topology_wf :: "u64 \<Rightarrow> cpu_topology \<Rightarrow> bool" where
  "topology_wf boot_mpidr t \<longleftrightarrow>
     1 \<le> ct_count t \<and> ct_count t \<le> MAX_CPUS \<and> length (ct_array t) = MAX_CPUS \<and>
     (\<forall>c \<in> set (ct_cpus t). cpu_wf c) \<and> distinct (map cd_affinity (ct_cpus t)) \<and>
     cd_enabled (ct_cpus t ! 0) \<and> cd_affinity (ct_cpus t ! 0) = boot_mpidr AND MPIDR_AFFINITY_MASK \<and>
     sorted (map cd_affinity (tl (ct_cpus t))) \<and> ids_ok 0 (ct_cpus t)"

text \<open>What holds of the descriptors while they are being collected.\<close>

definition collect_wf :: "cpu_topology \<Rightarrow> bool" where
  "collect_wf t \<longleftrightarrow> ct_count t \<le> MAX_CPUS \<and> length (ct_array t) = MAX_CPUS \<and>
     (\<forall>c \<in> set (ct_cpus t). cpu_wf c \<and> cd_logical_id c = None) \<and> distinct (map cd_affinity (ct_cpus t))"

lemma discover_startup_wf:
  "discover_startup dt psci node = Ok (SpinTable a) \<Longrightarrow> a AND 7 = 0 \<and> unat a + 8 < 2 ^ 64"
  by (auto simp: discover_startup_def outcome_simps checked_add_def split: option.splits if_splits)

lemma ct_cpus_push:
  "ct_count t < length (ct_array t) \<Longrightarrow>
   ct_cpus (t\<lparr>ct_array := (ct_array t)[ct_count t := d], ct_count := Suc (ct_count t)\<rparr>) = ct_cpus t @ [d]"
  by (simp add: ct_cpus_def take_Suc_conv_app_nth)

lemma discover_cpu_Ok:
  assumes "discover_cpu dt cells t node = Ok t'"
  obtains "t' = t" | d where "cd_logical_id d = None" "cpu_wf d" "cd_affinity d \<notin> cd_affinity ` set (ct_cpus t)"
    "ct_count t \<noteq> MAX_CPUS" "t' = t\<lparr>ct_array := (ct_array t)[ct_count t := d], ct_count := Suc (ct_count t)\<rparr>"
    "ct_count t < length (ct_array t)"
proof (cases "t' = t")
  case False
  then obtain affinity enabled startup where d: "affinity AND NOT MPIDR_AFFINITY_MASK = 0"
      "affinity \<notin> cd_affinity ` set (ct_cpus t)" "ct_count t \<noteq> MAX_CPUS" "discover_startup dt (ct_psci t) node = Ok startup"
      "ct_count t < length (ct_array t)"
      "t' = t\<lparr>ct_array := (ct_array t)[ct_count t := \<lparr>cd_affinity = affinity, cd_enabled = enabled, cd_logical_id = None,
         cd_startup = startup\<rparr>], ct_count := Suc (ct_count t)\<rparr>"
    using assms unfolding discover_cpu_def
    by (auto simp: outcome_simps not_le split: option.splits if_splits)
  have "cpu_wf \<lparr>cd_affinity = affinity, cd_enabled = enabled, cd_logical_id = None, cd_startup = startup\<rparr>"
    using d(1) discover_startup_wf [of dt "ct_psci t" node] d(4) by (simp add: cpu_wf_def)
  then show thesis by (intro that(2) [OF _ _ _ d(3,6,5)]) (use d in simp_all)
qed (use that in simp)

lemma discover_cpu_no_panic: "collect_wf t \<Longrightarrow> discover_cpu dt cells t node \<noteq> Panic"
  by (auto simp: discover_cpu_def discover_startup_def discover_affinity_def collect_wf_def outcome_simps
      split: option.splits if_splits)

lemma discover_cpu_wf:
  assumes "discover_cpu dt cells t node = Ok t'" and "collect_wf t"
  shows "collect_wf t'"
  using assms(1)
proof (cases rule: discover_cpu_Ok)
  case (2 d)
  then have "ct_cpus t' = ct_cpus t @ [d]" by (simp add: ct_cpus_push)
  then show ?thesis using 2 assms(2) by (auto simp: collect_wf_def)
qed (use assms in simp)

lemma collect_wf_start: "collect_wf \<lparr>ct_array = replicate MAX_CPUS EMPTY_CPU, ct_count = 0, ct_psci = psci\<rparr>"
  by (simp add: collect_wf_def ct_cpus_def)

lemma find_position_Some:
  "find_position P i xs = Some j \<Longrightarrow> i \<le> j \<and> j - i < length xs \<and> P (xs ! (j - i))"
proof (induction xs arbitrary: i)
  case (Cons x xs)
  show ?case
  proof (cases "P x")
    case False
    then have "find_position P (Suc i) xs = Some j" using Cons.prems by simp
    from Cons.IH [OF this] have "Suc i \<le> j" "j - Suc i < length xs" "P (xs ! (j - Suc i))" by auto
    moreover from this have "j - i = Suc (j - Suc i)" by simp
    ultimately show ?thesis by simp
  qed (use Cons.prems in simp)
qed simp

lemma assign_ids_keeps [simp]:
  "length (assign_ids k cpus) = length cpus"
  "map cd_affinity (assign_ids k cpus) = map cd_affinity cpus"
  "map cd_enabled (assign_ids k cpus) = map cd_enabled cpus"
  "map cd_startup (assign_ids k cpus) = map cd_startup cpus"
  by (induction k cpus rule: assign_ids.induct) auto

lemma ids_ok_Cons:
  "ids_ok k (c # cs) \<longleftrightarrow> cd_logical_id c = (if cd_enabled c then Some k else None) \<and>
     ids_ok (if cd_enabled c then Suc k else k) cs"
  unfolding ids_ok_def by (auto simp: less_Suc_eq_0_disj nth_Cons')

lemma assign_ids_ok: "(\<forall>c \<in> set cpus. cd_logical_id c = None) \<Longrightarrow> ids_ok k (assign_ids k cpus)"
  by (induction k cpus rule: assign_ids.induct) (auto simp: ids_ok_Cons, simp add: ids_ok_def)

lemma assign_ids_nth:
  assumes "i < length cpus"
  shows "cd_affinity (assign_ids k cpus ! i) = cd_affinity (cpus ! i)"
    "cd_enabled (assign_ids k cpus ! i) = cd_enabled (cpus ! i)"
    "cd_startup (assign_ids k cpus ! i) = cd_startup (cpus ! i)"
  using assms by (metis assign_ids_keeps nth_map)+

lemma assign_ids_wf: "(\<forall>c \<in> set cpus. cpu_wf c) \<Longrightarrow> c \<in> set (assign_ids k cpus) \<Longrightarrow> cpu_wf c"
  by (induction k cpus rule: assign_ids.induct) (auto simp: cpu_wf_def split: if_splits)

lemma take_append_exact: "length xs = n \<Longrightarrow> take n (xs @ ys) = xs"
  by simp

lemma ct_array_upd: "ct_count (t\<lparr>ct_array := a\<rparr>) = ct_count t" "ct_array (t\<lparr>ct_array := a\<rparr>) = a"
  by simp_all

lemma order_cpus_list:
  assumes "collect_wf t" and "boot < ct_count t"
  shows "ct_cpus (order_cpus t boot) =
     assign_ids 0 (ct_cpus t ! boot # sort_key cd_affinity (tl (swap_at 0 boot (ct_cpus t))))"
proof -
  let ?n = "ct_count t" and ?w = "swap_at 0 boot (ct_array t)"
  have len: "length (ct_array t) = MAX_CPUS" "?n \<le> MAX_CPUS" using assms(1) by (auto simp: collect_wf_def)
  have lw: "length ?w = MAX_CPUS" by (simp add: swap_at_def len)
  have tk: "take ?n ?w = swap_at 0 boot (ct_cpus t)"
    using assms(2) len by (simp add: swap_at_def ct_cpus_def take_update_swap)
  have "?w \<noteq> []" and "?w ! 0 = ct_cpus t ! boot"
    using assms(2) len by (auto simp: swap_at_def ct_cpus_def nth_list_update)
  then have hd: "take 1 ?w = [ct_cpus t ! boot]" by (cases ?w) auto
  have tl: "take (?n - 1) (drop 1 ?w) = tl (swap_at 0 boot (ct_cpus t))"
    unfolding tk [symmetric] using drop_take [of 1 ?n ?w] by (simp add: drop_Suc)
  let ?s = "take 1 ?w @ sort_key cd_affinity (take (?n - 1) (drop 1 ?w)) @ drop ?n ?w"
  have "length (take 1 ?w @ sort_key cd_affinity (take (?n - 1) (drop 1 ?w))) = ?n"
    using assms(2) len lw by simp
  then have "take ?n ((take 1 ?w @ sort_key cd_affinity (take (?n - 1) (drop 1 ?w))) @ drop ?n ?w) =
      take 1 ?w @ sort_key cd_affinity (take (?n - 1) (drop 1 ?w))"
    by (rule take_append_exact)
  then have "take ?n ?s = take 1 ?w @ sort_key cd_affinity (take (?n - 1) (drop 1 ?w))"
    unfolding append.assoc .
  then have s: "take ?n ?s = ct_cpus t ! boot # sort_key cd_affinity (tl (swap_at 0 boot (ct_cpus t)))"
    unfolding hd tl by simp
  have "length (take ?n ?s) = ?n" using assms(2) len lw by simp
  moreover have "ct_cpus (order_cpus t boot) = take ?n (assign_ids 0 (take ?n ?s) @ drop ?n ?s)"
    by (simp only: order_cpus_def Let_def ct_cpus_def ct_array_upd)
  ultimately have "ct_cpus (order_cpus t boot) = assign_ids 0 (take ?n ?s)"
    using assign_ids_keeps(1) by (metis append_eq_conv_conj)
  then show ?thesis unfolding s .
qed

lemma swap_front:
  assumes "boot < length xs"
  shows "mset (xs ! boot # tl (swap_at 0 boot xs)) = mset xs"
proof -
  have "xs \<noteq> []" using assms by auto
  then have "swap_at 0 boot xs ! 0 = xs ! boot" "swap_at 0 boot xs \<noteq> []"
    using assms by (auto simp: swap_at_def nth_list_update)
  then have "xs ! boot # tl (swap_at 0 boot xs) = swap_at 0 boot xs"
    by (metis hd_conv_nth list.collapse)
  then show ?thesis using assms mset_swap [of boot xs 0] \<open>xs \<noteq> []\<close> by (simp add: swap_at_def)
qed

lemma order_cpus_wf:
  assumes wf: "collect_wf t" and boot: "boot < ct_count t"
    and "cd_enabled (ct_cpus t ! boot)" and "cd_affinity (ct_cpus t ! boot) = boot_mpidr AND MPIDR_AFFINITY_MASK"
  shows "topology_wf boot_mpidr (order_cpus t boot)"
proof -
  let ?x = "ct_cpus t ! boot" and ?r = "tl (swap_at 0 boot (ct_cpus t))"
  have len: "length (ct_cpus t) = ct_count t" "length (ct_array t) = MAX_CPUS" "ct_count t \<le> MAX_CPUS"
    using wf by (auto simp: collect_wf_def ct_cpus_def)
  have ms: "mset (?x # sort_key cd_affinity ?r) = mset (ct_cpus t)"
    using swap_front [of boot "ct_cpus t"] boot len by simp
  then have set: "set (?x # sort_key cd_affinity ?r) = set (ct_cpus t)" by (metis set_mset_mset)
  have "mset (map cd_affinity (?x # sort_key cd_affinity ?r)) = mset (map cd_affinity (ct_cpus t))"
    using ms by (metis mset_map)
  then have dist: "distinct (map cd_affinity (?x # sort_key cd_affinity ?r))"
    using wf unfolding collect_wf_def by (metis mset_eq_imp_distinct_iff)
  note list = order_cpus_list [OF wf boot]
  have cnt: "ct_count (order_cpus t boot) = ct_count t" by (simp add: order_cpus_def Let_def)
  have "length (ct_array (order_cpus t boot)) = MAX_CPUS"
    using len boot by (simp add: order_cpus_def Let_def swap_at_def)
  moreover have "\<forall>c \<in> set (ct_cpus (order_cpus t boot)). cpu_wf c"
    unfolding list using assign_ids_wf set wf by (metis collect_wf_def)
  moreover have "distinct (map cd_affinity (ct_cpus (order_cpus t boot)))" unfolding list using dist by simp
  moreover have "cd_enabled (ct_cpus (order_cpus t boot) ! 0) \<and>
      cd_affinity (ct_cpus (order_cpus t boot) ! 0) = boot_mpidr AND MPIDR_AFFINITY_MASK"
    unfolding list using assms(3,4) by simp
  moreover have "sorted (map cd_affinity (tl (ct_cpus (order_cpus t boot))))"
    unfolding list map_tl assign_ids_keeps by simp
  moreover have "ids_ok 0 (ct_cpus (order_cpus t boot))"
    unfolding list using assign_ids_ok set wf by (metis collect_wf_def)
  ultimately show ?thesis using boot len cnt by (simp add: topology_wf_def)
qed

lemma discover_psci_no_panic: "discover_psci dt \<noteq> Panic"
  unfolding discover_psci_def
  by (rule try_fold_no_panic [where P = "\<lambda>_. True"])
    (auto simp: discover_psci_node_def outcome_simps split: option.splits if_splits)

lemma collect_cpus:
  "try_fold (discover_cpu dt cells) \<lparr>ct_array = replicate MAX_CPUS EMPTY_CPU, ct_count = 0, ct_psci = psci\<rparr> nodes \<noteq> Panic"
  "try_fold (discover_cpu dt cells) \<lparr>ct_array = replicate MAX_CPUS EMPTY_CPU, ct_count = 0, ct_psci = psci\<rparr> nodes = Ok t
     \<Longrightarrow> collect_wf t"
proof -
  show "try_fold (discover_cpu dt cells) \<lparr>ct_array = replicate MAX_CPUS EMPTY_CPU, ct_count = 0, ct_psci = psci\<rparr> nodes \<noteq> Panic"
    by (rule try_fold_no_panic [where P = collect_wf, OF collect_wf_start])
      (auto simp: discover_cpu_no_panic intro: discover_cpu_wf)
  show "try_fold (discover_cpu dt cells) \<lparr>ct_array = replicate MAX_CPUS EMPTY_CPU, ct_count = 0, ct_psci = psci\<rparr> nodes = Ok t
     \<Longrightarrow> collect_wf t"
    by (rule try_fold_invariant [where P = collect_wf, OF _ collect_wf_start]) (auto intro: discover_cpu_wf)
qed

lemma discover_topology_no_panic: "discover_cpu_topology dt boot_mpidr \<noteq> Panic"
  unfolding discover_cpu_topology_def using discover_psci_no_panic [of dt] collect_cpus(1)
  by (auto simp: outcome_simps)

lemma discover_topology_wf:
  assumes ok: "discover_cpu_topology dt boot_mpidr = Ok t"
  shows "topology_wf boot_mpidr t"
proof -
  obtain r boot cells psci nodes where r: "try_fold (discover_cpu dt cells)
      \<lparr>ct_array = replicate MAX_CPUS EMPTY_CPU, ct_count = 0, ct_psci = psci\<rparr> nodes = Ok r" and
    f: "find_position (\<lambda>cpu. cd_enabled cpu \<and> cd_affinity cpu = boot_mpidr AND MPIDR_AFFINITY_MASK) 0 (ct_cpus r) = Some boot"
    and t: "t = order_cpus r boot"
    using ok unfolding discover_cpu_topology_def by (auto simp: outcome_simps split: if_splits)
  from collect_cpus(2) [OF r] find_position_Some [OF f] show ?thesis
    unfolding t by (intro order_cpus_wf) (auto simp: ct_cpus_def)
qed

section \<open>Correctness\<close>

text \<open>
  C31: whatever the device tree answers, CPU discovery does not panic, and a topology it
  returns is well-formed: at most four CPUs with distinct valid affinities and usable
  release addresses, the enabled boot CPU first with logical id 0, the others by
  affinity, and consecutive logical ids for exactly the enabled CPUs.
\<close>

theorem discover_cpu_topology_wf:
  "case discover_cpu_topology dt boot_mpidr of
     Ok t \<Rightarrow> topology_wf boot_mpidr t | Err e \<Rightarrow> True | Panic \<Rightarrow> False"
  using discover_topology_no_panic [of dt boot_mpidr] discover_topology_wf [of dt boot_mpidr]
  by (cases "discover_cpu_topology dt boot_mpidr") auto

end
