(* ===== verification/Tlb_Update.thy ===== *)
theory Tlb_Update
  imports Atomic_Prog Cpu_Topology
begin

text \<open>
  The EL2 mapping-update protocol (\<open>tvisor_util/tlb_update.rs\<close>): a gate, an epoch, a
  membership mask, a phase and per-CPU acknowledgements, all atomics. CPU 0 is the
  table writer (\<open>src/tlb.rs\<close>); every CPU acknowledges for itself; any CPU may declare
  failure or take the gate for a lifecycle change. The proof covers every interleaving,
  including acknowledgements that are stored late.
\<close>

definition SCRATCH_VA :: u64 where "SCRATCH_VA = 0x100000000"

datatype phase = Idle | Quiescing | Replacing | Synchronizing | Complete | PhaseFailed
datatype update_error = UBusy | UFailed | UMembership | UEpoch | UPhase | UMissingAck | UExhausted

text \<open>\<open>us_changer\<close> is auxiliary (who holds gate value 2); no program reads it.\<close>

record update_state =
  us_gate :: u64
  us_epoch :: u64
  us_members :: u64
  us_phase :: u64
  us_requested :: "u64 list"
  us_quiet :: "u64 list"
  us_synced :: "u64 list"
  us_changer :: "nat option"

definition us_new :: update_state where
  "us_new = \<lparr>us_gate = 0, us_epoch = 0, us_members = 0, us_phase = 0,
     us_requested = replicate MAX_CPUS 0, us_quiet = replicate MAX_CPUS 0, us_synced = replicate MAX_CPUS 0,
     us_changer = None\<rparr>"

primrec phase_code :: "phase \<Rightarrow> u64" where
  "phase_code Idle = 0"
| "phase_code Quiescing = 1"
| "phase_code Replacing = 2"
| "phase_code Synchronizing = 3"
| "phase_code Complete = 4"
| "phase_code PhaseFailed = 5"

definition phase_of :: "u64 \<Rightarrow> phase" where
  "phase_of w = (if w = 0 then Idle else if w = 1 then Quiescing else if w = 2 then Replacing
     else if w = 3 then Synchronizing else if w = 4 then Complete else PhaseFailed)"

definition us_load_phase :: "(update_state, phase) prog" where
  "us_load_phase = aload (\<lambda>s. phase_of (us_phase s))"

definition us_fail :: "(update_state, unit) prog" where
  "us_fail = astore (us_phase_update (\<lambda>_. phase_code PhaseFailed))"

definition phase_cas :: "phase \<Rightarrow> phase \<Rightarrow> (update_state, bool) prog" where
  "phase_cas a b = acas us_phase (\<lambda>v. us_phase_update (\<lambda>_. v)) (phase_code a) (phase_code b)"

definition gate_take_change :: "nat \<Rightarrow> (update_state, bool) prog" where
  "gate_take_change cpu = armw (\<lambda>s. if us_gate s = 0 then (s\<lparr>us_gate := 2, us_changer := Some cpu\<rparr>, True) else (s, False))"

definition try_membership_change :: "nat \<Rightarrow> (update_state, bool) prog" where
  "try_membership_change cpu =
     pbind us_load_phase (\<lambda>ph. if ph = PhaseFailed then Ret False
       else pbind (gate_take_change cpu) (\<lambda>won. if \<not> won then Ret False
       else pbind us_load_phase (\<lambda>ph. Ret (ph \<noteq> PhaseFailed))))"

definition finish_membership_change :: "(update_state, (unit, update_error) outcome) prog" where
  "finish_membership_change =
     pbind (armw (\<lambda>s. (s\<lparr>us_gate := 0, us_changer := None\<rparr>, us_gate s))) (\<lambda>old.
       Ret (if old = 2 then Ok () else Panic))"

definition us_begin :: "u64 \<Rightarrow> (update_state, (u64, update_error) outcome) prog" where
  "us_begin members =
     pbind us_load_phase (\<lambda>ph. if ph = PhaseFailed then Ret (Err UFailed)
     else if members AND 1 = 0 \<or> drop_bit MAX_CPUS members \<noteq> 0 \<or> members = 1 then Ret (Err UMembership)
     else pbind (acas us_gate (\<lambda>v. us_gate_update (\<lambda>_. v)) 0 1) (\<lambda>won. if \<not> won then Ret (Err UBusy)
     else pbind us_load_phase (\<lambda>previous.
       if \<not> (previous = Idle \<or> previous = Complete) then pbind us_fail (\<lambda>_. Ret (Err UPhase))
       else pbind (aload us_epoch) (\<lambda>old. case checked_add old 1 of
           None \<Rightarrow> pbind us_fail (\<lambda>_. Ret (Err UExhausted))
         | Some epoch \<Rightarrow>
             pbind (astore (us_members_update (\<lambda>_. members))) (\<lambda>_.
             pbind (astore (us_epoch_update (\<lambda>_. epoch))) (\<lambda>_.
             pbind (phase_cas previous Quiescing) (\<lambda>won. Ret (if won then Ok epoch else Err UFailed))))))))"

definition us_check :: "nat \<Rightarrow> u64 \<Rightarrow> phase \<Rightarrow> (update_state, (unit, update_error) outcome) prog" where
  "us_check cpu epoch phase =
     pbind us_load_phase (\<lambda>ph. if ph = PhaseFailed then Ret (Err UFailed)
     else if MAX_CPUS \<le> cpu then Ret (Err UMembership)
     else pbind (aload us_members) (\<lambda>m. if m AND push_bit cpu 1 = 0 then Ret (Err UMembership)
     else if epoch = 0 then Ret (Err UEpoch)
     else pbind (aload us_epoch) (\<lambda>e. if e \<noteq> epoch then Ret (Err UEpoch)
     else pbind us_load_phase (\<lambda>ph. if ph \<noteq> phase then Ret (Err UPhase)
     else pbind (aload us_gate) (\<lambda>g. Ret (if g \<noteq> 1 then Err UPhase else Ok ()))))))"

definition us_admit :: "nat \<Rightarrow> u64 \<Rightarrow> (update_state, (unit, update_error) outcome) prog" where
  "us_admit cpu epoch =
     pthen (us_check cpu epoch Quiescing) (\<lambda>_. if cpu = 0 then Ret (Err UMembership)
     else pbind (aload (\<lambda>s. us_requested s ! cpu)) (\<lambda>previous. if epoch \<le> previous then Ret (Err UEpoch)
     else pbind (acas (\<lambda>s. us_requested s ! cpu) (\<lambda>v. us_requested_update (\<lambda>l. l[cpu := v])) previous epoch)
            (cas_or UEpoch)))"

definition us_pending :: "nat \<Rightarrow> (update_state, bool) prog" where
  "us_pending cpu =
     (if MAX_CPUS \<le> cpu then Ret False
      else pbind us_load_phase (\<lambda>ph. if ph \<noteq> Quiescing then Ret False
      else pbind (aload (\<lambda>s. us_requested s ! cpu)) (\<lambda>r.
           pbind (aload us_epoch) (\<lambda>e. if r \<noteq> e then Ret False
           else pbind (aload (\<lambda>s. us_quiet s ! cpu)) (\<lambda>q.
                pbind (aload us_epoch) (\<lambda>e. Ret (q \<noteq> e)))))))"

definition us_quiesce :: "nat \<Rightarrow> u64 \<Rightarrow> (update_state, (unit, update_error) outcome) prog" where
  "us_quiesce cpu epoch =
     pthen (us_check cpu epoch Quiescing) (\<lambda>_.
       pbind (if cpu \<noteq> 0 then aload (\<lambda>s. us_requested s ! cpu) else Ret epoch) (\<lambda>r.
       if r \<noteq> epoch then Ret (Err UEpoch)
       else pbind (astore (us_quiet_update (\<lambda>l. l[cpu := epoch]))) (\<lambda>_. Ret (Ok ()))))"

fun us_all :: "(update_state \<Rightarrow> u64 list) \<Rightarrow> nat list \<Rightarrow> (update_state, bool) prog" where
  "us_all acks [] = Ret True"
| "us_all acks (cpu # cpus) =
     pbind (aload us_members) (\<lambda>m. if m AND push_bit cpu 1 = 0 then us_all acks cpus
     else pbind (aload (\<lambda>s. acks s ! cpu)) (\<lambda>a.
          pbind (aload us_epoch) (\<lambda>e. if a = e then us_all acks cpus else Ret False)))"

definition us_all_quiet :: "(update_state, bool) prog" where
  "us_all_quiet = pbind us_load_phase (\<lambda>ph. if ph \<noteq> Quiescing then Ret False else us_all us_quiet [0..<MAX_CPUS])"

definition us_start_replace :: "u64 \<Rightarrow> (update_state, (unit, update_error) outcome) prog" where
  "us_start_replace epoch =
     pthen (us_check 0 epoch Quiescing) (\<lambda>_.
       pbind (us_all us_quiet [0..<MAX_CPUS]) (\<lambda>all.
       if \<not> all then Ret (Err UMissingAck)
       else pbind (phase_cas Quiescing Replacing) (cas_or UPhase)))"

definition us_may_write :: "u64 \<Rightarrow> (update_state, bool) prog" where
  "us_may_write epoch =
     pbind (us_check 0 epoch Replacing) (\<lambda>r. if r \<noteq> Ok () then Ret False else us_all us_quiet [0..<MAX_CPUS])"

definition us_publish :: "u64 \<Rightarrow> (update_state, (unit, update_error) outcome) prog" where
  "us_publish epoch =
     pthen (us_check 0 epoch Replacing) (\<lambda>_. pbind (phase_cas Replacing Synchronizing) (cas_or UPhase))"

definition us_synchronized :: "nat \<Rightarrow> u64 \<Rightarrow> (update_state, (unit, update_error) outcome) prog" where
  "us_synchronized cpu epoch =
     pthen (us_check cpu epoch Synchronizing) (\<lambda>_.
       pbind (astore (us_synced_update (\<lambda>l. l[cpu := epoch]))) (\<lambda>_. Ret (Ok ())))"

definition us_all_synced :: "(update_state, bool) prog" where
  "us_all_synced =
     pbind us_load_phase (\<lambda>ph. if ph \<noteq> Synchronizing then Ret False else us_all us_synced [0..<MAX_CPUS])"

definition us_finish :: "u64 \<Rightarrow> (update_state, (unit, update_error) outcome) prog" where
  "us_finish epoch =
     pthen (us_check 0 epoch Synchronizing) (\<lambda>_.
       pbind (us_all us_synced [0..<MAX_CPUS]) (\<lambda>all.
       if \<not> all then Ret (Err UMissingAck)
       else pthen (pbind (phase_cas Synchronizing Complete) (cas_or UPhase)) (\<lambda>_.
            pbind (astore (us_gate_update (\<lambda>_. 0))) (\<lambda>_. Ret (Ok ())))))"

definition us_reusable :: "u64 \<Rightarrow> (update_state, bool) prog" where
  "us_reusable epoch =
     (if epoch = 0 then Ret False
      else pbind (aload us_epoch) (\<lambda>e. if e \<noteq> epoch then Ret False
      else pbind us_load_phase (\<lambda>ph. if ph \<noteq> Complete then Ret False
      else us_all us_synced [0..<MAX_CPUS])))"

section \<open>The protocol\<close>

definition member :: "update_state \<Rightarrow> nat \<Rightarrow> bool" where
  "member s cpu \<longleftrightarrow> cpu < MAX_CPUS \<and> us_members s AND push_bit cpu 1 \<noteq> 0"

definition all_quiet :: "update_state \<Rightarrow> bool" where
  "all_quiet s \<longleftrightarrow> (\<forall>cpu. member s cpu \<longrightarrow> us_quiet s ! cpu = us_epoch s)"

definition all_synced :: "update_state \<Rightarrow> bool" where
  "all_synced s \<longleftrightarrow> (\<forall>cpu. member s cpu \<longrightarrow> us_synced s ! cpu = us_epoch s)"

definition us_shape :: "update_state \<Rightarrow> bool" where
  "us_shape s \<longleftrightarrow>
     length (us_requested s) = MAX_CPUS \<and> length (us_quiet s) = MAX_CPUS \<and> length (us_synced s) = MAX_CPUS \<and>
     (\<forall>cpu < MAX_CPUS. us_quiet s ! cpu \<le> us_epoch s \<and> us_synced s ! cpu \<le> us_epoch s)"

definition us_gated :: "update_state \<Rightarrow> bool" where
  "us_gated s \<longleftrightarrow> us_phase s \<le> 5 \<and> (us_gate s = 2 \<longleftrightarrow> us_changer s \<noteq> None) \<and>
     (us_phase s \<in> {1, 2, 3} \<longrightarrow> us_gate s = 1)"

definition us_acked :: "update_state \<Rightarrow> bool" where
  "us_acked s \<longleftrightarrow> (us_phase s \<in> {2, 3} \<longrightarrow> all_quiet s) \<and>
     (us_phase s = 4 \<and> us_gate s \<noteq> 1 \<longrightarrow> all_quiet s \<and> all_synced s)"

definition us_inv :: "update_state \<Rightarrow> bool" where
  "us_inv s \<longleftrightarrow> us_shape s \<and> us_gated s \<and> us_acked s"

text \<open>What the table writer may do, holding the gate.\<close>

definition writer_step :: "update_state \<Rightarrow> update_state \<Rightarrow> bool" where
  "writer_step s s' \<longleftrightarrow>
     (us_gate s = 0 \<and> s' = s\<lparr>us_gate := 1\<rparr>) \<or>
     (us_gate s = 1 \<and>
       (us_phase s \<notin> {1, 2, 3} \<and> (\<exists>m. s' = s\<lparr>us_members := m\<rparr>) \<or>
        us_phase s \<notin> {1, 2, 3} \<and> (\<exists>e. us_epoch s \<le> e \<and> s' = s\<lparr>us_epoch := e\<rparr>) \<or>
        us_phase s \<in> {0, 4} \<and> s' = s\<lparr>us_phase := 1\<rparr> \<or>
        us_phase s = 1 \<and> all_quiet s \<and> s' = s\<lparr>us_phase := 2\<rparr> \<or>
        us_phase s = 2 \<and> s' = s\<lparr>us_phase := 3\<rparr> \<or>
        us_phase s = 3 \<and> all_synced s \<and> s' = s\<lparr>us_phase := 4\<rparr> \<or>
        us_phase s \<in> {4, 5} \<and> all_quiet s \<and> all_synced s \<and> s' = s\<lparr>us_gate := 0\<rparr>))"

definition us_guar :: "nat \<Rightarrow> update_state \<Rightarrow> update_state \<Rightarrow> bool" where
  "us_guar cpu s s' \<longleftrightarrow>
     s' = s \<or> s' = s\<lparr>us_phase := 5\<rparr> \<or>
     (\<exists>l. length l = MAX_CPUS \<and> s' = s\<lparr>us_requested := l\<rparr>) \<or>
     (\<exists>e. us_quiet s ! cpu \<le> e \<and> e \<le> us_epoch s \<and> s' = s\<lparr>us_quiet := (us_quiet s)[cpu := e]\<rparr>) \<or>
     (\<exists>e. us_synced s ! cpu \<le> e \<and> e \<le> us_epoch s \<and> s' = s\<lparr>us_synced := (us_synced s)[cpu := e]\<rparr>) \<or>
     (us_gate s = 0 \<and> s' = s\<lparr>us_gate := 2, us_changer := Some cpu\<rparr>) \<or>
     (us_changer s = Some cpu \<and> s' = s\<lparr>us_gate := 0, us_changer := None\<rparr>) \<or>
     (cpu = 0 \<and> writer_step s s')"

definition us_change :: "nat \<Rightarrow> (update_state, (unit, update_error) outcome) prog" where
  "us_change cpu = pbind (try_membership_change cpu) (\<lambda>ok. if ok then finish_membership_change else Ret (Ok ()))"

definition us_api :: "nat \<Rightarrow> (update_state, unit) prog \<Rightarrow> bool" where
  "us_api cpu p \<longleftrightarrow>
     p = us_fail \<or> p = discard (us_change cpu) \<or> (\<exists>id e. p = discard (us_admit id e)) \<or>
     (\<exists>id. p = discard (us_pending id)) \<or> (\<exists>e. p = discard (us_quiesce cpu e)) \<or>
     (\<exists>e. p = discard (us_synchronized cpu e)) \<or> p = discard us_all_quiet \<or> p = discard us_all_synced \<or>
     (\<exists>e. p = discard (us_reusable e)) \<or>
     (cpu = 0 \<and> ((\<exists>m. p = discard (us_begin m)) \<or> (\<exists>e. p = discard (us_start_replace e)) \<or>
        (\<exists>e. p = discard (us_may_write e)) \<or> (\<exists>e. p = discard (us_publish e)) \<or> (\<exists>e. p = discard (us_finish e))))"

definition us_rely :: "nat \<Rightarrow> update_state \<Rightarrow> update_state \<Rightarrow> bool" where
  "us_rely cpu = (\<lambda>s s'. \<exists>j. j \<noteq> cpu \<and> us_guar j s s')"

abbreviation us_safe ::
  "nat \<Rightarrow> (update_state \<Rightarrow> bool) \<Rightarrow> (update_state, 'a) prog \<Rightarrow> ('a \<Rightarrow> update_state \<Rightarrow> bool) \<Rightarrow> bool" where
  "us_safe cpu \<equiv> safe us_inv (us_rely cpu) (us_guar cpu)"

abbreviation us_stable :: "nat \<Rightarrow> (update_state \<Rightarrow> bool) \<Rightarrow> bool" where
  "us_stable cpu \<equiv> stable_under us_inv (us_rely cpu)"

lemma us_guar_refl [simp]: "us_guar cpu s s"
  by (simp add: us_guar_def)

lemma all_quiet_upd [simp]:
  "all_quiet (s\<lparr>us_phase := p\<rparr>) = all_quiet s" "all_quiet (s\<lparr>us_gate := g\<rparr>) = all_quiet s"
  "all_quiet (s\<lparr>us_requested := l\<rparr>) = all_quiet s" "all_quiet (s\<lparr>us_synced := l\<rparr>) = all_quiet s"
  "all_quiet (s\<lparr>us_changer := c\<rparr>) = all_quiet s"
  "all_synced (s\<lparr>us_phase := p\<rparr>) = all_synced s" "all_synced (s\<lparr>us_gate := g\<rparr>) = all_synced s"
  "all_synced (s\<lparr>us_requested := l\<rparr>) = all_synced s" "all_synced (s\<lparr>us_quiet := l\<rparr>) = all_synced s"
  "all_synced (s\<lparr>us_changer := c\<rparr>) = all_synced s"
  by (simp_all add: all_quiet_def all_synced_def member_def)

text \<open>A late acknowledgement never takes back a current one.\<close>

lemma ack_current:
  assumes "l ! cpu \<le> e" and "e \<le> (epoch::u64)" and "l ! c = epoch"
  shows "l[cpu := e] ! c = epoch"
  using assms by (cases "c = cpu"; cases "cpu < length l") (auto simp: list_update_beyond)

lemma all_quiet_ack:
  "all_quiet s \<Longrightarrow> us_quiet s ! cpu \<le> e \<Longrightarrow> e \<le> us_epoch s \<Longrightarrow>
   all_quiet (s\<lparr>us_quiet := (us_quiet s)[cpu := e]\<rparr>)"
  unfolding all_quiet_def member_def by (simp add: ack_current)

lemma all_synced_ack:
  "all_synced s \<Longrightarrow> us_synced s ! cpu \<le> e \<Longrightarrow> e \<le> us_epoch s \<Longrightarrow>
   all_synced (s\<lparr>us_synced := (us_synced s)[cpu := e]\<rparr>)"
  unfolding all_synced_def member_def by (simp add: ack_current)

lemma ack_bounded: "e \<le> (epoch::u64) \<Longrightarrow> l ! c \<le> epoch \<Longrightarrow> l[cpu := e] ! c \<le> epoch"
  by (cases "c = cpu"; cases "cpu < length l") (auto simp: list_update_beyond)

lemma us_ack_inv:
  assumes "us_inv s" and "e \<le> us_epoch s"
  shows "us_quiet s ! cpu \<le> e \<Longrightarrow> us_inv (s\<lparr>us_quiet := (us_quiet s)[cpu := e]\<rparr>)"
    and "us_synced s ! cpu \<le> e \<Longrightarrow> us_inv (s\<lparr>us_synced := (us_synced s)[cpu := e]\<rparr>)"
  using all_quiet_ack [of s cpu e] all_synced_ack [of s cpu e] assms unfolding us_inv_def
  by (simp_all add: us_shape_def us_gated_def us_acked_def ack_bounded)

lemma us_epoch_inv:
  assumes "us_inv s" and "us_gate s = 1" and "us_phase s \<notin> {1, 2, 3}" and "us_epoch s \<le> e"
  shows "us_inv (s\<lparr>us_epoch := e\<rparr>)"
proof -
  have "us_quiet s ! cpu \<le> e \<and> us_synced s ! cpu \<le> e" if "cpu < MAX_CPUS" for cpu
    using assms that unfolding us_inv_def us_shape_def by (meson order_trans)
  then show ?thesis using assms by (simp add: us_inv_def us_shape_def us_gated_def us_acked_def)
qed

lemmas us_inv_defs = us_inv_def us_shape_def us_gated_def us_acked_def

lemma us_writer_inv:
  assumes "us_inv s" and "writer_step s s'"
  shows "us_inv s'"
  using assms(2) unfolding writer_step_def
proof (elim disjE conjE exE)
  fix e assume "us_gate s = 1" "us_phase s \<notin> {1, 2, 3}" "us_epoch s \<le> e" "s' = s\<lparr>us_epoch := e\<rparr>"
  then show ?thesis using us_epoch_inv assms(1) by simp
next
  assume "us_gate s = 1" "us_phase s \<in> {4, 5}" "all_quiet s" "all_synced s" "s' = s\<lparr>us_gate := 0\<rparr>"
  then show ?thesis using assms(1) by (elim insertE) (simp_all add: us_inv_defs)
qed (use assms(1) in \<open>simp_all add: us_inv_defs\<close>)

lemma us_other_inv:
  assumes "us_inv s"
  shows "us_inv (s\<lparr>us_phase := 5\<rparr>)" and "length l = MAX_CPUS \<Longrightarrow> us_inv (s\<lparr>us_requested := l\<rparr>)"
    and "us_gate s = 0 \<Longrightarrow> us_inv (s\<lparr>us_gate := 2, us_changer := Some cpu\<rparr>)"
proof -
  show "us_inv (s\<lparr>us_phase := 5\<rparr>)" using assms by (simp add: us_inv_defs)
  show "length l = MAX_CPUS \<Longrightarrow> us_inv (s\<lparr>us_requested := l\<rparr>)" using assms by (simp add: us_inv_defs)
  show "us_inv (s\<lparr>us_gate := 2, us_changer := Some cpu\<rparr>)" if "us_gate s = 0"
    using assms that by (simp add: us_inv_defs)
qed

lemma us_release_inv:
  assumes "us_inv s" and "us_changer s = Some cpu"
  shows "us_inv (s\<lparr>us_gate := 0, us_changer := None\<rparr>)"
proof -
  have "us_gate s = 2" "us_phase s \<notin> {1, 2, 3}" using assms by (auto simp: us_inv_def us_gated_def)
  then show ?thesis using assms(1) by (simp add: us_inv_defs)
qed

lemma us_guar_inv: "us_inv s \<Longrightarrow> us_guar cpu s s' \<Longrightarrow> us_inv s'"
  unfolding us_guar_def
  by (elim disjE conjE exE) (simp_all add: us_ack_inv us_writer_inv us_other_inv us_release_inv)

section \<open>Stable knowledge\<close>

lemma us_changer_gate: "us_inv s \<Longrightarrow> us_changer s = Some cpu \<Longrightarrow> us_gate s = 2"
  by (simp add: us_inv_def us_gated_def)

lemma us_guarE:
  assumes "us_guar cpu s s'"
  obtains (same) "s' = s" | (failed) "s' = s\<lparr>us_phase := 5\<rparr>"
    | (requested) l where "s' = s\<lparr>us_requested := l\<rparr>"
    | (quiet) e where "us_quiet s ! cpu \<le> e" "e \<le> us_epoch s" "s' = s\<lparr>us_quiet := (us_quiet s)[cpu := e]\<rparr>"
    | (synced) e where "us_synced s ! cpu \<le> e" "e \<le> us_epoch s" "s' = s\<lparr>us_synced := (us_synced s)[cpu := e]\<rparr>"
    | (take) "us_gate s = 0" "s' = s\<lparr>us_gate := 2, us_changer := Some cpu\<rparr>"
    | (release) "us_changer s = Some cpu" "s' = s\<lparr>us_gate := 0, us_changer := None\<rparr>"
    | (writer) "cpu = 0" "writer_step s s'"
  using assms unfolding us_guar_def by blast

lemma us_guar_other:
  assumes "us_guar j s s'" and "j \<noteq> 0" and "us_inv s"
  shows "us_epoch s' = us_epoch s \<and> us_members s' = us_members s \<and> (us_phase s' = us_phase s \<or> us_phase s' = 5) \<and>
     (us_gate s = 1 \<longleftrightarrow> us_gate s' = 1) \<and> (all_quiet s \<longrightarrow> all_quiet s') \<and> (all_synced s \<longrightarrow> all_synced s')"
  using assms(1)
proof (cases rule: us_guarE)
  case release
  then show ?thesis using us_changer_gate [OF assms(3)] by simp
qed (use assms(2) in \<open>simp_all add: all_quiet_ack all_synced_ack\<close>)

definition acked :: "(update_state \<Rightarrow> u64 list) \<Rightarrow> nat \<Rightarrow> update_state \<Rightarrow> bool" where
  "acked acks cpu s \<longleftrightarrow> (us_members s AND push_bit cpu 1 \<noteq> 0 \<longrightarrow> acks s ! cpu = us_epoch s)"

lemma all_acked: "all_quiet s \<longleftrightarrow> (\<forall>cpu < MAX_CPUS. acked us_quiet cpu s)"
  "all_synced s \<longleftrightarrow> (\<forall>cpu < MAX_CPUS. acked us_synced cpu s)"
  by (auto simp: all_quiet_def all_synced_def acked_def member_def)

lemma us_acked_other:
  assumes "us_guar j s s'" and "j \<noteq> 0" and "us_inv s"
  shows "(acked us_quiet cpu s \<longrightarrow> acked us_quiet cpu s') \<and> (acked us_synced cpu s \<longrightarrow> acked us_synced cpu s')"
  using assms(1) by (cases rule: us_guarE) (use assms(2) in \<open>simp_all add: acked_def ack_current\<close>)

lemma writer_step_keeps:
  "writer_step s s' \<Longrightarrow> us_epoch s \<le> us_epoch s' \<and> (us_phase s = 5 \<longrightarrow> us_phase s' = 5) \<and>
     us_quiet s' = us_quiet s \<and> us_synced s' = us_synced s \<and> us_changer s' = us_changer s"
  unfolding writer_step_def by (elim disjE conjE exE) auto

lemma us_guar_mono:
  assumes "us_guar j s s'"
  shows "us_epoch s \<le> us_epoch s' \<and> (us_phase s = 5 \<longrightarrow> us_phase s' = 5)"
  using assms by (cases rule: us_guarE) (use writer_step_keeps in simp_all)

lemma us_guar_own:
  assumes "us_guar j s s'" and "j \<noteq> cpu" and "us_inv s"
  shows "us_quiet s' ! cpu = us_quiet s ! cpu \<and> us_synced s' ! cpu = us_synced s ! cpu \<and>
     (us_changer s = Some cpu \<longrightarrow> us_changer s' = Some cpu)"
  using assms(1)
proof (cases rule: us_guarE)
  case take
  then show ?thesis using us_changer_gate [OF assms(3), of cpu] by auto
qed (use assms(2) writer_step_keeps in simp_all)

lemma us_epoch_stable [simp]: "us_stable 0 (\<lambda>s. us_epoch s = e)"
  and us_members_stable [simp]: "us_stable 0 (\<lambda>s. us_members s = m)"
  and us_gate_stable [simp]: "us_stable 0 (\<lambda>s. us_gate s = 1)"
  and all_quiet_stable [simp]: "us_stable 0 all_quiet"
  and all_synced_stable [simp]: "us_stable 0 all_synced"
  unfolding stable_under_def us_rely_def using us_guar_other by fastforce+

lemma us_phase_stable [simp]: "us_stable 0 (\<lambda>s. us_phase s = p \<or> us_phase s = 5)"
  unfolding stable_under_def us_rely_def using us_guar_other by metis

lemma us_epoch_le_stable [simp]: "us_stable cpu (\<lambda>s. e \<le> us_epoch s)"
  unfolding stable_under_def us_rely_def using us_guar_mono order_trans by blast

lemma us_failed_stable [simp]: "us_stable cpu (\<lambda>s. us_phase s = 5)"
  unfolding stable_under_def us_rely_def using us_guar_mono by blast

lemma us_own_stable [simp]: "us_stable cpu (\<lambda>s. us_quiet s ! cpu \<le> e)"
  "us_stable cpu (\<lambda>s. us_synced s ! cpu \<le> e)" "us_stable cpu (\<lambda>s. us_changer s = Some cpu)"
  unfolding stable_under_def us_rely_def using us_guar_own by metis+

section \<open>The operations keep to the protocol\<close>

lemma us_armw:
  assumes "\<And>s. us_inv s \<Longrightarrow> P s \<Longrightarrow> us_guar cpu s (fst (f s))"
    and "\<And>s. us_inv s \<Longrightarrow> P s \<Longrightarrow> post (snd (f s)) (fst (f s))"
    and "\<And>a. us_stable cpu (post a)"
  shows "us_safe cpu P (armw f) post"
  using assms by (intro safe_armw) (auto intro: us_guar_inv)

lemma us_load:
  assumes "us_stable cpu P" and "\<And>s. us_inv s \<Longrightarrow> P s \<Longrightarrow> Q (get s) s" and "\<And>a. us_stable cpu (Q a)"
  shows "us_safe cpu P (aload get) (\<lambda>a s. P s \<and> Q a s)"
  by (rule safe_aload) (use assms in \<open>auto intro: stable_under_conj\<close>)

lemma us_load_any:
  assumes "us_stable cpu P"
  shows "us_safe cpu P (aload get) (\<lambda>_. P)"
  by (rule safe_aload) (use assms in auto)

text \<open>What a successful check tells the caller for good.\<close>

definition us_checked :: "nat \<Rightarrow> u64 \<Rightarrow> phase \<Rightarrow> update_state \<Rightarrow> bool" where
  "us_checked cpu e ph s \<longleftrightarrow> e \<le> us_epoch s \<and>
     (cpu < MAX_CPUS \<longrightarrow> us_quiet s ! cpu \<le> e \<and> us_synced s ! cpu \<le> e) \<and>
     (cpu = 0 \<longrightarrow> us_epoch s = e \<and> us_gate s = 1 \<and> (us_phase s = phase_code ph \<or> us_phase s = 5))"

lemma us_epoch_known_stable [simp]:
  "us_stable cpu (\<lambda>s. e \<le> us_epoch s \<and> (cpu < MAX_CPUS \<longrightarrow> us_quiet s ! cpu \<le> e \<and> us_synced s ! cpu \<le> e) \<and>
     (cpu = 0 \<longrightarrow> us_epoch s = e))"
  by (cases "cpu = 0") auto

lemma us_checked_stable [simp]: "us_stable cpu (us_checked cpu e ph)"
  unfolding us_checked_def
  by (cases "cpu = 0") auto

lemma phase_of_code: "phase_of w = ph \<Longrightarrow> w \<le> 5 \<Longrightarrow> w = phase_code ph"
proof -
  assume "phase_of w = ph" "w \<le> 5"
  moreover have "w \<in> {0, 1, 2, 3, 4, 5}" if "w \<le> 5"
  proof -
    have "unat w \<le> 5" using that by (simp add: word_le_nat_alt)
    then have "unat w \<in> {0, 1, 2, 3, 4, 5}" by auto
    then show ?thesis by (auto simp: word_unat_eq_iff)
  qed
  ultimately show ?thesis by (auto simp: phase_of_def)
qed

lemma acked_stable [simp]: "us_stable 0 (acked us_quiet cpu)" "us_stable 0 (acked us_synced cpu)"
  unfolding stable_under_def us_rely_def using us_acked_other by blast+

lemma us_phase_load:
  assumes "us_stable cpu P"
  shows "us_safe cpu P us_load_phase (\<lambda>ph s. P s \<and> (cpu = 0 \<longrightarrow> us_phase s = phase_code ph \<or> us_phase s = 5))"
  unfolding us_load_phase_def
proof (rule us_load [OF assms])
  fix s assume "us_inv s"
  then have "us_phase s \<le> 5" by (simp add: us_inv_def us_gated_def)
  then show "cpu = 0 \<longrightarrow> us_phase s = phase_code (phase_of (us_phase s)) \<or> us_phase s = 5"
    using phase_of_code by blast
qed (cases "cpu = 0"; simp)

lemma us_check_safe:
  assumes P: "us_stable cpu P"
  shows "us_safe cpu P (us_check i e ph) (\<lambda>r s. P s \<and> r \<noteq> Panic \<and> (r = Ok () \<longrightarrow> i < MAX_CPUS \<and> us_checked cpu e ph s))"
    (is "us_safe _ _ _ ?post")
proof (cases "i < MAX_CPUS")
  case True
  let ?K = "\<lambda>s. e \<le> us_epoch s \<and> (cpu < MAX_CPUS \<longrightarrow> us_quiet s ! cpu \<le> e \<and> us_synced s ! cpu \<le> e) \<and> (cpu = 0 \<longrightarrow> us_epoch s = e)"
  let ?F = "\<lambda>s. cpu = 0 \<longrightarrow> us_phase s = phase_code ph \<or> us_phase s = 5"
  have F: "us_stable cpu ?F" by (cases "cpu = 0") simp_all
  have K: "us_stable cpu (\<lambda>s. P s \<and> ?K s)" by (intro stable_under_conj P us_epoch_known_stable)
  have err: "us_safe cpu P' (Ret (Err x)) ?post" if "\<And>s. P' s \<Longrightarrow> P s" for P' x by (rule safe_Ret) (use that in auto)
  have gate: "us_safe cpu (\<lambda>s. (P s \<and> ?K s) \<and> ?F s) (aload us_gate)
      (\<lambda>g s. ((P s \<and> ?K s) \<and> ?F s) \<and> (cpu = 0 \<longrightarrow> g = 1 \<longrightarrow> us_gate s = 1))"
  proof (rule us_load)
    show "us_stable cpu (\<lambda>s. (P s \<and> ?K s) \<and> ?F s)" by (intro stable_under_conj K F)
    show "us_stable cpu (\<lambda>s. cpu = 0 \<longrightarrow> g = 1 \<longrightarrow> us_gate s = 1)" for g by (cases "cpu = 0"; cases "g = 1") auto
  qed simp
  have t5: "us_safe cpu (\<lambda>s. (P s \<and> ?K s) \<and> ?F s) (pbind (aload us_gate) (\<lambda>g. Ret (if g \<noteq> 1 then Err UPhase else Ok ()))) ?post"
    by (rule safe_pbind [OF gate], rule safe_Ret) (use True in \<open>auto simp: us_checked_def\<close>)
  have t4: "us_safe cpu (\<lambda>s. P s \<and> ?K s) (pbind us_load_phase (\<lambda>p. if p \<noteq> ph then Ret (Err UPhase)
      else pbind (aload us_gate) (\<lambda>g. Ret (if g \<noteq> 1 then Err UPhase else Ok ())))) ?post"
    by (rule safe_pbind [OF us_phase_load [OF K]], rule safe_if, rule err)
      (auto intro: safe_weaken [OF t5])
  have t3: "us_safe cpu P (pbind (aload us_epoch) (\<lambda>x. if x \<noteq> e then Ret (Err UEpoch)
      else pbind us_load_phase (\<lambda>p. if p \<noteq> ph then Ret (Err UPhase)
      else pbind (aload us_gate) (\<lambda>g. Ret (if g \<noteq> 1 then Err UPhase else Ok ()))))) ?post"
  proof (rule safe_pbind [where mid = "\<lambda>x s. P s \<and> (x = e \<longrightarrow> ?K s)"])
    show "us_safe cpu P (aload us_epoch) (\<lambda>x s. P s \<and> (x = e \<longrightarrow> ?K s))"
      by (rule us_load [OF P]) (auto simp: us_inv_def us_shape_def intro!: stable_under_imp us_epoch_known_stable)
  qed (rule safe_if, rule err, auto intro: safe_weaken [OF t4])
  have t2: "us_safe cpu P (pbind (aload us_members) (\<lambda>m. if m AND push_bit i 1 = 0 then Ret (Err UMembership)
      else if e = 0 then Ret (Err UEpoch)
      else pbind (aload us_epoch) (\<lambda>x. if x \<noteq> e then Ret (Err UEpoch)
      else pbind us_load_phase (\<lambda>p. if p \<noteq> ph then Ret (Err UPhase)
      else pbind (aload us_gate) (\<lambda>g. Ret (if g \<noteq> 1 then Err UPhase else Ok ())))))) ?post"
    by (rule safe_pbind [OF us_load_any [OF P]], intro safe_if err t3)
  have "\<not> MAX_CPUS \<le> i" using True by simp
  then show ?thesis
    unfolding us_check_def if_not_P [OF \<open>\<not> MAX_CPUS \<le> i\<close>]
    by (intro safe_pbind [OF us_phase_load [OF P]] safe_if err safe_weaken [OF t2]) auto
qed (auto simp: us_check_def intro!: safe_pbind [OF us_phase_load [OF P]] safe_Ret)

text \<open>The writer's scan of the acknowledgements.\<close>

lemma us_all_safe:
  assumes P: "us_stable 0 P" and acks: "\<And>c. us_stable 0 (acked acks c)"
  shows "us_safe 0 P (us_all acks cpus) (\<lambda>b s. P s \<and> (b \<longrightarrow> (\<forall>c\<in>set cpus. acked acks c s)))"
  using P
proof (induction cpus arbitrary: P)
  case (Cons c cpus)
  let ?post = "\<lambda>b s. P s \<and> (b \<longrightarrow> acked acks c s \<and> (\<forall>c\<in>set cpus. acked acks c s))"
  have m: "us_safe 0 P (aload us_members) (\<lambda>m s. P s \<and> us_members s = m)"
    by (rule us_load [OF Cons.prems]) auto
  have rest: "us_safe 0 (\<lambda>s. P s \<and> acked acks c s) (us_all acks cpus) ?post"
    by (rule safe_post [OF Cons.IH]) (use Cons.prems acks in auto)
  have e: "us_safe 0 P (aload us_epoch) (\<lambda>e s. P s \<and> us_epoch s = e)"
    by (rule us_load [OF Cons.prems]) auto
  have ack: "us_stable 0 (\<lambda>s. us_epoch s = a \<longrightarrow> acked acks c s)" for a
    using acks [of c] us_guar_other unfolding stable_under_def us_rely_def by metis
  have "us_safe 0 P (aload (\<lambda>s. acks s ! c)) (\<lambda>a s. P s \<and> (us_epoch s = a \<longrightarrow> acked acks c s))"
    by (rule us_load [OF Cons.prems _ ack]) (simp add: acked_def)
  moreover have "us_safe 0 (\<lambda>s. P s \<and> (us_epoch s = a \<longrightarrow> acked acks c s)) (aload us_epoch)
      (\<lambda>e s. (P s \<and> (us_epoch s = a \<longrightarrow> acked acks c s)) \<and> us_epoch s = e)" for a
    by (rule us_load) (use Cons.prems ack in auto)
  ultimately have member: "us_safe 0 P (pbind (aload (\<lambda>s. acks s ! c)) (\<lambda>a. pbind (aload us_epoch)
      (\<lambda>e. if a = e then us_all acks cpus else Ret False))) ?post"
    by (rule safe_pbind [OF _ safe_pbind]) (auto intro: safe_Ret safe_weaken [OF rest])
  have "us_safe 0 P (us_all acks (c # cpus)) ?post"
    unfolding us_all.simps
  proof (rule safe_pbind [OF m])
    fix m :: u64
    have skip: "us_safe 0 (\<lambda>s. P s \<and> us_members s = m) (us_all acks cpus) ?post" if "m AND push_bit c 1 = 0"
      by (rule safe_weaken [OF rest]) (use that in \<open>auto simp: acked_def\<close>)
    show "us_safe 0 (\<lambda>s. P s \<and> us_members s = m) (if m AND push_bit c 1 = 0 then us_all acks cpus
      else pbind (aload (\<lambda>s. acks s ! c)) (\<lambda>a. pbind (aload us_epoch)
      (\<lambda>e. if a = e then us_all acks cpus else Ret False))) ?post"
      by (intro safe_if skip safe_weaken [OF member]) simp_all
  qed
  then show ?case by (rule safe_post) simp
qed (auto intro: safe_Ret)

lemmas us_all_quiet_safe = us_all_safe [where acks = us_quiet and cpus = "[0..<MAX_CPUS]", OF _ acked_stable(1)]
lemmas us_all_synced_safe = us_all_safe [where acks = us_synced and cpus = "[0..<MAX_CPUS]", OF _ acked_stable(2)]

lemma us_cas_or:
  assumes "us_safe cpu P p (\<lambda>won s. won \<longrightarrow> Q s)"
  shows "us_safe cpu P (pbind p (cas_or e)) (\<lambda>r s. r \<noteq> Panic \<and> (r = Ok () \<longrightarrow> Q s))"
  by (rule safe_pbind [OF assms]) (auto simp: cas_or_def intro!: safe_Ret)

text \<open>The writer moves the phase.\<close>

lemma phase_cas_safe:
  assumes step: "\<And>s. us_inv s \<Longrightarrow> P s \<Longrightarrow> us_phase s = phase_code a \<Longrightarrow>
      writer_step s (s\<lparr>us_phase := phase_code b\<rparr>) \<and> Q (s\<lparr>us_phase := phase_code b\<rparr>)"
    and Q: "us_stable 0 Q"
  shows "us_safe 0 P (phase_cas a b) (\<lambda>won s. won \<longrightarrow> Q s)"
  unfolding phase_cas_def acas_def
proof (rule us_armw)
  show "us_stable 0 (\<lambda>s. won \<longrightarrow> Q s)" for won using Q by auto
qed (use step in \<open>auto simp: us_guar_def\<close>)

abbreviation writer_at :: "u64 \<Rightarrow> phase \<Rightarrow> update_state \<Rightarrow> bool" where
  "writer_at e ph s \<equiv> us_epoch s = e \<and> us_gate s = 1 \<and> (us_phase s = phase_code ph \<or> us_phase s = 5)"

lemma writer_at_stable [simp]: "us_stable 0 (writer_at e ph)"
  by (intro stable_under_conj us_epoch_stable us_gate_stable us_phase_stable)

lemma writer_check_safe:
  "us_safe 0 (\<lambda>_. True) (us_check i e ph) (\<lambda>r s. r \<noteq> Panic \<and> (r = Ok () \<longrightarrow> writer_at e ph s))"
  by (rule safe_post [OF us_check_safe [where P = "\<lambda>_. True"]]) (auto simp: us_checked_def)

lemma scan_all: "(\<forall>c\<in>set [0..<MAX_CPUS]. acked us_quiet c s) = all_quiet s"
  "(\<forall>c\<in>set [0..<MAX_CPUS]. acked us_synced c s) = all_synced s"
  by (auto simp: all_acked)

lemma start_replace_safe:
  "us_safe 0 (\<lambda>_. True) (us_start_replace e)
     (\<lambda>r s. r \<noteq> Panic \<and> (r = Ok () \<longrightarrow> writer_at e Replacing s \<and> all_quiet s))"
proof -
  have st: "us_stable 0 (\<lambda>s. writer_at e Replacing s \<and> all_quiet s)"
    by (rule stable_under_conj [OF writer_at_stable all_quiet_stable])
  have cas: "us_safe 0 (\<lambda>s. writer_at e Quiescing s \<and> all_quiet s) (phase_cas Quiescing Replacing)
      (\<lambda>won s. won \<longrightarrow> writer_at e Replacing s \<and> all_quiet s)"
    by (rule phase_cas_safe [OF _ st]) (simp add: writer_step_def)
  have "us_safe 0 (writer_at e Quiescing) (pbind (us_all us_quiet [0..<MAX_CPUS]) (\<lambda>all.
       if \<not> all then Ret (Err UMissingAck) else pbind (phase_cas Quiescing Replacing) (cas_or UPhase)))
     (\<lambda>r s. r \<noteq> Panic \<and> (r = Ok () \<longrightarrow> writer_at e Replacing s \<and> all_quiet s))"
    using us_all_quiet_safe [OF writer_at_stable, of e Quiescing] unfolding scan_all
    by (rule safe_pbind) (intro safe_if safe_weaken [OF us_cas_or [OF cas]] safe_Ret; simp)
  from safe_weaken [OF this] show ?thesis
    unfolding us_start_replace_def by (intro safe_pthen [OF writer_check_safe]) auto
qed

lemma may_write_safe:
  "us_safe 0 (\<lambda>_. True) (us_may_write e) (\<lambda>b s. b \<longrightarrow> writer_at e Replacing s \<and> all_quiet s)"
proof -
  have "us_safe 0 (writer_at e Replacing) (us_all us_quiet [0..<MAX_CPUS]) (\<lambda>b s. b \<longrightarrow> writer_at e Replacing s \<and> all_quiet s)"
    using us_all_quiet_safe [OF writer_at_stable, of e Replacing] unfolding scan_all by (rule safe_post) simp
  from safe_weaken [OF this] show ?thesis
    unfolding us_may_write_def by (intro safe_pbind [OF writer_check_safe] safe_if safe_Ret) auto
qed

lemma us_publish_safe:
  "us_safe 0 (\<lambda>_. True) (us_publish e) (\<lambda>r s. r \<noteq> Panic \<and> (r = Ok () \<longrightarrow> writer_at e Synchronizing s))"
proof -
  have cas: "us_safe 0 (writer_at e Replacing) (phase_cas Replacing Synchronizing) (\<lambda>won s. won \<longrightarrow> writer_at e Synchronizing s)"
    by (rule phase_cas_safe [OF _ writer_at_stable]) (simp add: writer_step_def)
  from safe_weaken [OF us_cas_or [OF this, of UPhase]] show ?thesis
    unfolding us_publish_def by (intro safe_pthen [OF writer_check_safe]) auto
qed

abbreviation update_done :: "u64 \<Rightarrow> update_state \<Rightarrow> bool" where
  "update_done e s \<equiv> us_epoch s = e \<and> (us_phase s = phase_code Complete \<or> us_phase s = 5) \<and> all_quiet s \<and> all_synced s"

lemma update_done_stable [simp]: "us_stable 0 (update_done e)"
  by (intro stable_under_conj us_epoch_stable us_phase_stable all_quiet_stable all_synced_stable)

lemma us_finish_safe:
  "us_safe 0 (\<lambda>_. True) (us_finish e) (\<lambda>r s. r \<noteq> Panic \<and> (r = Ok () \<longrightarrow> update_done e s))"
proof -
  let ?D = "\<lambda>s. update_done e s \<and> us_gate s = 1"
  have cas: "us_safe 0 (\<lambda>s. writer_at e Synchronizing s \<and> all_synced s) (phase_cas Synchronizing Complete) (\<lambda>won s. won \<longrightarrow> ?D s)"
    by (rule phase_cas_safe [OF _ stable_under_conj [OF update_done_stable us_gate_stable]])
      (simp add: writer_step_def us_inv_def us_acked_def)
  have store: "us_safe 0 ?D (astore (us_gate_update (\<lambda>_. 0))) (\<lambda>_. update_done e)"
    unfolding astore_armw by (rule us_armw) (auto simp: us_guar_def writer_step_def)
  have "us_safe 0 ?D (pbind (astore (us_gate_update (\<lambda>_. 0))) (\<lambda>_. Ret (Ok ()))) (\<lambda>r s. r \<noteq> Panic \<and> (r = Ok () \<longrightarrow> update_done e s))"
    by (rule safe_pbind [OF store]) (auto intro: safe_Ret)
  note tail = safe_weaken [OF this]
  have "us_safe 0 (\<lambda>s. writer_at e Synchronizing s \<and> all_synced s)
      (pthen (pbind (phase_cas Synchronizing Complete) (cas_or UPhase)) (\<lambda>_.
            pbind (astore (us_gate_update (\<lambda>_. 0))) (\<lambda>_. Ret (Ok ())))) (\<lambda>r s. r \<noteq> Panic \<and> (r = Ok () \<longrightarrow> update_done e s))"
    by (rule safe_pthen [OF us_cas_or [OF cas]], rule tail) auto
  note tail2 = safe_weaken [OF this]
  have "us_safe 0 (writer_at e Synchronizing) (pbind (us_all us_synced [0..<MAX_CPUS]) (\<lambda>all.
       if \<not> all then Ret (Err UMissingAck) else pthen (pbind (phase_cas Synchronizing Complete) (cas_or UPhase)) (\<lambda>_.
            pbind (astore (us_gate_update (\<lambda>_. 0))) (\<lambda>_. Ret (Ok ())))))
     (\<lambda>r s. r \<noteq> Panic \<and> (r = Ok () \<longrightarrow> update_done e s))"
    using us_all_synced_safe [OF writer_at_stable, of e Synchronizing] unfolding scan_all
    by (rule safe_pbind) (intro safe_if tail2 safe_Ret; simp)
  from safe_weaken [OF this] show ?thesis
    unfolding us_finish_def by (intro safe_pthen [OF writer_check_safe]) auto
qed

lemma us_reusable_safe:
  "us_safe 0 (\<lambda>_. True) (us_reusable e)
     (\<lambda>b s. b \<longrightarrow> us_epoch s = e \<and> (us_phase s = phase_code Complete \<or> us_phase s = 5) \<and> all_synced s)"
proof -
  let ?P = "\<lambda>s. us_epoch s = e \<and> (us_phase s = phase_code Complete \<or> us_phase s = 5)"
  have st: "us_stable 0 ?P" by (intro stable_under_conj us_epoch_stable us_phase_stable)
  have "us_safe 0 ?P (us_all us_synced [0..<MAX_CPUS]) (\<lambda>b s. b \<longrightarrow> us_epoch s = e \<and> (us_phase s = phase_code Complete \<or> us_phase s = 5) \<and> all_synced s)"
    using us_all_synced_safe [OF st] unfolding scan_all by (rule safe_post) simp
  note scan = safe_weaken [OF this]
  have epoch: "us_safe 0 (\<lambda>_. True) (aload us_epoch) (\<lambda>x s. us_epoch s = x)"
    by (rule safe_post [OF us_load [where P = "\<lambda>_. True" and Q = "\<lambda>x s. us_epoch s = x"]]) auto
  show ?thesis
    unfolding us_reusable_def
    by (intro safe_if safe_pbind [OF epoch] safe_pbind [OF us_phase_load [OF us_epoch_stable]] scan safe_Ret) auto
qed

lemma us_fail_safe: "us_safe cpu P us_fail (\<lambda>_ s. us_phase s = 5)"
  unfolding us_fail_def astore_armw by (rule us_armw) (auto simp: us_guar_def)

text \<open>Starting an update: gate, membership, epoch, and the phase last.\<close>

lemma us_gate_take_safe:
  "us_safe 0 (\<lambda>_. True) (acas us_gate (\<lambda>v. us_gate_update (\<lambda>_. v)) 0 1) (\<lambda>won s. won \<longrightarrow> us_gate s = 1)"
  unfolding acas_def by (rule us_armw) (auto simp: us_guar_def writer_step_def intro!: stable_under_imp)

lemma writer_stores:
  assumes "us_gate s = 1" and "us_phase s \<notin> {1, 2, 3}"
  shows "us_guar 0 s (s\<lparr>us_members := m\<rparr>)" and "us_epoch s \<le> e \<Longrightarrow> us_guar 0 s (s\<lparr>us_epoch := e\<rparr>)"
  using assms unfolding us_guar_def writer_step_def by blast+

lemma writer_quiescing:
  "us_gate s = 1 \<Longrightarrow> us_phase s = 0 \<or> us_phase s = 4 \<Longrightarrow> writer_step s (s\<lparr>us_phase := 1\<rparr>)"
  unfolding writer_step_def by blast

lemma us_begin_commit_safe:
  assumes prev: "prev = Idle \<or> prev = Complete" and e: "checked_add old 1 = Some e"
  shows "us_safe 0 (\<lambda>s. (us_gate s = 1 \<and> (us_phase s = phase_code prev \<or> us_phase s = 5)) \<and> us_epoch s = old)
     (pbind (astore (us_members_update (\<lambda>_. m))) (\<lambda>_.
      pbind (astore (us_epoch_update (\<lambda>_. e))) (\<lambda>_.
      pbind (phase_cas prev Quiescing) (\<lambda>won. Ret (if won then Ok e else Err UFailed)))))
     (\<lambda>r s. r \<noteq> Panic \<and> (\<forall>e. r = Ok e \<longrightarrow> writer_at e Quiescing s \<and> us_members s = m))"
proof -
  let ?G = "\<lambda>s. us_gate s = 1 \<and> (us_phase s = phase_code prev \<or> us_phase s = 5)"
  have ph: "us_phase s \<notin> {1, 2, 3}" if "?G s" for s using prev that by auto
  have le: "old \<le> e" using unat_checked_add [OF e] by (simp add: word_le_nat_alt)
  have G: "us_stable 0 ?G" by (intro stable_under_conj us_gate_stable us_phase_stable)
  have members: "us_safe 0 (\<lambda>s. ?G s \<and> us_epoch s = old) (astore (us_members_update (\<lambda>_. m)))
      (\<lambda>_ s. (?G s \<and> us_epoch s = old) \<and> us_members s = m)"
    unfolding astore_armw
  proof (rule us_armw)
    show "us_stable 0 (\<lambda>s. (?G s \<and> us_epoch s = old) \<and> us_members s = m)"
      by (intro stable_under_conj us_gate_stable us_phase_stable us_epoch_stable us_members_stable)
    show "us_guar 0 s (fst (s\<lparr>us_members := m\<rparr>, ()))" if "?G s \<and> us_epoch s = old" for s
      unfolding fst_conv using writer_stores(1) [of s m] ph [of s] that by blast
  qed simp
  have epoch: "us_safe 0 (\<lambda>s. (?G s \<and> us_epoch s = old) \<and> us_members s = m) (astore (us_epoch_update (\<lambda>_. e)))
      (\<lambda>_ s. (?G s \<and> us_epoch s = e) \<and> us_members s = m)"
    unfolding astore_armw
  proof (rule us_armw)
    show "us_stable 0 (\<lambda>s. (?G s \<and> us_epoch s = e) \<and> us_members s = m)"
      by (intro stable_under_conj us_gate_stable us_phase_stable us_epoch_stable us_members_stable)
    show "us_guar 0 s (fst (s\<lparr>us_epoch := e\<rparr>, ()))" if "(?G s \<and> us_epoch s = old) \<and> us_members s = m" for s
      unfolding fst_conv using writer_stores(2) [of s e] ph [of s] that le by blast
  qed simp
  have cas: "us_safe 0 (\<lambda>s. (?G s \<and> us_epoch s = e) \<and> us_members s = m) (phase_cas prev Quiescing)
      (\<lambda>won s. won \<longrightarrow> writer_at e Quiescing s \<and> us_members s = m)"
    by (rule phase_cas_safe [OF _ stable_under_conj [OF writer_at_stable us_members_stable]])
      (use writer_quiescing prev in auto)
  show ?thesis
    by (rule safe_pbind [OF members safe_pbind [OF epoch safe_pbind [OF cas]]], rule safe_Ret) auto
qed

lemma us_begin_safe:
  "us_safe 0 (\<lambda>_. True) (us_begin m) (\<lambda>r s. r \<noteq> Panic \<and>
     (\<forall>e. r = Ok e \<longrightarrow> writer_at e Quiescing s \<and> us_members s = m))" (is "us_safe _ _ _ ?post")
proof -
  let ?G = "\<lambda>p s. us_gate s = 1 \<and> (us_phase s = phase_code p \<or> us_phase s = 5)"
  have err: "us_safe 0 P (Ret (Err x)) ?post" for P x by (rule safe_Ret) simp
  have fail: "us_safe 0 P (pbind us_fail (\<lambda>_. Ret (Err x))) ?post" for P x
    by (rule safe_pbind [OF us_fail_safe err])
  have prev: "us_safe 0 (\<lambda>s. us_gate s = 1) us_load_phase ?G"
    by (rule safe_post [OF us_phase_load [OF us_gate_stable]]) simp
  have old: "us_safe 0 (?G p) (aload us_epoch) (\<lambda>old s. ?G p s \<and> us_epoch s = old)" for p
    by (rule us_load) (auto intro!: stable_under_conj us_gate_stable us_phase_stable)
  have commit: "us_safe 0 (\<lambda>s. ?G p s \<and> us_epoch s = old) (case checked_add old 1 of
           None \<Rightarrow> pbind us_fail (\<lambda>_. Ret (Err UExhausted))
         | Some epoch \<Rightarrow>
             pbind (astore (us_members_update (\<lambda>_. m))) (\<lambda>_.
             pbind (astore (us_epoch_update (\<lambda>_. epoch))) (\<lambda>_.
             pbind (phase_cas p Quiescing) (\<lambda>won. Ret (if won then Ok epoch else Err UFailed))))) ?post"
    if "\<not> \<not> (p = Idle \<or> p = Complete)" for p old
    using that us_begin_commit_safe [of p old] fail by (cases "checked_add old 1") auto
  have body: "us_safe 0 (\<lambda>s. us_gate s = 1) (pbind us_load_phase (\<lambda>previous.
       if \<not> (previous = Idle \<or> previous = Complete) then pbind us_fail (\<lambda>_. Ret (Err UPhase))
       else pbind (aload us_epoch) (\<lambda>old. case checked_add old 1 of
           None \<Rightarrow> pbind us_fail (\<lambda>_. Ret (Err UExhausted))
         | Some epoch \<Rightarrow>
             pbind (astore (us_members_update (\<lambda>_. m))) (\<lambda>_.
             pbind (astore (us_epoch_update (\<lambda>_. epoch))) (\<lambda>_.
             pbind (phase_cas previous Quiescing) (\<lambda>won. Ret (if won then Ok epoch else Err UFailed))))))) ?post"
    by (rule safe_pbind [OF prev], rule safe_if, rule fail, rule safe_pbind [OF old], rule commit)
  show ?thesis
    unfolding us_begin_def
    by (rule safe_pbind [OF us_phase_load [OF stable_under_True]])
      (intro safe_if err safe_weaken [OF safe_pbind [OF us_gate_take_safe safe_if]] safe_weaken [OF body]; simp)
qed

lemma us_change_safe: "us_safe cpu (\<lambda>_. True) (us_change cpu) (\<lambda>r _. r = Ok ())"
proof -
  let ?H = "\<lambda>s. us_changer s = Some cpu"
  have take: "us_safe cpu P (gate_take_change cpu) (\<lambda>won s. won \<longrightarrow> ?H s)" for P
    unfolding gate_take_change_def by (rule us_armw) (auto simp: us_guar_def intro!: stable_under_imp)
  have rel: "us_safe cpu ?H (armw (\<lambda>s. (s\<lparr>us_gate := 0, us_changer := None\<rparr>, us_gate s))) (\<lambda>g _. g = 2)"
    by (rule us_armw) (auto simp: us_guar_def us_changer_gate)
  have finish: "us_safe cpu ?H finish_membership_change (\<lambda>r _. r = Ok ())"
    unfolding finish_membership_change_def by (rule safe_pbind [OF rel]) (auto intro: safe_Ret)
  have "us_safe cpu (\<lambda>_. True) (try_membership_change cpu) (\<lambda>b s. b \<longrightarrow> ?H s)"
    unfolding try_membership_change_def
    by (rule safe_pbind [OF us_phase_load [OF stable_under_True]], intro safe_if safe_Ret, simp,
        rule safe_weaken [OF safe_pbind [OF take]], intro safe_if safe_Ret, simp,
        rule safe_weaken [OF safe_pbind [OF us_phase_load [OF us_own_stable(3)]]]) (auto intro!: safe_Ret)
  then show ?thesis
    unfolding us_change_def
    by (rule safe_pbind) (intro safe_if safe_weaken [OF finish] safe_Ret; simp)
qed

lemma us_admit_safe: "us_safe cpu (\<lambda>_. True) (us_admit i e) (\<lambda>r _. r \<noteq> Panic)"
proof -
  have "us_safe cpu P (acas (\<lambda>s. us_requested s ! i) (\<lambda>v. us_requested_update (\<lambda>l. l[i := v])) old e) (\<lambda>won s. won \<longrightarrow> True)" for P old
    unfolding acas_def
  proof (rule us_armw)
    fix s assume "us_inv s"
    then have "length ((us_requested s)[i := e]) = MAX_CPUS" by (simp add: us_inv_def us_shape_def)
    moreover have "us_requested_update (\<lambda>l. l[i := e]) s = s\<lparr>us_requested := (us_requested s)[i := e]\<rparr>" by simp
    ultimately have "us_guar cpu s (us_requested_update (\<lambda>l. l[i := e]) s)" unfolding us_guar_def by blast
    then show "us_guar cpu s (fst (if us_requested s ! i = old then (us_requested_update (\<lambda>l. l[i := e]) s, True) else (s, False)))"
      by simp
  qed simp_all
  from us_cas_or [OF this, where e = UEpoch]
  have cas: "us_safe cpu P (pbind (acas (\<lambda>s. us_requested s ! i) (\<lambda>v. us_requested_update (\<lambda>l. l[i := v])) old e) (cas_or UEpoch)) (\<lambda>r _. r \<noteq> Panic)" for P old
    by (rule safe_post) simp
  have load: "us_safe cpu P (aload get) (\<lambda>_ _. True)" for P and get :: "update_state \<Rightarrow> u64"
    by (rule safe_weaken [OF us_load_any]) auto
  show ?thesis
    unfolding us_admit_def
    by (rule safe_pthen [OF us_check_safe [OF stable_under_True]])
      (auto intro!: safe_Ret safe_if safe_pbind [OF load] cas)
qed

lemma us_ack_store:
  "us_safe cpu (us_checked cpu e ph) (astore (us_quiet_update (\<lambda>l. l[cpu := e]))) (\<lambda>_ _. True)"
  "us_safe cpu (us_checked cpu e ph) (astore (us_synced_update (\<lambda>l. l[cpu := e]))) (\<lambda>_ _. True)"
proof -
  have "us_guar cpu s (s\<lparr>us_quiet := (us_quiet s)[cpu := e]\<rparr>) \<and> us_guar cpu s (s\<lparr>us_synced := (us_synced s)[cpu := e]\<rparr>)"
    if "us_checked cpu e ph s" "us_inv s" for s
  proof (cases "cpu < MAX_CPUS")
    case True
    then show ?thesis using that unfolding us_guar_def us_checked_def by blast
  next
    case False
    then show ?thesis using that by (simp add: us_inv_def us_shape_def list_update_beyond)
  qed
  moreover have upd: "us_quiet_update (\<lambda>l. l[cpu := e]) s = s\<lparr>us_quiet := (us_quiet s)[cpu := e]\<rparr>"
    "us_synced_update (\<lambda>l. l[cpu := e]) s = s\<lparr>us_synced := (us_synced s)[cpu := e]\<rparr>" for s by simp_all
  ultimately show "us_safe cpu (us_checked cpu e ph) (astore (us_quiet_update (\<lambda>l. l[cpu := e]))) (\<lambda>_ _. True)"
    "us_safe cpu (us_checked cpu e ph) (astore (us_synced_update (\<lambda>l. l[cpu := e]))) (\<lambda>_ _. True)"
    unfolding astore_armw by - (rule us_armw; auto simp: upd)+
qed

lemma us_quiesce_safe: "us_safe cpu (\<lambda>_. True) (us_quiesce cpu e) (\<lambda>r _. r \<noteq> Panic)"
proof -
  have req: "us_safe cpu (us_checked cpu e Quiescing) (if cpu \<noteq> 0 then aload (\<lambda>s. us_requested s ! cpu) else Ret e)
      (\<lambda>_. us_checked cpu e Quiescing)"
    by (auto intro: us_load_any safe_Ret)
  have "us_safe cpu (us_checked cpu e Quiescing)
      (pbind (if cpu \<noteq> 0 then aload (\<lambda>s. us_requested s ! cpu) else Ret e) (\<lambda>r. if r \<noteq> e then Ret (Err UEpoch)
       else pbind (astore (us_quiet_update (\<lambda>l. l[cpu := e]))) (\<lambda>_. Ret (Ok ())))) (\<lambda>r _. r \<noteq> Panic)"
    by (rule safe_pbind [OF req]) (auto intro!: safe_if safe_Ret safe_pbind [OF us_ack_store(1)])
  note body = safe_weaken [OF this]
  show ?thesis
    unfolding us_quiesce_def by (rule safe_pthen [OF us_check_safe [OF stable_under_True]], rule body) auto
qed

lemma us_synchronized_safe: "us_safe cpu (\<lambda>_. True) (us_synchronized cpu e) (\<lambda>r _. r \<noteq> Panic)"
proof -
  have "us_safe cpu (us_checked cpu e Synchronizing)
      (pbind (astore (us_synced_update (\<lambda>l. l[cpu := e]))) (\<lambda>_. Ret (Ok ()))) (\<lambda>r _. r \<noteq> Panic)"
    by (rule safe_pbind [OF us_ack_store(2)]) (auto intro: safe_Ret)
  note body = safe_weaken [OF this]
  show ?thesis
    unfolding us_synchronized_def by (rule safe_pthen [OF us_check_safe [OF stable_under_True]], rule body) auto
qed

lemma us_all_reads: "reads (3 * length cpus) (us_all acks cpus)"
proof (induction cpus)
  case (Cons c cpus)
  have "reads (Suc 0 + (Suc 0 + (Suc 0 + 3 * length cpus))) (us_all acks (c # cpus))"
    unfolding us_all.simps
  proof (rule reads_pbind)
    have "reads (Suc 0 + (Suc 0 + 3 * length cpus)) (pbind (aload (\<lambda>s. acks s ! c)) (\<lambda>a.
          pbind (aload us_epoch) (\<lambda>e. if a = e then us_all acks cpus else Ret False)))"
      by (intro reads_pbind) (auto intro: Cons)
    moreover have "reads (Suc 0 + (Suc 0 + 3 * length cpus)) (us_all acks cpus)"
      by (rule reads_mono [OF Cons]) simp
    ultimately show "reads (Suc 0 + (Suc 0 + 3 * length cpus)) (if m AND push_bit c 1 = 0 then us_all acks cpus
        else pbind (aload (\<lambda>s. acks s ! c)) (\<lambda>a. pbind (aload us_epoch) (\<lambda>e. if a = e then us_all acks cpus else Ret False)))" for m
      by (cases "m AND push_bit c 1 = 0") (simp_all only: if_True if_False simp_thms)
  qed simp
  then show ?case by (rule reads_mono) simp
qed simp

lemma us_queries_safe:
  "us_safe cpu P (us_pending i) (\<lambda>_ _. True)" "us_safe cpu P us_all_quiet (\<lambda>_ _. True)"
  "us_safe cpu P us_all_synced (\<lambda>_ _. True)" "us_safe cpu P (us_reusable e) (\<lambda>_ _. True)"
proof -
  have all: "us_safe cpu P (us_all acks cpus) (\<lambda>_ _. True)" for P acks cpus
    by (rule reads_safe [OF us_all_reads]) simp
  have load: "us_safe cpu P (aload get) (\<lambda>_ _. True)" for P and get :: "update_state \<Rightarrow> 'a"
    by (rule reads_safe [OF reads_aload]) simp
  note qs = safe_pbind [OF load] safe_if all safe_done
  show "us_safe cpu P (us_pending i) (\<lambda>_ _. True)" "us_safe cpu P us_all_quiet (\<lambda>_ _. True)"
    "us_safe cpu P us_all_synced (\<lambda>_ _. True)" "us_safe cpu P (us_reusable e) (\<lambda>_ _. True)"
    unfolding us_pending_def us_all_quiet_def us_all_synced_def us_reusable_def us_load_phase_def
    by (intro qs)+
qed

lemma us_api_safe: "us_api cpu p \<Longrightarrow> us_safe cpu (\<lambda>_. True) p (\<lambda>_ _. True)"
  unfolding us_api_def
  by (elim disjE exE conjE)
    (auto intro!: safe_post [OF us_fail_safe] intro: safe_discard [OF us_change_safe] safe_discard [OF us_admit_safe]
      safe_discard [OF us_queries_safe(1)] safe_discard [OF us_quiesce_safe] safe_discard [OF us_synchronized_safe]
      safe_discard [OF us_queries_safe(2)] safe_discard [OF us_queries_safe(3)] safe_discard [OF us_queries_safe(4)]
      safe_discard [OF us_begin_safe] safe_discard [OF start_replace_safe] safe_discard [OF may_write_safe]
      safe_discard [OF us_publish_safe] safe_discard [OF us_finish_safe])

interpretation us: shared_protocol us_inv us_guar us_api
  unfolding us_rely_def [symmetric]
  by unfold_locales (use us_guar_inv us_api_safe us_rely_def in \<open>auto simp: us_rely_def\<close>)

section \<open>An update without interference\<close>

lemmas us_program_defs = us_begin_def us_check_def us_admit_def us_quiesce_def us_start_replace_def us_publish_def
  us_synchronized_def us_finish_def us_load_phase_def phase_cas_def us_reusable_def us_may_write_def cas_or_def phase_of_def

lemma replicate_eqs: "replicate 4 (0::u64) = [0, 0, 0, 0]"
  by (simp add: numeral_eq_Suc)

lemma upt_cpus: "[0..<MAX_CPUS] = [0, 1, 2, 3]"
  by (simp add: MAX_CPUS_def upt_rec)

lemmas us_eval = us_program_defs prog_defs run_pbind MAX_CPUS_def upt_cpus [unfolded MAX_CPUS_def]

definition us_st :: "u64 \<Rightarrow> u64 \<Rightarrow> u64 list \<Rightarrow> u64 list \<Rightarrow> u64 list \<Rightarrow> update_state" where
  "us_st gate ph req quiet synced = \<lparr>us_gate = gate, us_epoch = 1, us_members = 3, us_phase = ph,
     us_requested = req, us_quiet = quiet, us_synced = synced, us_changer = None\<rparr>"

lemma us_example_run:
  "run (us_begin 3) us_new = (Ok 1, us_st 1 1 [0, 0, 0, 0] [0, 0, 0, 0] [0, 0, 0, 0])"
  "run (us_admit 1 1) (us_st 1 1 [0, 0, 0, 0] [0, 0, 0, 0] [0, 0, 0, 0]) = (Ok (), us_st 1 1 [0, 1, 0, 0] [0, 0, 0, 0] [0, 0, 0, 0])"
  "run (us_quiesce 1 1) (us_st 1 1 [0, 1, 0, 0] [0, 0, 0, 0] [0, 0, 0, 0]) = (Ok (), us_st 1 1 [0, 1, 0, 0] [0, 1, 0, 0] [0, 0, 0, 0])"
  "run (us_quiesce 0 1) (us_st 1 1 [0, 1, 0, 0] [0, 1, 0, 0] [0, 0, 0, 0]) = (Ok (), us_st 1 1 [0, 1, 0, 0] [1, 1, 0, 0] [0, 0, 0, 0])"
  "run (us_start_replace 1) (us_st 1 1 [0, 1, 0, 0] [1, 1, 0, 0] [0, 0, 0, 0]) = (Ok (), us_st 1 2 [0, 1, 0, 0] [1, 1, 0, 0] [0, 0, 0, 0])"
  by (simp_all add: us_eval us_new_def us_st_def checked_add_def replicate_eqs)

lemma us_example_end:
  "run (us_publish 1) (us_st 1 2 [0, 1, 0, 0] [1, 1, 0, 0] [0, 0, 0, 0]) = (Ok (), us_st 1 3 [0, 1, 0, 0] [1, 1, 0, 0] [0, 0, 0, 0])"
  "run (us_synchronized 1 1) (us_st 1 3 [0, 1, 0, 0] [1, 1, 0, 0] [0, 0, 0, 0]) = (Ok (), us_st 1 3 [0, 1, 0, 0] [1, 1, 0, 0] [0, 1, 0, 0])"
  "run (us_synchronized 0 1) (us_st 1 3 [0, 1, 0, 0] [1, 1, 0, 0] [0, 1, 0, 0]) = (Ok (), us_st 1 3 [0, 1, 0, 0] [1, 1, 0, 0] [1, 1, 0, 0])"
  "run (us_finish 1) (us_st 1 3 [0, 1, 0, 0] [1, 1, 0, 0] [1, 1, 0, 0]) = (Ok (), us_st 0 4 [0, 1, 0, 0] [1, 1, 0, 0] [1, 1, 0, 0])"
  "run (us_reusable 1) (us_st 0 4 [0, 1, 0, 0] [1, 1, 0, 0] [1, 1, 0, 0]) = (True, us_st 0 4 [0, 1, 0, 0] [1, 1, 0, 0] [1, 1, 0, 0])"
  "run (us_may_write 1) (us_st 1 2 [0, 1, 0, 0] [1, 1, 0, 0] [0, 0, 0, 0]) = (True, us_st 1 2 [0, 1, 0, 0] [1, 1, 0, 0] [0, 0, 0, 0])"
  by (simp_all add: us_eval us_st_def)

lemma us_new_inv: "us_inv us_new"
  by (simp add: us_inv_defs us_new_def MAX_CPUS_def)

lemma us_example_reach:
  "(istep us_api)\<^sup>*\<^sup>* (us_new, \<lambda>_. Ret ()) (us_st 1 2 [0, 1, 0, 0] [1, 1, 0, 0] [0, 0, 0, 0], \<lambda>_. Ret ())"
  "(istep us_api)\<^sup>*\<^sup>* (us_st 1 2 [0, 1, 0, 0] [1, 1, 0, 0] [0, 0, 0, 0], \<lambda>_. Ret ())
     (us_st 0 4 [0, 1, 0, 0] [1, 1, 0, 0] [1, 1, 0, 0], \<lambda>_. Ret ())"
proof -
  have step: "(istep us_api)\<^sup>*\<^sup>* (s, \<lambda>_. Ret ()) (t, \<lambda>_. Ret ())"
    if "run p s = (a, t)" "us_api i (discard p)" for p s t i and a :: 'a
    using run_isteps [of us_api i "discard p" "\<lambda>_. Ret ()" s] that by simp
  have api: "us_api 0 (discard (us_begin 3))" "us_api 1 (discard (us_admit 1 1))" "us_api 1 (discard (us_quiesce 1 1))"
    "us_api 0 (discard (us_quiesce 0 1))" "us_api 0 (discard (us_start_replace 1))" "us_api 0 (discard (us_publish 1))"
    "us_api 1 (discard (us_synchronized 1 1))" "us_api 0 (discard (us_synchronized 0 1))" "us_api 0 (discard (us_finish 1))"
    unfolding us_api_def by blast+
  show "(istep us_api)\<^sup>*\<^sup>* (us_new, \<lambda>_. Ret ()) (us_st 1 2 [0, 1, 0, 0] [1, 1, 0, 0] [0, 0, 0, 0], \<lambda>_. Ret ())"
    using step [OF us_example_run(1) api(1)] step [OF us_example_run(2) api(2)] step [OF us_example_run(3) api(3)]
      step [OF us_example_run(4) api(4)] step [OF us_example_run(5) api(5)] by (meson rtranclp_trans)
  show "(istep us_api)\<^sup>*\<^sup>* (us_st 1 2 [0, 1, 0, 0] [1, 1, 0, 0] [0, 0, 0, 0], \<lambda>_. Ret ())
     (us_st 0 4 [0, 1, 0, 0] [1, 1, 0, 0] [1, 1, 0, 0], \<lambda>_. Ret ())"
    using step [OF us_example_end(1) api(6)] step [OF us_example_end(2) api(7)] step [OF us_example_end(3) api(8)]
      step [OF us_example_end(4) api(9)] by (meson rtranclp_trans)
qed

section \<open>Correctness\<close>

text \<open>
  C2: the mapping-update protocol under any interleaving of its operations. Tables are
  replaced, and the replacement synchronised, only while every member CPU has
  acknowledged quiescence in the current epoch and no lifecycle change holds the gate;
  an update that completed and released the gate has every member synchronised in its
  epoch; epochs never go back; and a failure is permanent.
\<close>

theorem tlb_update_safe:
  assumes "(istep us_api)\<^sup>*\<^sup>* (us_new, \<lambda>_. Ret ()) (s, pool)" and "(istep us_api)\<^sup>*\<^sup>* (s, pool) (s', pool')"
  shows "(us_phase s \<in> {phase_code Replacing, phase_code Synchronizing} \<longrightarrow>
            us_gate s = 1 \<and> us_changer s = None \<and> (\<forall>cpu. member s cpu \<longrightarrow> us_quiet s ! cpu = us_epoch s)) \<and>
         (us_phase s = phase_code Complete \<and> us_gate s \<noteq> 1 \<longrightarrow>
            (\<forall>cpu. member s cpu \<longrightarrow> us_synced s ! cpu = us_epoch s)) \<and>
         us_epoch s \<le> us_epoch s' \<and>
         (us_phase s = phase_code PhaseFailed \<longrightarrow> us_phase s' = phase_code PhaseFailed)"
proof -
  have inv: "us_inv s" using us.reachable_inv [OF us_new_inv refl assms(1)] .
  have ok: "us.conf_ok (s, pool)" by (rule us.isteps_ok [OF assms(1) us.start_ok [OF us_new_inv]]) simp
  have "us_epoch s \<le> us_epoch s'"
    using us.isteps_stable [OF assms(2) ok, of "\<lambda>t. us_epoch s \<le> us_epoch t"] us_guar_mono
    by (metis fst_conv order_refl order_trans)
  moreover have "us_phase s' = 5" if "us_phase s = 5"
    using us.isteps_stable [OF assms(2) ok, of "\<lambda>t. us_phase t = 5"] us_guar_mono that by (metis fst_conv)
  moreover have "us_gate s = 1 \<and> us_changer s = None \<and> all_quiet s" if "us_phase s \<in> {2, 3}"
    using inv that by (auto simp: us_inv_def us_gated_def us_acked_def)
  moreover have "all_synced s" if "us_phase s = 4" "us_gate s \<noteq> 1"
    using inv that by (simp add: us_inv_def us_acked_def)
  ultimately show ?thesis by (simp add: all_quiet_def all_synced_def)
qed

theorem tlb_update_safe_witness:
  "\<exists>s. (istep us_api)\<^sup>*\<^sup>* (us_new, \<lambda>_. Ret ()) (s, \<lambda>_. Ret ()) \<and> us_phase s = phase_code Replacing \<and>
     member s 1 \<and> us_quiet s ! 1 = us_epoch s"
proof -
  let ?s = "us_st 1 2 [0, 1, 0, 0] [1, 1, 0, 0] [0, 0, 0, 0]"
  have m: "member ?s 1" "us_phase ?s = phase_code Replacing" by (simp_all add: member_def us_st_def MAX_CPUS_def)
  have "us_quiet ?s ! 1 = us_epoch ?s" using tlb_update_safe [OF us_example_reach] m by blast
  then show ?thesis using us_example_reach(1) m by blast
qed

text \<open>
  C23: what the writer may conclude. While other CPUs acknowledge, fail and change
  lifecycle at any point, a \<open>may_write\<close> that answers true leaves every member quiescent
  in the given epoch with the gate held, and a \<open>reusable\<close> that answers true leaves every
  member synchronised in it; no late acknowledgement of an earlier epoch counts.
\<close>

theorem writer_authorisation:
  assumes "us_inv s"
  shows "(exec (us_rely 0) (us_may_write e) s True t \<longrightarrow>
            us_epoch t = e \<and> us_gate t = 1 \<and> (\<forall>cpu. member t cpu \<longrightarrow> us_quiet t ! cpu = e)) \<and>
         (exec (us_rely 0) (us_reusable e) s True t \<longrightarrow>
            us_epoch t = e \<and> (\<forall>cpu. member t cpu \<longrightarrow> us_synced t ! cpu = e))"
proof -
  have "us_epoch t = e \<and> us_gate t = 1 \<and> all_quiet t" if "exec (us_rely 0) (us_may_write e) s True t"
    using us.exec_ok [where P = "\<lambda>_. True", OF that [unfolded us_rely_def] assms TrueI
        may_write_safe [unfolded us_rely_def] stable_under_True] by simp
  moreover have "us_epoch t = e \<and> all_synced t" if "exec (us_rely 0) (us_reusable e) s True t"
    using us.exec_ok [where P = "\<lambda>_. True", OF that [unfolded us_rely_def] assms TrueI
        us_reusable_safe [unfolded us_rely_def] stable_under_True] by simp
  ultimately show ?thesis by (auto simp: all_quiet_def all_synced_def)
qed

theorem writer_authorisation_witness:
  "\<exists>s t. us_inv s \<and> exec (us_rely 0) (us_reusable 1) s True t \<and> member t 1 \<and> us_synced t ! 1 = 1"
proof -
  let ?s = "us_st 0 4 [0, 1, 0, 0] [1, 1, 0, 0] [1, 1, 0, 0]"
  have inv: "us_inv ?s"
    using us.reachable_inv [OF us_new_inv refl rtranclp_trans [OF us_example_reach]] .
  have e: "exec (us_rely 0) (us_reusable 1) ?s True ?s"
    using exec_run [of "us_rely 0" "us_reusable 1" ?s] us_example_end(5) by simp
  moreover have "member ?s 1" by (simp add: member_def us_st_def MAX_CPUS_def)
  ultimately show ?thesis using writer_authorisation [OF inv, of 1 ?s] inv by blast
qed

text \<open>
  C26: the assertion of \<open>finish_membership_change\<close> never fires: a CPU that took the gate
  for a lifecycle change finds it unchanged, whatever the table writer and other CPUs do.
\<close>

theorem membership_change_never_panics:
  assumes "us_inv s" and "exec (us_rely cpu) (us_change cpu) s r t"
  shows "r = Ok ()"
  using us.exec_ok [where P = "\<lambda>_. True", OF assms(2) [unfolded us_rely_def] assms(1) TrueI
      us_change_safe [unfolded us_rely_def] stable_under_True] by simp

theorem membership_change_never_panics_witness:
  "\<exists>t. exec (us_rely 2) (us_change 2) us_new (Ok ()) t"
  using membership_change_never_panics [OF us_new_inv exec_run, of 2]
    exec_run [of "us_rely 2" "us_change 2" us_new] by metis

end
