(* ===== verification/Secondary_Entry.thy ===== *)
theory Secondary_Entry
  imports Cpu_Topology
begin

text \<open>
  Release preflight for the enabled secondary CPUs (\<open>tvisor_util/secondary_entry.rs\<close>) and
  the selection of the BCM2711 spin-table profile (\<open>tvisor_util/secondary_backend.rs\<close>). The
  lemmas relate the preflight to the topologies discovery produces. \<open>core::ptr::eq\<close> on
  descriptors of the same slice is equality of their positions.
\<close>

record entry_contract =
  el2_mmu_off :: bool
  coherent :: bool

datatype entry_error = MissingTarget | InvalidTarget | UnsupportedMethod | SharedReleaseCell
  | EntryContractUnverified | CoherencyUnverified

definition any_other :: "(cpu_descriptor \<Rightarrow> bool) \<Rightarrow> nat \<Rightarrow> cpu_descriptor list \<Rightarrow> bool" where
  "any_other P i cpus \<longleftrightarrow> (\<exists>j \<in> set [0..<length cpus]. j \<noteq> i \<and> P (cpus ! j))"

fun mask_loop :: "cpu_descriptor list \<Rightarrow> nat \<Rightarrow> cpu_descriptor list \<Rightarrow> u64 \<Rightarrow> (u64, entry_error) outcome" where
  "mask_loop cpus i [] seen = Ok seen"
| "mask_loop cpus i (cpu # rest) seen =
     (if \<not> cd_enabled cpu then mask_loop cpus (Suc i) rest seen
      else and_then (ok_or InvalidTarget (cd_logical_id cpu)) (\<lambda>k.
        if MAX_CPUS \<le> k \<or> seen AND push_bit k 1 \<noteq> 0 then Err InvalidTarget
        else if cd_affinity cpu AND NOT MPIDR_AFFINITY_MASK \<noteq> 0 \<or>
                any_other (\<lambda>other. cd_enabled other \<and> cd_affinity other = cd_affinity cpu) i cpus then Err InvalidTarget
        else mask_loop cpus (Suc i) rest (seen OR push_bit k 1)))"

definition secondary_mask :: "cpu_descriptor list \<Rightarrow> (u64, entry_error) outcome" where
  "secondary_mask cpus =
     and_then (mask_loop cpus 0 cpus 0) (\<lambda>seen.
       if seen AND 1 = 0 then Err InvalidTarget
       else if seen AND NOT 1 = 0 then Err MissingTarget
       else Ok (seen AND NOT 1))"

definition select_secondary :: "cpu_descriptor list \<Rightarrow> (nat, entry_error) outcome" where
  "select_secondary cpus =
     (case filter (\<lambda>k. k \<noteq> 0) (List.map_filter cd_logical_id (filter cd_enabled cpus)) of
        [] \<Rightarrow> Err MissingTarget
      | k # ks \<Rightarrow> Ok (foldl min k ks))"

definition validate_spin_table_target :: "cpu_descriptor list \<Rightarrow> nat \<Rightarrow> (u64, entry_error) outcome" where
  "validate_spin_table_target cpus target =
     and_then (ok_or MissingTarget (find_position (\<lambda>cpu. cd_logical_id cpu = Some target) 0 cpus)) (\<lambda>i.
     let cpu = cpus ! i in
     if target = 0 \<or> MAX_CPUS \<le> target \<or> \<not> cd_enabled cpu \<or> cd_affinity cpu AND NOT MPIDR_AFFINITY_MASK \<noteq> 0 \<or>
        any_other (\<lambda>other. cd_enabled other \<and> (cd_logical_id other = Some target \<or> cd_affinity other = cd_affinity cpu)) i cpus
     then Err InvalidTarget
     else case cd_startup cpu of
         SpinTable release \<Rightarrow>
           if release AND 7 \<noteq> 0 then Err InvalidTarget
           else if any_other (\<lambda>other. cd_startup other = SpinTable release) i cpus then Err SharedReleaseCell
           else Ok release
       | _ \<Rightarrow> Err UnsupportedMethod)"

definition validate_spin_table_release ::
  "cpu_descriptor list \<Rightarrow> nat \<Rightarrow> entry_contract \<Rightarrow> (u64, entry_error) outcome" where
  "validate_spin_table_release cpus target contract =
     and_then (validate_spin_table_target cpus target) (\<lambda>release.
       if \<not> el2_mmu_off contract then Err EntryContractUnverified
       else if \<not> coherent contract then Err CoherencyUnverified
       else Ok release)"

section \<open>The BCM2711 spin-table backend\<close>

datatype backend_error = BePlatform | BeCpu | BeCluster | BeFirmwareInterface

record bcm2711_backend =
  backend_private :: unit

definition count_a72 :: "('n, 'p, 'z) device_tree_scheme \<Rightarrow> nat \<Rightarrow> 'n \<Rightarrow> (nat, backend_error) outcome" where
  "count_a72 dt n node =
     (if (case dt_property dt node ''device_type'' of None \<Rightarrow> False | Some p \<Rightarrow> dt_as_str dt p = Some ''cpu'')
      then and_then (ok_or BeCpu (dt_status_okay dt node)) (\<lambda>okay.
             if \<not> okay then Ok n
             else if \<not> dt_is_compatible dt node ''arm,cortex-a72'' then Err BeCpu else Ok (Suc n))
      else Ok n)"

definition backend_select ::
  "('n, 'p, 'z) device_tree_scheme \<Rightarrow> cpu_topology \<Rightarrow> u64 \<Rightarrow> u64 \<Rightarrow> (bcm2711_backend, backend_error) outcome" where
  "backend_select dt topology midr mpidr =
     (if \<not> dt_is_compatible dt (dt_root dt) ''raspberrypi,4-model-b'' \<or>
         \<not> dt_is_compatible dt (dt_root dt) ''brcm,bcm2711'' then Err BePlatform
      else if drop_bit 24 midr AND 255 \<noteq> 0x41 \<or> drop_bit 4 midr AND 4095 \<noteq> 0xd08 then Err BeCpu
      else if ct_psci topology \<noteq> None then Err BeFirmwareInterface
      else let boot = mpidr AND MPIDR_AFFINITY_MASK in
        if \<not> (\<exists>cpu \<in> set (ct_cpus topology). cd_enabled cpu \<and> cd_logical_id cpu = Some 0 \<and> cd_affinity cpu = boot) \<or>
           (\<exists>cpu \<in> set (ct_cpus topology). cd_enabled cpu \<and>
              (cd_affinity cpu AND NOT 255 \<noteq> boot AND NOT 255 \<or> 4 \<le> cd_affinity cpu AND 255)) then Err BeCluster
        else and_then (ok_or BeCpu (dt_find_node dt ''/cpus'')) (\<lambda>cpus.
             and_then (try_fold (count_a72 dt) 0 (dt_children dt cpus)) (\<lambda>n.
             if n \<noteq> length (filter cd_enabled (ct_cpus topology)) then Err BeCpu
             else Ok \<lparr>backend_private = ()\<rparr>)))"

definition backend_contract :: "bcm2711_backend \<Rightarrow> entry_contract" where
  "backend_contract b = \<lparr>el2_mmu_off = True, coherent = True\<rparr>"

section \<open>Preflight of discovered topologies\<close>

abbreviation enabled_before :: "cpu_descriptor list \<Rightarrow> nat \<Rightarrow> nat" where
  "enabled_before cpus i \<equiv> length (filter cd_enabled (take i cpus))"

lemma enabled_before_le: "enabled_before cpus i \<le> length cpus"
  using length_filter_le [of cd_enabled "take i cpus"] by simp

lemma enabled_before_less:
  assumes "i < j" "j \<le> length cpus" "cd_enabled (cpus ! i)"
  shows "enabled_before cpus i < enabled_before cpus j"
proof -
  have "take j cpus = take i (take j cpus) @ take j cpus ! i # drop (Suc i) (take j cpus)"
    using assms by (intro id_take_nth_drop) simp
  then have t: "take j cpus = take i cpus @ cpus ! i # drop (Suc i) (take j cpus)" using assms by simp
  show ?thesis by (subst t) (use assms(3) in simp)
qed

lemma mask_Suc: "mask n OR push_bit n 1 = (mask (Suc n) :: 'a::len word)"
  by (simp add: mask_Suc_exp or.commute push_bit_eq_mult)

lemma mask_no_bit: "(mask n :: 'a::len word) AND push_bit n 1 = 0"
  by (rule bit_word_eqI) (auto simp: bit_simps)

lemma mask_loop_wf:
  assumes len: "length cpus \<le> MAX_CPUS" and ids: "ids_ok 0 cpus" and aff: "distinct (map cd_affinity cpus)"
    and wf: "\<forall>c \<in> set cpus. cpu_wf c" and "i \<le> length cpus"
  shows "mask_loop cpus i (drop i cpus) (mask (enabled_before cpus i)) = Ok (mask (length (filter cd_enabled cpus)))"
  using assms(5)
proof (induction "length cpus - i" arbitrary: i)
  case 0
  then show ?case by simp
next
  case (Suc n)
  then have i: "i < length cpus" by simp
  let ?c = "cpus ! i"
  have d: "drop i cpus = ?c # drop (Suc i) cpus" using Cons_nth_drop_Suc [OF i] by simp
  have ih: "mask_loop cpus (Suc i) (drop (Suc i) cpus) (mask (enabled_before cpus (Suc i))) = Ok (mask (length (filter cd_enabled cpus)))"
    using Suc i by (intro Suc.hyps(1)) auto
  have before: "enabled_before cpus (Suc i) = (if cd_enabled ?c then Suc (enabled_before cpus i) else enabled_before cpus i)"
    using i by (simp add: take_Suc_conv_app_nth)
  show ?case
  proof (cases "cd_enabled ?c")
    case True
    have "enabled_before cpus i < MAX_CPUS"
      using enabled_before_less [OF i order_refl True] len enabled_before_le [where cpus = cpus and i = "length cpus"]
      by linarith
    moreover have "cd_logical_id ?c = Some (enabled_before cpus i)" using ids i True by (simp add: ids_ok_def)
    moreover have "\<not> any_other (\<lambda>other. cd_enabled other \<and> cd_affinity other = cd_affinity ?c) i cpus"
      using aff i by (auto simp: any_other_def distinct_conv_nth)
    moreover have "cd_affinity ?c AND NOT MPIDR_AFFINITY_MASK = 0" using wf i by (auto simp: cpu_wf_def)
    ultimately show ?thesis
      unfolding d using ih before True by (simp add: mask_no_bit mask_Suc del: push_bit_of_1)
  next
    case False
    then show ?thesis unfolding d using ih before by simp
  qed
qed

lemma mask_even: "1 \<le> n \<Longrightarrow> (mask n :: u64) AND 1 \<noteq> 0"
proof
  assume "1 \<le> n" "(mask n :: u64) AND 1 = 0"
  then have "\<not> bit ((mask n :: u64) AND 1) 0" by simp
  with \<open>1 \<le> n\<close> show False by (simp add: bit_and_iff bit_mask_iff)
qed

lemma mask_odd: "n \<le> 4 \<Longrightarrow> (mask n :: u64) AND NOT 1 = 0 \<longleftrightarrow> n \<le> 1"
proof -
  assume "n \<le> 4"
  then have "n \<in> {0, 1, 2, 3, 4}" by auto
  then show ?thesis by (auto simp: mask_eq_exp_minus_1)
qed

lemma secondary_mask_wf:
  assumes wf: "topology_wf boot t"
  defines "n \<equiv> length (filter cd_enabled (ct_cpus t))"
  shows "1 \<le> n \<and> n \<le> MAX_CPUS \<and>
     secondary_mask (ct_cpus t) = (if n = 1 then Err MissingTarget else Ok (mask n AND NOT 1))"
proof -
  have len: "length (ct_cpus t) = ct_count t" "ct_count t \<le> MAX_CPUS" "1 \<le> ct_count t"
    using wf by (auto simp: topology_wf_def ct_cpus_def)
  have "ct_cpus t ! 0 \<in> set (filter cd_enabled (ct_cpus t))" using wf len by (auto simp: topology_wf_def)
  then have n1: "1 \<le> n" unfolding n_def by (cases "filter cd_enabled (ct_cpus t)") auto
  have "n \<le> length (ct_cpus t)" unfolding n_def by (rule length_filter_le)
  then have n4: "n \<le> MAX_CPUS" using len by linarith
  have "mask_loop (ct_cpus t) 0 (drop 0 (ct_cpus t)) (mask (enabled_before (ct_cpus t) 0)) = Ok (mask n)"
    unfolding n_def by (rule mask_loop_wf) (use wf len in \<open>auto simp: topology_wf_def\<close>)
  then have loop: "mask_loop (ct_cpus t) 0 (ct_cpus t) 0 = Ok (mask n)" by simp
  show ?thesis
    using n1 n4 mask_even [OF n1] mask_odd [of n] unfolding secondary_mask_def loop
    by (auto simp: MAX_CPUS_def)
qed

text \<open>The descriptor of a logical id is unique.\<close>

lemma logical_id_unique:
  assumes "ids_ok 0 cpus" and "i < length cpus" and "j < length cpus"
    and "cd_logical_id (cpus ! i) = Some k" and "cd_logical_id (cpus ! j) = Some k"
  shows "i = j"
proof -
  have "cd_enabled (cpus ! i)" "enabled_before cpus i = k" "cd_enabled (cpus ! j)" "enabled_before cpus j = k"
    using assms by (auto simp: ids_ok_def split: if_splits)
  then show ?thesis
    using enabled_before_less [of i j cpus] enabled_before_less [of j i cpus] assms(2,3)
    by (metis less_irrefl less_imp_le linorder_neqE_nat)
qed

lemma find_position_iff:
  assumes "\<And>j. j < length xs \<Longrightarrow> P (xs ! j) \<longleftrightarrow> j = i" and "i < length xs"
  shows "find_position P 0 xs = Some i"
proof -
  have "find_position P k ys = Some (k + i)" if "\<And>j. j < length ys \<Longrightarrow> P (ys ! j) \<longleftrightarrow> j = i" "i < length ys" for k ys i
    using that
  proof (induction ys arbitrary: k i)
    case (Cons y ys)
    show ?case
    proof (cases i)
      case 0
      then show ?thesis using Cons.prems(1) [of 0] by simp
    next
      case (Suc m)
      have "find_position P (Suc k) ys = Some (Suc k + m)"
        using Cons.prems(1) [of "Suc _"] Cons.prems(2) Suc by (intro Cons.IH) auto
      then show ?thesis using Cons.prems(1) [of 0] Suc by simp
    qed
  qed simp
  from this [of xs i 0] show ?thesis using assms by simp
qed

lemma validate_target_wf:
  assumes wf: "topology_wf boot t" and i: "i < ct_count t" and k: "cd_logical_id (ct_cpus t ! i) = Some k"
  shows "validate_spin_table_target (ct_cpus t) k =
     (if k = 0 then Err InvalidTarget
      else case cd_startup (ct_cpus t ! i) of
          SpinTable a \<Rightarrow> if \<exists>j < ct_count t. j \<noteq> i \<and> cd_startup (ct_cpus t ! j) = SpinTable a then Err SharedReleaseCell else Ok a
        | _ \<Rightarrow> Err UnsupportedMethod)"
proof -
  let ?cs = "ct_cpus t"
  have len: "length ?cs = ct_count t" "ct_count t \<le> MAX_CPUS" using wf by (auto simp: topology_wf_def ct_cpus_def)
  have ids: "ids_ok 0 ?cs" and aff: "distinct (map cd_affinity ?cs)" and cw: "cpu_wf (?cs ! i)"
    using wf i len by (auto simp: topology_wf_def)
  have "find_position (\<lambda>cpu. cd_logical_id cpu = Some k) 0 ?cs = Some i"
    using logical_id_unique [OF ids] i k len by (intro find_position_iff) auto
  moreover have en: "cd_enabled (?cs ! i)" and "enabled_before ?cs i = k"
    using ids i k len by (auto simp: ids_ok_def split: if_splits)
  moreover have "k < MAX_CPUS"
    using enabled_before_less [of i "length ?cs" ?cs] en i len \<open>enabled_before ?cs i = k\<close>
      enabled_before_le [where cpus = ?cs and i = "length ?cs"] by simp
  moreover have "\<not> any_other (\<lambda>other. cd_enabled other \<and> (cd_logical_id other = Some k \<or> cd_affinity other = cd_affinity (?cs ! i))) i ?cs"
    using logical_id_unique [OF ids] i k len aff by (auto simp: any_other_def distinct_conv_nth)
  moreover have "any_other (\<lambda>other. cd_startup other = SpinTable a) i ?cs \<longleftrightarrow>
      (\<exists>j < ct_count t. j \<noteq> i \<and> cd_startup (?cs ! j) = SpinTable a)" for a
    using len by (auto simp: any_other_def)
  ultimately show ?thesis
    using cw by (cases "cd_startup (?cs ! i)") (auto simp: validate_spin_table_target_def Let_def cpu_wf_def)
qed

section \<open>Correctness\<close>


text \<open>A tree with a boot CPU and one spin-table secondary; a property is its own string.\<close>

definition example_tree :: "(nat, string) device_tree" where
  "example_tree = \<lparr>dt_root = 0, dt_find_node = (\<lambda>_. Some 1),
     dt_children = (\<lambda>n. if n = 1 then [2, 3] else []), dt_name = (\<lambda>_. []), dt_name_without_address = (\<lambda>_. []),
     dt_is_compatible = (\<lambda>_ _. False), dt_status_okay = (\<lambda>_. Some True),
     dt_property = (\<lambda>n p. if p = ''device_type'' then Some ''cpu'' else if p = ''enable-method'' then Some ''spin-table''
        else if p = ''#address-cells'' \<or> n = 3 then Some ''b'' else Some []),
     dt_as_str = Some, dt_as_u32 = (\<lambda>p. Some (if p = ''b'' then 1 else 0)),
     dt_as_u64 = (\<lambda>p. Some (if p = ''b'' then 0xe0 else 0xd8)), dt_value = (\<lambda>_. []), dt_reg = (\<lambda>_. None), dt_ranges = (\<lambda>_. None),
     dt_chosen = None, dt_stdout_path = (\<lambda>_. None), dt_memory_reservations = [], dt_reserved_memory = None,
     dt_no_map = (\<lambda>_. False), dt_reusable = (\<lambda>_. False), dt_no_map_fixup = (\<lambda>_. False), dt_size = (\<lambda>_. None),
     dt_alignment = (\<lambda>_. None), dt_alloc_ranges = (\<lambda>_. None), dt_data_len = 0\<rparr>"

lemma example_cpus:
  "discover_cpu example_tree 1 t n =
     (if \<exists>cpu \<in> set (ct_cpus t). cd_affinity cpu = (if n = 3 then 1 else 0) then Err DuplicateAffinity
      else if ct_count t = 4 then Err CpuCapacity
      else if length (ct_array t) \<le> ct_count t then Panic
      else Ok (t\<lparr>ct_array := (ct_array t)[ct_count t := \<lparr>cd_affinity = (if n = 3 then 1 else 0), cd_enabled = True,
        cd_logical_id = None, cd_startup = SpinTable (if n = 3 then 0xe0 else 0xd8)\<rparr>], ct_count := Suc (ct_count t)\<rparr>))"
  by (simp add: discover_cpu_def example_tree_def discover_affinity_def discover_startup_def MPIDR_AFFINITY_MASK_def
      checked_add_def MAX_CPUS_def)

lemma replicate_4: "replicate (4::nat) x = [x, x, x, x]"
  by (simp add: numeral_eq_Suc)

lemma example_collect:
  "try_fold (discover_cpu example_tree 1) \<lparr>ct_array = replicate MAX_CPUS EMPTY_CPU, ct_count = 0, ct_psci = None\<rparr> [2, 3] =
     Ok \<lparr>ct_array = [\<lparr>cd_affinity = 0, cd_enabled = True, cd_logical_id = None, cd_startup = SpinTable 0xd8\<rparr>,
       \<lparr>cd_affinity = 1, cd_enabled = True, cd_logical_id = None, cd_startup = SpinTable 0xe0\<rparr>, EMPTY_CPU, EMPTY_CPU],
       ct_count = 2, ct_psci = None\<rparr>"
  by (simp add: example_cpus MAX_CPUS_def replicate_4 ct_cpus_def)

definition example_topology :: cpu_topology where
  "example_topology = \<lparr>ct_array = [\<lparr>cd_affinity = 0, cd_enabled = True, cd_logical_id = Some 0, cd_startup = SpinTable 0xd8\<rparr>,
       \<lparr>cd_affinity = 1, cd_enabled = True, cd_logical_id = Some 1, cd_startup = SpinTable 0xe0\<rparr>, EMPTY_CPU, EMPTY_CPU],
       ct_count = 2, ct_psci = None\<rparr>"

lemma example_discovery: "discover_cpu_topology example_tree 0x80000000 = Ok example_topology"
proof -
  have "discover_cpu_topology example_tree 0x80000000 =
     and_then (try_fold (discover_cpu example_tree 1) \<lparr>ct_array = replicate MAX_CPUS EMPTY_CPU, ct_count = 0, ct_psci = None\<rparr> [2, 3]) (\<lambda>result.
     and_then (ok_or BootCpuMissing (find_position (\<lambda>cpu. cd_enabled cpu \<and> cd_affinity cpu = 0) 0 (ct_cpus result))) (\<lambda>boot.
     Ok (order_cpus result boot)))"
    by (simp add: discover_cpu_topology_def example_tree_def discover_psci_def MPIDR_AFFINITY_MASK_def)
  then show ?thesis
    unfolding example_collect
    by (simp add: ct_cpus_def order_cpus_def swap_at_def example_topology_def Let_def)
qed


end
