(* ===== verification/Platform.thy ===== *)
theory Platform
  imports Memory_Map Device_Tree
begin

text \<open>
  Memory discovery (\<open>tvisor_util/platform.rs\<close>): the device tree's RAM, reservations, live
  DTB, hypervisor image and SoC ranges are collected in the memory map, which is then
  finalized. The main result relates the usable RAM to the tree itself.
\<close>

definition BCM2711_COMPATIBLE :: string where "BCM2711_COMPATIBLE = ''brcm,bcm2711''"
definition BCM2711_LOW_MEMORY_LIMIT :: u64 where "BCM2711_LOW_MEMORY_LIMIT = 0x40000000"

datatype capacity_kind = CkRam | CkReserved | CkMmio

datatype platform_error = MissingMemory | InvalidMemory | InvalidReservation | ConflictingReservationAttributes
  | InvalidDynamicReservation | UnboundedDynamicReservation | MissingSocRanges | InvalidSocRanges
  | InvalidDtbRegion | PeMemoryMap memory_map_error | PeCapacity capacity_kind nat

fun memory_error :: "capacity_kind \<Rightarrow> memory_map_error \<Rightarrow> platform_error" where
  "memory_error kind (MapCapacity capacity) = PeCapacity kind capacity"
| "memory_error kind (InvalidRegion e) = InvalidMemory"
| "memory_error kind (RamMmioConflict r d) = InvalidMemory"

definition page_rounded_region :: "phys_addr \<Rightarrow> u64 \<Rightarrow> (phys_region, region_error) outcome" where
  "page_rounded_region start sz =
     and_then (ok_or RegionAddressOverflow (checked_add start sz)) (\<lambda>end'.
     let rounded_start = page_address start in
     and_then (ok_or RegionAddressOverflow (checked_add end' (PAGE_SIZE - 1))) (\<lambda>e.
     region_from_bounds rounded_start (page_address e)))"

text \<open>A \<open>for\<close> loop over the entries that changes the map and may return early.\<close>

fun st_each :: "('a \<Rightarrow> 's \<Rightarrow> (unit, 'e) outcome \<times> 's) \<Rightarrow> 'a list \<Rightarrow> 's \<Rightarrow> (unit, 'e) outcome \<times> 's" where
  "st_each f [] s = (Ok (), s)"
| "st_each f (x # xs) s = st_then (f x s) (\<lambda>_ s'. st_each f xs s')"

definition entry_region :: "'e \<Rightarrow> u64 option \<times> u64 option \<Rightarrow> (phys_region, 'e) outcome" where
  "entry_region e reg =
     and_then (ok_or e (fst reg)) (\<lambda>start.
     and_then (ok_or e (snd reg)) (\<lambda>sz. map_err (\<lambda>_. e) (region_new start sz)))"

definition ram_register ::
  "u64 option \<times> u64 option \<Rightarrow> memory_map \<times> bool \<Rightarrow> (unit, platform_error) outcome \<times> (memory_map \<times> bool)" where
  "ram_register reg s =
     st_then (st_lift (entry_region InvalidMemory reg) s) (\<lambda>region s.
     st_then (map_prod (map_err (memory_error CkRam)) (\<lambda>m. (m, snd s)) (insert_ram (fst s) region)) (\<lambda>_ s.
     (Ok (), (fst s, True))))"

definition ram_node ::
  "('n, 'p, 'z) device_tree_scheme \<Rightarrow> 'n \<Rightarrow> memory_map \<times> bool \<Rightarrow> (unit, platform_error) outcome \<times> (memory_map \<times> bool)" where
  "ram_node dt node s =
     (case dt_property dt node ''device_type'' of
        None \<Rightarrow> (Ok (), s)
      | Some device_type \<Rightarrow>
          st_then (st_lift (ok_or InvalidMemory (dt_as_str dt device_type)) s) (\<lambda>kind s.
          if kind \<noteq> ''memory'' then (Ok (), s)
          else st_then (st_lift (ok_or InvalidMemory (dt_status_okay dt node)) s) (\<lambda>okay s.
          if \<not> okay then (Ok (), s)
          else st_then (st_lift (and_then (ok_or InvalidMemory (dt_reg dt node)) (ok_or InvalidMemory)) s) (\<lambda>registers s.
          st_each ram_register registers s))))"

definition discover_ram ::
  "('n, 'p, 'z) device_tree_scheme \<Rightarrow> memory_map \<Rightarrow> (unit, platform_error) outcome \<times> memory_map" where
  "discover_ram dt m =
     (let (r, m', found) = st_each (ram_node dt) (dt_children dt (dt_root dt)) (m, False) in
      st_then (r, m') (\<lambda>_ m. (if found then Ok () else Err MissingMemory, m)))"

definition low_ram_end :: "phys_region list \<Rightarrow> u64 option" where
  "low_ram_end rams =
     (case map region_end (filter (\<lambda>ram. region_start ram = 0) rams) of [] \<Rightarrow> None | e # es \<Rightarrow> Some (foldl max e es))"

definition discover_bcm2711_firmware_carveout ::
  "('n, 'p, 'z) device_tree_scheme \<Rightarrow> memory_map \<Rightarrow> (unit, platform_error) outcome \<times> memory_map" where
  "discover_bcm2711_firmware_carveout dt m =
     (if \<not> dt_is_compatible dt (dt_root dt) BCM2711_COMPATIBLE then (Ok (), m)
      else st_then (st_lift (and_then (fl_iter (mm_ram m)) (\<lambda>rams. ok_or MissingMemory (low_ram_end rams))) m) (\<lambda>low m.
      if BCM2711_LOW_MEMORY_LIMIT \<le> low then (Ok (), m)
      else st_then (st_lift (map_err (\<lambda>_. InvalidMemory) (region_from_bounds low BCM2711_LOW_MEMORY_LIMIT)) m) (\<lambda>carveout m.
      st_then (st_map_err (memory_error CkRam) (insert_ram m carveout)) (\<lambda>_ m.
      st_map_err (memory_error CkReserved) (insert_reserved m carveout)))))"

definition reserve_entry ::
  "u64 option \<times> u64 option \<Rightarrow> memory_map \<Rightarrow> (unit, platform_error) outcome \<times> memory_map" where
  "reserve_entry reg m =
     st_then (st_lift (entry_region InvalidReservation reg) m) (\<lambda>region m.
       st_map_err (memory_error CkReserved) (insert_reserved m region))"

definition reserve_dynamic ::
  "('n, 'p, 'z) device_tree_scheme \<Rightarrow> 'n \<Rightarrow> memory_map \<Rightarrow> (unit, platform_error) outcome \<times> memory_map" where
  "reserve_dynamic dt node m =
     st_then (st_lift (and_then (and_then (ok_or InvalidReservation (dt_size dt node)) (ok_or InvalidReservation)) (ok_or InvalidReservation)) m) (\<lambda>sz m.
     if sz = 0 then (Err InvalidDynamicReservation, m)
     else st_then (st_lift (and_then (ok_or InvalidReservation (dt_alignment dt node)) (\<lambda>a. case a of
              None \<Rightarrow> Ok None | Some v \<Rightarrow> and_then (ok_or InvalidReservation v) (\<lambda>v. Ok (Some v)))) m) (\<lambda>alignment m.
     if (case alignment of None \<Rightarrow> False | Some v \<Rightarrow> \<not> is_power_of_two v) then (Err InvalidDynamicReservation, m)
     else st_then (st_lift (and_then (ok_or InvalidReservation (dt_alloc_ranges dt node)) (ok_or UnboundedDynamicReservation)) m) (\<lambda>ranges m.
     st_then (st_each reserve_entry ranges m) (\<lambda>_ m.
     (if length ranges = 0 then Err UnboundedDynamicReservation else Ok (), m)))))"

definition reserve_node ::
  "('n, 'p, 'z) device_tree_scheme \<Rightarrow> 'n \<Rightarrow> memory_map \<Rightarrow> (unit, platform_error) outcome \<times> memory_map" where
  "reserve_node dt node m =
     st_then (st_lift (ok_or InvalidReservation (dt_status_okay dt node)) m) (\<lambda>okay m.
     if \<not> okay then (Ok (), m)
     else if dt_no_map dt node \<and> dt_reusable dt node then (Err ConflictingReservationAttributes, m)
     else if dt_no_map_fixup dt node then (Err InvalidReservation, m)
     else st_then (st_lift (ok_or InvalidReservation (dt_reg dt node)) m) (\<lambda>regs m. case regs of
         Some registers \<Rightarrow> st_each reserve_entry registers m
       | None \<Rightarrow> reserve_dynamic dt node m))"

definition discover_reservations ::
  "('n, 'p, 'z) device_tree_scheme \<Rightarrow> phys_addr \<Rightarrow> phys_region \<Rightarrow> memory_map \<Rightarrow> (unit, platform_error) outcome \<times> memory_map" where
  "discover_reservations dt dtb_address tvisor_image m =
     st_then (st_each (\<lambda>(a, s). reserve_entry (Some a, Some s)) (dt_memory_reservations dt) m) (\<lambda>_ m.
     st_then (case dt_reserved_memory dt of None \<Rightarrow> (Ok (), m) | Some nodes \<Rightarrow> st_each (reserve_node dt) nodes m) (\<lambda>_ m.
     st_then (st_lift (map_err (\<lambda>_. InvalidDtbRegion) (page_rounded_region dtb_address (dt_data_len dt))) m) (\<lambda>dtb_region m.
     st_then (st_map_err (memory_error CkReserved) (insert_reserved m dtb_region)) (\<lambda>_ m.
     st_map_err (memory_error CkReserved) (insert_reserved m tvisor_image)))))"

definition mmio_range ::
  "u64 option \<times> u64 option \<times> u64 option \<Rightarrow> memory_map \<Rightarrow> (unit, platform_error) outcome \<times> memory_map" where
  "mmio_range rg m =
     st_then (st_lift (ok_or InvalidSocRanges (fst rg)) m) (\<lambda>_ m.
     st_then (st_lift (entry_region InvalidSocRanges (snd rg)) m) (\<lambda>region m.
     st_map_err (memory_error CkMmio) (insert_mmio m region)))"

definition discover_mmio ::
  "('n, 'p, 'z) device_tree_scheme \<Rightarrow> memory_map \<Rightarrow> (unit, platform_error) outcome \<times> memory_map" where
  "discover_mmio dt m =
     (case dt_find_node dt ''/soc'' of
        None \<Rightarrow> (Ok (), m)
      | Some soc \<Rightarrow>
          st_then (st_lift (ok_or InvalidSocRanges (dt_status_okay dt soc)) m) (\<lambda>okay m.
          if \<not> okay then (Ok (), m)
          else st_then (st_lift (and_then (ok_or InvalidSocRanges (dt_ranges dt soc)) (ok_or MissingSocRanges)) m) (\<lambda>ranges m.
          st_each mmio_range ranges m)))"

definition discover_memory_map ::
  "('n, 'p, 'z) device_tree_scheme \<Rightarrow> phys_addr \<Rightarrow> phys_region \<Rightarrow> memory_map \<Rightarrow> (unit, platform_error) outcome \<times> memory_map" where
  "discover_memory_map dt dtb_address tvisor_image destination =
     st_then (discover_ram dt (mm_clear destination)) (\<lambda>_ m.
     st_then (discover_bcm2711_firmware_carveout dt m) (\<lambda>_ m.
     st_then (discover_reservations dt dtb_address tvisor_image m) (\<lambda>_ m.
     st_then (discover_mmio dt m) (\<lambda>_ m.
     st_map_err PeMemoryMap (finalize m)))))"

section \<open>What the collection loops leave\<close>

abbreviation ram_of :: "memory_map \<Rightarrow> phys_addr set" where
  "ram_of m \<equiv> regions_addrs (fl_list (mm_ram m))"
abbreviation reserved_of :: "memory_map \<Rightarrow> phys_addr set" where
  "reserved_of m \<equiv> regions_addrs (fl_list (mm_reserved m))"
abbreviation mmio_of :: "memory_map \<Rightarrow> phys_addr set" where
  "mmio_of m \<equiv> regions_addrs (fl_list (mm_mmio m))"
abbreviation usable_of :: "memory_map \<Rightarrow> phys_addr set" where
  "usable_of m \<equiv> regions_addrs (fl_list (mm_usable m))"

text \<open>
  \<open>adds m p R V D\<close>: the call ended without a panic with its invariant intact, and if it
  succeeded it added exactly the RAM \<open>R\<close>, the reservations \<open>V\<close> and the devices \<open>D\<close>.
\<close>

definition adds ::
  "memory_map \<Rightarrow> ('a, 'e) outcome \<times> memory_map \<Rightarrow> phys_addr set \<Rightarrow> phys_addr set \<Rightarrow> phys_addr set \<Rightarrow> bool" where
  "adds m p R V D \<longleftrightarrow> fst p \<noteq> Panic \<and> mm_inv (snd p) \<and>
     (is_ok (fst p) \<longrightarrow> ram_of (snd p) = ram_of m \<union> R \<and> reserved_of (snd p) = reserved_of m \<union> V \<and>
        mmio_of (snd p) = mmio_of m \<union> D)"

lemma adds_insert:
  assumes "mm_inv m" and "region_wf r"
  shows "adds m (insert_ram m r) (region_addrs r) {} {}"
    and "adds m (insert_reserved m r) {} (region_addrs r) {}"
    and "adds m (insert_mmio m r) {} {} (region_addrs r)"
  using assms insert_sorted_merged_spec [of MAX_RAM_REGIONS "mm_ram m" r]
    insert_sorted_merged_spec [of MAX_NORMALIZED_RESERVED_REGIONS "mm_reserved m" r]
    insert_sorted_merged_spec [of MAX_MMIO_REGIONS "mm_mmio m" r]
  by (auto simp: mm_inv_def adds_def insert_ram_def insert_reserved_def insert_mmio_def)

lemma adds_then:
  assumes "adds m p R V D" and "\<And>x m'. mm_inv m' \<Longrightarrow> p = (Ok x, m') \<Longrightarrow> adds m' (f x m') R' V' D'"
  shows "adds m (st_then p f) (R \<union> R') (V \<union> V') (D \<union> D')"
  using assms by (cases p; cases "fst p") (auto simp: adds_def)

lemma adds_lift: "mm_inv m \<Longrightarrow> r \<noteq> Panic \<Longrightarrow> (\<And>x. r = Ok x \<Longrightarrow> adds m (f x m) R V D) \<Longrightarrow>
   adds m (st_then (st_lift r m) f) R V D"
  by (cases r) (auto simp: adds_def)

lemma adds_map_err: "adds m p R V D \<Longrightarrow> adds m (st_map_err g p) R V D"
  by (cases p; cases "fst p") (auto simp: adds_def)

lemma adds_return: "mm_inv m \<Longrightarrow> adds m (Ok x, m) {} {} {}" "mm_inv m \<Longrightarrow> adds m (Err e, m) R V D"
  by (simp_all add: adds_def)

lemma adds_each:
  assumes "mm_inv m" and "\<And>x m. mm_inv m \<Longrightarrow> x \<in> set xs \<Longrightarrow> adds m (f x m) (R x) (V x) (D x)"
  shows "adds m (st_each f xs m) (\<Union>x \<in> set xs. R x) (\<Union>x \<in> set xs. V x) (\<Union>x \<in> set xs. D x)"
  using assms
proof (induction xs arbitrary: m)
  case (Cons x xs)
  have "adds m (st_then (f x m) (\<lambda>_ s'. st_each f xs s')) (R x \<union> (\<Union>x \<in> set xs. R x)) (V x \<union> (\<Union>x \<in> set xs. V x)) (D x \<union> (\<Union>x \<in> set xs. D x))"
    by (rule adds_then) (use Cons in auto)
  then show ?case by simp
qed (simp add: adds_return)

lemma st_each_project:
  assumes "\<And>x s. map_prod id h (f x s) = g x (h s)"
  shows "map_prod id h (st_each f xs s) = st_each g xs (h s)"
proof (induction xs arbitrary: s)
  case (Cons x xs)
  show ?case
  proof (cases "f x s")
    case (Pair r s')
    then have "g x (h s) = (r, h s')" using assms [of x s] by simp
    then show ?thesis using Pair Cons by (cases r) simp_all
  qed
qed simp

lemma project_lift:
  "(\<And>x. r = Ok x \<Longrightarrow> map_prod id h (f x s) = g x (h s)) \<Longrightarrow>
   map_prod id h (st_then (st_lift r s) f) = st_then (st_lift r (h s)) g"
  by (cases r) auto

text \<open>The addresses the tree declares.\<close>

definition entry_addrs :: "u64 option \<times> u64 option \<Rightarrow> phys_addr set" where
  "entry_addrs reg = (case entry_region () reg of Ok r \<Rightarrow> region_addrs r | _ \<Rightarrow> {})"

definition entries_addrs :: "(u64 option \<times> u64 option) list option option \<Rightarrow> phys_addr set" where
  "entries_addrs regs = (case regs of Some (Some rs) \<Rightarrow> (\<Union>reg \<in> set rs. entry_addrs reg) | _ \<Rightarrow> {})"

definition memory_node :: "('n, 'p, 'z) device_tree_scheme \<Rightarrow> 'n \<Rightarrow> bool" where
  "memory_node dt node \<longleftrightarrow> (\<exists>p. dt_property dt node ''device_type'' = Some p \<and> dt_as_str dt p = Some ''memory'') \<and>
     dt_status_okay dt node = Some True"

definition declared_ram :: "('n, 'p, 'z) device_tree_scheme \<Rightarrow> phys_addr set" where
  "declared_ram dt = (\<Union>node \<in> {n \<in> set (dt_children dt (dt_root dt)). memory_node dt n}. entries_addrs (dt_reg dt node))"

definition node_reservation :: "('n, 'p, 'z) device_tree_scheme \<Rightarrow> 'n \<Rightarrow> phys_addr set" where
  "node_reservation dt node = (if dt_status_okay dt node \<noteq> Some True then {}
     else case dt_reg dt node of Some (Some _) \<Rightarrow> entries_addrs (dt_reg dt node) | _ \<Rightarrow> entries_addrs (dt_alloc_ranges dt node))"

definition declared_reservations :: "('n, 'p, 'z) device_tree_scheme \<Rightarrow> phys_addr set" where
  "declared_reservations dt =
     (\<Union>(a, s) \<in> set (dt_memory_reservations dt). entry_addrs (Some a, Some s)) \<union>
     (case dt_reserved_memory dt of None \<Rightarrow> {} | Some nodes \<Rightarrow> \<Union>n \<in> set nodes. node_reservation dt n)"

definition declared_mmio :: "('n, 'p, 'z) device_tree_scheme \<Rightarrow> phys_addr set" where
  "declared_mmio dt = (case dt_find_node dt ''/soc'' of None \<Rightarrow> {} | Some soc \<Rightarrow>
     if dt_status_okay dt soc \<noteq> Some True then {}
     else case dt_ranges dt soc of Some (Some rs) \<Rightarrow> (\<Union>(c, reg) \<in> set rs. entry_addrs reg) | _ \<Rightarrow> {})"

lemma entry_region_cases:
  "entry_region e reg \<noteq> Panic"
  "entry_region e reg = Ok r \<Longrightarrow> region_wf r \<and> region_addrs r = entry_addrs reg"
proof -
  show "entry_region e reg \<noteq> Panic"
    by (auto simp: entry_region_def outcome_simps region_new_def)
  assume "entry_region e reg = Ok r"
  then have "entry_region () reg = Ok r" by (auto simp: entry_region_def outcome_simps)
  moreover from this have "region_wf r" by (auto simp: entry_region_def outcome_simps intro: region_new_wf)
  ultimately show "region_wf r \<and> region_addrs r = entry_addrs reg" by (simp add: entry_addrs_def)
qed

definition ram_register' :: "u64 option \<times> u64 option \<Rightarrow> memory_map \<Rightarrow> (unit, platform_error) outcome \<times> memory_map" where
  "ram_register' reg m =
     st_then (st_lift (entry_region InvalidMemory reg) m) (\<lambda>region m.
       st_map_err (memory_error CkRam) (insert_ram m region))"

lemma ram_register_project: "map_prod id fst (ram_register reg s) = ram_register' reg (fst s)"
  by (cases "entry_region InvalidMemory reg"; cases "insert_ram (fst s) (case entry_region InvalidMemory reg of Ok r \<Rightarrow> r)";
      cases "fst (insert_ram (fst s) (case entry_region InvalidMemory reg of Ok r \<Rightarrow> r))")
    (auto simp: ram_register_def ram_register'_def)

definition ram_node' ::
  "('n, 'p, 'z) device_tree_scheme \<Rightarrow> 'n \<Rightarrow> memory_map \<Rightarrow> (unit, platform_error) outcome \<times> memory_map" where
  "ram_node' dt node s =
     (case dt_property dt node ''device_type'' of
        None \<Rightarrow> (Ok (), s)
      | Some device_type \<Rightarrow>
          st_then (st_lift (ok_or InvalidMemory (dt_as_str dt device_type)) s) (\<lambda>kind s.
          if kind \<noteq> ''memory'' then (Ok (), s)
          else st_then (st_lift (ok_or InvalidMemory (dt_status_okay dt node)) s) (\<lambda>okay s.
          if \<not> okay then (Ok (), s)
          else st_then (st_lift (and_then (ok_or InvalidMemory (dt_reg dt node)) (ok_or InvalidMemory)) s) (\<lambda>registers s.
          st_each ram_register' registers s))))"

lemma ram_node_project: "map_prod id fst (ram_node dt node s) = ram_node' dt node (fst s)"
proof -
  have "map_prod id fst (st_each ram_register regs s) = st_each ram_register' regs (fst s)" for regs
    by (rule st_each_project) (rule ram_register_project)
  then show ?thesis
    unfolding ram_node_def ram_node'_def by (auto intro!: project_lift split: option.splits)
qed

section \<open>What every stage of the discovery adds\<close>

lemma reserve_entry_adds: "mm_inv m \<Longrightarrow> adds m (reserve_entry reg m) {} (entry_addrs reg) {}"
  unfolding reserve_entry_def
proof (rule adds_lift)
  fix r assume "mm_inv m" "entry_region InvalidReservation reg = Ok r"
  then show "adds m (st_map_err (memory_error CkReserved) (insert_reserved m r)) {} (entry_addrs reg) {}"
    using adds_map_err [OF adds_insert(2)] entry_region_cases(2) by metis
qed (simp_all add: entry_region_cases)

lemma ram_register_adds: "mm_inv m \<Longrightarrow> adds m (ram_register' reg m) (entry_addrs reg) {} {}"
  unfolding ram_register'_def
proof (rule adds_lift)
  fix r assume "mm_inv m" "entry_region InvalidMemory reg = Ok r"
  then show "adds m (st_map_err (memory_error CkRam) (insert_ram m r)) (entry_addrs reg) {} {}"
    using adds_map_err [OF adds_insert(1)] entry_region_cases(2) by metis
qed (simp_all add: entry_region_cases)

lemma mmio_range_adds: "mm_inv m \<Longrightarrow> adds m (mmio_range rg m) {} {} (entry_addrs (snd rg))"
  unfolding mmio_range_def
proof (intro adds_lift)
  fix r assume "mm_inv m" "entry_region InvalidSocRanges (snd rg) = Ok r"
  then show "adds m (st_map_err (memory_error CkMmio) (insert_mmio m r)) {} {} (entry_addrs (snd rg))"
    using adds_map_err [OF adds_insert(3)] entry_region_cases(2) by metis
qed (simp_all add: entry_region_cases)

lemma ram_node_adds:
  assumes "mm_inv m"
  shows "adds m (ram_node' dt node m) (if memory_node dt node then entries_addrs (dt_reg dt node) else {}) {} {}"
proof -
  have "adds m (st_each ram_register' regs m) (\<Union>reg \<in> set regs. entry_addrs reg) {} {}" for regs
    using adds_each [OF assms, of regs ram_register' entry_addrs "\<lambda>_. {}" "\<lambda>_. {}"] ram_register_adds by simp
  then show ?thesis
    unfolding ram_node'_def memory_node_def
    using assms
    by (auto intro!: adds_lift adds_return simp: outcome_simps entries_addrs_def split: option.splits)
qed

lemma discover_ram_adds:
  assumes "mm_inv m"
  shows "adds m (discover_ram dt m) (declared_ram dt) {} {}"
proof -
  let ?p = "st_each (ram_node dt) (dt_children dt (dt_root dt)) (m, False)"
  have "map_prod id fst ?p = st_each (ram_node' dt) (dt_children dt (dt_root dt)) m"
    using st_each_project [of fst "ram_node dt" "ram_node' dt"] ram_node_project by (metis fst_conv)
  moreover have "adds m (st_each (ram_node' dt) (dt_children dt (dt_root dt)) m) (declared_ram dt) {} {}"
  proof -
    have "adds m (st_each (ram_node' dt) (dt_children dt (dt_root dt)) m)
      (\<Union>n \<in> set (dt_children dt (dt_root dt)). if memory_node dt n then entries_addrs (dt_reg dt n) else {})
      (\<Union>n \<in> set (dt_children dt (dt_root dt)). {}) (\<Union>n \<in> set (dt_children dt (dt_root dt)). {})"
      by (rule adds_each [OF assms]) (rule ram_node_adds)
    moreover have "(\<Union>n \<in> set (dt_children dt (dt_root dt)). if memory_node dt n then entries_addrs (dt_reg dt n) else {}) =
        declared_ram dt"
      by (auto simp: declared_ram_def split: if_splits)
    ultimately show ?thesis by simp
  qed
  ultimately have "adds m (map_prod id fst ?p) (declared_ram dt) {} {}" by simp
  then show ?thesis
    by (cases ?p; cases "fst ?p") (auto simp: discover_ram_def adds_def)
qed

text \<open>The firmware carve-out is added to the RAM and reserved at the same time.\<close>

lemma carveout_adds:
  assumes "mm_inv m"
  shows "\<exists>C. adds m (discover_bcm2711_firmware_carveout dt m) C C {}"
proof -
  have nz: "adds m p {} {} {} \<Longrightarrow> \<exists>C. adds m p C C {}" for p :: "(unit, platform_error) outcome \<times> memory_map" by blast
  obtain rams where rams: "(fl_iter (mm_ram m) :: (_, platform_error) outcome) = Ok rams"
    using assms by (auto simp: mm_inv_def fl_iter_eq elim!: region_list_invE)
  show ?thesis
  proof (cases "low_ram_end rams")
    case None
    then show ?thesis using assms rams
      by (auto simp: discover_bcm2711_firmware_carveout_def adds_return(2) intro: nz adds_return(1))
  next
    case (Some low)
    show ?thesis
    proof (cases "BCM2711_LOW_MEMORY_LIMIT \<le> low \<or> \<not> dt_is_compatible dt (dt_root dt) BCM2711_COMPATIBLE")
      case True
      then show ?thesis using assms rams Some
        by (auto simp: discover_bcm2711_firmware_carveout_def intro!: nz adds_return(1))
    next
      case False
      obtain r where r: "region_from_bounds low BCM2711_LOW_MEMORY_LIMIT = Ok r" "region_wf r"
        using False region_from_bounds_Ok [of low BCM2711_LOW_MEMORY_LIMIT] by (auto simp: not_le)
      have "adds m (st_then (st_map_err (memory_error CkRam) (insert_ram m r)) (\<lambda>_ m.
          st_map_err (memory_error CkReserved) (insert_reserved m r))) (region_addrs r \<union> {}) ({} \<union> region_addrs r) ({} \<union> {})"
        using assms r by (intro adds_then adds_map_err adds_insert)
      then show ?thesis using False rams Some r
        by (auto simp: discover_bcm2711_firmware_carveout_def intro!: exI [of _ "region_addrs r"])
    qed
  qed
qed

lemma reserve_each_adds:
  "mm_inv m \<Longrightarrow> adds m (st_each reserve_entry regs m) {} (\<Union>reg \<in> set regs. entry_addrs reg) {}"
  using adds_each [of m regs reserve_entry "\<lambda>_. {}" entry_addrs "\<lambda>_. {}"] reserve_entry_adds by simp

lemma reserve_dynamic_adds:
  assumes "mm_inv m"
  shows "adds m (reserve_dynamic dt node m) {} (entries_addrs (dt_alloc_ranges dt node)) {}"
proof -
  have "adds m (st_then (st_each reserve_entry regs m) (\<lambda>_ m.
      (if length regs = 0 then Err UnboundedDynamicReservation else Ok (), m))) ({} \<union> {}) ((\<Union>reg \<in> set regs. entry_addrs reg) \<union> {}) ({} \<union> {})" for regs
    using assms by (intro adds_then reserve_each_adds) (auto simp: adds_def)
  then show ?thesis
    unfolding reserve_dynamic_def using assms
    by (auto intro!: adds_lift adds_return(2) simp: outcome_simps entries_addrs_def split: option.splits)
qed

lemma reserve_node_adds:
  assumes "mm_inv m"
  shows "adds m (reserve_node dt node m) {} (node_reservation dt node) {}"
  unfolding reserve_node_def
  using assms reserve_each_adds [OF assms] reserve_dynamic_adds [OF assms, of dt node]
  by (auto intro!: adds_lift adds_return simp: outcome_simps node_reservation_def entries_addrs_def split: option.splits)

lemma unat_page_address: "unat (page_address a) = unat a - unat a mod 4096"
  using unat_and_not_mask [of a 12] by (simp add: page_address_def PAGE_SIZE_minus_1)

lemma page_rounded_region_spec:
  assumes "page_rounded_region start sz = Ok r"
  shows "region_wf r \<and> {a. start \<le> a \<and> a < start + sz} \<subseteq> region_addrs r"
proof -
  obtain e where o: "unat start + unat sz < 2 ^ 64" and e: "checked_add (start + sz) (PAGE_SIZE - 1) = Some e"
      and b: "region_from_bounds (page_address start) (page_address e) = Ok r"
    using assms by (auto simp: page_rounded_region_def outcome_simps checked_add_Some Let_def)
  from b have r: "page_address start < page_address e" "region_wf r" "region_start r = page_address start"
      "region_end r = page_address e"
    using region_from_bounds_Ok by (force simp: region_from_bounds_Ok_iff)+
  have "unat e = unat (start + sz) + 4095"
    using unat_checked_add [OF e] by (simp add: PAGE_SIZE_def)
  then have "unat (start + sz) \<le> unat (page_address e)" by (simp add: unat_page_address)
  moreover have "unat (page_address start) \<le> unat start" by (simp add: unat_page_address)
  ultimately show ?thesis
    using r by (auto simp: region_addrs_def region_contains_address_def word_le_nat_alt word_less_nat_alt)
qed

lemma page_rounded_no_panic: "page_rounded_region start sz \<noteq> Panic"
  by (auto simp: page_rounded_region_def outcome_simps Let_def region_from_bounds_def region_new_def split: if_splits)

lemma reserve_last_adds:
  assumes "region_wf img"
  shows "\<exists>V. {a. dtb \<le> a \<and> a < dtb + len} \<subseteq> V \<and> (\<forall>m. mm_inv m \<longrightarrow>
     adds m (st_then (st_lift (map_err (\<lambda>_. InvalidDtbRegion) (page_rounded_region dtb len)) m) (\<lambda>dtb_region m.
      st_then (st_map_err (memory_error CkReserved) (insert_reserved m dtb_region)) (\<lambda>_ m.
      st_map_err (memory_error CkReserved) (insert_reserved m img)))) {} (V \<union> region_addrs img) {})"
proof (cases "page_rounded_region dtb len")
  case (Ok r)
  note wf = page_rounded_region_spec [OF Ok]
  have "adds m (st_then (st_map_err (memory_error CkReserved) (insert_reserved m r)) (\<lambda>_ m.
      st_map_err (memory_error CkReserved) (insert_reserved m img))) ({} \<union> {}) (region_addrs r \<union> region_addrs img) ({} \<union> {})"
    if "mm_inv m" for m
    by (rule adds_then) (use that wf assms in \<open>auto intro!: adds_map_err adds_insert\<close>)
  then show ?thesis using wf Ok by (intro exI [of _ "region_addrs r"]) simp
next
  case (Err e)
  then show ?thesis by (intro exI [of _ UNIV]) (simp add: adds_return)
qed (use page_rounded_no_panic in blast)

lemma discover_reservations_adds:
  assumes "mm_inv m" and "region_wf img"
  shows "\<exists>V. {a. dtb \<le> a \<and> a < dtb + dt_data_len dt} \<subseteq> V \<and>
     adds m (discover_reservations dt dtb img m) {} (declared_reservations dt \<union> V \<union> region_addrs img) {}"
proof -
  let ?A = "\<Union>(a, s) \<in> set (dt_memory_reservations dt). entry_addrs (Some a, Some s)"
  let ?B = "case dt_reserved_memory dt of None \<Rightarrow> {} | Some nodes \<Rightarrow> \<Union>n \<in> set nodes. node_reservation dt n"
  have a: "adds m (st_each (\<lambda>(a, s). reserve_entry (Some a, Some s)) (dt_memory_reservations dt) m) {} ?A {}"
    using adds_each [OF assms(1), of "dt_memory_reservations dt" "\<lambda>(a, s). reserve_entry (Some a, Some s)" "\<lambda>_. {}"
        "\<lambda>(a, s). entry_addrs (Some a, Some s)" "\<lambda>_. {}"] reserve_entry_adds by (auto simp: split_def)
  have b: "adds m (case dt_reserved_memory dt of None \<Rightarrow> (Ok (), m) | Some nodes \<Rightarrow> st_each (reserve_node dt) nodes m) {} ?B {}"
    if "mm_inv m" for m
  proof (cases "dt_reserved_memory dt")
    case (Some nodes)
    have "adds m (st_each (reserve_node dt) nodes m) (\<Union>n \<in> set nodes. {}) (\<Union>n \<in> set nodes. node_reservation dt n) (\<Union>n \<in> set nodes. {})"
      by (rule adds_each [OF that]) (rule reserve_node_adds)
    then show ?thesis using Some by simp
  qed (use that in \<open>simp add: adds_return\<close>)
  obtain V where V: "{a. dtb \<le> a \<and> a < dtb + dt_data_len dt} \<subseteq> V" and
    c: "\<And>m. mm_inv m \<Longrightarrow> adds m (st_then (st_lift (map_err (\<lambda>_. InvalidDtbRegion) (page_rounded_region dtb (dt_data_len dt))) m) (\<lambda>dtb_region m.
      st_then (st_map_err (memory_error CkReserved) (insert_reserved m dtb_region)) (\<lambda>_ m.
      st_map_err (memory_error CkReserved) (insert_reserved m img)))) {} (V \<union> region_addrs img) {}"
    using reserve_last_adds [OF assms(2), of dtb "dt_data_len dt"] by blast
  have "adds m (discover_reservations dt dtb img m) ({} \<union> ({} \<union> {})) (?A \<union> (?B \<union> (V \<union> region_addrs img))) ({} \<union> ({} \<union> {}))"
    unfolding discover_reservations_def by (intro adds_then a b c)
  then show ?thesis using V by (intro exI [of _ V]) (simp add: declared_reservations_def Un_assoc)
qed

lemma discover_mmio_adds:
  assumes "mm_inv m"
  shows "adds m (discover_mmio dt m) {} {} (declared_mmio dt)"
proof -
  have "adds m (st_each mmio_range rs m) {} {} (\<Union>(c, reg) \<in> set rs. entry_addrs reg)" for rs
    using adds_each [OF assms, of rs mmio_range "\<lambda>_. {}" "\<lambda>_. {}" "\<lambda>(c, reg). entry_addrs reg"] mmio_range_adds
    by (auto simp: split_def)
  then show ?thesis
    unfolding discover_mmio_def declared_mmio_def using assms
    by (auto intro!: adds_lift adds_return simp: outcome_simps split: option.splits)
qed

lemma mm_clear_empty:
  "mm_inv m \<Longrightarrow> mm_inv (mm_clear m) \<and> ram_of (mm_clear m) = {} \<and> reserved_of (mm_clear m) = {} \<and> mmio_of (mm_clear m) = {}"
  using mm_inv_clear [of m] by (simp add: mm_clear_def fl_clear_def fl_list_def)

lemma adds_then_ex:
  assumes "adds m p R V D" and "\<And>x m'. mm_inv m' \<Longrightarrow> p = (Ok x, m') \<Longrightarrow> \<exists>y. Q y \<and> adds m' (f x m') (R' y) (V' y) (D' y)"
    and "\<exists>y. Q y"
  shows "\<exists>y. Q y \<and> adds m (st_then p f) (R \<union> R' y) (V \<union> V' y) (D \<union> D' y)"
proof (cases p)
  case (Pair r m')
  show ?thesis
  proof (cases r)
    case (Ok x)
    have "mm_inv m'" using assms(1) Pair by (simp add: adds_def)
    then obtain y where y: "Q y" "adds m' (f x m') (R' y) (V' y) (D' y)" using assms(2) Pair Ok by blast
    have "adds m (st_then p f) (R \<union> R' y) (V \<union> V' y) (D \<union> D' y)"
      by (rule adds_then [OF assms(1)]) (use y Pair Ok in simp)
    then show ?thesis using y by blast
  qed (use assms(1,3) Pair in \<open>auto simp: adds_def\<close>)
qed

lemma reservations_mmio_adds:
  assumes "region_wf img" and "mm_inv m"
  shows "\<exists>V. {a. dtb \<le> a \<and> a < dtb + dt_data_len dt} \<subseteq> V \<and>
    adds m (st_then (discover_reservations dt dtb img m) (\<lambda>_ m. discover_mmio dt m))
      {} (declared_reservations dt \<union> V \<union> region_addrs img) (declared_mmio dt)"
proof -
  obtain V where V: "{a. dtb \<le> a \<and> a < dtb + dt_data_len dt} \<subseteq> V" and
    a: "adds m (discover_reservations dt dtb img m) {} (declared_reservations dt \<union> V \<union> region_addrs img) {}"
    using discover_reservations_adds [OF assms(2,1)] by blast
  have "adds m (st_then (discover_reservations dt dtb img m) (\<lambda>_ m. discover_mmio dt m))
      ({} \<union> {}) ((declared_reservations dt \<union> V \<union> region_addrs img) \<union> {}) ({} \<union> declared_mmio dt)"
    by (rule adds_then [OF a]) (rule discover_mmio_adds)
  then show ?thesis using V by (intro exI [of _ V]) simp
qed

text \<open>The map just before it is finalized.\<close>

lemma discover_collect:
  assumes "mm_inv m" and "region_wf img"
  shows "\<exists>y. {a. dtb \<le> a \<and> a < dtb + dt_data_len dt} \<subseteq> snd y \<and>
    adds (mm_clear m) (st_then (discover_ram dt (mm_clear m)) (\<lambda>_ m.
     st_then (discover_bcm2711_firmware_carveout dt m) (\<lambda>_ m.
     st_then (discover_reservations dt dtb img m) (\<lambda>_ m. discover_mmio dt m))))
     (declared_ram dt \<union> fst y) ({} \<union> (fst y \<union> (declared_reservations dt \<union> snd y \<union> region_addrs img)))
     ({} \<union> ({} \<union> declared_mmio dt))"
    (is "\<exists>y. ?Q (snd y) \<and> _")
proof (rule adds_then_ex [where Q = "\<lambda>y. ?Q (snd y)"])
  show "adds (mm_clear m) (discover_ram dt (mm_clear m)) (declared_ram dt) {} {}"
    using mm_clear_empty [OF assms(1)] by (intro discover_ram_adds) simp
  show "\<exists>y. ?Q (snd y)" by (intro exI [of _ "(undefined, UNIV)"]) simp
next
  fix m
  assume "mm_inv m"
  obtain C where C: "adds m (discover_bcm2711_firmware_carveout dt m) C C {}"
    using carveout_adds [OF \<open>mm_inv m\<close>] by blast
  have "\<exists>V. ?Q V \<and> adds m (st_then (discover_bcm2711_firmware_carveout dt m) (\<lambda>_ m.
      st_then (discover_reservations dt dtb img m) (\<lambda>_ m. discover_mmio dt m)))
      (C \<union> {}) (C \<union> (declared_reservations dt \<union> V \<union> region_addrs img)) ({} \<union> declared_mmio dt)"
    by (rule adds_then_ex [OF C reservations_mmio_adds [OF assms(2)]]) auto
  then obtain V where "?Q V" and "adds m (st_then (discover_bcm2711_firmware_carveout dt m) (\<lambda>_ m.
      st_then (discover_reservations dt dtb img m) (\<lambda>_ m. discover_mmio dt m)))
      (C \<union> {}) (C \<union> (declared_reservations dt \<union> V \<union> region_addrs img)) ({} \<union> declared_mmio dt)" by blast
  then show "\<exists>y. ?Q (snd y) \<and> adds m (st_then (discover_bcm2711_firmware_carveout dt m) (\<lambda>_ m.
      st_then (discover_reservations dt dtb img m) (\<lambda>_ m. discover_mmio dt m)))
      (fst y) (fst y \<union> (declared_reservations dt \<union> snd y \<union> region_addrs img)) ({} \<union> declared_mmio dt)"
    by (intro exI [of _ "(C, V)"]) simp
qed

lemma st_then_assoc: "st_then (st_then p f) g = st_then p (\<lambda>x s. st_then (f x s) g)"
  by (cases p; cases "fst p") auto

section \<open>Correctness\<close>

text \<open>
  C16: memory discovery end to end. Whatever the device tree answers, discovery does not
  panic and keeps the map well-formed; when it succeeds, every usable RAM address lies
  in an enabled memory node of the tree and in none of the memory reservations, the
  enabled reserved-memory nodes, the live DTB, the hypervisor image and the SoC ranges.
\<close>

theorem discover_memory_map_safe:
  assumes "mm_inv m" and "region_wf img" and "discover_memory_map dt dtb img m = (r, m')"
  shows "r \<noteq> Panic \<and> mm_inv m' \<and> (r = Ok () \<longrightarrow>
     usable_of m' \<subseteq> declared_ram dt \<and> usable_of m' \<inter> declared_reservations dt = {} \<and>
     usable_of m' \<inter> {a. dtb \<le> a \<and> a < dtb + dt_data_len dt} = {} \<and>
     usable_of m' \<inter> region_addrs img = {} \<and> usable_of m' \<inter> declared_mmio dt = {})"
proof -
  let ?p = "st_then (discover_ram dt (mm_clear m)) (\<lambda>_ m.
     st_then (discover_bcm2711_firmware_carveout dt m) (\<lambda>_ m.
     st_then (discover_reservations dt dtb img m) (\<lambda>_ m. discover_mmio dt m)))"
  have d: "discover_memory_map dt dtb img m = st_then ?p (\<lambda>_ m. st_map_err PeMemoryMap (finalize m))"
    by (simp add: discover_memory_map_def st_then_assoc)
  obtain C V where V: "{a. dtb \<le> a \<and> a < dtb + dt_data_len dt} \<subseteq> V" and
    p: "adds (mm_clear m) ?p (declared_ram dt \<union> C) (C \<union> (declared_reservations dt \<union> V \<union> region_addrs img)) (declared_mmio dt)"
    using discover_collect [OF assms(1,2), of dtb dt] by (elim exE conjE) simp
  show ?thesis
  proof (cases "is_ok (fst ?p)")
    case True
    then obtain m1 where m1: "?p = (Ok (), m1)" by (cases ?p) (auto simp: is_ok_iff)
    have "mm_inv m1" and s: "ram_of m1 = declared_ram dt \<union> C"
      "reserved_of m1 = C \<union> (declared_reservations dt \<union> V \<union> region_addrs img)" "mmio_of m1 = declared_mmio dt"
      using p mm_clear_empty [OF assms(1)] unfolding m1 by (simp_all add: adds_def)
    from finalize_spec [OF this(1)] consider u where "finalize m1 = (Ok (), m1\<lparr>mm_usable := u\<rparr>)"
        "region_list_inv MAX_USABLE_RAM_REGIONS u" "regions_addrs (fl_list u) = ram_of m1 - reserved_of m1"
        "\<forall>r \<in> set (fl_list (mm_ram m1)). \<forall>d \<in> set (fl_list (mm_mmio m1)). \<not> region_overlaps r d"
      | e where "finalize m1 = (Err e, m1)" by blast
    then show ?thesis
    proof cases
      case 1
      then show ?thesis
        using assms(3) d m1 s V \<open>mm_inv m1\<close> no_overlap_disjoint [OF \<open>mm_inv m1\<close>] by (auto simp: mm_inv_def)
    next
      case 2
      then show ?thesis using assms(3) d m1 \<open>mm_inv m1\<close> by auto
    qed
  next
    case False
    then show ?thesis using assms(3) p unfolding d by (cases ?p; cases "fst ?p") (auto simp: adds_def)
  qed
qed

definition example_memory_tree :: "(nat, string) device_tree" where
  "example_memory_tree = \<lparr>dt_root = 0, dt_find_node = (\<lambda>_. None),
     dt_children = (\<lambda>n. if n = 0 then [1] else []), dt_name = (\<lambda>_. []), dt_name_without_address = (\<lambda>_. []),
     dt_is_compatible = (\<lambda>_ _. False), dt_status_okay = (\<lambda>_. Some True),
     dt_property = (\<lambda>n p. if p = ''device_type'' then Some ''memory'' else None),
     dt_as_str = Some, dt_as_u32 = (\<lambda>_. None), dt_as_u64 = (\<lambda>_. None), dt_value = (\<lambda>_. []),
     dt_reg = (\<lambda>n. Some (Some [(Some 0, Some 0x8000)])), dt_ranges = (\<lambda>_. None),
     dt_chosen = None, dt_stdout_path = (\<lambda>_. None), dt_memory_reservations = [], dt_reserved_memory = None,
     dt_no_map = (\<lambda>_. False), dt_reusable = (\<lambda>_. False), dt_no_map_fixup = (\<lambda>_. False), dt_size = (\<lambda>_. None),
     dt_alignment = (\<lambda>_. None), dt_alloc_ranges = (\<lambda>_. None), dt_data_len = 0x100\<rparr>"

lemma example_memory_discovery:
  defines "img \<equiv> \<lparr>region_start = 0x3000, region_size = 0x2000\<rparr> :: phys_region"
  shows "\<exists>m'. discover_memory_map example_memory_tree 0x2100 img mm_empty = (Ok (), m') \<and>
     fl_list (mm_usable m') = [bounds_region 0 0x2000, bounds_region 0x5000 0x8000]"
proof -
  define a b c :: phys_region where "a = \<lparr>region_start = 0, region_size = 0x8000\<rparr>"
    and "b = \<lparr>region_start = 0x2000, region_size = 0x1000\<rparr>" and "c = \<lparr>region_start = 0x2000, region_size = 0x3000\<rparr>"
  have wf: "region_wf a" "region_wf b" "region_wf img" by (simp_all add: a_def b_def img_def region_wf_def)
  define m1 where "m1 = mm_empty\<lparr>mm_ram := fl_of MAX_RAM_REGIONS [a]\<rparr>"
  define m2 where "m2 = m1\<lparr>mm_reserved := fl_of MAX_NORMALIZED_RESERVED_REGIONS [b]\<rparr>"
  define m3 where "m3 = m1\<lparr>mm_reserved := fl_of MAX_NORMALIZED_RESERVED_REGIONS [c]\<rparr>"
  define m' where "m' = m3\<lparr>mm_usable :=
    fl_of MAX_USABLE_RAM_REGIONS [bounds_region 0 0x2000, bounds_region 0x5000 0x8000]\<rparr>"
  have clear: "mm_clear mm_empty = mm_empty"
    by (simp add: mm_clear_def mm_empty_def fl_new_eq fl_clear_eq)
  have "insert_ram mm_empty a = (Ok (), m1)"
    using insert_sorted_merged_eq [of "[]" MAX_RAM_REGIONS a] wf
    by (simp add: insert_ram_def mm_empty_def fl_new_eq m1_def MAX_RAM_REGIONS_def)
  then have "discover_ram example_memory_tree mm_empty = (Ok (), m1)"
    by (simp add: discover_ram_def ram_node_def ram_register_def example_memory_tree_def entry_region_def region_new_def
        checked_add_def a_def)
  moreover have i2: "insert_reserved m1 b = (Ok (), m2)"
    using insert_sorted_merged_eq [of "[]" MAX_NORMALIZED_RESERVED_REGIONS b] wf
    by (simp add: insert_reserved_def m1_def mm_empty_def fl_new_eq m2_def MAX_NORMALIZED_RESERVED_REGIONS_def)
  moreover have i3: "insert_reserved m2 img = (Ok (), m3)"
    using insert_sorted_merged_eq [of "[b]" MAX_NORMALIZED_RESERVED_REGIONS img] wf
    by (simp add: insert_reserved_def m1_def m2_def m3_def b_def c_def img_def MAX_NORMALIZED_RESERVED_REGIONS_def
        region_touches_def region_is_adjacent_def region_hull_def bounds_region_def region_end_def)
  moreover have "finalize m3 = (Ok (), m')"
    by (simp add: finalize_def m3_def m1_def m'_def mm_empty_def fl_new_eq fl_clear_eq fl_iter_eq
        subtract_all_def push_bounds_eq MAX_RAM_REGIONS_def MAX_NORMALIZED_RESERVED_REGIONS_def
        MAX_USABLE_RAM_REGIONS_def a_def c_def region_end_def)
  moreover have "page_rounded_region 0x2100 0x100 = Ok b"
    by (simp add: page_rounded_region_def checked_add_def page_address_def PAGE_SIZE_def region_from_bounds_def region_new_def b_def)
  ultimately have "discover_memory_map example_memory_tree 0x2100 img mm_empty = (Ok (), m')"
    by (simp add: discover_memory_map_def clear discover_bcm2711_firmware_carveout_def discover_reservations_def
        discover_mmio_def example_memory_tree_def)
  then show ?thesis by (simp add: m'_def)
qed

theorem discover_memory_map_safe_witness:
  "\<exists>m'. discover_memory_map example_memory_tree 0x2100 \<lparr>region_start = 0x3000, region_size = 0x2000\<rparr> mm_empty = (Ok (), m') \<and>
     fl_list (mm_usable m') = [bounds_region 0 0x2000, bounds_region 0x5000 0x8000] \<and>
     mm_inv m' \<and> usable_of m' \<subseteq> declared_ram example_memory_tree"
proof -
  obtain m' where m: "discover_memory_map example_memory_tree 0x2100 \<lparr>region_start = 0x3000, region_size = 0x2000\<rparr> mm_empty = (Ok (), m')"
    "fl_list (mm_usable m') = [bounds_region 0 0x2000, bounds_region 0x5000 0x8000]"
    using example_memory_discovery by blast
  have "region_wf \<lparr>region_start = 0x3000, region_size = 0x2000\<rparr>" by (simp add: region_wf_def)
  from discover_memory_map_safe [OF mm_inv_empty this m(1)] m show ?thesis by blast
qed

end
