(* ===== verification/Guest_Platform.thy ===== *)
theory Guest_Platform
  imports System_Info
begin

text \<open>
  The guest-visible address layout (\<open>tvisor_util/guest_platform.rs\<close>): intermediate
  physical address (IPA) regions, the static windows of guest RAM and of the virtual
  devices, the validation of that layout, and the placement of a host device region in a
  page-aligned guest window.
\<close>

definition IPA_BITS :: nat where "IPA_BITS = 39"
definition MIB :: u64 where "MIB = 1024 * 1024"
definition DEFAULT_GUEST_RAM_SIZE :: u64 where "DEFAULT_GUEST_RAM_SIZE = 512 * MIB"

record ipa_region =
  ipa_start :: u64
  ipa_size :: u64

definition ipa_end :: "ipa_region \<Rightarrow> u64 option" where
  "ipa_end r = checked_add (ipa_start r) (ipa_size r)"

definition ipa_overlaps :: "ipa_region \<Rightarrow> ipa_region \<Rightarrow> bool" where
  "ipa_overlaps r other =
     (case (ipa_end r, ipa_end other) of
        (Some e, Some other_end) \<Rightarrow> ipa_start r < other_end \<and> ipa_start other < e
      | _ \<Rightarrow> True)"

definition GUEST_RAM :: ipa_region where
  "GUEST_RAM = \<lparr>ipa_start = 0x40000000, ipa_size = DEFAULT_GUEST_RAM_SIZE\<rparr>"
definition GUEST_GICV :: ipa_region where
  "GUEST_GICV = \<lparr>ipa_start = 0x08010000, ipa_size = 2 * PAGE_SIZE\<rparr>"
definition GUEST_GICD :: ipa_region where
  "GUEST_GICD = \<lparr>ipa_start = 0x08000000, ipa_size = 0x10000\<rparr>"
definition GUEST_PL011 :: ipa_region where
  "GUEST_PL011 = \<lparr>ipa_start = 0x09000000, ipa_size = PAGE_SIZE\<rparr>"
definition VIRTUAL_PL011_IRQ :: u32 where "VIRTUAL_PL011_IRQ = 33"
definition GUEST_PL011_CLOCK_HZ :: u32 where "GUEST_PL011_CLOCK_HZ = 24000000"
definition GUEST_DEVICE_REGIONS :: "ipa_region list" where
  "GUEST_DEVICE_REGIONS = [GUEST_GICD, GUEST_GICV, GUEST_PL011]"

lemmas guest_layout = GUEST_RAM_def GUEST_GICV_def GUEST_GICD_def GUEST_PL011_def DEFAULT_GUEST_RAM_SIZE_def
  MIB_def PAGE_SIZE_def

datatype guest_platform_error = EmptyRegion | UnalignedRegion | IpaAddressOverflow | IpaOutOfRange
  | OverlappingRegions | InvalidDeviceSize | DeviceDoesNotFit

record guest_device_mapping =
  device_ipa :: u64
  device_region :: phys_region
  mapped_pa :: phys_addr
  mapping_size :: usize

definition map_device_into_window ::
  "ipa_region \<Rightarrow> phys_region \<Rightarrow> (guest_device_mapping, guest_platform_error) outcome" where
  "map_device_into_window window device =
     (let page_size = PAGE_SIZE in
      if ipa_size window = 0 \<or> ipa_start window AND (page_size - 1) \<noteq> 0 \<or> ipa_size window AND (page_size - 1) \<noteq> 0
      then Err UnalignedRegion
      else let off = region_start device AND (page_size - 1) in
        and_then (or_panic (checked_sub (region_start device) off)) (\<lambda>mapped.
        and_then (ok_or IpaAddressOverflow (checked_add off (region_size device))) (\<lambda>required.
        and_then (ok_or IpaAddressOverflow (checked_add required (page_size - 1))) (\<lambda>up.
        let sz = up AND NOT (page_size - 1) in
        if ipa_size window < sz then Err DeviceDoesNotFit
        else and_then (ok_or IpaAddressOverflow (checked_add (ipa_start window) off)) (\<lambda>ipa.
          Ok \<lparr>device_ipa = ipa, device_region = device, mapped_pa = mapped, mapping_size = sz\<rparr>)))))"

text \<open>The \<open>while\<close> loops of \<open>validate\<close>, over the regions not yet visited.\<close>

fun validate_others :: "ipa_region \<Rightarrow> ipa_region list \<Rightarrow> (unit, guest_platform_error) outcome" where
  "validate_others region [] = Ok ()"
| "validate_others region (other # rest) =
     (if ipa_overlaps region other then Err OverlappingRegions else validate_others region rest)"

fun validate_regions :: "ipa_region list \<Rightarrow> (unit, guest_platform_error) outcome" where
  "validate_regions [] = Ok ()"
| "validate_regions (region # rest) =
     (if ipa_size region = 0 then Err EmptyRegion
      else if ipa_start region AND (PAGE_SIZE - 1) \<noteq> 0 \<or> ipa_size region AND (PAGE_SIZE - 1) \<noteq> 0 then Err UnalignedRegion
      else case ipa_end region of
          None \<Rightarrow> Err IpaAddressOverflow
        | Some e \<Rightarrow> and_then (or_panic (checked_sub e 1)) (\<lambda>last.
            if push_bit IPA_BITS 1 - 1 < last then Err IpaOutOfRange
            else and_then (validate_others region rest) (\<lambda>_. validate_regions rest)))"

definition validate :: "(unit, guest_platform_error) outcome" where
  "validate =
     and_then (validate_regions [GUEST_RAM, GUEST_GICD, GUEST_GICV, GUEST_PL011]) (\<lambda>_.
     if ipa_size GUEST_GICD \<noteq> 0x10000 \<or> ipa_size GUEST_GICV \<noteq> 2 * PAGE_SIZE \<or> ipa_size GUEST_PL011 \<noteq> PAGE_SIZE
     then Err InvalidDeviceSize else Ok ())"

section \<open>What validation decides\<close>

text \<open>The guest addresses of a region, as numbers, and what a valid region is.\<close>

definition ipa_addrs :: "ipa_region \<Rightarrow> nat set" where
  "ipa_addrs r = {unat (ipa_start r) ..< unat (ipa_start r) + unat (ipa_size r)}"

definition ipa_wf :: "ipa_region \<Rightarrow> bool" where
  "ipa_wf r \<longleftrightarrow> ipa_size r \<noteq> 0 \<and> 4096 dvd unat (ipa_start r) \<and> 4096 dvd unat (ipa_size r) \<and> ipa_addrs r \<subseteq> {..< 2 ^ 39}"

lemma ipa_addrs_bound:
  assumes "ipa_size r \<noteq> 0"
  shows "ipa_addrs r \<subseteq> {..< n} \<longleftrightarrow> unat (ipa_start r) + unat (ipa_size r) \<le> n"
proof
  assume "ipa_addrs r \<subseteq> {..< n}"
  moreover have "unat (ipa_start r) + unat (ipa_size r) - 1 \<in> ipa_addrs r"
    using assms unat_gt_0 [of "ipa_size r"] by (simp add: ipa_addrs_def)
  ultimately show "unat (ipa_start r) + unat (ipa_size r) \<le> n" by force
qed (auto simp: ipa_addrs_def)

lemma ipa_wf_end: "ipa_wf r \<Longrightarrow> ipa_end r = Some (ipa_start r + ipa_size r) \<and>
   unat (ipa_start r + ipa_size r) = unat (ipa_start r) + unat (ipa_size r)"
  using ipa_addrs_bound [of r "2 ^ 39"]
  by (simp add: ipa_wf_def ipa_end_def checked_add_def unat_add_no_overflow)

lemma ipa_overlaps_iff:
  assumes "ipa_wf r" and "ipa_wf q"
  shows "ipa_overlaps r q \<longleftrightarrow> ipa_addrs r \<inter> ipa_addrs q \<noteq> {}"
proof -
  have "0 < unat (ipa_size r)" "0 < unat (ipa_size q)" using assms by (simp_all add: ipa_wf_def unat_gt_0)
  then have "ipa_addrs r \<inter> ipa_addrs q \<noteq> {} \<longleftrightarrow>
      unat (ipa_start r) < unat (ipa_start q) + unat (ipa_size q) \<and> unat (ipa_start q) < unat (ipa_start r) + unat (ipa_size r)"
    unfolding ipa_addrs_def Int_atLeastLessThan by auto
  then show ?thesis
    using ipa_wf_end [OF assms(1)] ipa_wf_end [OF assms(2)] by (simp add: ipa_overlaps_def word_less_nat_alt)
qed

lemma validate_others_Ok: "validate_others r qs = Ok () \<longleftrightarrow> (\<forall>q \<in> set qs. \<not> ipa_overlaps r q)"
  by (induction qs) auto

lemma validate_one:
  "validate_regions (r # rest) = Ok () \<longleftrightarrow> ipa_wf r \<and> (\<forall>q \<in> set rest. \<not> ipa_overlaps r q) \<and> validate_regions rest = Ok ()"
proof (cases "ipa_size r = 0 \<or> ipa_end r = None")
  case True
  then show ?thesis using ipa_wf_end [of r] by (auto simp: ipa_wf_def outcome_simps)
next
  case False
  let ?n = "unat (ipa_start r) + unat (ipa_size r)"
  from False have e: "ipa_end r = Some (ipa_start r + ipa_size r)" "?n < 2 ^ 64"
    by (auto simp: ipa_end_def checked_add_def split: if_splits)
  then have u: "unat (ipa_start r + ipa_size r) = ?n" by (simp add: unat_add_no_overflow)
  have pos: "0 < ?n" using False by (simp add: unat_gt_0)
  then have nz: "ipa_start r + ipa_size r \<noteq> 0" using u by (metis unat_0 less_irrefl)
  have c: "checked_sub (ipa_start r + ipa_size r) 1 = Some (ipa_start r + ipa_size r - 1)"
    using u pos by (simp add: checked_sub_def word_le_nat_alt Suc_le_eq)
  have "push_bit IPA_BITS 1 - 1 < ipa_start r + ipa_size r - 1 \<longleftrightarrow> 2 ^ 39 < ?n"
    using u pos nz by (simp add: word_less_nat_alt unat_pred IPA_BITS_def) linarith
  then show ?thesis
    using False e(1) c ipa_addrs_bound [of r "2 ^ 39"]
    by (simp add: ipa_wf_def PAGE_SIZE_minus_1 and_mask_eq_0_iff outcome_simps validate_others_Ok not_less) blast
qed

section \<open>Correctness\<close>

text \<open>
  C33: layout validation accepts a list of regions exactly when each is non-empty,
  page-aligned and inside the 39-bit guest address space and no two share an address;
  and the static guest layout of RAM, distributor, CPU interface and UART is accepted.
\<close>

theorem guest_layout_valid:
  "(validate_regions rs = Ok () \<longleftrightarrow>
     list_all ipa_wf rs \<and> sorted_wrt (\<lambda>r q. ipa_addrs r \<inter> ipa_addrs q = {}) rs) \<and> validate = Ok ()"
proof
  show "validate_regions rs = Ok () \<longleftrightarrow> list_all ipa_wf rs \<and> sorted_wrt (\<lambda>r q. ipa_addrs r \<inter> ipa_addrs q = {}) rs"
  proof (induction rs)
    case (Cons r rs)
    show ?case unfolding validate_one Cons using ipa_overlaps_iff [of r] by (auto simp: list_all_iff)
  qed simp
  show "validate = Ok ()"
    by (simp add: validate_def guest_layout ipa_end_def checked_add_def checked_sub_def ipa_overlaps_def IPA_BITS_def)
qed

lemma map_device_eq:
  fixes w dev
  defines "off \<equiv> unat (region_start dev) mod 4096"
  assumes a: "ipa_size w \<noteq> 0" "4096 dvd unat (ipa_start w)" "4096 dvd unat (ipa_size w)"
    and fits: "off + unat (region_size dev) + 4095 < 2 ^ 64"
  shows "\<exists>sz. unat sz = page_ceil (off + unat (region_size dev)) \<and>
    map_device_into_window w dev = (if ipa_size w < sz then Err DeviceDoesNotFit
      else and_then (ok_or IpaAddressOverflow (checked_add (ipa_start w) (region_start dev AND mask 12)))
        (\<lambda>ipa. Ok \<lparr>device_ipa = ipa, device_region = dev,
           mapped_pa = region_start dev - (region_start dev AND mask 12), mapping_size = sz\<rparr>))"
proof -
  let ?o = "region_start dev AND mask 12" and ?s = "region_size dev"
  have o: "unat ?o = off" by (simp add: off_def)
  have r: "checked_add ?o ?s = Some (?o + ?s)" and ur: "unat (?o + ?s) = off + unat ?s"
    using fits o by (simp_all add: checked_add_def unat_add_no_overflow)
  have p: "unat (PAGE_SIZE - 1) = 4095" by (simp add: PAGE_SIZE_def)
  have r2: "checked_add (?o + ?s) (PAGE_SIZE - 1) = Some (?o + ?s + (PAGE_SIZE - 1))"
      and ur2: "unat (?o + ?s + (PAGE_SIZE - 1)) = off + unat ?s + 4095"
    using fits ur p by (simp_all add: checked_add_def unat_add_no_overflow)
  have le: "?o \<le> region_start dev" using o by (simp add: word_le_nat_alt off_def)
  have al: "ipa_start w AND mask 12 = 0" "ipa_size w AND mask 12 = 0" using a by (simp_all add: and_mask_eq_0_iff)
  have "unat ((?o + ?s + (PAGE_SIZE - 1)) AND NOT (mask 12)) = page_ceil (off + unat ?s)"
    unfolding unat_and_not_mask ur2 by (simp add: page_ceil_def page_floor_def)
  then show ?thesis
    using r r2 le al a(1)
    by (intro exI [of _ "(?o + ?s + (PAGE_SIZE - 1)) AND NOT (mask 12)"])
      (simp only: map_device_into_window_def Let_def checked_sub_def PAGE_SIZE_minus_1 simp_thms if_True if_False
        or_panic_Some and_then.simps ok_or.simps)
qed

lemma map_device_overflow:
  assumes "ipa_size w \<noteq> 0" "4096 dvd unat (ipa_start w)" "4096 dvd unat (ipa_size w)"
    and "2 ^ 64 \<le> unat (region_start dev) mod 4096 + unat (region_size dev) + 4095"
  shows "map_device_into_window w dev = Err IpaAddressOverflow"
proof -
  let ?o = "region_start dev AND mask 12" and ?s = "region_size dev"
  have le: "?o \<le> region_start dev" by (simp add: word_le_nat_alt)
  have al: "ipa_start w AND mask 12 = 0" "ipa_size w AND mask 12 = 0" using assms by (simp_all add: and_mask_eq_0_iff)
  have m: "unat (mask 12 :: u64) = 4095" by (simp add: mask_eq_exp_minus_1)
  have "checked_add (?o + ?s) (mask 12) = None" if "checked_add ?o ?s = Some (?o + ?s)"
    using assms(4) unat_checked_add [OF that] by (simp add: checked_add_None m)
  then show ?thesis
    using le al assms(1)
    by (cases "checked_add ?o ?s"; cases "checked_add ?o ?s = Some (?o + ?s)")
      (simp_all add: map_device_into_window_def Let_def checked_sub_def PAGE_SIZE_minus_1,
        simp add: checked_add_Some)
qed



end
