(* ===== verification/Mmio.thy ===== *)
theory Mmio
  imports Guest_Platform
begin

text \<open>
  Trapped guest device accesses (\<open>tvisor_util/mmio.rs\<close>): decoding of a stage-2 data abort
  syndrome, the virtual PL011 with its bounded receive queue, the minimal virtual GIC
  distributor, and the dispatcher that emulates one access on the guest registers.

  The array \<open>rx\<close> of the receive queue is a list with the two \<open>usize\<close> cursors as natural
  numbers (their values stay below 64); every index that leaves an array is a panic.
\<close>

section \<open>Abort decoding\<close>

definition ESR_ISV :: u32 where "ESR_ISV = push_bit 24 1"
definition ESR_SAS_SHIFT :: nat where "ESR_SAS_SHIFT = 22"
definition ESR_SSE :: u32 where "ESR_SSE = push_bit 21 1"
definition ESR_SRT_SHIFT :: nat where "ESR_SRT_SHIFT = 16"
definition ESR_SF :: u32 where "ESR_SF = push_bit 15 1"
definition ESR_WNR :: u32 where "ESR_WNR = push_bit 6 1"

lemmas esr_consts = ESR_ISV_def ESR_SAS_SHIFT_def ESR_SSE_def ESR_SRT_SHIFT_def ESR_SF_def ESR_WNR_def

datatype mmio_decode_error = InstructionSyndromeInvalid | SignExtendingRead | InvalidAccessSize

record mmio_access =
  acc_ipa :: u64
  acc_is_write :: bool
  acc_width :: u8
  acc_register :: u8
  acc_register_is_64bit :: bool

definition access_width :: "u32 \<Rightarrow> (u8, mmio_decode_error) outcome" where
  "access_width sas = (if sas = 0 then Ok 1 else if sas = 1 then Ok 2 else if sas = 2 then Ok 4
     else if sas = 3 then Ok 8 else Err InvalidAccessSize)"

definition decode_data_abort :: "u64 \<Rightarrow> u64 \<Rightarrow> (mmio_access, mmio_decode_error) outcome" where
  "decode_data_abort esr_el2 ipa =
     (let iss = (ucast esr_el2 :: u32) AND 0x01ffffff in
      if iss AND ESR_ISV = 0 then Err InstructionSyndromeInvalid
      else and_then (access_width (drop_bit ESR_SAS_SHIFT iss AND 3)) (\<lambda>width.
      let is_write = iss AND ESR_WNR \<noteq> 0 in
      if \<not> is_write \<and> iss AND ESR_SSE \<noteq> 0 then Err SignExtendingRead
      else Ok \<lparr>acc_ipa = ipa, acc_is_write = is_write, acc_width = width,
                acc_register = ucast (drop_bit ESR_SRT_SHIFT iss AND 0x1f),
                acc_register_is_64bit = (iss AND ESR_SF \<noteq> 0)\<rparr>))"

section \<open>The virtual PL011\<close>

datatype pl011_error = UnsupportedWidth u8 | UnsupportedRead u64 | UnsupportedWrite u64
datatype pl011_result = PlRead u64 | PlWrite "u8 option"

record virtual_pl011 =
  imsc :: u32
  rx :: "u8 list"
  rx_head :: nat
  rx_len :: nat

definition pl011_default :: virtual_pl011 where
  "pl011_default = \<lparr>imsc = 0, rx = replicate 64 0, rx_head = 0, rx_len = 0\<rparr>"

definition PL011_DR :: u64 where "PL011_DR = 0x00"
definition PL011_FR :: u64 where "PL011_FR = 0x18"
definition PL011_IBRD :: u64 where "PL011_IBRD = 0x24"
definition PL011_FBRD :: u64 where "PL011_FBRD = 0x28"
definition PL011_LCR_H :: u64 where "PL011_LCR_H = 0x2c"
definition PL011_CR :: u64 where "PL011_CR = 0x30"
definition PL011_IMSC :: u64 where "PL011_IMSC = 0x38"
definition PL011_RIS :: u64 where "PL011_RIS = 0x3c"
definition PL011_MIS :: u64 where "PL011_MIS = 0x40"
definition PL011_ICR :: u64 where "PL011_ICR = 0x44"
definition PL011_PID0 :: u64 where "PL011_PID0 = 0xfe0"
definition PL011_PID1 :: u64 where "PL011_PID1 = 0xfe4"
definition PL011_PID2 :: u64 where "PL011_PID2 = 0xfe8"
definition PL011_PID3 :: u64 where "PL011_PID3 = 0xfec"
definition PL011_CID0 :: u64 where "PL011_CID0 = 0xff0"
definition PL011_CID1 :: u64 where "PL011_CID1 = 0xff4"
definition PL011_CID2 :: u64 where "PL011_CID2 = 0xff8"
definition PL011_CID3 :: u64 where "PL011_CID3 = 0xffc"
definition RXIM :: u32 where "RXIM = push_bit 4 1"
definition FR_TX_READY :: u64 where "FR_TX_READY = push_bit 7 1"
definition FR_RXFE :: u64 where "FR_RXFE = push_bit 4 1"

definition enqueue_rx :: "virtual_pl011 \<Rightarrow> u8 \<Rightarrow> (bool, 'e) outcome \<times> virtual_pl011" where
  "enqueue_rx s byte =
     (if rx_len s = length (rx s) then (Ok False, s)
      else let tail = (rx_head s + rx_len s) mod length (rx s) in
        if tail < length (rx s)
        then (Ok True, s\<lparr>rx := (rx s)[tail := byte], rx_len := rx_len s + 1\<rparr>)
        else (Panic, s))"

definition dequeue_rx :: "virtual_pl011 \<Rightarrow> (u8, 'e) outcome \<times> virtual_pl011" where
  "dequeue_rx s =
     (if rx_len s = 0 then (Ok 0, s)
      else case array_get (rx s) (rx_head s) of
          None \<Rightarrow> (Panic, s)
        | Some byte \<Rightarrow> (Ok byte, s\<lparr>rx_head := (rx_head s + 1) mod length (rx s), rx_len := rx_len s - 1\<rparr>))"

definition rx_irq_pending :: "virtual_pl011 \<Rightarrow> bool" where
  "rx_irq_pending s \<longleftrightarrow> rx_len s \<noteq> 0 \<and> imsc s AND RXIM \<noteq> 0"

definition pl011_write ::
  "virtual_pl011 \<Rightarrow> u64 \<Rightarrow> u64 \<Rightarrow> (pl011_result, pl011_error) outcome \<times> virtual_pl011" where
  "pl011_write s off v =
     (if off = PL011_DR then (Ok (PlWrite (Some (ucast v))), s)
      else if off \<in> {PL011_IBRD, PL011_FBRD, PL011_LCR_H, PL011_CR, PL011_ICR} then (Ok (PlWrite None), s)
      else if off = PL011_IMSC then (Ok (PlWrite None), s\<lparr>imsc := ucast v\<rparr>)
      else (Ok (PlWrite None), s))"

definition pl011_read ::
  "virtual_pl011 \<Rightarrow> u64 \<Rightarrow> (pl011_result, pl011_error) outcome \<times> virtual_pl011" where
  "pl011_read s off =
     (if off = PL011_DR then st_then (dequeue_rx s) (\<lambda>byte s. (Ok (PlRead (ucast byte)), s))
      else (Ok (PlRead
        (if off = PL011_FR then FR_TX_READY OR (if rx_len s = 0 then FR_RXFE else 0)
         else if off = PL011_IMSC then ucast (imsc s)
         else if off = PL011_RIS then (if rx_len s \<noteq> 0 then ucast RXIM else 0)
         else if off = PL011_MIS then (if rx_irq_pending s then ucast RXIM else 0)
         else if off = PL011_PID0 then 0x11
         else if off = PL011_PID1 then 0x10
         else if off = PL011_PID2 then 0x04
         else if off = PL011_PID3 then 0x00
         else if off = PL011_CID0 then 0x0d
         else if off = PL011_CID1 then 0xf0
         else if off = PL011_CID2 then 0x05
         else if off = PL011_CID3 then 0xb1
         else 0)), s))"

definition pl011_access ::
  "virtual_pl011 \<Rightarrow> u64 \<Rightarrow> bool \<Rightarrow> u8 \<Rightarrow> u64 \<Rightarrow> (pl011_result, pl011_error) outcome \<times> virtual_pl011" where
  "pl011_access s off is_write width v =
     (if width \<notin> {1, 2, 4} then (Err (UnsupportedWidth width), s)
      else if is_write then pl011_write s off v else pl011_read s off)"

section \<open>The virtual distributor\<close>

record virtual_gicd =
  vgicd_ctlr :: u32

definition gicd_default :: virtual_gicd where "gicd_default = \<lparr>vgicd_ctlr = 0\<rparr>"

text \<open>The register banks whose programmed state is not retained.\<close>

definition gicd_clear_bank :: "u64 \<Rightarrow> bool" where
  "gicd_clear_bank off \<longleftrightarrow> 0x080 \<le> off \<and> off \<le> 0x0ff \<or> 0x100 \<le> off \<and> off \<le> 0x1ff \<or>
     0x280 \<le> off \<and> off \<le> 0x2ff \<or> 0x400 \<le> off \<and> off \<le> 0x7ff \<or> 0xc00 \<le> off \<and> off \<le> 0xcff"

definition gicd_read_value :: "virtual_gicd \<Rightarrow> u64 \<Rightarrow> u64" where
  "gicd_read_value s off =
     (if off = 0x000 then ucast (vgicd_ctlr s)
      else if off = 0x004 then 1
      else if off = 0x008 then 0x02000043
      else if 0x800 \<le> off \<and> off \<le> 0x8ff then 0x01010101
      else if gicd_clear_bank off then 0
      else 0)"

definition gicd_access :: "virtual_gicd \<Rightarrow> u64 \<Rightarrow> bool \<Rightarrow> u8 \<Rightarrow> u64 \<Rightarrow> (u64, unit) outcome \<times> virtual_gicd" where
  "gicd_access s off is_write width v =
     (if width \<notin> {1, 2, 4} then (Err (), s)
      else if \<not> is_write then (Ok (gicd_read_value s off), s)
      else if off = 0x000 then (Ok 0, s\<lparr>vgicd_ctlr := ucast v AND 1\<rparr>)
      else if gicd_clear_bank off \<or> 0x800 \<le> off \<and> off \<le> 0x8ff then (Ok 0, s)
      else (Ok 0, s))"

section \<open>The dispatcher\<close>

datatype mmio_emulation_error = UnmappedIpa u64 | MePl011 pl011_error | GicDistributor

record mmio_dispatcher =
  md_pl011 :: virtual_pl011
  md_gicd :: virtual_gicd

definition dispatcher_default :: mmio_dispatcher where
  "dispatcher_default = \<lparr>md_pl011 = pl011_default, md_gicd = gicd_default\<rparr>"

definition enqueue_pl011_rx :: "mmio_dispatcher \<Rightarrow> u8 \<Rightarrow> (bool, 'e) outcome \<times> mmio_dispatcher" where
  "enqueue_pl011_rx d byte = map_prod id (\<lambda>p. d\<lparr>md_pl011 := p\<rparr>) (enqueue_rx (md_pl011 d) byte)"

definition pl011_rx_irq_pending :: "mmio_dispatcher \<Rightarrow> bool" where
  "pl011_rx_irq_pending d = rx_irq_pending (md_pl011 d)"

text \<open>The offset of an address in a window: \<open>checked_sub\<close> filtered by the window size.\<close>

definition window_offset :: "ipa_region \<Rightarrow> u64 \<Rightarrow> u64 option" where
  "window_offset w ipa = (case checked_sub ipa (ipa_start w) of
     Some off \<Rightarrow> if off < ipa_size w then Some off else None | None \<Rightarrow> None)"

text \<open>Register operands: number 31 is the zero register.\<close>

definition read_operand :: "u8 \<Rightarrow> u64 list \<Rightarrow> (u64, 'e) outcome" where
  "read_operand r regs = (if r = 31 then Ok 0 else or_panic (array_get regs (unat r)))"

definition write_result :: "mmio_access \<Rightarrow> u64 \<Rightarrow> u64 list \<Rightarrow> (unit, 'e) outcome \<times> u64 list" where
  "write_result a v regs =
     (if acc_register a = 31 then (Ok (), regs)
      else if unat (acc_register a) < length regs
      then (Ok (), regs[unat (acc_register a) := (if acc_register_is_64bit a then v else ucast (ucast v :: u32))])
      else (Panic, regs))"

definition emulate_gicd ::
  "mmio_dispatcher \<Rightarrow> mmio_access \<Rightarrow> u64 list \<Rightarrow> u64 \<Rightarrow>
   (u8 option, mmio_emulation_error) outcome \<times> mmio_dispatcher \<times> u64 list" where
  "emulate_gicd d a regs off =
     (case read_operand (acc_register a) regs of
        Ok v \<Rightarrow>
          (case gicd_access (md_gicd d) off (acc_is_write a) (acc_width a) v of
             (Ok res, g) \<Rightarrow>
               if \<not> acc_is_write a \<and> acc_register a \<noteq> 31
               then (case write_result a res regs of
                       (Ok _, regs') \<Rightarrow> (Ok None, d\<lparr>md_gicd := g\<rparr>, regs')
                     | (Err e, regs') \<Rightarrow> (Err e, d\<lparr>md_gicd := g\<rparr>, regs')
                     | (Panic, regs') \<Rightarrow> (Panic, d\<lparr>md_gicd := g\<rparr>, regs'))
               else (Ok None, d\<lparr>md_gicd := g\<rparr>, regs)
           | (Err e, g) \<Rightarrow> (Err GicDistributor, d\<lparr>md_gicd := g\<rparr>, regs)
           | (Panic, g) \<Rightarrow> (Panic, d\<lparr>md_gicd := g\<rparr>, regs))
      | Err e \<Rightarrow> (Err e, d, regs)
      | Panic \<Rightarrow> (Panic, d, regs))"

definition emulate_pl011 ::
  "mmio_dispatcher \<Rightarrow> mmio_access \<Rightarrow> u64 list \<Rightarrow> u64 \<Rightarrow>
   (u8 option, mmio_emulation_error) outcome \<times> mmio_dispatcher \<times> u64 list" where
  "emulate_pl011 d a regs off =
     (case read_operand (acc_register a) regs of
        Ok v \<Rightarrow>
          (case pl011_access (md_pl011 d) off (acc_is_write a) (acc_width a) v of
             (Ok (PlRead v), p) \<Rightarrow>
               (case write_result a v regs of
                  (Ok _, regs') \<Rightarrow> (Ok None, d\<lparr>md_pl011 := p\<rparr>, regs')
                | (Err e, regs') \<Rightarrow> (Err e, d\<lparr>md_pl011 := p\<rparr>, regs')
                | (Panic, regs') \<Rightarrow> (Panic, d\<lparr>md_pl011 := p\<rparr>, regs'))
           | (Ok (PlWrite byte), p) \<Rightarrow> (Ok byte, d\<lparr>md_pl011 := p\<rparr>, regs)
           | (Err e, p) \<Rightarrow> (Err (MePl011 e), d\<lparr>md_pl011 := p\<rparr>, regs)
           | (Panic, p) \<Rightarrow> (Panic, d\<lparr>md_pl011 := p\<rparr>, regs))
      | Err e \<Rightarrow> (Err e, d, regs)
      | Panic \<Rightarrow> (Panic, d, regs))"

definition emulate ::
  "mmio_dispatcher \<Rightarrow> mmio_access \<Rightarrow> u64 list \<Rightarrow>
   (u8 option, mmio_emulation_error) outcome \<times> mmio_dispatcher \<times> u64 list" where
  "emulate d a regs =
     (case window_offset GUEST_GICD (acc_ipa a) of
        Some off \<Rightarrow> emulate_gicd d a regs off
      | None \<Rightarrow>
          (case window_offset GUEST_PL011 (acc_ipa a) of
             None \<Rightarrow> (Err (UnmappedIpa (acc_ipa a)), d, regs)
           | Some off \<Rightarrow> emulate_pl011 d a regs off))"

section \<open>The receive queue\<close>

definition rx_queue :: "virtual_pl011 \<Rightarrow> u8 list" where
  "rx_queue s = map (\<lambda>i. rx s ! ((rx_head s + i) mod 64)) [0..<rx_len s]"

definition pl011_inv :: "virtual_pl011 \<Rightarrow> bool" where
  "pl011_inv s \<longleftrightarrow> length (rx s) = 64 \<and> rx_head s < 64 \<and> rx_len s \<le> 64"

definition dispatcher_inv :: "mmio_dispatcher \<Rightarrow> bool" where
  "dispatcher_inv d \<longleftrightarrow> pl011_inv (md_pl011 d) \<and> vgicd_ctlr (md_gicd d) \<le> 1"

lemma length_rx_queue [simp]: "length (rx_queue s) = rx_len s"
  by (simp add: rx_queue_def)

lemma enqueue_rx_spec:
  assumes "pl011_inv s"
  shows "\<exists>t. enqueue_rx s b = (Ok (length (rx_queue s) < 64), t) \<and> pl011_inv t \<and> imsc t = imsc s \<and>
     rx_queue t = (if length (rx_queue s) < 64 then rx_queue s @ [b] else rx_queue s)"
proof (cases "rx_len s = 64")
  case False
  let ?t = "s\<lparr>rx := (rx s)[(rx_head s + rx_len s) mod 64 := b], rx_len := rx_len s + 1\<rparr>"
  have i: "length (rx s) = 64" "rx_head s < 64" "rx_len s < 64" using assms False by (simp_all add: pl011_inv_def)
  have "(rx_head s + rx_len s) mod 64 \<noteq> (rx_head s + j) mod 64" if "j < rx_len s" for j
    using that i by (auto simp: mod_if)
  then have "rx_queue ?t = rx_queue s @ [b]"
    using i by (auto simp: rx_queue_def)
  then show ?thesis using assms i by (intro exI [of _ ?t]) (simp add: enqueue_rx_def pl011_inv_def)
qed (use assms in \<open>auto simp: enqueue_rx_def pl011_inv_def\<close>)

lemma dequeue_rx_spec:
  assumes "pl011_inv s"
  shows "\<exists>t. dequeue_rx s = ((Ok (if rx_queue s = [] then 0 else hd (rx_queue s)) :: (u8, 'e) outcome), t) \<and> pl011_inv t \<and> imsc t = imsc s \<and>
     rx_queue t = tl (rx_queue s)"
proof (cases "rx_len s = 0")
  case True
  then show ?thesis using assms by (simp add: dequeue_rx_def rx_queue_def)
next
  case False
  let ?t = "s\<lparr>rx_head := (rx_head s + 1) mod 64, rx_len := rx_len s - 1\<rparr>"
  have i: "length (rx s) = 64" "rx_head s < 64" "rx_len s \<le> 64" using assms by (simp_all add: pl011_inv_def)
  have q: "rx_queue s = rx s ! rx_head s # map (\<lambda>i. rx s ! ((rx_head s + i) mod 64)) [1..<rx_len s]"
    using False i by (simp add: rx_queue_def upt_conv_Cons)
  have "rx_queue ?t = map (\<lambda>i. rx s ! ((rx_head s + i) mod 64)) (map Suc [0..<rx_len s - 1])"
    by (simp add: rx_queue_def mod_simps)
  also have "map Suc [0..<rx_len s - 1] = [1..<rx_len s]" using False by (simp add: map_Suc_upt)
  finally have "rx_queue ?t = tl (rx_queue s)" using q by simp
  moreover have "dequeue_rx s = ((Ok (rx s ! rx_head s) :: (u8, 'e) outcome), ?t)"
    using False i by (simp add: dequeue_rx_def array_get_def)
  ultimately show ?thesis using q i by (intro exI [of _ ?t]) (simp add: pl011_inv_def)
qed

section \<open>What an emulated access does\<close>

lemma ucast_and_31: "(ucast (x AND 0x1f :: u32) :: u8) < 32"
proof -
  have "unat (x AND 0x1f) < 32" using unat_and_mask_eq [of x 5] by (simp add: mask_eq_exp_minus_1)
  then show ?thesis by (simp add: word_less_nat_alt unsigned_ucast_eq take_bit_nat_eq_self)
qed

lemma decode_fields:
  assumes "decode_data_abort esr ipa = Ok a"
  shows "acc_ipa a = ipa" and "acc_register a < 32" and "acc_width a \<in> {1, 2, 4, 8}"
  using assms ucast_and_31
  by (auto simp: decode_data_abort_def access_width_def Let_def outcome_simps simp del: drop_bit_and split: if_splits)

lemma register_cases:
  assumes "r < (32 :: u8)"
  shows "r = 31 \<or> unat r < 31"
proof -
  have "unat r < 32" using assms by (simp add: word_less_nat_alt)
  moreover have "r = 31" if "unat r = 31" using that word_unat_eq_iff [of r 31] by simp
  ultimately show ?thesis by linarith
qed

lemma operand_ok:
  assumes "r < 32" and "length regs = 31"
  shows "read_operand r regs = Ok (if r = 31 then 0 else regs ! unat r)"
  using register_cases [OF assms(1)] assms(2) by (auto simp: read_operand_def array_get_def)

text \<open>The register file after a read that returned \<open>v\<close>.\<close>

definition regs_after_read :: "mmio_access \<Rightarrow> u64 \<Rightarrow> u64 list \<Rightarrow> u64 list" where
  "regs_after_read a v regs = (if acc_register a = 31 then regs
     else regs[unat (acc_register a) := (if acc_register_is_64bit a then v else ucast (ucast v :: u32))])"

lemma write_result_ok:
  "acc_register a < 32 \<Longrightarrow> length regs = 31 \<Longrightarrow> write_result a v regs = (Ok (), regs_after_read a v regs)"
  using register_cases [of "acc_register a"] by (auto simp: write_result_def regs_after_read_def)

abbreviation store_value :: "mmio_access \<Rightarrow> u64 list \<Rightarrow> u64" where
  "store_value a regs \<equiv> (if acc_register a = 31 then 0 else regs ! unat (acc_register a))"

lemma emulate_gicd_eq:
  assumes "acc_register a < 32" and "length regs = 31"
  shows "emulate_gicd d a regs off =
    (if acc_width a \<notin> {1, 2, 4} then (Err GicDistributor, d, regs)
     else if acc_is_write a
     then (Ok None, (if off = 0 then d\<lparr>md_gicd := \<lparr>vgicd_ctlr = ucast (store_value a regs) AND 1\<rparr>\<rparr> else d), regs)
     else (Ok None, d, regs_after_read a (gicd_read_value (md_gicd d) off) regs))"
  by (simp add: emulate_gicd_def gicd_access_def regs_after_read_def operand_ok [OF assms] write_result_ok [OF assms])

lemma emulate_pl011_write_eq:
  assumes "acc_register a < 32" and "length regs = 31" and "acc_is_write a"
  shows "emulate_pl011 d a regs off =
    (if acc_width a \<notin> {1, 2, 4} then (Err (MePl011 (UnsupportedWidth (acc_width a))), d, regs)
     else if off = 0 then (Ok (Some (ucast (store_value a regs))), d, regs)
     else if off = PL011_IMSC then (Ok None, d\<lparr>md_pl011 := (md_pl011 d)\<lparr>imsc := ucast (store_value a regs)\<rparr>\<rparr>, regs)
     else (Ok None, d, regs))"
  using assms(3)
  by (simp add: operand_ok [OF assms(1,2)] emulate_pl011_def pl011_access_def pl011_write_def PL011_DR_def PL011_IMSC_def PL011_IBRD_def
      PL011_FBRD_def PL011_LCR_H_def PL011_CR_def PL011_ICR_def)

lemma emulate_pl011_read_eq:
  assumes "acc_register a < 32" and "length regs = 31" and "\<not> acc_is_write a" and "pl011_inv (md_pl011 d)"
    and "acc_width a \<in> {1, 2, 4}"
  shows "\<exists>v p. emulate_pl011 d a regs off = (Ok None, d\<lparr>md_pl011 := p\<rparr>, regs_after_read a v regs) \<and> pl011_inv p \<and>
     pl011_read (md_pl011 d) off = (Ok (PlRead v), p)"
proof -
  obtain p where p: "dequeue_rx (md_pl011 d) =
        ((Ok (if rx_queue (md_pl011 d) = [] then 0 else hd (rx_queue (md_pl011 d))) :: (u8, pl011_error) outcome), p)" "pl011_inv p"
    using dequeue_rx_spec [OF assms(4)] by blast
  then obtain v q where "pl011_read (md_pl011 d) off = (Ok (PlRead v), q)" "pl011_inv q"
    using assms(4) by (cases "off = PL011_DR") (simp_all add: pl011_read_def)
  then show ?thesis
    using assms(3,5)
    by (simp add: operand_ok [OF assms(1,2)] write_result_ok [OF assms(1,2)] emulate_pl011_def pl011_access_def)
qed

section \<open>The reference UART\<close>

text \<open>
  The UART a driver is written against: a queue of at most 64 received bytes and an
  interrupt mask. Its answers to a sequence of host bytes and register accesses are
  compared with those of the ring buffer implementation.
\<close>

datatype uart_op = HostRx u8 | GuestIo u64 bool u8 u64
datatype uart_answer = Accepted bool | Answer "(pl011_result, pl011_error) outcome"

definition uart_id :: "u64 \<Rightarrow> u64" where
  "uart_id off = (case map_of (zip [0xfe0, 0xfe4, 0xfe8, 0xfec, 0xff0, 0xff4, 0xff8, 0xffc]
      [0x11, 0x10, 0x04, 0x00, 0x0d, 0xf0, 0x05, 0xb1]) off of Some v \<Rightarrow> v | None \<Rightarrow> 0)"

fun uart_step :: "u8 list \<times> u32 \<Rightarrow> uart_op \<Rightarrow> uart_answer \<times> u8 list \<times> u32" where
  "uart_step (q, m) (HostRx b) = (if length q < 64 then (Accepted True, q @ [b], m) else (Accepted False, q, m))"
| "uart_step (q, m) (GuestIo off w width v) =
     (if width \<notin> {1, 2, 4} then (Answer (Err (UnsupportedWidth width)), q, m)
      else if w then (Answer (Ok (PlWrite (if off = 0 then Some (ucast v) else None))), q, if off = 0x38 then ucast v else m)
      else if off = 0 then (case q of [] \<Rightarrow> (Answer (Ok (PlRead 0)), [], m) | b # q' \<Rightarrow> (Answer (Ok (PlRead (ucast b))), q', m))
      else (Answer (Ok (PlRead
        (if off = 0x18 then (if q = [] then 0x90 else 0x80)
         else if off = 0x38 then ucast m
         else if off = 0x3c then (if q = [] then 0 else 0x10)
         else if off = 0x40 then (if q \<noteq> [] \<and> bit m 4 then 0x10 else 0)
         else uart_id off))), q, m))"

fun pl011_step :: "virtual_pl011 \<Rightarrow> uart_op \<Rightarrow> uart_answer \<times> virtual_pl011" where
  "pl011_step s (HostRx b) = (case enqueue_rx s b of (Ok ok, t) \<Rightarrow> (Accepted ok, t) | (Err (e :: pl011_error), t) \<Rightarrow> (Answer Panic, t)
      | (Panic, t) \<Rightarrow> (Answer Panic, t))"
| "pl011_step s (GuestIo off w width v) = apfst Answer (pl011_access s off w width v)"

primrec answers :: "('s \<Rightarrow> uart_op \<Rightarrow> uart_answer \<times> 's) \<Rightarrow> 's \<Rightarrow> uart_op list \<Rightarrow> uart_answer list" where
  "answers step s [] = []"
| "answers step s (x # xs) = fst (step s x) # answers step (snd (step s x)) xs"

definition uart_abs :: "virtual_pl011 \<Rightarrow> u8 list \<times> u32" where
  "uart_abs s = (rx_queue s, imsc s)"

lemma rx_len_0_iff: "rx_len s = 0 \<longleftrightarrow> rx_queue s = []"
  by (simp add: rx_queue_def)

lemma and_RXIM: "(m AND RXIM \<noteq> 0) = bit m 4"
  unfolding RXIM_def by (rule bit_iff_and_push_bit_not_eq_0 [symmetric])

lemma pl011_write_refines:
  "pl011_write s off v = (Ok (PlWrite (if off = 0 then Some (ucast v) else None)), s\<lparr>imsc := if off = 0x38 then ucast v else imsc s\<rparr>)"
  by (simp add: pl011_write_def PL011_DR_def PL011_IBRD_def PL011_FBRD_def PL011_LCR_H_def PL011_CR_def PL011_ICR_def PL011_IMSC_def)

lemma pl011_read_refines:
  assumes "off \<noteq> 0"
  shows "pl011_read s off = (Ok (PlRead
        (if off = 0x18 then (if rx_queue s = [] then 0x90 else 0x80)
         else if off = 0x38 then ucast (imsc s)
         else if off = 0x3c then (if rx_queue s = [] then 0 else 0x10)
         else if off = 0x40 then (if rx_queue s \<noteq> [] \<and> bit (imsc s) 4 then 0x10 else 0)
         else uart_id off)), s)"
  using assms
  by (simp add: pl011_read_def PL011_DR_def PL011_FR_def PL011_IMSC_def PL011_RIS_def PL011_MIS_def PL011_PID0_def PL011_PID1_def
      PL011_PID2_def PL011_PID3_def PL011_CID0_def PL011_CID1_def PL011_CID2_def PL011_CID3_def uart_id_def rx_len_0_iff
      rx_irq_pending_def FR_TX_READY_def FR_RXFE_def and_RXIM) (simp add: RXIM_def)

lemma pl011_step_refines:
  assumes "pl011_inv s"
  shows "pl011_inv (snd (pl011_step s x)) \<and> uart_step (uart_abs s) x = map_prod id uart_abs (pl011_step s x)"
proof (cases x)
  case (HostRx b)
  obtain t where "enqueue_rx s b = ((Ok (length (rx_queue s) < 64) :: (bool, pl011_error) outcome), t)" "pl011_inv t" "imsc t = imsc s"
     "rx_queue t = (if length (rx_queue s) < 64 then rx_queue s @ [b] else rx_queue s)"
    using enqueue_rx_spec [OF assms] by blast
  then show ?thesis using HostRx by (simp add: uart_abs_def)
next
  case (GuestIo off w width v)
  obtain t where t: "dequeue_rx s = ((Ok (if rx_queue s = [] then 0 else hd (rx_queue s)) :: (u8, pl011_error) outcome), t)"
      "pl011_inv t" "imsc t = imsc s" "rx_queue t = tl (rx_queue s)"
    using dequeue_rx_spec [OF assms] by blast
  show ?thesis
  proof (cases "w \<or> off \<noteq> 0 \<or> width \<notin> {1, 2, 4}")
    case True
    then show ?thesis
      using GuestIo assms
      by (auto simp: pl011_access_def pl011_write_refines pl011_read_refines uart_abs_def pl011_inv_def rx_queue_def)
  next
    case False
    then show ?thesis
      using GuestIo t by (auto simp: pl011_access_def pl011_read_def PL011_DR_def uart_abs_def split: list.splits)
  qed
qed

lemma answers_refine:
  "pl011_inv s \<Longrightarrow> answers pl011_step s ops = answers uart_step (uart_abs s) ops"
proof (induction ops arbitrary: s)
  case (Cons x ops)
  then show ?case using pl011_step_refines [of s x] by (cases "pl011_step s x") simp
qed simp

lemma pl011_inv_default: "pl011_inv pl011_default" and uart_abs_default: "uart_abs pl011_default = ([], 0)"
  by (simp_all add: pl011_inv_def pl011_default_def uart_abs_def rx_queue_def)

lemma window_offset_Some:
  "window_offset w ipa = Some off \<longleftrightarrow> ipa_start w \<le> ipa \<and> ipa - ipa_start w < ipa_size w \<and> off = ipa - ipa_start w"
  by (auto simp: window_offset_def checked_sub_def)

text \<open>What one emulated access may do, as one predicate over its result.\<close>

definition emulation_ok ::
  "mmio_dispatcher \<Rightarrow> mmio_access \<Rightarrow> u64 list \<Rightarrow>
   (u8 option, mmio_emulation_error) outcome \<times> mmio_dispatcher \<times> u64 list \<Rightarrow> bool" where
  "emulation_ok d a regs p =
     (case p of
        (Panic, _) \<Rightarrow> False
      | (Err e, d', regs') \<Rightarrow> d' = d \<and> regs' = regs
      | (Ok tx, d', regs') \<Rightarrow> dispatcher_inv d' \<and>
          (if acc_is_write a then regs' = regs else \<exists>v. regs' = regs_after_read a v regs))"

lemma emulate_gicd_ok:
  assumes "acc_register a < 32" and "length regs = 31" and "dispatcher_inv d"
  shows "emulation_ok d a regs (emulate_gicd d a regs off)"
proof -
  have "x AND 1 \<le> (1 :: u32)" for x
    using unat_and_mask_eq [of x 1] by (simp add: word_le_nat_alt del: and_one_eq)
  then show ?thesis
    using assms(3) unfolding emulate_gicd_eq [OF assms(1,2)] by (auto simp: emulation_ok_def dispatcher_inv_def)
qed

lemma emulate_pl011_ok:
  assumes "acc_register a < 32" and "length regs = 31" and "dispatcher_inv d"
  shows "emulation_ok d a regs (emulate_pl011 d a regs off)"
proof -
  have inv: "pl011_inv (md_pl011 d)" using assms(3) by (simp add: dispatcher_inv_def)
  consider "acc_is_write a" | "\<not> acc_is_write a" "acc_width a \<in> {1, 2, 4}" | "\<not> acc_is_write a" "acc_width a \<notin> {1, 2, 4}" by blast
  then show ?thesis
  proof cases
    case 1
    then show ?thesis
      using assms(3) unfolding emulate_pl011_write_eq [OF assms(1,2) 1]
      by (auto simp: emulation_ok_def dispatcher_inv_def pl011_inv_def)
  next
    case 2
    obtain v p where "emulate_pl011 d a regs off = (Ok None, d\<lparr>md_pl011 := p\<rparr>, regs_after_read a v regs)" "pl011_inv p"
      using emulate_pl011_read_eq [OF assms(1,2) 2(1) inv 2(2), of off] by blast
    then show ?thesis
      using assms(3) 2 by (auto simp: emulation_ok_def dispatcher_inv_def intro: exI [of _ v])
  next
    case 3
    then show ?thesis
      by (simp add: emulate_pl011_def operand_ok [OF assms(1,2)] pl011_access_def emulation_ok_def)
  qed
qed

lemma emulate_ok:
  assumes "acc_register a < 32" and "length regs = 31" and "dispatcher_inv d"
  shows "emulation_ok d a regs (emulate d a regs)"
  unfolding emulate_def
  by (auto simp: emulate_gicd_ok [OF assms] emulate_pl011_ok [OF assms] split: option.splits)
    (simp add: emulation_ok_def)

lemma emulate_error_iff:
  assumes "acc_register a < 32" and "length regs = 31" and "dispatcher_inv d"
  shows "is_ok (fst (emulate d a regs)) \<longleftrightarrow> acc_width a \<in> {1, 2, 4} \<and>
     (window_offset GUEST_GICD (acc_ipa a) \<noteq> None \<or> window_offset GUEST_PL011 (acc_ipa a) \<noteq> None)"
proof -
  have "is_ok (fst (emulate_pl011 d a regs off)) \<longleftrightarrow> acc_width a \<in> {1, 2, 4}" for off
  proof (cases "acc_is_write a \<or> acc_width a \<notin> {1, 2, 4}")
    case True
    then show ?thesis
      by (auto simp: emulate_pl011_write_eq [OF assms(1,2)] emulate_pl011_def operand_ok [OF assms(1,2)] pl011_access_def
          pl011_write_refines)
  next
    case False
    then show ?thesis using emulate_pl011_read_eq [OF assms(1,2), of d off] assms(3) by (auto simp: dispatcher_inv_def)
  qed
  then show ?thesis
    by (auto simp: emulate_def emulate_gicd_eq [OF assms(1,2)] split: option.splits)
qed

section \<open>Correctness\<close>

text \<open>
  C35: the virtual UART is the reference UART. For every sequence of bytes arriving from
  the host and guest register accesses, the ring-buffer device gives the same answers as a
  plain queue of at most 64 bytes with an interrupt mask: bytes come out in arrival order,
  none lost, duplicated or invented, and status and interrupt registers tell whether one
  is waiting.
\<close>

theorem virtual_pl011_refines_uart:
  "answers pl011_step pl011_default ops = answers uart_step ([], 0) ops"
  using answers_refine [OF pl011_inv_default] by (simp add: uart_abs_default)

text \<open>
  C36: one decoded guest access is emulated without a panic. It succeeds exactly when it
  is a 1, 2 or 4 byte access inside the distributor or UART window; a failed access changes
  neither the devices nor the registers; a successful store leaves all registers alone and a
  successful load changes the destination register only, zero-extended when it is a 32-bit
  register, and nothing when it is the zero register.
\<close>

theorem mmio_emulation_correct:
  assumes "decode_data_abort esr ipa = Ok a" and "length regs = 31" and "dispatcher_inv d"
  shows "case emulate d a regs of (r, d', regs') \<Rightarrow>
     r \<noteq> Panic \<and> dispatcher_inv d' \<and> length regs' = 31 \<and>
     (is_ok r \<longleftrightarrow> acc_width a \<noteq> 8 \<and> (window_offset GUEST_GICD ipa \<noteq> None \<or> window_offset GUEST_PL011 ipa \<noteq> None)) \<and>
     (\<not> is_ok r \<longrightarrow> d' = d \<and> regs' = regs) \<and> (acc_is_write a \<longrightarrow> regs' = regs) \<and>
     (\<forall>i < 31. i \<noteq> unat (acc_register a) \<longrightarrow> regs' ! i = regs ! i) \<and>
     (is_ok r \<and> \<not> acc_is_write a \<and> acc_register a \<noteq> 31 \<and> \<not> acc_register_is_64bit a \<longrightarrow>
        unat (regs' ! unat (acc_register a)) < 2 ^ 32)"
proof -
  note f = decode_fields [OF assms(1)]
  obtain r d' regs' where e: "emulate d a regs = (r, d', regs')" by (cases "emulate d a regs")
  have ok: "emulation_ok d a regs (r, d', regs')" using emulate_ok [OF f(2) assms(2,3)] e by simp
  have iff: "is_ok r \<longleftrightarrow> acc_width a \<noteq> 8 \<and> (window_offset GUEST_GICD ipa \<noteq> None \<or> window_offset GUEST_PL011 ipa \<noteq> None)"
    using emulate_error_iff [OF f(2) assms(2,3)] e f(1,3) by auto
  have u: "unat (ucast (ucast v :: u32) :: u64) < 2 ^ 32" for v :: u64
    using take_bit_nat_less_exp [of 32 "unat v"] by (simp add: unsigned_ucast_eq unsigned_take_bit_eq)
  have len: "unat (acc_register a) < 31" if "acc_register a \<noteq> 31" using register_cases [OF f(2)] that by blast
  show ?thesis
  proof (cases r)
    case (Ok tx)
    show ?thesis
    proof (cases "acc_is_write a")
      case False
      then obtain v where "regs' = regs_after_read a v regs" "dispatcher_inv d'" using ok Ok by (auto simp: emulation_ok_def)
      then show ?thesis
        using e Ok iff assms(2) u [of v] len False by (auto simp: regs_after_read_def)
    qed (use ok Ok e iff assms(2) in \<open>simp add: emulation_ok_def\<close>)
  qed (use ok e iff assms(2,3) in \<open>auto simp: emulation_ok_def\<close>)
qed

theorem mmio_emulation_correct_witness:
  "let d = dispatcher_default; regs = (replicate 31 0)[3 := 0x41] in
   case decode_data_abort 0x01830040 0x09000000 of
     Ok a \<Rightarrow> length regs = 31 \<and> dispatcher_inv d \<and> emulate d a regs = (Ok (Some 0x41), d, regs) \<and> is_ok (fst (emulate d a regs))
   | _ \<Rightarrow> False"
proof -
  let ?regs = "(replicate 31 0)[3 := 0x41] :: u64 list"
  let ?a = "\<lparr>acc_ipa = 0x09000000, acc_is_write = True, acc_width = 4, acc_register = 3, acc_register_is_64bit = False\<rparr>"
  have a: "decode_data_abort 0x01830040 0x09000000 = Ok ?a"
    by (simp add: decode_data_abort_def access_width_def esr_consts)
  have r: "length ?regs = 31" by simp
  have i: "dispatcher_inv dispatcher_default"
    using pl011_inv_default by (simp add: dispatcher_inv_def dispatcher_default_def gicd_default_def)
  have w: "window_offset GUEST_GICD 0x09000000 = None" "window_offset GUEST_PL011 0x09000000 = Some 0"
    by (simp_all add: window_offset_def checked_sub_def guest_layout)
  have e: "emulate dispatcher_default ?a ?regs = (Ok (Some 0x41), dispatcher_default, ?regs)"
    using w by (simp add: emulate_def emulate_pl011_write_eq)
  show ?thesis using mmio_emulation_correct [OF a r i] a r i e by (simp add: Let_def)
qed

text \<open>The syndrome the architecture reports for an access, with its exception class.\<close>

definition abort_syndrome :: "mmio_access \<Rightarrow> u64" where
  "abort_syndrome a =
     push_bit 26 0x24 OR push_bit 24 1 OR
     push_bit 22 (if acc_width a = 1 then 0 else if acc_width a = 2 then 1 else if acc_width a = 4 then 2 else 3) OR
     push_bit 16 (ucast (acc_register a)) OR (if acc_register_is_64bit a then push_bit 15 1 else 0) OR
     (if acc_is_write a then push_bit 6 1 else 0)"

lemma register_enum: "r < (32 :: u8) \<Longrightarrow> \<exists>n \<in> set [0..<32]. r = word_of_nat n"
  by (intro bexI [of _ "unat r"]) (simp_all add: word_less_nat_alt)

lemma roundtrip_each:
  "\<forall>n \<in> set [0..<32]. \<forall>w \<in> {1, 2, 4, 8}.
     let a = \<lparr>acc_ipa = ipa, acc_is_write = wr, acc_width = w, acc_register = word_of_nat n, acc_register_is_64bit = sf\<rparr>
     in decode_data_abort (abort_syndrome a) ipa = Ok a"
  by (cases wr; cases sf)
    (simp_all add: upt_rec decode_data_abort_def abort_syndrome_def access_width_def esr_consts)

text \<open>
  C37: decoding inverts the architectural encoding of a load or store: width, direction,
  register and register size come back as they were encoded, with the faulting address.
\<close>

theorem decode_abort_roundtrip:
  assumes "acc_width a \<in> {1, 2, 4, 8}" and "acc_register a < 32"
  shows "decode_data_abort (abort_syndrome a) (acc_ipa a) = Ok a"
proof -
  obtain n where n: "n \<in> set [0..<32]" "acc_register a = word_of_nat n" using register_enum [OF assms(2)] by blast
  show ?thesis
    using roundtrip_each [of "acc_ipa a" "acc_is_write a" "acc_register_is_64bit a", THEN bspec, OF n(1), THEN bspec, OF assms(1)] n(2)
    by (cases a) (simp add: Let_def)
qed

theorem decode_abort_roundtrip_witness:
  "let a = \<lparr>acc_ipa = 0x09000018, acc_is_write = False, acc_width = 4, acc_register = 5, acc_register_is_64bit = False\<rparr>
   in decode_data_abort (abort_syndrome a) 0x09000018 = Ok a"
  using decode_abort_roundtrip [of "\<lparr>acc_ipa = 0x09000018, acc_is_write = False, acc_width = 4, acc_register = 5,
    acc_register_is_64bit = False\<rparr>"]
  by simp

end
