(* ===== verification/Device_Io.thy ===== *)
theory Device_Io
  imports Tvisor_Prelude
begin

text \<open>
  Programs over memory-mapped device registers. The hardware behind the registers is not
  part of the source: a driver function is a value of type \<open>io\<close>, a tree whose nodes are its
  volatile accesses in program order and whose branches are the values the device may
  answer. \<open>io_run\<close> runs such a program against a device, given as a record of its reactions;
  \<open>io_all\<close> states a property of every access on every branch, for any device whatever.
\<close>

datatype 'a io =
    Done 'a
  | Read32 usize "u32 \<Rightarrow> 'a io"
  | Read8 usize "u8 \<Rightarrow> 'a io"
  | Write32 usize u32 "'a io"
  | Write8 usize u8 "'a io"
  | Barrier "'a io"

primrec io_bind :: "'a io \<Rightarrow> ('a \<Rightarrow> 'b io) \<Rightarrow> 'b io" where
  "io_bind (Done x) f = f x"
| "io_bind (Read32 a k) f = Read32 a (\<lambda>v. io_bind (k v) f)"
| "io_bind (Read8 a k) f = Read8 a (\<lambda>v. io_bind (k v) f)"
| "io_bind (Write32 a v p) f = Write32 a v (io_bind p f)"
| "io_bind (Write8 a v p) f = Write8 a v (io_bind p f)"
| "io_bind (Barrier p) f = Barrier (io_bind p f)"

definition read32 :: "usize \<Rightarrow> u32 io" where "read32 a = Read32 a Done"
definition read8 :: "usize \<Rightarrow> u8 io" where "read8 a = Read8 a Done"
definition write32 :: "usize \<Rightarrow> u32 \<Rightarrow> unit io" where "write32 a v = Write32 a v (Done ())"
definition write8 :: "usize \<Rightarrow> u8 \<Rightarrow> unit io" where "write8 a v = Write8 a v (Done ())"
definition complete_mmio :: "unit io" where "complete_mmio = Barrier (Done ())"

text \<open>Sequencing, and the \<open>?\<close> operator of a driver function that returns a \<open>Result\<close>.\<close>

definition io_seq :: "unit io \<Rightarrow> 'b io \<Rightarrow> 'b io" where
  "io_seq p q = io_bind p (\<lambda>_. q)"

definition io_try :: "('a, 'e) outcome io \<Rightarrow> ('a \<Rightarrow> ('b, 'e) outcome io) \<Rightarrow> ('b, 'e) outcome io" where
  "io_try p f = io_bind p (\<lambda>r. case r of Ok x \<Rightarrow> f x | Err e \<Rightarrow> Done (Err e) | Panic \<Rightarrow> Done Panic)"

section \<open>Running a program\<close>

record 's device =
  dev_read32 :: "usize \<Rightarrow> 's \<Rightarrow> u32 \<times> 's"
  dev_read8 :: "usize \<Rightarrow> 's \<Rightarrow> u8 \<times> 's"
  dev_write32 :: "usize \<Rightarrow> u32 \<Rightarrow> 's \<Rightarrow> 's"
  dev_write8 :: "usize \<Rightarrow> u8 \<Rightarrow> 's \<Rightarrow> 's"

primrec io_run :: "'s device \<Rightarrow> 'a io \<Rightarrow> 's \<Rightarrow> 'a \<times> 's" where
  "io_run dev (Done x) = (\<lambda>s. (x, s))"
| "io_run dev (Read32 a k) = (\<lambda>s. case dev_read32 dev a s of (v, s') \<Rightarrow> io_run dev (k v) s')"
| "io_run dev (Read8 a k) = (\<lambda>s. case dev_read8 dev a s of (v, s') \<Rightarrow> io_run dev (k v) s')"
| "io_run dev (Write32 a v p) = (\<lambda>s. io_run dev p (dev_write32 dev a v s))"
| "io_run dev (Write8 a v p) = (\<lambda>s. io_run dev p (dev_write8 dev a v s))"
| "io_run dev (Barrier p) = io_run dev p"

lemma io_run_bind [simp]: "io_run dev (io_bind p f) s = (case io_run dev p s of (x, s') \<Rightarrow> io_run dev (f x) s')"
  by (induction p arbitrary: s) (auto split: prod.splits)

lemma io_run_prims [simp]:
  "io_run dev (read32 a) s = dev_read32 dev a s"
  "io_run dev (read8 a) s = dev_read8 dev a s"
  "io_run dev (write32 a v) s = ((), dev_write32 dev a v s)"
  "io_run dev (write8 a b) s = ((), dev_write8 dev a b s)"
  "io_run dev complete_mmio s = ((), s)"
  by (simp_all add: read32_def read8_def write32_def write8_def complete_mmio_def split: prod.splits)

lemma io_run_seq [simp]: "io_run dev (io_seq p q) s = io_run dev q (snd (io_run dev p s))"
  by (simp add: io_seq_def split: prod.splits)

lemma io_run_try [simp]: "io_run dev (io_try p f) s = (case io_run dev p s of
     (Ok x, s') \<Rightarrow> io_run dev (f x) s' | (Err e, s') \<Rightarrow> (Err e, s') | (Panic, s') \<Rightarrow> (Panic, s'))"
  by (auto simp: io_try_def split: prod.splits outcome.splits)

section \<open>Properties of every access\<close>

text \<open>
  An access: its address, its width in bytes and, for a write, its value. \<open>io_all A Q p\<close>:
  every access the program can make satisfies \<open>A\<close> and every value it can return satisfies \<open>Q\<close>.
\<close>

datatype access = ReadAt usize nat | WriteAt usize nat u32

primrec io_all :: "(access \<Rightarrow> bool) \<Rightarrow> ('a \<Rightarrow> bool) \<Rightarrow> 'a io \<Rightarrow> bool" where
  "io_all A Q (Done x) = Q x"
| "io_all A Q (Read32 a k) = (A (ReadAt a 4) \<and> (\<forall>v. io_all A Q (k v)))"
| "io_all A Q (Read8 a k) = (A (ReadAt a 1) \<and> (\<forall>v. io_all A Q (k v)))"
| "io_all A Q (Write32 a v p) = (A (WriteAt a 4 v) \<and> io_all A Q p)"
| "io_all A Q (Write8 a v p) = (A (WriteAt a 1 (ucast v)) \<and> io_all A Q p)"
| "io_all A Q (Barrier p) = io_all A Q p"

lemma io_all_bind: "io_all A P p \<Longrightarrow> (\<And>x. P x \<Longrightarrow> io_all A Q (f x)) \<Longrightarrow> io_all A Q (io_bind p f)"
  by (induction p) auto

lemma io_all_weaken: "io_all A P p \<Longrightarrow> (\<And>x. P x \<Longrightarrow> Q x) \<Longrightarrow> io_all A Q p"
  by (induction p) auto

lemma io_all_seq: "io_all A (\<lambda>_. True) p \<Longrightarrow> io_all A Q q \<Longrightarrow> io_all A Q (io_seq p q)"
  unfolding io_seq_def by (erule io_all_bind) simp

lemma io_all_try:
  assumes "io_all A P p" and "\<And>x. P (Ok x) \<Longrightarrow> io_all A Q (f x)" and "\<And>e. P (Err e) \<Longrightarrow> Q (Err e)" and "P Panic \<Longrightarrow> Q Panic"
  shows "io_all A Q (io_try p f)"
  unfolding io_try_def by (rule io_all_bind [OF assms(1)]) (auto simp: assms split: outcome.splits)

lemma io_all_prims:
  "A (ReadAt a 4) \<Longrightarrow> (\<And>v. Q v) \<Longrightarrow> io_all A Q (read32 a)"
  "A (ReadAt a 1) \<Longrightarrow> (\<And>b. Q' b) \<Longrightarrow> io_all A Q' (read8 a)"
  "A (WriteAt a 4 v) \<Longrightarrow> P () \<Longrightarrow> io_all A P (write32 a v)"
  "A (WriteAt a 1 (ucast b)) \<Longrightarrow> P () \<Longrightarrow> io_all A P (write8 a b)"
  "P () \<Longrightarrow> io_all A P complete_mmio"
  by (simp_all add: read32_def read8_def write32_def write8_def complete_mmio_def)

lemma io_all_run: "io_all A Q p \<Longrightarrow> Q (fst (io_run dev p s))"
  by (induction p arbitrary: s) (auto split: prod.splits)

end
