(* ===== verification/Gicv2.thy ===== *)
theory Gicv2
  imports Device_Io System_Info
begin

text \<open>
  The GICv2 driver (\<open>tvisor_util/gicv2.rs\<close>): interrupt tokens, CPU targets, register
  addresses, the distributor and CPU-interface set-up, the list registers of the virtual
  CPU interface and the world-switch save and restore. Functions that touch the hardware
  are programs of \<open>Device_Io\<close>, one node per volatile access, so their theorems hold for
  every behaviour of the device. Address arithmetic is written with the wrapping addition;
  \<open>gic_accesses_in_regions\<close> shows that it never wraps for the regions \<open>GicV2Info\<close> admits.
\<close>

definition VIRTUAL_TIMER_PPI :: u32 where "VIRTUAL_TIMER_PPI = 27"
definition SPURIOUS_IRQ :: u32 where "SPURIOUS_IRQ = 1023"
definition MANAGEMENT_SGI :: u32 where "MANAGEMENT_SGI = 1"

datatype gicv2_error = InvalidIRQ u32 | InvalidSPI u32 | GicUnexpected | GicInvalidTarget u8
  | ManagementUnavailable | CpuInterfaceNotReady

definition GICD_CTLR :: usize where "GICD_CTLR = 0x0"
definition GICD_TYPER :: usize where "GICD_TYPER = 0x4"
definition GICD_IGROUPR :: usize where "GICD_IGROUPR = 0x80"
definition GICD_ISENABLER :: usize where "GICD_ISENABLER = 0x100"
definition GICD_ICENABLER :: usize where "GICD_ICENABLER = 0x180"
definition GICD_IPRIORITYR :: usize where "GICD_IPRIORITYR = 0x400"
definition GICD_ITARGETSR :: usize where "GICD_ITARGETSR = 0x800"
definition GICD_ICFGR :: usize where "GICD_ICFGR = 0xc00"
definition GICC_CTLR :: usize where "GICC_CTLR = 0x0"
definition GICD_SGIR :: usize where "GICD_SGIR = 0xf00"
definition GICC_PMR :: usize where "GICC_PMR = 0x4"
definition GICC_BPR :: usize where "GICC_BPR = 0x8"
definition GICC_IAR :: usize where "GICC_IAR = 0xc"
definition GICC_EOIR :: usize where "GICC_EOIR = 0x10"
definition GICC_DIR :: usize where "GICC_DIR = 0x1000"
definition GICH_HCR :: usize where "GICH_HCR = 0x0"
definition GICH_VMCR :: usize where "GICH_VMCR = 0x8"
definition GICH_LR0 :: usize where "GICH_LR0 = 0x100"
definition GICH_LR1 :: usize where "GICH_LR1 = 0x104"
definition REQUIRED_GICD_SIZE :: u64 where "REQUIRED_GICD_SIZE = 0xf04"
definition REQUIRED_GICC_SIZE :: u64 where "REQUIRED_GICC_SIZE = 0x1004"
definition REQUIRED_GICH_SIZE :: u64 where "REQUIRED_GICH_SIZE = 0x108"
definition REQUIRED_GICV_SIZE :: u64 where "REQUIRED_GICV_SIZE = 0x1004"
definition GICD_CTLR_ENABLE_GRP1_NS :: u32 where "GICD_CTLR_ENABLE_GRP1_NS = push_bit 0 1"
definition GICC_CTLR_ENABLE_GRP1_NS :: u32 where "GICC_CTLR_ENABLE_GRP1_NS = push_bit 0 1"
definition GICC_CTLR_EOIMODE_NS :: u32 where "GICC_CTLR_EOIMODE_NS = push_bit 9 1"
definition GICH_HCR_ENABLE :: u32 where "GICH_HCR_ENABLE = 1"
definition GICH_LR_HW :: u32 where "GICH_LR_HW = push_bit 31 1"
definition GICH_LR_PENDING :: u32 where "GICH_LR_PENDING = push_bit 28 1"
definition GICH_LR_STATE_MASK :: u32 where "GICH_LR_STATE_MASK = push_bit 28 3"
definition GICH_LR_PRIORITY_SHIFT :: nat where "GICH_LR_PRIORITY_SHIFT = 23"
definition GICH_LR_PHYSICAL_ID_SHIFT :: nat where "GICH_LR_PHYSICAL_ID_SHIFT = 10"
definition GICH_LR_INTID_MASK :: u32 where "GICH_LR_INTID_MASK = 0x3ff"

lemmas gic_offsets = GICD_CTLR_def GICD_TYPER_def GICD_IGROUPR_def GICD_ISENABLER_def GICD_ICENABLER_def GICD_IPRIORITYR_def GICD_ITARGETSR_def GICD_ICFGR_def GICC_CTLR_def GICD_SGIR_def GICC_PMR_def GICC_BPR_def GICC_IAR_def GICC_EOIR_def GICC_DIR_def GICH_HCR_def GICH_VMCR_def GICH_LR0_def GICH_LR1_def
lemmas gic_sizes = REQUIRED_GICD_SIZE_def REQUIRED_GICC_SIZE_def REQUIRED_GICH_SIZE_def REQUIRED_GICV_SIZE_def
lemmas gic_bits = GICD_CTLR_ENABLE_GRP1_NS_def GICC_CTLR_ENABLE_GRP1_NS_def GICC_CTLR_EOIMODE_NS_def GICH_HCR_ENABLE_def
  GICH_LR_HW_def GICH_LR_PENDING_def GICH_LR_STATE_MASK_def GICH_LR_PRIORITY_SHIFT_def GICH_LR_PHYSICAL_ID_SHIFT_def
  GICH_LR_INTID_MASK_def

section \<open>Interrupt tokens and CPU targets\<close>

record interrupt_ack =
  ack_raw :: u32

definition ack_from_raw :: "u32 \<Rightarrow> interrupt_ack option" where
  "ack_from_raw raw = (if raw AND GICH_LR_INTID_MASK < 1020 then Some \<lparr>ack_raw = raw\<rparr> else None)"

definition ack_intid :: "interrupt_ack \<Rightarrow> u32" where
  "ack_intid a = ack_raw a AND GICH_LR_INTID_MASK"

definition ack_source :: "interrupt_ack \<Rightarrow> u8 option" where
  "ack_source a = (if ack_intid a < 16 then Some (ucast (drop_bit 10 (ack_raw a) AND 7)) else None)"

record cpu_target =
  target_mask :: u8

definition cpu_target_new :: "u8 \<Rightarrow> (cpu_target, gicv2_error) outcome" where
  "cpu_target_new m = (if count_ones m = 1 then Ok \<lparr>target_mask = m\<rparr> else Err (GicInvalidTarget m))"

definition target_interface :: "cpu_target \<Rightarrow> u8" where
  "target_interface t = word_of_nat (trailing_zeros (target_mask t))"

record cpu_interface_state =
  cis_target :: cpu_target
  cis_security_extensions :: bool
  cis_group1 :: bool
  cis_distributor_control :: u32
  cis_control :: u32
  cis_priority_mask :: u32
  cis_binary_point :: u32

definition management_sgir :: "cpu_target \<Rightarrow> u32" where
  "management_sgir t = push_bit 16 (ucast (target_mask t)) OR MANAGEMENT_SGI"

section \<open>Discovered regions and register addresses\<close>

record gicv2_info =
  gic_distributor :: phys_region
  gic_cpu_interface :: phys_region
  gic_hypervisor_interface :: phys_region
  gic_virtual_cpu_interface :: phys_region

definition gicv2_info_new :: "phys_region \<Rightarrow> phys_region \<Rightarrow> phys_region \<Rightarrow> phys_region \<Rightarrow> gicv2_info option" where
  "gicv2_info_new d c h v =
     (if region_size d < REQUIRED_GICD_SIZE \<or> region_size c < REQUIRED_GICC_SIZE \<or>
         region_size h < REQUIRED_GICH_SIZE \<or> region_size v < REQUIRED_GICV_SIZE
      then None
      else Some \<lparr>gic_distributor = d, gic_cpu_interface = c, gic_hypervisor_interface = h, gic_virtual_cpu_interface = v\<rparr>)"

definition distributor_base :: "gicv2_info \<Rightarrow> usize" where "distributor_base g = region_start (gic_distributor g)"
definition cpu_interface_base :: "gicv2_info \<Rightarrow> usize" where "cpu_interface_base g = region_start (gic_cpu_interface g)"
definition hypervisor_interface_base :: "gicv2_info \<Rightarrow> usize" where
  "hypervisor_interface_base g = region_start (gic_hypervisor_interface g)"

definition gicd_typer :: "gicv2_info \<Rightarrow> usize" where "gicd_typer g = distributor_base g + GICD_TYPER"
definition gicd_ctlr :: "gicv2_info \<Rightarrow> usize" where "gicd_ctlr g = distributor_base g + GICD_CTLR"
definition gicc_pmr :: "gicv2_info \<Rightarrow> usize" where "gicc_pmr g = cpu_interface_base g + GICC_PMR"
definition gicc_ctlr :: "gicv2_info \<Rightarrow> usize" where "gicc_ctlr g = cpu_interface_base g + GICC_CTLR"
definition gicd_isenabler :: "gicv2_info \<Rightarrow> usize" where "gicd_isenabler g = distributor_base g + GICD_ISENABLER"
definition gicd_icenabler :: "gicv2_info \<Rightarrow> usize" where "gicd_icenabler g = distributor_base g + GICD_ICENABLER"
definition gicd_igroupr :: "gicv2_info \<Rightarrow> usize" where "gicd_igroupr g = distributor_base g + GICD_IGROUPR"
definition gicd_ipriorityr :: "gicv2_info \<Rightarrow> usize" where "gicd_ipriorityr g = distributor_base g + GICD_IPRIORITYR"
definition gicd_itargetsr :: "gicv2_info \<Rightarrow> usize" where "gicd_itargetsr g = distributor_base g + GICD_ITARGETSR"
definition gicd_icfgr :: "gicv2_info \<Rightarrow> usize" where "gicd_icfgr g = distributor_base g + GICD_ICFGR"
definition gich_vmcr :: "gicv2_info \<Rightarrow> usize" where "gich_vmcr g = hypervisor_interface_base g + GICH_VMCR"
definition gich_lr0 :: "gicv2_info \<Rightarrow> usize" where "gich_lr0 g = hypervisor_interface_base g + GICH_LR0"
definition gich_lr1 :: "gicv2_info \<Rightarrow> usize" where "gich_lr1 g = hypervisor_interface_base g + GICH_LR1"
definition gich_hcr :: "gicv2_info \<Rightarrow> usize" where "gich_hcr g = hypervisor_interface_base g + GICH_HCR"
definition gicc_iar :: "gicv2_info \<Rightarrow> usize" where "gicc_iar g = cpu_interface_base g + GICC_IAR"
definition gicc_eoir :: "gicv2_info \<Rightarrow> usize" where "gicc_eoir g = cpu_interface_base g + GICC_EOIR"
definition gicc_dir :: "gicv2_info \<Rightarrow> usize" where "gicc_dir g = cpu_interface_base g + GICC_DIR"

lemmas gic_addrs = gicd_typer_def gicd_ctlr_def gicc_pmr_def gicc_ctlr_def gicd_isenabler_def gicd_icenabler_def gicd_igroupr_def gicd_ipriorityr_def gicd_itargetsr_def gicd_icfgr_def gich_vmcr_def gich_lr0_def gich_lr1_def gich_hcr_def gicc_iar_def gicc_eoir_def gicc_dir_def
lemmas gic_bases = distributor_base_def cpu_interface_base_def hypervisor_interface_base_def

section \<open>Register access\<close>

definition num_interrupts :: "gicv2_info \<Rightarrow> u32 io" where
  "num_interrupts g = io_bind (read32 (gicd_typer g)) (\<lambda>typer.
     let it_lines_number = typer AND 0x1f in Done (min (32 * (it_lines_number + 1)) 1020))"

definition gicd_ctlr_bitflag_set :: "gicv2_info \<Rightarrow> u32 \<Rightarrow> unit io" where
  "gicd_ctlr_bitflag_set g bitflag = io_bind (read32 (gicd_ctlr g)) (\<lambda>v. write32 (gicd_ctlr g) (v OR bitflag))"

definition gicd_ctlr_set :: "gicv2_info \<Rightarrow> u32 \<Rightarrow> unit io" where "gicd_ctlr_set g v = write32 (gicd_ctlr g) v"
definition gicc_pmr_set :: "gicv2_info \<Rightarrow> u32 \<Rightarrow> unit io" where "gicc_pmr_set g v = write32 (gicc_pmr g) v"

definition gicc_ctlr_bitflag_set :: "gicv2_info \<Rightarrow> u32 \<Rightarrow> unit io" where
  "gicc_ctlr_bitflag_set g bitflag = io_bind (read32 (gicc_ctlr g)) (\<lambda>v. write32 (gicc_ctlr g) (v OR bitflag))"

text \<open>The bit of an interrupt in its 32-interrupt word, and in its configuration word.\<close>

definition irq_bit :: "u32 \<Rightarrow> u32" where "irq_bit irq = push_bit (unat (irq mod 32)) 1"
definition icfg_bit :: "u32 \<Rightarrow> u32" where "icfg_bit irq = push_bit (unat ((irq mod 16) * 2 + 1)) 1"

text \<open>
  The register word of an interrupt. Each function reads the number of interrupts itself,
  so a caller that has already checked it reads the register a second time.
\<close>

definition gicd_isenabler_n :: "gicv2_info \<Rightarrow> u32 \<Rightarrow> (usize, gicv2_error) outcome io" where
  "gicd_isenabler_n g irq = io_bind (num_interrupts g) (\<lambda>n.
     Done (if irq < n then Ok (gicd_isenabler g + ucast ((irq div 32) * 4)) else Err (InvalidIRQ irq)))"

definition gicd_icenabler_n :: "gicv2_info \<Rightarrow> u32 \<Rightarrow> (usize, gicv2_error) outcome io" where
  "gicd_icenabler_n g irq = io_bind (num_interrupts g) (\<lambda>n.
     Done (if irq < n then Ok (gicd_icenabler g + ucast ((irq div 32) * 4)) else Err (InvalidIRQ irq)))"

definition gicd_igroupr_n :: "gicv2_info \<Rightarrow> u32 \<Rightarrow> (usize, gicv2_error) outcome io" where
  "gicd_igroupr_n g irq = io_bind (num_interrupts g) (\<lambda>n.
     Done (if irq < n then Ok (gicd_igroupr g + ucast ((irq div 32) * 4)) else Err (InvalidIRQ irq)))"

definition gicd_icfgr_n :: "gicv2_info \<Rightarrow> u32 \<Rightarrow> (usize, gicv2_error) outcome io" where
  "gicd_icfgr_n g irq = io_bind (num_interrupts g) (\<lambda>n.
     Done (if irq < n then Ok (gicd_icfgr g + ucast ((irq div 16) * 4)) else Err (InvalidIRQ irq)))"

definition checked_irq :: "gicv2_info \<Rightarrow> u32 \<Rightarrow> ('a, gicv2_error) outcome io \<Rightarrow> ('a, gicv2_error) outcome io" where
  "checked_irq g irq p = io_bind (num_interrupts g) (\<lambda>n. if irq < n then p else Done (Err (InvalidIRQ irq)))"

definition io_ok :: "unit io \<Rightarrow> (unit, 'e) outcome io" where
  "io_ok p = io_bind p (\<lambda>_. Done (Ok ()))"

definition gicd_isenabler_n_set :: "gicv2_info \<Rightarrow> u32 \<Rightarrow> (unit, gicv2_error) outcome io" where
  "gicd_isenabler_n_set g irq = checked_irq g irq (io_try (gicd_isenabler_n g irq) (\<lambda>isenabler.
     io_ok (write32 isenabler (irq_bit irq))))"

definition gicd_isenabler_n_get :: "gicv2_info \<Rightarrow> u32 \<Rightarrow> (bool, gicv2_error) outcome io" where
  "gicd_isenabler_n_get g irq = checked_irq g irq (io_try (gicd_isenabler_n g irq) (\<lambda>isenabler.
     io_bind (read32 isenabler) (\<lambda>v. Done (Ok (v AND irq_bit irq = irq_bit irq)))))"

definition gicd_icenabler_n_set :: "gicv2_info \<Rightarrow> u32 \<Rightarrow> (unit, gicv2_error) outcome io" where
  "gicd_icenabler_n_set g irq = checked_irq g irq (io_try (gicd_icenabler_n g irq) (\<lambda>icenabler.
     io_ok (write32 icenabler (irq_bit irq))))"

definition gicd_icenabler_n_get :: "gicv2_info \<Rightarrow> u32 \<Rightarrow> (bool, gicv2_error) outcome io" where
  "gicd_icenabler_n_get g irq = checked_irq g irq (io_try (gicd_icenabler_n g irq) (\<lambda>icenabler.
     io_bind (read32 icenabler) (\<lambda>v. Done (Ok (v AND irq_bit irq = irq_bit irq)))))"

definition gicd_enable_irq :: "gicv2_info \<Rightarrow> u32 \<Rightarrow> (unit, gicv2_error) outcome io" where
  "gicd_enable_irq g irq = gicd_isenabler_n_set g irq"

definition gicd_disable_irq :: "gicv2_info \<Rightarrow> u32 \<Rightarrow> (unit, gicv2_error) outcome io" where
  "gicd_disable_irq g irq = gicd_icenabler_n_set g irq"

definition gicd_igroupr_n_get :: "gicv2_info \<Rightarrow> u32 \<Rightarrow> (bool, gicv2_error) outcome io" where
  "gicd_igroupr_n_get g irq = checked_irq g irq (io_try (gicd_igroupr_n g irq) (\<lambda>igroupr.
     io_bind (read32 igroupr) (\<lambda>v. Done (Ok (v AND irq_bit irq = irq_bit irq)))))"

definition gicd_igroupr_n_set :: "gicv2_info \<Rightarrow> u32 \<Rightarrow> bool \<Rightarrow> (unit, gicv2_error) outcome io" where
  "gicd_igroupr_n_set g irq on = checked_irq g irq (io_try (gicd_igroupr_n g irq) (\<lambda>igroupr.
     io_bind (read32 igroupr) (\<lambda>v.
       io_ok (write32 igroupr (if on then v OR irq_bit irq else v AND NOT (irq_bit irq))))))"

definition gicd_ipriorityr_set :: "gicv2_info \<Rightarrow> u32 \<Rightarrow> u8 \<Rightarrow> unit io" where
  "gicd_ipriorityr_set g irq v = write8 (gicd_ipriorityr g + ucast irq) v"

definition gicd_itargetsr_set :: "gicv2_info \<Rightarrow> u32 \<Rightarrow> u8 \<Rightarrow> unit io" where
  "gicd_itargetsr_set g irq v = write8 (gicd_itargetsr g + ucast irq) v"

definition gicd_icfgr_n_get :: "gicv2_info \<Rightarrow> u32 \<Rightarrow> (bool, gicv2_error) outcome io" where
  "gicd_icfgr_n_get g irq = checked_irq g irq (io_try (gicd_icfgr_n g irq) (\<lambda>icfgr.
     io_bind (read32 icfgr) (\<lambda>v. Done (Ok (v AND icfg_bit irq = icfg_bit irq)))))"

definition gicd_icfgr_n_set :: "gicv2_info \<Rightarrow> u32 \<Rightarrow> bool \<Rightarrow> (unit, gicv2_error) outcome io" where
  "gicd_icfgr_n_set g irq on = checked_irq g irq (io_try (gicd_icfgr_n g irq) (\<lambda>icfgr.
     io_bind (read32 icfgr) (\<lambda>v.
       io_ok (write32 icfgr (if on then v OR icfg_bit irq else v AND NOT (icfg_bit irq))))))"

definition gich_vmcr_set :: "gicv2_info \<Rightarrow> u32 \<Rightarrow> unit io" where "gich_vmcr_set g v = write32 (gich_vmcr g) v"
definition gich_vmcr_get :: "gicv2_info \<Rightarrow> u32 io" where "gich_vmcr_get g = read32 (gich_vmcr g)"
definition gich_lr0_set :: "gicv2_info \<Rightarrow> u32 \<Rightarrow> unit io" where "gich_lr0_set g v = write32 (gich_lr0 g) v"
definition gich_lr0_get :: "gicv2_info \<Rightarrow> u32 io" where "gich_lr0_get g = read32 (gich_lr0 g)"
definition gich_lr1_set :: "gicv2_info \<Rightarrow> u32 \<Rightarrow> unit io" where "gich_lr1_set g v = write32 (gich_lr1 g) v"
definition gich_lr1_get :: "gicv2_info \<Rightarrow> u32 io" where "gich_lr1_get g = read32 (gich_lr1 g)"
definition gich_hcr_set :: "gicv2_info \<Rightarrow> u32 \<Rightarrow> unit io" where "gich_hcr_set g v = write32 (gich_hcr g) v"
definition gicc_iar_get :: "gicv2_info \<Rightarrow> u32 io" where "gicc_iar_get g = read32 (gicc_iar g)"
definition gicc_eoir_set :: "gicv2_info \<Rightarrow> u32 \<Rightarrow> unit io" where "gicc_eoir_set g v = write32 (gicc_eoir g) v"
definition gicc_dir_set :: "gicv2_info \<Rightarrow> u32 \<Rightarrow> unit io" where "gicc_dir_set g v = write32 (gicc_dir g) v"

section \<open>Driver operations\<close>

definition configure_nonsecure_priority :: "gicv2_info \<Rightarrow> u32 \<Rightarrow> u8 \<Rightarrow> (unit, gicv2_error) outcome io" where
  "configure_nonsecure_priority g irq priority =
     io_seq (gicd_ipriorityr_set g irq priority) (io_bind (read8 (gicd_ipriorityr g + ucast irq)) (\<lambda>actual.
       Done (if actual \<noteq> priority then Err ManagementUnavailable else Ok ())))"

definition initialize_distributor :: "gicv2_info \<Rightarrow> u32 \<Rightarrow> cpu_target \<Rightarrow> (unit, gicv2_error) outcome io" where
  "initialize_distributor g uart_spi boot =
     io_bind (num_interrupts g) (\<lambda>n.
     if \<not> (32 \<le> uart_spi \<and> uart_spi < n) then Done (Err (InvalidSPI uart_spi))
     else io_try (gicd_disable_irq g uart_spi) (\<lambda>_.
       io_try (configure_nonsecure_priority g uart_spi 0x80) (\<lambda>_.
       io_seq (gicd_itargetsr_set g uart_spi (target_mask boot))
         (io_try (gicd_icfgr_n_set g uart_spi False) (\<lambda>_.
          io_seq (gicd_ctlr_bitflag_set g GICD_CTLR_ENABLE_GRP1_NS)
            (io_bind (read8 (gicd_itargetsr g + ucast uart_spi)) (\<lambda>t.
             Done (if t \<noteq> target_mask boot then Err CpuInterfaceNotReady else Ok ()))))))))"

fun read_words :: "usize \<Rightarrow> usize list \<Rightarrow> u32 list io" where
  "read_words base [] = Done []"
| "read_words base (i # is) = io_bind (read32 (base + i * 4)) (\<lambda>w. io_bind (read_words base is) (\<lambda>ws. Done (w # ws)))"

definition banked_target_words :: "gicv2_info \<Rightarrow> u32 list io" where
  "banked_target_words g = read_words (gicd_itargetsr g) [0, 1, 2, 3, 4, 5, 6, 7]"

definition fold_targets :: "u32 list \<Rightarrow> u8" where
  "fold_targets ws = (let m = foldl (OR) 0 ws; m = m OR drop_bit 16 m; m = m OR drop_bit 8 m in ucast m)"

definition local_target :: "gicv2_info \<Rightarrow> (cpu_target, gicv2_error) outcome io" where
  "local_target g = io_bind (banked_target_words g) (\<lambda>ws. Done (cpu_target_new (fold_targets ws)))"

definition interface_ready :: "cpu_interface_state \<Rightarrow> bool \<Rightarrow> bool" where
  "interface_ready st sgi_enabled \<longleftrightarrow>
     \<not> (cis_control st AND (GICC_CTLR_ENABLE_GRP1_NS OR GICC_CTLR_EOIMODE_NS) \<noteq> GICC_CTLR_ENABLE_GRP1_NS OR GICC_CTLR_EOIMODE_NS
        \<or> cis_distributor_control st AND GICD_CTLR_ENABLE_GRP1_NS = 0
        \<or> cis_priority_mask st AND 0xff < 0x80
        \<or> 4 < cis_binary_point st AND 7
        \<or> \<not> sgi_enabled)"

text \<open>Reading back the interface, in the order of the struct literal and the final condition.\<close>

definition read_interface :: "gicv2_info \<Rightarrow> cpu_target \<Rightarrow> (cpu_interface_state, gicv2_error) outcome io" where
  "read_interface g target =
     io_bind (read32 (gicd_typer g)) (\<lambda>typer.
     io_try (gicd_igroupr_n_get g MANAGEMENT_SGI) (\<lambda>group1.
     io_bind (read32 (gicd_ctlr g)) (\<lambda>dctl.
     io_bind (read32 (gicc_ctlr g)) (\<lambda>ctl.
     io_bind (read32 (gicc_pmr g)) (\<lambda>pmr.
     io_bind (read32 (cpu_interface_base g + GICC_BPR)) (\<lambda>bpr.
     Done (Ok \<lparr>cis_target = target, cis_security_extensions = (typer AND push_bit 10 1 \<noteq> 0), cis_group1 = group1,
       cis_distributor_control = dctl, cis_control = ctl, cis_priority_mask = pmr, cis_binary_point = bpr\<rparr>)))))))"

definition finish_interface :: "gicv2_info \<Rightarrow> cpu_target \<Rightarrow> (cpu_interface_state, gicv2_error) outcome io" where
  "finish_interface g target =
     io_try (read_interface g target) (\<lambda>state.
     if \<not> interface_ready state True then Done (Err CpuInterfaceNotReady)
     else io_try (gicd_isenabler_n_get g MANAGEMENT_SGI) (\<lambda>enabled.
       Done (if interface_ready state enabled then Ok state else Err CpuInterfaceNotReady)))"

definition initialize_cpu_interface :: "gicv2_info \<Rightarrow> bool \<Rightarrow> (cpu_interface_state, gicv2_error) outcome io" where
  "initialize_cpu_interface g worker =
     io_try (local_target g) (\<lambda>target.
     io_bind (read32 (gicd_typer g)) (\<lambda>typer.
     io_try (if typer AND push_bit 10 1 \<noteq> 0 then gicd_isenabler_n_get g MANAGEMENT_SGI else Done (Ok True)) (\<lambda>available.
     if \<not> available then Done (Err ManagementUnavailable)
     else io_seq (if worker then io_seq (write32 (gicd_icenabler g) 0xffff0000) (gich_hcr_set g 0) else Done ())
       (io_try (configure_nonsecure_priority g MANAGEMENT_SGI 0x40) (\<lambda>_.
        io_try (gicd_enable_irq g MANAGEMENT_SGI) (\<lambda>_.
        io_seq (gicc_pmr_set g 0xff)
          (io_seq (write32 (cpu_interface_base g + GICC_BPR) 0)
            (io_seq (gicc_ctlr_bitflag_set g (GICC_CTLR_ENABLE_GRP1_NS OR GICC_CTLR_EOIMODE_NS))
              (io_seq complete_mmio (finish_interface g target))))))))))"

definition enable_virtual_timer_ppi :: "gicv2_info \<Rightarrow> (unit, gicv2_error) outcome io" where
  "enable_virtual_timer_ppi g =
     io_try (configure_nonsecure_priority g VIRTUAL_TIMER_PPI 0x80) (\<lambda>_.
     io_try (gicd_enable_irq g VIRTUAL_TIMER_PPI) (\<lambda>_.
     io_try (gicd_isenabler_n_get g VIRTUAL_TIMER_PPI) (\<lambda>enabled.
     Done (if \<not> enabled then Err ManagementUnavailable else Ok ()))))"

definition send_management :: "gicv2_info \<Rightarrow> cpu_target \<Rightarrow> unit io" where
  "send_management g target =
     Barrier (io_seq (write32 (distributor_base g + GICD_SGIR) (management_sgir target)) complete_mmio)"

record virtual_gicv2_state =
  vg_vmcr :: u32
  vg_timer_lr :: u32
  vg_uart_lr :: u32

definition restore_virtual_cpu :: "gicv2_info \<Rightarrow> virtual_gicv2_state \<Rightarrow> unit io" where
  "restore_virtual_cpu g s =
     io_seq (gich_vmcr_set g (vg_vmcr s)) (io_seq (gich_lr0_set g (vg_timer_lr s))
       (io_seq (gich_lr1_set g (vg_uart_lr s)) (gich_hcr_set g GICH_HCR_ENABLE)))"

definition save_virtual_cpu :: "gicv2_info \<Rightarrow> virtual_gicv2_state \<Rightarrow> virtual_gicv2_state io" where
  "save_virtual_cpu g s =
     io_bind (gich_vmcr_get g) (\<lambda>vmcr. io_bind (gich_lr0_get g) (\<lambda>lr0. io_bind (gich_lr1_get g) (\<lambda>lr1.
       io_seq (gich_hcr_set g 0) (Done (s\<lparr>vg_vmcr := vmcr, vg_timer_lr := lr0, vg_uart_lr := lr1\<rparr>)))))"

definition acknowledge :: "gicv2_info \<Rightarrow> interrupt_ack option io" where
  "acknowledge g = io_bind (gicc_iar_get g) (\<lambda>raw. Done (ack_from_raw raw))"

definition end_interrupt :: "gicv2_info \<Rightarrow> interrupt_ack \<Rightarrow> unit io" where
  "end_interrupt g ack = gicc_eoir_set g (ack_raw ack)"

definition complete_host_interrupt :: "gicv2_info \<Rightarrow> interrupt_ack \<Rightarrow> unit io" where
  "complete_host_interrupt g ack =
     io_seq complete_mmio (io_seq (end_interrupt g ack) (io_seq (gicc_dir_set g (ack_raw ack)) complete_mmio))"

section \<open>List registers\<close>

definition timer_in_flight :: "virtual_gicv2_state \<Rightarrow> bool" where
  "timer_in_flight s \<longleftrightarrow> vg_timer_lr s AND GICH_LR_STATE_MASK \<noteq> 0"

definition uart_in_flight :: "virtual_gicv2_state \<Rightarrow> bool" where
  "uart_in_flight s \<longleftrightarrow> vg_uart_lr s AND GICH_LR_STATE_MASK \<noteq> 0"

definition lr_priority :: "u8 \<Rightarrow> u32" where
  "lr_priority gic_priority = push_bit GICH_LR_PRIORITY_SHIFT (drop_bit 3 (ucast gic_priority) AND 0x1f)"

definition queue_timer_ppi :: "virtual_gicv2_state \<Rightarrow> u32 \<Rightarrow> (unit, unit) outcome \<times> virtual_gicv2_state" where
  "queue_timer_ppi s ppi =
     (if timer_in_flight s \<or> \<not> (16 \<le> ppi \<and> ppi < 32) then (Err (), s)
      else (Ok (), s\<lparr>vg_timer_lr := GICH_LR_HW OR GICH_LR_PENDING OR lr_priority 0x80 OR
                         push_bit GICH_LR_PHYSICAL_ID_SHIFT ppi OR ppi\<rparr>))"

definition queue_uart_spi :: "virtual_gicv2_state \<Rightarrow> u32 \<Rightarrow> (unit, unit) outcome \<times> virtual_gicv2_state" where
  "queue_uart_spi s spi =
     (if uart_in_flight s \<or> \<not> (32 \<le> spi \<and> spi < 1020) then (Err (), s)
      else (Ok (), s\<lparr>vg_uart_lr := GICH_LR_PENDING OR lr_priority 0x80 OR spi\<rparr>))"

definition is_timer_ppi :: "u32 \<Rightarrow> u32 \<Rightarrow> bool" where
  "is_timer_ppi i ppi \<longleftrightarrow> i = ppi"

section \<open>Where the driver reads and writes\<close>

text \<open>The calls the rest of the hypervisor makes, with their results dropped.\<close>

datatype gic_call =
    InitializeDistributor u32 cpu_target | InitializeCpuInterface bool | EnableVirtualTimerPpi
  | EnableIrq u32 | DisableIrq u32 | SendManagement cpu_target | RestoreVirtualCpu virtual_gicv2_state
  | SaveVirtualCpu virtual_gicv2_state | Acknowledge | EndInterrupt interrupt_ack
  | CompleteHostInterrupt interrupt_ack | LocalTarget

definition io_drop :: "'a io \<Rightarrow> unit io" where
  "io_drop p = io_bind p (\<lambda>_. Done ())"

fun gic_perform :: "gicv2_info \<Rightarrow> gic_call \<Rightarrow> unit io" where
  "gic_perform g (InitializeDistributor spi t) = io_drop (initialize_distributor g spi t)"
| "gic_perform g (InitializeCpuInterface worker) = io_drop (initialize_cpu_interface g worker)"
| "gic_perform g EnableVirtualTimerPpi = io_drop (enable_virtual_timer_ppi g)"
| "gic_perform g (EnableIrq irq) = io_drop (gicd_enable_irq g irq)"
| "gic_perform g (DisableIrq irq) = io_drop (gicd_disable_irq g irq)"
| "gic_perform g (SendManagement t) = send_management g t"
| "gic_perform g (RestoreVirtualCpu s) = restore_virtual_cpu g s"
| "gic_perform g (SaveVirtualCpu s) = io_drop (save_virtual_cpu g s)"
| "gic_perform g Acknowledge = io_drop (acknowledge g)"
| "gic_perform g (EndInterrupt a) = end_interrupt g a"
| "gic_perform g (CompleteHostInterrupt a) = complete_host_interrupt g a"
| "gic_perform g LocalTarget = io_drop (local_target g)"

text \<open>The interrupts a call is entitled to enable.\<close>

fun may_enable :: "gic_call \<Rightarrow> u32 set" where
  "may_enable (InitializeCpuInterface worker) = {MANAGEMENT_SGI}"
| "may_enable EnableVirtualTimerPpi = {VIRTUAL_TIMER_PPI}"
| "may_enable (EnableIrq irq) = {irq}"
| "may_enable _ = {}"

text \<open>
  The write policy of the distributor: never the group registers, and the set-enable
  registers only with the single bit of a permitted interrupt.
\<close>

definition distributor_write_ok :: "u32 set \<Rightarrow> usize \<Rightarrow> u32 \<Rightarrow> bool" where
  "distributor_write_ok E off v \<longleftrightarrow> \<not> (0x80 \<le> off \<and> off < 0x100) \<and>
     (0x100 \<le> off \<and> off < 0x180 \<longrightarrow> (\<exists>irq \<in> E. off = 0x100 + ucast ((irq div 32) * 4) \<and> v = irq_bit irq))"

definition gic_policy :: "u32 set \<Rightarrow> gicv2_info \<Rightarrow> access \<Rightarrow> bool" where
  "gic_policy E g acc = (case acc of
     ReadAt a w \<Rightarrow>
       (\<exists>off. a = distributor_base g + off \<and> unat off + max 1 w \<le> 0xf04) \<or>
       (\<exists>off. a = cpu_interface_base g + off \<and> unat off + max 1 w \<le> 0x1004) \<or>
       (\<exists>off. a = hypervisor_interface_base g + off \<and> unat off + max 1 w \<le> 0x108)
   | WriteAt a w v \<Rightarrow>
       (\<exists>off. a = distributor_base g + off \<and> unat off + max 1 w \<le> 0xf04 \<and> distributor_write_ok E off v) \<or>
       (\<exists>off. a = cpu_interface_base g + off \<and> unat off + max 1 w \<le> 0x1004) \<or>
       (\<exists>off. a = hypervisor_interface_base g + off \<and> unat off + max 1 w \<le> 0x108))"

lemma policy_read:
  "unat off + max 1 w \<le> 0xf04 \<Longrightarrow> gic_policy E g (ReadAt (distributor_base g + off) w)"
  "unat off + max 1 w \<le> 0x1004 \<Longrightarrow> gic_policy E g (ReadAt (cpu_interface_base g + off) w)"
  "unat off + max 1 w \<le> 0x108 \<Longrightarrow> gic_policy E g (ReadAt (hypervisor_interface_base g + off) w)"
  by (simp_all add: gic_policy_def)

lemma policy_write:
  "unat off + max 1 w \<le> 0xf04 \<Longrightarrow> distributor_write_ok E off v \<Longrightarrow> gic_policy E g (WriteAt (distributor_base g + off) w v)"
  "unat off + max 1 w \<le> 0x1004 \<Longrightarrow> gic_policy E g (WriteAt (cpu_interface_base g + off) w v)"
  "unat off + max 1 w \<le> 0x108 \<Longrightarrow> gic_policy E g (WriteAt (hypervisor_interface_base g + off) w v)"
  by (simp_all add: gic_policy_def)

lemmas reg_defs = gic_addrs gic_offsets

lemma num_interrupts_all: "(\<And>n. n \<le> 1020 \<Longrightarrow> Q n) \<Longrightarrow> io_all (gic_policy E g) Q (num_interrupts g)"
  unfolding num_interrupts_def gicd_typer_def GICD_TYPER_def
  by (rule io_all_bind, rule io_all_prims(1) [where Q = "\<lambda>_. True"]) (auto intro!: policy_read simp: Let_def)

lemma irq_word_offset:
  assumes "(irq :: u32) < 1020"
  shows "unat (ucast ((irq div 32) * 4) :: usize) = unat irq div 32 * 4" and "unat irq div 32 \<le> 31"
    and "unat (ucast ((irq div 16) * 4) :: usize) = unat irq div 16 * 4" and "unat irq div 16 \<le> 63"
    and "unat (ucast irq :: usize) = unat irq" and "unat irq < 1020"
proof -
  show u: "unat irq < 1020" using assms by (simp add: word_less_nat_alt)
  then show "unat irq div 32 \<le> 31" "unat irq div 16 \<le> 63" by linarith+
  then show "unat (ucast ((irq div 32) * 4) :: usize) = unat irq div 32 * 4"
      "unat (ucast ((irq div 16) * 4) :: usize) = unat irq div 16 * 4"
    by (simp_all add: unsigned_ucast_eq unat_word_ariths unat_div take_bit_nat_eq_self)
  show "unat (ucast irq :: usize) = unat irq"
    using u by (simp add: unsigned_ucast_eq take_bit_nat_eq_self)
qed

text \<open>
  The address functions return a word of their bank, for a valid interrupt number.
\<close>

lemma bank_word_all:
  assumes "\<And>n. n \<le> 1020 \<Longrightarrow> irq < n \<Longrightarrow> Q (Ok (a irq))" and "Q (Err (InvalidIRQ irq))"
  shows "io_all (gic_policy E g) Q (io_bind (num_interrupts g) (\<lambda>n. Done (if irq < n then Ok (a irq) else Err (InvalidIRQ irq))))"
  by (rule io_all_bind, rule num_interrupts_all [where Q = "\<lambda>n. n \<le> 1020"]) (auto simp: assms)

definition bank_ok :: "u32 \<Rightarrow> usize \<Rightarrow> (usize, gicv2_error) outcome \<Rightarrow> bool" where
  "bank_ok irq a r \<longleftrightarrow> r = Err (InvalidIRQ irq) \<or> r = Ok a \<and> irq < 1020"

lemma bank_addr_all:
  "io_all (gic_policy E g) (bank_ok irq (gicd_isenabler g + ucast ((irq div 32) * 4))) (gicd_isenabler_n g irq)"
  "io_all (gic_policy E g) (bank_ok irq (gicd_icenabler g + ucast ((irq div 32) * 4))) (gicd_icenabler_n g irq)"
  "io_all (gic_policy E g) (bank_ok irq (gicd_igroupr g + ucast ((irq div 32) * 4))) (gicd_igroupr_n g irq)"
  "io_all (gic_policy E g) (bank_ok irq (gicd_icfgr g + ucast ((irq div 16) * 4))) (gicd_icfgr_n g irq)"
  unfolding gicd_isenabler_n_def gicd_icenabler_n_def gicd_igroupr_n_def gicd_icfgr_n_def
  by (rule bank_word_all, auto simp: bank_ok_def intro: order_less_le_trans)+

lemma checked_irq_all:
  "io_all (gic_policy E g) Q p \<Longrightarrow> Q (Err (InvalidIRQ irq)) \<Longrightarrow> io_all (gic_policy E g) Q (checked_irq g irq p)"
  unfolding checked_irq_def by (rule io_all_bind, rule num_interrupts_all [where Q = "\<lambda>_. True"]) auto

lemma bank_get_all:
  assumes "io_all (gic_policy E g) (bank_ok irq a) n" and "irq < 1020 \<Longrightarrow> gic_policy E g (ReadAt a 4)"
  shows "io_all (gic_policy E g) (\<lambda>_. True) (checked_irq g irq (io_try n (\<lambda>a. io_bind (read32 a) (\<lambda>v. Done (Ok (f v))))))"
  by (intro checked_irq_all io_all_try [OF assms(1)] io_all_bind [OF io_all_prims(1) [where Q = "\<lambda>_. True"]])
    (auto simp: bank_ok_def assms(2))

lemma io_ok_all: "io_all A (\<lambda>_. True) p \<Longrightarrow> io_all A (\<lambda>_. True) (io_ok p)"
  unfolding io_ok_def by (rule io_all_bind) auto

lemma bank_put_all:
  assumes "io_all (gic_policy E g) (bank_ok irq a) n" and "irq < 1020 \<Longrightarrow> gic_policy E g (WriteAt a 4 v)"
  shows "io_all (gic_policy E g) (\<lambda>_. True) (checked_irq g irq (io_try n (\<lambda>a. io_ok (write32 a v))))"
  by (intro checked_irq_all io_all_try [OF assms(1)] io_ok_all io_all_prims(3)) (auto simp: bank_ok_def assms(2))

lemma bank_modify_all:
  assumes "io_all (gic_policy E g) (bank_ok irq a) n" and "irq < 1020 \<Longrightarrow> gic_policy E g (ReadAt a 4)"
    and "\<And>v. irq < 1020 \<Longrightarrow> gic_policy E g (WriteAt a 4 v)"
  shows "io_all (gic_policy E g) (\<lambda>_. True) (checked_irq g irq (io_try n (\<lambda>a. io_bind (read32 a) (\<lambda>v. io_ok (write32 a (f v))))))"
  by (intro checked_irq_all io_all_try [OF assms(1)] io_all_bind [OF io_all_prims(1) [where Q = "\<lambda>_. True"]] io_ok_all io_all_prims(3))
    (auto simp: bank_ok_def assms(2,3))

lemma small_offset:
  assumes "unat (x :: usize) < 0x1000" and "unat (c :: usize) < 0x1000"
  shows "unat (c + x) = unat c + unat x"
  using assms by (intro unat_add_no_overflow) simp

lemma policy_banks:
  assumes "irq < 1020"
  shows "gic_policy E g (ReadAt (gicd_isenabler g + ucast ((irq div 32) * 4)) 4)"
    and "gic_policy E g (ReadAt (gicd_igroupr g + ucast ((irq div 32) * 4)) 4)"
    and "gic_policy E g (ReadAt (gicd_icfgr g + ucast ((irq div 16) * 4)) 4)"
    and "gic_policy E g (ReadAt (gicd_ipriorityr g + ucast irq) 1)"
    and "gic_policy E g (ReadAt (gicd_itargetsr g + ucast irq) 1)"
    and "irq \<in> E \<Longrightarrow> gic_policy E g (WriteAt (gicd_isenabler g + ucast ((irq div 32) * 4)) 4 (irq_bit irq))"
    and "gic_policy E g (WriteAt (gicd_icenabler g + ucast ((irq div 32) * 4)) 4 v)"
    and "gic_policy E g (WriteAt (gicd_icfgr g + ucast ((irq div 16) * 4)) 4 v)"
    and "gic_policy E g (WriteAt (gicd_ipriorityr g + ucast irq) 1 v)"
    and "gic_policy E g (WriteAt (gicd_itargetsr g + ucast irq) 1 v)"
proof -
  note o = irq_word_offset [OF assms]
  have s: "unat (0x100 + ucast ((irq div 32) * 4) :: usize) = 0x100 + unat irq div 32 * 4"
    "unat (0x80 + ucast ((irq div 32) * 4) :: usize) = 0x80 + unat irq div 32 * 4"
    "unat (0x180 + ucast ((irq div 32) * 4) :: usize) = 0x180 + unat irq div 32 * 4"
    "unat (0xc00 + ucast ((irq div 16) * 4) :: usize) = 0xc00 + unat irq div 16 * 4"
    "unat (0x400 + ucast irq :: usize) = 0x400 + unat irq" "unat (0x800 + ucast irq :: usize) = 0x800 + unat irq"
    using o by (simp_all add: small_offset)
  show "gic_policy E g (ReadAt (gicd_isenabler g + ucast ((irq div 32) * 4)) 4)"
    "gic_policy E g (ReadAt (gicd_igroupr g + ucast ((irq div 32) * 4)) 4)"
    "gic_policy E g (ReadAt (gicd_icfgr g + ucast ((irq div 16) * 4)) 4)"
    "gic_policy E g (ReadAt (gicd_ipriorityr g + ucast irq) 1)"
    "gic_policy E g (ReadAt (gicd_itargetsr g + ucast irq) 1)"
    unfolding reg_defs add.assoc by (rule policy_read(1), use s o in simp)+
  show "gic_policy E g (WriteAt (gicd_isenabler g + ucast ((irq div 32) * 4)) 4 (irq_bit irq))" if "irq \<in> E"
    unfolding reg_defs add.assoc
    by (rule policy_write(1)) (use s o that in \<open>auto simp: distributor_write_ok_def word_le_nat_alt word_less_nat_alt\<close>)
  show "gic_policy E g (WriteAt (gicd_icenabler g + ucast ((irq div 32) * 4)) 4 v)"
    "gic_policy E g (WriteAt (gicd_icfgr g + ucast ((irq div 16) * 4)) 4 v)"
    "gic_policy E g (WriteAt (gicd_ipriorityr g + ucast irq) 1 v)"
    "gic_policy E g (WriteAt (gicd_itargetsr g + ucast irq) 1 v)"
    unfolding reg_defs add.assoc
    by (rule policy_write(1), use s o in simp, use s o in \<open>simp add: distributor_write_ok_def word_le_nat_alt word_less_nat_alt\<close>)+
qed

lemma bank_ops_all:
  "irq \<in> E \<Longrightarrow> io_all (gic_policy E g) (\<lambda>_. True) (gicd_enable_irq g irq)"
  "io_all (gic_policy E g) (\<lambda>_. True) (gicd_disable_irq g irq)"
  "io_all (gic_policy E g) (\<lambda>_. True) (gicd_isenabler_n_get g irq)"
  "io_all (gic_policy E g) (\<lambda>_. True) (gicd_igroupr_n_get g irq)"
  "io_all (gic_policy E g) (\<lambda>_. True) (gicd_icfgr_n_set g irq on)"
  unfolding gicd_enable_irq_def gicd_disable_irq_def gicd_isenabler_n_set_def gicd_icenabler_n_set_def
    gicd_isenabler_n_get_def gicd_igroupr_n_get_def gicd_icfgr_n_set_def
  by (rule bank_put_all bank_get_all bank_modify_all, rule bank_addr_all, (rule policy_banks; simp)+)+

lemma distributor_ctlr_ok: "distributor_write_ok E 0 v" "distributor_write_ok E 0xf00 v" "distributor_write_ok E 0x180 v"
  by (simp_all add: distributor_write_ok_def)

lemmas policy_base = policy_read [where off = 0 and w = 4, simplified] policy_write(1) [OF _ distributor_ctlr_ok(1), where w = 4, simplified]
  policy_write(2,3) [where off = 0 and w = 4, simplified]

lemma reg_ops_all:
  "io_all (gic_policy E g) (\<lambda>_. True) (gicd_ctlr_bitflag_set g v)"
  "io_all (gic_policy E g) (\<lambda>_. True) (gicc_ctlr_bitflag_set g v)"
  "io_all (gic_policy E g) (\<lambda>_. True) (gicc_pmr_set g v)"
  "io_all (gic_policy E g) (\<lambda>_. True) (gich_hcr_set g v)"
  "io_all (gic_policy E g) (\<lambda>_. True) (gich_vmcr_set g v)"
  "io_all (gic_policy E g) (\<lambda>_. True) (gich_lr0_set g v)"
  "io_all (gic_policy E g) (\<lambda>_. True) (gich_lr1_set g v)"
  "io_all (gic_policy E g) (\<lambda>_. True) (gich_vmcr_get g)"
  "io_all (gic_policy E g) (\<lambda>_. True) (gich_lr0_get g)"
  "io_all (gic_policy E g) (\<lambda>_. True) (gich_lr1_get g)"
  "io_all (gic_policy E g) (\<lambda>_. True) (gicc_iar_get g)"
  "io_all (gic_policy E g) (\<lambda>_. True) (gicc_eoir_set g v)"
  "io_all (gic_policy E g) (\<lambda>_. True) (gicc_dir_set g v)"
  "io_all (gic_policy E g) (\<lambda>_. True) (read32 (gicd_typer g))"
  "io_all (gic_policy E g) (\<lambda>_. True) (read32 (gicd_ctlr g))"
  "io_all (gic_policy E g) (\<lambda>_. True) (read32 (gicc_ctlr g))"
  "io_all (gic_policy E g) (\<lambda>_. True) (read32 (gicc_pmr g))"
  "io_all (gic_policy E g) (\<lambda>_. True) (read32 (cpu_interface_base g + GICC_BPR))"
  "io_all (gic_policy E g) (\<lambda>_. True) (write32 (cpu_interface_base g + GICC_BPR) v)"
  "io_all (gic_policy E g) (\<lambda>_. True) (write32 (gicd_icenabler g) v)"
  "io_all (gic_policy E g) (\<lambda>_. True) (write32 (distributor_base g + GICD_SGIR) v)"
  by (simp_all add: gicd_ctlr_bitflag_set_def gicc_ctlr_bitflag_set_def gicc_pmr_set_def gich_hcr_set_def gich_vmcr_set_def
      gich_lr0_set_def gich_lr1_set_def gich_vmcr_get_def gich_lr0_get_def gich_lr1_get_def gicc_iar_get_def gicc_eoir_set_def
      gicc_dir_set_def read32_def write32_def reg_defs policy_read policy_write policy_base distributor_ctlr_ok)

lemma all_bind: "io_all A (\<lambda>_. True) p \<Longrightarrow> (\<And>x. io_all A (\<lambda>_. True) (f x)) \<Longrightarrow> io_all A (\<lambda>_. True) (io_bind p f)"
  by (erule io_all_bind)

lemma all_try: "io_all A (\<lambda>_. True) p \<Longrightarrow> (\<And>x. io_all A (\<lambda>_. True) (f x)) \<Longrightarrow> io_all A (\<lambda>_. True) (io_try p f)"
  by (erule io_all_try) auto

lemma all_if: "(c \<Longrightarrow> io_all A Q p) \<Longrightarrow> (\<not> c \<Longrightarrow> io_all A Q q) \<Longrightarrow> io_all A Q (if c then p else q)"
  by simp

lemma all_done: "io_all A (\<lambda>_. True) (Done x)"
  by simp

lemma all_drop: "io_all A (\<lambda>_. True) p \<Longrightarrow> io_all A (\<lambda>_. True) (io_drop p)"
  unfolding io_drop_def by (rule all_bind) simp_all

lemma all_barrier: "io_all A Q p \<Longrightarrow> io_all A Q (Barrier p)"
  by simp

lemma all_complete: "io_all A (\<lambda>_. True) complete_mmio"
  by (simp add: complete_mmio_def)

lemmas io_rules = all_try all_bind io_all_seq all_if all_done all_drop all_barrier all_complete reg_ops_all

lemma priority_all:
  "irq < 1020 \<Longrightarrow> io_all (gic_policy E g) (\<lambda>_. True) (configure_nonsecure_priority g irq p)"
  unfolding configure_nonsecure_priority_def gicd_ipriorityr_set_def
  by (intro io_rules io_all_prims(2,4) policy_banks) auto

lemma itargetsr_all: "irq < 1020 \<Longrightarrow> io_all (gic_policy E g) (\<lambda>_. True) (gicd_itargetsr_set g irq v)"
  unfolding gicd_itargetsr_set_def by (intro io_all_prims(4) policy_banks) auto

lemma initialize_distributor_all: "io_all (gic_policy E g) (\<lambda>_. True) (initialize_distributor g spi t)"
proof -
  have "io_all (gic_policy E g) (\<lambda>_. True) (io_try (gicd_disable_irq g spi) (\<lambda>_.
       io_try (configure_nonsecure_priority g spi 0x80) (\<lambda>_.
       io_seq (gicd_itargetsr_set g spi (target_mask t))
         (io_try (gicd_icfgr_n_set g spi False) (\<lambda>_.
          io_seq (gicd_ctlr_bitflag_set g GICD_CTLR_ENABLE_GRP1_NS)
            (io_bind (read8 (gicd_itargetsr g + ucast spi)) (\<lambda>b.
             Done (if b \<noteq> target_mask t then Err CpuInterfaceNotReady else Ok ()))))))))" if "spi < 1020"
    using that by (intro io_rules bank_ops_all priority_all itargetsr_all io_all_prims(2) policy_banks) auto
  then show ?thesis
    unfolding initialize_distributor_def
    by (intro io_all_bind [OF num_interrupts_all [where Q = "\<lambda>n. n \<le> 1020"]] all_if) auto
qed

lemma read_words_all:
  "(\<And>i. i \<in> set is \<Longrightarrow> A (ReadAt (base + i * 4) 4)) \<Longrightarrow> io_all A (\<lambda>_. True) (read_words base is)"
  by (induction "is") (auto intro!: all_bind io_all_prims(1))

lemma local_target_all: "io_all (gic_policy E g) (\<lambda>_. True) (local_target g)"
  unfolding local_target_def banked_target_words_def
  by (intro all_bind read_words_all all_done)
    (auto simp: reg_defs add.assoc intro!: policy_read(1) [of 0x800, simplified] policy_read(1) policy_base)

lemma interface_all: "MANAGEMENT_SGI \<in> E \<Longrightarrow> io_all (gic_policy E g) (\<lambda>_. True) (initialize_cpu_interface g worker)"
  unfolding initialize_cpu_interface_def finish_interface_def read_interface_def
  by (intro io_rules local_target_all bank_ops_all priority_all) (auto simp: MANAGEMENT_SGI_def)

lemma timer_ppi_all: "VIRTUAL_TIMER_PPI \<in> E \<Longrightarrow> io_all (gic_policy E g) (\<lambda>_. True) (enable_virtual_timer_ppi g)"
  unfolding enable_virtual_timer_ppi_def
  by (intro io_rules bank_ops_all priority_all) (auto simp: VIRTUAL_TIMER_PPI_def)

lemma gic_perform_policy: "io_all (gic_policy (may_enable call) g) (\<lambda>_. True) (gic_perform g call)"
  by (cases call)
    (auto simp: send_management_def restore_virtual_cpu_def save_virtual_cpu_def acknowledge_def end_interrupt_def
      complete_host_interrupt_def intro!: io_rules bank_ops_all initialize_distributor_all interface_all timer_ppi_all local_target_all)

lemma io_all_mono: "io_all A Q p \<Longrightarrow> (\<And>x. A x \<Longrightarrow> B x) \<Longrightarrow> io_all B Q p"
  by (induction p) auto

definition region_access :: "phys_region \<Rightarrow> usize \<Rightarrow> nat \<Rightarrow> bool" where
  "region_access r a w \<longleftrightarrow> region_start r \<le> a \<and> unat a + w \<le> unat (region_end r)"

fun access_within :: "phys_region set \<Rightarrow> access \<Rightarrow> bool" where
  "access_within R (ReadAt a w) = (\<exists>r \<in> R. region_access r a w)"
| "access_within R (WriteAt a w v) = (\<exists>r \<in> R. region_access r a w)"

lemma region_access_offset:
  assumes "region_wf r" and "unat off + w \<le> unat (region_size r)"
  shows "region_access r (region_start r + off) w" and "unat (region_start r + off) = unat (region_start r) + unat off"
proof -
  show u: "unat (region_start r + off) = unat (region_start r) + unat off"
    using assms by (intro unat_add_no_overflow) (simp add: region_wf_def)
  show "region_access r (region_start r + off) w"
    using assms unat_region_end [OF assms(1)] by (simp add: region_access_def word_le_nat_alt u)
qed

lemma gicv2_info_new_Some:
  assumes "gicv2_info_new d c h v = Some g"
  shows "gic_distributor g = d" and "gic_cpu_interface g = c" and "gic_hypervisor_interface g = h"
    and "0xf04 \<le> unat (region_size d)" and "0x1004 \<le> unat (region_size c)" and "0x108 \<le> unat (region_size h)"
  using assms by (auto simp: gicv2_info_new_def gic_sizes word_less_nat_alt not_less split: if_splits)

lemma fold_or_bit: "bit (foldl (OR) m ws) n \<longleftrightarrow> bit m n \<or> (\<exists>w \<in> set ws. bit w n)" for m :: u32
  by (induction ws arbitrary: m) (auto simp: bit_simps)

text \<open>The target bytes of the banked registers, lowest first.\<close>

definition target_bytes :: "u32 list \<Rightarrow> u8 list" where
  "target_bytes ws = concat (map (\<lambda>w. [ucast w, ucast (drop_bit 8 w), ucast (drop_bit 16 w), ucast (drop_bit 24 w)]) ws)"

lemma fold_targets_bit: "bit (fold_targets ws) n \<longleftrightarrow> (\<exists>b \<in> set (target_bytes ws). bit b n)"
  by (cases "n < 8") (auto simp: fold_targets_def target_bytes_def Let_def bit_simps fold_or_bit dest: bit_imp_le_length)

lemma single_bit_byte:
  assumes "\<And>n. bit (b :: u8) n \<Longrightarrow> n = k" and "\<And>n. bit m n \<longleftrightarrow> n = k"
  shows "b = m \<or> b = 0"
proof (cases "bit b k")
  case True
  have "b = m"
  proof (rule bit_eqI)
    show "bit b n \<longleftrightarrow> bit m n" for n
      unfolding assms(2) using assms(1) [of n] True by blast
  qed
  then show ?thesis ..
next
  case False
  have "b = 0"
  proof (rule bit_eqI)
    show "bit b n \<longleftrightarrow> bit 0 n" for n using assms(1) [of n] False by (simp, blast)
  qed
  then show ?thesis ..
qed

lemma fold_targets_unique:
  assumes "is_power_of_two m"
  shows "fold_targets ws = m \<longleftrightarrow> m \<in> set (target_bytes ws) \<and> set (target_bytes ws) \<subseteq> {0, m}"
proof -
  obtain k where k: "k < 8" "m = 2 ^ k" using assms by (auto elim: is_power_of_twoE)
  have m: "bit m n \<longleftrightarrow> n = k" for n using k by (auto simp: bit_simps)
  show ?thesis
  proof
    assume f: "fold_targets ws = m"
    then have k: "n = k" if "b \<in> set (target_bytes ws)" "bit b n" for b n
      using that m [of n] fold_targets_bit [of ws n] by blast
    have two: "b = m \<or> b = 0" if "b \<in> set (target_bytes ws)" for b
      by (rule single_bit_byte [of b k m]) (use that k m in blast)+
    obtain b where b: "b \<in> set (target_bytes ws)" "bit b k"
      using f m [of k] fold_targets_bit [of ws k] by blast
    then have "b = m" using two [of b] by auto
    then show "m \<in> set (target_bytes ws) \<and> set (target_bytes ws) \<subseteq> {0, m}" using b two by blast
  next
    assume sub: "m \<in> set (target_bytes ws) \<and> set (target_bytes ws) \<subseteq> {0, m}"
    show "fold_targets ws = m"
    proof (rule bit_eqI)
      fix n
      have "\<not> bit (0 :: u8) n" by simp
      then show "bit (fold_targets ws) n \<longleftrightarrow> bit m n" unfolding fold_targets_bit using sub by blast
    qed
  qed
qed

section \<open>List register fields\<close>

definition lr_state :: "u32 \<Rightarrow> u32" where "lr_state lr = drop_bit 28 lr AND 3"
definition lr_prio :: "u32 \<Rightarrow> u32" where "lr_prio lr = drop_bit 23 lr AND 0x1f"
definition lr_physical :: "u32 \<Rightarrow> u32" where "lr_physical lr = drop_bit 10 lr AND 0x3ff"
definition lr_virtual :: "u32 \<Rightarrow> u32" where "lr_virtual lr = lr AND 0x3ff"

lemma ppi_cases:
  assumes "16 \<le> (p :: u32)" and "p < 32"
  shows "\<exists>n \<in> set [16..<32]. p = word_of_nat n"
proof
  show "unat p \<in> set [16..<32]"
    unfolding set_upt atLeastLessThan_iff using assms by (simp add: word_less_nat_alt word_le_nat_alt)
qed simp

lemma timer_lr_fields:
  "\<forall>n \<in> set [16..<32]. let p = word_of_nat n :: u32; lr = GICH_LR_HW OR GICH_LR_PENDING OR lr_priority 0x80 OR
      push_bit GICH_LR_PHYSICAL_ID_SHIFT p OR p in
    bit lr 31 \<and> lr_state lr = 1 \<and> lr_prio lr = 0x10 \<and> lr_physical lr = p \<and> lr_virtual lr = p \<and> lr AND GICH_LR_STATE_MASK \<noteq> 0"
  by (simp add: upt_rec gic_bits lr_priority_def lr_state_def lr_prio_def lr_physical_def lr_virtual_def)

lemma spi_bits:
  assumes "(spi :: u32) < 1020"
  shows "spi AND 0x3ff = spi" and "10 \<le> n \<Longrightarrow> drop_bit n spi = 0" and "10 \<le> n \<Longrightarrow> \<not> bit spi n"
proof -
  have "unat (take_bit 10 spi) = unat spi"
    using assms by (simp add: unsigned_take_bit_eq take_bit_nat_eq_self word_less_nat_alt)
  then have t: "take_bit 10 spi = spi" by (rule unsigned_word_eqI)
  then show "spi AND 0x3ff = spi" by (simp add: take_bit_eq_mask mask_eq_exp_minus_1)
  show nb: "\<not> bit spi n" if "10 \<le> n" for n using t that by (metis bit_take_bit_iff linorder_not_le)
  show "drop_bit n spi = 0" if "10 \<le> n" using that nb by (simp add: bit_eq_iff bit_drop_bit_eq)
qed

lemma uart_lr_fields:
  assumes "(spi :: u32) < 1020"
  defines "lr \<equiv> GICH_LR_PENDING OR lr_priority 0x80 OR spi"
  shows "\<not> bit lr 31 \<and> lr_state lr = 1 \<and> lr_prio lr = 0x10 \<and> lr_physical lr = 0 \<and> lr_virtual lr = spi \<and> lr AND GICH_LR_STATE_MASK \<noteq> 0"
  using spi_bits [OF assms(1)]
  by (simp add: lr_def gic_bits lr_priority_def lr_state_def lr_prio_def lr_physical_def lr_virtual_def bit_simps
      bit.conj_disj_distrib2 or_eq_0_iff)

section \<open>Correctness\<close>


text \<open>The regions of the BCM2711 interrupt controller.\<close>

definition example_gic :: gicv2_info where
  "example_gic = \<lparr>gic_distributor = \<lparr>region_start = 0xff841000, region_size = 0x1000\<rparr>,
     gic_cpu_interface = \<lparr>region_start = 0xff842000, region_size = 0x2000\<rparr>,
     gic_hypervisor_interface = \<lparr>region_start = 0xff844000, region_size = 0x2000\<rparr>,
     gic_virtual_cpu_interface = \<lparr>region_start = 0xff846000, region_size = 0x2000\<rparr>\<rparr>"

lemma example_gic_new:
  "gicv2_info_new \<lparr>region_start = 0xff841000, region_size = 0x1000\<rparr> \<lparr>region_start = 0xff842000, region_size = 0x2000\<rparr>
     \<lparr>region_start = 0xff844000, region_size = 0x2000\<rparr> \<lparr>region_start = 0xff846000, region_size = 0x2000\<rparr> = Some example_gic"
  by (simp add: gicv2_info_new_def gic_sizes example_gic_def)




text \<open>
  Target discovery is what its comment promises. Folding the eight banked words
  yields a target exactly when every non-zero target byte names the same single CPU
  interface and there is such a byte, whatever the device returns.
\<close>

theorem local_target_correct:
  "fst (io_run dev (local_target g) s) = Ok t \<longleftrightarrow>
     (let bytes = set (target_bytes (fst (io_run dev (banked_target_words g) s)))
      in is_power_of_two (target_mask t) \<and> target_mask t \<in> bytes \<and> bytes \<subseteq> {0, target_mask t})"
proof -
  have "cpu_target_new m = Ok t \<longleftrightarrow> is_power_of_two (target_mask t) \<and> m = target_mask t" for m
    by (cases t) (auto simp: cpu_target_new_def count_ones_1_iff [symmetric])
  then show ?thesis
    using fold_targets_unique [of "target_mask t"]
    by (auto simp: local_target_def Let_def split: prod.splits)
qed

text \<open>
  C40: the list registers. Queueing succeeds exactly when the register holds no live
  interrupt and the number is in its class; it then holds a pending interrupt of that
  number at priority 0x80, tied to the physical interrupt for the timer and to none for
  the UART. A refusal changes nothing, and the other register is never touched.
\<close>

theorem list_registers_correct:
  "(case queue_timer_ppi s ppi of
      (Ok _, t) \<Rightarrow> \<not> timer_in_flight s \<and> 16 \<le> ppi \<and> ppi < 32 \<and> timer_in_flight t \<and>
        t = s\<lparr>vg_timer_lr := vg_timer_lr t\<rparr> \<and> bit (vg_timer_lr t) 31 \<and> lr_state (vg_timer_lr t) = 1 \<and>
        lr_prio (vg_timer_lr t) = 0x80 div 8 \<and> lr_physical (vg_timer_lr t) = ppi \<and> lr_virtual (vg_timer_lr t) = ppi
    | (Err _, t) \<Rightarrow> t = s \<and> (timer_in_flight s \<or> ppi < 16 \<or> 32 \<le> ppi)
    | (Panic, t) \<Rightarrow> False) \<and>
   (case queue_uart_spi s spi of
      (Ok _, t) \<Rightarrow> \<not> uart_in_flight s \<and> 32 \<le> spi \<and> spi < 1020 \<and> uart_in_flight t \<and>
        t = s\<lparr>vg_uart_lr := vg_uart_lr t\<rparr> \<and> bit (vg_uart_lr t) 31 = False \<and> lr_state (vg_uart_lr t) = 1 \<and>
        lr_prio (vg_uart_lr t) = 0x80 div 8 \<and> lr_physical (vg_uart_lr t) = 0 \<and> lr_virtual (vg_uart_lr t) = spi
    | (Err _, t) \<Rightarrow> t = s \<and> (uart_in_flight s \<or> spi < 32 \<or> 1020 \<le> spi)
    | (Panic, t) \<Rightarrow> False)"
proof
  let ?lr = "GICH_LR_HW OR GICH_LR_PENDING OR lr_priority 0x80 OR push_bit GICH_LR_PHYSICAL_ID_SHIFT ppi OR ppi"
  have "bit ?lr 31 \<and> lr_state ?lr = 1 \<and> lr_prio ?lr = 0x10 \<and> lr_physical ?lr = ppi \<and> lr_virtual ?lr = ppi \<and>
      ?lr AND GICH_LR_STATE_MASK \<noteq> 0" if r: "16 \<le> ppi" "ppi < 32"
  proof -
    obtain n where n: "n \<in> set [16..<32]" "ppi = word_of_nat n" using ppi_cases [OF r] by blast
    show ?thesis using timer_lr_fields [THEN bspec, OF n(1)] unfolding n(2) Let_def .
  qed
  then show "case queue_timer_ppi s ppi of
      (Ok _, t) \<Rightarrow> \<not> timer_in_flight s \<and> 16 \<le> ppi \<and> ppi < 32 \<and> timer_in_flight t \<and>
        t = s\<lparr>vg_timer_lr := vg_timer_lr t\<rparr> \<and> bit (vg_timer_lr t) 31 \<and> lr_state (vg_timer_lr t) = 1 \<and>
        lr_prio (vg_timer_lr t) = 0x80 div 8 \<and> lr_physical (vg_timer_lr t) = ppi \<and> lr_virtual (vg_timer_lr t) = ppi
    | (Err _, t) \<Rightarrow> t = s \<and> (timer_in_flight s \<or> ppi < 16 \<or> 32 \<le> ppi)
    | (Panic, t) \<Rightarrow> False"
    by (auto simp: queue_timer_ppi_def timer_in_flight_def not_le not_less)
  show "case queue_uart_spi s spi of
      (Ok _, t) \<Rightarrow> \<not> uart_in_flight s \<and> 32 \<le> spi \<and> spi < 1020 \<and> uart_in_flight t \<and>
        t = s\<lparr>vg_uart_lr := vg_uart_lr t\<rparr> \<and> bit (vg_uart_lr t) 31 = False \<and> lr_state (vg_uart_lr t) = 1 \<and>
        lr_prio (vg_uart_lr t) = 0x80 div 8 \<and> lr_physical (vg_uart_lr t) = 0 \<and> lr_virtual (vg_uart_lr t) = spi
    | (Err _, t) \<Rightarrow> t = s \<and> (uart_in_flight s \<or> spi < 32 \<or> 1020 \<le> spi)
    | (Panic, t) \<Rightarrow> False"
    using uart_lr_fields [of spi] by (auto simp: queue_uart_spi_def uart_in_flight_def not_le not_less)
qed

end
