(* ===== verification/Vcpu_Asm.thy ===== *)
theory Vcpu_Asm
  imports Tvisor_Prelude
begin

text \<open>
  The world switch (\<open>src/vcpu.rs\<close>, the \<open>global_asm!\<close> block): \<open>__vcpu_run\<close> saves the host
  context on the EL2 stack, loads a vCPU and returns to the guest; the two exit handlers
  save the guest into the vCPU and return to the caller of \<open>__vcpu_run\<close>.

  The assembly is kept instruction by instruction. The machine has the general, vector
  and system registers and the EL2 stack pointer; memory is a set of separate objects, as
  in the Rust memory model: the host stack, the \<open>Vcpu\<close> the caller owns and the per-CPU
  block that \<open>TPIDR_EL2\<close> points to. A register holds a 64-bit word or a pointer into an
  object, and an access through a word that is no pointer faults (\<open>None\<close>). Cells of 8 and
  16 bytes are kept apart: \<open>vcpu_layout_disjoint\<close> shows that the offsets used at the two
  widths do not overlap.
\<close>

datatype object = HostStack | VcpuObj | PcpuObj

datatype val = Word64 u64 | Ptr object int

datatype sysreg = SCTLR_EL1 | CPACR_EL1 | TTBR0_EL1 | TTBR1_EL1 | TCR_EL1 | MAIR_EL1 | VBAR_EL1 | CONTEXTIDR_EL1
  | TPIDR_EL1 | TPIDRRO_EL0 | FPCR | FPSR | CNTVOFF_EL2 | CNTV_CVAL_EL0 | CNTV_CTL_EL0 | SP_EL0 | SP_EL1 | ELR_EL2
  | SPSR_EL2 | TPIDR_EL2 | ESR_EL2 | FAR_EL2 | HPFAR_EL2

record machine =
  gpr :: "nat \<Rightarrow> val"
  vreg :: "nat \<Rightarrow> 128 word"
  sys :: "sysreg \<Rightarrow> val"
  stackp :: val
  cell :: "object \<Rightarrow> int \<Rightarrow> val"
  qcell :: "object \<Rightarrow> int \<Rightarrow> 128 word"

datatype base = BSp | BX nat

datatype instr =
    PushPair nat nat | PopPair nat nat | SubSp int | AddSp int
  | StpX nat nat base int | LdpX nat nat base int | StrX nat base int | StrZ base int | LdrX nat base int
  | StpQ nat nat base int | LdpQ nat nat base int
  | Mrs nat sysreg | Msr sysreg nat | MovFromSp nat | MovToSp nat | MovImm nat u64 | MovX nat nat | AddX nat nat int | Isb

fun ptr_add :: "val \<Rightarrow> int \<Rightarrow> val" where
  "ptr_add (Ptr ob k) n = Ptr ob (k + n)"
| "ptr_add (Word64 w) n = Word64 (w + word_of_int n)"

definition base_val :: "machine \<Rightarrow> base \<Rightarrow> val" where
  "base_val m b = (case b of BSp \<Rightarrow> stackp m | BX i \<Rightarrow> gpr m i)"

definition put_cell :: "object \<Rightarrow> int \<Rightarrow> val \<Rightarrow> machine \<Rightarrow> machine" where
  "put_cell ob k v m = m\<lparr>cell := (cell m)(ob := (cell m ob)(k := v))\<rparr>"

definition put_qcell :: "object \<Rightarrow> int \<Rightarrow> 128 word \<Rightarrow> machine \<Rightarrow> machine" where
  "put_qcell ob k v m = m\<lparr>qcell := (qcell m)(ob := (qcell m ob)(k := v))\<rparr>"

definition set_gpr :: "nat \<Rightarrow> val \<Rightarrow> machine \<Rightarrow> machine" where
  "set_gpr i v m = m\<lparr>gpr := (gpr m)(i := v)\<rparr>"

definition set_vreg :: "nat \<Rightarrow> 128 word \<Rightarrow> machine \<Rightarrow> machine" where
  "set_vreg i v m = m\<lparr>vreg := (vreg m)(i := v)\<rparr>"

text \<open>Run a memory access at a base plus an offset; \<open>None\<close> when the base is no pointer.\<close>

definition at_base :: "machine \<Rightarrow> val \<Rightarrow> int \<Rightarrow> (object \<Rightarrow> int \<Rightarrow> machine) \<Rightarrow> machine option" where
  "at_base m v off f = (case v of Ptr ob k \<Rightarrow> Some (f ob (k + off)) | Word64 _ \<Rightarrow> None)"

fun exec_instr :: "instr \<Rightarrow> machine \<Rightarrow> machine option" where
  "exec_instr (PushPair a b) m = at_base m (stackp m) (- 16) (\<lambda>ob k.
     put_cell ob (k + 8) (gpr m b) (put_cell ob k (gpr m a) (m\<lparr>stackp := Ptr ob k\<rparr>)))"
| "exec_instr (PopPair a b) m = at_base m (stackp m) 0 (\<lambda>ob k.
     set_gpr b (cell m ob (k + 8)) (set_gpr a (cell m ob k) (m\<lparr>stackp := Ptr ob (k + 16)\<rparr>)))"
| "exec_instr (SubSp n) m = Some (m\<lparr>stackp := ptr_add (stackp m) (- n)\<rparr>)"
| "exec_instr (AddSp n) m = Some (m\<lparr>stackp := ptr_add (stackp m) n\<rparr>)"
| "exec_instr (StpX a b r off) m = at_base m (base_val m r) off (\<lambda>ob k.
     put_cell ob (k + 8) (gpr m b) (put_cell ob k (gpr m a) m))"
| "exec_instr (LdpX a b r off) m = at_base m (base_val m r) off (\<lambda>ob k.
     set_gpr b (cell m ob (k + 8)) (set_gpr a (cell m ob k) m))"
| "exec_instr (StrX a r off) m = at_base m (base_val m r) off (\<lambda>ob k. put_cell ob k (gpr m a) m)"
| "exec_instr (StrZ r off) m = at_base m (base_val m r) off (\<lambda>ob k. put_cell ob k (Word64 0) m)"
| "exec_instr (LdrX a r off) m = at_base m (base_val m r) off (\<lambda>ob k. set_gpr a (cell m ob k) m)"
| "exec_instr (StpQ a b r off) m = at_base m (base_val m r) off (\<lambda>ob k.
     put_qcell ob (k + 16) (vreg m b) (put_qcell ob k (vreg m a) m))"
| "exec_instr (LdpQ a b r off) m = at_base m (base_val m r) off (\<lambda>ob k.
     set_vreg b (qcell m ob (k + 16)) (set_vreg a (qcell m ob k) m))"
| "exec_instr (Mrs a r) m = Some (set_gpr a (sys m r) m)"
| "exec_instr (Msr r a) m = Some (m\<lparr>sys := (sys m)(r := gpr m a)\<rparr>)"
| "exec_instr (MovFromSp a) m = Some (set_gpr a (stackp m) m)"
| "exec_instr (MovToSp a) m = Some (m\<lparr>stackp := gpr m a\<rparr>)"
| "exec_instr (MovImm a n) m = Some (set_gpr a (Word64 n) m)"
| "exec_instr (MovX a b) m = Some (set_gpr a (gpr m b) m)"
| "exec_instr (AddX a b n) m = Some (set_gpr a (ptr_add (gpr m b) n) m)"
| "exec_instr Isb m = Some m"

fun exec_code :: "instr list \<Rightarrow> machine \<Rightarrow> machine option" where
  "exec_code [] m = Some m"
| "exec_code (i # is) m = (case exec_instr i m of None \<Rightarrow> None | Some m' \<Rightarrow> exec_code is m')"

section \<open>The code\<close>

definition vcpu_run_save :: "instr list" where
  "vcpu_run_save = [
     PushPair 19 20, PushPair 21 22, PushPair 23 24, PushPair 25 26, PushPair 27 28, PushPair 29 30, SubSp 528,
     StpQ 0 1 BSp 0, StpQ 2 3 BSp 32, StpQ 4 5 BSp 64, StpQ 6 7 BSp 96, StpQ 8 9 BSp 128, StpQ 10 11 BSp 160,
     StpQ 12 13 BSp 192, StpQ 14 15 BSp 224, StpQ 16 17 BSp 256, StpQ 18 19 BSp 288, StpQ 20 21 BSp 320,
     StpQ 22 23 BSp 352, StpQ 24 25 BSp 384, StpQ 26 27 BSp 416, StpQ 28 29 BSp 448, StpQ 30 31 BSp 480, Mrs 9 FPCR,
     StrX 9 BSp 512, Mrs 9 FPSR, StrX 9 BSp 520, Mrs 9 TPIDR_EL2, MovFromSp 10, StrX 10 (BX 9) 0]"

definition vcpu_run_enter :: "instr list" where
  "vcpu_run_enter = [
     Mrs 9 TPIDR_EL2, StrX 0 (BX 9) 8, LdrX 9 (BX 0) 280, Msr SCTLR_EL1 9, LdrX 9 (BX 0) 288, Msr CPACR_EL1 9,
     LdrX 9 (BX 0) 296, Msr TTBR0_EL1 9, LdrX 9 (BX 0) 304, Msr TTBR1_EL1 9, LdrX 9 (BX 0) 312, Msr TCR_EL1 9,
     LdrX 9 (BX 0) 320, Msr MAIR_EL1 9, LdrX 9 (BX 0) 328, Msr VBAR_EL1 9, LdrX 9 (BX 0) 336, Msr CONTEXTIDR_EL1 9,
     LdrX 9 (BX 0) 344, Msr TPIDR_EL1 9, LdrX 9 (BX 0) 352, Msr TPIDRRO_EL0 9, LdpQ 0 1 (BX 0) 368,
     LdpQ 2 3 (BX 0) 400, LdpQ 4 5 (BX 0) 432, LdpQ 6 7 (BX 0) 464, LdpQ 8 9 (BX 0) 496, LdpQ 10 11 (BX 0) 528,
     LdpQ 12 13 (BX 0) 560, LdpQ 14 15 (BX 0) 592, LdpQ 16 17 (BX 0) 624, LdpQ 18 19 (BX 0) 656,
     LdpQ 20 21 (BX 0) 688, LdpQ 22 23 (BX 0) 720, LdpQ 24 25 (BX 0) 752, LdpQ 26 27 (BX 0) 784,
     LdpQ 28 29 (BX 0) 816, LdpQ 30 31 (BX 0) 848, LdrX 9 (BX 0) 880, Msr FPCR 9, LdrX 9 (BX 0) 888, Msr FPSR 9,
     LdrX 9 (BX 0) 928, Msr CNTVOFF_EL2 9, LdrX 9 (BX 0) 936, Msr CNTV_CVAL_EL0 9, LdrX 9 (BX 0) 944,
     Msr CNTV_CTL_EL0 9, LdrX 9 (BX 0) 248, Msr SP_EL0 9, LdrX 9 (BX 0) 256, Msr SP_EL1 9, LdrX 9 (BX 0) 264,
     Msr ELR_EL2 9, LdrX 9 (BX 0) 272, Msr SPSR_EL2 9, LdpX 2 3 (BX 0) 16, LdpX 4 5 (BX 0) 32, LdpX 6 7 (BX 0) 48,
     LdpX 8 9 (BX 0) 64, LdpX 10 11 (BX 0) 80, LdpX 12 13 (BX 0) 96, LdpX 14 15 (BX 0) 112, LdpX 16 17 (BX 0) 128,
     LdpX 18 19 (BX 0) 144, LdpX 20 21 (BX 0) 160, LdpX 22 23 (BX 0) 176, LdpX 24 25 (BX 0) 192,
     LdpX 26 27 (BX 0) 208, LdpX 28 29 (BX 0) 224, LdrX 30 (BX 0) 240, LdpX 0 1 (BX 0) 0, Isb]"

definition exit_prologue_sync :: "instr list" where
  "exit_prologue_sync = [
     SubSp 32, StpX 0 1 BSp 0, MovImm 0 8, StrX 0 BSp 16]"

definition exit_prologue_irq :: "instr list" where
  "exit_prologue_irq = [
     SubSp 32, StpX 0 1 BSp 0, MovImm 0 9, StrX 0 BSp 16]"

definition exit_find_vcpu :: "instr list" where
  "exit_find_vcpu = [
     Mrs 0 TPIDR_EL2, LdrX 0 (BX 0) 8]"

definition exit_save_vector :: "instr list" where
  "exit_save_vector = [
     StpQ 0 1 (BX 0) 368, StpQ 2 3 (BX 0) 400, StpQ 4 5 (BX 0) 432, StpQ 6 7 (BX 0) 464, StpQ 8 9 (BX 0) 496,
     StpQ 10 11 (BX 0) 528, StpQ 12 13 (BX 0) 560, StpQ 14 15 (BX 0) 592, StpQ 16 17 (BX 0) 624,
     StpQ 18 19 (BX 0) 656, StpQ 20 21 (BX 0) 688, StpQ 22 23 (BX 0) 720, StpQ 24 25 (BX 0) 752,
     StpQ 26 27 (BX 0) 784, StpQ 28 29 (BX 0) 816, StpQ 30 31 (BX 0) 848, Mrs 1 FPCR, StrX 1 (BX 0) 880, Mrs 1 FPSR,
     StrX 1 (BX 0) 888]"

definition exit_save_general :: "instr list" where
  "exit_save_general = [
     StpX 2 3 (BX 0) 16, StpX 4 5 (BX 0) 32, StpX 6 7 (BX 0) 48, StpX 8 9 (BX 0) 64, LdpX 1 2 BSp 0,
     StpX 1 2 (BX 0) 0, LdrX 3 BSp 16, AddSp 32, StpX 10 11 (BX 0) 80, StpX 12 13 (BX 0) 96, StpX 14 15 (BX 0) 112,
     StpX 16 17 (BX 0) 128, StpX 18 19 (BX 0) 144, StpX 20 21 (BX 0) 160, StpX 22 23 (BX 0) 176,
     StpX 24 25 (BX 0) 192, StpX 26 27 (BX 0) 208, StpX 28 29 (BX 0) 224, StrX 30 (BX 0) 240]"

definition exit_save_system :: "instr list" where
  "exit_save_system = [
     Mrs 1 SP_EL0, StrX 1 (BX 0) 248, Mrs 1 SP_EL1, StrX 1 (BX 0) 256, Mrs 1 ELR_EL2, StrX 1 (BX 0) 264,
     Mrs 1 SPSR_EL2, StrX 1 (BX 0) 272, Mrs 1 SCTLR_EL1, StrX 1 (BX 0) 280, Mrs 1 CPACR_EL1, StrX 1 (BX 0) 288,
     Mrs 1 TTBR0_EL1, StrX 1 (BX 0) 296, Mrs 1 TTBR1_EL1, StrX 1 (BX 0) 304, Mrs 1 TCR_EL1, StrX 1 (BX 0) 312,
     Mrs 1 MAIR_EL1, StrX 1 (BX 0) 320, Mrs 1 VBAR_EL1, StrX 1 (BX 0) 328, Mrs 1 CONTEXTIDR_EL1, StrX 1 (BX 0) 336,
     Mrs 1 TPIDR_EL1, StrX 1 (BX 0) 344, Mrs 1 TPIDRRO_EL0, StrX 1 (BX 0) 352, Mrs 1 CNTVOFF_EL2, StrX 1 (BX 0) 928,
     Mrs 1 CNTV_CVAL_EL0, StrX 1 (BX 0) 936, Mrs 1 CNTV_CTL_EL0, StrX 1 (BX 0) 944, AddX 1 0 896, StrX 3 (BX 1) 0,
     Mrs 2 ESR_EL2, StrX 2 (BX 1) 8, Mrs 2 FAR_EL2, StrX 2 (BX 1) 16, Mrs 2 HPFAR_EL2, StrX 2 (BX 1) 24]"

definition exit_save_vcpu :: "instr list" where
  "exit_save_vcpu = exit_save_vector @ exit_save_general @ exit_save_system"

definition exit_restore_host :: "instr list" where
  "exit_restore_host = [
     Mrs 9 TPIDR_EL2, LdrX 10 (BX 9) 0, StrZ (BX 9) 8, MovToSp 10, LdpQ 0 1 BSp 0, LdpQ 2 3 BSp 32, LdpQ 4 5 BSp 64,
     LdpQ 6 7 BSp 96, LdpQ 8 9 BSp 128, LdpQ 10 11 BSp 160, LdpQ 12 13 BSp 192, LdpQ 14 15 BSp 224,
     LdpQ 16 17 BSp 256, LdpQ 18 19 BSp 288, LdpQ 20 21 BSp 320, LdpQ 22 23 BSp 352, LdpQ 24 25 BSp 384,
     LdpQ 26 27 BSp 416, LdpQ 28 29 BSp 448, LdpQ 30 31 BSp 480, LdrX 9 BSp 512, Msr FPCR 9, LdrX 9 BSp 520,
     Msr FPSR 9, AddSp 528, PopPair 29 30, PopPair 27 28, PopPair 25 26, PopPair 23 24, PopPair 21 22, PopPair 19 20,
     MovX 0 3]"

definition vcpu_run_code :: "instr list" where
  "vcpu_run_code = vcpu_run_save @ vcpu_run_enter"

text \<open>
  The common exit path: with no active vCPU the CPU parks in a \<open>wfe\<close> loop and never
  returns (\<open>None\<close>).
\<close>

definition vcpu_exit :: "instr list \<Rightarrow> machine \<Rightarrow> machine option" where
  "vcpu_exit prologue m = (case exec_code (prologue @ exit_find_vcpu) m of
     None \<Rightarrow> None
   | Some m' \<Rightarrow> if gpr m' 0 = Word64 0 then None else exec_code (exit_save_vcpu @ exit_restore_host) m')"

section \<open>The host frame\<close>

lemma exec_code_append: "exec_code (xs @ ys) m = (case exec_code xs m of None \<Rightarrow> None | Some m' \<Rightarrow> exec_code ys m')"
  by (induction xs arbitrary: m) (auto split: option.splits)

lemmas step_defs = at_base_def base_val_def put_cell_def put_qcell_def set_gpr_def set_vreg_def

text \<open>The callee-saved registers and the offset of each below the stack pointer at the call.\<close>

definition callee_saved :: "(nat \<times> int) list" where
  "callee_saved = [(19, -16), (20, -8), (21, -32), (22, -24), (23, -48), (24, -40), (25, -64), (26, -56),
     (27, -80), (28, -72), (29, -96), (30, -88)]"

text \<open>\<open>host_frame s t m M\<close>: memory of \<open>M\<close> holds the host context of \<open>m\<close>, called with stack pointer \<open>s\<close>.\<close>

definition host_frame :: "int \<Rightarrow> int \<Rightarrow> machine \<Rightarrow> machine \<Rightarrow> bool" where
  "host_frame s t m M \<longleftrightarrow>
     (\<forall>(i, off) \<in> set callee_saved. cell M HostStack (s + off) = gpr m i) \<and>
     (\<forall>i \<in> set [0..<32]. qcell M HostStack (s - 624 + 16 * int i) = vreg m i) \<and>
     cell M HostStack (s - 112) = sys m FPCR \<and> cell M HostStack (s - 104) = sys m FPSR \<and>
     cell M PcpuObj t = Ptr HostStack (s - 624)"

lemma regs_31: "[0..<31] = [0, 1, 2, 3, 4, 5, 6, 7, 8, 9, 10, 11, 12, 13, 14, 15, 16, 17, 18, 19, 20, 21, 22, 23, 24, 25, 26, 27, 28, 29, 30]"
  by code_simp

lemma regs_32: "[0..<32] = [0, 1, 2, 3, 4, 5, 6, 7, 8, 9, 10, 11, 12, 13, 14, 15, 16, 17, 18, 19, 20, 21, 22, 23, 24, 25, 26, 27, 28, 29, 30, 31]"
  by code_simp

lemmas run_defs = step_defs callee_saved_def regs_31 regs_32

lemma run_save:
  assumes "stackp m = Ptr HostStack s" and "sys m TPIDR_EL2 = Ptr PcpuObj t"
  shows "\<exists>M. exec_code vcpu_run_save m = Some M \<and> host_frame s t m M \<and> stackp M = Ptr HostStack (s - 624) \<and>
    sys M = sys m \<and> gpr M 0 = gpr m 0 \<and> cell M VcpuObj = cell m VcpuObj \<and> qcell M VcpuObj = qcell m VcpuObj"
  using assms by (simp add: vcpu_run_save_def host_frame_def run_defs)

section \<open>The guest context\<close>

text \<open>The system registers of a vCPU and their offsets in \<open>VcpuContext\<close> and the timer that follows the exit record.\<close>

definition vcpu_sysregs :: "(sysreg \<times> int) list" where
  "vcpu_sysregs = [(SP_EL0, 248), (SP_EL1, 256), (ELR_EL2, 264), (SPSR_EL2, 272), (SCTLR_EL1, 280), (CPACR_EL1, 288),
     (TTBR0_EL1, 296), (TTBR1_EL1, 304), (TCR_EL1, 312), (MAIR_EL1, 320), (VBAR_EL1, 328), (CONTEXTIDR_EL1, 336),
     (TPIDR_EL1, 344), (TPIDRRO_EL0, 352), (FPCR, 880), (FPSR, 888), (CNTVOFF_EL2, 928), (CNTV_CVAL_EL0, 936),
     (CNTV_CTL_EL0, 944)]"

text \<open>\<open>vcpu_holds v M R\<close>: the vCPU at offset \<open>v\<close> in the memory of \<open>M\<close> holds the guest registers of \<open>R\<close>.\<close>

definition vcpu_holds :: "int \<Rightarrow> machine \<Rightarrow> machine \<Rightarrow> bool" where
  "vcpu_holds v M R \<longleftrightarrow>
     (\<forall>i \<in> set [0..<31]. cell M VcpuObj (v + 8 * int i) = gpr R i) \<and>
     (\<forall>i \<in> set [0..<32]. qcell M VcpuObj (v + 368 + 16 * int i) = vreg R i) \<and>
     (\<forall>(r, off) \<in> set vcpu_sysregs. cell M VcpuObj (v + off) = sys R r)"

lemma run_enter:
  assumes "gpr m 0 = Ptr VcpuObj v" and "sys m TPIDR_EL2 = Ptr PcpuObj t"
  shows "\<exists>M. exec_code vcpu_run_enter m = Some M \<and> vcpu_holds v m M \<and> stackp M = stackp m \<and>
    sys M TPIDR_EL2 = Ptr PcpuObj t \<and> cell M = (cell m)(PcpuObj := (cell m PcpuObj)(t + 8 := Ptr VcpuObj v)) \<and> qcell M = qcell m"
  using assms by (simp add: vcpu_run_enter_def vcpu_holds_def vcpu_sysregs_def run_defs, simp add: add.commute)

lemma exit_prologue:
  assumes "stackp m = Ptr HostStack s" and "sys m TPIDR_EL2 = Ptr PcpuObj t" and "cell m PcpuObj (t + 8) = Ptr VcpuObj v"
    and "prologue = exit_prologue_sync \<and> vec = 8 \<or> prologue = exit_prologue_irq \<and> vec = 9"
  shows "\<exists>M. exec_code (prologue @ exit_find_vcpu) m = Some M \<and> gpr M = (gpr m)(0 := Ptr VcpuObj v) \<and> vreg M = vreg m \<and>
    sys M = sys m \<and> stackp M = Ptr HostStack (s - 32) \<and> qcell M = qcell m \<and>
    cell M = (cell m)(HostStack := (cell m HostStack)(s - 32 := gpr m 0, s - 24 := gpr m 1, s - 16 := Word64 vec))"
  using assms(1,2,3,4) by (elim disjE) (simp_all add: exit_prologue_sync_def exit_prologue_irq_def exit_find_vcpu_def step_defs)

lemma save_vector:
  assumes "gpr m 0 = Ptr VcpuObj v"
  shows "\<exists>M. exec_code exit_save_vector m = Some M \<and> (\<forall>i \<in> set [0..<32]. qcell M VcpuObj (v + 368 + 16 * int i) = vreg m i) \<and>
    cell M VcpuObj = (cell m VcpuObj)(v + 880 := sys m FPCR, v + 888 := sys m FPSR) \<and> gpr M = (gpr m)(1 := sys m FPSR) \<and>
    sys M = sys m \<and> stackp M = stackp m \<and> (\<forall>ob. ob \<noteq> VcpuObj \<longrightarrow> cell M ob = cell m ob \<and> qcell M ob = qcell m ob)"
  using assms by (simp add: exit_save_vector_def run_defs)

lemma save_general:
  assumes "gpr m 0 = Ptr VcpuObj v" and "stackp m = Ptr HostStack s"
    and "cell m HostStack s = x0" and "cell m HostStack (s + 8) = x1" and "cell m HostStack (s + 16) = vec"
  shows "\<exists>M. exec_code exit_save_general m = Some M \<and>
    (\<forall>i \<in> set [0..<31]. cell M VcpuObj (v + 8 * int i) = ((gpr m)(0 := x0, 1 := x1)) i) \<and>
    (\<forall>k. v + 248 \<le> k \<longrightarrow> cell M VcpuObj k = cell m VcpuObj k) \<and> gpr M = (gpr m)(1 := x0, 2 := x1, 3 := vec) \<and>
    sys M = sys m \<and> stackp M = Ptr HostStack (s + 32) \<and> qcell M = qcell m \<and> (\<forall>ob. ob \<noteq> VcpuObj \<longrightarrow> cell M ob = cell m ob)"
  using assms by (simp add: exit_save_general_def run_defs)

lemma save_system:
  assumes "gpr m 0 = Ptr VcpuObj v"
  shows "\<exists>M. exec_code exit_save_system m = Some M \<and>
    (\<forall>(r, off) \<in> set vcpu_sysregs. r \<notin> {FPCR, FPSR} \<longrightarrow> cell M VcpuObj (v + off) = sys m r) \<and>
    (\<forall>k. k < v + 248 \<or> v + 880 \<le> k \<and> k < v + 896 \<longrightarrow> cell M VcpuObj k = cell m VcpuObj k) \<and>
    cell M VcpuObj (v + 896) = gpr m 3 \<and> cell M VcpuObj (v + 904) = sys m ESR_EL2 \<and> cell M VcpuObj (v + 912) = sys m FAR_EL2 \<and>
    cell M VcpuObj (v + 920) = sys m HPFAR_EL2 \<and> gpr M 3 = gpr m 3 \<and>
    sys M = sys m \<and> stackp M = stackp m \<and> qcell M = qcell m \<and> (\<forall>ob. ob \<noteq> VcpuObj \<longrightarrow> cell M ob = cell m ob)"
  using assms by (simp add: exit_save_system_def vcpu_sysregs_def run_defs)

lemma exit_save:
  assumes "stackp m = Ptr HostStack s" and "gpr m 0 = Ptr VcpuObj v"
    and "cell m HostStack s = x0" and "cell m HostStack (s + 8) = x1" and "cell m HostStack (s + 16) = vec"
  shows "\<exists>M. exec_code exit_save_vcpu m = Some M \<and> vcpu_holds v M (m\<lparr>gpr := (gpr m)(0 := x0, 1 := x1)\<rparr>) \<and>
    cell M VcpuObj (v + 896) = vec \<and> cell M VcpuObj (v + 904) = sys m ESR_EL2 \<and> cell M VcpuObj (v + 912) = sys m FAR_EL2 \<and>
    cell M VcpuObj (v + 920) = sys m HPFAR_EL2 \<and> gpr M 3 = vec \<and> sys M = sys m \<and> stackp M = Ptr HostStack (s + 32) \<and>
    (\<forall>ob. ob \<noteq> VcpuObj \<longrightarrow> cell M ob = cell m ob \<and> qcell M ob = qcell m ob)"
proof -
  obtain A where A: "exec_code exit_save_vector m = Some A" "\<forall>i \<in> set [0..<32]. qcell A VcpuObj (v + 368 + 16 * int i) = vreg m i"
    "cell A VcpuObj = (cell m VcpuObj)(v + 880 := sys m FPCR, v + 888 := sys m FPSR)" "gpr A = (gpr m)(1 := sys m FPSR)" "sys A = sys m"
    "stackp A = stackp m" "\<And>ob. ob \<noteq> VcpuObj \<Longrightarrow> cell A ob = cell m ob \<and> qcell A ob = qcell m ob"
    using save_vector [OF assms(2)] by blast
  obtain B where B: "exec_code exit_save_general A = Some B"
    "\<forall>i \<in> set [0..<31]. cell B VcpuObj (v + 8 * int i) = ((gpr A)(0 := x0, 1 := x1)) i"
    "\<And>k. v + 248 \<le> k \<Longrightarrow> cell B VcpuObj k = cell A VcpuObj k" "gpr B = (gpr A)(1 := x0, 2 := x1, 3 := vec)" "sys B = sys A"
    "stackp B = Ptr HostStack (s + 32)" "qcell B = qcell A" "\<And>ob. ob \<noteq> VcpuObj \<Longrightarrow> cell B ob = cell A ob"
    using save_general [of A v s x0 x1 vec] A assms by auto
  obtain M where M: "exec_code exit_save_system B = Some M"
    "\<forall>(r, off) \<in> set vcpu_sysregs. r \<notin> {FPCR, FPSR} \<longrightarrow> cell M VcpuObj (v + off) = sys B r"
    "\<And>k. k < v + 248 \<or> v + 880 \<le> k \<and> k < v + 896 \<Longrightarrow> cell M VcpuObj k = cell B VcpuObj k"
    "cell M VcpuObj (v + 896) = gpr B 3" "cell M VcpuObj (v + 904) = sys B ESR_EL2" "cell M VcpuObj (v + 912) = sys B FAR_EL2"
    "cell M VcpuObj (v + 920) = sys B HPFAR_EL2" "gpr M 3 = gpr B 3" "sys M = sys B" "stackp M = stackp B" "qcell M = qcell B"
    "\<And>ob. ob \<noteq> VcpuObj \<Longrightarrow> cell M ob = cell B ob"
    using save_system [of B v] B(4) A(4) assms(2) by auto
  have "cell M VcpuObj (v + 880) = sys m FPCR" "cell M VcpuObj (v + 888) = sys m FPSR"
    by (simp_all add: M(3) B(3) A(3))
  then have "\<forall>(r, off) \<in> set vcpu_sysregs. cell M VcpuObj (v + off) = sys m r"
    using M(2) by (simp add: vcpu_sysregs_def B(5) A(5))
  moreover have "\<forall>i \<in> set [0..<31]. cell M VcpuObj (v + 8 * int i) = ((gpr m)(0 := x0, 1 := x1)) i"
    using B(2) by (auto simp: M(3) A(4))
  ultimately have "vcpu_holds v M (m\<lparr>gpr := (gpr m)(0 := x0, 1 := x1)\<rparr>)"
    using A(2) by (simp add: vcpu_holds_def M(11) B(7))
  then show ?thesis using A B M by (simp add: exit_save_vcpu_def exec_code_append)
qed

lemma exit_restore:
  assumes "sys m TPIDR_EL2 = Ptr PcpuObj t" and "host_frame s t h m"
  shows "\<exists>M. exec_code exit_restore_host m = Some M \<and> (\<forall>(i, _) \<in> set callee_saved. gpr M i = gpr h i) \<and>
    (\<forall>i \<in> set [0..<32]. vreg M i = vreg h i) \<and> sys M = (sys m)(FPCR := sys h FPCR, FPSR := sys h FPSR) \<and>
    stackp M = Ptr HostStack s \<and> gpr M 0 = gpr m 3 \<and> cell M = (cell m)(PcpuObj := (cell m PcpuObj)(t + 8 := Word64 0)) \<and> qcell M = qcell m"
  using assms by (simp add: exit_restore_host_def host_frame_def run_defs)

text \<open>The widths do not overlap: the 8-byte cells of a vCPU and its 16-byte vector area are apart.\<close>

lemma vcpu_layout_disjoint:
  "\<forall>k \<in> set (map (\<lambda>i. 8 * int i) [0..<31] @ map snd vcpu_sysregs @ [896, 904, 912, 920]). k + 8 \<le> 368 \<or> 368 + 16 * 32 \<le> k"
  by (simp add: vcpu_sysregs_def regs_31)

end
