(* ===== verification/World_Switch.thy ===== *)
theory World_Switch
  imports Vcpu_Asm
begin

text \<open>
  The composition of the pieces of \<open>Vcpu_Asm\<close>: one entry into the guest, an arbitrary run
  of the guest, and the exit back to the caller of \<open>__vcpu_run\<close>.
\<close>

section \<open>The world switch\<close>

text \<open>
  What the guest and the hardware may do between \<open>eret\<close> and the exit: change every register,
  but not the EL2 stack pointer, \<open>TPIDR_EL2\<close>, nor (stage 2 keeps it out) hypervisor memory.
\<close>

definition guest_ran :: "machine \<Rightarrow> machine \<Rightarrow> bool" where
  "guest_ran e g \<longleftrightarrow> stackp g = stackp e \<and> sys g TPIDR_EL2 = sys e TPIDR_EL2 \<and> cell g = cell e \<and> qcell g = qcell e"

text \<open>The two entries of the vector table for a lower exception level.\<close>

definition exit_vector :: "instr list \<Rightarrow> u64 \<Rightarrow> bool" where
  "exit_vector prologue vec \<longleftrightarrow> prologue = exit_prologue_sync \<and> vec = 8 \<or> prologue = exit_prologue_irq \<and> vec = 9"

lemma host_frame_cong:
  assumes "host_frame s t m M"
    and "\<And>k. s - 624 \<le> k \<Longrightarrow> cell M' HostStack k = cell M HostStack k" and "cell M' PcpuObj t = cell M PcpuObj t"
    and "qcell M' HostStack = qcell M HostStack"
  shows "host_frame s t m M'"
  using assms(1,3,4) by (auto simp: host_frame_def callee_saved_def assms(2))

lemma run_code:
  assumes "gpr m 0 = Ptr VcpuObj v" and "sys m TPIDR_EL2 = Ptr PcpuObj t" and "stackp m = Ptr HostStack s"
  shows "\<exists>e. exec_code vcpu_run_code m = Some e \<and> vcpu_holds v m e \<and> host_frame s t m e \<and> stackp e = Ptr HostStack (s - 624) \<and>
    sys e TPIDR_EL2 = Ptr PcpuObj t \<and> cell e PcpuObj (t + 8) = Ptr VcpuObj v \<and>
    cell e VcpuObj = cell m VcpuObj \<and> qcell e VcpuObj = qcell m VcpuObj"
proof -
  obtain M where M: "exec_code vcpu_run_save m = Some M" "host_frame s t m M" "stackp M = Ptr HostStack (s - 624)"
    "sys M = sys m" "gpr M 0 = gpr m 0" "cell M VcpuObj = cell m VcpuObj" "qcell M VcpuObj = qcell m VcpuObj"
    using run_save [OF assms(3,2)] by blast
  obtain e where e: "exec_code vcpu_run_enter M = Some e" "vcpu_holds v M e" "stackp e = stackp M" "sys e TPIDR_EL2 = Ptr PcpuObj t"
    "cell e = (cell M)(PcpuObj := (cell M PcpuObj)(t + 8 := Ptr VcpuObj v))" "qcell e = qcell M"
    using run_enter [of M v t] M assms by auto
  have "vcpu_holds v m e" using e(2) M(6,7) by (simp add: vcpu_holds_def)
  moreover have "host_frame s t m e" using M(2) by (rule host_frame_cong) (simp_all add: e)
  ultimately show ?thesis using M e by (auto simp: vcpu_run_code_def exec_code_append)
qed

lemma exit_code:
  assumes "stackp g = Ptr HostStack (s - 624)" and "sys g TPIDR_EL2 = Ptr PcpuObj t" and "cell g PcpuObj (t + 8) = Ptr VcpuObj v"
    and "host_frame s t m g" and "exit_vector prologue vec"
  shows "\<exists>r. vcpu_exit prologue g = Some r \<and> vcpu_holds v r g \<and>
    cell r VcpuObj (v + 896) = Word64 vec \<and> cell r VcpuObj (v + 904) = sys g ESR_EL2 \<and>
    cell r VcpuObj (v + 912) = sys g FAR_EL2 \<and> cell r VcpuObj (v + 920) = sys g HPFAR_EL2 \<and>
    (\<forall>(i, _) \<in> set callee_saved. gpr r i = gpr m i) \<and> (\<forall>i \<in> set [0..<32]. vreg r i = vreg m i) \<and>
    sys r FPCR = sys m FPCR \<and> sys r FPSR = sys m FPSR \<and> stackp r = Ptr HostStack s \<and> gpr r 0 = Word64 vec \<and>
    cell r PcpuObj (t + 8) = Word64 0"
proof -
  obtain A where A: "exec_code (prologue @ exit_find_vcpu) g = Some A" "gpr A = (gpr g)(0 := Ptr VcpuObj v)" "vreg A = vreg g"
    "sys A = sys g" "stackp A = Ptr HostStack (s - 624 - 32)" "qcell A = qcell g"
    "cell A = (cell g)(HostStack := (cell g HostStack)(s - 624 - 32 := gpr g 0, s - 624 - 24 := gpr g 1, s - 624 - 16 := Word64 vec))"
    using exit_prologue [OF assms(1,2,3) assms(5) [unfolded exit_vector_def]] by blast
  obtain B where B: "exec_code exit_save_vcpu A = Some B"
    "vcpu_holds v B (A\<lparr>gpr := (gpr A)(0 := gpr g 0, 1 := gpr g 1)\<rparr>)"
    "cell B VcpuObj (v + 896) = Word64 vec" "cell B VcpuObj (v + 904) = sys g ESR_EL2" "cell B VcpuObj (v + 912) = sys g FAR_EL2"
    "cell B VcpuObj (v + 920) = sys g HPFAR_EL2" "gpr B 3 = Word64 vec" "sys B = sys g"
    "cell B HostStack = cell A HostStack" "qcell B HostStack = qcell A HostStack" "cell B PcpuObj = cell A PcpuObj"
    using exit_save [of A "s - 624 - 32" v "gpr g 0" "gpr g 1" "Word64 vec"] unfolding A(2,4,5,7) by auto
  have "host_frame s t m B" using assms(4) by (rule host_frame_cong) (simp_all add: B(9-11) A(6,7))
  then obtain r where r: "exec_code exit_restore_host B = Some r" "\<forall>(i, _) \<in> set callee_saved. gpr r i = gpr m i"
    "\<forall>i \<in> set [0..<32]. vreg r i = vreg m i" "sys r = (sys B)(FPCR := sys m FPCR, FPSR := sys m FPSR)"
    "stackp r = Ptr HostStack s" "gpr r 0 = gpr B 3" "cell r = (cell B)(PcpuObj := (cell B PcpuObj)(t + 8 := Word64 0))" "qcell r = qcell B"
    using exit_restore [of B t s m] unfolding B(8) assms(2) by blast
  have "vcpu_holds v r g" using B(2) by (simp add: vcpu_holds_def A(2-4) r(7,8))
  moreover have "vcpu_exit prologue g = Some r" using B(1) r(1) unfolding vcpu_exit_def A(1) by (simp add: A(2) exec_code_append)
  ultimately show ?thesis using B(3-8) r(2-7) by simp
qed

text \<open>
  C5: the world switch. Called with a vCPU, \<open>__vcpu_run\<close> enters the guest with every
  general, vector and system register of that vCPU. Whatever the guest then does to its
  registers, a synchronous exit or an interrupt stores all of them back in the same vCPU,
  fills the exit record, and returns to the caller with the vector number as the result,
  its callee-saved and vector registers and stack pointer as they were, and no vCPU left active.
\<close>

theorem world_switch_correct:
  assumes "gpr m 0 = Ptr VcpuObj v" and "sys m TPIDR_EL2 = Ptr PcpuObj t" and "stackp m = Ptr HostStack s"
    and "\<And>e. exec_code vcpu_run_code m = Some e \<Longrightarrow> guest_ran e (guest e)" and "exit_vector prologue vec"
  shows "\<exists>e r. exec_code vcpu_run_code m = Some e \<and> vcpu_holds v m e \<and>
    vcpu_exit prologue (guest e) = Some r \<and> vcpu_holds v r (guest e) \<and>
    cell r VcpuObj (v + 896) = Word64 vec \<and> cell r VcpuObj (v + 904) = sys (guest e) ESR_EL2 \<and>
    cell r VcpuObj (v + 912) = sys (guest e) FAR_EL2 \<and> cell r VcpuObj (v + 920) = sys (guest e) HPFAR_EL2 \<and>
    (\<forall>(i, _) \<in> set callee_saved. gpr r i = gpr m i) \<and> (\<forall>i \<in> set [0..<32]. vreg r i = vreg m i) \<and>
    sys r FPCR = sys m FPCR \<and> sys r FPSR = sys m FPSR \<and> stackp r = stackp m \<and> gpr r 0 = Word64 vec \<and>
    cell r PcpuObj (t + 8) = Word64 0"
proof -
  obtain e where e: "exec_code vcpu_run_code m = Some e" "vcpu_holds v m e" "host_frame s t m e" "stackp e = Ptr HostStack (s - 624)"
    "sys e TPIDR_EL2 = Ptr PcpuObj t" "cell e PcpuObj (t + 8) = Ptr VcpuObj v"
    using run_code [OF assms(1,2,3)] by blast
  have g: "guest_ran e (guest e)" using assms(4) [OF e(1)] .
  have "host_frame s t m (guest e)" using e(3) by (rule host_frame_cong) (use g in \<open>simp_all add: guest_ran_def\<close>)
  then have "\<exists>r. vcpu_exit prologue (guest e) = Some r \<and> vcpu_holds v r (guest e) \<and>
    cell r VcpuObj (v + 896) = Word64 vec \<and> cell r VcpuObj (v + 904) = sys (guest e) ESR_EL2 \<and>
    cell r VcpuObj (v + 912) = sys (guest e) FAR_EL2 \<and> cell r VcpuObj (v + 920) = sys (guest e) HPFAR_EL2 \<and>
    (\<forall>(i, _) \<in> set callee_saved. gpr r i = gpr m i) \<and> (\<forall>i \<in> set [0..<32]. vreg r i = vreg m i) \<and>
    sys r FPCR = sys m FPCR \<and> sys r FPSR = sys m FPSR \<and> stackp r = Ptr HostStack s \<and> gpr r 0 = Word64 vec \<and>
    cell r PcpuObj (t + 8) = Word64 0"
    using g e assms(5) by (intro exit_code) (simp_all add: guest_ran_def)
  then show ?thesis unfolding assms(3) using e(1,2) by blast
qed

theorem world_switch_correct_witness:
  "\<exists>m guest e r. exec_code vcpu_run_code m = Some e \<and> vcpu_exit exit_prologue_irq (guest e) = Some r \<and>
    cell r VcpuObj 0 = Word64 7 \<and> gpr r 0 = Word64 9 \<and> gpr r 19 = Word64 42 \<and> stackp r = Ptr HostStack 0"
proof -
  let ?m = "\<lparr>gpr = (\<lambda>_. Word64 42)(0 := Ptr VcpuObj 0), vreg = \<lambda>_. 0, sys = (\<lambda>_. Word64 0)(TPIDR_EL2 := Ptr PcpuObj 0), stackp = Ptr HostStack 0,
    cell = \<lambda>_ _. Word64 0, qcell = \<lambda>_ _. 0\<rparr>"
  let ?g = "\<lambda>e. e\<lparr>gpr := \<lambda>_. Word64 7\<rparr>"
  obtain e r where *: "exec_code vcpu_run_code ?m = Some e" "vcpu_exit exit_prologue_irq (?g e) = Some r" "vcpu_holds 0 r (?g e)"
    "\<forall>(i, _) \<in> set callee_saved. gpr r i = gpr ?m i" "stackp r = stackp ?m" "gpr r 0 = Word64 9"
    using world_switch_correct [of ?m 0 0 0 ?g exit_prologue_irq 9] by (auto simp: guest_ran_def exit_vector_def)
  have "cell r VcpuObj 0 = Word64 7" using *(3) by (simp add: vcpu_holds_def regs_31)
  moreover have "gpr r 19 = Word64 42" using *(4) by (simp add: callee_saved_def)
  ultimately show ?thesis using *(1,2,5,6) by (intro exI [of _ ?m] exI [of _ ?g] exI [of _ e] exI [of _ r]) simp
qed

end
