(* ===== verification/Management_Channel.thy ===== *)
theory Management_Channel
  imports Atomic_Prog
begin

text \<open>
  The management request channel (\<open>tvisor_util/management.rs\<close>): one request slot between a
  sending CPU and a receiving CPU, published and acknowledged by sequence numbers. Senders
  are any number of contexts of the sending CPU; the receiver is the one, non-reentrant
  interrupt dispatcher of the target CPU. Every access to an atomic is one step.
\<close>

datatype operation = Ping | WorkerTest | Park | FatalStop | RunTest | TlbQuiesce

primrec operation_code :: "operation \<Rightarrow> u64" where
  "operation_code Ping = 1"
| "operation_code WorkerTest = 2"
| "operation_code Park = 3"
| "operation_code FatalStop = 4"
| "operation_code RunTest = 5"
| "operation_code TlbQuiesce = 6"

datatype channel_error = Busy | Exhausted | Completed

record reply =
  reply_value :: u64
  reply_failed :: bool

text \<open>
  The fields from \<open>g_writer\<close> on are auxiliary: who holds the writer flag, the pending handle
  and the request handle, the requests in the order they were published, and what the
  receiver answered to what it read. No program reads them.
\<close>

record channel =
  ch_writer :: bool
  ch_sequence :: u64
  ch_retired :: u64
  ch_taken :: u64
  ch_acknowledged :: u64
  ch_operation :: u64
  ch_argument :: u64
  ch_result :: u64
  ch_failed :: bool
  g_writer :: "nat option"
  g_pending :: "nat option"
  g_owner :: "nat option"
  g_requests :: "(operation \<times> u64) list"
  g_log :: "((operation \<times> u64) \<times> reply) list"

definition channel_new :: channel where
  "channel_new = \<lparr>ch_writer = False, ch_sequence = 0, ch_retired = 0, ch_taken = 0, ch_acknowledged = 0,
     ch_operation = 0, ch_argument = 0, ch_result = 0, ch_failed = False,
     g_writer = None, g_pending = None, g_owner = None, g_requests = [], g_log = []\<rparr>"

record pending =
  pd_sequence :: u64
  pd_completed :: bool

record request =
  rq_sequence :: u64
  rq_operation :: operation
  rq_argument :: u64

definition publish_request :: "nat \<Rightarrow> operation \<Rightarrow> u64 \<Rightarrow> u64 \<Rightarrow> (channel, (pending, channel_error) outcome) prog" where
  "publish_request i op arg sequence =
     pbind (astore (ch_operation_update (\<lambda>_. operation_code op))) (\<lambda>_.
     pbind (astore (ch_argument_update (\<lambda>_. arg))) (\<lambda>_.
     pbind (astore (\<lambda>s. s\<lparr>ch_sequence := sequence, g_pending := Some i, g_requests := g_requests s @ [(op, arg)]\<rparr>)) (\<lambda>_.
     Ret (Ok \<lparr>pd_sequence = sequence, pd_completed = False\<rparr>))))"

definition submit :: "nat \<Rightarrow> operation \<Rightarrow> u64 \<Rightarrow> (channel, (pending, channel_error) outcome) prog" where
  "submit i op arg =
     pbind (armw (\<lambda>s. if ch_writer s then (s, False) else (s\<lparr>ch_writer := True, g_writer := Some i\<rparr>, True))) (\<lambda>won.
     if \<not> won then Ret (Err Busy)
     else pbind (aload ch_sequence) (\<lambda>old.
          pbind (aload ch_retired) (\<lambda>retired.
          pbind (if retired \<noteq> old then Ret (Err Busy)
                 else case checked_add old 1 of Some sequence \<Rightarrow> publish_request i op arg sequence | None \<Rightarrow> Ret (Err Exhausted)) (\<lambda>result.
          pbind (astore (\<lambda>s. s\<lparr>ch_writer := False, g_writer := None\<rparr>)) (\<lambda>_. Ret result)))))"

definition completed_count :: "(channel, u64) prog" where
  "completed_count = aload ch_acknowledged"

definition decode_operation :: "u64 \<Rightarrow> (operation, channel_error) outcome" where
  "decode_operation w = (if w = 1 then Ok Ping else if w = 2 then Ok WorkerTest else if w = 3 then Ok Park
     else if w = 4 then Ok FatalStop else if w = 5 then Ok RunTest else if w = 6 then Ok TlbQuiesce else Panic)"

definition take_request :: "nat \<Rightarrow> (channel, (request option, channel_error) outcome) prog" where
  "take_request i =
     pbind (aload ch_sequence) (\<lambda>sequence.
     pbind (aload ch_taken) (\<lambda>taken.
     if sequence = taken then Ret (Ok None)
     else pbind (armw (\<lambda>s. if ch_taken s = taken then (s\<lparr>ch_taken := sequence, g_owner := Some i\<rparr>, True) else (s, False))) (\<lambda>won.
     if \<not> won then Ret (Ok None)
     else pbind (aload ch_operation) (\<lambda>w.
          pthen (Ret (decode_operation w)) (\<lambda>op.
          pbind (aload ch_argument) (\<lambda>arg.
          Ret (Ok (Some \<lparr>rq_sequence = sequence, rq_operation = op, rq_argument = arg\<rparr>))))))))"

definition try_result :: "pending \<Rightarrow> (channel, (reply option, channel_error) outcome \<times> pending) prog" where
  "try_result p =
     (if pd_completed p then Ret (Err Completed, p)
      else pbind (aload ch_acknowledged) (\<lambda>a.
      if a \<noteq> pd_sequence p then Ret (Ok None, p)
      else pbind (aload ch_result) (\<lambda>v.
           pbind (aload ch_failed) (\<lambda>f.
           pbind (astore (\<lambda>s. s\<lparr>ch_retired := pd_sequence p, g_pending := None\<rparr>)) (\<lambda>_.
           Ret (Ok (Some \<lparr>reply_value = v, reply_failed = f\<rparr>), p\<lparr>pd_completed := True\<rparr>))))))"

definition acknowledge_request :: "request \<Rightarrow> reply \<Rightarrow> (channel, unit) prog" where
  "acknowledge_request rq r =
     pbind (astore (ch_result_update (\<lambda>_. reply_value r))) (\<lambda>_.
     pbind (astore (ch_failed_update (\<lambda>_. reply_failed r))) (\<lambda>_.
     astore (\<lambda>s. s\<lparr>ch_acknowledged := rq_sequence rq, g_owner := None,
       g_log := g_log s @ [((rq_operation rq, rq_argument rq), r)]\<rparr>)))"

section \<open>How the channel is used\<close>

text \<open>A sender submits and polls a bounded number of times; giving up drops the handle.\<close>

fun poll_result :: "pending \<Rightarrow> nat \<Rightarrow> (channel, (reply option, channel_error) outcome) prog" where
  "poll_result p 0 = Ret (Ok None)"
| "poll_result p (Suc n) = pbind (try_result p) (\<lambda>(r, p'). if r = Ok None then poll_result p' n else Ret r)"

definition session :: "nat \<Rightarrow> operation \<Rightarrow> u64 \<Rightarrow> nat \<Rightarrow> (channel, (reply option, channel_error) outcome) prog" where
  "session i op arg n = pthen (submit i op arg) (\<lambda>p. poll_result p n)"

text \<open>The receiver takes a request, computes a reply and acknowledges, or drops the request.\<close>

definition serve :: "nat \<Rightarrow> (operation \<Rightarrow> u64 \<Rightarrow> reply option) \<Rightarrow> (channel, (unit, channel_error) outcome) prog" where
  "serve i handler = pthen (take_request i) (\<lambda>rq. case rq of
       None \<Rightarrow> Ret (Ok ())
     | Some rq \<Rightarrow> (case handler (rq_operation rq) (rq_argument rq) of
         None \<Rightarrow> Ret (Ok ())
       | Some r \<Rightarrow> pbind (acknowledge_request rq r) (\<lambda>_. Ret (Ok ()))))"

definition RECEIVER :: nat where "RECEIVER = 0"

definition handler_ok :: "(operation \<times> u64 \<Rightarrow> reply \<Rightarrow> bool) \<Rightarrow> (operation \<Rightarrow> u64 \<Rightarrow> reply option) \<Rightarrow> bool" where
  "handler_ok H f \<longleftrightarrow> (\<forall>op arg r. f op arg = Some r \<longrightarrow> H (op, arg) r)"

definition ch_api :: "(operation \<times> u64 \<Rightarrow> reply \<Rightarrow> bool) \<Rightarrow> nat \<Rightarrow> (channel, unit) prog \<Rightarrow> bool" where
  "ch_api H i p \<longleftrightarrow>
     (i \<noteq> RECEIVER \<and> (\<exists>op arg n. p = discard (session i op arg n))) \<or>
     (i = RECEIVER \<and> (\<exists>f. handler_ok H f \<and> p = discard (serve i f)))"

section \<open>The invariant\<close>

definition ch_counted :: "channel \<Rightarrow> bool" where
  "ch_counted s \<longleftrightarrow> unat (ch_retired s) \<le> unat (ch_acknowledged s) \<and> unat (ch_acknowledged s) \<le> unat (ch_taken s) \<and>
     unat (ch_taken s) \<le> unat (ch_sequence s) \<and> unat (ch_sequence s) \<le> unat (ch_retired s) + 1"

definition ch_handles :: "channel \<Rightarrow> bool" where
  "ch_handles s \<longleftrightarrow> (ch_writer s \<longleftrightarrow> g_writer s \<noteq> None) \<and>
     (g_pending s \<noteq> None \<longleftrightarrow> ch_retired s \<noteq> ch_sequence s) \<and>
     (g_owner s \<noteq> None \<longleftrightarrow> ch_acknowledged s \<noteq> ch_taken s)"

definition ch_current :: "channel \<Rightarrow> (operation \<times> u64) \<Rightarrow> bool" where
  "ch_current s q \<longleftrightarrow> g_requests s \<noteq> [] \<and> last (g_requests s) = q \<and> ch_operation s = operation_code (fst q) \<and> ch_argument s = snd q"

definition ch_logged :: "(operation \<times> u64 \<Rightarrow> reply \<Rightarrow> bool) \<Rightarrow> channel \<Rightarrow> bool" where
  "ch_logged H s \<longleftrightarrow> length (g_requests s) = unat (ch_sequence s) \<and>
     map fst (g_log s) = take (unat (ch_acknowledged s)) (g_requests s) \<and>
     (ch_retired s \<noteq> ch_sequence s \<longrightarrow> ch_current s (last (g_requests s))) \<and>
     (ch_acknowledged s = ch_taken s \<and> ch_acknowledged s \<noteq> 0 \<longrightarrow>
        snd (last (g_log s)) = \<lparr>reply_value = ch_result s, reply_failed = ch_failed s\<rparr>) \<and>
     (\<forall>(q, r) \<in> set (g_log s). H q r)"

definition ch_inv :: "(operation \<times> u64 \<Rightarrow> reply \<Rightarrow> bool) \<Rightarrow> channel \<Rightarrow> bool" where
  "ch_inv H s \<longleftrightarrow> ch_counted s \<and> ch_handles s \<and> ch_logged H s"

lemmas ch_inv_defs = ch_inv_def ch_counted_def ch_handles_def ch_logged_def

lemma channel_new_inv: "ch_inv H channel_new"
  by (simp add: ch_inv_defs channel_new_def)

text \<open>What one step of thread \<open>i\<close> may do.\<close>

inductive ch_guar :: "(operation \<times> u64 \<Rightarrow> reply \<Rightarrow> bool) \<Rightarrow> nat \<Rightarrow> channel \<Rightarrow> channel \<Rightarrow> bool" for H where
  same: "ch_guar H j s s"
| lock: "j \<noteq> RECEIVER \<Longrightarrow> \<not> ch_writer s \<Longrightarrow> ch_guar H j s (s\<lparr>ch_writer := True, g_writer := Some j\<rparr>)"
| unlock: "j \<noteq> RECEIVER \<Longrightarrow> g_writer s = Some j \<Longrightarrow> ch_guar H j s (s\<lparr>ch_writer := False, g_writer := None\<rparr>)"
| set_operation: "j \<noteq> RECEIVER \<Longrightarrow> g_writer s = Some j \<Longrightarrow> ch_retired s = ch_sequence s \<Longrightarrow> ch_guar H j s (s\<lparr>ch_operation := w\<rparr>)"
| set_argument: "j \<noteq> RECEIVER \<Longrightarrow> g_writer s = Some j \<Longrightarrow> ch_retired s = ch_sequence s \<Longrightarrow> ch_guar H j s (s\<lparr>ch_argument := w\<rparr>)"
| publish: "j \<noteq> RECEIVER \<Longrightarrow> g_writer s = Some j \<Longrightarrow> ch_retired s = ch_sequence s \<Longrightarrow> ch_operation s = operation_code op \<Longrightarrow>
    ch_argument s = arg \<Longrightarrow> checked_add (ch_sequence s) 1 = Some sequence \<Longrightarrow>
    ch_guar H j s (s\<lparr>ch_sequence := sequence, g_pending := Some j, g_requests := g_requests s @ [(op, arg)]\<rparr>)"
| retire: "j \<noteq> RECEIVER \<Longrightarrow> g_pending s = Some j \<Longrightarrow> ch_acknowledged s = ch_sequence s \<Longrightarrow>
    ch_guar H j s (s\<lparr>ch_retired := ch_sequence s, g_pending := None\<rparr>)"
| take_it: "ch_taken s \<noteq> ch_sequence s \<Longrightarrow> ch_guar H RECEIVER s (s\<lparr>ch_taken := ch_sequence s, g_owner := Some RECEIVER\<rparr>)"
| set_result: "g_owner s = Some RECEIVER \<Longrightarrow> ch_guar H RECEIVER s (s\<lparr>ch_result := w\<rparr>)"
| set_failed: "g_owner s = Some RECEIVER \<Longrightarrow> ch_guar H RECEIVER s (s\<lparr>ch_failed := b\<rparr>)"
| ack: "g_owner s = Some RECEIVER \<Longrightarrow> H (last (g_requests s)) \<lparr>reply_value = ch_result s, reply_failed = ch_failed s\<rparr> \<Longrightarrow>
    ch_guar H RECEIVER s (s\<lparr>ch_acknowledged := ch_taken s, g_owner := None,
      g_log := g_log s @ [(last (g_requests s), \<lparr>reply_value = ch_result s, reply_failed = ch_failed s\<rparr>)]\<rparr>)"

lemma checked_add_1: "checked_add (w :: u64) 1 = Some v \<longleftrightarrow> v = w + 1 \<and> unat v = unat w + 1"
proof -
  have "unat w + 1 < 2 ^ 64" if "unat (w + 1) = unat w + 1" using that unat_u64_bound [of "w + 1"] by simp
  then show ?thesis using unat_add_no_overflow [of w 1] by (auto simp: checked_add_Some)
qed

lemma unat_eq_u64: "unat (a :: u64) = unat b \<longleftrightarrow> a = b"
  by (simp add: word_unat_eq_iff)

lemma ch_outstanding:
  assumes "ch_inv H s" and "ch_taken s \<noteq> ch_sequence s"
  shows "ch_acknowledged s = ch_taken s" and "ch_retired s = ch_taken s" and "unat (ch_sequence s) = unat (ch_taken s) + 1"
  using assms unat_eq_u64 [of "ch_taken s" "ch_sequence s"] unat_eq_u64 [of "ch_acknowledged s" "ch_taken s"]
    unat_eq_u64 [of "ch_retired s" "ch_taken s"]
  unfolding ch_inv_def ch_counted_def by linarith+

lemma ch_owned:
  assumes "ch_inv H s" and "g_owner s = Some i"
  shows "ch_taken s = ch_sequence s" and "ch_retired s \<noteq> ch_sequence s" and "ch_acknowledged s \<noteq> ch_taken s"
    and "unat (ch_taken s) = unat (ch_acknowledged s) + 1"
proof -
  have a: "ch_acknowledged s \<noteq> ch_taken s" using assms by (auto simp: ch_inv_def ch_handles_def)
  then show "ch_acknowledged s \<noteq> ch_taken s" .
  show "ch_taken s = ch_sequence s" using ch_outstanding(1) [OF assms(1)] a by blast
  show "ch_retired s \<noteq> ch_sequence s" "unat (ch_taken s) = unat (ch_acknowledged s) + 1"
    using assms(1) a unat_eq_u64 [of "ch_acknowledged s" "ch_taken s"] unfolding ch_inv_def ch_counted_def by (auto simp: not_le)
qed

lemma ch_publish_inv:
  assumes inv: "ch_inv H s" and r: "ch_retired s = ch_sequence s" and op: "ch_operation s = operation_code op" and arg: "ch_argument s = arg"
    and q: "checked_add (ch_sequence s) 1 = Some sequence"
  shows "ch_inv H (s\<lparr>ch_sequence := sequence, g_pending := Some i, g_requests := g_requests s @ [(op, arg)]\<rparr>)"
proof -
  have u: "unat sequence = unat (ch_sequence s) + 1" using q unfolding checked_add_1 by blast
  then have "sequence \<noteq> ch_sequence s" by auto
  moreover have "unat (ch_acknowledged s) \<le> unat (ch_sequence s)" using inv by (auto simp: ch_inv_def ch_counted_def)
  ultimately show ?thesis using inv r op arg u by (auto simp: ch_inv_defs ch_current_def)
qed

lemma ch_retire_inv:
  assumes "ch_inv H s" and "ch_acknowledged s = ch_sequence s"
  shows "ch_inv H (s\<lparr>ch_retired := ch_sequence s, g_pending := None\<rparr>)"
  using assms by (auto simp: ch_inv_defs)

lemma ch_flag_inv:
  assumes inv: "ch_inv H s"
  shows "ch_inv H (s\<lparr>ch_writer := True, g_writer := Some i\<rparr>)" and "ch_inv H (s\<lparr>ch_writer := False, g_writer := None\<rparr>)"
    and "ch_retired s = ch_sequence s \<Longrightarrow> ch_inv H (s\<lparr>ch_operation := w\<rparr>)"
    and "ch_retired s = ch_sequence s \<Longrightarrow> ch_inv H (s\<lparr>ch_argument := w\<rparr>)"
  using assms by (auto simp: ch_inv_defs ch_current_def)

lemma ch_take_inv:
  assumes inv: "ch_inv H s" and t: "ch_taken s \<noteq> ch_sequence s"
  shows "ch_inv H (s\<lparr>ch_taken := ch_sequence s, g_owner := Some i\<rparr>)"
  using inv t ch_outstanding [OF inv t] by (simp add: ch_inv_defs ch_current_def)

lemma ch_ack_inv:
  assumes inv: "ch_inv H s" and o: "g_owner s = Some i" and r: "r = \<lparr>reply_value = ch_result s, reply_failed = ch_failed s\<rparr>"
    and H: "H (last (g_requests s)) r"
  shows "ch_inv H (s\<lparr>ch_acknowledged := ch_taken s, g_owner := None, g_log := g_log s @ [(last (g_requests s), r)]\<rparr>)"
proof -
  note w = ch_owned [OF inv o]
  have l: "length (g_requests s) = Suc (unat (ch_acknowledged s))"
    and m: "map fst (g_log s) = take (unat (ch_acknowledged s)) (g_requests s)"
    using inv w by (simp_all add: ch_inv_def ch_logged_def)
  then have ne: "g_requests s \<noteq> []" by auto
  have "take (Suc (unat (ch_acknowledged s))) (g_requests s) = map fst (g_log s) @ [last (g_requests s)]"
    using l m append_butlast_last_id [OF ne] by (simp add: butlast_conv_take)
  then show ?thesis using inv w H r l by (simp add: ch_inv_defs ch_current_def)
qed

lemma ch_result_inv:
  assumes inv: "ch_inv H s" and o: "g_owner s = Some i"
  shows "ch_inv H (s\<lparr>ch_result := w\<rparr>)" and "ch_inv H (s\<lparr>ch_failed := b\<rparr>)"
  using inv ch_owned [OF inv o] by (simp_all add: ch_inv_defs ch_current_def)

lemma ch_guar_inv: "ch_guar H i s s' \<Longrightarrow> ch_inv H s \<Longrightarrow> ch_inv H s'"
  by (induction rule: ch_guar.induct)
    (blast intro: ch_flag_inv ch_publish_inv ch_retire_inv ch_take_inv ch_result_inv ch_ack_inv)+

section \<open>Stable knowledge\<close>

lemma ch_idle:
  assumes "ch_inv H s" and "ch_retired s = ch_sequence s"
  shows "g_pending s = None" and "g_owner s = None" and "ch_acknowledged s = ch_sequence s" and "ch_taken s = ch_sequence s"
proof -
  show a: "ch_acknowledged s = ch_sequence s" and t: "ch_taken s = ch_sequence s"
    using assms unat_eq_u64 [of "ch_acknowledged s" "ch_sequence s"] unat_eq_u64 [of "ch_taken s" "ch_sequence s"]
    unfolding ch_inv_def ch_counted_def by auto
  show "g_pending s = None" "g_owner s = None" using assms a t by (auto simp: ch_inv_def ch_handles_def)
qed

lemma ch_acked:
  assumes "ch_inv H s" and "ch_acknowledged s = ch_sequence s"
  shows "g_owner s = None" and "ch_taken s = ch_sequence s"
proof -
  show t: "ch_taken s = ch_sequence s"
    using assms unat_eq_u64 [of "ch_taken s" "ch_sequence s"] unfolding ch_inv_def ch_counted_def by auto
  show "g_owner s = None" using assms t by (auto simp: ch_inv_def ch_handles_def)
qed

lemma ch_writer_other:
  assumes g: "ch_guar H j s s'" and "j \<noteq> i" and inv: "ch_inv H s" and "g_writer s = Some i"
  shows "g_writer s' = Some i \<and> ch_sequence s' = ch_sequence s \<and> ch_operation s' = ch_operation s \<and>
    ch_argument s' = ch_argument s \<and> (ch_retired s = ch_sequence s \<longrightarrow> ch_retired s' = ch_sequence s)"
  using g by (cases rule: ch_guar.cases) (use assms in \<open>auto simp: ch_inv_def ch_handles_def\<close>)

lemma ch_pending_other:
  assumes g: "ch_guar H j s s'" and "j \<noteq> i" and inv: "ch_inv H s" and p: "g_pending s = Some i"
  shows "g_pending s' = Some i \<and> ch_sequence s' = ch_sequence s \<and> g_requests s' = g_requests s \<and>
    (ch_acknowledged s = ch_sequence s \<longrightarrow> ch_acknowledged s' = ch_sequence s \<and> ch_result s' = ch_result s \<and> ch_failed s' = ch_failed s)"
  using g
proof (cases rule: ch_guar.cases)
  case publish
  then show ?thesis using ch_idle(1) [OF inv] p by simp
qed (use assms ch_acked [OF inv] in auto)

lemma ch_owner_other:
  assumes g: "ch_guar H j s s'" and "j \<noteq> RECEIVER" and inv: "ch_inv H s" and p: "g_owner s = Some RECEIVER"
  shows "g_owner s' = Some RECEIVER \<and> g_requests s' = g_requests s \<and> ch_operation s' = ch_operation s \<and>
    ch_argument s' = ch_argument s \<and> ch_result s' = ch_result s \<and> ch_failed s' = ch_failed s"
  using g by (cases rule: ch_guar.cases) (use assms ch_owned [OF inv p] in auto)

lemma ch_taken_other:
  assumes "ch_guar H j s s'" and "j \<noteq> RECEIVER"
  shows "ch_taken s' = ch_taken s"
  using assms(1) by (cases rule: ch_guar.cases) (use assms(2) in auto)

lemma ch_sequence_other:
  assumes "ch_guar H j s s'" and "ch_inv H s" and "ch_sequence s' \<noteq> ch_sequence s"
  shows "ch_taken s = ch_sequence s"
  using assms(1) by (cases rule: ch_guar.cases) (use assms(3) ch_idle(4) [OF assms(2)] in auto)

lemma ch_log_other:
  assumes "ch_guar H j s s'"
  shows "\<exists>l. g_log s' = g_log s @ l"
  using assms by (cases rule: ch_guar.cases) auto

definition ch_rely :: "(operation \<times> u64 \<Rightarrow> reply \<Rightarrow> bool) \<Rightarrow> nat \<Rightarrow> channel \<Rightarrow> channel \<Rightarrow> bool" where
  "ch_rely H i = (\<lambda>s s'. \<exists>j. j \<noteq> i \<and> ch_guar H j s s')"

abbreviation ch_safe ::
  "(operation \<times> u64 \<Rightarrow> reply \<Rightarrow> bool) \<Rightarrow> nat \<Rightarrow> (channel \<Rightarrow> bool) \<Rightarrow> (channel, 'a) prog \<Rightarrow> ('a \<Rightarrow> channel \<Rightarrow> bool) \<Rightarrow> bool" where
  "ch_safe H i \<equiv> safe (ch_inv H) (ch_rely H i) (ch_guar H i)"

abbreviation ch_stable :: "(operation \<times> u64 \<Rightarrow> reply \<Rightarrow> bool) \<Rightarrow> nat \<Rightarrow> (channel \<Rightarrow> bool) \<Rightarrow> bool" where
  "ch_stable H i \<equiv> stable_under (ch_inv H) (ch_rely H i)"

text \<open>What the holder of the writer flag, of a pending handle and of a request may know.\<close>

definition writing :: "nat \<Rightarrow> channel \<Rightarrow> bool" where
  "writing i s \<longleftrightarrow> g_writer s = Some i"

definition idle_at :: "nat \<Rightarrow> u64 \<Rightarrow> channel \<Rightarrow> bool" where
  "idle_at i n s \<longleftrightarrow> writing i s \<and> ch_sequence s = n \<and> ch_retired s = n"

definition waiting :: "nat \<Rightarrow> u64 \<Rightarrow> operation \<times> u64 \<Rightarrow> channel \<Rightarrow> bool" where
  "waiting i n q s \<longleftrightarrow> g_pending s = Some i \<and> ch_sequence s = n \<and> last (g_requests s) = q"

definition answered :: "nat \<Rightarrow> u64 \<Rightarrow> operation \<times> u64 \<Rightarrow> channel \<Rightarrow> bool" where
  "answered i n q s \<longleftrightarrow> waiting i n q s \<and> ch_acknowledged s = n"

definition logged :: "operation \<times> u64 \<Rightarrow> reply \<Rightarrow> channel \<Rightarrow> bool" where
  "logged q r s \<longleftrightarrow> (q, r) \<in> set (g_log s)"

lemma ch_sender_stable [simp]:
  "ch_stable H i (writing i)" "ch_stable H i (\<lambda>s. writing i s \<and> ch_sequence s = n)" "ch_stable H i (idle_at i n)"
  "ch_stable H i (\<lambda>s. idle_at i n s \<and> ch_operation s = w)"
  "ch_stable H i (\<lambda>s. (idle_at i n s \<and> ch_operation s = w) \<and> ch_argument s = a)"
  unfolding stable_under_def ch_rely_def writing_def idle_at_def using ch_writer_other by fastforce+

lemma ch_waiting_stable [simp]:
  "ch_stable H i (waiting i n q)" "ch_stable H i (answered i n q)"
  "ch_stable H i (\<lambda>s. answered i n q s \<and> ch_result s = v)"
  "ch_stable H i (\<lambda>s. (answered i n q s \<and> ch_result s = v) \<and> ch_failed s = f)"
  unfolding stable_under_def ch_rely_def waiting_def answered_def using ch_pending_other by fastforce+

lemma ch_logged_stable [simp]: "ch_stable H i (logged q r)"
  unfolding stable_under_def ch_rely_def logged_def using ch_log_other by fastforce

definition owning :: "operation \<times> u64 \<Rightarrow> channel \<Rightarrow> bool" where
  "owning q s \<longleftrightarrow> g_owner s = Some RECEIVER \<and> ch_current s q"

lemma ch_owning_stable [simp]:
  "ch_stable H RECEIVER (\<lambda>s. g_owner s = Some RECEIVER)"
  "ch_stable H RECEIVER (owning q)" "ch_stable H RECEIVER (\<lambda>s. owning q s \<and> ch_taken s = n)"
  unfolding stable_under_def ch_rely_def owning_def ch_current_def using ch_owner_other ch_taken_other by fastforce+

section \<open>The operations keep to the protocol\<close>

lemma ch_armw:
  assumes "\<And>s. ch_inv H s \<Longrightarrow> P s \<Longrightarrow> ch_guar H i s (fst (f s))"
    and "\<And>s. ch_inv H s \<Longrightarrow> P s \<Longrightarrow> ch_inv H (fst (f s)) \<Longrightarrow> post (snd (f s)) (fst (f s))"
    and "\<And>a. ch_stable H i (post a)"
  shows "ch_safe H i P (armw f) post"
  using assms by (intro safe_armw) (auto intro: ch_guar_inv)

lemma ch_store:
  assumes "\<And>s. ch_inv H s \<Longrightarrow> P s \<Longrightarrow> ch_guar H i s (f s)" and "\<And>s. ch_inv H s \<Longrightarrow> P s \<Longrightarrow> ch_inv H (f s) \<Longrightarrow> post (f s)"
    and "ch_stable H i post"
  shows "ch_safe H i P (astore f) (\<lambda>_. post)"
  unfolding astore_armw using assms by (intro ch_armw) auto

lemma ch_load:
  assumes "\<And>s. ch_inv H s \<Longrightarrow> P s \<Longrightarrow> Q (get s) s" and "\<And>a. ch_stable H i (Q a)"
  shows "ch_safe H i P (aload get) Q"
  by (rule safe_aload) (use assms in \<open>auto intro: ch_guar.same\<close>)

lemma publish_request_safe:
  assumes i: "i \<noteq> RECEIVER" and q: "checked_add old 1 = Some sequence"
  shows "ch_safe H i (idle_at i old) (publish_request i op arg sequence)
    (\<lambda>r s. \<exists>p. r = Ok p \<and> p = \<lparr>pd_sequence = sequence, pd_completed = False\<rparr> \<and> writing i s \<and> waiting i sequence (op, arg) s)"
proof -
  have a: "ch_safe H i (idle_at i old) (astore (ch_operation_update (\<lambda>_. operation_code op)))
      (\<lambda>_ s. idle_at i old s \<and> ch_operation s = operation_code op)"
    by (rule ch_store [OF _ _ ch_sender_stable(4)]) (use i in \<open>auto simp: idle_at_def writing_def intro: ch_guar.set_operation\<close>)
  have b: "ch_safe H i (\<lambda>s. idle_at i old s \<and> ch_operation s = operation_code op) (astore (ch_argument_update (\<lambda>_. arg)))
      (\<lambda>_ s. (idle_at i old s \<and> ch_operation s = operation_code op) \<and> ch_argument s = arg)"
    by (rule ch_store [OF _ _ ch_sender_stable(5)]) (use i in \<open>auto simp: idle_at_def writing_def intro: ch_guar.set_argument\<close>)
  have c: "ch_safe H i (\<lambda>s. (idle_at i old s \<and> ch_operation s = operation_code op) \<and> ch_argument s = arg)
      (astore (\<lambda>s. s\<lparr>ch_sequence := sequence, g_pending := Some i, g_requests := g_requests s @ [(op, arg)]\<rparr>))
      (\<lambda>_ s. writing i s \<and> waiting i sequence (op, arg) s)"
  proof (rule ch_store)
    show "ch_stable H i (\<lambda>s. writing i s \<and> waiting i sequence (op, arg) s)" by (intro stable_under_conj) simp_all
  qed (use i q in \<open>auto simp: idle_at_def writing_def waiting_def intro!: ch_guar.publish\<close>)
  show ?thesis unfolding publish_request_def
    by (rule safe_pbind [OF a], rule safe_pbind [OF b], rule safe_pbind [OF c], rule safe_Ret) simp
qed

lemma submit_safe:
  assumes i: "i \<noteq> RECEIVER"
  shows "ch_safe H i (\<lambda>_. True) (submit i op arg)
    (\<lambda>r s. r \<noteq> Panic \<and> (\<forall>p. r = Ok p \<longrightarrow> \<not> pd_completed p \<and> waiting i (pd_sequence p) (op, arg) s))" (is "ch_safe _ _ _ _ ?post")
proof -
  let ?mid = "\<lambda>r s. writing i s \<and> r \<noteq> Panic \<and> (\<forall>p. r = Ok p \<longrightarrow> \<not> pd_completed p \<and> waiting i (pd_sequence p) (op, arg) s)"
  have lock: "ch_safe H i (\<lambda>_. True) (armw (\<lambda>s. if ch_writer s then (s, False) else (s\<lparr>ch_writer := True, g_writer := Some i\<rparr>, True)))
      (\<lambda>won s. won \<longrightarrow> writing i s)"
    by (rule ch_armw) (use i in \<open>auto simp: writing_def [of i] intro: ch_guar.same ch_guar.lock\<close>, simp add: writing_def [symmetric])
  have seq: "ch_safe H i (writing i) (aload ch_sequence) (\<lambda>old s. writing i s \<and> ch_sequence s = old)"
    by (rule ch_load) auto
  have ret: "ch_safe H i (\<lambda>s. writing i s \<and> ch_sequence s = old) (aload ch_retired)
      (\<lambda>retired s. writing i s \<and> (retired = old \<longrightarrow> idle_at i old s))" for old
  proof (rule ch_load)
    show "ch_stable H i (\<lambda>s. writing i s \<and> (retired = old \<longrightarrow> idle_at i old s))" for retired
      by (intro stable_under_conj stable_under_imp ch_sender_stable)
  qed (simp add: idle_at_def)
  have body: "ch_safe H i (\<lambda>s. writing i s \<and> (retired = old \<longrightarrow> idle_at i old s)) (if retired \<noteq> old then Ret (Err Busy)
      else case checked_add old 1 of Some sequence \<Rightarrow> publish_request i op arg sequence | None \<Rightarrow> Ret (Err Exhausted)) ?mid"
    for retired old
  proof (intro safe_if)
    show "ch_safe H i (\<lambda>s. writing i s \<and> (retired = old \<longrightarrow> idle_at i old s)) (Ret (Err Busy)) ?mid" by (rule safe_Ret) simp
    assume "\<not> retired \<noteq> old"
    then show "ch_safe H i (\<lambda>s. writing i s \<and> (retired = old \<longrightarrow> idle_at i old s))
      (case checked_add old 1 of Some sequence \<Rightarrow> publish_request i op arg sequence | None \<Rightarrow> Ret (Err Exhausted)) ?mid"
    proof (cases "checked_add old 1")
      case (Some sequence)
      show ?thesis unfolding Some option.case
        by (rule safe_post [OF safe_weaken [OF publish_request_safe [OF i Some]]]) (use \<open>\<not> retired \<noteq> old\<close> in auto)
    qed (auto intro!: safe_Ret)
  qed
  have unlock: "ch_safe H i (?mid r) (astore (\<lambda>s. s\<lparr>ch_writer := False, g_writer := None\<rparr>)) (\<lambda>_. ?post r)" for r
  proof (rule ch_store)
    show "ch_stable H i (?post r)" by (cases r) simp_all
  qed (use i in \<open>auto simp: writing_def waiting_def intro: ch_guar.unlock\<close>)
  show ?thesis unfolding submit_def
  proof (rule safe_pbind [OF lock], rule safe_if)
    fix won assume "\<not> \<not> won"
    then have "(\<lambda>s. won \<longrightarrow> writing i s) = writing i" by auto
    then show "ch_safe H i (\<lambda>s. won \<longrightarrow> writing i s) (pbind (aload ch_sequence) (\<lambda>old. pbind (aload ch_retired) (\<lambda>retired.
          pbind (if retired \<noteq> old then Ret (Err Busy)
                 else case checked_add old 1 of Some sequence \<Rightarrow> publish_request i op arg sequence | None \<Rightarrow> Ret (Err Exhausted)) (\<lambda>result.
          pbind (astore (\<lambda>s. s\<lparr>ch_writer := False, g_writer := None\<rparr>)) (\<lambda>_. Ret result))))) ?post"
      by (simp, intro safe_pbind [OF seq] safe_pbind [OF ret] safe_pbind [OF body] safe_pbind [OF unlock] safe_Ret)
  qed (auto intro: safe_Ret)
qed

lemma try_result_safe:
  assumes i: "i \<noteq> RECEIVER" and "\<not> pd_completed p"
  shows "ch_safe H i (waiting i (pd_sequence p) q) (try_result p)
    (\<lambda>(r, p') s. r = Ok None \<and> p' = p \<and> waiting i (pd_sequence p) q s \<or> (\<exists>rep. r = Ok (Some rep) \<and> H q rep \<and> logged q rep s))"
    (is "ch_safe _ _ _ _ ?post")
proof -
  let ?n = "pd_sequence p"
  have a: "ch_safe H i (waiting i ?n q) (aload ch_acknowledged) (\<lambda>a s. waiting i ?n q s \<and> (a = ?n \<longrightarrow> answered i ?n q s))"
  proof (rule ch_load)
    show "ch_stable H i (\<lambda>s. waiting i ?n q s \<and> (a = ?n \<longrightarrow> answered i ?n q s))" for a
      by (intro stable_under_conj stable_under_imp ch_waiting_stable)
  qed (simp add: answered_def)
  have b: "ch_safe H i (answered i ?n q) (aload ch_result) (\<lambda>v s. answered i ?n q s \<and> ch_result s = v)"
    by (rule ch_load) auto
  have c: "ch_safe H i (\<lambda>s. answered i ?n q s \<and> ch_result s = v) (aload ch_failed)
      (\<lambda>f s. (answered i ?n q s \<and> ch_result s = v) \<and> ch_failed s = f)" for v
    by (rule ch_load [OF _ ch_waiting_stable(4)]) auto
  have logs: "H q \<lparr>reply_value = ch_result s, reply_failed = ch_failed s\<rparr> \<and> logged q \<lparr>reply_value = ch_result s, reply_failed = ch_failed s\<rparr> s"
    if inv: "ch_inv H s" and an: "answered i ?n q s" for s
  proof -
    have seq: "ch_acknowledged s = ch_sequence s" "last (g_requests s) = q" "ch_retired s \<noteq> ch_sequence s"
      using an inv by (auto simp: answered_def waiting_def ch_inv_def ch_handles_def)
    have t: "ch_taken s = ch_acknowledged s" using ch_acked [OF inv seq(1)] seq(1) by simp
    have m: "map fst (g_log s) = g_requests s" "g_requests s \<noteq> []"
      using inv seq by (auto simp: ch_inv_def ch_logged_def ch_current_def)
    then have ne: "g_log s \<noteq> []" by auto
    have "length (g_log s) = unat (ch_acknowledged s)" using inv seq m by (metis ch_inv_def ch_logged_def length_map)
    then have "ch_acknowledged s \<noteq> 0" using ne by auto
    then have "snd (last (g_log s)) = \<lparr>reply_value = ch_result s, reply_failed = ch_failed s\<rparr>"
      using inv t unfolding ch_inv_def ch_logged_def by simp
    moreover have "fst (last (g_log s)) = q" using m ne seq(2) by (metis last_map)
    ultimately have "last (g_log s) = (q, \<lparr>reply_value = ch_result s, reply_failed = ch_failed s\<rparr>)" by (metis prod.collapse)
    then show ?thesis using last_in_set [OF ne] inv unfolding logged_def ch_inv_def ch_logged_def by auto
  qed
  have d: "ch_safe H i (\<lambda>s. (answered i ?n q s \<and> ch_result s = v) \<and> ch_failed s = f)
      (astore (\<lambda>s. s\<lparr>ch_retired := ?n, g_pending := None\<rparr>))
      (\<lambda>_ s. H q \<lparr>reply_value = v, reply_failed = f\<rparr> \<and> logged q \<lparr>reply_value = v, reply_failed = f\<rparr> s)" for v f
  proof (rule ch_store)
    fix s assume inv: "ch_inv H s" and k: "(answered i ?n q s \<and> ch_result s = v) \<and> ch_failed s = f"
    have an: "?n = ch_sequence s" "g_pending s = Some i" "ch_acknowledged s = ch_sequence s"
      using k by (auto simp: answered_def waiting_def)
    show "ch_guar H i s (s\<lparr>ch_retired := ?n, g_pending := None\<rparr>)" unfolding an(1) by (rule ch_guar.retire [OF i an(2,3)])
    show "H q \<lparr>reply_value = v, reply_failed = f\<rparr> \<and> logged q \<lparr>reply_value = v, reply_failed = f\<rparr> (s\<lparr>ch_retired := ?n, g_pending := None\<rparr>)"
      using logs [OF inv] k by (auto simp: logged_def)
  qed simp
  show ?thesis unfolding try_result_def using assms(2)
    by (simp, intro safe_pbind [OF a] safe_if) (auto intro!: safe_Ret safe_weaken [OF safe_pbind [OF b]] safe_pbind [OF c] safe_pbind [OF d])
qed

lemma poll_result_safe:
  assumes i: "i \<noteq> RECEIVER" and "\<not> pd_completed p"
  shows "ch_safe H i (waiting i (pd_sequence p) q) (poll_result p n)
    (\<lambda>r s. r = Ok None \<or> (\<exists>rep. r = Ok (Some rep) \<and> H q rep \<and> logged q rep s))"
  using assms(2)
proof (induction n)
  case (Suc n)
  show ?case unfolding poll_result.simps
    by (rule safe_pbind [OF try_result_safe [OF i Suc.prems]])
      (auto intro!: safe_Ret safe_pure split: prod.splits intro: Suc.IH [OF Suc.prems])
qed (auto intro: safe_Ret)

lemma session_safe:
  assumes i: "i \<noteq> RECEIVER"
  shows "ch_safe H i (\<lambda>_. True) (session i op arg n)
    (\<lambda>r s. r \<noteq> Panic \<and> (\<forall>rep. r = Ok (Some rep) \<longrightarrow> H (op, arg) rep \<and> logged (op, arg) rep s))"
  unfolding session_def
proof (rule safe_pthen [OF submit_safe [OF i]])
  fix p
  show "ch_safe H i (\<lambda>s. Ok p \<noteq> Panic \<and> (\<forall>p'. Ok p = Ok p' \<longrightarrow> \<not> pd_completed p' \<and> waiting i (pd_sequence p') (op, arg) s))
      (poll_result p n) (\<lambda>r s. r \<noteq> Panic \<and> (\<forall>rep. r = Ok (Some rep) \<longrightarrow> H (op, arg) rep \<and> logged (op, arg) rep s))"
  proof (cases "pd_completed p")
    case False
    show ?thesis by (rule safe_post [OF safe_weaken [OF poll_result_safe [OF i False]]]) auto
  qed simp
qed auto

lemma decode_operation_code [simp]: "decode_operation (operation_code op) = Ok op"
  by (cases op) (simp_all add: decode_operation_def)

text \<open>The receiver's view of the counters before its compare-exchange.\<close>

definition sighted :: "u64 \<Rightarrow> channel \<Rightarrow> bool" where
  "sighted n s \<longleftrightarrow> unat (ch_taken s) \<le> unat n \<and> (ch_sequence s = n \<or> ch_taken s = n)"

lemma sighted_stable [simp]: "ch_stable H RECEIVER (sighted n)" "ch_stable H RECEIVER (\<lambda>s. sighted n s \<and> ch_taken s = t)"
  unfolding stable_under_def ch_rely_def sighted_def using ch_taken_other ch_sequence_other by metis+

lemma take_request_safe:
  "ch_safe H RECEIVER (\<lambda>_. True) (take_request RECEIVER)
     (\<lambda>r s. \<exists>x. r = Ok x \<and> (\<forall>rq. x = Some rq \<longrightarrow> owning (rq_operation rq, rq_argument rq) s \<and> ch_taken s = rq_sequence rq))"
    (is "ch_safe _ _ _ _ ?post")
proof -
  have a: "ch_safe H RECEIVER (\<lambda>_. True) (aload ch_sequence) sighted"
    by (rule ch_load) (auto simp: sighted_def [of _ s for s] ch_inv_def ch_counted_def)
  have b: "ch_safe H RECEIVER (sighted n) (aload ch_taken) (\<lambda>t s. sighted n s \<and> ch_taken s = t)" for n
    by (rule ch_load) auto
  have c: "ch_safe H RECEIVER (\<lambda>s. sighted n s \<and> ch_taken s = t)
      (armw (\<lambda>s. if ch_taken s = t then (s\<lparr>ch_taken := n, g_owner := Some RECEIVER\<rparr>, True) else (s, False)))
      (\<lambda>won s. won \<longrightarrow> g_owner s = Some RECEIVER \<and> ch_taken s = n)" if "n \<noteq> t" for n t
  proof (rule ch_armw)
    show "ch_stable H RECEIVER (\<lambda>s. won \<longrightarrow> g_owner s = Some RECEIVER \<and> ch_taken s = n)" for won
      unfolding stable_under_def ch_rely_def using ch_owner_other ch_taken_other by metis
    show "ch_guar H RECEIVER s (fst (if ch_taken s = t then (s\<lparr>ch_taken := n, g_owner := Some RECEIVER\<rparr>, True) else (s, False)))"
      if "sighted n s \<and> ch_taken s = t" for s
      using that \<open>n \<noteq> t\<close> ch_guar.take_it [of s H] by (auto simp: sighted_def)
  qed auto
  have d: "ch_safe H RECEIVER (\<lambda>s. g_owner s = Some RECEIVER \<and> ch_taken s = n) (aload ch_operation)
      (\<lambda>w s. \<exists>q. (owning q s \<and> ch_taken s = n) \<and> w = operation_code (fst q))" for n
  proof (rule ch_load)
    show "ch_stable H RECEIVER (\<lambda>s. \<exists>q. (owning q s \<and> ch_taken s = n) \<and> w = operation_code (fst q))" for w
      using ch_owning_stable(3) unfolding stable_under_def by metis
    show "\<exists>q. (owning q s \<and> ch_taken s = n) \<and> ch_operation s = operation_code (fst q)"
      if "ch_inv H s" "g_owner s = Some RECEIVER \<and> ch_taken s = n" for s
      using that ch_owned [OF that(1)] unfolding owning_def ch_inv_def ch_logged_def ch_current_def by auto
  qed
  have e: "ch_safe H RECEIVER (\<lambda>s. owning q s \<and> ch_taken s = n) (aload ch_argument)
      (\<lambda>arg s. (owning q s \<and> ch_taken s = n) \<and> arg = snd q)" for n q
    by (rule ch_load [OF _ stable_under_conj [OF ch_owning_stable(3) stable_under_const]]) (simp add: owning_def ch_current_def)
  have f: "ch_safe H RECEIVER (\<lambda>s. \<exists>q. (owning q s \<and> ch_taken s = n) \<and> w = operation_code (fst q))
      (pthen (Ret (decode_operation w)) (\<lambda>op. pbind (aload ch_argument) (\<lambda>arg.
          Ret (Ok (Some \<lparr>rq_sequence = n, rq_operation = op, rq_argument = arg\<rparr>))))) ?post" for n w
  proof (rule safe_ex)
    fix q
    show "ch_safe H RECEIVER (\<lambda>s. (owning q s \<and> ch_taken s = n) \<and> w = operation_code (fst q))
      (pthen (Ret (decode_operation w)) (\<lambda>op. pbind (aload ch_argument) (\<lambda>arg.
          Ret (Ok (Some \<lparr>rq_sequence = n, rq_operation = op, rq_argument = arg\<rparr>))))) ?post"
    proof (cases "w = operation_code (fst q)")
      case True
      then show ?thesis by (auto simp: pthen_def intro!: safe_pbind [OF e [of q n]] safe_Ret)
    qed simp
  qed
  have g: "ch_safe H RECEIVER (\<lambda>s. won \<longrightarrow> g_owner s = Some RECEIVER \<and> ch_taken s = n) (if \<not> won then Ret (Ok None)
      else pbind (aload ch_operation) (\<lambda>w. pthen (Ret (decode_operation w)) (\<lambda>op. pbind (aload ch_argument) (\<lambda>arg.
          Ret (Ok (Some \<lparr>rq_sequence = n, rq_operation = op, rq_argument = arg\<rparr>)))))) ?post" for won n
    using safe_pbind [OF d f] by (cases won) (auto intro!: safe_Ret)
  show ?thesis unfolding take_request_def
    by (rule safe_pbind [OF a], rule safe_pbind [OF b], rule safe_if) (auto intro!: safe_Ret safe_pbind [OF c g])
qed

lemma acknowledge_request_safe:
  assumes "H (rq_operation rq, rq_argument rq) r"
  shows "ch_safe H RECEIVER (\<lambda>s. owning (rq_operation rq, rq_argument rq) s \<and> ch_taken s = rq_sequence rq)
    (acknowledge_request rq r) (\<lambda>_ _. True)"
proof -
  let ?q = "(rq_operation rq, rq_argument rq)" let ?n = "rq_sequence rq"
  have own: "ch_stable H RECEIVER (\<lambda>s. (owning ?q s \<and> ch_taken s = ?n) \<and> ch_result s = v)"
    "ch_stable H RECEIVER (\<lambda>s. ((owning ?q s \<and> ch_taken s = ?n) \<and> ch_result s = v) \<and> ch_failed s = f)" for v f
    unfolding stable_under_def ch_rely_def owning_def ch_current_def using ch_owner_other ch_taken_other by fastforce+
  have a: "ch_safe H RECEIVER (\<lambda>s. owning ?q s \<and> ch_taken s = ?n) (astore (ch_result_update (\<lambda>_. reply_value r)))
      (\<lambda>_ s. (owning ?q s \<and> ch_taken s = ?n) \<and> ch_result s = reply_value r)"
    by (rule ch_store [OF _ _ own(1)]) (auto simp: owning_def ch_current_def intro: ch_guar.set_result)
  have b: "ch_safe H RECEIVER (\<lambda>s. (owning ?q s \<and> ch_taken s = ?n) \<and> ch_result s = reply_value r) (astore (ch_failed_update (\<lambda>_. reply_failed r)))
      (\<lambda>_ s. ((owning ?q s \<and> ch_taken s = ?n) \<and> ch_result s = reply_value r) \<and> ch_failed s = reply_failed r)"
    by (rule ch_store [OF _ _ own(2)]) (auto simp: owning_def ch_current_def intro: ch_guar.set_failed)
  have c: "ch_safe H RECEIVER (\<lambda>s. ((owning ?q s \<and> ch_taken s = ?n) \<and> ch_result s = reply_value r) \<and> ch_failed s = reply_failed r)
      (astore (\<lambda>s. s\<lparr>ch_acknowledged := ?n, g_owner := None, g_log := g_log s @ [(?q, r)]\<rparr>)) (\<lambda>_ _. True)"
  proof (rule ch_store)
    fix s assume k: "((owning ?q s \<and> ch_taken s = ?n) \<and> ch_result s = reply_value r) \<and> ch_failed s = reply_failed r"
    then have "g_owner s = Some RECEIVER" "last (g_requests s) = ?q" "?n = ch_taken s" "r = \<lparr>reply_value = ch_result s, reply_failed = ch_failed s\<rparr>"
      by (auto simp: owning_def ch_current_def)
    then show "ch_guar H RECEIVER s (s\<lparr>ch_acknowledged := ?n, g_owner := None, g_log := g_log s @ [(?q, r)]\<rparr>)"
      using ch_guar.ack [of s H] assms by simp
  qed simp_all
  show ?thesis unfolding acknowledge_request_def by (rule safe_pbind [OF a], rule safe_pbind [OF b], rule c)
qed

lemma serve_safe:
  assumes "handler_ok H f"
  shows "ch_safe H RECEIVER (\<lambda>_. True) (serve RECEIVER f) (\<lambda>r _. r = Ok ())"
  unfolding serve_def
proof (rule safe_pthen [OF take_request_safe])
  fix x
  let ?P = "\<lambda>s. \<exists>x'. (Ok x :: (request option, channel_error) outcome) = Ok x' \<and> (\<forall>rq. x' = Some rq \<longrightarrow> owning (rq_operation rq, rq_argument rq) s \<and> ch_taken s = rq_sequence rq)"
  show "ch_safe H RECEIVER ?P (case x of None \<Rightarrow> Ret (Ok ()) | Some rq \<Rightarrow> (case f (rq_operation rq) (rq_argument rq) of
         None \<Rightarrow> Ret (Ok ()) | Some r \<Rightarrow> pbind (acknowledge_request rq r) (\<lambda>_. Ret (Ok ())))) (\<lambda>r _. r = Ok ())"
  proof (cases x)
    case (Some rq)
    show ?thesis
    proof (cases "f (rq_operation rq) (rq_argument rq)")
      case r: (Some r)
      have "H (rq_operation rq, rq_argument rq) r" using assms r by (simp add: handler_ok_def)
      note ack = acknowledge_request_safe [where H = H and rq = rq and r = r, OF this]
      show ?thesis using Some r by (auto intro!: safe_pbind [OF ack] safe_Ret)
    qed (use Some in \<open>auto intro: safe_Ret\<close>)
  qed (auto intro: safe_Ret)
qed auto

interpretation ch: shared_protocol "ch_inv H" "ch_guar H" "ch_api H"
proof
  show "ch_inv H s \<Longrightarrow> ch_guar H i s s' \<Longrightarrow> ch_inv H s'" for s i s' by (rule ch_guar_inv)
  show "safe (ch_inv H) (\<lambda>s s'. \<exists>j. j \<noteq> i \<and> ch_guar H j s s') (ch_guar H i) (\<lambda>_. True) p (\<lambda>_ _. True)" if "ch_api H i p" for i p
    using that unfolding ch_api_def ch_rely_def [symmetric]
    by (auto intro: safe_discard [OF session_safe] safe_discard [OF serve_safe])
qed

section \<open>Correctness\<close>

text \<open>
  C6: the management channel. While other senders and the receiver run in any
  interleaving, a sender never panics and a reply it receives is one the receiver computed
  for exactly this operation and argument; the receiver never reaches its
  \<open>unreachable!()\<close>. The receiver answers the requests in the order they were published,
  each once, with the operation and argument that were published.
\<close>

theorem management_channel_correct:
  assumes "(istep (ch_api H))\<^sup>*\<^sup>* (channel_new, \<lambda>_. Ret ()) (s, pool)"
  shows "(\<exists>rest. g_requests s = map fst (g_log s) @ rest \<and> length rest \<le> 1) \<and>
    (\<forall>i op arg n r t. i \<noteq> RECEIVER \<and> exec (ch_rely H i) (session i op arg n) s r t \<longrightarrow>
       r \<noteq> Panic \<and> (\<forall>rep. r = Ok (Some rep) \<longrightarrow> H (op, arg) rep \<and> ((op, arg), rep) \<in> set (g_log t))) \<and>
    (\<forall>f r t. handler_ok H f \<and> exec (ch_rely H RECEIVER) (serve RECEIVER f) s r t \<longrightarrow> r = Ok ())"
proof -
  have inv: "ch_inv H s" using ch.reachable_inv [OF channel_new_inv refl assms] .
  let ?a = "unat (ch_acknowledged s)"
  have "g_requests s = map fst (g_log s) @ drop ?a (g_requests s)"
    using inv by (metis append_take_drop_id ch_inv_def ch_logged_def)
  moreover have "length (drop ?a (g_requests s)) \<le> 1"
    using inv by (auto simp: ch_inv_def ch_logged_def ch_counted_def)
  moreover have "r \<noteq> Panic \<and> (\<forall>rep. r = Ok (Some rep) \<longrightarrow> H (op, arg) rep \<and> ((op, arg), rep) \<in> set (g_log t))"
    if "i \<noteq> RECEIVER" "exec (ch_rely H i) (session i op arg n) s r t" for i op arg n r t
    using ch.exec_ok [where P = "\<lambda>_. True", OF that(2) [unfolded ch_rely_def] inv TrueI session_safe [OF that(1), unfolded ch_rely_def]]
    by (simp add: logged_def)
  moreover have "r = Ok ()" if "handler_ok H f" "exec (ch_rely H RECEIVER) (serve RECEIVER f) s r t" for f r t
    using ch.exec_ok [where P = "\<lambda>_. True", OF that(2) [unfolded ch_rely_def] inv TrueI serve_safe [OF that(1), unfolded ch_rely_def]]
    by simp
  ultimately show ?thesis by blast
qed

theorem management_channel_correct_witness:
  "\<exists>s pool. (istep (ch_api (\<lambda>(op, arg) r. reply_value r = arg)))\<^sup>*\<^sup>* (channel_new, \<lambda>_. Ret ()) (s, pool) \<and>
     g_log s = [((Ping, 7), \<lparr>reply_value = 7, reply_failed = False\<rparr>)] \<and>
     (\<exists>rest. g_requests s = map fst (g_log s) @ rest \<and> length rest \<le> 1)"
proof -
  let ?H = "\<lambda>(op, arg) r. reply_value r = arg" let ?f = "\<lambda>(_ :: operation) arg. Some \<lparr>reply_value = arg, reply_failed = False\<rparr>"
  let ?a = "snd (run (discard (session 1 Ping 7 1)) channel_new)" let ?s = "snd (run (discard (serve RECEIVER ?f)) ?a)"
  have "handler_ok ?H ?f" by (simp add: handler_ok_def)
  then have api: "ch_api ?H 1 (discard (session 1 Ping 7 1))" "ch_api ?H RECEIVER (discard (serve RECEIVER ?f))"
    unfolding ch_api_def by (auto simp: RECEIVER_def)
  have r: "(istep (ch_api ?H))\<^sup>*\<^sup>* (channel_new, \<lambda>_. Ret ()) (?s, \<lambda>_. Ret ())"
    using run_isteps [where api = "ch_api ?H" and i = 1 and pool = "\<lambda>_. Ret ()" and s = channel_new, OF api(1) refl]
      run_isteps [where api = "ch_api ?H" and i = RECEIVER and pool = "\<lambda>_. Ret ()" and s = ?a, OF api(2) refl] by (rule rtranclp_trans)
  have "g_log ?s = [((Ping, 7), \<lparr>reply_value = 7, reply_failed = False\<rparr>)]"
    by (simp add: session_def submit_def publish_request_def try_result_def serve_def take_request_def acknowledge_request_def
        prog_defs run_pbind channel_new_def checked_add_def decode_operation_def)
  then show ?thesis using management_channel_correct [OF r] r by blast
qed

end
