(* ===== verification/Linux_Boot.thy ===== *)
theory Linux_Boot
  imports Guest_Platform
begin

text \<open>
  The arm64 Linux \<open>Image\<close> header and the guest boot layout (\<open>tvisor_util/linux_boot.rs\<close>):
  where the kernel, the generated device tree and the initrd go in guest RAM, and the
  registers of the first instruction.
\<close>

definition LINUX_IMAGE_BASE_ALIGNMENT :: u64 where "LINUX_IMAGE_BASE_ALIGNMENT = 2 * 1024 * 1024"
definition LINUX_DTB_CAPACITY :: u64 where "LINUX_DTB_CAPACITY = 2 * 1024 * 1024"
definition LINUX_IMAGE_HEADER_SIZE :: nat where "LINUX_IMAGE_HEADER_SIZE = 64"
definition LINUX_IMAGE_MAGIC :: u32 where "LINUX_IMAGE_MAGIC = 0x644d5241"

datatype linux_image_error = HeaderTooSmall | BadMagic | LegacyImageSize | LiImageTooLarge | BigEndianImage

record linux_image_header =
  text_offset :: u64
  image_size :: u64
  hdr_flags :: u64

text \<open>\<open>from_le_bytes\<close> of the integer types, and a slice with its bounds check.\<close>

fun from_le_bytes :: "u8 list \<Rightarrow> 'a::len word" where
  "from_le_bytes [] = 0"
| "from_le_bytes (b # bs) = ucast b OR push_bit 8 (from_le_bytes bs)"

definition slice :: "nat \<Rightarrow> nat \<Rightarrow> 'a list \<Rightarrow> ('a list, 'e) outcome" where
  "slice a b xs = (if a \<le> b \<and> b \<le> length xs then Ok (take (b - a) (drop a xs)) else Panic)"

definition header_parse :: "u8 list \<Rightarrow> (linux_image_header, linux_image_error) outcome" where
  "header_parse img =
     (if length img < LINUX_IMAGE_HEADER_SIZE then Err HeaderTooSmall
      else and_then (slice 56 60 img) (\<lambda>m.
        if from_le_bytes m \<noteq> LINUX_IMAGE_MAGIC then Err BadMagic
        else and_then (slice 8 16 img) (\<lambda>t. and_then (slice 16 24 img) (\<lambda>z. and_then (slice 24 32 img) (\<lambda>f.
        let text_offset = from_le_bytes t; image_size = from_le_bytes z; flags = from_le_bytes f in
        if flags AND 1 \<noteq> 0 then Err BigEndianImage
        else if image_size = 0 then Err LegacyImageSize
        else if word_of_nat (length img) > image_size then Err LiImageTooLarge
        else Ok \<lparr>text_offset = text_offset, image_size = image_size, hdr_flags = flags\<rparr>)))))"

definition page_size_encoding :: "linux_image_header \<Rightarrow> u8" where
  "page_size_encoding h = ucast (drop_bit 1 (hdr_flags h) AND 0x3)"

definition requires_48bit_placement :: "linux_image_header \<Rightarrow> bool" where
  "requires_48bit_placement h \<longleftrightarrow> hdr_flags h AND push_bit 3 1 \<noteq> 0"

datatype linux_boot_layout_error = LbImage linux_image_error | InvalidRam | LbImageTooLarge | DtbTooLarge
  | InitrdTooLarge | LbAddressOverflow

record linux_boot_layout =
  ram_ipa :: u64
  ram_size :: u64
  image_header :: linux_image_header
  image_ipa :: u64
  dtb_ipa :: u64
  layout_initrd :: "(u64 \<times> u64) option"

definition boot_align_up :: "u64 \<Rightarrow> u64 \<Rightarrow> (u64, linux_boot_layout_error) outcome" where
  "boot_align_up v alignment =
     (let remainder = v mod alignment in
      if remainder = 0 then Ok v else ok_or LbAddressOverflow (checked_add v (alignment - remainder)))"

definition place_initrd :: "u64 option \<Rightarrow> u64 \<Rightarrow> u64 \<Rightarrow> ((u64 \<times> u64) option, linux_boot_layout_error) outcome" where
  "place_initrd initrd_size dtb_end ram_end =
     (case initrd_size of
        None \<Rightarrow> Ok None
      | Some sz \<Rightarrow>
          if sz = 0 then Ok None
          else and_then (boot_align_up dtb_end PAGE_SIZE) (\<lambda>initrd_ipa.
               and_then (boot_align_up sz PAGE_SIZE) (\<lambda>len.
               and_then (ok_or LbAddressOverflow (checked_add initrd_ipa len)) (\<lambda>stop.
               if stop > ram_end then Err InitrdTooLarge else Ok (Some (initrd_ipa, sz))))))"

definition layout_new :: "u8 list \<Rightarrow> u64 \<Rightarrow> u64 \<Rightarrow> u64 option \<Rightarrow> (linux_boot_layout, linux_boot_layout_error) outcome" where
  "layout_new img ram sz initrd_size =
     and_then (map_err LbImage (header_parse img)) (\<lambda>h.
     if \<not> is_aligned ram LINUX_IMAGE_BASE_ALIGNMENT \<or> \<not> is_page_aligned sz then Err InvalidRam
     else and_then (ok_or LbAddressOverflow (checked_add ram sz)) (\<lambda>ram_end.
          and_then (ok_or LbAddressOverflow (checked_add ram (text_offset h))) (\<lambda>image_ipa.
          and_then (ok_or LbAddressOverflow (checked_add image_ipa (image_size h))) (\<lambda>image_end.
          if image_ipa < ram \<or> image_end > ram_end then Err LbImageTooLarge
          else if requires_48bit_placement h \<and> image_end > push_bit 48 1 then Err LbImageTooLarge
          else and_then (boot_align_up image_end 8) (\<lambda>dtb.
               and_then (ok_or LbAddressOverflow (checked_add dtb LINUX_DTB_CAPACITY)) (\<lambda>dtb_end.
               if dtb_end > ram_end then Err DtbTooLarge
               else and_then (place_initrd initrd_size dtb_end ram_end) (\<lambda>initrd.
                 Ok \<lparr>ram_ipa = ram, ram_size = sz, image_header = h, image_ipa = image_ipa, dtb_ipa = dtb,
                      layout_initrd = initrd\<rparr>)))))))"

definition default_for_image :: "u8 list \<Rightarrow> u64 option \<Rightarrow> (linux_boot_layout, linux_boot_layout_error) outcome" where
  "default_for_image img initrd_size = layout_new img (ipa_start GUEST_RAM) (ipa_size GUEST_RAM) initrd_size"

definition layout_ram :: "linux_boot_layout \<Rightarrow> u64 \<times> u64" where
  "layout_ram l = (ram_ipa l, ram_size l)"

definition layout_image :: "linux_boot_layout \<Rightarrow> u64 \<times> u64" where
  "layout_image l = (image_ipa l, image_size (image_header l))"

definition layout_dtb :: "linux_boot_layout \<Rightarrow> u64 \<times> u64" where
  "layout_dtb l = (dtb_ipa l, LINUX_DTB_CAPACITY)"

record linux_boot_registers =
  boot_pc :: u64
  boot_x0 :: u64
  boot_x1 :: u64
  boot_x2 :: u64
  boot_x3 :: u64

definition initial_registers :: "linux_boot_layout \<Rightarrow> linux_boot_registers" where
  "initial_registers l = \<lparr>boot_pc = image_ipa l, boot_x0 = dtb_ipa l, boot_x1 = 0, boot_x2 = 0, boot_x3 = 0\<rparr>"

section \<open>Meaning on natural numbers\<close>

definition ceil_to :: "nat \<Rightarrow> nat \<Rightarrow> nat" where
  "ceil_to k n = (if n mod k = 0 then n else n + (k - n mod k))"

lemma ceil_to_ge: "n \<le> ceil_to k n"
  by (simp add: ceil_to_def)

lemma ceil_to_dvd: "0 < k \<Longrightarrow> k dvd ceil_to k n"
proof (cases "n mod k = 0")
  case False
  assume "0 < k"
  have "n mod k < k" "n = n div k * k + n mod k" using \<open>0 < k\<close> by simp_all
  then have "n + (k - n mod k) = n div k * k + k" by linarith
  then have "ceil_to k n = (n div k + 1) * k" using False by (simp add: ceil_to_def)
  then show ?thesis by simp
qed (auto simp: ceil_to_def)

lemma boot_align_up_eq:
  assumes "k \<noteq> 0"
  shows "boot_align_up v k = (if ceil_to (unat k) (unat v) < 2 ^ 64 then Ok (word_of_nat (ceil_to (unat k) (unat v))) else Err LbAddressOverflow)"
proof (cases "unat v mod unat k = 0")
  case True
  then have "v mod k = 0" by (simp add: word_unat_eq_iff unat_mod)
  then show ?thesis using True unat_u64_bound [of v] by (simp add: boot_align_up_def ceil_to_def)
next
  case False
  then have "v mod k \<noteq> 0" by (metis unat_0 unat_mod)
  moreover have "v mod k \<le> k" using assms by (metis order_less_imp_le word_mod_less_divisor word_neq_0_conv)
  then have u: "unat (k - v mod k) = unat k - unat v mod unat k" by (simp add: unat_sub unat_mod)
  moreover have "word_of_nat (unat v + (unat k - unat v mod unat k)) = v + (k - v mod k)"
    unfolding u [symmetric] of_nat_add by simp
  ultimately show ?thesis using False by (simp add: boot_align_up_def ceil_to_def checked_add_def)
qed

text \<open>Where everything ends, as natural numbers: the layout fits exactly when this is at most the end of RAM.\<close>

definition layout_end :: "linux_image_header \<Rightarrow> nat \<Rightarrow> u64 option \<Rightarrow> nat" where
  "layout_end h ram initrd_size =
     (let dtb_end = ceil_to 8 (ram + unat (text_offset h) + unat (image_size h)) + unat LINUX_DTB_CAPACITY in
      case initrd_size of
        None \<Rightarrow> dtb_end
      | Some sz \<Rightarrow> if sz = 0 then dtb_end else ceil_to 4096 dtb_end + ceil_to 4096 (unat sz))"

definition layout_fits :: "u8 list \<Rightarrow> u64 \<Rightarrow> u64 \<Rightarrow> u64 option \<Rightarrow> linux_image_header \<Rightarrow> bool" where
  "layout_fits img ram sz initrd_size h \<longleftrightarrow>
     header_parse img = Ok h \<and> 2 ^ 21 dvd unat ram \<and> 4096 dvd unat sz \<and> unat ram + unat sz < 2 ^ 64 \<and>
     layout_end h (unat ram) initrd_size \<le> unat ram + unat sz \<and>
     (requires_48bit_placement h \<longrightarrow> unat ram + unat (text_offset h) + unat (image_size h) \<le> 2 ^ 48)"

text \<open>The address ranges of a layout: kernel, device tree, initrd.\<close>

definition layout_ranges :: "linux_boot_layout \<Rightarrow> (nat \<times> nat) list" where
  "layout_ranges l =
     (case layout_image l of (a, n) \<Rightarrow> (unat a, unat a + unat n)) #
     (case layout_dtb l of (a, n) \<Rightarrow> (unat a, unat a + unat n)) #
     (case layout_initrd l of None \<Rightarrow> [] | Some (a, n) \<Rightarrow> [(unat a, unat a + ceil_to 4096 (unat n))])"

definition layout_sound :: "linux_boot_layout \<Rightarrow> bool" where
  "layout_sound l \<longleftrightarrow>
     (\<forall>(a, b) \<in> set (layout_ranges l). unat (ram_ipa l) \<le> a \<and> a \<le> b \<and> b \<le> unat (ram_ipa l) + unat (ram_size l)) \<and>
     sorted_wrt (\<lambda>(a, b) (c, d). b \<le> c) (layout_ranges l) \<and>
     8 dvd unat (dtb_ipa l) \<and> (\<forall>(a, n) \<in> set_option (layout_initrd l). 4096 dvd unat a) \<and>
     image_ipa l = ram_ipa l + text_offset (image_header l)"

lemma header_parse_not_Panic: "header_parse img \<noteq> Panic"
  by (auto simp: header_parse_def slice_def LINUX_IMAGE_HEADER_SIZE_def Let_def)

lemma layout_dtb_capacity: "unat LINUX_DTB_CAPACITY = 2097152"
  by (simp add: LINUX_DTB_CAPACITY_def)

lemma ok_or_checked_add:
  "ok_or e (checked_add a b) = (if unat a + unat b < 2 ^ 64 then Ok (word_of_nat (unat a + unat b) :: u64) else Err e)"
  by (simp add: checked_add_def)

lemma and_then_if: "and_then (if b then Ok x else Err e) f = (if b then f x else Err e)"
  by simp

lemma unat_small: "n < 2 ^ 64 \<Longrightarrow> unat (word_of_nat n :: u64) = n"
  by (rule unat_word_of_nat_u64)

lemma place_initrd_eq:
  assumes "unat ram_end < 2 ^ 64"
  shows "place_initrd initrd_size dtb_end ram_end =
    (case initrd_size of
       None \<Rightarrow> Ok None
     | Some sz \<Rightarrow> if sz = 0 then Ok None
         else if ceil_to 4096 (unat dtb_end) + ceil_to 4096 (unat sz) \<le> unat ram_end
           then Ok (Some (word_of_nat (ceil_to 4096 (unat dtb_end)), sz))
         else if 2 ^ 64 \<le> ceil_to 4096 (unat dtb_end) + ceil_to 4096 (unat sz) then Err LbAddressOverflow else Err InitrdTooLarge)"
proof (cases initrd_size)
  case (Some sz)
  have P: "PAGE_SIZE \<noteq> 0" by (simp add: PAGE_SIZE_def)
  show ?thesis
    using assms by (auto simp: Some place_initrd_def boot_align_up_eq [OF P] ok_or_checked_add unat_small word_less_nat_alt simp del: of_nat_add)
qed (simp add: place_initrd_def)

lemma layout_end_ge:
  "ceil_to 8 (ram + unat (text_offset h) + unat (image_size h)) + 2097152 \<le> layout_end h ram initrd_size"
  using trans_le_add1 [OF ceil_to_ge [of "ceil_to 8 (ram + unat (text_offset h) + unat (image_size h)) + 2097152" 4096]]
  by (auto simp: layout_end_def Let_def layout_dtb_capacity split: option.splits)

lemma layout_new_eq:
  assumes h: "header_parse img = Ok h"
  shows "case layout_new img ram sz initrd_size of
    Ok l \<Rightarrow> layout_fits img ram sz initrd_size h \<and>
      (let stop = unat ram + unat (text_offset h) + unat (image_size h); dtb = ceil_to 8 stop in
       l = \<lparr>ram_ipa = ram, ram_size = sz, image_header = h, image_ipa = ram + text_offset h, dtb_ipa = word_of_nat dtb,
            layout_initrd = (case initrd_size of None \<Rightarrow> None
              | Some n \<Rightarrow> if n = 0 then None else Some (word_of_nat (ceil_to 4096 (dtb + 2097152)), n))\<rparr>)
    | Err _ \<Rightarrow> \<not> layout_fits img ram sz initrd_size h
    | Panic \<Rightarrow> False"
proof -
  let ?stop = "unat ram + unat (text_offset h) + unat (image_size h)" let ?dtb = "ceil_to 8 ?stop" let ?top = "unat ram + unat sz"
  have e8: "(8 :: u64) \<noteq> 0" by simp
  have al: "is_aligned ram LINUX_IMAGE_BASE_ALIGNMENT \<longleftrightarrow> 2 ^ 21 dvd unat ram"
  proof -
    have "LINUX_IMAGE_BASE_ALIGNMENT = 2 ^ 21" by (simp add: LINUX_IMAGE_BASE_ALIGNMENT_def)
    moreover have "unat LINUX_IMAGE_BASE_ALIGNMENT = 2 ^ 21" by (simp add: LINUX_IMAGE_BASE_ALIGNMENT_def)
    ultimately show ?thesis using is_aligned_iff_dvd [OF is_power_of_two_pow, of 21 ram] by simp
  qed
  note ge = layout_end_ge [of "unat ram" h initrd_size] ceil_to_ge [of ?stop 8]
  consider (bad) "\<not> (2 ^ 21 dvd unat ram \<and> 4096 dvd unat sz)" | (wrap) "2 ^ 64 \<le> ?top"
    | (big) "2 ^ 21 dvd unat ram" "4096 dvd unat sz" "?top < 2 ^ 64" "?top < ?stop"
    | (high) "2 ^ 21 dvd unat ram" "4096 dvd unat sz" "?top < 2 ^ 64" "?stop \<le> ?top" "requires_48bit_placement h" "2 ^ 48 < ?stop"
    | (ok) "2 ^ 21 dvd unat ram" "4096 dvd unat sz" "?top < 2 ^ 64" "?stop \<le> ?top" "requires_48bit_placement h \<longrightarrow> ?stop \<le> 2 ^ 48"
    by linarith
  then show ?thesis
  proof cases
    case bad
    then show ?thesis by (auto simp: layout_new_def h al layout_fits_def)
  next
    case wrap
    then show ?thesis by (auto simp: layout_new_def h al layout_fits_def ok_or_checked_add)
  next
    case big
    then have "\<not> layout_fits img ram sz initrd_size h" using ge by (auto simp: layout_fits_def)
    then show ?thesis using big
      by (auto simp: layout_new_def h al ok_or_checked_add unat_small word_less_nat_alt and_then_if simp del: of_nat_add)
  next
    case high
    then have "\<not> layout_fits img ram sz initrd_size h" by (auto simp: layout_fits_def)
    then show ?thesis using high
      by (auto simp: layout_new_def h al ok_or_checked_add unat_small word_less_nat_alt and_then_if simp del: of_nat_add)
  next
    case ok
    have fits: "layout_fits img ram sz initrd_size h \<longleftrightarrow> layout_end h (unat ram) initrd_size \<le> ?top"
      using ok h by (auto simp: layout_fits_def)
    show ?thesis
    proof (cases "?dtb + 2097152 \<le> ?top")
      case False
      then have no: "\<not> layout_end h (unat ram) initrd_size \<le> ?top" using ge by linarith
      show ?thesis
        using ok False no fits
        by (auto simp: layout_new_def h al ok_or_checked_add boot_align_up_eq [OF e8] layout_dtb_capacity unat_small word_less_nat_alt and_then_if simp del: of_nat_add)
    next
      case True
      then have u: "unat (word_of_nat (?dtb + 2097152) :: u64) = ?dtb + 2097152" "unat (word_of_nat ?top :: u64) = ?top"
        using ok(3) by (auto intro!: unat_small simp del: of_nat_add)
      have w: "word_of_nat (unat ram + unat (text_offset h)) = ram + text_offset h" by simp
      have "layout_new img ram sz initrd_size = and_then (place_initrd initrd_size (word_of_nat (?dtb + 2097152)) (word_of_nat ?top))
          (\<lambda>initrd. Ok \<lparr>ram_ipa = ram, ram_size = sz, image_header = h, image_ipa = word_of_nat (unat ram + unat (text_offset h)),
             dtb_ipa = word_of_nat ?dtb, layout_initrd = initrd\<rparr>)"
        using ok True
        by (auto simp: layout_new_def h al ok_or_checked_add boot_align_up_eq [OF e8] layout_dtb_capacity unat_small word_less_nat_alt simp del: of_nat_add)
      moreover have "unat (word_of_nat ?top :: u64) < 2 ^ 64" using u(2) ok(3) by simp
      ultimately show ?thesis using fits True
        by (cases initrd_size) (auto simp: place_initrd_eq u w Let_def layout_end_def layout_dtb_capacity simp del: of_nat_add)
    qed
  qed
qed

section \<open>Correctness\<close>

lemma layout_sound_placed:
  assumes "layout_fits img ram sz initrd_size h" and stop: "stop = unat ram + unat (text_offset h) + unat (image_size h)"
    and l: "l = \<lparr>ram_ipa = ram, ram_size = sz, image_header = h, image_ipa = ram + text_offset h, dtb_ipa = word_of_nat (ceil_to 8 stop),
      layout_initrd = (case initrd_size of None \<Rightarrow> None
        | Some n \<Rightarrow> if n = 0 then None else Some (word_of_nat (ceil_to 4096 (ceil_to 8 stop + 2097152)), n))\<rparr>"
  shows "layout_sound l"
proof -
  let ?dtb = "ceil_to 8 stop" let ?top = "ceil_to 4096 (?dtb + 2097152)"
  have fit: "layout_end h (unat ram) initrd_size \<le> unat ram + unat sz" "unat ram + unat sz < 2 ^ 64"
    using assms(1) by (auto simp: layout_fits_def)
  have ge: "stop \<le> ?dtb" "?dtb + 2097152 \<le> layout_end h (unat ram) initrd_size" "?dtb + 2097152 \<le> ?top"
    using ceil_to_ge [of stop 8] layout_end_ge [of "unat ram" h initrd_size] ceil_to_ge [of "?dtb + 2097152" 4096] stop by auto
  have i: "unat (ram + text_offset h) = unat ram + unat (text_offset h)"
    by (rule unat_add_no_overflow) (use fit ge stop in simp)
  have d: "unat (word_of_nat ?dtb :: u64) = ?dtb" by (rule unat_small) (use fit ge in simp)
  have "8 dvd ?dtb" "4096 dvd ?top" by (simp_all add: ceil_to_dvd)
  show ?thesis
  proof (cases "initrd_size = None \<or> initrd_size = Some 0")
    case True
    then show ?thesis using fit ge i d \<open>8 dvd ?dtb\<close>
      by (auto simp: l stop layout_sound_def layout_ranges_def layout_image_def layout_dtb_def layout_dtb_capacity)
  next
    case False
    then obtain n where n: "initrd_size = Some n" "n \<noteq> 0" by auto
    then have e: "?top + ceil_to 4096 (unat n) \<le> unat ram + unat sz"
      using fit(1) stop by (simp add: layout_end_def Let_def layout_dtb_capacity)
    have t: "unat (word_of_nat ?top :: u64) = ?top" by (rule unat_small) (use fit(2) e in simp)
    show ?thesis using fit(2) ge(1,3) i d t e n \<open>8 dvd ?dtb\<close> \<open>4096 dvd ?top\<close> ge(1) unfolding stop
      by (auto simp: l stop layout_sound_def layout_ranges_def layout_image_def layout_dtb_def layout_dtb_capacity)
  qed
qed

text \<open>
  C17: the boot layout. Placement succeeds exactly when the header is accepted, RAM is
  aligned and does not wrap, and kernel, device-tree window and initrd, each rounded up to
  its alignment, fit one after the other. The ranges of a layout then lie inside RAM, do
  not overlap, and are aligned; no input panics.
\<close>

theorem linux_boot_layout_correct:
  "case layout_new img ram sz initrd_size of
     Ok l \<Rightarrow> layout_fits img ram sz initrd_size (image_header l) \<and> layout_ram l = (ram, sz) \<and> layout_sound l \<and>
       (layout_initrd l = None \<longleftrightarrow> initrd_size \<in> {None, Some 0}) \<and>
       initial_registers l = \<lparr>boot_pc = fst (layout_image l), boot_x0 = fst (layout_dtb l), boot_x1 = 0, boot_x2 = 0, boot_x3 = 0\<rparr>
   | Err e \<Rightarrow> (\<forall>h. \<not> layout_fits img ram sz initrd_size h)
   | Panic \<Rightarrow> False"
proof (cases "header_parse img")
  case (Ok h)
  have u: "layout_fits img ram sz initrd_size h' \<Longrightarrow> h' = h" for h' using Ok by (auto simp: layout_fits_def)
  show ?thesis
  proof (cases "layout_new img ram sz initrd_size")
    case l: (Ok l)
    let ?stop = "unat ram + unat (text_offset h) + unat (image_size h)"
    have f: "layout_fits img ram sz initrd_size h" using layout_new_eq [OF Ok, of ram sz initrd_size] l by simp
    have e: "l = \<lparr>ram_ipa = ram, ram_size = sz, image_header = h, image_ipa = ram + text_offset h, dtb_ipa = word_of_nat (ceil_to 8 ?stop),
      layout_initrd = (case initrd_size of None \<Rightarrow> None
        | Some n \<Rightarrow> if n = 0 then None else Some (word_of_nat (ceil_to 4096 (ceil_to 8 ?stop + 2097152)), n))\<rparr>"
      using layout_new_eq [OF Ok, of ram sz initrd_size] l by (simp add: Let_def)
    have s: "layout_sound l" using layout_sound_placed [OF f refl e] .
    have "image_header l = h" "ram_ipa l = ram" "ram_size l = sz" "layout_initrd l = None \<longleftrightarrow> initrd_size \<in> {None, Some 0}"
      by (auto simp: e split: option.splits)
    then show ?thesis using f s by (simp add: l layout_ram_def initial_registers_def layout_image_def layout_dtb_def)
  qed (use layout_new_eq [OF Ok, of ram sz initrd_size] u in auto)
qed (use header_parse_not_Panic [of img] in \<open>auto simp: layout_new_def layout_fits_def\<close>)

end
