(* ===== verification/Vcpu.thy ===== *)
theory Vcpu
  imports Mmio Gicv2
begin

text \<open>
  The vCPU (\<open>src/vcpu.rs\<close>): its register context, exit record, timer and interrupt state,
  how an exit is decoded, and the completion of a trapped device access.
\<close>

record virtual_timer_state =
  cntvoff_el2 :: u64
  cntv_cval_el0 :: u64
  cntv_ctl_el0 :: u64

datatype vcpu_mmio_error = VmDecode mmio_decode_error | VmEmulation mmio_emulation_error | ProgramCounterOverflow

record vcpu_context =
  vx :: "u64 list"
  sp_el0 :: u64
  sp_el1 :: u64
  elr_el2 :: u64
  spsr_el2 :: u64
  sctlr_el1 :: u64
  cpacr_el1 :: u64
  ttbr0_el1 :: u64
  ttbr1_el1 :: u64
  tcr_el1 :: u64
  mair_el1 :: u64
  vbar_el1 :: u64
  contextidr_el1 :: u64
  tpidr_el1 :: u64
  tpidrro_el0 :: u64
  vq :: "128 word list"
  fpcr :: u64
  fpsr :: u64

definition context_new :: "u64 \<Rightarrow> u64 \<Rightarrow> vcpu_context" where
  "context_new entry_pc sp =
     \<lparr>vx = (replicate 31 0)[0 := 0], sp_el0 = 0, sp_el1 = sp, elr_el2 = entry_pc, spsr_el2 = 0x3c5, sctlr_el1 = 0x00c50838,
      cpacr_el1 = 0, ttbr0_el1 = 0, ttbr1_el1 = 0, tcr_el1 = 0, mair_el1 = 0, vbar_el1 = 0, contextidr_el1 = 0,
      tpidr_el1 = 0, tpidrro_el0 = 0, vq = replicate 32 0, fpcr = 0, fpsr = 0\<rparr>"

record vcpu_exit_record =
  exit_vector_nr :: u64
  exit_esr_el2 :: u64
  exit_far_el2 :: u64
  exit_hpfar_el2 :: u64

datatype vcpu_exit_reason =
    Hvc "16 word" u64 | Stage2DataAbort u64 bool u8 | Stage2InstructionAbort u64 u8
  | SmcTrap | SysRegTrap | FpSimdTrap | UnknownExit u8 u32

definition fault_ipa :: "vcpu_exit_record \<Rightarrow> u64" where
  "fault_ipa e =
     (push_bit 12 (drop_bit 4 (exit_hpfar_el2 e) AND 0x00000fffffffffff)) OR (exit_far_el2 e AND 0xfff)"

definition decode_reason :: "vcpu_exit_record \<Rightarrow> vcpu_context \<Rightarrow> (vcpu_exit_reason, 'e) outcome" where
  "decode_reason e ctx =
     (let ec = ucast (drop_bit 26 (exit_esr_el2 e) AND 0x3f) :: u8; iss = ucast (exit_esr_el2 e AND 0x01ffffff) :: u32 in
      if ec = 0x16 then (case array_get (vx ctx) 0 of None \<Rightarrow> Panic | Some arg0 \<Rightarrow> Ok (Hvc (ucast (iss AND 0xffff)) arg0))
      else if ec = 0x17 then Ok SmcTrap
      else if ec = 0x18 then Ok SysRegTrap
      else if ec = 0x07 then Ok FpSimdTrap
      else if ec = 0x20 then Ok (Stage2InstructionAbort (fault_ipa e) (ucast (iss AND 0x3f)))
      else if ec = 0x24 then Ok (Stage2DataAbort (fault_ipa e) (iss AND push_bit 6 1 \<noteq> 0) (ucast (iss AND 0x3f)))
      else Ok (UnknownExit ec iss))"

text \<open>
  The emulation of a stage-2 abort mutates the registers, then the program counter; an
  overflow of the latter is reported after the device has been changed.
\<close>

definition emulate_stage2_mmio ::
  "vcpu_context \<Rightarrow> vcpu_exit_record \<Rightarrow> mmio_dispatcher \<Rightarrow>
   (u8 option, vcpu_mmio_error) outcome \<times> vcpu_context \<times> mmio_dispatcher" where
  "emulate_stage2_mmio ctx e d =
     (case decode_data_abort (exit_esr_el2 e) (fault_ipa e) of
        Panic \<Rightarrow> (Panic, ctx, d)
      | Err x \<Rightarrow> (Err (VmDecode x), ctx, d)
      | Ok access \<Rightarrow>
         (case emulate d access (vx ctx) of
            (Panic, d', x') \<Rightarrow> (Panic, ctx\<lparr>vx := x'\<rparr>, d')
          | (Err er, d', x') \<Rightarrow> (Err (VmEmulation er), ctx\<lparr>vx := x'\<rparr>, d')
          | (Ok transmit, d', x') \<Rightarrow>
              (case checked_add (elr_el2 ctx) 4 of
                 None \<Rightarrow> (Err ProgramCounterOverflow, ctx\<lparr>vx := x'\<rparr>, d')
               | Some pc \<Rightarrow> (Ok transmit, ctx\<lparr>vx := x', elr_el2 := pc\<rparr>, d'))))"

record vcpu =
  v_context :: vcpu_context
  v_exit :: vcpu_exit_record
  v_timer :: virtual_timer_state
  v_gic :: virtual_gicv2_state

definition vcpu_new :: "u64 \<Rightarrow> u64 \<Rightarrow> vcpu" where
  "vcpu_new entry_pc sp =
     \<lparr>v_context = context_new entry_pc sp,
      v_exit = \<lparr>exit_vector_nr = 0, exit_esr_el2 = 0, exit_far_el2 = 0, exit_hpfar_el2 = 0\<rparr>,
      v_timer = \<lparr>cntvoff_el2 = 0, cntv_cval_el0 = 0, cntv_ctl_el0 = 0\<rparr>,
      v_gic = \<lparr>vg_vmcr = 0, vg_timer_lr = 0, vg_uart_lr = 0\<rparr>\<rparr>"

definition vcpu_new_linux :: "u64 \<Rightarrow> u64 \<Rightarrow> vcpu" where
  "vcpu_new_linux entry_pc dtb =
     (let v = vcpu_new entry_pc 0 in
      v\<lparr>v_context := (v_context v)\<lparr>vx := (vx (v_context v))[0 := dtb, 1 := 0, 2 := 0, 3 := 0]\<rparr>\<rparr>)"

section \<open>Decoding\<close>

text \<open>The fault address is the page that stage 2 reports and the offset of the virtual address.\<close>

lemma fault_ipa_bit:
  assumes "n < 64"
  shows "bit (fault_ipa e) n \<longleftrightarrow> (if n < 12 then bit (exit_far_el2 e) n else n < 56 \<and> bit (exit_hpfar_el2 e) (n - 8))"
proof -
  have m: "(0xfff :: u64) = mask 12" "(0x00000fffffffffff :: u64) = mask 44" by (simp_all add: mask_eq_exp_minus_1)
  show ?thesis unfolding fault_ipa_def m using assms by (auto simp: bit_simps)
qed

lemma decode_reason_abort:
  "decode_reason e ctx = Ok (Stage2DataAbort ipa w s) \<Longrightarrow> ipa = fault_ipa e"
  by (auto simp: decode_reason_def Let_def split: if_splits option.splits)

lemma decode_reason_not_Panic: "length (vx ctx) = 31 \<Longrightarrow> decode_reason e ctx \<noteq> Panic"
  by (auto simp: decode_reason_def Let_def array_get_def split: if_splits)

lemma emulate_stage2_mmio_keeps:
  assumes "length (vx ctx) = 31" and "dispatcher_inv d"
  shows "case emulate_stage2_mmio ctx e d of (r, ctx', d') \<Rightarrow>
    r \<noteq> Panic \<and> dispatcher_inv d' \<and> length (vx ctx') = 31 \<and>
    (\<exists>x pc. ctx' = ctx\<lparr>vx := x, elr_el2 := pc\<rparr> \<and> pc = (if is_ok r then elr_el2 ctx + 4 else elr_el2 ctx))"
proof (cases "decode_data_abort (exit_esr_el2 e) (fault_ipa e)")
  case (Ok access)
  obtain r d' x where em: "emulate d access (vx ctx) = (r, d', x)" by (metis prod_cases3)
  have ok: "emulation_ok d access (vx ctx) (r, d', x)"
    using emulate_ok [OF decode_fields(2) [OF Ok] assms] em by simp
  then have "r \<noteq> Panic" "dispatcher_inv d'" "length x = 31"
    using assms by (auto simp: emulation_ok_def regs_after_read_def split: outcome.splits if_splits)
  then show ?thesis using Ok em
    by (auto simp: emulate_stage2_mmio_def checked_add_def split: outcome.splits intro!: exI [of _ x])
qed (use assms in \<open>auto simp: emulate_stage2_mmio_def decode_data_abort_def access_width_def Let_def outcome_simps split: if_splits intro!: exI [of _ "vx ctx"]\<close>)

text \<open>What an accepted abort address and syndrome lead to: success exactly for the widths and windows the devices serve.\<close>

lemma emulate_stage2_mmio_Ok:
  assumes "length (vx ctx) = 31" and "dispatcher_inv d"
  shows "is_ok (fst (emulate_stage2_mmio ctx e d)) \<longleftrightarrow>
    (\<exists>a. decode_data_abort (exit_esr_el2 e) (fault_ipa e) = Ok a \<and> acc_width a \<in> {1, 2, 4} \<and>
       (window_offset GUEST_GICD (fault_ipa e) \<noteq> None \<or> window_offset GUEST_PL011 (fault_ipa e) \<noteq> None)) \<and>
    unat (elr_el2 ctx) + 4 < 2 ^ 64"
proof (cases "decode_data_abort (exit_esr_el2 e) (fault_ipa e)")
  case (Ok a)
  obtain r d' x where em: "emulate d a (vx ctx) = (r, d', x)" by (metis prod_cases3)
  show ?thesis
    using emulate_error_iff [OF decode_fields(2) [OF Ok] assms] decode_fields(1) [OF Ok] Ok em
    by (cases r) (auto simp: emulate_stage2_mmio_def checked_add_def)
qed (auto simp: emulate_stage2_mmio_def)

end
