(* ===== verification/Debug_Util.thy ===== *)
theory Debug_Util
  imports Device_Io
begin

text \<open>
  The host console (\<open>tvisor_util/debug_util.rs\<close>): the Mini UART driver as programs over its
  registers. \<open>MINI_UART_BASE\<close> is the argument \<open>base\<close>; zero means that no console was
  configured. The console lock is \<open>Irq_Lock\<close>; formatting is left out, so a message is the
  list of its bytes.
\<close>

definition UART_TX_POLL_COUNT :: nat where "UART_TX_POLL_COUNT = 1000000"
definition IO_OFFSET :: usize where "IO_OFFSET = 0x00"
definition IER_OFFSET :: usize where "IER_OFFSET = 0x04"
definition LSR_OFFSET :: usize where "LSR_OFFSET = 0x14"
definition CNTL_OFFSET :: usize where "CNTL_OFFSET = 0x20"
definition LSR_TX_READY :: u32 where "LSR_TX_READY = push_bit 5 1"
definition LSR_IDLE :: u32 where "LSR_IDLE = push_bit 6 1"
definition LSR_RX_READY :: u32 where "LSR_RX_READY = 1"
definition IER_RX_INTERRUPT :: u32 where "IER_RX_INTERRUPT = 1"
definition CNTL_RX_ENABLE :: u32 where "CNTL_RX_ENABLE = 1"
definition CNTL_TX_ENABLE :: u32 where "CNTL_TX_ENABLE = push_bit 1 1"

definition uart_configured :: "usize \<Rightarrow> usize option" where
  "uart_configured base = (if base \<noteq> 0 then Some base else None)"

definition uart_register :: "usize \<Rightarrow> usize \<Rightarrow> usize" where
  "uart_register base offset = base + offset"

fun poll_status :: "usize \<Rightarrow> u32 \<Rightarrow> nat \<Rightarrow> bool io" where
  "poll_status base flag 0 = Done False"
| "poll_status base flag (Suc n) =
     io_bind (read32 (uart_register base LSR_OFFSET)) (\<lambda>v. if v AND flag \<noteq> 0 then Done True else poll_status base flag n)"

definition wait_io_completed :: "usize \<Rightarrow> bool io" where
  "wait_io_completed base = poll_status base LSR_IDLE UART_TX_POLL_COUNT"

definition is_tx_ready :: "usize \<Rightarrow> bool io" where
  "is_tx_ready base = poll_status base LSR_TX_READY UART_TX_POLL_COUNT"

definition write_byte_raw :: "usize \<Rightarrow> u8 \<Rightarrow> (unit, unit) outcome io" where
  "write_byte_raw base byte =
     io_bind (is_tx_ready base) (\<lambda>ready.
     if ready then io_seq (write32 (uart_register base IO_OFFSET) (ucast byte)) (Done (Ok ())) else Done (Err ()))"

definition mini_write_byte :: "usize \<Rightarrow> u8 \<Rightarrow> (unit, unit) outcome io" where
  "mini_write_byte base byte =
     (if byte = 10 then io_try (write_byte_raw base 13) (\<lambda>_. write_byte_raw base byte) else write_byte_raw base byte)"

definition mini_read_byte :: "usize \<Rightarrow> u8 option io" where
  "mini_read_byte base =
     io_bind (read32 (uart_register base LSR_OFFSET)) (\<lambda>v.
     if v AND LSR_RX_READY \<noteq> 0 then io_bind (read32 (uart_register base IO_OFFSET)) (\<lambda>b. Done (Some (ucast b))) else Done None)"

definition mini_enable_rx_interrupt :: "usize \<Rightarrow> unit io" where
  "mini_enable_rx_interrupt base =
     io_bind (read32 (uart_register base CNTL_OFFSET)) (\<lambda>cntl.
     io_seq (write32 (uart_register base CNTL_OFFSET) (cntl OR CNTL_RX_ENABLE OR CNTL_TX_ENABLE))
       (write32 (uart_register base IER_OFFSET) IER_RX_INTERRUPT))"

fun mini_write_str :: "usize \<Rightarrow> u8 list \<Rightarrow> (unit, unit) outcome io" where
  "mini_write_str base [] = Done (Ok ())"
| "mini_write_str base (b # bs) = io_try (mini_write_byte base b) (\<lambda>_. mini_write_str base bs)"

definition uart_write_byte :: "usize \<Rightarrow> u8 \<Rightarrow> (unit, unit) outcome io" where
  "uart_write_byte base byte = (case uart_configured base of None \<Rightarrow> Done (Err ()) | Some b \<Rightarrow> mini_write_byte b byte)"

definition uart_read_byte :: "usize \<Rightarrow> u8 option io" where
  "uart_read_byte base = (case uart_configured base of None \<Rightarrow> Done None | Some b \<Rightarrow> mini_read_byte b)"

definition uart_enable_rx_interrupt :: "usize \<Rightarrow> (unit, unit) outcome io" where
  "uart_enable_rx_interrupt base =
     (case uart_configured base of None \<Rightarrow> Done (Err ()) | Some b \<Rightarrow> io_seq (mini_enable_rx_interrupt b) (Done (Ok ())))"

definition uart_print :: "usize \<Rightarrow> u8 list \<Rightarrow> (unit, unit) outcome io" where
  "uart_print base msg = (case uart_configured base of None \<Rightarrow> Done (Err ()) | Some b \<Rightarrow> mini_write_str b msg)"

text \<open>The fatal path: a byte budget that is spent before every byte.\<close>

fun bounded_write_str :: "usize \<Rightarrow> nat \<Rightarrow> u8 list \<Rightarrow> (unit, unit) outcome io" where
  "bounded_write_str base remaining [] = Done (Ok ())"
| "bounded_write_str base remaining (b # bs) =
     (if remaining = 0 then Done (Err ())
      else io_try (mini_write_byte base b) (\<lambda>_. bounded_write_str base (remaining - 1) bs))"

definition emergency_print :: "bool \<Rightarrow> usize \<Rightarrow> u8 list \<Rightarrow> (unit, unit) outcome io" where
  "emergency_print lock_free base msg =
     (if \<not> lock_free then Done (Err ())
      else case uart_configured base of None \<Rightarrow> Done (Err ()) | Some b \<Rightarrow> bounded_write_str b 512 msg)"

text \<open>\<open>debug_init\<close> replaces the configured base; \<open>debug_fini\<close> prints its message and waits for the line to drain.\<close>

definition debug_init :: "usize \<Rightarrow> usize \<Rightarrow> usize" where
  "debug_init mini_uart_register_base old_base = mini_uart_register_base"

definition debug_fini :: "bool \<Rightarrow> usize \<Rightarrow> u8 list \<Rightarrow> unit io" where
  "debug_fini lock_free base wait_message =
     io_bind (emergency_print lock_free base wait_message) (\<lambda>_.
       if \<not> lock_free then Done ()
       else case uart_configured base of None \<Rightarrow> Done () | Some b \<Rightarrow> io_bind (wait_io_completed b) (\<lambda>_. Done ()))"

section \<open>What reaches the device\<close>

text \<open>
  The accesses of a console call. Transmission reads the status register and writes the
  data register; nothing else is touched.
\<close>

definition tx_access :: "usize \<Rightarrow> access \<Rightarrow> bool" where
  "tx_access base a \<longleftrightarrow> (case a of ReadAt x w \<Rightarrow> x = base + LSR_OFFSET \<and> w = 4
     | WriteAt x w v \<Rightarrow> x = base + IO_OFFSET \<and> w = 4 \<and> v < 256)"

lemma poll_status_accesses: "io_all (tx_access base) (\<lambda>_. True) (poll_status base flag n)"
  by (induction n) (auto intro!: io_all_bind io_all_prims(1) [where Q = "\<lambda>_. True"] simp: tx_access_def uart_register_def)

lemma ucast_u8_less: "(ucast (b :: u8) :: u32) < 256"
proof -
  have "unat b < 2 ^ LENGTH(8)" by (rule unsigned_less)
  then have "unat (ucast b :: u32) < 256" by (simp add: unsigned_ucast_eq take_bit_nat_eq_self)
  then show ?thesis by (simp add: word_less_nat_alt)
qed

lemma write_byte_raw_accesses: "io_all (tx_access base) (\<lambda>r. r \<noteq> Panic) (write_byte_raw base b)"
  unfolding write_byte_raw_def is_tx_ready_def
  by (rule io_all_bind [OF poll_status_accesses])
    (auto intro!: io_all_seq io_all_prims simp: tx_access_def uart_register_def ucast_u8_less)

lemma mini_write_byte_accesses: "io_all (tx_access base) (\<lambda>r. r \<noteq> Panic) (mini_write_byte base b)"
  unfolding mini_write_byte_def
  by (auto intro!: io_all_try [OF write_byte_raw_accesses] write_byte_raw_accesses)

lemma bounded_write_str_accesses: "io_all (tx_access base) (\<lambda>r. r \<noteq> Panic) (bounded_write_str base n msg)"
  by (induction msg arbitrary: n) (auto intro!: io_all_try [OF mini_write_byte_accesses])

text \<open>
  On a transmitter that is ready, the bytes of a message reach the data register in order,
  a carriage return before each line feed.
\<close>

definition crlf :: "u8 \<Rightarrow> u8 list" where
  "crlf b = (if b = 10 then [13, 10] else [b])"

text \<open>A transmitter: status always ready, every data write appended to the output.\<close>

definition ready_uart :: "usize \<Rightarrow> u8 list device" where
  "ready_uart base = \<lparr>dev_read32 = \<lambda>a s. (LSR_TX_READY, s), dev_read8 = \<lambda>a s. (0, s),
     dev_write32 = \<lambda>a v s. if a = base + IO_OFFSET then s @ [ucast v] else s, dev_write8 = \<lambda>a v s. s\<rparr>"

lemma poll_count_Suc: "UART_TX_POLL_COUNT = Suc 999999"
  by (simp add: UART_TX_POLL_COUNT_def)

lemma poll_ready: "io_run (ready_uart base) (is_tx_ready base) out = (True, out)"
  unfolding is_tx_ready_def poll_count_Suc poll_status.simps by (simp add: ready_uart_def LSR_TX_READY_def)

lemma ucast_u8_u32 [simp]: "ucast (ucast (b :: u8) :: u32) = b"
  by (rule bit_word_eqI) (auto simp: bit_simps)

lemma write_byte_raw_ready: "io_run (ready_uart base) (write_byte_raw base b) out = (Ok (), out @ [b])"
  by (simp add: write_byte_raw_def poll_ready, simp add: ready_uart_def uart_register_def)

lemma mini_write_byte_ready: "io_run (ready_uart base) (mini_write_byte base b) out = (Ok (), out @ crlf b)"
  by (simp add: mini_write_byte_def crlf_def write_byte_raw_ready)

lemma mini_write_str_ready: "io_run (ready_uart base) (mini_write_str base msg) out = (Ok (), out @ concat (map crlf msg))"
  by (induction msg arbitrary: out) (simp_all add: mini_write_byte_ready)

lemma emergency_print_ready:
  "base \<noteq> 0 \<Longrightarrow> io_run (ready_uart base) (emergency_print True base msg) out =
     (if length msg \<le> 512 then Ok () else Err (), out @ concat (map crlf (take 512 msg)))"
proof -
  have "io_run (ready_uart base) (bounded_write_str base n msg) out =
     (if length msg \<le> n then Ok () else Err (), out @ concat (map crlf (take n msg)))" for n
    by (induction msg arbitrary: n out) (auto simp: mini_write_byte_ready take_Cons split: nat.splits)
  then show "base \<noteq> 0 \<Longrightarrow> ?thesis" by (simp add: emergency_print_def uart_configured_def)
qed

end
