(* ===== verification/Prog_Lift.thy ===== *)
theory Prog_Lift
  imports Atomic_Prog Device_Io
begin

text \<open>
  Composition of programs: a program over one component run inside a larger shared state,
  and a device driver run as a program of the CPU that executes it.
\<close>

primrec plift :: "('s \<Rightarrow> 't) \<Rightarrow> ('t \<Rightarrow> 's \<Rightarrow> 's) \<Rightarrow> ('t, 'a) prog \<Rightarrow> ('s, 'a) prog" where
  "plift get put (Ret a) = Ret a"
| "plift get put (Atom f) = Atom (\<lambda>s. case (map_prod id (plift get put) \<circ> f) (get s) of (t, p) \<Rightarrow> (put t s, p))"

lemma plift_Atom [simp]: "plift get put (Atom f) = Atom (\<lambda>s. (put (fst (f (get s))) s, plift get put (snd (f (get s)))))"
  by (simp add: fun_eq_iff map_prod_def split: prod.splits)

declare plift.simps(2) [simp del]

lemma run_plift:
  assumes "\<And>t s. get (put t s) = t" and "\<And>s. put (get s) s = s" and "\<And>t u s. put t (put u s) = put t s"
  shows "run (plift get put p) s = (case run p (get s) of (a, t) \<Rightarrow> (a, put t s))"
proof (induction p arbitrary: s)
  case (Ret a)
  then show ?case by (simp add: assms)
next
  case (Atom f)
  have "snd (f (get s)) \<in> Basic_BNFs.snds (f (get s))" by (cases "f (get s)") simp
  then show ?case
    using Atom.IH [of "f (get s)" "snd (f (get s))" "put (fst (f (get s))) s"] by (simp add: assms split: prod.splits)
qed

text \<open>
  A program checked against its own component stays checked inside the larger state: the
  environment acts on the component as the component's rely, and its steps are steps of the
  larger protocol.
\<close>

lemma safe_plift:
  assumes "safe I R G P p post" and "\<And>t s. get (put t s) = t"
    and "\<And>s. I' s \<Longrightarrow> I (get s)" and "\<And>s s'. I' s \<Longrightarrow> R' s s' \<Longrightarrow> R (get s) (get s') \<or> get s' = get s"
    and "\<And>s t. I' s \<Longrightarrow> G (get s) t \<Longrightarrow> G' s (put t s)"
  shows "safe I' R' G' (\<lambda>s. P (get s)) (plift get put p) (\<lambda>a s. post a (get s))"
  using assms(1)
proof (induction rule: safe.induct)
  case (safe_Ret P post a)
  then show ?case using assms(3) by (auto intro: safe.safe_Ret)
next
  case (safe_Atom P f post)
  show ?case unfolding plift_Atom
  proof (rule safe.safe_Atom)
    fix s assume s: "I' s" "P (get s)"
    let ?t = "fst (f (get s))"
    obtain Q where g: "G (get s) ?t" and Q: "stable_under I R Q" "Q ?t"
      "safe I' R' G' (\<lambda>s. Q (get s)) (plift get put (snd (f (get s)))) (\<lambda>a s. post a (get s))"
      using safe_Atom(1) [OF assms(3) [OF s(1)] s(2)] by blast
    have "stable_under I' R' (\<lambda>s. Q (get s))"
      using Q(1) assms(3,4) unfolding stable_under_def by metis
    then show "G' s (fst (put ?t s, plift get put (snd (f (get s))))) \<and>
        (\<exists>Q. stable_under I' R' Q \<and> Q (fst (put ?t s, plift get put (snd (f (get s))))) \<and>
          safe I' R' G' Q (snd (put ?t s, plift get put (snd (f (get s))))) (\<lambda>a s. post a (get s)))"
      using Q assms(2,5) g s(1) by (intro conjI exI [of _ "\<lambda>s. Q (get s)"]) simp_all
  qed
qed

lemma safe_plift_keep:
  assumes "safe I R G (\<lambda>_. True) p post" and "\<And>t s. get (put t s) = t"
    and "\<And>s. I' s \<Longrightarrow> I (get s)" and "\<And>s s'. I' s \<Longrightarrow> R' s s' \<Longrightarrow> R (get s) (get s') \<or> get s' = get s"
    and "\<And>s t. I' s \<Longrightarrow> K s \<Longrightarrow> G (get s) t \<Longrightarrow> G' s (put t s) \<and> K (put t s)" and "stable_under I' R' K"
  shows "safe I' R' G' K (plift get put p) (\<lambda>_. K)"
proof -
  have "safe I' R' G' (\<lambda>s. K s \<and> P (get s)) (plift get put p) (\<lambda>_. K)" if "safe I R G P p post" for P
    using that
  proof (induction rule: safe.induct)
    case (safe_Ret P post a)
    show ?case by (auto intro: safe.safe_Ret)
  next
    case (safe_Atom P f post)
    show ?case unfolding plift_Atom
    proof (rule safe.safe_Atom)
      fix s assume s: "I' s" "K s \<and> P (get s)"
      let ?t = "fst (f (get s))"
      obtain Q where g: "G (get s) ?t" and Q: "stable_under I R Q" "Q ?t"
        "safe I' R' G' (\<lambda>s. K s \<and> Q (get s)) (plift get put (snd (f (get s)))) (\<lambda>_. K)"
        using safe_Atom(1) [OF assms(3) [OF s(1)]] s(2) by blast
      have "stable_under I' R' (\<lambda>s. K s \<and> Q (get s))"
        using Q(1) assms(3,4,6) unfolding stable_under_def by metis
      then show "G' s (fst (put ?t s, plift get put (snd (f (get s))))) \<and>
          (\<exists>Q. stable_under I' R' Q \<and> Q (fst (put ?t s, plift get put (snd (f (get s))))) \<and>
            safe I' R' G' Q (snd (put ?t s, plift get put (snd (f (get s))))) (\<lambda>_. K))"
        using Q assms(2,5) g s by (intro conjI exI [of _ "\<lambda>s. K s \<and> Q (get s)"]) simp_all
    qed
  qed
  from this [OF assms(1)] show ?thesis by simp
qed

text \<open>The accesses of a driver, one atomic step each, on the device component of the state.\<close>

primrec pio :: "'w device \<Rightarrow> ('s \<Rightarrow> 'w) \<Rightarrow> ('w \<Rightarrow> 's \<Rightarrow> 's) \<Rightarrow> 'a io \<Rightarrow> ('s, 'a) prog" where
  "pio dev get put (Done x) = Ret x"
| "pio dev get put (Read32 a k) = Atom (\<lambda>s. case dev_read32 dev a (get s) of (v, w) \<Rightarrow> (put w s, pio dev get put (k v)))"
| "pio dev get put (Read8 a k) = Atom (\<lambda>s. case dev_read8 dev a (get s) of (v, w) \<Rightarrow> (put w s, pio dev get put (k v)))"
| "pio dev get put (Write32 a v p) = Atom (\<lambda>s. (put (dev_write32 dev a v (get s)) s, pio dev get put p))"
| "pio dev get put (Write8 a v p) = Atom (\<lambda>s. (put (dev_write8 dev a v (get s)) s, pio dev get put p))"
| "pio dev get put (Barrier p) = pio dev get put p"

lemma run_pio:
  assumes "\<And>t s. get (put t s) = t" and "\<And>s. put (get s) s = s" and "\<And>t u s. put t (put u s) = put t s"
  shows "run (pio dev get put p) s = (case io_run dev p (get s) of (a, w) \<Rightarrow> (a, put w s))"
  by (induction p arbitrary: s) (auto simp: assms split: prod.splits)

end
