(* ===== verification/Failure.thy ===== *)
theory Failure
  imports Prog_Lift
begin

text \<open>
  First-failure evidence (\<open>tvisor_util/failure.rs\<close>): a record written once by whoever wins
  its state, and read without waiting. The proof covers every interleaving of any number of
  recorders and readers.
\<close>

record failure =
  f_kind :: u64
  f_syndrome :: u64
  f_pc :: u64
  f_address :: u64

text \<open>\<open>fr_winner\<close> is auxiliary: who recorded and what.\<close>

record failure_record =
  fr_state :: u8
  fr_kind :: u64
  fr_syndrome :: u64
  fr_pc :: u64
  fr_address :: u64
  fr_winner :: "(nat \<times> failure) option"

definition fr_new :: failure_record where
  "fr_new = \<lparr>fr_state = 0, fr_kind = 0, fr_syndrome = 0, fr_pc = 0, fr_address = 0, fr_winner = None\<rparr>"

definition fr_record :: "nat \<Rightarrow> failure \<Rightarrow> (failure_record, unit) prog" where
  "fr_record i f =
     pbind (armw (\<lambda>s. if fr_state s = 0 then (s\<lparr>fr_state := 1, fr_winner := Some (i, f)\<rparr>, True) else (s, False))) (\<lambda>won.
     if \<not> won then Ret ()
     else pbind (astore (fr_kind_update (\<lambda>_. f_kind f))) (\<lambda>_.
          pbind (astore (fr_syndrome_update (\<lambda>_. f_syndrome f))) (\<lambda>_.
          pbind (astore (fr_pc_update (\<lambda>_. f_pc f))) (\<lambda>_.
          pbind (astore (fr_address_update (\<lambda>_. f_address f))) (\<lambda>_.
          astore (fr_state_update (\<lambda>_. 2)))))))"

definition fr_snapshot :: "(failure_record, failure option) prog" where
  "fr_snapshot =
     pbind (aload fr_state) (\<lambda>st.
     if st \<noteq> 2 then Ret None
     else pbind (aload fr_kind) (\<lambda>k. pbind (aload fr_syndrome) (\<lambda>y. pbind (aload fr_pc) (\<lambda>p. pbind (aload fr_address) (\<lambda>a.
          Ret (Some \<lparr>f_kind = k, f_syndrome = y, f_pc = p, f_address = a\<rparr>))))))"

text \<open>The machine-wide flag and one record per CPU.\<close>

record fatal_state =
  fs_fatal :: bool
  fs_records :: "failure_record list"

definition fs_new :: "nat \<Rightarrow> fatal_state" where
  "fs_new n = \<lparr>fs_fatal = False, fs_records = replicate n fr_new\<rparr>"

definition fs_record :: "nat \<Rightarrow> failure \<Rightarrow> (fatal_state, unit) prog" where
  "fs_record cpu f =
     pbind (astore (fs_fatal_update (\<lambda>_. True))) (\<lambda>_.
     pbind (aload (\<lambda>s. cpu < length (fs_records s))) (\<lambda>present.
     if present then plift (\<lambda>s. fs_records s ! cpu) (\<lambda>r s. s\<lparr>fs_records := (fs_records s)[cpu := r]\<rparr>) (fr_record cpu f)
     else Ret ()))"

section \<open>The protocol\<close>

definition fr_inv :: "failure_record \<Rightarrow> bool" where
  "fr_inv s \<longleftrightarrow> (fr_state s \<noteq> 0 \<longleftrightarrow> fr_winner s \<noteq> None) \<and>
     (fr_state s = 2 \<longrightarrow> (\<exists>i. fr_winner s =
        Some (i, \<lparr>f_kind = fr_kind s, f_syndrome = fr_syndrome s, f_pc = fr_pc s, f_address = fr_address s\<rparr>)))"

inductive fr_guar :: "nat \<Rightarrow> failure_record \<Rightarrow> failure_record \<Rightarrow> bool" where
  same: "fr_guar i s s"
| win: "fr_state s = 0 \<Longrightarrow> fr_guar i s (s\<lparr>fr_state := 1, fr_winner := Some (i, f)\<rparr>)"
| kind: "fr_state s = 1 \<Longrightarrow> fr_winner s = Some (i, f) \<Longrightarrow> fr_guar i s (s\<lparr>fr_kind := w\<rparr>)"
| syndrome: "fr_state s = 1 \<Longrightarrow> fr_winner s = Some (i, f) \<Longrightarrow> fr_guar i s (s\<lparr>fr_syndrome := w\<rparr>)"
| pc: "fr_state s = 1 \<Longrightarrow> fr_winner s = Some (i, f) \<Longrightarrow> fr_guar i s (s\<lparr>fr_pc := w\<rparr>)"
| address: "fr_state s = 1 \<Longrightarrow> fr_winner s = Some (i, f) \<Longrightarrow> fr_guar i s (s\<lparr>fr_address := w\<rparr>)"
| ready: "fr_state s = 1 \<Longrightarrow> fr_winner s = Some (i, \<lparr>f_kind = fr_kind s, f_syndrome = fr_syndrome s, f_pc = fr_pc s, f_address = fr_address s\<rparr>)
    \<Longrightarrow> fr_guar i s (s\<lparr>fr_state := 2\<rparr>)"

lemma fr_guar_inv: "fr_guar i s s' \<Longrightarrow> fr_inv s \<Longrightarrow> fr_inv s'"
  by (induction rule: fr_guar.induct) (auto simp: fr_inv_def)

lemma fr_guar_keeps:
  assumes "fr_guar i s s'" and "fr_inv s"
  shows "(fr_winner s \<noteq> None \<longrightarrow> fr_winner s' = fr_winner s) \<and>
    (fr_state s = 2 \<longrightarrow> s' = s)"
  using assms by (induction rule: fr_guar.induct) (auto simp: fr_inv_def)

lemma fr_guar_other:
  assumes "fr_guar j s s'" and "j \<noteq> i" and "fr_state s = 1" and "fr_winner s = Some (i, f)"
  shows "s' = s"
  using assms by (induction rule: fr_guar.induct) auto

abbreviation fr_rely :: "nat \<Rightarrow> failure_record \<Rightarrow> failure_record \<Rightarrow> bool" where
  "fr_rely i \<equiv> (\<lambda>s s'. \<exists>j. j \<noteq> i \<and> fr_guar j s s')"

abbreviation fr_safe :: "nat \<Rightarrow> (failure_record \<Rightarrow> bool) \<Rightarrow> (failure_record, 'a) prog \<Rightarrow> ('a \<Rightarrow> failure_record \<Rightarrow> bool) \<Rightarrow> bool" where
  "fr_safe i \<equiv> safe fr_inv (fr_rely i) (fr_guar i)"

abbreviation fr_stable :: "nat \<Rightarrow> (failure_record \<Rightarrow> bool) \<Rightarrow> bool" where
  "fr_stable i \<equiv> stable_under fr_inv (fr_rely i)"

definition recording :: "nat \<Rightarrow> failure \<Rightarrow> (failure_record \<Rightarrow> bool) \<Rightarrow> failure_record \<Rightarrow> bool" where
  "recording i f P s \<longleftrightarrow> fr_state s = 1 \<and> fr_winner s = Some (i, f) \<and> P s"

lemma recording_stable [simp]: "fr_stable i (recording i f P)"
  unfolding stable_under_def recording_def using fr_guar_other by blast

lemma fr_store:
  assumes "\<And>s. fr_inv s \<Longrightarrow> P s \<Longrightarrow> fr_guar i s (f s)" and "\<And>s. P s \<Longrightarrow> post (f s)" and "fr_stable i post"
  shows "fr_safe i P (astore f) (\<lambda>_. post)"
  unfolding astore_armw using assms by (intro safe_armw) (auto intro: fr_guar_inv)

lemma fr_record_safe: "fr_safe i (\<lambda>_. True) (fr_record i f) (\<lambda>_ s. fr_winner s \<noteq> None)"
proof -
  have some: "fr_stable i (\<lambda>s. fr_winner s \<noteq> None)" unfolding stable_under_def using fr_guar_keeps by metis
  have win: "fr_safe i (\<lambda>_. True) (armw (\<lambda>s. if fr_state s = 0 then (s\<lparr>fr_state := 1, fr_winner := Some (i, f)\<rparr>, True) else (s, False)))
      (\<lambda>won s. fr_winner s \<noteq> None \<and> (won \<longrightarrow> recording i f (\<lambda>_. True) s))"
  proof (rule safe_armw)
    show "fr_stable i (\<lambda>s. fr_winner s \<noteq> None \<and> (won \<longrightarrow> recording i f (\<lambda>_. True) s))" for won
      using some by (intro stable_under_conj) auto
    show "fr_inv s \<Longrightarrow> fr_guar i s s' \<Longrightarrow> fr_inv s'" for s s' by (rule fr_guar_inv)
  qed (auto simp: recording_def fr_inv_def intro: fr_guar.intros)
  have a: "fr_safe i (recording i f (\<lambda>_. True)) (astore (fr_kind_update (\<lambda>_. f_kind f))) (\<lambda>_. recording i f (\<lambda>s. fr_kind s = f_kind f))"
    by (rule fr_store [OF _ _ recording_stable]) (auto simp: recording_def intro: fr_guar.intros)
  have b: "fr_safe i (recording i f (\<lambda>s. fr_kind s = f_kind f)) (astore (fr_syndrome_update (\<lambda>_. f_syndrome f)))
      (\<lambda>_. recording i f (\<lambda>s. fr_kind s = f_kind f \<and> fr_syndrome s = f_syndrome f))"
    by (rule fr_store [OF _ _ recording_stable]) (auto simp: recording_def intro: fr_guar.intros)
  have c: "fr_safe i (recording i f (\<lambda>s. fr_kind s = f_kind f \<and> fr_syndrome s = f_syndrome f)) (astore (fr_pc_update (\<lambda>_. f_pc f)))
      (\<lambda>_. recording i f (\<lambda>s. fr_kind s = f_kind f \<and> fr_syndrome s = f_syndrome f \<and> fr_pc s = f_pc f))"
    by (rule fr_store [OF _ _ recording_stable]) (auto simp: recording_def intro: fr_guar.intros)
  have d: "fr_safe i (recording i f (\<lambda>s. fr_kind s = f_kind f \<and> fr_syndrome s = f_syndrome f \<and> fr_pc s = f_pc f))
      (astore (fr_address_update (\<lambda>_. f_address f)))
      (\<lambda>_. recording i f (\<lambda>s. \<lparr>f_kind = fr_kind s, f_syndrome = fr_syndrome s, f_pc = fr_pc s, f_address = fr_address s\<rparr> = f))"
    by (rule fr_store [OF _ _ recording_stable]) (auto simp: recording_def intro: fr_guar.intros)
  have e: "fr_safe i (recording i f (\<lambda>s. \<lparr>f_kind = fr_kind s, f_syndrome = fr_syndrome s, f_pc = fr_pc s, f_address = fr_address s\<rparr> = f))
      (astore (fr_state_update (\<lambda>_. 2))) (\<lambda>_ s. fr_winner s \<noteq> None)"
    by (rule fr_store [OF _ _ some]) (auto simp: recording_def intro: fr_guar.intros)
  show ?thesis unfolding fr_record_def
    by (rule safe_pbind [OF win], rule safe_if)
      (auto intro!: safe_Ret safe_weaken [OF safe_pbind [OF a]] safe_pbind [OF b] safe_pbind [OF c] safe_pbind [OF d] e simp del: not_None_eq)
qed

lemma fr_snapshot_safe:
  "fr_safe i (\<lambda>_. True) fr_snapshot (\<lambda>r s. \<forall>f. r = Some f \<longrightarrow> (\<exists>j. fr_winner s = Some (j, f)))"
proof -
  have load: "fr_safe i (\<lambda>s. fr_state s = 2 \<and> P s) (aload get) (\<lambda>v s. fr_state s = 2 \<and> P s \<and> get s = v)" for P and get :: "failure_record \<Rightarrow> u64"
  proof (rule safe_aload)
    show "fr_stable i (\<lambda>s. fr_state s = 2 \<and> P s \<and> get s = v)" for v
      unfolding stable_under_def using fr_guar_keeps by metis
  qed (auto intro: fr_guar.same)
  have st: "fr_safe i (\<lambda>_. True) (aload fr_state) (\<lambda>st s. st = 2 \<longrightarrow> fr_state s = 2 \<and> True)"
  proof (rule safe_aload)
    show "fr_stable i (\<lambda>s. st = 2 \<longrightarrow> fr_state s = 2 \<and> True)" for st :: u8
      unfolding stable_under_def using fr_guar_keeps by metis
  qed (auto intro: fr_guar.same)
  show ?thesis unfolding fr_snapshot_def
    by (rule safe_pbind [OF st], rule safe_if)
      (auto intro!: safe_Ret safe_weaken [OF safe_pbind [OF load [where P = "\<lambda>_. True"]]] safe_pbind [OF load] simp: fr_inv_def)
qed

definition fr_api :: "nat \<Rightarrow> (failure_record, unit) prog \<Rightarrow> bool" where
  "fr_api i p \<longleftrightarrow> (\<exists>f. p = discard (fr_record i f)) \<or> p = discard fr_snapshot"

interpretation fr: shared_protocol fr_inv fr_guar fr_api
proof
  show "fr_inv s \<Longrightarrow> fr_guar i s s' \<Longrightarrow> fr_inv s'" for s i s' using fr_guar_inv by blast
  show "fr_api i p \<Longrightarrow> fr_safe i (\<lambda>_. True) p (\<lambda>_ _. True)" for i p
    unfolding fr_api_def using safe_discard [OF fr_record_safe] safe_discard [OF fr_snapshot_safe] by blast
qed

lemma fr_new_inv: "fr_inv fr_new"
  by (simp add: fr_inv_def fr_new_def)

text \<open>
  C7: first failure wins. In every interleaving of recorders and readers the failure that
  was recorded first is never replaced, and a snapshot that returns anything returns that
  failure whole, never a mixture of two.
\<close>

theorem first_failure_correct:
  assumes "(istep fr_api)\<^sup>*\<^sup>* (fr_new, \<lambda>_. Ret ()) (s, pool)" and "(istep fr_api)\<^sup>*\<^sup>* (s, pool) (s', pool')"
  shows "(fr_winner s \<noteq> None \<longrightarrow> fr_winner s' = fr_winner s) \<and>
    (\<forall>i f t. exec (\<lambda>s s'. \<exists>j. j \<noteq> i \<and> fr_guar j s s') fr_snapshot s (Some f) t \<longrightarrow> (\<exists>j. fr_winner t = Some (j, f))) \<and>
    (\<forall>i f t. exec (\<lambda>s s'. \<exists>j. j \<noteq> i \<and> fr_guar j s s') (fr_record i f) s () t \<longrightarrow> fr_winner t \<noteq> None)"
proof -
  have inv: "fr_inv s" using fr.reachable_inv [OF fr_new_inv refl assms(1)] .
  have ok: "fr.conf_ok (s, pool)" by (rule fr.isteps_ok [OF assms(1) fr.start_ok [OF fr_new_inv]]) simp
  have "fr_winner s' = Some w" if "fr_winner s = Some w" for w
    using fr.isteps_stable [OF assms(2) ok, of "\<lambda>t. fr_winner t = Some w"] fr_guar_keeps that by fastforce
  then have "fr_winner s \<noteq> None \<longrightarrow> fr_winner s' = fr_winner s" by (cases "fr_winner s") auto
  moreover have "\<exists>j. fr_winner t = Some (j, f)" if "exec (fr_rely i) fr_snapshot s (Some f) t" for i f t
    using fr.exec_ok [where P = "\<lambda>_. True", OF that inv TrueI fr_snapshot_safe] by simp
  moreover have "fr_winner t \<noteq> None" if "exec (fr_rely i) (fr_record i f) s () t" for i f t
    using fr.exec_ok [where P = "\<lambda>_. True", OF that inv TrueI fr_record_safe] by simp
  ultimately show ?thesis by blast
qed

theorem first_failure_correct_witness:
  "\<exists>s pool. (istep fr_api)\<^sup>*\<^sup>* (fr_new, \<lambda>_. Ret ()) (s, pool) \<and> fr_winner s = Some (1, \<lparr>f_kind = 3, f_syndrome = 0, f_pc = 0, f_address = 1\<rparr>) \<and>
     fst (run fr_snapshot s) = Some \<lparr>f_kind = 3, f_syndrome = 0, f_pc = 0, f_address = 1\<rparr>"
proof -
  let ?f = "\<lparr>f_kind = 3, f_syndrome = 0, f_pc = 0, f_address = 1\<rparr>" let ?s = "snd (run (discard (fr_record 1 ?f)) fr_new)"
  have r: "(istep fr_api)\<^sup>*\<^sup>* (fr_new, \<lambda>_. Ret ()) (?s, \<lambda>_. Ret ())"
    by (rule run_isteps [where i = 1]) (auto simp: fr_api_def)
  have s: "fst (run fr_snapshot ?s) = Some ?f"
    by (simp add: fr_record_def fr_snapshot_def prog_defs run_pbind fr_new_def)
  have "exec (fr_rely 0) fr_snapshot ?s (Some ?f) (snd (run fr_snapshot ?s))" using exec_run [of "fr_rely 0" fr_snapshot ?s] s by simp
  then have "\<exists>j. fr_winner (snd (run fr_snapshot ?s)) = Some (j, ?f)" using first_failure_correct [OF r rtranclp.rtrancl_refl] by blast
  moreover have "fr_winner ?s = Some (1, ?f)" by (simp add: fr_record_def prog_defs run_pbind fr_new_def)
  ultimately show ?thesis using r s by blast
qed

end
