(* ===== verification/Irq_Lock.thy ===== *)
theory Irq_Lock
  imports Tvisor_Prelude
begin

text \<open>
  IRQ-saving locks (\<open>tvisor_util/sync.rs\<close>). The interrupt mask is the CPU's \<open>DAIF\<close> word.
  The spin mutex is a library: it is the pair of parameters \<open>acquire\<close> (one attempt, \<open>None\<close>
  while another CPU holds it) and \<open>release\<close>.
\<close>

definition save_and_mask :: "u64 \<Rightarrow> u64 \<times> u64" where
  "save_and_mask daif = (daif, daif OR push_bit 7 1)"

definition restore :: "u64 \<Rightarrow> u64 \<Rightarrow> u64" where
  "restore state daif = (if state AND push_bit 7 1 = 0 then daif AND NOT (push_bit 7 1) else daif OR push_bit 7 1)"

text \<open>\<open>IrqGuard\<close>: the saved mask; the mutex guard is the fact that the mutex is held.\<close>

record irq_guard =
  guard_saved :: u64

text \<open>\<open>lock\<close> masks first and then spins; \<open>None\<close> is an attempt that has not acquired the mutex yet.\<close>

definition irq_lock :: "('m \<Rightarrow> 'm option) \<Rightarrow> u64 \<times> 'm \<Rightarrow> (irq_guard \<times> u64 \<times> 'm) option" where
  "irq_lock acquire s = (case s of (daif, m) \<Rightarrow> (case save_and_mask daif of (saved, daif) \<Rightarrow>
     (case acquire m of None \<Rightarrow> None | Some m \<Rightarrow> Some (\<lparr>guard_saved = saved\<rparr>, daif, m))))"

definition irq_try_lock :: "('m \<Rightarrow> 'm option) \<Rightarrow> u64 \<times> 'm \<Rightarrow> irq_guard option \<times> u64 \<times> 'm" where
  "irq_try_lock acquire s = (case s of (daif, m) \<Rightarrow> (case save_and_mask daif of (saved, daif) \<Rightarrow>
     (case acquire m of
        Some m \<Rightarrow> (Some \<lparr>guard_saved = saved\<rparr>, daif, m)
      | None \<Rightarrow> (None, restore saved daif, m))))"

text \<open>Dropping the guard releases the mutex and then restores the mask: both states, in that order.\<close>

definition guard_drop :: "('m \<Rightarrow> 'm) \<Rightarrow> irq_guard \<Rightarrow> u64 \<times> 'm \<Rightarrow> (u64 \<times> 'm) list" where
  "guard_drop release g s = (case s of (daif, m) \<Rightarrow> [(daif, release m), (restore (guard_saved g) daif, release m)])"

definition irq_masked :: "u64 \<Rightarrow> bool" where
  "irq_masked daif = bit daif 7"

lemma bit_128 [simp]: "bit (128 :: int) n \<longleftrightarrow> n = 7"
  using bit_exp_iff [of 7 n, where 'a = int] by auto

lemma irq_bit: "(d AND 128 = (0 :: u64)) \<longleftrightarrow> \<not> bit d 7"
proof
  assume "d AND 128 = 0"
  then have "bit (d AND 128) 7 = bit (0 :: u64) 7" by (rule arg_cong)
  then show "\<not> bit d 7" by (simp add: bit_simps)
qed (auto intro!: bit_word_eqI simp: bit_simps)

lemma restore_bits: "n < 64 \<Longrightarrow> bit (restore saved d) n \<longleftrightarrow> (if n = 7 then bit saved 7 else bit d n)"
  by (auto simp: restore_def irq_bit bit_simps)

text \<open>
  A critical section leaves the interrupt mask as it was and every other mask bit as the
  section left it; interrupts are masked while the mutex is held, and a failed attempt
  changes nothing.
\<close>

lemma irq_lock_section:
  assumes "irq_lock acquire (daif, m) = Some (g, daif1, m1)" and "irq_masked daif2"
  shows "irq_masked daif1 \<and> (\<forall>s \<in> set (butlast (guard_drop release g (daif2, m2))). irq_masked (fst s)) \<and>
    (\<forall>n < 64. bit (fst (last (guard_drop release g (daif2, m2)))) n \<longleftrightarrow> (if n = 7 then bit daif 7 else bit daif2 n)) \<and>
    snd (last (guard_drop release g (daif2, m2))) = release m2"
  using assms restore_bits
  by (auto simp: irq_lock_def save_and_mask_def guard_drop_def irq_masked_def bit_simps split: option.splits)

lemma irq_try_lock_failed: "acquire m = None \<Longrightarrow> irq_try_lock acquire (daif, m) = (None, daif, m)"
  by (auto simp: irq_try_lock_def save_and_mask_def restore_bits bit_simps intro!: bit_word_eqI split: if_splits)

lemma irq_try_lock_taken:
  "acquire m = Some m' \<Longrightarrow> \<exists>g d. irq_try_lock acquire (daif, m) = (Some g, d, m') \<and> irq_lock acquire (daif, m) = Some (g, d, m')"
  by (auto simp: irq_try_lock_def irq_lock_def save_and_mask_def)

end
