(* ===== verification/Allocation_Check.thy ===== *)
theory Allocation_Check
  imports Tvisor_Prelude
begin

text \<open>
  The independent check of live allocations (\<open>tvisor_util/allocation_check.rs\<close>): every range
  non-empty, aligned and without wrap-around, and no two overlapping.
\<close>

record range =
  rg_start :: u64
  rg_bytes :: u64
  rg_alignment :: u64

definition RANGE_EMPTY :: range where
  "RANGE_EMPTY = \<lparr>rg_start = 0, rg_bytes = 0, rg_alignment = 1\<rparr>"

datatype range_error = InvalidRange | RangeOverlap

text \<open>The inner loop; \<open>other.start + other.bytes\<close> is unchecked arithmetic.\<close>

fun check_others :: "u64 \<Rightarrow> u64 \<Rightarrow> range list \<Rightarrow> (unit, range_error) outcome" where
  "check_others start stop [] = Ok ()"
| "check_others start stop (other # others) =
     and_then (or_panic (checked_add (rg_start other) (rg_bytes other))) (\<lambda>other_end.
     if start < other_end \<and> rg_start other < stop then Err RangeOverlap else check_others start stop others)"

fun check_ranges :: "range list \<Rightarrow> range list \<Rightarrow> (unit, range_error) outcome" where
  "check_ranges seen [] = Ok ()"
| "check_ranges seen (r # rs) =
     and_then (ok_or InvalidRange (checked_add (rg_start r) (rg_bytes r))) (\<lambda>stop.
     if rg_start r = 0 \<or> rg_bytes r = 0 \<or> \<not> is_power_of_two (rg_alignment r) \<or> rg_start r mod rg_alignment r \<noteq> 0
     then Err InvalidRange
     else and_then (check_others (rg_start r) stop seen) (\<lambda>_. check_ranges (seen @ [r]) rs))"

definition validate_ranges :: "range list \<Rightarrow> (unit, range_error) outcome" where
  "validate_ranges rs = check_ranges [] rs"

section \<open>What the check decides\<close>

definition range_bytes :: "range \<Rightarrow> nat set" where
  "range_bytes r = {unat (rg_start r)..<unat (rg_start r) + unat (rg_bytes r)}"

definition range_ok :: "range \<Rightarrow> bool" where
  "range_ok r \<longleftrightarrow> 0 < unat (rg_start r) \<and> 0 < unat (rg_bytes r) \<and> unat (rg_start r) + unat (rg_bytes r) < 2 ^ 64 \<and>
     is_power_of_two (rg_alignment r) \<and> unat (rg_alignment r) dvd unat (rg_start r)"

definition apart :: "range \<Rightarrow> range \<Rightarrow> bool" where
  "apart q r \<longleftrightarrow> range_bytes r \<inter> range_bytes q = {}"

lemma mod_eq_0_dvd: "(a :: u64) mod b = 0 \<longleftrightarrow> unat b dvd unat a"
  by (metis dvd_eq_mod_eq_0 unat_0 unat_eq_zero unat_mod)

lemma range_head:
  "range_ok r \<longleftrightarrow> checked_add (rg_start r) (rg_bytes r) = Some (rg_start r + rg_bytes r) \<and> rg_start r \<noteq> 0 \<and> rg_bytes r \<noteq> 0 \<and>
     is_power_of_two (rg_alignment r) \<and> rg_start r mod rg_alignment r = 0"
  by (auto simp: range_ok_def checked_add_def mod_eq_0_dvd unat_eq_zero word_neq_0_conv word_less_nat_alt)

lemma range_stop: "range_ok r \<Longrightarrow> unat (rg_start r + rg_bytes r) = unat (rg_start r) + unat (rg_bytes r)"
  by (auto simp: range_ok_def intro!: unat_add_no_overflow)

lemma ranges_meet:
  assumes "range_ok r" and "range_ok q"
  shows "rg_start r < rg_start q + rg_bytes q \<and> rg_start q < rg_start r + rg_bytes r \<longleftrightarrow> \<not> apart q r"
proof -
  have "rg_start r < rg_start q + rg_bytes q \<and> rg_start q < rg_start r + rg_bytes r \<longleftrightarrow>
      unat (rg_start r) < unat (rg_start q) + unat (rg_bytes q) \<and> unat (rg_start q) < unat (rg_start r) + unat (rg_bytes r)"
    using range_stop [OF assms(1)] range_stop [OF assms(2)] by (simp add: word_less_nat_alt)
  also have "\<dots> \<longleftrightarrow> max (unat (rg_start r)) (unat (rg_start q)) \<in> range_bytes r \<inter> range_bytes q"
    using assms by (auto simp: range_bytes_def range_ok_def max_def)
  also have "\<dots> \<longleftrightarrow> \<not> apart q r"
    by (auto simp: range_bytes_def max_def apart_def)
  finally show ?thesis .
qed

lemma check_others_eq:
  assumes "range_ok r" and "\<forall>q \<in> set others. range_ok q"
  shows "check_others (rg_start r) (rg_start r + rg_bytes r) others =
    (if \<exists>q \<in> set others. \<not> apart q r then Err RangeOverlap else Ok ())"
  using assms(2)
proof (induction others)
  case (Cons q others)
  then have q: "range_ok q" by simp
  then have "checked_add (rg_start q) (rg_bytes q) = Some (rg_start q + rg_bytes q)" by (simp add: range_head)
  then show ?case using Cons ranges_meet [OF assms(1) q] by simp
qed simp

lemma check_ranges_eq:
  assumes "\<forall>q \<in> set seen. range_ok q"
  shows "check_ranges seen rs \<noteq> Panic \<and>
    (is_ok (check_ranges seen rs) \<longleftrightarrow> (\<forall>r \<in> set rs. range_ok r \<and> (\<forall>q \<in> set seen. apart q r)) \<and>
       sorted_wrt apart rs)"
  using assms
proof (induction rs arbitrary: seen)
  case (Cons r rs)
  show ?case
  proof (cases "range_ok r")
    case True
    then have h: "checked_add (rg_start r) (rg_bytes r) = Some (rg_start r + rg_bytes r)" "rg_start r \<noteq> 0" "rg_bytes r \<noteq> 0"
      "is_power_of_two (rg_alignment r)" "rg_start r mod rg_alignment r = 0" by (simp_all add: range_head)
    have IH: "check_ranges (seen @ [r]) rs \<noteq> Panic \<and>
      (is_ok (check_ranges (seen @ [r]) rs) \<longleftrightarrow> (\<forall>x \<in> set rs. range_ok x \<and> (\<forall>q \<in> set (seen @ [r]). apart q x)) \<and>
       sorted_wrt apart rs)"
      using Cons True by simp
    show ?thesis using IH True Cons.prems by (auto simp: h check_others_eq)
  next
    case False
    then have "check_ranges seen (r # rs) = Err InvalidRange"
      unfolding range_head checked_add_def check_ranges.simps by (auto split: if_splits)
    then show ?thesis using False by simp
  qed
qed simp

lemma validate_ranges_correct:
  "validate_ranges rs \<noteq> Panic \<and>
   (is_ok (validate_ranges rs) \<longleftrightarrow> (\<forall>r \<in> set rs. range_ok r) \<and> sorted_wrt apart rs)"
  using check_ranges_eq [of "[]" rs] by (simp add: validate_ranges_def)

end
