(* ===== verification/Heap_Allocator.thy ===== *)
theory Heap_Allocator
  imports Tvisor_Prelude
begin

text \<open>
  The global Rust heap (\<open>tvisor_util/heap_allocator.rs\<close>). The byte allocator inside it is the
  \<open>linked_list_allocator\<close> crate, a parameter given by its operations; the wrapper adds the
  one-time initialisation and the counters. The mutex makes each operation one step.
\<close>

record layout =
  layout_size :: usize
  layout_align :: usize

text \<open>The operations of the library heap the wrapper calls; \<open>heap_alloc\<close> is \<open>allocate_first_fit\<close>.\<close>

record 'h heap_ops =
  heap_empty :: 'h
  heap_init :: "usize \<Rightarrow> usize \<Rightarrow> 'h \<Rightarrow> 'h"
  heap_alloc :: "layout \<Rightarrow> 'h \<Rightarrow> (usize \<times> 'h) option"
  heap_dealloc :: "usize \<Rightarrow> layout \<Rightarrow> 'h \<Rightarrow> 'h"
  heap_size :: "'h \<Rightarrow> usize"
  heap_used :: "'h \<Rightarrow> usize"
  heap_free :: "'h \<Rightarrow> usize"

datatype heap_error = AlreadyInitialized | InvalidRegion | NotInitialized

record heap_stats =
  hs_arena_start :: usize
  hs_arena_bytes :: usize
  hs_used_bytes :: usize
  hs_free_bytes :: usize
  hs_live_allocations :: usize
  hs_failed_allocations :: usize

record 'h tvisor_heap =
  th_heap :: 'h
  th_arena_start :: usize
  th_initialized :: bool
  th_live :: usize
  th_failed :: usize

definition th_empty :: "'h heap_ops \<Rightarrow> 'h tvisor_heap" where
  "th_empty ops = \<lparr>th_heap = heap_empty ops, th_arena_start = 0, th_initialized = False, th_live = 0, th_failed = 0\<rparr>"

definition th_initialize :: "'h heap_ops \<Rightarrow> usize \<Rightarrow> usize \<Rightarrow> 'h tvisor_heap \<Rightarrow> (unit, heap_error) outcome \<times> 'h tvisor_heap" where
  "th_initialize ops arena_start arena_bytes s =
     (if arena_start = 0 \<or> arena_bytes < 3 * 8 \<or> checked_add arena_start arena_bytes = None then (Err InvalidRegion, s)
      else if th_initialized s then (Err AlreadyInitialized, s)
      else (Ok (), s\<lparr>th_heap := heap_init ops arena_start arena_bytes (th_heap s), th_arena_start := arena_start,
                     th_initialized := True\<rparr>))"

definition th_stats :: "'h heap_ops \<Rightarrow> 'h tvisor_heap \<Rightarrow> (heap_stats, heap_error) outcome" where
  "th_stats ops s =
     (if \<not> th_initialized s then Err NotInitialized
      else Ok \<lparr>hs_arena_start = th_arena_start s, hs_arena_bytes = heap_size ops (th_heap s), hs_used_bytes = heap_used ops (th_heap s),
               hs_free_bytes = heap_free ops (th_heap s), hs_live_allocations = th_live s, hs_failed_allocations = th_failed s\<rparr>)"

text \<open>The null pointer is 0; the counters wrap, as \<open>fetch_add\<close> and \<open>fetch_sub\<close> do.\<close>

definition th_alloc :: "'h heap_ops \<Rightarrow> layout \<Rightarrow> 'h tvisor_heap \<Rightarrow> usize \<times> 'h tvisor_heap" where
  "th_alloc ops l s =
     (if \<not> th_initialized s then (0, s\<lparr>th_failed := th_failed s + 1\<rparr>)
      else case heap_alloc ops l (th_heap s) of
             Some (p, h) \<Rightarrow> (p, s\<lparr>th_heap := h, th_live := th_live s + 1\<rparr>)
           | None \<Rightarrow> (0, s\<lparr>th_failed := th_failed s + 1\<rparr>))"

definition th_dealloc :: "'h heap_ops \<Rightarrow> usize \<Rightarrow> layout \<Rightarrow> 'h tvisor_heap \<Rightarrow> 'h tvisor_heap" where
  "th_dealloc ops p l s =
     (if p = 0 then s
      else if \<not> th_initialized s then s
      else s\<lparr>th_heap := heap_dealloc ops p l (th_heap s), th_live := th_live s - 1\<rparr>)"

section \<open>Sequences of calls\<close>

datatype heap_call = Initialize usize usize | Alloc layout | Dealloc usize layout

fun heap_step :: "'h heap_ops \<Rightarrow> heap_call \<Rightarrow> 'h tvisor_heap \<Rightarrow> 'h tvisor_heap" where
  "heap_step ops (Initialize a n) s = snd (th_initialize ops a n s)"
| "heap_step ops (Alloc l) s = snd (th_alloc ops l s)"
| "heap_step ops (Dealloc p l) s = th_dealloc ops p l s"

text \<open>
  \<open>live_after\<close>: the pointers handed out and not given back, when every deallocation is of a
  live pointer (the contract of \<open>GlobalAlloc\<close>).
\<close>

fun live_after :: "'h heap_ops \<Rightarrow> heap_call list \<Rightarrow> 'h tvisor_heap \<Rightarrow> usize list \<Rightarrow> ('h tvisor_heap \<times> usize list) option" where
  "live_after ops [] s live = Some (s, live)"
| "live_after ops (Alloc l # cs) s live =
     (case th_alloc ops l s of (p, t) \<Rightarrow> live_after ops cs t (if p = 0 then live else p # live))"
| "live_after ops (Dealloc p l # cs) s live =
     (if p \<in> set live then live_after ops cs (th_dealloc ops p l s) (remove1 p live) else None)"
| "live_after ops (Initialize a n # cs) s live = live_after ops cs (snd (th_initialize ops a n s)) live"

text \<open>
  Documented behaviour of the library: \<open>allocate_first_fit\<close> returns a \<open>NonNull\<close>. Then the
  counter \<open>live_allocations\<close> is the number of live pointers, and nothing is handed out
  before the heap is initialised.
\<close>

lemma th_live_counts:
  assumes "\<And>l h p h'. heap_alloc ops l h = Some (p, h') \<Longrightarrow> p \<noteq> 0"
    and "th_live s = word_of_nat (length live)" and "0 \<notin> set live" and "live \<noteq> [] \<longrightarrow> th_initialized s"
    and "live_after ops cs s live = Some (t, live')"
  shows "th_live t = word_of_nat (length live') \<and> (live' \<noteq> [] \<longrightarrow> th_initialized t)"
  using assms(2-5)
proof (induction cs arbitrary: s live)
  case (Cons c cs)
  show ?case
  proof (cases c)
    case (Alloc l)
    obtain p u where a: "th_alloc ops l s = (p, u)" by (cases "th_alloc ops l s")
    have "th_live u = word_of_nat (length (if p = 0 then live else p # live))" "th_initialized u = th_initialized s"
      "p \<noteq> 0 \<longrightarrow> th_initialized s"
      using a assms(1) Cons.prems(1) by (auto simp: th_alloc_def split: if_splits option.splits)
    then show ?thesis using Cons.IH [of u "if p = 0 then live else p # live"] Cons.prems a Alloc by (auto split: if_splits)
  next
    case (Dealloc p l)
    then have p: "p \<in> set live" using Cons.prems(4) by (auto split: if_splits)
    then have i: "th_initialized s" "p \<noteq> 0" using Cons.prems by auto
    have "length live = Suc (length (remove1 p live))" using p length_pos_if_in_set [OF p] by (simp add: length_remove1)
    then have "th_live (th_dealloc ops p l s) = word_of_nat (length (remove1 p live))"
      using i Cons.prems(1) by (simp add: th_dealloc_def)
    then show ?thesis
      using Cons.IH [of "th_dealloc ops p l s" "remove1 p live"] Cons.prems Dealloc p i notin_set_remove1 [of 0 live p]
      by (simp add: th_dealloc_def)
  next
    case (Initialize a n)
    have "th_live (snd (th_initialize ops a n s)) = th_live s" "th_initialized s \<longrightarrow> th_initialized (snd (th_initialize ops a n s))"
      by (auto simp: th_initialize_def)
    then show ?thesis using Cons.IH [of "snd (th_initialize ops a n s)" live] Cons.prems Initialize by simp
  qed
qed simp

lemma th_initialize_once:
  "th_initialize ops a n s = (Ok (), t) \<Longrightarrow> fst (th_initialize ops a' n' t) \<noteq> Ok () \<and> snd (th_initialize ops a' n' t) = t"
  by (auto simp: th_initialize_def split: if_splits)

end
