(* ===== verification/Page_Walk.thy ===== *)
theory Page_Walk
  imports El2_Stage1
begin

text \<open>
  Page-wise reasoning about the EL2 tables: a walk gives the same answer on a whole page,
  and a loop that visits one address of every page of a range therefore speaks about every
  address of it. The start-up checks of \<open>pcpu.rs\<close> and \<open>startup_resources.rs\<close> rest on this.
\<close>

text \<open>\<open>(start..end).step_by(PAGE_SIZE)\<close>.\<close>

definition step_pages :: "u64 \<Rightarrow> u64 \<Rightarrow> u64 list" where
  "step_pages start stop = map (\<lambda>k. start + word_of_nat (4096 * k)) [0..<(unat stop - unat start + 4095) div 4096]"

definition same_page :: "u64 \<Rightarrow> u64 \<Rightarrow> bool" where
  "same_page v w \<longleftrightarrow> drop_bit 12 v = drop_bit 12 w"

lemma same_page_bit: "same_page v w \<Longrightarrow> 12 \<le> n \<Longrightarrow> bit v n \<longleftrightarrow> bit w n"
proof -
  assume "same_page v w" "12 \<le> n"
  then have "bit (drop_bit 12 v) (n - 12) = bit (drop_bit 12 w) (n - 12)" by (simp add: same_page_def)
  then show ?thesis using \<open>12 \<le> n\<close> by (simp add: bit_simps)
qed

lemma same_page_div: "same_page v w \<longleftrightarrow> unat v div 4096 = unat w div 4096"
proof -
  have "unat (drop_bit 12 x) = unat x div 4096" for x :: u64
    unfolding unat_drop_bit_eq by (simp add: drop_bit_eq_div)
  then show ?thesis unfolding same_page_def word_unat_eq_iff by (simp only:)
qed

lemma same_page_index: "same_page v w \<Longrightarrow> index_for l v = index_for l w"
proof -
  assume p: "same_page v w"
  have "12 \<le> level_shift l" by (simp add: level_shift_def s1_consts)
  then have "drop_bit (level_shift l) v = drop_bit (level_shift l) w"
    using same_page_bit [OF p] by (intro bit_word_eqI) (auto simp: bit_simps)
  then show ?thesis by (simp add: index_for_def)
qed

lemma same_page_in_va: "same_page v w \<Longrightarrow> unat v < 2 ^ 39 \<longleftrightarrow> unat w < 2 ^ 39"
proof -
  have "unat x < 2 ^ 39 \<longleftrightarrow> unat x div 4096 < 2 ^ 27" for x :: u64
    by (simp add: div_less_iff_less_mult)
  then show "same_page v w \<Longrightarrow> ?thesis" unfolding same_page_div by metis
qed

text \<open>Two translations of addresses of one page: same attributes, same frame, own offset.\<close>

definition same_frame_of :: "u64 \<Rightarrow> u64 \<Rightarrow> trans \<Rightarrow> trans \<Rightarrow> bool" where
  "same_frame_of v w t u \<longleftrightarrow>
     tr_memory_type t = tr_memory_type u \<and> tr_writable t = tr_writable u \<and> tr_executable t = tr_executable u \<and> tr_level t = tr_level u \<and>
     (\<exists>base level. 1 \<le> level \<and> level \<le> 3 \<and> tr_pa t = (base AND output_mask level) OR (v AND (level_size level - 1)) \<and>
        tr_pa u = (base AND output_mask level) OR (w AND (level_size level - 1)))"

definition walks_agree ::
  "u64 \<Rightarrow> u64 \<Rightarrow> (trans option, translation_error) outcome \<Rightarrow> (trans option, translation_error) outcome \<Rightarrow> bool" where
  "walks_agree v w r r' \<longleftrightarrow> (case r of
      Ok (Some t) \<Rightarrow> (\<exists>u. r' = Ok (Some u) \<and> same_frame_of v w t u)
    | _ \<Rightarrow> r' = r)"

lemma walks_agree_simps [simp]:
  "walks_agree v w (Ok None) r' \<longleftrightarrow> r' = Ok None"
  "walks_agree v w (Err e) r' \<longleftrightarrow> r' = Err e"
  "walks_agree v w Panic r' \<longleftrightarrow> r' = Panic"
  "walks_agree v w (Ok (Some t)) r' \<longleftrightarrow> (\<exists>u. r' = Ok (Some u) \<and> same_frame_of v w t u)"
  by (simp_all add: walks_agree_def)

lemma walk_loop_same_page:
  assumes "same_page v w" and "set levels \<subseteq> {1, 2, 3}"
  shows "walks_agree v w (walk_loop ts v table levels) (walk_loop ts w table levels)"
  using assms(2)
proof (induction levels arbitrary: table)
  case (Cons l levels)
  note same = same_page_index [OF assms(1), of l]
  show ?case
  proof (cases "ts_entry ts table (index_for l v)")
    case (Ok d)
    show ?thesis
    proof (cases "d AND VALID \<noteq> 0 \<and> l < 3 \<and> d AND TABLE_OR_PAGE \<noteq> 0")
      case True
      then show ?thesis using Ok Cons same
        by (cases "table_index ts (d AND ADDRESS_MASK)") simp_all
    next
      case False
      have "1 \<le> l \<and> l \<le> 3" using Cons.prems by auto
      then show ?thesis using Ok False same by (auto simp: Let_def same_frame_of_def)
    qed
  qed (use same in simp_all)
qed simp

lemma walk_same_page:
  assumes "same_page v w"
  shows "walk ts v = Ok None \<Longrightarrow> walk ts w = Ok None"
    and "walk ts v = Ok (Some t) \<Longrightarrow> \<exists>u. walk ts w = Ok (Some u) \<and> same_frame_of v w t u"
proof -
  have va: "push_bit VA_BITS 1 \<le> v \<longleftrightarrow> push_bit VA_BITS 1 \<le> w"
    using same_page_in_va [OF assms] by (simp add: VA_BITS_def word_le_nat_alt not_less [symmetric])
  note wl = walk_loop_same_page [OF assms, of "[1, 2, 3]" ts 0]
  show "walk ts v = Ok None \<Longrightarrow> walk ts w = Ok None" using wl va by (auto simp: walk_def split: if_splits)
  show "walk ts v = Ok (Some t) \<Longrightarrow> \<exists>u. walk ts w = Ok (Some u) \<and> same_frame_of v w t u"
    using wl va by (auto simp: walk_def split: if_splits)
qed

text \<open>The address is mapped to itself, as normal memory with the given permissions.\<close>

definition identity_mapped :: "table_set \<Rightarrow> bool \<Rightarrow> bool \<Rightarrow> u64 \<Rightarrow> bool" where
  "identity_mapped ts w x a \<longleftrightarrow>
     (\<exists>t. walk ts a = Ok (Some t) \<and> tr_pa t = a \<and> tr_memory_type t = Normal \<and> tr_writable t = w \<and> tr_executable t = x)"

definition unmapped :: "table_set \<Rightarrow> u64 \<Rightarrow> bool" where
  "unmapped ts a \<longleftrightarrow> walk ts a = Ok None"

lemma bit_frame_offset:
  assumes "1 \<le> level" "level \<le> 3" "n < 12"
  shows "bit (output_mask level) n = False" "bit (level_size level - 1) n = True"
proof -
  have m: "level_size level - 1 = mask (level_shift level)" using level_size_mask assms by blast
  have "12 \<le> level_shift level" by (simp add: level_shift_def s1_consts)
  then show "bit (level_size level - 1) n = True" using assms by (simp add: m bit_simps)
  then show "bit (output_mask level) n = False" using assms by (simp add: output_mask_def bit_simps)
qed

lemma identity_mapped_same_page:
  assumes "same_page a v" and "identity_mapped ts w x a"
  shows "identity_mapped ts w x v"
proof -
  from assms(2) obtain t where t: "walk ts a = Ok (Some t)" "tr_pa t = a" "tr_memory_type t = Normal" "tr_writable t = w"
    "tr_executable t = x" unfolding identity_mapped_def by blast
  obtain u where u: "walk ts v = Ok (Some u)" and f: "same_frame_of a v t u"
    using walk_same_page(2) [OF assms(1) t(1)] by blast
  obtain base level where l: "1 \<le> level" "level \<le> 3"
    and ta: "a = (base AND output_mask level) OR (a AND (level_size level - 1))"
    and uv: "tr_pa u = (base AND output_mask level) OR (v AND (level_size level - 1))"
    using f t(2) unfolding same_frame_of_def by auto
  have "tr_pa u = v"
  proof (rule bit_word_eqI)
    fix n
    assume "n < LENGTH(64)"
    then have "bit a n \<longleftrightarrow> bit ((base AND output_mask level) OR (a AND (level_size level - 1))) n" using ta by metis
    then show "bit (tr_pa u) n \<longleftrightarrow> bit v n"
      using bit_frame_offset [OF l, of n] same_page_bit [OF assms(1), of n] unfolding uv
      by (cases "n < 12") (auto simp: bit_and_iff bit_or_iff)
  qed
  then show ?thesis using t u f unfolding identity_mapped_def same_frame_of_def by auto
qed

lemma unmapped_same_page: "same_page a v \<Longrightarrow> unmapped ts a \<Longrightarrow> unmapped ts v"
  unfolding unmapped_def by (rule walk_same_page(1))

text \<open>The addresses visited by a page loop, and that together with the last address they meet every page.\<close>

lemma set_step_pages:
  "unat a \<le> unat b \<Longrightarrow> set (step_pages a b) = {v. \<exists>k. unat v = unat a + 4096 * k \<and> unat v < unat b}"
proof -
  assume le: "unat a \<le> unat b"
  have "unat (a + word_of_nat (4096 * k)) = unat a + 4096 * k" if "unat a + 4096 * k < unat b" for k
    using that unat_u64_bound [of b]
    by (simp add: unat_add_no_overflow unat_word_of_nat_u64 del: of_nat_mult semiring_1_class.of_nat_mult)
  moreover have "k < (unat b - unat a + 4095) div 4096 \<longleftrightarrow> unat a + 4096 * k < unat b" for k using le by linarith
  ultimately show ?thesis unfolding step_pages_def by (auto simp: image_iff) (metis atLeast0LessThan lessThan_iff word_unat_eq_iff)
qed

lemma page_neighbour:
  "A + 4096 * k \<le> V \<Longrightarrow> V < A + 4096 * k + 4096 \<Longrightarrow>
     (A + 4096 * k) div 4096 = V div 4096 \<or> (A + 4096 * Suc k) div 4096 = V div (4096 :: nat)"
  using div_le_mono [of "A + 4096 * k" V 4096] div_le_mono [of V "A + 4096 * Suc k" 4096] by simp linarith

lemma step_pages_cover:
  assumes "unat a \<le> unat v" "unat v < unat b"
  shows "\<exists>p \<in> set (step_pages a b @ [b - 1]). same_page p v"
proof -
  define k where "k = (unat v - unat a) div 4096"
  have k: "unat a + 4096 * k \<le> unat v" "unat v < unat a + 4096 * k + 4096" unfolding k_def using assms by linarith+
  have visit: "\<exists>p \<in> set (step_pages a b). unat p = unat a + 4096 * j" if "unat a + 4096 * j < unat b" for j
  proof
    show "word_of_nat (unat a + 4096 * j) \<in> set (step_pages a b)" "unat (word_of_nat (unat a + 4096 * j) :: u64) = unat a + 4096 * j"
      using that assms unat_u64_bound [of b] by (auto simp: set_step_pages unat_word_of_nat_u64 simp del: of_nat_add of_nat_mult)
  qed
  have last: "unat (b - 1) = unat b - 1" using assms by (intro unat_pred) auto
  consider (same) "(unat a + 4096 * k) div 4096 = unat v div 4096"
    | (next_page) "(unat a + 4096 * Suc k) div 4096 = unat v div 4096" using page_neighbour [OF k] by blast
  then show ?thesis
  proof cases
    case same
    moreover obtain p where "p \<in> set (step_pages a b)" "unat p = unat a + 4096 * k" using visit [of k] k assms by auto
    ultimately have "same_page p v" unfolding same_page_div by simp
    then show ?thesis using \<open>p \<in> set (step_pages a b)\<close> by auto
  next
    case next_page
    show ?thesis
    proof (cases "unat a + 4096 * Suc k < unat b")
      case True
      then obtain p where p: "p \<in> set (step_pages a b)" "unat p = unat a + 4096 * Suc k" using visit by blast
      then have "same_page p v" using next_page unfolding same_page_div by simp
      then show ?thesis using p by auto
    next
      case False
      then have "unat v \<le> unat b - 1" "unat b - 1 \<le> unat a + 4096 * Suc k" using assms by simp_all
      then have "(unat b - 1) div 4096 = unat v div 4096"
        using next_page div_le_mono [of "unat v" "unat b - 1" 4096] div_le_mono [of "unat b - 1" "unat a + 4096 * Suc k" 4096] by linarith
      then show ?thesis unfolding same_page_div using last by auto
    qed
  qed
qed

text \<open>A page loop that checks a property shared by all addresses of a page checks it on the range.\<close>

lemma page_loop_covers:
  assumes "\<And>p v. same_page p v \<Longrightarrow> Q p \<Longrightarrow> Q v" and "unat a < unat b"
  shows "(\<forall>p \<in> set (step_pages a b @ [b - 1]). Q p) \<longleftrightarrow> (\<forall>v. unat a \<le> unat v \<and> unat v < unat b \<longrightarrow> Q v)"
proof
  assume "\<forall>p \<in> set (step_pages a b @ [b - 1]). Q p"
  then show "\<forall>v. unat a \<le> unat v \<and> unat v < unat b \<longrightarrow> Q v" using step_pages_cover assms(1) by blast
next
  have "unat (b - 1) = unat b - 1" using assms(2) by (intro unat_pred) auto
  moreover assume "\<forall>v. unat a \<le> unat v \<and> unat v < unat b \<longrightarrow> Q v"
  ultimately show "\<forall>p \<in> set (step_pages a b @ [b - 1]). Q p" using assms(2) by (auto simp: set_step_pages)
qed

end
