(* ===== verification/Pcpu_Stack.thy ===== *)
theory Pcpu_Stack
  imports Page_Walk Page_Allocator Secondary_Entry
begin

text \<open>
  The private stacks of the CPUs (\<open>tvisor_util/pcpu.rs\<close>): the layout of a stack and its
  guard page, its mapping and validation in the EL2 tables, and the allocation of one stack
  for every secondary CPU with rollback.
\<close>

definition STACK_SIZE :: u64 where "STACK_SIZE = 64 * 1024"
definition GUARD_SIZE :: u64 where "GUARD_SIZE = PAGE_SIZE"
definition STACK_ALLOCATION_SIZE :: u64 where "STACK_ALLOCATION_SIZE = GUARD_SIZE + STACK_SIZE"
definition STACK_ALLOCATION_PAGES :: nat where "STACK_ALLOCATION_PAGES = unat (STACK_ALLOCATION_SIZE div PAGE_SIZE)"

lemmas stack_consts = STACK_SIZE_def GUARD_SIZE_def STACK_ALLOCATION_SIZE_def STACK_ALLOCATION_PAGES_def PAGE_SIZE_def

lemma stack_allocation_pages [simp]: "STACK_ALLOCATION_PAGES = 17"
  by (simp add: stack_consts)

record stack_layout =
  sl_guard_start :: u64
  sl_bottom :: u64
  sl_top :: u64

definition stack_layout_of :: "u64 \<Rightarrow> (stack_layout, translation_error) outcome" where
  "stack_layout_of base =
     (if base AND (PAGE_SIZE - 1) \<noteq> 0 then Err TrInvalidateParameter
      else and_then (ok_or TrAddressOverflow (checked_add base GUARD_SIZE)) (\<lambda>bottom.
           and_then (ok_or TrAddressOverflow (checked_add bottom STACK_SIZE)) (\<lambda>top.
             Ok \<lparr>sl_guard_start = base, sl_bottom = bottom, sl_top = top\<rparr>)))"

fun expect_unmapped :: "table_set \<Rightarrow> u64 list \<Rightarrow> (unit, translation_error) outcome" where
  "expect_unmapped ts [] = Ok ()"
| "expect_unmapped ts (a # as) =
     and_then (walk ts a) (\<lambda>t. if t \<noteq> None then Err TrUnexpected else expect_unmapped ts as)"

fun expect_stack :: "table_set \<Rightarrow> u64 list \<Rightarrow> (unit, translation_error) outcome" where
  "expect_stack ts [] = Ok ()"
| "expect_stack ts (a # as) =
     and_then (and_then (walk ts a) (\<lambda>t. ok_or TrUnexpected t)) (\<lambda>m.
       if tr_pa m \<noteq> a \<or> \<not> tr_writable m \<or> tr_executable m \<or> tr_memory_type m \<noteq> Normal then Err TrUnexpected
       else expect_stack ts as)"

definition validate_stack :: "table_set \<Rightarrow> stack_layout \<Rightarrow> (unit, translation_error) outcome" where
  "validate_stack ts stack =
     and_then (expect_unmapped ts (step_pages (sl_guard_start stack) (sl_bottom stack))) (\<lambda>_.
       if sl_top stack = 0 then Panic
       else expect_stack ts (step_pages (sl_bottom stack) (sl_top stack) @ [sl_top stack - 1]))"

definition map_stack :: "table_set \<Rightarrow> stack_layout \<Rightarrow> (unit, translation_error) outcome \<times> table_set" where
  "map_stack ts stack =
     st_then (ts_map ts \<lparr>map_va = sl_bottom stack, map_pa = sl_bottom stack, map_size = STACK_SIZE,
         map_memory_type = Normal, map_writable = True, map_executable = False\<rparr>) (\<lambda>_ ts'.
       (validate_stack ts' stack, ts'))"

record secondary_stack =
  ss_logical_id :: nat
  ss_affinity :: u64
  ss_layout :: stack_layout

fun stack_loop ::
  "cpu_descriptor list \<Rightarrow> secondary_stack fixed_list \<Rightarrow> page_allocator \<Rightarrow>
   (unit, allocator_error) outcome \<times> secondary_stack fixed_list \<times> page_allocator" where
  "stack_loop [] stacks a = (Ok (), stacks, a)"
| "stack_loop (cpu # cpus) stacks a =
     (case cd_logical_id cpu of
        None \<Rightarrow> (Err InvalidateParameter, stacks, a)
      | Some logical_id \<Rightarrow> (case allocate_contiguous a STACK_ALLOCATION_PAGES of
            (Err e, a') \<Rightarrow> (Err e, stacks, a')
          | (Panic, a') \<Rightarrow> (Panic, stacks, a')
          | (Ok base, a') \<Rightarrow> (case stack_layout_of base of
                Ok layout \<Rightarrow> (case fl_push stacks \<lparr>ss_logical_id = logical_id, ss_affinity = cd_affinity cpu, ss_layout = layout\<rparr> of
                    (Ok _, stacks') \<Rightarrow> stack_loop cpus stacks' a'
                  | (_, stacks') \<Rightarrow> (Panic, stacks', a'))
              | _ \<Rightarrow> (Panic, stacks, a'))))"

fun free_stacks :: "secondary_stack list \<Rightarrow> page_allocator \<Rightarrow> (unit, allocator_error) outcome \<times> page_allocator" where
  "free_stacks [] a = (Ok (), a)"
| "free_stacks (s # ss) a =
     st_then (free_pages pa_free a (step_pages (sl_guard_start (ss_layout s)) (sl_top (ss_layout s)))) (\<lambda>_ a'. free_stacks ss a')"

definition allocate_secondary_stacks ::
  "cpu_topology \<Rightarrow> page_allocator \<Rightarrow> (secondary_stack fixed_list, allocator_error) outcome \<times> page_allocator" where
  "allocate_secondary_stacks topology a =
     (case stack_loop (filter (\<lambda>cpu. cd_enabled cpu \<and> cd_logical_id cpu \<noteq> Some 0) (ct_cpus topology)) (fl_new MAX_CPUS) a of
        (Ok _, stacks, a') \<Rightarrow> (Ok stacks, a')
      | (Panic, stacks, a') \<Rightarrow> (Panic, a')
      | (Err e, stacks, a') \<Rightarrow>
          st_then (fl_iter stacks, a') (\<lambda>ss a1. st_then (free_stacks ss a1) (\<lambda>_ a2. (Err e, a2))))"

section \<open>Validation of a stack\<close>

lemma stack_layout_Ok:
  "stack_layout_of base = Ok l \<longleftrightarrow> 4096 dvd unat base \<and> unat base + 69632 < 2 ^ 64 \<and>
     l = \<lparr>sl_guard_start = base, sl_bottom = base + 4096, sl_top = base + 69632\<rparr>"
  by (auto simp: stack_layout_of_def stack_consts and_4095_eq_0_iff outcome_simps checked_add_def unat_word_ariths
      split: if_splits)

lemma stack_bounds:
  assumes "stack_layout_of (sl_guard_start l) = Ok l"
  shows "unat (sl_bottom l) = unat (sl_guard_start l) + 4096" "unat (sl_top l) = unat (sl_guard_start l) + 69632"
    "4096 dvd unat (sl_guard_start l)"
  using assms unfolding stack_layout_Ok by (auto simp: unat_word_ariths dest: arg_cong [where f = sl_bottom] arg_cong [where f = sl_top])

lemma expect_unmapped_Ok: "expect_unmapped ts as = Ok () \<longleftrightarrow> (\<forall>a \<in> set as. unmapped ts a)"
  by (induction as) (auto simp: unmapped_def outcome_simps)

lemma expect_stack_Ok: "expect_stack ts as = Ok () \<longleftrightarrow> (\<forall>a \<in> set as. identity_mapped ts True False a)"
  by (induction as) (auto simp: identity_mapped_def outcome_simps)

lemma validate_stack_Ok:
  assumes "stack_layout_of (sl_guard_start l) = Ok l"
  shows "validate_stack ts l = Ok () \<longleftrightarrow>
    (\<forall>v. in_range (sl_guard_start l) 4096 v \<longrightarrow> unmapped ts v) \<and>
    (\<forall>v. in_range (sl_bottom l) 65536 v \<longrightarrow> identity_mapped ts True False v)"
proof -
  note b = stack_bounds [OF assms]
  have g: "(\<forall>a \<in> set (step_pages (sl_guard_start l) (sl_bottom l)). unmapped ts a) \<longleftrightarrow>
      (\<forall>v. in_range (sl_guard_start l) 4096 v \<longrightarrow> unmapped ts v)"
  proof
    assume "\<forall>a \<in> set (step_pages (sl_guard_start l) (sl_bottom l)). unmapped ts a"
    then have "unmapped ts (sl_guard_start l)" using b by (simp add: set_step_pages)
    moreover have "same_page (sl_guard_start l) v" if "in_range (sl_guard_start l) 4096 v" for v
      using that b(3) div_eq_iff_range [of 4096 "unat (sl_guard_start l)" "unat v"] unfolding same_page_div in_range_def by simp
    ultimately show "\<forall>v. in_range (sl_guard_start l) 4096 v \<longrightarrow> unmapped ts v" using unmapped_same_page by blast
  next
    assume "\<forall>v. in_range (sl_guard_start l) 4096 v \<longrightarrow> unmapped ts v"
    then show "\<forall>a \<in> set (step_pages (sl_guard_start l) (sl_bottom l)). unmapped ts a"
      using b by (auto simp: set_step_pages in_range_def)
  qed
  have s: "(\<forall>a \<in> set (step_pages (sl_bottom l) (sl_top l) @ [sl_top l - 1]). identity_mapped ts True False a) \<longleftrightarrow>
      (\<forall>v. in_range (sl_bottom l) 65536 v \<longrightarrow> identity_mapped ts True False v)"
    using b by (subst page_loop_covers) (auto intro: identity_mapped_same_page simp: in_range_def)
  have "sl_top l \<noteq> 0" using b by auto
  then show ?thesis unfolding validate_stack_def g [symmetric] s [symmetric]
    using expect_unmapped_Ok expect_stack_Ok by (auto simp: outcome_simps)
qed

lemma walk_total: "ts_inv ts \<Longrightarrow> walk ts v \<noteq> Panic"
proof (cases "unat v < 2 ^ 39")
  case True
  moreover assume "ts_inv ts"
  ultimately obtain pos where wf: "ts_wf pos ts" by (auto simp: ts_inv_def)
  have "\<exists>t. walk_loop ts v 0 [1..<4] = Ok t"
    by (rule walk_loop_total [OF wf ts_wfD(3) [OF wf] on_path_root [OF wf True]])
  then show ?thesis unfolding walk_eq [OF True] by auto
next
  case False
  then have "push_bit VA_BITS 1 \<le> v" by (simp add: VA_BITS_def word_le_nat_alt not_less)
  then show ?thesis by (simp add: walk_def)
qed

lemma validate_stack_total: "ts_inv ts \<Longrightarrow> sl_top l \<noteq> 0 \<Longrightarrow> validate_stack ts l \<noteq> Panic"
proof -
  assume ts: "ts_inv ts" and top: "sl_top l \<noteq> 0"
  have "expect_unmapped ts as \<noteq> Panic" for as by (induction as) (use walk_total [OF ts] in \<open>auto simp: outcome_simps\<close>)
  moreover have "expect_stack ts as \<noteq> Panic" for as by (induction as) (use walk_total [OF ts] in \<open>auto simp: outcome_simps\<close>)
  ultimately show ?thesis using top by (auto simp: validate_stack_def outcome_simps)
qed

text \<open>
  Mapping a stack: on success exactly the stack range has changed, it is identity mapped,
  writable and never executable, and its guard page stays unmapped.
\<close>

lemma map_stack_correct:
  assumes "ts_inv ts" and layout: "stack_layout_of (sl_guard_start l) = Ok l"
  shows "case map_stack ts l of
      (Ok _, ts') \<Rightarrow> ts_inv ts' \<and> (\<forall>v. in_range (sl_guard_start l) 4096 v \<longrightarrow> unmapped ts' v) \<and>
        (\<forall>v. in_range (sl_bottom l) 65536 v \<longrightarrow> identity_mapped ts' True False v) \<and>
        (\<forall>v. unat v < 2 ^ 39 \<longrightarrow> \<not> in_range (sl_bottom l) 65536 v \<longrightarrow> walk ts' v = walk ts v)
    | (Err _, ts') \<Rightarrow> ts_inv ts' | (Panic, _) \<Rightarrow> False"
proof -
  let ?m = "\<lparr>map_va = sl_bottom l, map_pa = sl_bottom l, map_size = STACK_SIZE, map_memory_type = Normal,
    map_writable = True, map_executable = False\<rparr>"
  obtain pos where wf: "ts_wf pos ts" using assms by (auto simp: ts_inv_def)
  obtain r ts' where R: "ts_map ts ?m = (r, ts')" by fastforce
  have top: "sl_top l \<noteq> 0" using stack_bounds [OF layout] by auto
  have inv: "ts_inv ts'" using ts_map_wf [OF wf, of ?m] R by (auto simp: ts_inv_def)
  have "r \<noteq> Panic" using ts_map_spec [OF wf, of ?m] R by (cases "validate_mapping ts ?m") (auto simp: map_post_def)
  moreover have "(\<forall>v. unat v < 2 ^ 39 \<longrightarrow> \<not> in_range (sl_bottom l) 65536 v \<longrightarrow> walk ts' v = walk ts v)" if "r = Ok ()"
    using ts_map_spec [OF wf, of ?m] R that
    by (cases "validate_mapping ts ?m") (auto simp: map_post_def STACK_SIZE_def)
  ultimately show ?thesis
    using R inv validate_stack_Ok [OF layout, of ts'] validate_stack_total [OF inv top]
    by (cases r; cases "validate_stack ts' l") (auto simp: map_stack_def)
qed

section \<open>Allocation of the secondary stacks\<close>

definition stack_pages :: "secondary_stack \<Rightarrow> nat set" where
  "stack_pages s = {unat (sl_guard_start (ss_layout s)) div 4096 ..< unat (sl_top (ss_layout s)) div 4096}"

definition stack_ok :: "nat \<Rightarrow> secondary_stack \<Rightarrow> bool" where
  "stack_ok n s \<longleftrightarrow> stack_layout_of (sl_guard_start (ss_layout s)) = Ok (ss_layout s) \<and> stack_pages s \<subseteq> {..<8 * n}"

definition stacks_pages :: "secondary_stack list \<Rightarrow> nat set" where
  "stacks_pages ss = (\<Union>s \<in> set ss. stack_pages s)"

definition stacks_disjoint :: "secondary_stack list \<Rightarrow> bool" where
  "stacks_disjoint ss \<longleftrightarrow> sorted_wrt (\<lambda>s t. stack_pages s \<inter> stack_pages t = {}) ss"

lemma page_addr_stack:
  assumes rel: "pa_rel n M U a" and i: "{i..<i + 17} \<subseteq> {..<8 * n}"
  shows "\<exists>l. stack_layout_of (page_addr i) = Ok l \<and> sl_guard_start l = page_addr i \<and>
    unat (page_addr i) div 4096 = i \<and> unat (sl_top l) div 4096 = i + 17"
proof -
  have le: "i + 17 \<le> 8 * n" using i by (auto simp: subset_iff) (metis add_Suc_right atLeastLessThan_iff le_add1 lessI lessThan_iff numeral_eq_Suc pred_numeral_simps(3) Suc_leI)
  have u: "unat (page_addr i) = 4096 * i" using unat_page_addr [OF rel] le by simp
  have "4096 * i + 69632 < 2 ^ 64" using pa_relD(4) [OF rel] le by simp
  then show ?thesis using u by (auto simp: stack_layout_Ok unat_word_ariths)
qed

definition stacks_inv :: "nat \<Rightarrow> nat set \<Rightarrow> nat set \<Rightarrow> nat \<Rightarrow> secondary_stack list \<Rightarrow> page_allocator \<Rightarrow> bool" where
  "stacks_inv n M U ram ss a \<longleftrightarrow> (\<forall>s \<in> set ss. stack_ok n s) \<and> stacks_disjoint ss \<and> stacks_pages ss \<subseteq> M - U \<and>
     pa_rel n M (U \<union> stacks_pages ss) a \<and> pa_ram_pages a = ram"

lemma stacks_pages_simps [simp]:
  "stacks_pages [] = {}" "stacks_pages (s # ss) = stack_pages s \<union> stacks_pages ss"
  "stacks_pages (ss @ ts) = stacks_pages ss \<union> stacks_pages ts"
  by (auto simp: stacks_pages_def)

lemma stacks_disjoint_snoc:
  "stacks_disjoint (ss @ [s]) \<longleftrightarrow> stacks_disjoint ss \<and> stack_pages s \<inter> stacks_pages ss = {}"
  unfolding stacks_disjoint_def stacks_pages_def sorted_wrt_append by auto

lemma stacks_disjoint_Cons:
  "stacks_disjoint (s # ss) \<Longrightarrow> stacks_disjoint ss \<and> stack_pages s \<inter> stacks_pages ss = {}"
  unfolding stacks_disjoint_def stacks_pages_def by auto

text \<open>One more stack: a free run of seventeen pages becomes the stack of the next CPU.\<close>

lemma stacks_inv_push:
  assumes inv: "stacks_inv n M U ram ss a" and alloc: "allocate_contiguous a 17 = (Ok base, a')"
  shows "\<exists>l. stack_layout_of base = Ok l \<and> stacks_inv n M U ram (ss @ [\<lparr>ss_logical_id = i, ss_affinity = f, ss_layout = l\<rparr>]) a'"
proof -
  let ?V = "U \<union> stacks_pages ss"
  have rel: "pa_rel n M ?V a" using inv by (simp add: stacks_inv_def)
  obtain k where k: "base = page_addr k" "{k..<k + 17} \<subseteq> M - ?V" "pa_rel n M (?V \<union> {k..<k + 17}) a'" "pa_ram_pages a' = ram"
    using allocate_contiguous_spec [OF rel, of 17] alloc inv
    by (auto simp: contiguous_post_def free_run_def stacks_inv_def Let_def split: if_splits)
  have sub: "{k..<k + 17} \<subseteq> {..<8 * n}" using k(2) pa_relD(6) [OF rel] by blast
  obtain l where l: "stack_layout_of base = Ok l" "sl_guard_start l = base" "unat base div 4096 = k" "unat (sl_top l) div 4096 = k + 17"
    using page_addr_stack [OF rel sub] k(1) by auto
  let ?s = "\<lparr>ss_logical_id = i, ss_affinity = f, ss_layout = l\<rparr>"
  have "stack_pages ?s = {k..<k + 17}" using l by (simp add: stack_pages_def)
  then have "stacks_inv n M U ram (ss @ [?s]) a'"
    using inv k l sub by (auto simp: stacks_inv_def stacks_disjoint_snoc stack_ok_def Un_assoc)
  then show ?thesis using l by blast
qed

lemma stack_loop_spec:
  assumes "stacks_inv n M U ram ss a" and "\<forall>c \<in> set cpus. cd_logical_id c \<noteq> None" and "length ss + length cpus \<le> m"
  shows "\<exists>r ts a'. stack_loop cpus (fl_of m ss) a = (r, fl_of m (ss @ ts), a') \<and> stacks_inv n M U ram (ss @ ts) a' \<and>
    length (ss @ ts) \<le> m \<and>
    (r = Ok () \<and> map (\<lambda>s. (Some (ss_logical_id s), ss_affinity s)) ts = map (\<lambda>c. (cd_logical_id c, cd_affinity c)) cpus \<or> r = Err Exhausted)"
  using assms
proof (induction cpus arbitrary: ss a)
  case Nil
  then show ?case by (intro exI [of _ "[]"] exI [of _ a] exI [of _ "Ok ()"]) simp
next
  case (Cons c cpus)
  obtain i where i: "cd_logical_id c = Some i" using Cons.prems(2) by auto
  obtain r a' where R: "allocate_contiguous a 17 = (r, a')" by fastforce
  have rel: "pa_rel n M (U \<union> stacks_pages ss) a" using Cons.prems(1) by (simp add: stacks_inv_def)
  show ?case
  proof (cases r)
    case (Ok base)
    obtain l where l: "stack_layout_of base = Ok l"
      and inv: "stacks_inv n M U ram (ss @ [\<lparr>ss_logical_id = i, ss_affinity = cd_affinity c, ss_layout = l\<rparr>]) a'"
      using stacks_inv_push [OF Cons.prems(1), of base a'] R Ok by blast
    let ?s = "\<lparr>ss_logical_id = i, ss_affinity = cd_affinity c, ss_layout = l\<rparr>"
    obtain q ts b where q: "stack_loop cpus (fl_of m (ss @ [?s])) a' = (q, fl_of m ((ss @ [?s]) @ ts), b)"
      "stacks_inv n M U ram ((ss @ [?s]) @ ts) b" "length ((ss @ [?s]) @ ts) \<le> m"
      "q = Ok () \<and> map (\<lambda>s. (Some (ss_logical_id s), ss_affinity s)) ts = map (\<lambda>c. (cd_logical_id c, cd_affinity c)) cpus \<or> q = Err Exhausted"
      using Cons.IH [OF inv] Cons.prems(2,3) by auto
    have "stack_loop (c # cpus) (fl_of m ss) a = (q, fl_of m (ss @ ?s # ts), b)"
      using q(1) i R Ok l Cons.prems(3) by (simp add: fl_push_eq)
    then show ?thesis using q i by (intro exI [of _ q] exI [of _ "?s # ts"] exI [of _ b]) auto
  next
    case (Err e)
    then have "e = Exhausted \<and> a' = a"
      using allocate_contiguous_spec [OF rel, of 17] R by (auto simp: contiguous_post_def Let_def split: if_splits)
    then show ?thesis using i R Err Cons.prems by (intro exI [of _ "Err Exhausted"] exI [of _ "[]"] exI [of _ a]) simp
  next
    case Panic
    then show ?thesis using allocate_contiguous_spec [OF rel, of 17] R by (auto simp: contiguous_post_def Let_def split: if_splits)
  qed
qed

text \<open>The rollback returns exactly the pages of the stacks.\<close>

lemma stack_page_addresses:
  assumes "stack_ok n s" and "32768 * n < 2 ^ 64"
  shows "\<exists>k. stack_pages s = {k..<k + 17} \<and>
    step_pages (sl_guard_start (ss_layout s)) (sl_top (ss_layout s)) = map page_addr [k..<k + 17]"
proof -
  let ?l = "ss_layout s"
  note b = stack_bounds [of ?l]
  have ok: "stack_layout_of (sl_guard_start ?l) = Ok ?l" using assms by (simp add: stack_ok_def)
  obtain k where k: "unat (sl_guard_start ?l) = 4096 * k" using b(3) [OF ok] by (auto elim: dvdE)
  have top: "unat (sl_top ?l) = 4096 * (k + 17)" using b(2) [OF ok] k by simp
  have "sl_guard_start ?l + word_of_nat (4096 * j) = page_addr (k + j)" if "j < 17" for j
  proof (rule page_addr_eqI)
    have "4096 * k + 4096 * j < 2 ^ 64" using unat_u64_bound [of "sl_top ?l"] top that by simp
    then show "unat (sl_guard_start ?l + word_of_nat (4096 * j)) = 4096 * (k + j)"
      using k by (simp add: unat_add_no_overflow unat_word_of_nat_u64 del: of_nat_mult semiring_1_class.of_nat_mult)
  qed
  then have "step_pages (sl_guard_start ?l) (sl_top ?l) = map (\<lambda>j. page_addr (k + j)) [0..<17]"
    unfolding step_pages_def k top by (simp add: del: of_nat_mult)
  also have "\<dots> = map page_addr [k..<k + 17]" by (rule nth_equalityI) simp_all
  finally show ?thesis using k top by (auto simp: stack_pages_def)
qed

lemma free_stacks_spec:
  assumes "pa_rel n M V a" and "\<forall>s \<in> set ss. stack_ok n s" and "stacks_disjoint ss" and "stacks_pages ss \<subseteq> V"
  shows "\<exists>a'. free_stacks ss a = (Ok (), a') \<and> pa_rel n M (V - stacks_pages ss) a' \<and> pa_ram_pages a' = pa_ram_pages a"
  using assms
proof (induction ss arbitrary: a V)
  case (Cons s ss)
  obtain k where k: "stack_pages s = {k..<k + 17}"
    "step_pages (sl_guard_start (ss_layout s)) (sl_top (ss_layout s)) = map page_addr [k..<k + 17]"
    using stack_page_addresses [of n s] Cons.prems(2) pa_relD(4) [OF Cons.prems(1)] by auto
  obtain b where b: "free_pages pa_free a (map page_addr [k..<k + 17]) = (Ok (), b)" "pa_rel n M (V - {k..<k + 17}) b"
    using pa.free_pages_rel [OF Cons.prems(1), of "[k..<k + 17]"] Cons.prems(4) k(1) by auto
  have ram: "pa_ram_pages b = pa_ram_pages a" using free_pages_ram_pages [OF b(1)] .
  have "stacks_pages ss \<subseteq> V - {k..<k + 17}" using Cons.prems(4) stacks_disjoint_Cons [OF Cons.prems(3)] k(1) by auto
  then obtain c where "free_stacks ss b = (Ok (), c)" "pa_rel n M (V - {k..<k + 17} - stacks_pages ss) c" "pa_ram_pages c = pa_ram_pages b"
    using Cons.IH [OF b(2)] Cons.prems(2) stacks_disjoint_Cons [OF Cons.prems(3)] by auto
  moreover have "V - {k..<k + 17} - stacks_pages ss = V - stacks_pages (s # ss)" using k(1) by auto
  ultimately show ?case using k(2) b(1) ram by auto
qed simp

lemma enabled_secondaries:
  assumes "topology_wf boot t"
  shows "\<forall>c \<in> set (filter (\<lambda>c. cd_enabled c \<and> cd_logical_id c \<noteq> Some 0) (ct_cpus t)). cd_logical_id c \<noteq> None"
    and "length (filter (\<lambda>c. cd_enabled c \<and> cd_logical_id c \<noteq> Some 0) (ct_cpus t)) \<le> MAX_CPUS"
proof -
  have ids: "ids_ok 0 (ct_cpus t)" and len: "length (ct_cpus t) \<le> MAX_CPUS"
    using assms by (simp_all add: topology_wf_def ct_cpus_def)
  have "cd_logical_id c \<noteq> None" if "c \<in> set (ct_cpus t)" "cd_enabled c" for c
  proof -
    obtain i where "i < length (ct_cpus t)" "c = ct_cpus t ! i" using \<open>c \<in> set (ct_cpus t)\<close> by (auto simp: in_set_conv_nth)
    then show ?thesis using ids that(2) unfolding ids_ok_def by simp
  qed
  then show "\<forall>c \<in> set (filter (\<lambda>c. cd_enabled c \<and> cd_logical_id c \<noteq> Some 0) (ct_cpus t)). cd_logical_id c \<noteq> None" by simp
  show "length (filter (\<lambda>c. cd_enabled c \<and> cd_logical_id c \<noteq> Some 0) (ct_cpus t)) \<le> MAX_CPUS"
    using len length_filter_le le_trans by blast
qed

text \<open>
  C19: allocation of the secondary stacks. On a discovered topology the call never panics.
  It either gives every enabled secondary CPU its own stack, seventeen pages that were free
  before, pairwise disjoint, with the allocator left exactly with those pages in use; or it
  reports \<open>Exhausted\<close> and the allocator is restored to what it was, page by page.
\<close>

theorem allocate_secondary_stacks_correct:
  assumes "topology_wf boot t" and "pa_rel n M U a"
  shows "case allocate_secondary_stacks t a of
      (Ok stacks, a') \<Rightarrow> (let ss = fl_list stacks in
         map (\<lambda>s. (Some (ss_logical_id s), ss_affinity s)) ss =
           map (\<lambda>c. (cd_logical_id c, cd_affinity c)) (filter (\<lambda>c. cd_enabled c \<and> cd_logical_id c \<noteq> Some 0) (ct_cpus t)) \<and>
         (\<forall>s \<in> set ss. stack_layout_of (sl_guard_start (ss_layout s)) = Ok (ss_layout s) \<and> card (stack_pages s) = 17) \<and>
         sorted_wrt (\<lambda>s u. stack_pages s \<inter> stack_pages u = {}) ss \<and>
         stacks_pages ss \<subseteq> M - U \<and> pa_rel n M (U \<union> stacks_pages ss) a')
    | (Err e, a') \<Rightarrow> e = Exhausted \<and> a' = a
    | (Panic, _) \<Rightarrow> False"
proof -
  let ?cpus = "filter (\<lambda>c. cd_enabled c \<and> cd_logical_id c \<noteq> Some 0) (ct_cpus t)"
  note cpus = enabled_secondaries [OF assms(1)]
  have inv0: "stacks_inv n M U (pa_ram_pages a) [] a" using assms(2) by (simp add: stacks_inv_def stacks_disjoint_def)
  obtain r ss a' where r: "stack_loop ?cpus (fl_of MAX_CPUS []) a = (r, fl_of MAX_CPUS ss, a')"
    "stacks_inv n M U (pa_ram_pages a) ss a'" "length ss \<le> MAX_CPUS"
    "r = Ok () \<and> map (\<lambda>s. (Some (ss_logical_id s), ss_affinity s)) ss = map (\<lambda>c. (cd_logical_id c, cd_affinity c)) ?cpus \<or> r = Err Exhausted"
    using stack_loop_spec [OF inv0 cpus(1), of MAX_CPUS] cpus(2) by auto
  have ok: "\<forall>s \<in> set ss. stack_ok n s" "stacks_disjoint ss" "stacks_pages ss \<subseteq> M - U"
    "pa_rel n M (U \<union> stacks_pages ss) a'" "pa_ram_pages a' = pa_ram_pages a" using r(2) by (simp_all add: stacks_inv_def)
  have card: "card (stack_pages s) = 17" if "s \<in> set ss" for s
    using stack_page_addresses [of n s] ok(1) that pa_relD(4) [OF assms(2)] by auto
  show ?thesis
  proof (cases "r = Ok ()")
    case True
    then show ?thesis using r ok card
      by (simp add: allocate_secondary_stacks_def fl_new_eq stacks_disjoint_def stack_ok_def Let_def)
  next
    case False
    obtain b where b: "free_stacks ss a' = (Ok (), b)" "pa_rel n M ((U \<union> stacks_pages ss) - stacks_pages ss) b"
      "pa_ram_pages b = pa_ram_pages a'"
      using free_stacks_spec [OF ok(4,1,2)] by auto
    moreover have "(U \<union> stacks_pages ss) - stacks_pages ss = U" using ok(3) by auto
    ultimately have "b = a" using pa_rel_unique [OF _ assms(2)] ok(5) by metis
    then show ?thesis using r False b by (simp add: allocate_secondary_stacks_def fl_new_eq fl_iter_eq)
  qed
qed

definition all_unused_24 :: page_allocator where
  "all_unused_24 = \<lparr>pa_managed = \<lparr>bm_bits = [0xff, 0xff, 0xff], bm_set_pages = 24\<rparr>, pa_in_use = bm_zeroed 3, pa_ram_pages = 24\<rparr>"

lemma all_unused_24_rel: "pa_rel 3 {..<24} {} all_unused_24"
proof -
  have "filter (\<lambda>i. bit ([0xff, 0xff, 0xff :: u8] ! (i div 8)) (i mod 8)) [0..<24] = [0..<24]" by code_simp
  then have "bm_rel 3 {..<24} \<lparr>bm_bits = [0xff, 0xff, 0xff], bm_set_pages = 24\<rparr>"
    unfolding bm_rel_def bm_set_code by (simp add: lessThan_atLeast0)
  then show ?thesis using bm_rel_zeroed [of 3] by (simp add: pa_rel_def all_unused_24_def)
qed

theorem allocate_secondary_stacks_correct_witness:
  "\<exists>stacks a' s. allocate_secondary_stacks example_topology all_unused_24 = (Ok stacks, a') \<and> fl_list stacks = [s] \<and>
     ss_logical_id s = 1 \<and> card (stack_pages s) = 17 \<and> pa_rel 3 {..<24} (stack_pages s) a'"
proof -
  have "free_run ({..<24} - {}) 17 0" by (auto simp: free_run_def)
  then obtain k a' where k: "allocate_contiguous all_unused_24 17 = (Ok (page_addr k), a')" "free_run ({..<24} - {}) 17 k"
    using allocate_contiguous_spec [OF all_unused_24_rel, of 17]
    by (cases "allocate_contiguous all_unused_24 17") (auto simp: contiguous_post_def Let_def split: if_splits)
  then obtain l where "stack_layout_of (page_addr k) = Ok l"
    using page_addr_stack [OF all_unused_24_rel, of k] by (auto simp: free_run_def)
  then have "\<exists>stacks. allocate_secondary_stacks example_topology all_unused_24 = (Ok stacks, a') \<and> length (fl_list stacks) = 1"
    using k(1) by (simp add: allocate_secondary_stacks_def example_topology_def ct_cpus_def fl_new_eq fl_push_eq MAX_CPUS_def)
  then obtain stacks s where s: "allocate_secondary_stacks example_topology all_unused_24 = (Ok stacks, a')" "fl_list stacks = [s]"
    by (auto simp: length_Suc_conv)
  show ?thesis
    using allocate_secondary_stacks_correct [OF discover_topology_wf [OF example_discovery] all_unused_24_rel] s
    by (simp add: example_topology_def ct_cpus_def)
qed

end
