(* ===== verification/Startup_Resources.thy ===== *)
theory Startup_Resources
  imports Pcpu_Stack Memory_Map Tlb_Update
begin

text \<open>
  The boot table gate and the checks a secondary CPU may only be started after
  (\<open>tvisor_util/startup_resources.rs\<close>): every region it will touch is mapped as required,
  its stack has an unmapped guard, and from then on no table entry but the scratch page can
  change. Regions are \<open>PhysRegion\<close> values, so \<open>region_wf\<close> is their type invariant.
\<close>

datatype resource_error = Frozen | Layout | Ownership | Mapping | Root

record 't boot_tables =
  bt_tables :: 't
  bt_frozen :: bool

definition bt_new :: "'t \<Rightarrow> 't boot_tables" where
  "bt_new tables = \<lparr>bt_tables = tables, bt_frozen = False\<rparr>"

text \<open>\<open>edit\<close> followed by a use \<open>f\<close> of the reference it hands out.\<close>

definition bt_edit :: "'t boot_tables \<Rightarrow> ('t \<Rightarrow> 'a \<times> 't) \<Rightarrow> ('a, resource_error) outcome \<times> 't boot_tables" where
  "bt_edit bt f = (if bt_frozen bt then (Err Frozen, bt) else case f (bt_tables bt) of (x, t) \<Rightarrow> (Ok x, bt\<lparr>bt_tables := t\<rparr>))"

definition validate_and_freeze ::
  "'t boot_tables \<Rightarrow> ('t \<Rightarrow> (unit, resource_error) outcome) \<Rightarrow> (unit, resource_error) outcome \<times> 't boot_tables" where
  "validate_and_freeze bt validate =
     (if bt_frozen bt then (Err Frozen, bt)
      else st_then (validate (bt_tables bt), bt) (\<lambda>_ bt. (Ok (), bt\<lparr>bt_frozen := True\<rparr>)))"

definition replace_scratch_page ::
  "table_set boot_tables \<Rightarrow> u64 \<Rightarrow> u64 \<Rightarrow> (u64 \<Rightarrow> 's \<Rightarrow> (unit, translation_error) outcome \<times> 's) \<Rightarrow> 's \<Rightarrow>
   (unit, resource_error) outcome \<times> table_set boot_tables \<times> 's" where
  "replace_scratch_page bt old new sync s =
     (if \<not> bt_frozen bt then (Err Frozen, bt, s)
      else case replace_data_page (bt_tables bt) SCRATCH_VA old new sync s of
        (r, ts, s') \<Rightarrow> (map_err (\<lambda>_. Mapping) r, bt\<lparr>bt_tables := ts\<rparr>, s'))"

record startup_resources =
  sr_code :: phys_region
  sr_vectors :: phys_region
  sr_rodata :: phys_region
  sr_writable :: phys_region
  sr_tables :: phys_region
  sr_slots :: phys_region
  sr_config :: phys_region
  sr_context :: phys_region
  sr_release_page :: phys_region
  sr_stack :: stack_layout
  sr_entry :: u64
  sr_root :: u64

definition release_page :: "memory_map \<Rightarrow> u64 \<Rightarrow> (phys_region, resource_error) outcome" where
  "release_page m cell =
     (if cell AND 7 \<noteq> 0 then Err Layout
      else and_then (map_err (\<lambda>_. Layout) (region_new (cell AND NOT 4095) PAGE_SIZE)) (\<lambda>page.
           and_then (fl_iter (mm_ram m)) (\<lambda>ram.
           if \<not> list_ex (\<lambda>r. region_contains_region r page) ram then Err Ownership else
           and_then (fl_iter (mm_reserved m)) (\<lambda>reserved.
           if \<not> list_ex (\<lambda>r. region_contains_region r page) reserved then Err Ownership else
           and_then (fl_iter (mm_usable m)) (\<lambda>usable.
           if list_ex (\<lambda>r. region_overlaps r page) usable then Err Ownership else
           and_then (fl_iter (mm_mmio m)) (\<lambda>mmio.
           if list_ex (\<lambda>r. region_overlaps r page) mmio then Err Ownership else Ok page))))))"

fun expect_range :: "table_set \<Rightarrow> bool \<Rightarrow> bool \<Rightarrow> u64 list \<Rightarrow> (unit, resource_error) outcome" where
  "expect_range ts w x [] = Ok ()"
| "expect_range ts w x (a # as) =
     and_then (and_then (map_err (\<lambda>_. Mapping) (walk ts a)) (\<lambda>t. ok_or Mapping t)) (\<lambda>m.
       if tr_pa m \<noteq> a \<or> tr_memory_type m \<noteq> Normal \<or> tr_writable m \<noteq> w \<or> tr_executable m \<noteq> x then Err Mapping
       else expect_range ts w x as)"

definition validate_range :: "table_set \<Rightarrow> phys_region \<Rightarrow> bool \<Rightarrow> bool \<Rightarrow> (unit, resource_error) outcome" where
  "validate_range ts region writable executable =
     (if region_end region = 0 then Panic
      else expect_range ts writable executable (step_pages (region_start region) (region_end region) @ [region_end region - 1]))"

fun check_stacks :: "stack_layout list \<Rightarrow> stack_layout list \<Rightarrow> (unit, resource_error) outcome" where
  "check_stacks before [] = Ok ()"
| "check_stacks before (s # ss) =
     (if stack_layout_of (sl_guard_start s) \<noteq> Ok s \<or>
         list_ex (\<lambda>other. sl_guard_start s < sl_top other \<and> sl_guard_start other < sl_top s) before
      then Err Layout else check_stacks (before @ [s]) ss)"

fun validate_each_stack :: "table_set \<Rightarrow> stack_layout list \<Rightarrow> (unit, resource_error) outcome" where
  "validate_each_stack ts [] = Ok ()"
| "validate_each_stack ts (s # ss) =
     and_then (map_err (\<lambda>_. Mapping) (validate_stack ts s)) (\<lambda>_. validate_each_stack ts ss)"

definition validate_stacks :: "table_set \<Rightarrow> stack_layout fixed_list \<Rightarrow> (unit, resource_error) outcome" where
  "validate_stacks ts stacks =
     and_then (fl_iter stacks) (\<lambda>ss. and_then (check_stacks [] ss) (\<lambda>_. validate_each_stack ts ss))"

fun check_sections :: "phys_region list \<Rightarrow> (unit, resource_error) outcome" where
  "check_sections [] = Ok ()"
| "check_sections (a # rest) =
     (if region_start a AND 4095 \<noteq> 0 \<or> region_size a AND 4095 \<noteq> 0 then Err Layout
      else if list_ex (region_overlaps a) rest then Err Layout
      else check_sections rest)"

fun validate_region_list :: "table_set \<Rightarrow> (phys_region \<times> bool \<times> bool) list \<Rightarrow> (unit, resource_error) outcome" where
  "validate_region_list ts [] = Ok ()"
| "validate_region_list ts ((region, w, x) # rest) = and_then (validate_range ts region w x) (\<lambda>_. validate_region_list ts rest)"

definition SIZE_OF_SLOTS :: u64 where "SIZE_OF_SLOTS = 384 * word_of_nat MAX_CPUS"
definition SIZE_OF_CONTEXT :: u64 where "SIZE_OF_CONTEXT = 64"
definition SIZE_OF_CONFIG_STORAGE :: u64 where "SIZE_OF_CONFIG_STORAGE = 128"

definition sections :: "startup_resources \<Rightarrow> phys_region list" where
  "sections r = [sr_code r, sr_vectors r, sr_rodata r, sr_writable r, sr_tables r, sr_release_page r]"

definition resource_ranges :: "startup_resources \<Rightarrow> (phys_region \<times> bool \<times> bool) list" where
  "resource_ranges r =
     [(sr_code r, False, True), (sr_vectors r, False, True), (sr_rodata r, False, False), (sr_writable r, True, False),
      (sr_tables r, True, False), (sr_slots r, True, False), (sr_config r, True, False), (sr_context r, True, False),
      (sr_release_page r, True, False)]"

definition bad_layout :: "startup_resources \<Rightarrow> bool" where
  "bad_layout r \<longleftrightarrow>
     sr_entry r AND 3 \<noteq> 0 \<or> \<not> region_contains_address (sr_code r) (sr_entry r) \<or> region_size (sr_vectors r) < 2048 \<or>
     \<not> region_contains_region (sr_writable r) (sr_slots r) \<or> \<not> region_contains_region (sr_writable r) (sr_context r) \<or>
     region_start (sr_slots r) AND 63 \<noteq> 0 \<or> region_start (sr_context r) AND 63 \<noteq> 0 \<or>
     region_size (sr_slots r) \<noteq> SIZE_OF_SLOTS \<or> region_size (sr_context r) \<noteq> SIZE_OF_CONTEXT \<or>
     \<not> region_contains_region (sr_slots r) (sr_context r) \<or> \<not> region_contains_region (sr_writable r) (sr_config r) \<or>
     region_start (sr_config r) AND 63 \<noteq> 0 \<or> region_size (sr_config r) \<noteq> SIZE_OF_CONFIG_STORAGE \<or>
     region_overlaps (sr_config r) (sr_slots r)"

definition validate_resources :: "table_set \<Rightarrow> startup_resources \<Rightarrow> (unit, resource_error) outcome" where
  "validate_resources ts r =
     and_then (check_sections (sections r)) (\<lambda>_.
     if bad_layout r then Err Layout else
     and_then (map_err (\<lambda>_. Layout) (stack_layout_of (sl_guard_start (sr_stack r)))) (\<lambda>stack.
     if stack \<noteq> sr_stack r then Err Layout else
     and_then (map_err (\<lambda>_. Layout) (region_from_bounds (sl_guard_start (sr_stack r)) (sl_top (sr_stack r)))) (\<lambda>allocation.
     if list_ex (\<lambda>s. region_overlaps s allocation) (sections r) then Err Layout else
     if sr_root r \<noteq> root_pa ts \<or> \<not> region_contains_address (sr_tables r) (sr_root r) \<or>
        region_start (sr_tables r) \<noteq> sr_root r \<or>
        region_size (sr_tables r) < word_of_nat (length (ts_pages ts) * unat PAGE_SIZE)
     then Err Root else
     and_then (validate_region_list ts (resource_ranges r)) (\<lambda>_.
       map_err (\<lambda>_. Mapping) (validate_stack ts (sr_stack r))))))"

section \<open>What the checks establish\<close>

text \<open>
  The specification. \<open>X\<close> is a set of addresses left out, empty right after validation.
\<close>

definition resources_wf :: "startup_resources \<Rightarrow> bool" where
  "resources_wf r \<longleftrightarrow> (\<forall>(region, _) \<in> set (resource_ranges r). region_wf region)"

definition ranges_mapped :: "u64 set \<Rightarrow> table_set \<Rightarrow> startup_resources \<Rightarrow> bool" where
  "ranges_mapped X ts r \<longleftrightarrow>
     (\<forall>(region, w, x) \<in> set (resource_ranges r). \<forall>v \<in> region_addrs region - X. identity_mapped ts w x v) \<and>
     (\<forall>v. in_range (sl_guard_start (sr_stack r)) 4096 v \<longrightarrow> v \<notin> X \<longrightarrow> unmapped ts v) \<and>
     (\<forall>v. in_range (sl_bottom (sr_stack r)) 65536 v \<longrightarrow> v \<notin> X \<longrightarrow> identity_mapped ts True False v)"

definition layout_sound :: "table_set \<Rightarrow> startup_resources \<Rightarrow> bool" where
  "layout_sound ts r \<longleftrightarrow>
     (\<forall>s \<in> set (sections r). 4096 dvd unat (region_start s) \<and> 4096 dvd unat (region_size s) \<and>
        (\<forall>v \<in> region_addrs s. \<not> in_range (sl_guard_start (sr_stack r)) 69632 v)) \<and>
     sorted_wrt (\<lambda>s t. region_addrs s \<inter> region_addrs t = {}) (sections r) \<and>
     sr_entry r \<in> region_addrs (sr_code r) \<and> region_addrs (sr_context r) \<subseteq> region_addrs (sr_slots r) \<and>
     region_addrs (sr_slots r) \<subseteq> region_addrs (sr_writable r) \<and> region_addrs (sr_config r) \<subseteq> region_addrs (sr_writable r) \<and>
     region_addrs (sr_config r) \<inter> region_addrs (sr_slots r) = {} \<and>
     stack_layout_of (sl_guard_start (sr_stack r)) = Ok (sr_stack r) \<and> region_start (sr_tables r) = root_pa ts"

lemma expect_range_Ok: "expect_range ts w x as = Ok () \<longleftrightarrow> (\<forall>a \<in> set as. identity_mapped ts w x a)"
  by (induction as) (auto simp: identity_mapped_def outcome_simps)

lemma validate_range_Ok:
  assumes "region_wf region"
  shows "validate_range ts region w x = Ok () \<longleftrightarrow> (\<forall>v \<in> region_addrs region. identity_mapped ts w x v)"
proof -
  have b: "unat (region_start region) < unat (region_end region)"
    using region_start_less_end [OF assms] by (simp add: word_less_nat_alt)
  then have "region_end region \<noteq> 0" by auto
  then show ?thesis
    unfolding validate_range_def
    using page_loop_covers [where Q = "identity_mapped ts w x", OF identity_mapped_same_page b] expect_range_Ok [of ts w x]
    by (auto simp: region_addrs_def region_contains_address_def word_le_nat_alt word_less_nat_alt)
qed

lemma validate_region_list_Ok:
  "\<forall>(region, _) \<in> set rs. region_wf region \<Longrightarrow>
   validate_region_list ts rs = Ok () \<longleftrightarrow> (\<forall>(region, w, x) \<in> set rs. \<forall>v \<in> region_addrs region. identity_mapped ts w x v)"
proof (induction rs)
  case (Cons a rs)
  obtain region w x where a: "a = (region, w, x)" by (cases a)
  have "region_wf region" using Cons.prems a by auto
  then show ?case using Cons validate_range_Ok [of region ts w x] a
    by (cases "validate_range ts region w x") (auto simp: outcome_simps)
qed simp

lemma check_sections_Ok:
  "\<forall>s \<in> set ss. region_wf s \<Longrightarrow> check_sections ss = Ok () \<Longrightarrow>
   (\<forall>s \<in> set ss. 4096 dvd unat (region_start s) \<and> 4096 dvd unat (region_size s)) \<and>
   sorted_wrt (\<lambda>s t. region_addrs s \<inter> region_addrs t = {}) ss"
proof (induction ss)
  case (Cons s ss)
  then show ?case by (auto simp: and_4095_eq_0_iff list_ex_iff region_overlaps_iff split: if_splits)
qed simp

text \<open>Validation accepts exactly when its layout checks pass and the mappings are as specified.\<close>

definition layout_checks :: "table_set \<Rightarrow> startup_resources \<Rightarrow> bool" where
  "layout_checks ts r \<longleftrightarrow> check_sections (sections r) = Ok () \<and> \<not> bad_layout r \<and>
     stack_layout_of (sl_guard_start (sr_stack r)) = Ok (sr_stack r) \<and>
     \<not> list_ex (\<lambda>s. region_overlaps s \<lparr>region_start = sl_guard_start (sr_stack r), region_size = 69632\<rparr>) (sections r) \<and>
     sr_root r = root_pa ts \<and> region_contains_address (sr_tables r) (sr_root r) \<and> region_start (sr_tables r) = sr_root r \<and>
     \<not> region_size (sr_tables r) < word_of_nat (length (ts_pages ts) * unat PAGE_SIZE)"

lemma map_err_Ok_iff [simp]: "map_err f r = Ok x \<longleftrightarrow> r = Ok x"
  by (cases r) simp_all

lemma stack_allocation:
  assumes "stack_layout_of (sl_guard_start l) = Ok l"
  shows "region_from_bounds (sl_guard_start l) (sl_top l) = Ok \<lparr>region_start = sl_guard_start l, region_size = 69632\<rparr>"
    and "region_wf \<lparr>region_start = sl_guard_start l, region_size = 69632\<rparr>"
proof -
  have "sl_top l = sl_guard_start l + 69632" and lim: "unat (sl_guard_start l) + 69632 < 2 ^ 64"
    using assms stack_layout_Ok [of "sl_guard_start l" l] by (metis stack_layout.select_convs(3))+
  then show "region_from_bounds (sl_guard_start l) (sl_top l) = Ok \<lparr>region_start = sl_guard_start l, region_size = 69632\<rparr>"
    using stack_bounds(2) [OF assms] by (simp add: region_from_bounds_Ok_iff word_less_nat_alt)
  show "region_wf \<lparr>region_start = sl_guard_start l, region_size = 69632\<rparr>" using lim by (simp add: region_wf_def)
qed

lemma validate_resources_Ok:
  assumes "resources_wf r"
  shows "validate_resources ts r = Ok () \<longleftrightarrow> layout_checks ts r \<and> ranges_mapped {} ts r"
proof (cases "stack_layout_of (sl_guard_start (sr_stack r)) = Ok (sr_stack r)")
  case True
  have "validate_region_list ts (resource_ranges r) = Ok () \<and> validate_stack ts (sr_stack r) = Ok () \<longleftrightarrow> ranges_mapped {} ts r"
    using validate_region_list_Ok [of "resource_ranges r" ts] validate_stack_Ok [OF True, of ts] assms
    unfolding ranges_mapped_def resources_wf_def by simp
  then show ?thesis
    using True stack_allocation(1) [OF True]
    unfolding validate_resources_def layout_checks_def by (auto simp: outcome_simps split: if_splits)
next
  case False
  then show ?thesis
    unfolding validate_resources_def layout_checks_def by (auto simp: outcome_simps split: if_splits)
qed

lemma layout_checks_sound:
  assumes "resources_wf r" and "layout_checks ts r"
  shows "layout_sound ts r"
proof -
  let ?a = "\<lparr>region_start = sl_guard_start (sr_stack r), region_size = 69632\<rparr>"
  have layout: "stack_layout_of (sl_guard_start (sr_stack r)) = Ok (sr_stack r)" using assms(2) by (simp add: layout_checks_def)
  have wf: "region_wf (sr_code r)" "region_wf (sr_writable r)" "region_wf (sr_slots r)" "region_wf (sr_context r)"
    "region_wf (sr_config r)" "\<forall>s \<in> set (sections r). region_wf s"
    using assms(1) by (auto simp: resources_wf_def resource_ranges_def sections_def)
  note aw = stack_allocation(2) [OF layout]
  have "in_range (sl_guard_start (sr_stack r)) 69632 v \<longleftrightarrow> v \<in> region_addrs ?a" for v
    using unat_region_end [OF aw]
    by (simp add: in_range_def region_addrs_def region_contains_address_def word_le_nat_alt word_less_nat_alt)
  then have apart: "\<forall>s \<in> set (sections r). \<forall>v \<in> region_addrs s. \<not> in_range (sl_guard_start (sr_stack r)) 69632 v"
    using assms(2) region_overlaps_iff [OF _ aw] wf(6) unfolding layout_checks_def by (auto simp: list_ex_iff)
  show ?thesis
    using assms(2) check_sections_Ok [OF wf(6)] apart layout
      region_contains_region_iff [OF wf(2,3)] region_contains_region_iff [OF wf(3,4)] region_contains_region_iff [OF wf(2,5)]
      region_overlaps_iff [OF wf(5,3)]
    unfolding layout_sound_def layout_checks_def bad_layout_def by (auto simp: region_addrs_def)
qed

text \<open>A release page lies wholly in reserved memory and never in memory the allocator may hand out.\<close>

lemma release_page_Ok:
  assumes "mm_inv m" and "release_page m cell = Ok page"
  shows "cell \<in> region_addrs page" "region_size page = 4096" "\<exists>r \<in> set (fl_list (mm_reserved m)). region_addrs page \<subseteq> region_addrs r"
    "\<exists>r \<in> set (fl_list (mm_ram m)). region_addrs page \<subseteq> region_addrs r"
    "\<forall>r \<in> set (fl_list (mm_usable m)) \<union> set (fl_list (mm_mmio m)). region_addrs page \<inter> region_addrs r = {}"
proof -
  have lists: "\<exists>xs. (fl_iter l :: (_, resource_error) outcome) = Ok xs \<and> fl_list l = xs \<and> (\<forall>r \<in> set xs. region_wf r)" if "region_list_inv n l" for n l
    using that by (auto elim!: region_list_invE simp: fl_iter_eq canonical_wf)
  obtain ram res us io where it: "(fl_iter (mm_ram m) :: (_, resource_error) outcome) = Ok ram"
    "(fl_iter (mm_reserved m) :: (_, resource_error) outcome) = Ok res" "(fl_iter (mm_usable m) :: (_, resource_error) outcome) = Ok us"
    "(fl_iter (mm_mmio m) :: (_, resource_error) outcome) = Ok io" "fl_list (mm_ram m) = ram" "fl_list (mm_reserved m) = res" "fl_list (mm_usable m) = us"
    "fl_list (mm_mmio m) = io" and wfs: "\<forall>r \<in> set ram \<union> set res \<union> set us \<union> set io. region_wf r"
    using assms(1) lists unfolding mm_inv_def by (metis Un_iff)
  have p: "region_new (cell AND NOT 4095) PAGE_SIZE = Ok page" "list_ex (\<lambda>r. region_contains_region r page) ram"
    "list_ex (\<lambda>r. region_contains_region r page) res" "\<not> list_ex (\<lambda>r. region_overlaps r page) us" "\<not> list_ex (\<lambda>r. region_overlaps r page) io"
    using assms(2) it by (auto simp: release_page_def outcome_simps split: if_splits)
  have wf: "region_wf page" using region_new_wf [OF p(1)] .
  have pe: "page = \<lparr>region_start = cell AND NOT 4095, region_size = 4096\<rparr>"
    using p(1) by (auto simp: region_new_def PAGE_SIZE_def split: if_splits)
  then show "region_size page = 4096" by simp
  have "unat (cell AND NOT 4095) = unat cell div 4096 * 4096"
    using unat_and_not_mask [of cell 12] by (simp add: mask_12_u64 [symmetric] minus_mod_eq_div_mult)
  then show "cell \<in> region_addrs page" using unat_region_end [OF wf] pe
    by (simp add: region_addrs_def region_contains_address_def word_le_nat_alt word_less_nat_alt)
  show "\<exists>r \<in> set (fl_list (mm_reserved m)). region_addrs page \<subseteq> region_addrs r" "\<exists>r \<in> set (fl_list (mm_ram m)). region_addrs page \<subseteq> region_addrs r"
    "\<forall>r \<in> set (fl_list (mm_usable m)) \<union> set (fl_list (mm_mmio m)). region_addrs page \<inter> region_addrs r = {}"
    using p(2-5) wfs wf it region_contains_region_iff [OF _ wf] region_overlaps_iff [OF _ wf] by (fastforce simp: list_ex_iff)+
qed

text \<open>A validated set of stacks is pairwise disjoint, guards included, and every stack is mapped as required.\<close>

definition stack_addrs :: "stack_layout \<Rightarrow> u64 set" where
  "stack_addrs s = {v. sl_guard_start s \<le> v \<and> v < sl_top s}"

lemma check_stacks_Ok:
  "check_stacks before ss = Ok () \<Longrightarrow>
   (\<forall>s \<in> set ss. stack_layout_of (sl_guard_start s) = Ok s \<and> (\<forall>t \<in> set before. stack_addrs t \<inter> stack_addrs s = {})) \<and>
   sorted_wrt (\<lambda>s t. stack_addrs s \<inter> stack_addrs t = {}) ss"
proof (induction ss arbitrary: before)
  case (Cons s ss)
  have "\<forall>t \<in> set before. stack_addrs t \<inter> stack_addrs s = {}" and ok: "stack_layout_of (sl_guard_start s) = Ok s"
    using Cons.prems by (auto simp: list_ex_iff stack_addrs_def split: if_splits)
  then show ?case using Cons.IH [of "before @ [s]"] Cons.prems by (auto split: if_splits)
qed simp

lemma validate_each_stack_Ok: "validate_each_stack ts ss = Ok () \<longleftrightarrow> (\<forall>s \<in> set ss. validate_stack ts s = Ok ())"
  by (induction ss) (auto simp: outcome_simps)

lemma validate_stacks_Ok:
  assumes "fl_inv stacks" and "validate_stacks ts stacks = Ok ()"
  shows "sorted_wrt (\<lambda>s t. stack_addrs s \<inter> stack_addrs t = {}) (fl_list stacks)"
    and "s \<in> set (fl_list stacks) \<Longrightarrow> in_range (sl_guard_start s) 4096 v \<Longrightarrow> unmapped ts v"
    and "s \<in> set (fl_list stacks) \<Longrightarrow> in_range (sl_bottom s) 65536 v \<Longrightarrow> identity_mapped ts True False v"
proof -
  obtain n xs where "stacks = fl_of n xs" "length xs \<le> n" using fl_inv_fl_of [OF assms(1)] length_fl_list [OF assms(1)] assms(1)
    by (metis fl_inv_def)
  then have c: "check_stacks [] (fl_list stacks) = Ok ()" "validate_each_stack ts (fl_list stacks) = Ok ()"
    using assms(2) by (auto simp: validate_stacks_def fl_iter_eq outcome_simps)
  note ok = check_stacks_Ok [OF c(1)]
  show "sorted_wrt (\<lambda>s t. stack_addrs s \<inter> stack_addrs t = {}) (fl_list stacks)" using ok by blast
  assume s: "s \<in> set (fl_list stacks)"
  then have "stack_layout_of (sl_guard_start s) = Ok s" "validate_stack ts s = Ok ()"
    using ok c(2) validate_each_stack_Ok by blast+
  from validate_stack_Ok [OF this(1), of ts] this(2)
  show "in_range (sl_guard_start s) 4096 v \<Longrightarrow> unmapped ts v"
    "in_range (sl_bottom s) 65536 v \<Longrightarrow> identity_mapped ts True False v" by blast+
qed

section \<open>The frozen gate\<close>

text \<open>Everything that can be done to the gate afterwards.\<close>

inductive gate_step :: "table_set boot_tables \<Rightarrow> table_set boot_tables \<Rightarrow> bool" where
  gs_edit: "gate_step bt (snd (bt_edit bt (f :: table_set \<Rightarrow> (unit, translation_error) outcome \<times> table_set)))"
| gs_freeze: "gate_step bt (snd (validate_and_freeze bt check))"
| gs_scratch: "gate_step bt (fst (snd (replace_scratch_page bt old new sync (s :: u64 list))))"

lemma gate_step_frozen:
  assumes "gate_step bt bt'" and "bt_frozen bt" and "ts_inv (bt_tables bt)"
  shows "bt_frozen bt' \<and> ts_inv (bt_tables bt') \<and>
    (\<forall>v. unat v < 2 ^ 39 \<longrightarrow> \<not> in_range SCRATCH_VA 4096 v \<longrightarrow> walk (bt_tables bt') v = walk (bt_tables bt) v)"
  using assms
proof cases
  case (gs_scratch old new sync s)
  obtain r ts s' where R: "replace_data_page (bt_tables bt) SCRATCH_VA old new sync s = (r, ts, s')" by (metis prod_cases3)
  then show ?thesis using gs_scratch assms(2) replace_data_page_other [OF assms(3) R] by (simp add: replace_scratch_page_def)
qed (use assms in \<open>simp_all add: bt_edit_def validate_and_freeze_def\<close>)

lemma gate_steps_frozen:
  assumes "gate_step\<^sup>*\<^sup>* bt bt'" and "bt_frozen bt" and "ts_inv (bt_tables bt)"
  shows "bt_frozen bt' \<and> ts_inv (bt_tables bt') \<and>
    (\<forall>v. unat v < 2 ^ 39 \<longrightarrow> \<not> in_range SCRATCH_VA 4096 v \<longrightarrow> walk (bt_tables bt') v = walk (bt_tables bt) v)"
  using assms
proof (induction rule: rtranclp_induct)
  case (step b c)
  then show ?case using gate_step_frozen [OF step(2)] by auto
qed simp

lemma ranges_mapped_keep:
  assumes "ranges_mapped {} ts r" and "\<And>v. unat v < 2 ^ 39 \<Longrightarrow> v \<notin> X \<Longrightarrow> walk ts' v = walk ts v"
  shows "ranges_mapped X ts' r"
proof -
  have low: "unat v < 2 ^ 39" if "walk ts v = Ok t" for v t
    using that by (auto simp: walk_def VA_BITS_def word_le_nat_alt not_le split: if_splits)
  have "identity_mapped ts' w x v" if "identity_mapped ts w x v" "v \<notin> X" for w x v
    using that assms(2) [of v] low [of v] unfolding identity_mapped_def by auto
  moreover have "unmapped ts' v" if "unmapped ts v" "v \<notin> X" for v
    using that assms(2) [of v] low [of v] unfolding unmapped_def by auto
  ultimately show ?thesis using assms(1) unfolding ranges_mapped_def by fastforce
qed

text \<open>
  C8: startup resources stay as validated. Once validation of well-formed tables has
  succeeded and the gate is frozen, after any later operations on the gate every address of
  the code and the vectors is identity mapped read-only and executable, of the read-only data
  read-only, of the writable image, the tables, the CPU slots, the configuration, the context,
  the release page and the stack writable and never executable, and the guard page is
  unmapped, for every address outside the scratch page; the sections and the stack with its
  guard are pairwise disjoint page ranges, and the root is where the tables are.
\<close>

theorem startup_resources_frozen:
  assumes "ts_inv (bt_tables bt)" and "resources_wf r"
    and "validate_and_freeze bt (\<lambda>ts. validate_resources ts r) = (Ok (), bt0)" and "gate_step\<^sup>*\<^sup>* bt0 bt'"
  shows "bt_frozen bt' \<and> ts_inv (bt_tables bt') \<and> layout_sound (bt_tables bt) r \<and>
    ranges_mapped {v. in_range SCRATCH_VA 4096 v} (bt_tables bt') r"
proof -
  have ok: "validate_resources (bt_tables bt) r = Ok ()" and bt0: "bt_frozen bt0" "bt_tables bt0 = bt_tables bt"
    using assms(3) by (auto simp: validate_and_freeze_def split: if_splits)
      (cases "validate_resources (bt_tables bt) r"; auto)+
  note v = validate_resources_Ok [OF assms(2), THEN iffD1, OF ok]
  note g = gate_steps_frozen [OF assms(4) bt0(1)]
  have "layout_sound (bt_tables bt) r" using layout_checks_sound [OF assms(2)] v by blast
  then show ?thesis using g v assms(1) bt0(2) by (auto intro!: ranges_mapped_keep [of "bt_tables bt"])
qed

text \<open>A table set of four one-gigabyte blocks, and resources placed in it.\<close>

definition block_mapping :: "bool \<Rightarrow> bool \<Rightarrow> mapping" where
  "block_mapping w x = \<lparr>map_va = 0, map_pa = 0, map_size = 0, map_memory_type = Normal, map_writable = w, map_executable = x\<rparr>"

definition block_ts :: table_set where
  "block_ts = \<lparr>ts_pages = [(replicate 512 0)[0 := leaf_descriptor 1 0 (block_mapping False True),
       1 := leaf_descriptor 1 0x40000000 (block_mapping False False), 2 := leaf_descriptor 1 0x80000000 (block_mapping True False),
       5 := leaf_descriptor 1 0x140000000 (block_mapping True False)]], ts_used = 1, ts_base_pa = 0x80000000, ts_pa_bits = 36\<rparr>"

lemma block_entry:
  "i < 512 \<Longrightarrow> entry_of block_ts 0 i =
     (if i = 0 then leaf_descriptor 1 0 (block_mapping False True)
      else if i = 1 then leaf_descriptor 1 0x40000000 (block_mapping False False)
      else if i = 2 then leaf_descriptor 1 0x80000000 (block_mapping True False)
      else if i = 5 then leaf_descriptor 1 0x140000000 (block_mapping True False) else 0)"
  by (simp add: entry_of_def block_ts_def nth_list_update)

lemma block_ts_frame: "ts_frame block_ts"
  by (simp add: ts_frame_def block_ts_def)

lemma block_ts_inv: "ts_inv block_ts"
proof -
  have "entry_ok (\<lambda>_. (1, 0)) block_ts 0 i" if "i < 512" for i
    using block_entry [OF that] unfolding entry_ok_def Let_def by (auto split: if_splits)
  then have "ts_wf (\<lambda>_. (1, 0)) block_ts" using block_ts_frame by (auto simp: ts_wf_def block_ts_def)
  then show ?thesis by (auto simp: ts_inv_def)
qed

lemma block_walk:
  assumes "k < 512" and "entry_of block_ts 0 k = leaf_descriptor 1 pa (block_mapping w x)" and "unat pa = k * 2 ^ 30"
    and "unat pa \<le> unat v" and "unat v < unat pa + 2 ^ 30"
  shows "identity_mapped block_ts w x v"
proof -
  have bound: "k * 2 ^ 30 + 2 ^ 30 \<le> (2 :: nat) ^ 39" using assms(1) by simp
  then have v: "unat v < 2 ^ 39" using assms(3,5) by linarith
  have vp: "vpn 1 v = vpn 1 pa" "vpn 1 pa = k" using assms(3-5) by (simp_all add: vpn_def div_nat_eqI)
  then have i: "index_for 1 v = k" using assms(1) by (simp add: index_for_eq)
  have "walk block_ts v = Ok (Some (leaf_trans 1 v pa (block_mapping w x)))"
    using walk_loop_leaf [of 1 block_ts 0 v pa "block_mapping w x" "[2, 3]"] ts_entry_eq [OF block_ts_frame, of 0 k] assms(1,2) i walk_eq [OF v]
    by (simp add: block_ts_def upt_rec numeral_eq_Suc)
  moreover have "tr_pa (leaf_trans 1 v pa (block_mapping w x)) = pa + (v - pa)"
    by (rule leaf_block_address) (use assms(3) bound vp in \<open>simp_all add: level_shift_simps\<close>)
  ultimately show ?thesis by (simp add: identity_mapped_def leaf_trans_def block_mapping_def)
qed

definition example_resources :: startup_resources where
  "example_resources = \<lparr>sr_code = \<lparr>region_start = 0x80000, region_size = 0x1000\<rparr>,
     sr_vectors = \<lparr>region_start = 0x81000, region_size = 0x1000\<rparr>, sr_rodata = \<lparr>region_start = 0x40000000, region_size = 0x1000\<rparr>,
     sr_writable = \<lparr>region_start = 0x80010000, region_size = 0x2000\<rparr>, sr_tables = \<lparr>region_start = 0x80000000, region_size = 0x1000\<rparr>,
     sr_slots = \<lparr>region_start = 0x80010000, region_size = 1536\<rparr>, sr_config = \<lparr>region_start = 0x80010800, region_size = 128\<rparr>,
     sr_context = \<lparr>region_start = 0x80010180, region_size = 64\<rparr>, sr_release_page = \<lparr>region_start = 0x90000000, region_size = 0x1000\<rparr>,
     sr_stack = \<lparr>sl_guard_start = 0x13ffff000, sl_bottom = 0x140000000, sl_top = 0x140010000\<rparr>, sr_entry = 0x80000, sr_root = 0x80000000\<rparr>"

lemma example_layout: "layout_checks block_ts example_resources" and example_wf: "resources_wf example_resources"
  by (simp_all add: layout_checks_def example_resources_def sections_def bad_layout_def stack_layout_of_def checked_add_def
      stack_consts region_overlaps_def region_end_def region_contains_address_def region_contains_region_def SIZE_OF_SLOTS_def
      SIZE_OF_CONTEXT_def SIZE_OF_CONFIG_STORAGE_def MAX_CPUS_def root_pa_def block_ts_def resources_wf_def resource_ranges_def
      region_wf_def outcome_simps)

lemma example_ranges: "ranges_mapped {} block_ts example_resources"
proof -
  have b: "identity_mapped block_ts False True v" if "unat v < 2 ^ 30" for v
    using that by (intro block_walk [of 0 0]) (simp_all add: block_entry)
  have d: "identity_mapped block_ts False False v" if "2 ^ 30 \<le> unat v" "unat v < 2 ^ 31" for v
    using that by (intro block_walk [of 1 "0x40000000"]) (simp_all add: block_entry)
  have w: "identity_mapped block_ts True False v" if "2 ^ 31 \<le> unat v" "unat v < 2 ^ 31 + 2 ^ 30" for v
    using that by (intro block_walk [of 2 "0x80000000"]) (simp_all add: block_entry)
  have st: "identity_mapped block_ts True False v" if "5 * 2 ^ 30 \<le> unat v" "unat v < 6 * 2 ^ 30" for v
    using that by (intro block_walk [of 5 "0x140000000"]) (simp_all add: block_entry)
  have g: "unmapped block_ts v" if "unat v div 2 ^ 30 = 4" for v
  proof -
    have "unat v div 2 ^ 30 < 512" using that by simp
    then have low: "unat v < 2 ^ 39" unfolding div_less_iff_less_mult [of "2 ^ 30" "unat v" 512, simplified] by simp
    have i: "index_for 1 v = 4" using that by (simp add: index_for_eq vpn_def level_shift_simps)
    have u: "0 < ts_used block_ts" by (simp add: block_ts_def)
    have "entry_of block_ts 0 (index_for 1 v) = 0" unfolding i by (simp add: block_entry)
    then have "walk_loop block_ts v 0 (1 # [2, 3]) = Ok None" by (rule walk_loop_zero [OF block_ts_frame u])
    moreover have "[1..<4] = 1 # [2, 3 :: nat]" by (simp add: upt_rec)
    ultimately show ?thesis unfolding unmapped_def walk_eq [OF low] by simp
  qed
  have "unat v div 2 ^ 30 = 4" if "in_range 0x13ffff000 4096 v" for v using that by (intro div_nat_eqI) (simp_all add: in_range_def)
  note guard = this
  have addr: "v \<in> region_addrs \<lparr>region_start = a, region_size = n\<rparr> \<longleftrightarrow> unat a \<le> unat v \<and> unat v < unat (a + n)" for v a n
    by (simp add: region_addrs_def region_contains_address_def region_end_def word_le_nat_alt word_less_nat_alt)
  have "\<forall>(region, w, x) \<in> set (resource_ranges example_resources). \<forall>v \<in> region_addrs region. identity_mapped block_ts w x v"
    unfolding resource_ranges_def example_resources_def using b d w by (simp add: addr)
  then show ?thesis using guard g st by (simp add: ranges_mapped_def example_resources_def in_range_def)
qed

theorem startup_resources_frozen_witness:
  "\<exists>bt0. validate_and_freeze (bt_new block_ts) (\<lambda>ts. validate_resources ts example_resources) = (Ok (), bt0) \<and>
     (\<forall>m. identity_mapped (bt_tables (snd (bt_edit bt0 (\<lambda>ts. ts_map ts m)))) False True 0x80ffc)"
proof -
  let ?bt0 = "\<lparr>bt_tables = block_ts, bt_frozen = True\<rparr>"
  have "validate_resources block_ts example_resources = Ok ()"
    using validate_resources_Ok [OF example_wf] example_layout example_ranges by blast
  then have f: "validate_and_freeze (bt_new block_ts) (\<lambda>ts. validate_resources ts example_resources) = (Ok (), ?bt0)"
    by (simp add: validate_and_freeze_def bt_new_def)
  have inv: "ts_inv (bt_tables (bt_new block_ts))" using block_ts_inv by (simp add: bt_new_def)
  have code: "sr_code example_resources = \<lparr>region_start = 0x80000, region_size = 0x1000\<rparr>" by (simp add: example_resources_def)
  have "0x80ffc \<in> region_addrs (sr_code example_resources)" "\<not> in_range SCRATCH_VA 4096 0x80ffc"
    unfolding code by (simp_all add: region_addrs_def region_contains_address_def region_end_def in_range_def SCRATCH_VA_def)
  moreover have "ranges_mapped {v. in_range SCRATCH_VA 4096 v} (bt_tables (snd (bt_edit ?bt0 (\<lambda>ts. ts_map ts m)))) example_resources" for m
    using startup_resources_frozen [OF inv example_wf f] gs_edit [of ?bt0 "\<lambda>ts. ts_map ts m"] by (blast intro: r_into_rtranclp)
  ultimately have "identity_mapped (bt_tables (snd (bt_edit ?bt0 (\<lambda>ts. ts_map ts m)))) False True 0x80ffc" for m
    unfolding ranges_mapped_def resource_ranges_def by fastforce
  then show ?thesis using f by blast
qed

end
