(* ===== verification/Secondary_Startup.thy ===== *)
theory Secondary_Startup
  imports Secondary_Mailbox El2_Policy
begin

text \<open>
  What a CPU slot holds for the start of its CPU (\<open>tvisor_util/secondary_startup.rs\<close>): the
  mailbox and the diagnostic checkpoint words, and the transient view a CPU acquires of it.
\<close>

record entry_state =
  es_sctlr :: u64
  es_midr :: u64
  es_cpuectlr :: u64
  es_mpidr :: u64

record local_state =
  ls_current_el :: u64
  ls_affinity :: u64
  ls_sp :: u64
  ls_tpidr :: u64
  ls_vbar :: u64
  ls_mair :: u64
  ls_tcr :: u64
  ls_root :: u64
  ls_sctlr :: u64
  ls_daif :: u64
  ls_hcr :: u64
  ls_cptr :: u64
  ls_hstr :: u64
  ls_vttbr :: u64
  ls_cntvoff :: u64
  ls_cnthctl :: u64
  ls_cnthp_ctl :: u64
  ls_cntp_ctl :: u64
  ls_cntv_ctl :: u64
  ls_spsel :: u64

text \<open>\<open>Checkpoint\<close> and \<open>EntryCheckpoint\<close> hold one atomic per field of these records.\<close>

definition checkpoint_new :: local_state where
  "checkpoint_new = \<lparr>ls_current_el = 0, ls_affinity = 0, ls_sp = 0, ls_tpidr = 0, ls_vbar = 0, ls_mair = 0, ls_tcr = 0,
     ls_root = 0, ls_sctlr = 0, ls_daif = 0, ls_hcr = 0, ls_cptr = 0, ls_hstr = 0, ls_vttbr = 0, ls_cntvoff = 0, ls_cnthctl = 0,
     ls_cnthp_ctl = 0, ls_cntp_ctl = 0, ls_cntv_ctl = 0, ls_spsel = 0\<rparr>"

definition entry_checkpoint_new :: entry_state where
  "entry_checkpoint_new = \<lparr>es_sctlr = 0, es_midr = 0, es_cpuectlr = 0, es_mpidr = 0\<rparr>"

record secondary_startup =
  su_mailbox :: mailbox
  su_checkpoint :: local_state
  su_entry :: entry_state
  su_failures :: u64

definition startup_new :: secondary_startup where
  "startup_new = \<lparr>su_mailbox = mb_new, su_checkpoint = checkpoint_new, su_entry = entry_checkpoint_new, su_failures = 0\<rparr>"

record cpu_identity =
  ci_logical_id :: u64
  ci_affinity :: u64
  ci_stack_bottom :: u64
  ci_stack_top :: u64
  ci_context :: u64

text \<open>The view: its references to the slot and the shared configuration are their addresses.\<close>

record startup_view =
  sv_identity :: cpu_identity
  sv_config :: host_config
  sv_config_address :: u64
  sv_generation :: u64
  sv_slot_address :: u64

end
