(* ===== verification/Pcpu.thy ===== *)
theory Pcpu
  imports Prog_Lift Secondary_Startup Pcpu_Stack
begin

text \<open>
  The slot of a physical CPU (\<open>tvisor_util/pcpu.rs\<close>): its world-switch context, its startup
  record and the claim that makes preparation happen once. The context is written field by
  field, without atomics, and read by other CPUs, so every field access is its own step.
\<close>

record pcpu_context =
  pc_host_sp :: u64
  pc_active_vcpu :: u64
  pc_logical_id :: u64
  pc_affinity :: u64
  pc_stack_bottom :: u64
  pc_stack_top :: u64
  pc_present :: u64

definition context_empty :: pcpu_context where
  "context_empty = \<lparr>pc_host_sp = 0, pc_active_vcpu = 0, pc_logical_id = 0, pc_affinity = 0, pc_stack_bottom = 0,
     pc_stack_top = 0, pc_present = 0\<rparr>"

definition matches_secondary :: "pcpu_context \<Rightarrow> u64 \<Rightarrow> u64 \<Rightarrow> u64 \<Rightarrow> u64 \<Rightarrow> bool" where
  "matches_secondary c logical_id affinity stack_bottom stack_top \<longleftrightarrow>
     0 < logical_id \<and> logical_id < word_of_nat MAX_CPUS \<and> pc_present c = 1 \<and> pc_logical_id c = logical_id \<and> pc_affinity c = affinity \<and>
     pc_stack_bottom c = stack_bottom \<and> pc_stack_top c = stack_top \<and> pc_host_sp c = 0 \<and> pc_active_vcpu c = 0"

text \<open>\<open>ps_owner\<close> is auxiliary (which CPU won the claim); no program reads it.\<close>

record pcpu_slot =
  ps_context :: pcpu_context
  ps_startup :: secondary_startup
  ps_claimed :: bool
  ps_owner :: "nat option"

definition slot_new :: pcpu_slot where
  "slot_new = \<lparr>ps_context = context_empty, ps_startup = startup_new, ps_claimed = False, ps_owner = None\<rparr>"

definition ps_mailbox :: "pcpu_slot \<Rightarrow> mailbox" where
  "ps_mailbox s = su_mailbox (ps_startup s)"

definition ps_set_mailbox :: "mailbox \<Rightarrow> pcpu_slot \<Rightarrow> pcpu_slot" where
  "ps_set_mailbox m s = s\<lparr>ps_startup := (ps_startup s)\<lparr>su_mailbox := m\<rparr>\<rparr>"

abbreviation on_mailbox :: "(mailbox, 'a) prog \<Rightarrow> (pcpu_slot, 'a) prog" where
  "on_mailbox \<equiv> plift ps_mailbox ps_set_mailbox"

definition claim_slot :: "nat \<Rightarrow> (pcpu_slot, bool) prog" where
  "claim_slot cpu = armw (\<lambda>s. if ps_claimed s then (s, True) else (s\<lparr>ps_claimed := True, ps_owner := Some cpu\<rparr>, False))"

definition ctx_store :: "(pcpu_context \<Rightarrow> pcpu_context) \<Rightarrow> (pcpu_slot, unit) prog" where
  "ctx_store f = astore (\<lambda>s. s\<lparr>ps_context := f (ps_context s)\<rparr>)"

fun ctx_stores :: "(pcpu_context \<Rightarrow> pcpu_context) list \<Rightarrow> (pcpu_slot, unit) prog" where
  "ctx_stores [] = Ret ()"
| "ctx_stores (f # fs) = pbind (ctx_store f) (\<lambda>_. ctx_stores fs)"

definition context_writes :: "nat \<Rightarrow> u64 \<Rightarrow> stack_layout \<Rightarrow> (pcpu_context \<Rightarrow> pcpu_context) list" where
  "context_writes logical_id affinity stack =
     [pc_host_sp_update (\<lambda>_. 0), pc_active_vcpu_update (\<lambda>_. 0), pc_logical_id_update (\<lambda>_. word_of_nat logical_id),
      pc_affinity_update (\<lambda>_. affinity), pc_stack_bottom_update (\<lambda>_. sl_bottom stack), pc_stack_top_update (\<lambda>_. sl_top stack),
      pc_present_update (\<lambda>_. 1)]"

definition slot_prepare :: "nat \<Rightarrow> nat \<Rightarrow> u64 \<Rightarrow> stack_layout \<Rightarrow> (pcpu_slot, (unit, string) outcome) prog" where
  "slot_prepare cpu logical_id affinity stack =
     (if MAX_CPUS \<le> logical_id \<or> affinity AND NOT MPIDR_AFFINITY_MASK \<noteq> 0 \<or> sl_bottom stack = 0 \<or>
         stack_layout_of (sl_guard_start stack) \<noteq> Ok stack
      then Ret (Err ''invalid CPU preparation'')
      else pbind (claim_slot cpu) (\<lambda>taken.
        if taken then Ret (Err ''CPU slot already prepared'')
        else pbind (ctx_stores (context_writes logical_id affinity stack)) (\<lambda>_.
          pbind (on_mailbox mark_prepared) (\<lambda>r. Ret (map_err (\<lambda>_. ''invalid CPU preparation lifecycle'') r)))))"

definition is_prepared :: "(pcpu_slot, (bool, string) outcome) prog" where
  "is_prepared = pthen (on_mailbox lifecycle) (\<lambda>st. Ret (Ok (st \<noteq> Offline)))"

text \<open>The address of the slot is also the address of its context.\<close>

definition read_identity :: "u64 \<Rightarrow> (pcpu_slot, (cpu_identity option, string) outcome) prog" where
  "read_identity address =
     pbind (aload (\<lambda>s. pc_logical_id (ps_context s))) (\<lambda>logical_id.
     pbind (aload (\<lambda>s. pc_affinity (ps_context s))) (\<lambda>affinity.
     pbind (aload (\<lambda>s. pc_stack_bottom (ps_context s))) (\<lambda>bottom.
     pbind (aload (\<lambda>s. pc_stack_top (ps_context s))) (\<lambda>stack_top.
       Ret (Ok (Some \<lparr>ci_logical_id = logical_id, ci_affinity = affinity, ci_stack_bottom = bottom, ci_stack_top = stack_top,
         ci_context = address\<rparr>))))))"

definition slot_identity :: "u64 \<Rightarrow> (pcpu_slot, (cpu_identity option, string) outcome) prog" where
  "slot_identity address =
     pthen is_prepared (\<lambda>prepared. if \<not> prepared then Ret (Ok None) else read_identity address)"

definition config_valid :: "host_config \<Rightarrow> bool" where
  "config_valid config \<longleftrightarrow> cfg_mair config = HOST_MAIR \<and> cfg_sctlr config = HOST_SCTLR \<and>
     (case ht_new (cfg_root config) (ucast (drop_bit 16 (cfg_tcr config) AND 7)) of Ok p \<Rightarrow> ht_tcr p = cfg_tcr config | _ \<Rightarrow> False)"

definition publish_startup :: "u64 \<Rightarrow> u64 \<Rightarrow> host_config \<Rightarrow> (pcpu_slot, (unit, string) outcome) prog" where
  "publish_startup address generation config =
     pthen (slot_identity address) (\<lambda>x. case x of
         None \<Rightarrow> Ret (Err ''CPU slot not prepared'')
       | Some identity \<Rightarrow>
           if ci_logical_id identity = 0 \<or> \<not> config_valid config then Ret (Err ''invalid startup configuration'')
           else pbind (on_mailbox (mb_publish generation)) (\<lambda>r.
             Ret (map_err (\<lambda>_. ''startup already published or invalid generation'') r)))"

definition slot_startup_view ::
  "u64 \<Rightarrow> u64 \<Rightarrow> u64 \<Rightarrow> host_config \<Rightarrow> (pcpu_slot, (startup_view option, string) outcome) prog" where
  "slot_startup_view address config_address generation config =
     pbind (on_mailbox (observe_ready generation)) (\<lambda>ready.
       if \<not> ready then Ret (Ok None)
       else pthen (slot_identity address) (\<lambda>x. Ret (Ok (map_option (\<lambda>identity.
         \<lparr>sv_identity = identity, sv_config = config, sv_config_address = config_address, sv_generation = generation,
          sv_slot_address = address\<rparr>) x))))"

text \<open>The slots of all CPUs: \<open>find_slot_by_affinity\<close> answers only an unambiguous match.\<close>

definition slot_address :: "u64 \<Rightarrow> nat \<Rightarrow> u64" where
  "slot_address base i = base + word_of_nat (384 * i)"

fun find_slot_loop :: "u64 \<Rightarrow> u64 \<Rightarrow> nat option \<Rightarrow> nat list \<Rightarrow> (nat \<Rightarrow> pcpu_slot, (nat option, string) outcome) prog" where
  "find_slot_loop base affinity found [] = Ret (Ok found)"
| "find_slot_loop base affinity found (i # is) =
     pthen (plift (\<lambda>slots. slots i) (\<lambda>s slots. slots(i := s)) (slot_identity (slot_address base i))) (\<lambda>x.
       if (case x of None \<Rightarrow> False | Some identity \<Rightarrow> ci_affinity identity = affinity)
       then if found \<noteq> None then Ret (Ok None) else find_slot_loop base affinity (Some i) is
       else find_slot_loop base affinity found is)"

definition find_slot_by_affinity :: "u64 \<Rightarrow> nat \<Rightarrow> u64 \<Rightarrow> (nat \<Rightarrow> pcpu_slot, (nat option, string) outcome) prog" where
  "find_slot_by_affinity base n mpidr =
     (if MAX_CPUS < n then Ret (Ok None) else find_slot_loop base (mpidr AND MPIDR_AFFINITY_MASK) None [0..<n])"

section \<open>The protocol\<close>

definition offline :: "pcpu_slot \<Rightarrow> bool" where
  "offline s \<longleftrightarrow> mb_state (ps_mailbox s) = state_code Offline"

definition mb_valid :: "mailbox \<Rightarrow> bool" where
  "mb_valid m \<longleftrightarrow> (\<exists>st. mb_state m = state_code st)"

definition ctx_ok :: "pcpu_context \<Rightarrow> bool" where
  "ctx_ok c \<longleftrightarrow> pc_present c = 1 \<and> pc_logical_id c < word_of_nat MAX_CPUS \<and> pc_affinity c AND NOT MPIDR_AFFINITY_MASK = 0 \<and>
     (\<exists>l. stack_layout_of (sl_guard_start l) = Ok l \<and> sl_bottom l = pc_stack_bottom c \<and> sl_top l = pc_stack_top c)"

definition identity_of :: "pcpu_slot \<Rightarrow> u64 \<times> u64 \<times> u64 \<times> u64" where
  "identity_of s = (pc_logical_id (ps_context s), pc_affinity (ps_context s), pc_stack_bottom (ps_context s), pc_stack_top (ps_context s))"

text \<open>
  What a CPU may do to a slot: win the claim, fill the context while it owns an offline slot,
  declare it prepared once the context is complete, use the mailbox of a prepared slot, run
  guests on it (\<open>__vcpu_run\<close> changes the other two context fields) and record diagnostics.
\<close>

inductive ps_guar :: "nat \<Rightarrow> pcpu_slot \<Rightarrow> pcpu_slot \<Rightarrow> bool" for cpu where
  ps_skip: "ps_guar cpu s s"
| ps_claim: "\<not> ps_claimed s \<Longrightarrow> ps_guar cpu s (s\<lparr>ps_claimed := True, ps_owner := Some cpu\<rparr>)"
| ps_fill: "ps_owner s = Some cpu \<Longrightarrow> offline s \<Longrightarrow> ps_guar cpu s (s\<lparr>ps_context := c\<rparr>)"
| ps_ready: "ps_owner s = Some cpu \<Longrightarrow> offline s \<Longrightarrow> ctx_ok (ps_context s) \<Longrightarrow>
    ps_guar cpu s (ps_set_mailbox ((ps_mailbox s)\<lparr>mb_state := state_code Prepared\<rparr>) s)"
| ps_mail: "(mb_state m = state_code Offline \<longleftrightarrow> offline s) \<Longrightarrow> mb_valid m \<Longrightarrow> ps_guar cpu s (ps_set_mailbox m s)"
| ps_run: "\<not> offline s \<Longrightarrow> ps_guar cpu s (s\<lparr>ps_context := (ps_context s)\<lparr>pc_host_sp := a, pc_active_vcpu := b\<rparr>\<rparr>)"
| ps_record: "ps_guar cpu s (s\<lparr>ps_startup := (ps_startup s)\<lparr>su_checkpoint := k, su_entry := e, su_failures := f\<rparr>\<rparr>)"

definition ps_inv :: "pcpu_slot \<Rightarrow> bool" where
  "ps_inv s \<longleftrightarrow> mb_valid (ps_mailbox s) \<and> (ps_claimed s \<longleftrightarrow> ps_owner s \<noteq> None) \<and>
     (\<not> offline s \<longrightarrow> ps_claimed s \<and> ctx_ok (ps_context s))"

lemma ps_mailbox_laws [simp]:
  "ps_mailbox (ps_set_mailbox m s) = m" "ps_set_mailbox (ps_mailbox s) s = s" "ps_set_mailbox m (ps_set_mailbox m' s) = ps_set_mailbox m s"
  "ps_context (ps_set_mailbox m s) = ps_context s" "ps_claimed (ps_set_mailbox m s) = ps_claimed s" "ps_owner (ps_set_mailbox m s) = ps_owner s"
  "ps_mailbox (s\<lparr>ps_context := c\<rparr>) = ps_mailbox s" "ps_mailbox (s\<lparr>ps_claimed := b, ps_owner := w\<rparr>) = ps_mailbox s"
  "ps_mailbox (s\<lparr>ps_startup := (ps_startup s)\<lparr>su_checkpoint := k, su_entry := e, su_failures := f\<rparr>\<rparr>) = ps_mailbox s"
  by (simp_all add: ps_mailbox_def ps_set_mailbox_def)

lemma offline_simps [simp]:
  "offline (s\<lparr>ps_context := c\<rparr>) = offline s" "offline (s\<lparr>ps_claimed := b, ps_owner := w\<rparr>) = offline s"
  "offline (s\<lparr>ps_startup := (ps_startup s)\<lparr>su_checkpoint := k, su_entry := e, su_failures := f\<rparr>\<rparr>) = offline s"
  "offline (ps_set_mailbox m s) \<longleftrightarrow> mb_state m = state_code Offline"
  by (simp_all add: offline_def)

lemma ps_guar_inv: "ps_guar cpu s s' \<Longrightarrow> ps_inv s \<Longrightarrow> ps_inv s'"
  by (erule ps_guar.cases) (auto simp: ps_inv_def mb_valid_def ctx_ok_def offline_def)

lemma ps_guar_prepared: "ps_guar cpu s s' \<Longrightarrow> \<not> offline s \<Longrightarrow> \<not> offline s' \<and> identity_of s' = identity_of s"
  by (erule ps_guar.cases) (auto simp: identity_of_def)

lemma ps_guar_owner: "ps_guar cpu s s' \<Longrightarrow> ps_inv s \<Longrightarrow> ps_owner s = Some w \<Longrightarrow> ps_owner s' = Some w"
  by (erule ps_guar.cases) (auto simp: ps_inv_def)

abbreviation ps_rely :: "nat \<Rightarrow> pcpu_slot \<Rightarrow> pcpu_slot \<Rightarrow> bool" where
  "ps_rely cpu \<equiv> (\<lambda>s s'. \<exists>j. j \<noteq> cpu \<and> ps_guar j s s')"

abbreviation ps_safe :: "nat \<Rightarrow> (pcpu_slot \<Rightarrow> bool) \<Rightarrow> (pcpu_slot, 'a) prog \<Rightarrow> ('a \<Rightarrow> pcpu_slot \<Rightarrow> bool) \<Rightarrow> bool" where
  "ps_safe cpu \<equiv> safe ps_inv (ps_rely cpu) (ps_guar cpu)"

abbreviation ps_stable :: "nat \<Rightarrow> (pcpu_slot \<Rightarrow> bool) \<Rightarrow> bool" where
  "ps_stable cpu \<equiv> stable_under ps_inv (ps_rely cpu)"

section \<open>Stable knowledge\<close>

definition filling :: "nat \<Rightarrow> (pcpu_context \<Rightarrow> bool) \<Rightarrow> pcpu_slot \<Rightarrow> bool" where
  "filling cpu Q s \<longleftrightarrow> ps_owner s = Some cpu \<and> offline s \<and> Q (ps_context s)"

lemma filling_other: "ps_guar j s s' \<Longrightarrow> j \<noteq> cpu \<Longrightarrow> ps_inv s \<Longrightarrow> filling cpu Q s \<Longrightarrow> filling cpu Q s'"
  by (erule ps_guar.cases) (auto simp: filling_def ps_inv_def)

lemma filling_stable [simp]: "ps_stable cpu (filling cpu Q)"
  using filling_other unfolding stable_under_def by blast

definition prepared_as :: "((u64 \<times> u64 \<times> u64 \<times> u64) \<Rightarrow> bool) \<Rightarrow> pcpu_slot \<Rightarrow> bool" where
  "prepared_as Q s \<longleftrightarrow> \<not> offline s \<and> Q (identity_of s)"

lemma prepared_stable [simp]: "ps_stable cpu (prepared_as Q)"
  using ps_guar_prepared unfolding stable_under_def prepared_as_def by metis

definition owned_by :: "nat \<Rightarrow> pcpu_slot \<Rightarrow> bool" where
  "owned_by cpu s \<longleftrightarrow> ps_owner s = Some cpu"

lemma owned_stable [simp]: "ps_stable j (owned_by cpu)"
  using ps_guar_owner unfolding stable_under_def owned_by_def by metis

lemma ps_armw:
  assumes "\<And>s. ps_inv s \<Longrightarrow> P s \<Longrightarrow> ps_guar cpu s (fst (f s))" and "\<And>s. ps_inv s \<Longrightarrow> P s \<Longrightarrow> post (snd (f s)) (fst (f s))"
    and "\<And>a. ps_stable cpu (post a)"
  shows "ps_safe cpu P (armw f) post"
  using assms by (intro safe_armw) (auto intro: ps_guar_inv)

lemma ps_load:
  assumes "\<And>s. ps_inv s \<Longrightarrow> P s \<Longrightarrow> post (get s) s" and "\<And>a. ps_stable cpu (post a)"
  shows "ps_safe cpu P (aload get) post"
  using assms by (intro safe_aload) (auto intro: ps_skip)

section \<open>The operations\<close>

lemma claim_slot_safe: "ps_safe cpu (\<lambda>_. True) (claim_slot cpu) (\<lambda>taken s. \<not> taken \<longrightarrow> filling cpu (\<lambda>_. True) s)"
  unfolding claim_slot_def
proof (rule ps_armw)
  show "ps_stable cpu (\<lambda>s. \<not> taken \<longrightarrow> filling cpu (\<lambda>_. True) s)" for taken by simp
qed (auto intro: ps_skip ps_claim simp: filling_def ps_inv_def)

lemma ctx_stores_safe:
  "ps_safe cpu (filling cpu Q) (ctx_stores fs) (\<lambda>_. filling cpu (\<lambda>c. \<exists>c0. Q c0 \<and> c = fold (\<lambda>f. f) fs c0))"
proof (induction fs arbitrary: Q)
  case (Cons f fs)
  have "ps_safe cpu (filling cpu Q) (ctx_store f) (\<lambda>_. filling cpu (\<lambda>c. \<exists>c0. Q c0 \<and> c = f c0))"
    unfolding ctx_store_def astore_armw by (rule ps_armw [OF _ _ filling_stable]) (auto intro: ps_fill simp: filling_def)
  from safe_pbind [OF this Cons.IH] show ?case unfolding ctx_stores.simps by (rule safe_post) (auto simp: filling_def)
qed (auto intro!: safe_Ret)

lemma run_context_writes:
  "fold (\<lambda>f. f) (context_writes i f l) c =
     \<lparr>pc_host_sp = 0, pc_active_vcpu = 0, pc_logical_id = word_of_nat i, pc_affinity = f, pc_stack_bottom = sl_bottom l,
      pc_stack_top = sl_top l, pc_present = 1\<rparr>"
  by (simp add: context_writes_def)

definition slot_args :: "nat \<Rightarrow> u64 \<Rightarrow> stack_layout \<Rightarrow> bool" where
  "slot_args i f l \<longleftrightarrow> i < MAX_CPUS \<and> f AND NOT MPIDR_AFFINITY_MASK = 0 \<and> stack_layout_of (sl_guard_start l) = Ok l"

lemma ready_safe:
  assumes "slot_args i f l"
  shows "ps_safe cpu (filling cpu (\<lambda>c. c = fold (\<lambda>f. f) (context_writes i f l) c0)) (on_mailbox mark_prepared)
    (\<lambda>r s. r = Ok () \<and> prepared_as (\<lambda>x. x = (word_of_nat i, f, sl_bottom l, sl_top l)) s \<and> owned_by cpu s)"
proof -
  let ?P = "filling cpu (\<lambda>c. c = fold (\<lambda>f. f) (context_writes i f l) c0)"
  have small: "(word_of_nat i :: u64) < word_of_nat MAX_CPUS"
    using assms by (simp add: slot_args_def MAX_CPUS_def word_less_nat_alt unat_word_of_nat_u64)
  have "on_mailbox mark_prepared = pbind (armw (\<lambda>s. if mb_state (ps_mailbox s) = state_code Offline
      then (ps_set_mailbox ((ps_mailbox s)\<lparr>mb_state := state_code Prepared\<rparr>) s, True) else (s, False)))
      (\<lambda>won. Ret (if won then Ok () else Err InvalidTransition))"
    by (simp add: mark_prepared_def state_cas_def prog_defs cas_or_def fun_eq_iff if_distrib [of fst] if_distrib [of snd])
  moreover have "ps_safe cpu ?P (armw (\<lambda>s. if mb_state (ps_mailbox s) = state_code Offline
      then (ps_set_mailbox ((ps_mailbox s)\<lparr>mb_state := state_code Prepared\<rparr>) s, True) else (s, False)))
      (\<lambda>won s. won \<and> prepared_as (\<lambda>x. x = (word_of_nat i, f, sl_bottom l, sl_top l)) s \<and> owned_by cpu s)"
  proof (rule ps_armw)
    fix s assume "ps_inv s" and P: "?P s"
    have "offline s" using P by (simp add: filling_def)
    have "ctx_ok (ps_context s)"
      using P assms small unfolding filling_def run_context_writes by (auto simp: ctx_ok_def slot_args_def)
    then show "ps_guar cpu s (fst (if mb_state (ps_mailbox s) = state_code Offline
        then (ps_set_mailbox ((ps_mailbox s)\<lparr>mb_state := state_code Prepared\<rparr>) s, True) else (s, False)))"
      using P ps_ready [of s cpu] by (auto simp: filling_def offline_def)
  next
    show "ps_stable cpu (\<lambda>s. won \<and> prepared_as (\<lambda>x. x = (word_of_nat i, f, sl_bottom l, sl_top l)) s \<and> owned_by cpu s)" for won
      by (intro stable_under_conj) simp_all
  qed (auto simp: filling_def prepared_as_def owned_by_def identity_of_def offline_def run_context_writes)
  ultimately show ?thesis by (auto intro!: safe_pbind safe_Ret)
qed

lemma slot_prepare_safe:
  "ps_safe cpu (\<lambda>_. True) (slot_prepare cpu i f l)
    (\<lambda>r s. r \<noteq> Panic \<and> (r = Ok () \<longrightarrow> slot_args i f l \<and> prepared_as (\<lambda>x. x = (word_of_nat i, f, sl_bottom l, sl_top l)) s \<and> owned_by cpu s))"
proof (cases "MAX_CPUS \<le> i \<or> f AND NOT MPIDR_AFFINITY_MASK \<noteq> 0 \<or> sl_bottom l = 0 \<or> stack_layout_of (sl_guard_start l) \<noteq> Ok l")
  case True
  then show ?thesis by (auto simp: slot_prepare_def intro!: safe_Ret)
next
  case False
  then have args: "slot_args i f l" by (auto simp: slot_args_def)
  have fill: "ps_safe cpu (filling cpu (\<lambda>_. True)) (ctx_stores (context_writes i f l))
      (\<lambda>_. filling cpu (\<lambda>c. c = fold (\<lambda>f. f) (context_writes i f l) context_empty))"
    by (rule safe_post [OF ctx_stores_safe]) (auto simp: filling_def run_context_writes)
  have "ps_safe cpu (filling cpu (\<lambda>_. True)) (pbind (ctx_stores (context_writes i f l)) (\<lambda>_.
      pbind (on_mailbox mark_prepared) (\<lambda>r. Ret (map_err (\<lambda>_. ''invalid CPU preparation lifecycle'') r))))
      (\<lambda>r s. r \<noteq> Panic \<and> (r = Ok () \<longrightarrow> slot_args i f l \<and> prepared_as (\<lambda>x. x = (word_of_nat i, f, sl_bottom l, sl_top l)) s \<and> owned_by cpu s))"
    using args by (auto intro!: safe_pbind [OF fill] safe_pbind [OF ready_safe [OF args]] safe_Ret)
  then show ?thesis
    using False unfolding slot_prepare_def
    by (auto intro!: safe_pbind [OF claim_slot_safe] safe_if safe_Ret elim: safe_weaken)
qed

lemma on_mailbox_aload: "on_mailbox (aload get) = aload (\<lambda>s. get (ps_mailbox s))"
  by (simp add: aload_def)

lemma is_prepared_safe:
  assumes "ps_stable cpu P"
  shows "ps_safe cpu P is_prepared (\<lambda>r s. P s \<and> (\<exists>b. r = Ok b \<and> (b \<longrightarrow> prepared_as (\<lambda>_. True) s) \<and> ((\<forall>s. P s \<longrightarrow> \<not> offline s) \<longrightarrow> b)))"
proof -
  have "ps_safe cpu P (aload (\<lambda>s. decode_state (mb_state (ps_mailbox s)) :: (cpu_state, string) outcome))
    (\<lambda>r s. P s \<and> (\<exists>st. r = Ok st \<and> (st \<noteq> Offline \<longrightarrow> prepared_as (\<lambda>_. True) s) \<and> ((\<forall>s. P s \<longrightarrow> \<not> offline s) \<longrightarrow> st \<noteq> Offline)))"
  proof (rule ps_load)
    fix s assume s: "ps_inv s" "P s"
    obtain st where st: "mb_state (ps_mailbox s) = state_code st" using s(1) by (auto simp: ps_inv_def mb_valid_def)
    then show "P s \<and> (\<exists>st. decode_state (mb_state (ps_mailbox s)) = Ok st \<and> (st \<noteq> Offline \<longrightarrow> prepared_as (\<lambda>_. True) s) \<and>
        ((\<forall>s. P s \<longrightarrow> \<not> offline s) \<longrightarrow> st \<noteq> Offline))"
      using s by (auto simp: prepared_as_def offline_def)
  next
    show "ps_stable cpu (\<lambda>s. P s \<and> (\<exists>st. r = Ok st \<and> (st \<noteq> Offline \<longrightarrow> prepared_as (\<lambda>_. True) s) \<and>
        ((\<forall>s. P s \<longrightarrow> \<not> offline s) \<longrightarrow> st \<noteq> Offline)))" for r :: "(cpu_state, string) outcome"
      using assms by (cases r) auto
  qed
  then show ?thesis unfolding is_prepared_def lifecycle_def on_mailbox_aload by (auto intro!: safe_pthen safe_Ret)
qed

definition reads_as :: "u64 \<Rightarrow> cpu_identity \<Rightarrow> pcpu_slot \<Rightarrow> bool" where
  "reads_as address i s \<longleftrightarrow> ci_context i = address \<and>
     prepared_as (\<lambda>x. x = (ci_logical_id i, ci_affinity i, ci_stack_bottom i, ci_stack_top i)) s"

lemma reads_as_stable [simp]: "ps_stable cpu (reads_as address i)"
  unfolding reads_as_def by (intro stable_under_conj) simp_all

lemma slot_identity_safe:
  assumes "ps_stable cpu P"
  shows "ps_safe cpu P (slot_identity address) (\<lambda>r s. P s \<and> (\<exists>x. r = Ok x \<and> (\<forall>i. x = Some i \<longrightarrow> reads_as address i s) \<and>
    ((\<forall>s. P s \<longrightarrow> \<not> offline s) \<longrightarrow> x \<noteq> None)))"
proof -
  have load: "ps_safe cpu (\<lambda>s. P s \<and> prepared_as Q s) (aload (\<lambda>s. get (identity_of s))) (\<lambda>v s. P s \<and> prepared_as (\<lambda>x. Q x \<and> get x = v) s)"
    for Q and get :: "u64 \<times> u64 \<times> u64 \<times> u64 \<Rightarrow> u64"
  proof (rule ps_load)
    show "ps_stable cpu (\<lambda>s. P s \<and> prepared_as (\<lambda>x. Q x \<and> get x = v) s)" for v using assms by simp
  qed (simp add: prepared_as_def)
  note loads = load [where get = fst] load [where get = "\<lambda>x. fst (snd x)"] load [where get = "\<lambda>x. fst (snd (snd x))"]
    load [where get = "\<lambda>x. snd (snd (snd x))"]
  have read: "ps_safe cpu (\<lambda>s. P s \<and> prepared_as (\<lambda>_. True) s) (read_identity address)
     (\<lambda>r s. P s \<and> (\<exists>x. r = Ok x \<and> (\<forall>i. x = Some i \<longrightarrow> reads_as address i s) \<and> ((\<forall>s. P s \<longrightarrow> \<not> offline s) \<longrightarrow> x \<noteq> None)))"
    unfolding read_identity_def
    by (rule safe_pbind [OF loads(1) [unfolded identity_of_def, simplified]], rule safe_pbind [OF loads(2) [unfolded identity_of_def, simplified]],
        rule safe_pbind [OF loads(3) [unfolded identity_of_def, simplified]], rule safe_pbind [OF loads(4) [unfolded identity_of_def, simplified]],
        rule safe_Ret) (auto simp: reads_as_def prepared_as_def)
  show ?thesis
    unfolding slot_identity_def
    by (rule safe_pthen [OF is_prepared_safe [OF assms]]) (auto intro!: safe_if safe_Ret intro: safe_weaken [OF read] simp del: not_None_eq)
qed

lemma reads_as_prepared: "reads_as address i s \<Longrightarrow> prepared_as (\<lambda>_. True) s"
  by (simp add: reads_as_def prepared_as_def)

text \<open>Mailbox operations of a slot that is not being prepared.\<close>

definition mb_quiet :: "mailbox \<Rightarrow> mailbox \<Rightarrow> bool" where
  "mb_quiet m m' \<longleftrightarrow> (mb_state m' = state_code Offline \<longleftrightarrow> mb_state m = state_code Offline) \<and> mb_valid m'"

abbreviation quiet :: "(mailbox, 'a) prog \<Rightarrow> bool" where
  "quiet p \<equiv> safe mb_valid (\<lambda>_ _. True) mb_quiet (\<lambda>_. True) p (\<lambda>_ _. True)"

lemma quiet_armw: "(\<And>m. mb_valid m \<Longrightarrow> mb_quiet m (fst (f m))) \<Longrightarrow> quiet (armw f)"
  by (rule safe_armw) (auto simp: mb_quiet_def)

lemma quiet_aload [simp]: "quiet (aload get)"
  unfolding aload_armw by (rule quiet_armw) (simp add: mb_quiet_def)

lemma quiet_pbind: "quiet p \<Longrightarrow> (\<And>a. quiet (k a)) \<Longrightarrow> quiet (pbind p k)"
  by (rule safe_pbind)

lemma quiet_pthen: "quiet p \<Longrightarrow> (\<And>a. quiet (k a)) \<Longrightarrow> quiet (pthen p k)"
  by (rule safe_pthen) auto

lemma quiet_state_cas: "a \<noteq> Offline \<Longrightarrow> b \<noteq> Offline \<Longrightarrow> quiet (state_cas a b)"
  unfolding state_cas_def acas_def
  by (rule quiet_armw) (use state_code_inj in \<open>auto simp: mb_quiet_def mb_valid_def\<close>)

lemma quiet_check [simp]: "quiet (mb_check g)" "quiet (mb_lifecycle_of g)" "quiet (observe_ready g)"
  by (auto simp: mb_check_def mb_lifecycle_of_def observe_ready_def lifecycle_def intro!: quiet_pbind quiet_pthen safe_if)

lemma quiet_transition: "a \<noteq> Offline \<Longrightarrow> b \<noteq> Offline \<Longrightarrow> quiet (transition g a b)"
  by (auto simp: transition_def cas_or_def intro!: quiet_pthen quiet_pbind quiet_state_cas)

lemma quiet_operations:
  "quiet (mb_publish g)" "quiet (begin_start g)" "quiet (claim_entry cpu g)" "quiet (claim_park c)" "quiet (claim_fail c)"
  "quiet (management_online g)" "quiet (management_park g)" "quiet (management_failed g)"
proof -
  have cas: "quiet (acas mb_ready (\<lambda>v. mb_ready_update (\<lambda>_. v)) 0 g)" "quiet (claim_cas cpu)"
    unfolding acas_def claim_cas_def by (rule quiet_armw; simp add: mb_quiet_def mb_valid_def)+
  show "quiet (mb_publish g)" "quiet (claim_entry cpu g)"
    by (auto simp: mb_publish_def claim_entry_def lifecycle_def cas_or_def intro!: quiet_pthen quiet_pbind safe_if cas)
  show "quiet (management_failed g)"
    unfolding management_failed_def
    by (rule quiet_pthen) (auto intro: quiet_transition split: cpu_state.split)
  show "quiet (begin_start g)" "quiet (claim_park c)" "quiet (claim_fail c)" "quiet (management_online g)" "quiet (management_park g)"
    by (simp_all add: begin_start_def claim_park_def claim_fail_def management_online_def management_park_def quiet_transition)
qed

lemma quiet_lift:
  assumes "quiet p" and "ps_stable cpu P"
  shows "ps_safe cpu P (on_mailbox p) (\<lambda>_ _. True)"
proof -
  have "ps_safe cpu (\<lambda>_. True) (on_mailbox p) (\<lambda>_ _. True)"
    by (rule safe_plift [OF assms(1)]) (auto simp: ps_inv_def mb_quiet_def offline_def intro: ps_mail)
  then show ?thesis by (rule safe_weaken) simp
qed

lemma publish_startup_safe:
  "ps_safe cpu (\<lambda>_. True) (publish_startup address g config) (\<lambda>r s. r = Ok () \<longrightarrow> prepared_as (\<lambda>_. True) s \<and> config_valid config)"
proof -
  let ?post = "\<lambda>r s. r = Ok () \<longrightarrow> prepared_as (\<lambda>_. True) s \<and> config_valid config"
  have "ps_safe cpu (\<lambda>s. prepared_as (\<lambda>_. True) s) (on_mailbox (mb_publish g)) (\<lambda>_. prepared_as (\<lambda>_. True))"
    by (rule safe_plift_keep [OF quiet_operations(1) _ _ _ _ prepared_stable])
      (auto simp: ps_inv_def mb_quiet_def offline_def prepared_as_def intro: ps_mail)
  then have pub: "ps_safe cpu (prepared_as (\<lambda>_. True)) (pbind (on_mailbox (mb_publish g)) (\<lambda>r.
      Ret (map_err (\<lambda>_. ''startup already published or invalid generation'') r))) (\<lambda>r s. r = Ok () \<longrightarrow> prepared_as (\<lambda>_. True) s)"
    by (auto intro!: safe_pbind safe_Ret)
  show ?thesis
    unfolding publish_startup_def
  proof (rule safe_pthen [OF slot_identity_safe [OF stable_under_True]])
    fix x
    show "ps_safe cpu (\<lambda>s. True \<and> (\<exists>xa. Ok x = (Ok xa :: (cpu_identity option, string) outcome) \<and> (\<forall>i. xa = Some i \<longrightarrow> reads_as address i s) \<and>
        ((\<forall>s. True \<longrightarrow> \<not> offline s) \<longrightarrow> xa \<noteq> None)))
      (case x of None \<Rightarrow> Ret (Err ''CPU slot not prepared'')
       | Some identity \<Rightarrow> if ci_logical_id identity = 0 \<or> \<not> config_valid config then Ret (Err ''invalid startup configuration'')
           else pbind (on_mailbox (mb_publish g)) (\<lambda>r. Ret (map_err (\<lambda>_. ''startup already published or invalid generation'') r))) ?post"
      by (cases x) (auto intro!: safe_Ret intro: safe_weaken [OF pub] dest: reads_as_prepared)
  qed auto
qed

lemma slot_startup_view_safe:
  "ps_safe cpu (\<lambda>_. True) (slot_startup_view address ca g config)
     (\<lambda>r s. r \<noteq> Panic \<and> (\<forall>v. r = Ok (Some v) \<longrightarrow> reads_as address (sv_identity v) s \<and> sv_slot_address v = address \<and> sv_generation v = g))"
proof -
  have obs: "ps_safe cpu (\<lambda>_. True) (on_mailbox (observe_ready g)) (\<lambda>_ _. True)" by (rule quiet_lift) simp_all
  show ?thesis
    unfolding slot_startup_view_def
    by (rule safe_pbind [OF obs])
      (auto intro!: safe_if safe_Ret safe_pthen [OF slot_identity_safe [OF stable_under_True]] simp: stable_under_const)
qed

text \<open>
  The interface of a slot. Mailbox operations go through the slot: any of them but
  \<open>mark_prepared\<close>, which only \<open>prepare\<close> uses, is quiet.
\<close>

inductive ps_api :: "nat \<Rightarrow> (pcpu_slot, unit) prog \<Rightarrow> bool" for cpu where
  api_prepare: "ps_api cpu (discard (slot_prepare cpu i f l))"
| api_identity: "ps_api cpu (discard (slot_identity a))"
| api_publish: "ps_api cpu (discard (publish_startup a g c))"
| api_view: "ps_api cpu (discard (slot_startup_view a ca g c))"
| api_mailbox: "quiet (q :: (mailbox, (unit, protocol_error) outcome) prog) \<Longrightarrow> ps_api cpu (discard (on_mailbox q))"

interpretation ps: shared_protocol ps_inv ps_guar ps_api
proof
  show "ps_inv s \<Longrightarrow> ps_guar i s s' \<Longrightarrow> ps_inv s'" for s i s' using ps_guar_inv by blast
  show "ps_safe i (\<lambda>_. True) p (\<lambda>_ _. True)" if "ps_api i p" for i p
    using that
  proof (cases rule: ps_api.cases)
    case (api_mailbox q)
    then show ?thesis using safe_discard [OF quiet_lift [OF _ stable_under_True]] by blast
  qed (use safe_discard [OF slot_prepare_safe] safe_discard [OF slot_identity_safe [OF stable_under_True]]
      safe_discard [OF publish_startup_safe] safe_discard [OF slot_startup_view_safe] in blast)+
qed

lemma slot_new_inv: "ps_inv slot_new"
  by (auto simp: ps_inv_def slot_new_def offline_def ps_mailbox_def startup_new_def mb_new_def mb_valid_def)

text \<open>
  C9: a CPU slot is prepared once and its identity is immutable. In every interleaving of
  preparations, readers, publication and mailbox traffic a prepared slot stays prepared with
  the same logical number, affinity and stack bounds, which are well formed; a preparation
  that succeeds leaves exactly the values it was given; and a reader that gets an identity
  gets that one, although the context is written and read field by field without atomics
  and its owner keeps switching guests.
\<close>

theorem slot_identity_immutable:
  assumes "(istep ps_api)\<^sup>*\<^sup>* (slot_new, \<lambda>_. Ret ()) (s, pool)" and "(istep ps_api)\<^sup>*\<^sup>* (s, pool) (s', pool')"
  shows "(\<not> offline s \<longrightarrow> ctx_ok (ps_context s) \<and> \<not> offline s' \<and> identity_of s' = identity_of s) \<and>
    (\<forall>cpu i f l t. exec (ps_rely cpu) (slot_prepare cpu i f l) s (Ok ()) t \<longrightarrow>
       \<not> offline t \<and> identity_of t = (word_of_nat i, f, sl_bottom l, sl_top l) \<and> ps_owner t = Some cpu) \<and>
    (\<forall>cpu a r t. exec (ps_rely cpu) (slot_identity a) s r t \<longrightarrow>
       (\<exists>x. r = Ok x \<and> (\<not> offline s \<longrightarrow> x \<noteq> None) \<and>
         (\<forall>i. x = Some i \<longrightarrow> identity_of t = (ci_logical_id i, ci_affinity i, ci_stack_bottom i, ci_stack_top i))))"
proof -
  have inv: "ps_inv s" using ps.reachable_inv [OF slot_new_inv refl assms(1)] .
  have ok: "ps.conf_ok (s, pool)" by (rule ps.isteps_ok [OF assms(1) ps.start_ok [OF slot_new_inv]]) simp
  have "prepared_as (\<lambda>x. x = identity_of s) s'" if "\<not> offline s"
  proof -
    have "prepared_as (\<lambda>x. x = identity_of s) s" using that by (simp add: prepared_as_def)
    then show ?thesis
      using ps.isteps_stable [OF assms(2) ok, of "prepared_as (\<lambda>x. x = identity_of s)"] ps_guar_prepared
      unfolding prepared_as_def fst_conv by metis
  qed
  moreover have "ctx_ok (ps_context s)" if "\<not> offline s" using inv that by (simp add: ps_inv_def)
  moreover have "\<not> offline t \<and> identity_of t = (word_of_nat i, f, sl_bottom l, sl_top l) \<and> ps_owner t = Some cpu"
    if "exec (ps_rely cpu) (slot_prepare cpu i f l) s (Ok ()) t" for cpu i f l t
    using ps.exec_ok [where P = "\<lambda>_. True", OF that inv TrueI slot_prepare_safe] by (simp add: prepared_as_def owned_by_def)
  moreover have "\<exists>x. r = Ok x \<and> (\<not> offline s \<longrightarrow> x \<noteq> None) \<and>
      (\<forall>i. x = Some i \<longrightarrow> identity_of t = (ci_logical_id i, ci_affinity i, ci_stack_bottom i, ci_stack_top i))"
    if e: "exec (ps_rely cpu) (slot_identity a) s r t" for cpu a r t
  proof (cases "offline s")
    case True
    then show ?thesis
      using ps.exec_ok [where P = "\<lambda>_. True", OF e inv TrueI slot_identity_safe] by (auto simp: reads_as_def prepared_as_def)
  next
    case False
    then have p: "prepared_as (\<lambda>_. True) s" by (simp add: prepared_as_def)
    show ?thesis
      using ps.exec_ok [where P = "prepared_as (\<lambda>_. True)", OF e inv p slot_identity_safe] by (auto simp: reads_as_def prepared_as_def)
  qed
  ultimately show ?thesis unfolding prepared_as_def by blast
qed

definition example_stack :: stack_layout where
  "example_stack = \<lparr>sl_guard_start = 0x200000, sl_bottom = 0x201000, sl_top = 0x211000\<rparr>"

definition example_prepared :: pcpu_slot where
  "example_prepared = slot_new\<lparr>ps_context := \<lparr>pc_host_sp = 0, pc_active_vcpu = 0, pc_logical_id = 1, pc_affinity = 1,
     pc_stack_bottom = 0x201000, pc_stack_top = 0x211000, pc_present = 1\<rparr>,
     ps_startup := startup_new\<lparr>su_mailbox := mb_new\<lparr>mb_state := state_code Prepared\<rparr>\<rparr>, ps_claimed := True, ps_owner := Some 0\<rparr>"

lemma example_prepare: "run (slot_prepare 0 1 1 example_stack) slot_new = (Ok (), example_prepared)"
proof -
  have "stack_layout_of 0x200000 = Ok example_stack" by (simp add: stack_layout_Ok example_stack_def)
  then show ?thesis
    by (simp add: slot_prepare_def example_stack_def MAX_CPUS_def MPIDR_AFFINITY_MASK_def claim_slot_def context_writes_def ctx_store_def
        prog_defs run_pbind mark_prepared_def state_cas_def cas_or_def slot_new_def context_empty_def example_prepared_def ps_mailbox_def
        ps_set_mailbox_def startup_new_def mb_new_def)
qed

theorem slot_identity_immutable_witness:
  "(istep ps_api)\<^sup>*\<^sup>* (slot_new, \<lambda>_. Ret ()) (example_prepared, \<lambda>_. Ret ()) \<and> \<not> offline example_prepared \<and>
   ctx_ok (ps_context example_prepared) \<and> identity_of example_prepared = (1, 1, 0x201000, 0x211000)"
proof -
  have r: "(istep ps_api)\<^sup>*\<^sup>* (slot_new, \<lambda>_. Ret ()) (example_prepared, \<lambda>_. Ret ())"
    using run_isteps [where api = ps_api and i = 0 and pool = "\<lambda>_. Ret ()" and s = slot_new and p = "discard (slot_prepare 0 1 1 example_stack)"]
      example_prepare api_prepare by simp
  have "\<not> offline example_prepared" by (simp add: offline_def example_prepared_def ps_mailbox_def)
  then show ?thesis
    using slot_identity_immutable [OF r rtranclp.rtrancl_refl] r by (simp add: identity_of_def example_prepared_def)
qed

section \<open>Lookup by affinity\<close>

lemma run_slot_identity:
  assumes "ps_inv s"
  shows "\<exists>x. run (slot_identity a) s = (Ok x, s) \<and> (x = None \<longleftrightarrow> offline s) \<and>
    (\<forall>i. x = Some i \<longrightarrow> ci_affinity i = pc_affinity (ps_context s))"
proof -
  obtain st where st: "mb_state (ps_mailbox s) = state_code st" using assms by (auto simp: ps_inv_def mb_valid_def)
  then have "offline s \<longleftrightarrow> st = Offline" using state_code_inj by (auto simp: offline_def)
  then show ?thesis using st
    by (simp add: slot_identity_def is_prepared_def read_identity_def lifecycle_def on_mailbox_aload prog_defs run_pbind)
qed

definition slot_matches :: "u64 \<Rightarrow> pcpu_slot \<Rightarrow> bool" where
  "slot_matches affinity s \<longleftrightarrow> \<not> offline s \<and> pc_affinity (ps_context s) = affinity"

lemma run_find_slot_loop:
  assumes "\<forall>i \<in> set is. ps_inv (slots i)"
  shows "run (find_slot_loop base f found is) slots =
    (Ok (case filter (\<lambda>i. slot_matches f (slots i)) is of [] \<Rightarrow> found | [i] \<Rightarrow> (if found = None then Some i else None) | _ \<Rightarrow> None), slots)"
  using assms
proof (induction "is" arbitrary: found)
  case (Cons i js)
  obtain x where x: "run (slot_identity (slot_address base i)) (slots i) = (Ok x, slots i)" "x = None \<longleftrightarrow> offline (slots i)"
    "\<And>d. x = Some d \<Longrightarrow> ci_affinity d = pc_affinity (ps_context (slots i))"
    using run_slot_identity [of "slots i"] Cons.prems by force
  have lift: "run (plift (\<lambda>slots. slots i) (\<lambda>s slots. slots(i := s)) (slot_identity (slot_address base i))) slots = (Ok x, slots)"
    by (subst run_plift) (simp_all add: x(1))
  have m: "(case x of None \<Rightarrow> False | Some d \<Rightarrow> ci_affinity d = f) \<longleftrightarrow> slot_matches f (slots i)"
    using x(2,3) by (cases x) (auto simp: slot_matches_def)
  have "run (find_slot_loop base f found (i # js)) slots =
      (if slot_matches f (slots i) then if found \<noteq> None then (Ok None, slots) else run (find_slot_loop base f (Some i) js) slots
       else run (find_slot_loop base f found js) slots)"
    unfolding find_slot_loop.simps pthen_def run_pbind lift by (simp add: m)
  then show ?case using Cons by (auto split: list.splits)
qed simp

lemma distinct_singleton_iff: "distinct xs \<Longrightarrow> set xs = {i} \<longleftrightarrow> xs = [i]"
  by (cases xs; cases "tl xs") auto

text \<open>The lookup answers a slot exactly when it is the only prepared one with the affinity of the CPU.\<close>

lemma find_slot_by_affinity_correct:
  assumes "\<forall>i < n. ps_inv (slots i)" and "n \<le> MAX_CPUS"
  shows "fst (run (find_slot_by_affinity base n mpidr) slots) = Ok (Some i) \<longleftrightarrow>
    i < n \<and> slot_matches (mpidr AND MPIDR_AFFINITY_MASK) (slots i) \<and>
    (\<forall>j < n. slot_matches (mpidr AND MPIDR_AFFINITY_MASK) (slots j) \<longrightarrow> j = i)"
proof -
  let ?m = "\<lambda>i. slot_matches (mpidr AND MPIDR_AFFINITY_MASK) (slots i)"
  have d: "distinct (filter ?m [0..<n])" by simp
  have "fst (run (find_slot_by_affinity base n mpidr) slots) = Ok (Some i) \<longleftrightarrow> filter ?m [0..<n] = [i]"
    using assms run_find_slot_loop [of "[0..<n]" slots] by (auto simp: find_slot_by_affinity_def split: list.splits)
  also have "\<dots> \<longleftrightarrow> set (filter ?m [0..<n]) = {i}"
    using distinct_singleton_iff [OF d] by simp
  finally show ?thesis by auto
qed

end
