(* ===== verification/Cpu_Startup.thy ===== *)
theory Cpu_Startup
  imports Cpu_Topology Platform
begin

text \<open>
  Ownership of the firmware's startup memory (\<open>tvisor_util/cpu_startup.rs\<close>): which
  spin-table release cells the device tree describes, that each lies in RAM and under a
  reservation, and that no reservation ever reaches the page allocator.
\<close>

datatype startup_contract_error = SceInvalidReservation | MissingHoldingReservation | ReleaseCellNotRam | InvalidRam
  | UnsupportedStartupMethod | ReleaseCellNotIdentityMapped | NonzeroReleaseCell | HoldingMemoryAllocatable

record startup_memory_contract =
  sc_release_cells :: "phys_region fixed_list"

fun verify_cells ::
  "(u64 \<Rightarrow> 's \<Rightarrow> (u64, startup_contract_error) outcome \<times> 's) \<Rightarrow> phys_region list \<Rightarrow> 's \<Rightarrow> (unit, startup_contract_error) outcome \<times> 's" where
  "verify_cells read [] s = (Ok (), s)"
| "verify_cells read (cell # cells) s =
     st_then (read (region_start cell) s) (\<lambda>value s. if value \<noteq> 0 then (Err NonzeroReleaseCell, s) else verify_cells read cells s)"

definition verify_release_cells ::
  "startup_memory_contract \<Rightarrow> (u64 \<Rightarrow> 's \<Rightarrow> (u64, startup_contract_error) outcome \<times> 's) \<Rightarrow> 's \<Rightarrow>
   (unit, startup_contract_error) outcome \<times> 's" where
  "verify_release_cells c read s =
     st_then (st_lift (fl_iter (sc_release_cells c)) s) (\<lambda>cells s. verify_cells read cells s)"

definition verify_reserved_range :: "phys_region \<Rightarrow> memory_map \<Rightarrow> (unit, startup_contract_error) outcome" where
  "verify_reserved_range region m =
     and_then (fl_iter (mm_reserved m)) (\<lambda>reserved.
     if \<not> list_ex (\<lambda>r. region_contains_region r region) reserved then Err MissingHoldingReservation else
     and_then (fl_iter (mm_usable m)) (\<lambda>usable.
     if list_ex (\<lambda>u. region_overlaps u region) usable then Err HoldingMemoryAllocatable else Ok ()))"

definition reservation_region :: "u64 \<Rightarrow> u64 \<Rightarrow> (phys_region, startup_contract_error) outcome" where
  "reservation_region address sz = map_err (\<lambda>_. SceInvalidReservation) (region_new address sz)"

definition verify_memory_map ::
  "startup_memory_contract \<Rightarrow> ('n, 'p, 'z) device_tree_scheme \<Rightarrow> memory_map \<Rightarrow> (unit, startup_contract_error) outcome" where
  "verify_memory_map c dt m =
     and_then (try_fold (\<lambda>_ (address, sz). and_then (reservation_region address sz) (\<lambda>r. verify_reserved_range r m)) ()
       (dt_memory_reservations dt)) (\<lambda>_.
     and_then (fl_iter (sc_release_cells c)) (\<lambda>cells. try_fold (\<lambda>_ cell. verify_reserved_range cell m) () cells))"

fun ram_holds :: "phys_region \<Rightarrow> (u64 option \<times> u64 option) list \<Rightarrow> (bool, startup_contract_error) outcome" where
  "ram_holds cell [] = Ok False"
| "ram_holds cell (reg # regs) =
     and_then (ok_or InvalidRam (fst reg)) (\<lambda>address.
     and_then (ok_or InvalidRam (snd reg)) (\<lambda>sz.
     and_then (map_err (\<lambda>_. InvalidRam) (region_new address sz)) (\<lambda>ram.
     if region_contains_region ram cell then Ok True else ram_holds cell regs)))"

fun cell_in_nodes ::
  "('n, 'p, 'z) device_tree_scheme \<Rightarrow> phys_region \<Rightarrow> 'n list \<Rightarrow> (bool, startup_contract_error) outcome" where
  "cell_in_nodes dt cell [] = Ok False"
| "cell_in_nodes dt cell (node # nodes) =
     (case dt_property dt node ''device_type'' of
        None \<Rightarrow> cell_in_nodes dt cell nodes
      | Some kind \<Rightarrow>
          and_then (ok_or InvalidRam (dt_as_str dt kind)) (\<lambda>k.
          if k \<noteq> ''memory'' then cell_in_nodes dt cell nodes
          else and_then (ok_or InvalidRam (dt_status_okay dt node)) (\<lambda>okay.
          if \<not> okay then cell_in_nodes dt cell nodes
          else and_then (and_then (ok_or InvalidRam (dt_reg dt node)) (ok_or InvalidRam)) (\<lambda>registers.
          and_then (ram_holds cell registers) (\<lambda>found. if found then Ok True else cell_in_nodes dt cell nodes)))))"

definition cell_in_ram :: "('n, 'p, 'z) device_tree_scheme \<Rightarrow> phys_region \<Rightarrow> (bool, startup_contract_error) outcome" where
  "cell_in_ram dt cell = cell_in_nodes dt cell (dt_children dt (dt_root dt))"

definition reserved_in_tree :: "('n, 'p, 'z) device_tree_scheme \<Rightarrow> phys_region \<Rightarrow> bool" where
  "reserved_in_tree dt cell \<longleftrightarrow>
     list_ex (\<lambda>(address, sz). case reservation_region address sz of Ok r \<Rightarrow> region_contains_region r cell | _ \<Rightarrow> False)
       (dt_memory_reservations dt)"

definition add_cell ::
  "('n, 'p, 'z) device_tree_scheme \<Rightarrow> phys_region fixed_list \<Rightarrow> cpu_descriptor \<Rightarrow> (phys_region fixed_list, startup_contract_error) outcome" where
  "add_cell dt cells cpu =
     (case cd_startup cpu of
        SpinTable address \<Rightarrow>
          and_then (reservation_region address 8) (\<lambda>cell.
          if \<not> reserved_in_tree dt cell then Err MissingHoldingReservation else
          and_then (cell_in_ram dt cell) (\<lambda>in_ram.
          if \<not> in_ram then Err ReleaseCellNotRam else
          and_then (fl_iter cells) (\<lambda>entries.
          if cell \<in> set entries then Ok cells
          else case fl_push cells cell of
              (Ok _, cells') \<Rightarrow> Ok cells' | (Err _, _) \<Rightarrow> Err UnsupportedStartupMethod | (Panic, _) \<Rightarrow> Panic)))
      | SmPsci \<Rightarrow> Ok cells
      | SmMissing \<Rightarrow> Err UnsupportedStartupMethod
      | SmUnsupported \<Rightarrow> Err UnsupportedStartupMethod)"

definition discover_startup_memory ::
  "('n, 'p, 'z) device_tree_scheme \<Rightarrow> cpu_topology \<Rightarrow> (startup_memory_contract, startup_contract_error) outcome" where
  "discover_startup_memory dt topology =
     and_then (try_fold (\<lambda>_ (address, sz). and_then (reservation_region address sz) (\<lambda>_. Ok ())) () (dt_memory_reservations dt)) (\<lambda>_.
     and_then (try_fold (add_cell dt) (fl_new MAX_CPUS) (filter cd_enabled (ct_cpus topology))) (\<lambda>cells.
     Ok \<lparr>sc_release_cells = cells\<rparr>))"

section \<open>What a contract promises\<close>

definition cell_of :: "u64 \<Rightarrow> phys_region" where
  "cell_of address = \<lparr>region_start = address, region_size = 8\<rparr>"

definition cells_inv :: "('n, 'p, 'z) device_tree_scheme \<Rightarrow> phys_region fixed_list \<Rightarrow> bool" where
  "cells_inv dt cells \<longleftrightarrow> fl_inv cells \<and> fl_capacity cells = MAX_CPUS \<and> distinct (fl_list cells) \<and>
     (\<forall>c \<in> set (fl_list cells). region_wf c \<and> region_size c = 8 \<and> reserved_in_tree dt c \<and> cell_in_ram dt c = Ok True)"

lemma reservation_region_Ok:
  "reservation_region a n = Ok r \<longleftrightarrow> n \<noteq> 0 \<and> unat a + unat n < 2 ^ 64 \<and> r = \<lparr>region_start = a, region_size = n\<rparr>"
  by (auto simp: reservation_region_def region_new_Ok outcome_simps)

lemma reservation_region_no_panic [simp]: "reservation_region a n \<noteq> Panic"
  by (auto simp: reservation_region_def region_new_def outcome_simps)

lemma reservation_region_cell: "reservation_region a 8 = Ok r \<longleftrightarrow> region_wf (cell_of a) \<and> r = cell_of a"
  by (auto simp: reservation_region_Ok cell_of_def region_wf_def)

lemma ram_holds_no_panic [simp]: "ram_holds cell regs \<noteq> Panic"
  by (induction regs) (auto simp: outcome_simps region_new_def split: if_splits)

lemma cell_in_ram_no_panic [simp]: "cell_in_ram dt cell \<noteq> Panic"
proof -
  have "cell_in_nodes dt cell nodes \<noteq> Panic" for nodes
    by (induction nodes) (auto simp: outcome_simps split: option.splits if_splits)
  then show ?thesis by (simp add: cell_in_ram_def)
qed

lemma add_cell_inv:
  assumes "cells_inv dt cells"
  shows "add_cell dt cells cpu \<noteq> Panic"
    and "add_cell dt cells cpu = Ok cells' \<Longrightarrow> cells_inv dt cells' \<and> set (fl_list cells) \<subseteq> set (fl_list cells') \<and>
      cd_startup cpu \<notin> {SmMissing, SmUnsupported} \<and> (\<forall>a. cd_startup cpu = SpinTable a \<longrightarrow> cell_of a \<in> set (fl_list cells'))"
proof -
  obtain xs where xs: "cells = fl_of MAX_CPUS xs" "length xs \<le> MAX_CPUS" "distinct xs"
    "\<And>c. c \<in> set xs \<Longrightarrow> region_wf c \<and> region_size c = 8 \<and> reserved_in_tree dt c \<and> cell_in_ram dt c = Ok True"
    using assms fl_inv_fl_of [of cells] length_fl_list [of cells] unfolding cells_inv_def fl_inv_def by metis
  show "add_cell dt cells cpu \<noteq> Panic"
    by (auto simp: add_cell_def xs(1,2) fl_of_simps outcome_simps split: startup_method.splits)
  assume "add_cell dt cells cpu = Ok cells'"
  then show "cells_inv dt cells' \<and> set (fl_list cells) \<subseteq> set (fl_list cells') \<and>
      cd_startup cpu \<notin> {SmMissing, SmUnsupported} \<and> (\<forall>a. cd_startup cpu = SpinTable a \<longrightarrow> cell_of a \<in> set (fl_list cells'))"
    using xs by (auto simp: add_cell_def fl_of_simps outcome_simps cells_inv_def reservation_region_cell split: startup_method.splits if_splits)
      (auto simp: cell_of_def)
qed

lemma add_cells_inv:
  assumes "try_fold (add_cell dt) cells cpus = Ok cells'" and "cells_inv dt cells"
  shows "cells_inv dt cells' \<and> set (fl_list cells) \<subseteq> set (fl_list cells') \<and>
    (\<forall>cpu \<in> set cpus. cd_startup cpu \<notin> {SmMissing, SmUnsupported} \<and> (\<forall>a. cd_startup cpu = SpinTable a \<longrightarrow> cell_of a \<in> set (fl_list cells')))"
  using assms
proof (induction cpus arbitrary: cells)
  case (Cons cpu cpus)
  then obtain c where c: "add_cell dt cells cpu = Ok c" "try_fold (add_cell dt) c cpus = Ok cells'" by (auto simp: outcome_simps)
  note i = add_cell_inv(2) [OF Cons.prems(2) c(1)]
  then show ?case using Cons.IH [OF c(2)] by auto
qed simp

lemma verify_reserved_range_Ok:
  assumes "verify_reserved_range region m = Ok ()" and "mm_inv m" and "region_wf region"
  shows "region_addrs region \<subseteq> regions_addrs (fl_list (mm_reserved m))"
    and "region_addrs region \<inter> regions_addrs (fl_list (mm_usable m)) = {}"
proof -
  obtain res us where l: "mm_reserved m = fl_of MAX_NORMALIZED_RESERVED_REGIONS res" "length res \<le> MAX_NORMALIZED_RESERVED_REGIONS"
    "mm_usable m = fl_of MAX_USABLE_RAM_REGIONS us" "length us \<le> MAX_USABLE_RAM_REGIONS" "canonical us"
    using assms(2) unfolding mm_inv_def by (metis region_list_invE)
  have r: "list_ex (\<lambda>r. region_contains_region r region) res" "\<not> list_ex (\<lambda>u. region_overlaps u region) us"
    using assms(1) l by (auto simp: verify_reserved_range_def fl_iter_eq split: if_splits)
  show "region_addrs region \<subseteq> regions_addrs (fl_list (mm_reserved m))"
    using r(1) l by (auto simp: list_ex_iff regions_addrs_def region_addrs_def region_contains_region_def region_contains_address_def)
  show "region_addrs region \<inter> regions_addrs (fl_list (mm_usable m)) = {}"
    using r(2) l by (auto simp: list_ex_iff regions_addrs_def region_addrs_def region_overlaps_def region_contains_address_def)
qed

text \<open>
  The device tree's reservations and the release cells stay with firmware: after the map
  check neither ever reaches the allocator, and the contract lists exactly the cells of the
  enabled spin-table CPUs, each in RAM and under a reservation.
\<close>

theorem startup_memory_owned:
  assumes "discover_startup_memory dt topology = Ok c" and "mm_inv m" and "verify_memory_map c dt m = Ok ()"
  shows "(\<forall>cpu \<in> set (ct_cpus topology). cd_enabled cpu \<longrightarrow> cd_startup cpu \<notin> {SmMissing, SmUnsupported} \<and>
      (\<forall>a. cd_startup cpu = SpinTable a \<longrightarrow> cell_of a \<in> set (fl_list (sc_release_cells c)))) \<and>
    (\<forall>cell \<in> set (fl_list (sc_release_cells c)). region_wf cell \<and> region_size cell = 8 \<and> reserved_in_tree dt cell \<and> cell_in_ram dt cell = Ok True \<and>
      region_addrs cell \<inter> regions_addrs (fl_list (mm_usable m)) = {}) \<and>
    (\<forall>(a, n) \<in> set (dt_memory_reservations dt). \<exists>r. region_new a n = Ok r \<and> region_addrs r \<inter> regions_addrs (fl_list (mm_usable m)) = {})"
proof -
  have new: "cells_inv dt (fl_new MAX_CPUS)" by (simp add: cells_inv_def fl_new_eq)
  have "try_fold (add_cell dt) (fl_new MAX_CPUS) (filter cd_enabled (ct_cpus topology)) = Ok (sc_release_cells c)"
    using assms(1) by (auto simp: discover_startup_memory_def outcome_simps)
  note cells = add_cells_inv [OF this new]
  have ok: "fl_inv (sc_release_cells c)" using cells by (simp add: cells_inv_def)
  have each: "f () x = Ok ()" if "try_fold f () xs = Ok ()" "x \<in> set xs" for f :: "unit \<Rightarrow> 'x \<Rightarrow> (unit, startup_contract_error) outcome" and x xs
    using that by (induction xs) (auto simp: outcome_simps)
  have vc: "verify_reserved_range cell m = Ok ()" if "cell \<in> set (fl_list (sc_release_cells c))" for cell
    using assms(3) ok that by (auto simp: verify_memory_map_def outcome_simps fl_iter_eq elim!: fl_invE dest: each)
  have vr: "\<exists>r. region_new a n = Ok r \<and> verify_reserved_range r m = Ok ()" if "(a, n) \<in> set (dt_memory_reservations dt)" for a n
    using assms(3) that by (auto simp: verify_memory_map_def reservation_region_def outcome_simps dest!: each)
  show ?thesis
    using cells vc vr verify_reserved_range_Ok(2) [OF _ assms(2)] region_new_wf
    by (auto simp: cells_inv_def) blast+
qed

end
