(* ===== verification/Prog_Rules.thy ===== *)
theory Prog_Rules
  imports Prog_Lift
begin

text \<open>
  Rules that combine checks of the same program: against a stricter environment and a
  looser guarantee, against two protocols at once, and for a component no other CPU touches,
  where the sequential meaning \<open>run\<close> says everything.
\<close>

lemma safe_mono:
  assumes "safe I R G P p post" and "\<And>s. I' s \<Longrightarrow> I s" and "\<And>s s'. I' s \<Longrightarrow> R' s s' \<Longrightarrow> R s s' \<or> s' = s"
    and "\<And>s s'. I' s \<Longrightarrow> G s s' \<Longrightarrow> G' s s'"
  shows "safe I' R' G' P p post"
  using assms(1)
proof (induction rule: safe.induct)
  case (safe_Ret P post a)
  then show ?case using assms(2) by (auto intro: safe.safe_Ret)
next
  case (safe_Atom P f post)
  show ?case
  proof (rule safe.safe_Atom)
    fix s assume s: "I' s" "P s"
    obtain Q where Q: "G s (fst (f s))" "stable_under I R Q" "Q (fst (f s))" "safe I' R' G' Q (snd (f s)) post"
      using safe_Atom(1) [OF assms(2) [OF s(1)] s(2)] by blast
    have "stable_under I' R' Q" using Q(2) assms(2,3) unfolding stable_under_def by metis
    then show "G' s (fst (f s)) \<and> (\<exists>Q. stable_under I' R' Q \<and> Q (fst (f s)) \<and> safe I' R' G' Q (snd (f s)) post)"
      using Q assms(4) s(1) by blast
  qed
qed

lemma safe_conj:
  assumes "safe I R G1 P1 p post1" and "safe I R G2 P2 p post2"
  shows "safe I R (\<lambda>s s'. G1 s s' \<and> G2 s s') (\<lambda>s. P1 s \<and> P2 s) p (\<lambda>a s. post1 a s \<and> post2 a s)"
  using assms
proof (induction arbitrary: P2 rule: safe.induct)
  case (safe_Ret P post a)
  then show ?case by (auto intro!: safe.safe_Ret elim!: safe_RetE)
next
  case (safe_Atom P f post)
  show ?case
  proof (rule safe.safe_Atom)
    fix s assume s: "I s" "P s \<and> P2 s"
    obtain Q1 where Q1: "G1 s (fst (f s))" "stable_under I R Q1" "Q1 (fst (f s))"
      "\<And>Q. safe I R G2 Q (snd (f s)) post2 \<Longrightarrow> safe I R (\<lambda>s s'. G1 s s' \<and> G2 s s') (\<lambda>s. Q1 s \<and> Q s) (snd (f s)) (\<lambda>a s. post a s \<and> post2 a s)"
      using safe_Atom(1) [of s] s by blast
    obtain Q2 where Q2: "G2 s (fst (f s))" "stable_under I R Q2" "Q2 (fst (f s))" "safe I R G2 Q2 (snd (f s)) post2"
      using safe_AtomE [OF safe_Atom(2)] s by metis
    show "(G1 s (fst (f s)) \<and> G2 s (fst (f s))) \<and> (\<exists>Q. stable_under I R Q \<and> Q (fst (f s)) \<and>
        safe I R (\<lambda>s s'. G1 s s' \<and> G2 s s') Q (snd (f s)) (\<lambda>a s. post a s \<and> post2 a s))"
      using Q1(1-3) Q2(1-3) Q1(4) [OF Q2(4)] by (intro conjI exI [of _ "\<lambda>s. Q1 s \<and> Q2 s"]) auto
  qed
qed

lemma safe_alone:
  assumes "safe I (=) G P p post" and "I t" and "P t" and "\<And>s s'. I s \<Longrightarrow> G s s' \<Longrightarrow> I s'"
  shows "safe I (=) G (\<lambda>s. s = t) p (\<lambda>a s. (a, s) = run p t)"
  using assms(1-3)
proof (induction arbitrary: t rule: safe.induct)
  case (safe_Ret P post a)
  then show ?case by (auto intro: safe.safe_Ret)
next
  case (safe_Atom P f post)
  obtain Q where Q: "G t (fst (f t))" "Q (fst (f t))"
    "\<And>u. I u \<Longrightarrow> Q u \<Longrightarrow> safe I (=) G (\<lambda>s. s = u) (snd (f t)) (\<lambda>a s. (a, s) = run (snd (f t)) u)"
    using safe_Atom by metis
  show ?case
  proof (rule safe.safe_Atom)
    fix s assume "I s" "s = t"
    then show "G s (fst (f s)) \<and> (\<exists>Q. stable_under I (=) Q \<and> Q (fst (f s)) \<and>
        safe I (=) G Q (snd (f s)) (\<lambda>a s. (a, s) = run (Atom f) t))"
      using Q assms(4) [of t "fst (f t)"] by (intro conjI exI [of _ "\<lambda>s. s = fst (f t)"]) (auto simp: stable_under_def)
  qed
qed

text \<open>A component that only this CPU changes, inside a larger state.\<close>

lemma safe_owned:
  assumes "safe I (=) G (\<lambda>_. True) p post" and "\<And>s s'. I s \<Longrightarrow> G s s' \<Longrightarrow> I s'"
    and "\<And>t s. get (put t s) = t" and "\<And>s. I' s \<Longrightarrow> I (get s)"
    and "\<And>s s'. I' s \<Longrightarrow> R' s s' \<Longrightarrow> get s' = get s"
    and "\<And>s t. I' s \<Longrightarrow> G (get s) t \<Longrightarrow> G' s (put t s)"
  shows "safe I' R' G' (\<lambda>s. get s = t) (plift get put p) (\<lambda>a s. (a, get s) = run p t)"
proof (cases "I t")
  case True
  have alone: "safe I (=) G (\<lambda>s. s = t) p (\<lambda>a s. (a, s) = run p t)"
    using assms(2) by (intro safe_alone [OF assms(1) True TrueI]) blast
  show ?thesis
    by (rule safe_plift [where get = get and put = put and R' = R', OF alone]) (use assms in auto)
next
  case False
  show ?thesis by (rule safe_weaken [where Q = "\<lambda>_. False"]) (use False assms(4) in auto)
qed

text \<open>A program that only reads keeps all stable knowledge.\<close>

lemma reads_keep:
  assumes "reads n p" and "\<And>s. I s \<Longrightarrow> G s s" and "stable_under I R P"
  shows "safe I R G P p (\<lambda>_. P)"
  using assms(1)
proof (induction rule: reads.induct)
  case (reads_Atom f n)
  then show ?case using assms(2,3) by (intro safe_Atom) auto
qed (auto intro: safe_Ret)

lemma reads_equal: "reads n p \<Longrightarrow> safe I R (\<lambda>s s'. s' = s) P p (\<lambda>_ _. True)"
  by (rule reads_safe) auto

lemma reads_plift:
  assumes "reads n p" and "\<And>s. put (get s) s = s"
  shows "reads n (plift get put p)"
  using assms(1)
proof (induction rule: reads.induct)
  case (reads_Atom f n)
  then show ?case unfolding plift_Atom using assms(2) by (intro reads.reads_Atom) simp
qed (auto intro: reads_Ret)

lemma reads_pthen: "reads n p \<Longrightarrow> (\<And>a. reads m (k a)) \<Longrightarrow> reads (n + m) (pthen p k)"
  unfolding pthen_def by (rule reads_pbind) (auto split: outcome.splits intro: reads_Ret)

text \<open>A program of a component, with knowledge about the rest of the state that it keeps.\<close>

lemma safe_plift_with:
  assumes "safe I R G P p post" and "\<And>t s. get (put t s) = t"
    and "\<And>s. I' s \<Longrightarrow> I (get s)" and "\<And>s s'. I' s \<Longrightarrow> R' s s' \<Longrightarrow> R (get s) (get s') \<or> get s' = get s"
    and "\<And>s t. I' s \<Longrightarrow> K s \<Longrightarrow> G (get s) t \<Longrightarrow> G' s (put t s) \<and> K (put t s)" and "stable_under I' R' K"
  shows "safe I' R' G' (\<lambda>s. K s \<and> P (get s)) (plift get put p) (\<lambda>a s. K s \<and> post a (get s))"
  using assms(1)
proof (induction rule: safe.induct)
  case (safe_Ret P post a)
  then show ?case using assms(3) by (auto intro: safe.safe_Ret)
next
  case (safe_Atom P f post)
  show ?case unfolding plift_Atom
  proof (rule safe.safe_Atom)
    fix s assume s: "I' s" "K s \<and> P (get s)"
    let ?t = "fst (f (get s))"
    obtain Q where g: "G (get s) ?t" and Q: "stable_under I R Q" "Q ?t"
      "safe I' R' G' (\<lambda>s. K s \<and> Q (get s)) (plift get put (snd (f (get s)))) (\<lambda>a s. K s \<and> post a (get s))"
      using safe_Atom(1) [OF assms(3) [OF s(1)]] s(2) by blast
    have "stable_under I' R' (\<lambda>s. K s \<and> Q (get s))"
      using Q(1) assms(3,4,6) unfolding stable_under_def by metis
    then show "G' s (fst (put ?t s, plift get put (snd (f (get s))))) \<and>
        (\<exists>Q. stable_under I' R' Q \<and> Q (fst (put ?t s, plift get put (snd (f (get s))))) \<and>
          safe I' R' G' Q (snd (put ?t s, plift get put (snd (f (get s))))) (\<lambda>a s. K s \<and> post a (get s)))"
      using Q assms(2,5) g s by (intro conjI exI [of _ "\<lambda>s. K s \<and> Q (get s)"]) simp_all
  qed
qed

end
