(* ===== verification/Boot_State.thy ===== *)
theory Boot_State
  imports Prog_Rules Pcpu Startup_Resources
begin

text \<open>
  What the CPUs share while the secondaries are started: the statics of \<open>src/secondary.rs\<close>,
  \<open>src/pcpu.rs\<close> and \<open>src/mm.rs\<close>, and the hardware the release goes through. The hardware
  keeps the release cells as CPU 0 reads them and the order of the maintenance operations
  (\<open>tvisor_util/secondary_hardware.rs\<close>, \<open>src/secondary_publication.S\<close>).
\<close>

datatype hw_event = EvClean u64 | EvBarrier | EvRead u64 | EvStore u64 u64 | EvSev

record release_hw =
  hw_cells :: "u64 \<Rightarrow> u64"
  hw_trace :: "hw_event list"
  hw_clock :: nat

record boot_sys =
  bs_state :: u64
  bs_attempted :: u64
  bs_fatal :: bool
  bs_slots :: "nat \<Rightarrow> pcpu_slot"
  bs_config :: host_storage
  bs_tables :: "table_set boot_tables option"
  bs_hw :: release_hw

abbreviation on_slot :: "nat \<Rightarrow> (pcpu_slot, 'a) prog \<Rightarrow> (boot_sys, 'a) prog" where
  "on_slot i \<equiv> plift (\<lambda>s. bs_slots s i) (\<lambda>x s. s\<lparr>bs_slots := (bs_slots s)(i := x)\<rparr>)"

abbreviation on_hw :: "(release_hw, 'a) prog \<Rightarrow> (boot_sys, 'a) prog" where
  "on_hw \<equiv> plift bs_hw (\<lambda>h s. s\<lparr>bs_hw := h\<rparr>)"

abbreviation on_config :: "(host_storage, 'a) prog \<Rightarrow> (boot_sys, 'a) prog" where
  "on_config \<equiv> plift bs_config (\<lambda>c s. s\<lparr>bs_config := c\<rparr>)"

abbreviation on_boot :: "(u64, 'a) prog \<Rightarrow> (boot_sys, 'a) prog" where
  "on_boot \<equiv> plift bs_state (\<lambda>x s. s\<lparr>bs_state := x\<rparr>)"

section \<open>The hardware primitives\<close>

definition hw_do :: "hw_event \<Rightarrow> (release_hw, unit) prog" where
  "hw_do e = astore (\<lambda>h. h\<lparr>hw_trace := hw_trace h @ [e]\<rparr>)"

definition clean_cache_line :: "u64 \<Rightarrow> (release_hw, (unit, 'e) outcome) prog" where
  "clean_cache_line address = pbind (hw_do (EvClean address)) (\<lambda>_. Ret (Ok ()))"

definition publication_barrier :: "(release_hw, (unit, 'e) outcome) prog" where
  "publication_barrier = pbind (hw_do EvBarrier) (\<lambda>_. Ret (Ok ()))"

definition read_release_cell :: "u64 \<Rightarrow> (release_hw, (u64, 'e) outcome) prog" where
  "read_release_cell address =
     armw (\<lambda>h. (h\<lparr>hw_trace := hw_trace h @ [EvRead address]\<rparr>, Ok (hw_cells h address)))"

text \<open>The counter is read before the store; \<open>counter k\<close> is what its \<open>k\<close>-th read returns.\<close>

definition physical_counter :: "(nat \<Rightarrow> u64) \<Rightarrow> (release_hw, u64) prog" where
  "physical_counter counter = armw (\<lambda>h. (h\<lparr>hw_clock := Suc (hw_clock h)\<rparr>, counter (hw_clock h)))"

definition write_release_cell_le64 :: "(nat \<Rightarrow> u64) \<Rightarrow> u64 \<Rightarrow> u64 \<Rightarrow> (release_hw, (u64, 'e) outcome) prog" where
  "write_release_cell_le64 counter address value =
     pbind (physical_counter counter) (\<lambda>timestamp.
     pbind (astore (\<lambda>h. h\<lparr>hw_cells := (hw_cells h)(address := value), hw_trace := hw_trace h @ [EvStore address value]\<rparr>)) (\<lambda>_.
       Ret (Ok timestamp)))"

definition send_event :: "(release_hw, (unit, 'e) outcome) prog" where
  "send_event = pbind (hw_do EvSev) (\<lambda>_. Ret (Ok ()))"

lemmas hw_defs = hw_do_def clean_cache_line_def publication_barrier_def read_release_cell_def physical_counter_def
  write_release_cell_le64_def send_event_def

text \<open>What a primitive may do to the hardware, by the stores it is allowed.\<close>

inductive hw_guar :: "(hw_event list \<Rightarrow> u64 \<Rightarrow> u64 \<Rightarrow> bool) \<Rightarrow> release_hw \<Rightarrow> release_hw \<Rightarrow> bool" for may where
  hw_event: "(\<forall>c v. e \<noteq> EvStore c v) \<Longrightarrow> hw_guar may h (h\<lparr>hw_trace := hw_trace h @ [e]\<rparr>)"
| hw_tick: "hw_guar may h (h\<lparr>hw_clock := n\<rparr>)"
| hw_store: "may (hw_trace h) c v \<Longrightarrow>
    hw_guar may h (h\<lparr>hw_cells := (hw_cells h)(c := v), hw_trace := hw_trace h @ [EvStore c v]\<rparr>)"

lemma hw_guar_refl [simp]: "hw_guar may h h"
  using hw_tick [of may h "hw_clock h"] by simp

lemma hw_guar_trace: "hw_guar may h h' \<Longrightarrow> \<exists>es. hw_trace h' = hw_trace h @ es"
  by (erule hw_guar.cases) auto

abbreviation hw_ok :: "(hw_event list \<Rightarrow> u64 \<Rightarrow> u64 \<Rightarrow> bool) \<Rightarrow> (release_hw, 'a) prog \<Rightarrow> bool" where
  "hw_ok may p \<equiv> safe (\<lambda>_. True) (=) (hw_guar may) (\<lambda>_. True) p (\<lambda>_ _. True)"

lemma hw_ok_bind: "hw_ok may p \<Longrightarrow> (\<And>a. hw_ok may (k a)) \<Longrightarrow> hw_ok may (pbind p k)"
  by (rule safe_pbind)

lemma hw_ok_then: "hw_ok may p \<Longrightarrow> (\<And>a. hw_ok may (k a)) \<Longrightarrow> hw_ok may (pthen p k)"
  by (rule safe_pthen) auto

lemma hw_ok_do: "(\<forall>c v. e \<noteq> EvStore c v) \<Longrightarrow> hw_ok may (hw_do e)"
  unfolding hw_do_def astore_armw by (rule safe_armw) (auto intro: hw_event)

lemma hw_ok_counter [simp]: "hw_ok may (physical_counter counter)"
  unfolding physical_counter_def by (rule safe_armw) (auto intro: hw_tick)

lemma hw_ok_primitives [simp]:
  "hw_ok may (clean_cache_line a)" "hw_ok may publication_barrier" "hw_ok may (read_release_cell a)" "hw_ok may send_event"
  unfolding clean_cache_line_def publication_barrier_def send_event_def read_release_cell_def
  by (auto intro!: hw_ok_bind hw_ok_do) (rule safe_armw, auto intro: hw_event)

end
