(* ===== verification/Startup_Publication.thy ===== *)
theory Startup_Publication
  imports Boot_State Secondary_Entry
begin

text \<open>
  Publication of the startup state to the point of coherency and release of a secondary CPU
  (\<open>tvisor_util/startup_publication.rs\<close>). A secondary enters with its data cache off, so
  every line it will read has to be cleaned, and the barrier completed, before the store to
  its release cell. \<open>core::mem::size_of\<close> of a slot is the stride of the slot array.
\<close>

datatype publication_error = InvalidLineSize | Overflow | Preconditions | Io | NonzeroCell

definition cache_range :: "u64 \<Rightarrow> u64 \<Rightarrow> u64 \<Rightarrow> (u64 \<times> u64, publication_error) outcome" where
  "cache_range start stop line =
     (if \<not> is_power_of_two line \<or> line < 8 \<or> PAGE_SIZE < line then Err InvalidLineSize
      else if stop \<le> start then Err Preconditions
      else and_then (ok_or Overflow (checked_add stop (line - 1))) (\<lambda>e.
        Ok (start AND NOT (line - 1), e AND NOT (line - 1))))"

text \<open>The loop; \<open>cache_range\<close> has rejected a zero line, and the addition panics on overflow.\<close>

function clean_loop :: "u64 \<Rightarrow> u64 \<Rightarrow> u64 \<Rightarrow> (release_hw, (unit, publication_error) outcome) prog" where
  "clean_loop address stop line =
     (if address < stop \<and> line \<noteq> 0
      then pthen (clean_cache_line address) (\<lambda>_.
        case checked_add address line of None \<Rightarrow> Ret Panic | Some n \<Rightarrow> clean_loop n stop line)
      else Ret (Ok ()))"
  by auto

termination
proof (relation "measure (\<lambda>(address, stop, line). 2 ^ 64 - unat address)")
  fix address stop line n :: u64
  assume a: "address < stop \<and> line \<noteq> 0" "checked_add address line = Some n"
  have "0 < unat line" using a by (simp add: unat_gt_0)
  then have "unat address < unat n" using unat_checked_add [OF a(2)] by simp
  then show "((n, stop, line), address, stop, line) \<in> measure (\<lambda>(address, stop, line). 2 ^ 64 - unat address)"
    using unat_u64_bound [of n] by simp
qed simp

declare clean_loop.simps [simp del]

definition clean_range :: "u64 \<Rightarrow> u64 \<Rightarrow> u64 \<Rightarrow> (release_hw, (unit, publication_error) outcome) prog" where
  "clean_range start stop line = pthen (Ret (cache_range start stop line)) (\<lambda>(address, e). clean_loop address e line)"

definition shared_regions :: "startup_resources \<Rightarrow> phys_region list" where
  "shared_regions r = [sr_code r, sr_vectors r, sr_rodata r, sr_writable r, sr_tables r]"

fun check_ranges_of :: "u64 \<Rightarrow> phys_region list \<Rightarrow> (unit, publication_error) outcome" where
  "check_ranges_of line [] = Ok ()"
| "check_ranges_of line (r # rs) = and_then (cache_range (region_start r) (region_end r) line) (\<lambda>_. check_ranges_of line rs)"

fun clean_regions :: "u64 \<Rightarrow> phys_region list \<Rightarrow> (release_hw, (unit, publication_error) outcome) prog" where
  "clean_regions line [] = Ret (Ok ())"
| "clean_regions line (r # rs) = pthen (clean_range (region_start r) (region_end r) line) (\<lambda>_. clean_regions line rs)"

text \<open>The conditions of \<open>validate_publication\<close> up to and after the second mailbox read.\<close>

definition publication_identity ::
  "cpu_descriptor \<Rightarrow> nat \<Rightarrow> startup_view \<Rightarrow> startup_resources \<Rightarrow> (bool, publication_error) outcome" where
  "publication_identity cpu i record r =
     (if \<not> config_valid (sv_config record) \<or> sv_slot_address record \<noteq> region_start (sr_context r) then Ok False
      else case checked_add (region_start (sr_slots r)) (word_of_nat i * 384) of
        None \<Rightarrow> Panic
      | Some own \<Rightarrow> Ok (sv_slot_address record = own \<and> sv_config_address record = region_start (sr_config r) \<and>
          ci_logical_id (sv_identity record) = word_of_nat i \<and> ci_affinity (sv_identity record) = cd_affinity cpu))"

definition publication_layout :: "u64 \<Rightarrow> startup_view \<Rightarrow> startup_resources \<Rightarrow> (bool, publication_error) outcome" where
  "publication_layout cell record r =
     (if ci_context (sv_identity record) \<noteq> sv_slot_address record \<or> cfg_root (sv_config record) \<noteq> sr_root r \<or>
         ci_stack_bottom (sv_identity record) \<noteq> sl_bottom (sr_stack r) \<or> ci_stack_top (sv_identity record) \<noteq> sl_top (sr_stack r) \<or>
         sr_entry r AND 3 \<noteq> 0 \<or> \<not> region_contains_address (sr_code r) (sr_entry r) then Ok False
      else and_then (map_err (\<lambda>_. Overflow) (region_new cell 8)) (\<lambda>c. Ok (region_contains_region (sr_release_page r) c)))"

definition validate_publication ::
  "cpu_descriptor list \<Rightarrow> nat \<Rightarrow> entry_contract \<Rightarrow> startup_view \<Rightarrow> startup_resources \<Rightarrow> u64 \<Rightarrow>
   (pcpu_slot, (unit, publication_error) outcome) prog" where
  "validate_publication cpus i contract record r line =
     pthen (Ret (map_err (\<lambda>_. Preconditions) (validate_spin_table_release cpus i contract))) (\<lambda>cell.
     pthen (Ret (ok_or Preconditions (find (\<lambda>c. cd_logical_id c = Some i) cpus))) (\<lambda>cpu.
     pbind (on_mailbox (mb_lifecycle_of (sv_generation record))) (\<lambda>st.
     if st = Panic then Ret Panic else if st \<noteq> Ok Prepared then Ret (Err Preconditions) else
     pthen (Ret (publication_identity cpu i record r)) (\<lambda>identity.
     if \<not> identity then Ret (Err Preconditions) else
     pbind (on_mailbox (observe_ready (sv_generation record))) (\<lambda>observed.
     if \<not> observed then Ret (Err Preconditions) else
     pthen (Ret (publication_layout cell record r)) (\<lambda>layout.
     if \<not> layout then Ret (Err Preconditions) else
     pthen (Ret (map_err (\<lambda>_. Preconditions) (region_from_bounds (sl_bottom (sr_stack r)) (sl_top (sr_stack r))))) (\<lambda>stack.
       Ret (check_ranges_of line (shared_regions r @ [stack, sr_release_page r])))))))))"

definition publish_shared_startup :: "startup_resources \<Rightarrow> u64 \<Rightarrow> (release_hw, (unit, publication_error) outcome) prog" where
  "publish_shared_startup r line =
     (if \<not> region_contains_region (sr_writable r) (sr_slots r) \<or> \<not> region_contains_region (sr_writable r) (sr_config r)
      then Ret (Err Preconditions)
      else pthen (Ret (check_ranges_of line (shared_regions r))) (\<lambda>_. clean_regions line (shared_regions r)))"

definition publish_cpu_startup :: "stack_layout \<Rightarrow> u64 \<Rightarrow> (release_hw, (unit, publication_error) outcome) prog" where
  "publish_cpu_startup stack line =
     (if stack_layout_of (sl_guard_start stack) \<noteq> Ok stack then Ret (Err Preconditions)
      else clean_range (sl_bottom stack) (sl_top stack) line)"

definition mark_attempt :: "nat \<Rightarrow> (boot_sys, bool) prog" where
  "mark_attempt i = armw (\<lambda>s. if bs_attempted s AND push_bit i 1 = 0
     then (s\<lparr>bs_attempted := bs_attempted s OR push_bit i 1\<rparr>, True) else (s, False))"

definition expect_zero_cell :: "u64 \<Rightarrow> (boot_sys, (unit, publication_error) outcome) prog" where
  "expect_zero_cell cell = pthen (on_hw (read_release_cell cell)) (\<lambda>value.
     Ret (if value \<noteq> 0 then Err NonzeroCell else Ok ()))"

text \<open>The irreversible part: from the request to the wake-up event.\<close>

definition release_store ::
  "(nat \<Rightarrow> u64) \<Rightarrow> nat \<Rightarrow> u64 \<Rightarrow> u64 \<Rightarrow> u64 \<Rightarrow> (boot_sys, (u64, publication_error) outcome) prog" where
  "release_store counter i cell entry line =
     pbind (mark_attempt i) (\<lambda>marked.
     if \<not> marked then Ret (Err Preconditions) else
     pthen (on_hw (write_release_cell_le64 counter cell entry)) (\<lambda>timestamp.
     pthen (on_hw (clean_cache_line (cell AND NOT (line - 1)))) (\<lambda>_.
     pthen (on_hw publication_barrier) (\<lambda>_.
     pthen (on_hw send_event) (\<lambda>_. Ret (Ok timestamp))))))"

definition release_secondary ::
  "(nat \<Rightarrow> u64) \<Rightarrow> cpu_descriptor list \<Rightarrow> entry_contract \<Rightarrow> nat \<Rightarrow> startup_view \<Rightarrow> u64 \<Rightarrow> u64 \<Rightarrow>
   (boot_sys, (u64, publication_error) outcome) prog" where
  "release_secondary counter cpus contract slot record entry line =
     (let i = unat (ci_logical_id (sv_identity record)); g = sv_generation record in
     pthen (Ret (map_err (\<lambda>_. Preconditions) (validate_spin_table_release cpus i contract))) (\<lambda>cell.
     pthen (Ret (ok_or Preconditions (find (\<lambda>c. cd_logical_id c = Some i) cpus))) (\<lambda>cpu.
     pthen (Ret (ok_or Overflow (checked_add cell 8))) (\<lambda>cell_end.
     pthen (Ret (cache_range cell cell_end line)) (\<lambda>_.
     if entry = 0 \<or> entry AND 3 \<noteq> 0 \<or> ci_affinity (sv_identity record) \<noteq> cd_affinity cpu \<or>
        ci_context (sv_identity record) \<noteq> sv_slot_address record then Ret (Err Preconditions) else
     pbind (on_slot slot (on_mailbox (mb_lifecycle_of g))) (\<lambda>st.
     if st = Panic then Ret Panic else if st \<noteq> Ok Prepared then Ret (Err Preconditions) else
     pbind (aload bs_attempted) (\<lambda>attempted.
     if attempted AND push_bit i 1 \<noteq> 0 then Ret (Err Preconditions) else
     pthen (expect_zero_cell cell) (\<lambda>_.
     pthen (pbind (on_slot slot (on_mailbox (begin_start g))) (\<lambda>r. Ret (map_err (\<lambda>_. Preconditions) r))) (\<lambda>_.
     pthen (on_hw publication_barrier) (\<lambda>_.
     pthen (expect_zero_cell cell) (\<lambda>_. release_store counter i cell entry line)))))))))))"

definition verify_release_value ::
  "cpu_descriptor list \<Rightarrow> u64 \<Rightarrow> u64 \<Rightarrow> u64 \<Rightarrow> u64 \<Rightarrow> (unit, publication_error) outcome" where
  "verify_release_value cpus attempted cell entry value =
     and_then (map_err (\<lambda>_. Preconditions) (secondary_mask cpus)) (\<lambda>required.
     if attempted AND NOT required \<noteq> 0 then Err Preconditions
     else let released = list_ex (\<lambda>cpu. (case cd_logical_id cpu of None \<Rightarrow> False | Some i \<Rightarrow> attempted AND push_bit i 1 \<noteq> 0) \<and>
              cd_startup cpu = SpinTable cell) cpus
       in if value = (if released then entry else 0) then Ok () else Err Preconditions)"

section \<open>Lines\<close>

text \<open>The line a byte lies in, and the lines a trace has cleaned before a completed barrier.\<close>

definition line_of :: "u64 \<Rightarrow> u64 \<Rightarrow> u64" where
  "line_of line a = a AND NOT (line - 1)"

definition cleaned :: "hw_event list \<Rightarrow> u64 \<Rightarrow> bool" where
  "cleaned tr a \<longleftrightarrow> (\<exists>xs ys. tr = xs @ EvBarrier # ys \<and> EvClean a \<in> set xs)"

lemma cleaned_append: "cleaned tr a \<Longrightarrow> cleaned (tr @ es) a"
  by (fastforce simp: cleaned_def)

lemma cleaned_barrier: "EvClean a \<in> set tr \<Longrightarrow> cleaned (tr @ [EvBarrier]) a"
  by (auto simp: cleaned_def)

lemma unat_line_of:
  assumes "n < 64"
  shows "unat (line_of (2 ^ n) a) = unat a div 2 ^ n * 2 ^ n"
proof -
  have "(2 ^ n - 1 :: u64) = mask n" by (simp add: mask_eq_decr_exp)
  then show ?thesis using unat_and_not_mask [of a n] by (simp add: line_of_def minus_mod_eq_div_mult)
qed

lemma cache_range_Ok:
  assumes "cache_range start stop line = Ok (a, e)"
  shows "is_power_of_two line" "8 \<le> line" "start < stop" "a = line_of line start"
    "\<exists>n k. line = 2 ^ n \<and> n < 64 \<and> unat e = k * 2 ^ n \<and> unat stop \<le> unat e \<and> unat e < unat stop + 2 ^ n"
proof -
  have c: "is_power_of_two line" "8 \<le> line" "start < stop" "checked_add stop (line - 1) \<noteq> None" "a = line_of line start"
    and e: "e = line_of line (the (checked_add stop (line - 1)))"
    using assms by (auto simp: cache_range_def outcome_simps line_of_def split: if_splits)
  then show "is_power_of_two line" "8 \<le> line" "start < stop" "a = line_of line start" by blast+
  obtain n where n: "n < 64" "line = 2 ^ n" using c(1) by (auto elim: is_power_of_twoE)
  note line = unat_line_of [OF n(1), folded n(2)]
  obtain w where w: "checked_add stop (line - 1) = Some w" using c(4) by blast
  have "unat line = 2 ^ n" using n by simp
  moreover have "line \<noteq> 0" using c(1) by auto
  ultimately have uw: "unat w = unat stop + (2 ^ n - 1)" using unat_checked_add [OF w] by (simp add: unat_pred)
  have ue: "unat e = unat w div 2 ^ n * 2 ^ n" using e w line by simp
  have r: "unat w div 2 ^ n * 2 ^ n + unat w mod 2 ^ n = unat w" "unat w mod 2 ^ n < 2 ^ n" by (rule div_mult_mod_eq) simp
  have "unat stop \<le> unat e" "unat e < unat stop + 2 ^ n" using r uw ue by linarith+
  then show "\<exists>n k. line = 2 ^ n \<and> n < 64 \<and> unat e = k * 2 ^ n \<and> unat stop \<le> unat e \<and> unat e < unat stop + 2 ^ n"
    using n(1,2) ue by blast
qed

lemma run_clean_loop:
  assumes "n < 64" and "line = 2 ^ n" and "2 ^ n dvd unat address" and "2 ^ n dvd unat stop"
  shows "\<exists>es. run (clean_loop address stop line) h = (Ok (), h\<lparr>hw_trace := hw_trace h @ es\<rparr>) \<and>
    (\<forall>x. address \<le> x \<and> x < stop \<longrightarrow> EvClean (line_of line x) \<in> set es)"
  using assms
proof (induction address stop line arbitrary: h rule: clean_loop.induct)
  case (1 address stop line)
  have ul: "unat line = 2 ^ n" using 1(2,3) by simp
  show ?case
  proof (cases "address < stop")
    case True
    have nz: "line \<noteq> 0" using ul by auto
    have le: "unat address + 2 ^ n \<le> unat stop"
      using True 1(4,5) by (auto simp: word_less_nat_alt elim!: dvdE) (metis add.commute less_mult_imp_div_less mult.commute mult_Suc_right mult_le_mono2 nat_mult_less_cancel_disj not_less_eq_eq not_le)
    define m where "m = address + line"
    have nx: "checked_add address line = Some m" "unat m = unat address + 2 ^ n"
      using le ul unat_u64_bound [of stop] by (auto simp: m_def checked_add_def unat_word_ariths)
    have "2 ^ n dvd unat m" using nx(2) 1(4) by simp
    then obtain es where es: "run (clean_loop m stop line) (h\<lparr>hw_trace := hw_trace h @ [EvClean address]\<rparr>) =
        (Ok (), h\<lparr>hw_trace := hw_trace h @ EvClean address # es\<rparr>)" "\<And>x. m \<le> x \<Longrightarrow> x < stop \<Longrightarrow> EvClean (line_of line x) \<in> set es"
      using 1(1) [of m "h\<lparr>hw_trace := hw_trace h @ [EvClean address]\<rparr>"] True nz nx(1) 1(2,3,5) by auto
    have "line_of line x = address" if "address \<le> x" "x < m" for x
    proof -
      have "unat x div 2 ^ n = unat address div 2 ^ n"
        using that nx(2) 1(4) by (auto simp: word_le_nat_alt word_less_nat_alt elim!: dvdE intro!: div_nat_eqI)
      then show ?thesis using 1(4) unat_line_of [OF 1(2), of x, folded 1(3)] by (simp add: word_unat_eq_iff)
    qed
    then show ?thesis
      using True nz nx es by (subst clean_loop.simps) (fastforce simp: hw_defs prog_defs not_le intro!: exI [of _ "EvClean address # es"])
  next
    case False
    then show ?thesis by (subst clean_loop.simps) (auto intro!: exI [of _ "[]"])
  qed
qed

section \<open>Publication\<close>

text \<open>What a program of CPU 0 adds to the trace: events that clean every line of \<open>A\<close> if it succeeds.\<close>

definition cleans :: "(release_hw, (unit, publication_error) outcome) prog \<Rightarrow> u64 \<Rightarrow> u64 set \<Rightarrow> bool" where
  "cleans p line A \<longleftrightarrow> (\<forall>may. hw_ok may p) \<and> (\<forall>h. \<exists>r es. run p h = (r, h\<lparr>hw_trace := hw_trace h @ es\<rparr>) \<and> r \<noteq> Panic \<and>
     (r = Ok () \<longrightarrow> (\<forall>x \<in> A. EvClean (line_of line x) \<in> set es)))"

lemma cleans_none: "r \<noteq> Panic \<Longrightarrow> r = Ok () \<Longrightarrow> A = {} \<Longrightarrow> cleans (Ret r) line A" "e \<noteq> Ok () \<Longrightarrow> e \<noteq> Panic \<Longrightarrow> cleans (Ret e) line A"
  by (auto simp: cleans_def intro!: exI [of _ "[]"] safe_Ret)

lemma cleans_then:
  assumes "cleans p line A" and "cleans q line B"
  shows "cleans (pthen p (\<lambda>_. q)) line (A \<union> B)"
  unfolding cleans_def
proof (intro conjI allI)
  show "hw_ok may (pthen p (\<lambda>_. q))" for may using assms by (auto simp: cleans_def intro: hw_ok_then)
  fix h
  obtain r es where p: "run p h = (r, h\<lparr>hw_trace := hw_trace h @ es\<rparr>)" "r \<noteq> Panic" "r = Ok () \<Longrightarrow> \<forall>x \<in> A. EvClean (line_of line x) \<in> set es"
    using assms(1) unfolding cleans_def by metis
  let ?h = "h\<lparr>hw_trace := hw_trace h @ es\<rparr>"
  obtain r2 es2 where "run q ?h = (r2, ?h\<lparr>hw_trace := hw_trace ?h @ es2\<rparr>)" "r2 \<noteq> Panic"
    and c: "r2 = Ok () \<Longrightarrow> \<forall>x \<in> B. EvClean (line_of line x) \<in> set es2"
    using assms(2) unfolding cleans_def by metis
  then have q: "run q ?h = (r2, h\<lparr>hw_trace := hw_trace h @ es @ es2\<rparr>)" "r2 \<noteq> Panic" by simp_all
  show "\<exists>r es. run (pthen p (\<lambda>_. q)) h = (r, h\<lparr>hw_trace := hw_trace h @ es\<rparr>) \<and> r \<noteq> Panic \<and>
      (r = Ok () \<longrightarrow> (\<forall>x \<in> A \<union> B. EvClean (line_of line x) \<in> set es))"
  proof (cases r)
    case (Ok u)
    then have "run (pthen p (\<lambda>_. q)) h = (r2, h\<lparr>hw_trace := hw_trace h @ es @ es2\<rparr>)" using p(1) q(1) by (simp add: pthen_def run_pbind)
    then show ?thesis using Ok p(3) q(2) c by (intro exI [of _ r2] exI [of _ "es @ es2"]) auto
  qed (use p in \<open>auto simp: pthen_def run_pbind intro!: exI [of _ es]\<close>)
qed

lemma hw_ok_clean_loop: "hw_ok may (clean_loop address stop line)"
proof (induction address stop line rule: clean_loop.induct)
  case (1 address stop line)
  then show ?case by (subst clean_loop.simps) (auto intro!: hw_ok_then split: option.splits)
qed

lemma cleans_range: "cleans (clean_range start stop line) line {x. start \<le> x \<and> x < stop}"
  unfolding cleans_def
proof (intro conjI allI)
  show "hw_ok may (clean_range start stop line)" for may
    unfolding clean_range_def by (auto intro!: hw_ok_then hw_ok_clean_loop)
  fix h
  show "\<exists>r es. run (clean_range start stop line) h = (r, h\<lparr>hw_trace := hw_trace h @ es\<rparr>) \<and> r \<noteq> Panic \<and>
      (r = Ok () \<longrightarrow> (\<forall>x \<in> {x. start \<le> x \<and> x < stop}. EvClean (line_of line x) \<in> set es))"
  proof (cases "cache_range start stop line")
    case (Ok ae)
    obtain a e where ae: "ae = (a, e)" by (cases ae)
    note c = cache_range_Ok [OF Ok [unfolded ae]]
    obtain n k where n: "line = 2 ^ n" "n < 64" "unat e = k * 2 ^ n" "unat stop \<le> unat e" using c(5) by blast
    have ua: "unat a = unat start div 2 ^ n * 2 ^ n"
      using unat_line_of [OF n(2), of start] c(4) n(1) by simp
    then have "a \<le> start" by (simp add: word_le_nat_alt)
    obtain es where es: "run (clean_loop a e line) h = (Ok (), h\<lparr>hw_trace := hw_trace h @ es\<rparr>)" "\<And>x. a \<le> x \<Longrightarrow> x < e \<Longrightarrow> EvClean (line_of line x) \<in> set es"
      using run_clean_loop [of n line a e h] n ua by auto
    have "EvClean (line_of line x) \<in> set es" if "start \<le> x" "x < stop" for x
      using es(2) [of x] that \<open>a \<le> start\<close> n(4) by (auto simp: word_less_nat_alt word_le_nat_alt)
    then show ?thesis using es(1) Ok ae by (auto simp: clean_range_def pthen_def)
  next
    case Panic
    then show ?thesis by (auto simp: cache_range_def outcome_simps split: if_splits)
  qed (auto simp: clean_range_def pthen_def intro!: exI [of _ "[]"])
qed

lemma check_ranges_no_panic [simp]: "check_ranges_of line rs \<noteq> Panic"
  by (induction rs) (auto simp: outcome_simps cache_range_def split: if_splits)

lemma region_addrs_range: "{x. region_start r \<le> x \<and> x < region_end r} = region_addrs r"
  by (auto simp: region_addrs_def region_contains_address_def)

lemma cleans_regions: "cleans (clean_regions line rs) line (regions_addrs rs)"
proof (induction rs)
  case (Cons r rs)
  show ?case using cleans_then [OF cleans_range Cons, of "region_start r" "region_end r"] by (simp add: region_addrs_range)
qed (auto intro: cleans_none)

text \<open>Publication cleans what it names: the five shared regions, with the slots and the configuration inside them, and the private stack.\<close>

lemma cleans_publish_shared: "cleans (publish_shared_startup r line) line (regions_addrs (shared_regions r))"
proof (cases "check_ranges_of line (shared_regions r)")
  case (Ok u)
  then show ?thesis using cleans_regions [of line "shared_regions r"] by (auto simp: publish_shared_startup_def pthen_def intro: cleans_none)
qed (auto simp: publish_shared_startup_def pthen_def intro: cleans_none dest: check_ranges_no_panic [THEN notE])

lemma cleans_publish_cpu: "cleans (publish_cpu_startup stack line) line {x. sl_bottom stack \<le> x \<and> x < sl_top stack}"
  using cleans_range by (auto simp: publish_cpu_startup_def intro: cleans_none)

end
