(* ===== verification/Secondary_Validation.thy ===== *)
theory Secondary_Validation
  imports Pcpu
begin

text \<open>
  The self-check of a secondary CPU (\<open>tvisor_util/secondary_validation.rs\<close>): twenty-eight
  conditions on its registers and on what firmware left, reported as a bit mask, and the
  writer of the diagnostic checkpoint.
\<close>

definition FAILURE_NAMES :: "string list" where
  "FAILURE_NAMES = [''Generation'', ''ExceptionLevel'', ''Affinity'', ''Stack'', ''ContextPointer'', ''ContextIdentity'', ''Vectors'', ''Mair'',
     ''Tcr'', ''Root'', ''Sctlr'', ''InterruptMasks'', ''Hcr'', ''Cptr'', ''Hstr'', ''Vttbr'', ''CounterOffset'', ''CounterAccess'', ''HypTimer'',
     ''PhysicalTimer'', ''VirtualTimer'', ''StackSelection'', ''MemoryMap'', ''EntryRegime'', ''CpuImplementation'',
     ''MaintenanceParticipation'', ''EntryAffinity'', ''LogicalId'']"

definition tcr_matches :: "host_config \<Rightarrow> bool" where
  "tcr_matches config \<longleftrightarrow>
     (case ht_new (cfg_root config) (ucast (drop_bit 16 (cfg_tcr config) AND 7)) of Ok p \<Rightarrow> ht_tcr p = cfg_tcr config | _ \<Rightarrow> False)"

definition validation_checks ::
  "bool \<Rightarrow> startup_view \<Rightarrow> local_state \<Rightarrow> entry_state \<Rightarrow> u64 \<Rightarrow> bool \<Rightarrow> bool \<Rightarrow> bool list" where
  "validation_checks observed r s e vectors context_valid map_published =
     (let identity = sv_identity r; config = sv_config r in
     [sv_generation r \<noteq> 0 \<and> observed,
      ls_current_el s = 8,
      ls_affinity s AND MPIDR_AFFINITY_MASK = ci_affinity identity,
      ci_stack_bottom identity \<le> ls_sp s \<and> ls_sp s < ci_stack_top identity \<and> ls_sp s AND 15 = 0,
      ls_tpidr s = ci_context identity,
      context_valid,
      ls_vbar s = vectors \<and> vectors \<noteq> 0 \<and> vectors AND 2047 = 0,
      ls_mair s = cfg_mair config \<and> ls_mair s = HOST_MAIR,
      ls_tcr s = cfg_tcr config \<and> tcr_matches config,
      ls_root s = cfg_root config,
      ls_sctlr s = cfg_sctlr config \<and> ls_sctlr s = HOST_SCTLR,
      ls_daif s AND MASKED_DAIF = MASKED_DAIF,
      ls_hcr s = HOST_HCR,
      ls_cptr s = HOST_CPTR,
      ls_hstr s = HOST_HSTR,
      ls_vttbr s = HOST_VTTBR,
      ls_cntvoff s = HOST_CNTVOFF,
      ls_cnthctl s = HOST_CNTHCTL,
      ls_cnthp_ctl s AND 3 = DISABLED_TIMER_CTL,
      ls_cntp_ctl s AND 3 = DISABLED_TIMER_CTL,
      ls_cntv_ctl s AND 3 = DISABLED_TIMER_CTL,
      ls_spsel s = 1,
      map_published,
      es_sctlr e AND (push_bit 25 1 OR push_bit 2 1 OR 1) = 0,
      drop_bit 24 (es_midr e) AND 255 = 0x41 \<and> drop_bit 4 (es_midr e) AND 4095 = 0xd08,
      es_cpuectlr e AND push_bit 6 1 \<noteq> 0,
      es_mpidr e AND MPIDR_AFFINITY_MASK = ci_affinity identity,
      0 < ci_logical_id identity \<and> ci_logical_id identity < word_of_nat MAX_CPUS])"

definition failure_bits :: "bool list \<Rightarrow> u64" where
  "failure_bits checks = fold (\<lambda>(i, ok) bits. bits OR (if ok then 0 else push_bit i 1)) (enumerate 0 checks) 0"

definition validate ::
  "startup_view \<Rightarrow> local_state \<Rightarrow> entry_state \<Rightarrow> u64 \<Rightarrow> bool \<Rightarrow> bool \<Rightarrow> (pcpu_slot, u64) prog" where
  "validate r s e vectors context_valid map_published =
     pbind (if sv_generation r = 0 then Ret False else on_mailbox (observe_ready (sv_generation r))) (\<lambda>observed.
       Ret (failure_bits (validation_checks observed r s e vectors context_valid map_published)))"

definition startup_store :: "(secondary_startup \<Rightarrow> secondary_startup) \<Rightarrow> (pcpu_slot, unit) prog" where
  "startup_store f = astore (\<lambda>s. s\<lparr>ps_startup := f (ps_startup s)\<rparr>)"

fun startup_stores :: "(secondary_startup \<Rightarrow> secondary_startup) list \<Rightarrow> (pcpu_slot, unit) prog" where
  "startup_stores [] = Ret ()"
| "startup_stores (f # fs) = pbind (startup_store f) (\<lambda>_. startup_stores fs)"

definition checkpoint_writes :: "local_state \<Rightarrow> entry_state \<Rightarrow> u64 \<Rightarrow> (secondary_startup \<Rightarrow> secondary_startup) list" where
  "checkpoint_writes s e failures =
     map (\<lambda>f. su_checkpoint_update f)
       [ls_current_el_update (\<lambda>_. ls_current_el s), ls_affinity_update (\<lambda>_. ls_affinity s), ls_sp_update (\<lambda>_. ls_sp s),
        ls_tpidr_update (\<lambda>_. ls_tpidr s), ls_vbar_update (\<lambda>_. ls_vbar s), ls_mair_update (\<lambda>_. ls_mair s), ls_tcr_update (\<lambda>_. ls_tcr s),
        ls_root_update (\<lambda>_. ls_root s), ls_sctlr_update (\<lambda>_. ls_sctlr s), ls_daif_update (\<lambda>_. ls_daif s), ls_hcr_update (\<lambda>_. ls_hcr s),
        ls_cptr_update (\<lambda>_. ls_cptr s), ls_hstr_update (\<lambda>_. ls_hstr s), ls_vttbr_update (\<lambda>_. ls_vttbr s),
        ls_cntvoff_update (\<lambda>_. ls_cntvoff s), ls_cnthctl_update (\<lambda>_. ls_cnthctl s), ls_cnthp_ctl_update (\<lambda>_. ls_cnthp_ctl s),
        ls_cntp_ctl_update (\<lambda>_. ls_cntp_ctl s), ls_cntv_ctl_update (\<lambda>_. ls_cntv_ctl s), ls_spsel_update (\<lambda>_. ls_spsel s)] @
     map (\<lambda>f. su_entry_update f)
       [es_sctlr_update (\<lambda>_. es_sctlr e), es_midr_update (\<lambda>_. es_midr e), es_cpuectlr_update (\<lambda>_. es_cpuectlr e),
        es_mpidr_update (\<lambda>_. es_mpidr e)] @
     [su_failures_update (\<lambda>_. failures)]"

definition publish_checkpoint :: "local_state \<Rightarrow> entry_state \<Rightarrow> u64 \<Rightarrow> (pcpu_slot, unit) prog" where
  "publish_checkpoint s e failures = startup_stores (checkpoint_writes s e failures)"

section \<open>The mask\<close>

lemma fold_bits:
  fixes acc :: u64
  assumes "n + length checks \<le> 64"
  shows "bit (fold (\<lambda>(i, ok) bits. bits OR (if ok then 0 else push_bit i 1)) (enumerate n checks) acc) k \<longleftrightarrow>
    bit acc k \<or> (n \<le> k \<and> k < n + length checks \<and> \<not> checks ! (k - n))"
  using assms
proof (induction checks arbitrary: n acc)
  case (Cons c cs)
  have b: "bit (2 ^ n :: u64) k \<longleftrightarrow> k = n" using Cons.prems by (auto simp: bit_simps)
  show ?case
    using Cons.IH [of "Suc n" "acc OR (if c then 0 else push_bit n 1)"] Cons.prems b
    by (cases "k = n") (auto simp: bit_or_iff nth_Cons' Suc_le_eq)
qed auto

lemma failure_bits_bit: "length checks \<le> 64 \<Longrightarrow> bit (failure_bits checks) k \<longleftrightarrow> k < length checks \<and> \<not> checks ! k"
  using fold_bits [of 0 checks 0 k] by (simp add: failure_bits_def)

lemma failure_bits_zero: "length checks \<le> 64 \<Longrightarrow> failure_bits checks = 0 \<longleftrightarrow> list_all (\<lambda>c. c) checks"
  by (auto simp: bit_eq_iff failure_bits_bit list_all_length)

lemma length_validation_checks: "length (validation_checks b r s e v c m) = length FAILURE_NAMES"
  by (simp add: validation_checks_def FAILURE_NAMES_def Let_def)

lemma length_FAILURE_NAMES: "length FAILURE_NAMES = 28"
  by (simp add: FAILURE_NAMES_def)

text \<open>Every defect is reported, under the bit of its name, and nothing else is.\<close>

lemma validation_bit:
  "bit (failure_bits (validation_checks b r s e v c m)) k \<longleftrightarrow> k < 28 \<and> \<not> validation_checks b r s e v c m ! k"
  by (subst failure_bits_bit) (simp_all add: length_validation_checks length_FAILURE_NAMES)

lemma validation_passes:
  "failure_bits (validation_checks b r s e v c m) = 0 \<longleftrightarrow> list_all (\<lambda>c. c) (validation_checks b r s e v c m)"
  by (rule failure_bits_zero) (simp add: length_validation_checks length_FAILURE_NAMES)

section \<open>The checkpoint\<close>

lemma run_startup_stores:
  "run (startup_stores fs) s = ((), s\<lparr>ps_startup := fold (\<lambda>f. f) fs (ps_startup s)\<rparr>)"
  by (induction fs arbitrary: s) (simp_all add: startup_store_def prog_defs)

lemma fold_checkpoint_writes:
  "fold (\<lambda>f. f) (checkpoint_writes s e n) u = u\<lparr>su_checkpoint := s, su_entry := e, su_failures := n\<rparr>"
  by (simp add: checkpoint_writes_def)

lemma run_publish_checkpoint:
  "run (publish_checkpoint s e n) u = ((), u\<lparr>ps_startup := (ps_startup u)\<lparr>su_checkpoint := s, su_entry := e, su_failures := n\<rparr>\<rparr>)"
  by (simp add: publish_checkpoint_def run_startup_stores fold_checkpoint_writes)

end
