(* ===== verification/Secondary_Boot.thy ===== *)
theory Secondary_Boot
  imports Startup_Publication Secondary_Validation
begin

text \<open>
  The boot policy of the secondary CPUs (\<open>tvisor_util/secondary_boot.rs\<close>): the one-shot
  status word, the checks of a parked CPU, the bounded wait and the authorization of the
  guest. The closures a caller passes (the elapsed time, the fatal flag) are programs.
\<close>

datatype boot_status = Idle | Preparing | Releasing | Ready | PreparationFailed | ReleaseFailed | WaitFailed

datatype boot_error = AlreadyAttempted | BadTransition | InvalidCheckpoint | Fatal | Preparation string
  | Release publication_error | Wait wait_error | Readback

primrec status_code :: "boot_status \<Rightarrow> u64" where
  "status_code Idle = 0"
| "status_code Preparing = 1"
| "status_code Releasing = 2"
| "status_code Ready = 3"
| "status_code PreparationFailed = 4"
| "status_code ReleaseFailed = 5"
| "status_code WaitFailed = 6"

definition decode_status :: "u64 \<Rightarrow> (boot_status, 'e) outcome" where
  "decode_status w = (if w = 0 then Ok Idle else if w = 1 then Ok Preparing else if w = 2 then Ok Releasing else if w = 3 then Ok Ready
     else if w = 4 then Ok PreparationFailed else if w = 5 then Ok ReleaseFailed else if w = 6 then Ok WaitFailed else Panic)"

definition boot_status :: "(u64, (boot_status, 'e) outcome) prog" where
  "boot_status = aload decode_status"

definition status_cas :: "boot_status \<Rightarrow> boot_status \<Rightarrow> (u64, bool) prog" where
  "status_cas old new = acas (\<lambda>s. s) (\<lambda>v _. v) (status_code old) (status_code new)"

definition begin_boot_once :: "(u64, (unit, boot_error) outcome) prog" where
  "begin_boot_once = pbind (status_cas Idle Preparing) (cas_or AlreadyAttempted)"

definition begin_release :: "(u64, (unit, boot_error) outcome) prog" where
  "begin_release = pbind (status_cas Preparing Releasing) (cas_or BadTransition)"

fun final_status :: "boot_status \<Rightarrow> (unit, boot_error) outcome \<Rightarrow> boot_status option" where
  "final_status Releasing (Ok _) = Some Ready"
| "final_status Preparing _ = Some PreparationFailed"
| "final_status Releasing (Err (Wait _)) = Some WaitFailed"
| "final_status Releasing (Err InvalidCheckpoint) = Some WaitFailed"
| "final_status Releasing (Err Fatal) = Some WaitFailed"
| "final_status Releasing (Err Readback) = Some WaitFailed"
| "final_status Releasing (Err _) = Some ReleaseFailed"
| "final_status _ _ = None"

definition finalize_boot :: "(unit, boot_error) outcome \<Rightarrow> (u64, (unit, boot_error) outcome) prog" where
  "finalize_boot result =
     pthen boot_status (\<lambda>old. case final_status old result of
         None \<Rightarrow> Ret (Err BadTransition)
       | Some new \<Rightarrow> pthen (pbind (status_cas old new) (cas_or BadTransition)) (\<lambda>_.
           Ret (if new = Ready then Ok () else case result of Err e \<Rightarrow> Err e | _ \<Rightarrow> Err BadTransition)))"

definition verify_checkpoint :: "startup_view \<Rightarrow> nat \<Rightarrow> u64 \<Rightarrow> (pcpu_slot, (unit, boot_error) outcome) prog" where
  "verify_checkpoint record i generation =
     (if i = 0 \<or> MAX_CPUS \<le> i \<or> ci_logical_id (sv_identity record) \<noteq> word_of_nat i \<or>
         ci_context (sv_identity record) \<noteq> sv_slot_address record \<or> generation = 0 \<or> sv_generation record \<noteq> generation
      then Ret (Err InvalidCheckpoint)
      else pthen (pbind (on_mailbox (has_parked generation)) (\<lambda>r. Ret (map_err (\<lambda>_. InvalidCheckpoint) r))) (\<lambda>parked.
        if \<not> parked then Ret (Err InvalidCheckpoint)
        else pbind (aload (\<lambda>s. su_failures (ps_startup s))) (\<lambda>failures.
          Ret (if failures \<noteq> 0 then Err InvalidCheckpoint else Ok ()))))"

text \<open>
  \<open>records\<close> is a lazy iterator: an element is the program that produces it when the loop
  asks for it, together with the slot its view refers to.
\<close>

type_synonym record_source = "(boot_sys, ((nat \<times> nat \<times> startup_view) option, boot_error) outcome) prog"

fun verify_records :: "u64 \<Rightarrow> u64 \<Rightarrow> u64 \<Rightarrow> record_source list \<Rightarrow> (boot_sys, (unit, boot_error) outcome) prog" where
  "verify_records required generation seen [] = Ret (if seen \<noteq> required then Err InvalidCheckpoint else Ok ())"
| "verify_records required generation seen (p # ps) =
     pthen p (\<lambda>x. case x of
         None \<Rightarrow> verify_records required generation seen ps
       | Some (i, slot, record) \<Rightarrow>
           pthen (on_slot slot (verify_checkpoint record i generation)) (\<lambda>_.
           if required AND push_bit i 1 = 0 \<or> seen AND push_bit i 1 \<noteq> 0 then Ret (Err InvalidCheckpoint)
           else verify_records required generation (seen OR push_bit i 1) ps))"

definition verify_all_parked ::
  "u64 \<Rightarrow> u64 \<Rightarrow> record_source list \<Rightarrow> bool \<Rightarrow> (boot_sys, (unit, boot_error) outcome) prog" where
  "verify_all_parked required generation records fatal =
     pthen (on_boot boot_status) (\<lambda>st.
     if st \<noteq> Releasing then Ret (Err BadTransition)
     else if fatal then Ret (Err Fatal)
     else if required = 0 \<or> required AND 1 \<noteq> 0 \<or> drop_bit MAX_CPUS required \<noteq> 0 then Ret (Err InvalidCheckpoint)
     else verify_records required generation 0 records)"

text \<open>The mailbox wait with a counter closure that has its own captured state \<open>c\<close>.\<close>

fun poll_loop ::
  "('s, (cpu_state, wait_error) outcome) prog \<Rightarrow> ('c \<Rightarrow> ('s, u64 \<times> 'c) prog) \<Rightarrow> u64 \<Rightarrow> u64 \<Rightarrow> nat \<Rightarrow> 'c \<Rightarrow>
   ('s, (unit, wait_error) outcome \<times> 'c) prog" where
  "poll_loop life counter start ticks 0 c = Ret (Err WPollLimit, c)"
| "poll_loop life counter start ticks (Suc polls) c =
     pbind (counter c) (\<lambda>(now, c).
     if ticks \<le> now - start then Ret (Err WTimeout, c)
     else pbind life (\<lambda>r. case r of
         Panic \<Rightarrow> Ret (Panic, c)
       | Err e \<Rightarrow> Ret (Err e, c)
       | Ok st \<Rightarrow>
           if st = Failed then Ret (Err WCpuFailed, c)
           else if st = Parked then pbind (counter c) (\<lambda>(now, c). Ret (if ticks \<le> now - start then Err WTimeout else Ok (), c))
           else poll_loop life counter start ticks polls c))"

definition wait_mailbox ::
  "nat \<Rightarrow> u64 \<Rightarrow> u64 \<Rightarrow> u64 \<Rightarrow> nat \<Rightarrow> ('c \<Rightarrow> (boot_sys, u64 \<times> 'c) prog) \<Rightarrow> 'c \<Rightarrow>
   (boot_sys, (unit, wait_error) outcome \<times> 'c) prog" where
  "wait_mailbox slot generation start ticks max_polls counter c =
     pbind (on_slot slot (on_mailbox (mb_check generation))) (\<lambda>r. case r of
         Panic \<Rightarrow> Ret (Panic, c)
       | Err _ \<Rightarrow> Ret (Err WInvalidGeneration, c)
       | Ok _ \<Rightarrow> if ticks = 0 \<or> push_bit 63 1 \<le> ticks then Ret (Err WInvalidDeadline, c)
                else poll_loop (on_slot slot (on_mailbox lifecycle)) counter start ticks max_polls c)"

definition has_fatal :: "(boot_sys, bool) prog" where
  "has_fatal = aload bs_fatal"

definition fatal_or_elapsed :: "u64 \<Rightarrow> (boot_sys, u64) prog \<Rightarrow> bool \<Rightarrow> (boot_sys, u64 \<times> bool) prog" where
  "fatal_or_elapsed ticks elapsed saw =
     pbind has_fatal (\<lambda>f. if f then Ret (ticks, True) else pbind elapsed (\<lambda>e. Ret (e, saw)))"

definition wait_for_parked ::
  "nat \<Rightarrow> startup_view \<Rightarrow> nat \<Rightarrow> u64 \<Rightarrow> u64 \<Rightarrow> nat \<Rightarrow> (boot_sys, u64) prog \<Rightarrow> (boot_sys, (unit, boot_error) outcome) prog" where
  "wait_for_parked slot record i generation ticks max_polls elapsed =
     pthen (on_boot boot_status) (\<lambda>st.
     if st \<noteq> Releasing then Ret (Err BadTransition)
     else if i = 0 \<or> MAX_CPUS \<le> i \<or> ci_logical_id (sv_identity record) \<noteq> word_of_nat i \<or> sv_generation record \<noteq> generation
     then Ret (Err InvalidCheckpoint)
     else pbind (wait_mailbox slot generation 0 ticks max_polls (fatal_or_elapsed ticks elapsed) False) (\<lambda>(result, saw_fatal).
       if result = Panic then Ret Panic else
       pbind (if saw_fatal then Ret True else has_fatal) (\<lambda>fatal.
       if fatal then Ret (Err Fatal) else
       pthen (Ret (map_err Wait result)) (\<lambda>_.
       pthen (on_boot boot_status) (\<lambda>st.
       if st \<noteq> Releasing then Ret (Err BadTransition)
       else on_slot slot (verify_checkpoint record i generation))))))"

definition guest_authorized :: "bool \<Rightarrow> (u64, (unit, boot_error) outcome) prog" where
  "guest_authorized fatal = (if fatal then Ret (Err Fatal) else pthen boot_status (\<lambda>st.
     Ret (if st = Ready then Ok () else Err BadTransition)))"

section \<open>The startup deadline\<close>

record startup_deadline =
  sd_ticks :: u64

definition deadline_new :: "u64 \<Rightarrow> u64 \<Rightarrow> startup_deadline option" where
  "deadline_new frequency seconds =
     (if frequency = 0 \<or> 0xffffffff < frequency \<or> seconds = 0 then None
      else case checked_mul frequency seconds of
        None \<Rightarrow> None
      | Some ticks \<Rightarrow> if push_bit 55 1 \<le> ticks then None else Some \<lparr>sd_ticks = ticks\<rparr>)"

definition counter_difference :: "u64 \<Rightarrow> u64 \<Rightarrow> u64" where
  "counter_difference start now = (now - start) AND (push_bit 56 1 - 1)"

definition deadline_elapsed :: "startup_deadline \<Rightarrow> u64 \<Rightarrow> u64 \<Rightarrow> u64" where
  "deadline_elapsed d start now = counter_difference start now"

definition counter_progresses :: "u64 \<Rightarrow> u64 \<Rightarrow> bool" where
  "counter_progresses start now \<longleftrightarrow> counter_difference start now \<noteq> 0 \<and> counter_difference start now < push_bit 55 1"

lemma status_code_inj [simp]: "status_code a = status_code b \<longleftrightarrow> a = b"
  by (cases a; cases b) simp_all

lemma decode_status_code [simp]: "decode_status (status_code st) = Ok st"
  by (cases st) (simp_all add: decode_status_def)

declare status_code.simps [simp del]

text \<open>On the mailbox alone and with a counter that ignores the state, the wait is the one of \<open>Secondary_Mailbox\<close>.\<close>

lemma pbind_assoc: "pbind (pbind p f) g = pbind p (\<lambda>x. pbind (f x) g)"
proof (induction p)
  case (Atom h)
  have "pbind (pbind (snd (h s)) f) g = pbind (snd (h s)) (\<lambda>x. pbind (f x) g)" for s
  proof -
    have "snd (h s) \<in> Basic_BNFs.snds (h s)" by (cases "h s") simp
    then show ?thesis using Atom by blast
  qed
  then show ?case by simp
qed simp

lemma poll_loop_is_wait_loop:
  "pbind (poll_loop lifecycle (\<lambda>k. Ret (counter k, Suc k)) start ticks polls k) (\<lambda>(r, _). Ret r) = wait_loop counter start ticks polls k"
proof (induction polls arbitrary: k)
  case (Suc polls)
  let ?next = "\<lambda>r. case r of Panic \<Rightarrow> Ret (Panic, Suc k) | Err e \<Rightarrow> Ret (Err e, Suc k)
     | Ok st \<Rightarrow> if st = Failed then Ret (Err WCpuFailed, Suc k)
         else if st = Parked then pbind (Ret (counter (Suc k), Suc (Suc k))) (\<lambda>(now, c). Ret (if ticks \<le> now - start then Err WTimeout else Ok (), c))
         else poll_loop lifecycle (\<lambda>k. Ret (counter k, Suc k)) start ticks polls (Suc k)"
  have "pbind (pbind lifecycle ?next) (\<lambda>(r, _). Ret r) =
     pthen lifecycle (\<lambda>st. case st of
          Failed \<Rightarrow> Ret (Err WCpuFailed)
        | Parked \<Rightarrow> Ret (if ticks \<le> counter (k + 1) - start then Err WTimeout else Ok ())
        | _ \<Rightarrow> wait_loop counter start ticks polls (k + 1))"
    unfolding pthen_def pbind_assoc
    by (rule arg_cong [where f = "pbind lifecycle"]) (auto simp: fun_eq_iff Suc split: outcome.splits cpu_state.splits)
  then show ?case unfolding poll_loop.simps wait_loop.simps pbind.simps(1) prod.case
    by (cases "ticks \<le> counter k - start") (simp_all only: if_True if_False pbind.simps(1) prod.case)
qed simp

end
