(* ===== verification/Boot_Protocol.thy ===== *)
theory Boot_Protocol
  imports Secondary_Boot
begin

text \<open>
  The protocol of a start: which CPU may change which part of the shared state and when.
  On top of the protocols of the slot and of its mailbox, the diagnostic words of a slot
  belong to the CPU that holds its entry claim and a CPU parks only with no failure recorded;
  CPU 0 alone moves the boot status, edits the tables and drives the release hardware.
\<close>

section \<open>One slot\<close>

abbreviation failures_of :: "pcpu_slot \<Rightarrow> u64" where
  "failures_of s \<equiv> su_failures (ps_startup s)"

definition rec_guar :: "nat \<Rightarrow> pcpu_slot \<Rightarrow> pcpu_slot \<Rightarrow> bool" where
  "rec_guar cpu s s' \<longleftrightarrow>
     (failures_of s' \<noteq> failures_of s \<longrightarrow> mb_held cpu (ps_mailbox s) \<and> ps_mailbox s' = ps_mailbox s) \<and>
     (mb_state (ps_mailbox s) = state_code Starting \<and> mb_state (ps_mailbox s') = state_code Parked \<longrightarrow> failures_of s = 0)"

definition sl_guar :: "nat \<Rightarrow> nat \<Rightarrow> pcpu_slot \<Rightarrow> pcpu_slot \<Rightarrow> bool" where
  "sl_guar i cpu s s' \<longleftrightarrow> ps_guar cpu s s' \<and> mb_guar i cpu (ps_mailbox s) (ps_mailbox s') \<and> rec_guar cpu s s'"

definition sl_inv :: "pcpu_slot \<Rightarrow> bool" where
  "sl_inv s \<longleftrightarrow> ps_inv s \<and> mb_inv (ps_mailbox s) \<and> (mb_past {Parked, Online} (ps_mailbox s) \<longrightarrow> failures_of s = 0)"

text \<open>A CPU that finished its entry with no failure recorded; the record is closed from then on.\<close>

definition passed :: "pcpu_slot \<Rightarrow> bool" where
  "passed s \<longleftrightarrow> mb_past {Parked, Online, Failed} (ps_mailbox s) \<and> failures_of s = 0"

lemma rec_guar_refl [simp]: "rec_guar cpu s s"
  by (auto simp: rec_guar_def)

lemma sl_guar_refl [simp]: "sl_guar i cpu s s"
  by (simp add: sl_guar_def ps_skip)

lemma passed_guar:
  assumes "sl_guar i cpu s s'" and "passed s"
  shows "passed s'"
proof -
  have "\<not> mb_held cpu (ps_mailbox s)" using assms(2) by (auto simp: passed_def mb_held_def mb_past_def)
  then have "failures_of s' = failures_of s" using assms(1) by (auto simp: sl_guar_def rec_guar_def)
  then show ?thesis using assms mb_finished_guar [of "ps_mailbox s" i cpu] by (auto simp: passed_def sl_guar_def)
qed

lemma sl_guar_inv:
  assumes "sl_guar i cpu s s'" and "sl_inv s"
  shows "sl_inv s'"
proof -
  have "failures_of s' = 0" if p: "mb_past {Parked, Online} (ps_mailbox s')"
  proof (cases "mb_past {Parked, Online} (ps_mailbox s)")
    case True
    then have "passed s" using assms(2) by (auto simp: passed_def sl_inv_def mb_past_def)
    from passed_guar [OF assms(1) this] show ?thesis by (simp add: passed_def)
  next
    case False
    have "mb_state (ps_mailbox s) = state_code Starting \<and> mb_state (ps_mailbox s') = state_code Parked"
      using assms(1) False p by (auto simp: sl_guar_def mb_guar_def mb_past_def mb_edge_def)
    then show ?thesis using assms(1) by (auto simp: sl_guar_def rec_guar_def)
  qed
  then show ?thesis using assms ps_guar_inv mb_guar_inv unfolding sl_inv_def sl_guar_def by blast
qed

abbreviation sl_rely :: "nat \<Rightarrow> nat \<Rightarrow> pcpu_slot \<Rightarrow> pcpu_slot \<Rightarrow> bool" where
  "sl_rely i cpu \<equiv> (\<lambda>s s'. \<exists>j. j \<noteq> cpu \<and> sl_guar i j s s')"

abbreviation sl_safe :: "nat \<Rightarrow> nat \<Rightarrow> (pcpu_slot \<Rightarrow> bool) \<Rightarrow> (pcpu_slot, 'a) prog \<Rightarrow> ('a \<Rightarrow> pcpu_slot \<Rightarrow> bool) \<Rightarrow> bool" where
  "sl_safe i cpu \<equiv> safe sl_inv (sl_rely i cpu) (sl_guar i cpu)"

abbreviation sl_stable :: "nat \<Rightarrow> nat \<Rightarrow> (pcpu_slot \<Rightarrow> bool) \<Rightarrow> bool" where
  "sl_stable i cpu \<equiv> stable_under sl_inv (sl_rely i cpu)"

lemma passed_stable [simp]: "sl_stable i cpu passed"
  using passed_guar unfolding stable_under_def by blast

lemma sl_stable_ps: "ps_stable cpu P \<Longrightarrow> sl_stable i cpu P"
  unfolding stable_under_def sl_inv_def sl_guar_def by blast

lemma sl_stable_mb: "mb_stable i cpu P \<Longrightarrow> sl_stable i cpu (\<lambda>s. P (ps_mailbox s))"
  unfolding stable_under_def sl_inv_def sl_guar_def by blast

text \<open>The holder of the entry claim, and what it has recorded.\<close>

definition holding :: "u64 \<Rightarrow> nat \<Rightarrow> (u64 \<Rightarrow> bool) \<Rightarrow> pcpu_slot \<Rightarrow> bool" where
  "holding g cpu Q s \<longleftrightarrow> mb_gen g (ps_mailbox s) \<and> mb_held cpu (ps_mailbox s) \<and> Q (failures_of s)"

lemma holding_stable [simp]: "sl_stable i cpu (holding g cpu Q)"
proof -
  have "holding g cpu Q s'" if s: "sl_inv s" "holding g cpu Q s" "j \<noteq> cpu" "sl_guar i j s s'" for s s' j
  proof -
    have m: "mb_inv (ps_mailbox s)" "mb_guar i j (ps_mailbox s) (ps_mailbox s')" using s by (auto simp: sl_inv_def sl_guar_def)
    have "mb_gen g (ps_mailbox s')" using mb_gen_guar m(2) s(2) by (auto simp: holding_def)
    moreover have "mb_held cpu (ps_mailbox s')"
      using mb_held_stable [where owner = i and cpu = cpu] m s(2,3) unfolding stable_under_def holding_def by blast
    moreover have "\<not> mb_held j (ps_mailbox s)" using s by (auto simp: holding_def mb_held_def)
    ultimately show ?thesis using s by (auto simp: holding_def sl_guar_def rec_guar_def)
  qed
  then show ?thesis unfolding stable_under_def by blast
qed

section \<open>Programs on a slot\<close>

text \<open>A read-only program checked against the slot protocol.\<close>

lemma sl_reads:
  assumes "ps_safe cpu P p post" and "reads n p"
  shows "sl_safe i cpu P p post"
proof -
  have "safe sl_inv (sl_rely i cpu) (ps_guar cpu) P p post"
    by (rule safe_mono [OF assms(1)]) (auto simp: sl_inv_def sl_guar_def)
  from safe_conj [OF this reads_equal [OF assms(2)]]
  have "safe sl_inv (sl_rely i cpu) (\<lambda>s s'. ps_guar cpu s s' \<and> s' = s) (\<lambda>s. P s \<and> True) p (\<lambda>a s. post a s \<and> True)" .
  from safe_mono [OF this, where I' = sl_inv and R' = "sl_rely i cpu" and G' = "sl_guar i cpu"] show ?thesis by simp
qed

text \<open>Mailbox operations: the one that parks is separate.\<close>

definition no_park :: "mailbox \<Rightarrow> mailbox \<Rightarrow> bool" where
  "no_park m m' \<longleftrightarrow> \<not> (mb_state m = state_code Starting \<and> mb_state m' = state_code Parked)"

abbreviation tame :: "(mailbox, 'a) prog \<Rightarrow> bool" where
  "tame p \<equiv> safe (\<lambda>_. True) (\<lambda>_ _. True) no_park (\<lambda>_. True) p (\<lambda>_ _. True)"

lemma tame_armw: "(\<And>m. no_park m (fst (f m))) \<Longrightarrow> tame (armw f)"
  by (rule safe_armw) auto

lemma tame_aload [simp]: "tame (aload get)"
  unfolding aload_armw by (rule tame_armw) (auto simp: no_park_def)

lemma tame_pbind: "tame p \<Longrightarrow> (\<And>a. tame (k a)) \<Longrightarrow> tame (pbind p k)"
  by (rule safe_pbind)

lemma tame_pthen: "tame p \<Longrightarrow> (\<And>a. tame (k a)) \<Longrightarrow> tame (pthen p k)"
  by (rule safe_pthen) auto

lemma tame_check [simp]: "tame (mb_check g)" "tame (mb_lifecycle_of g)" "tame (observe_ready g)" "tame lifecycle"
  by (auto simp: mb_check_def mb_lifecycle_of_def observe_ready_def lifecycle_def intro!: tame_pbind tame_pthen safe_if)

lemma tame_transition: "(a, b) \<noteq> (Starting, Parked) \<Longrightarrow> tame (transition g a b)"
  unfolding transition_def state_cas_def acas_def
  by (auto simp: cas_or_def no_park_def intro!: tame_pthen tame_pbind tame_armw split: if_splits)

lemma tame_operations:
  "tame (mb_publish g)" "tame (begin_start g)" "tame (claim_entry cpu g)" "tame (claim_fail c)" "tame (has_parked g)"
  "tame (management_online g)" "tame (management_park g)" "tame (management_failed g)"
proof -
  have cas: "tame (acas mb_ready (\<lambda>v. mb_ready_update (\<lambda>_. v)) 0 g)" "tame (claim_cas cpu)"
    unfolding acas_def claim_cas_def by (rule tame_armw; simp add: no_park_def)+
  show "tame (mb_publish g)" "tame (claim_entry cpu g)"
    by (auto simp: mb_publish_def claim_entry_def cas_or_def intro!: tame_pthen tame_pbind safe_if cas)
  show "tame (management_failed g)"
    unfolding management_failed_def by (rule tame_pthen) (auto intro: tame_transition split: cpu_state.split)
  show "tame (has_parked g)" unfolding has_parked_def by (auto intro!: tame_pbind)
  show "tame (begin_start g)" "tame (claim_fail c)" "tame (management_online g)" "tame (management_park g)"
    by (simp_all add: begin_start_def claim_fail_def management_online_def management_park_def tame_transition)
qed

lemma sl_mailbox_parts:
  assumes "mb_safe i cpu P p post" and "quiet p" and "safe sl_inv (sl_rely i cpu) (rec_guar cpu) K (on_mailbox p) post'"
  shows "sl_safe i cpu (\<lambda>s. P (ps_mailbox s) \<and> K s) (on_mailbox p) (\<lambda>a s. post a (ps_mailbox s) \<and> post' a s)"
proof -
  have A: "safe sl_inv (sl_rely i cpu) (ps_guar cpu) (\<lambda>_. True) (on_mailbox p) (\<lambda>_ _. True)"
    by (rule safe_mono [OF quiet_lift [OF assms(2) stable_under_True]]) (auto simp: sl_inv_def sl_guar_def)
  have B: "safe sl_inv (sl_rely i cpu) (\<lambda>s s'. mb_guar i cpu (ps_mailbox s) (ps_mailbox s')) (\<lambda>s. P (ps_mailbox s)) (on_mailbox p)
      (\<lambda>a s. post a (ps_mailbox s))"
    by (rule safe_plift [OF assms(1)]) (auto simp: sl_inv_def sl_guar_def)
  from safe_mono [OF safe_conj [OF A safe_conj [OF B assms(3)]], where I' = sl_inv and R' = "sl_rely i cpu" and G' = "sl_guar i cpu"]
  show ?thesis by (simp add: sl_guar_def)
qed

lemma sl_mailbox:
  assumes "mb_safe i cpu P p post" and "quiet p" and "tame p"
  shows "sl_safe i cpu (\<lambda>s. P (ps_mailbox s)) (on_mailbox p) (\<lambda>a s. post a (ps_mailbox s))"
proof -
  have C: "safe sl_inv (sl_rely i cpu) (rec_guar cpu) (\<lambda>_. True) (on_mailbox p) (\<lambda>_ _. True)"
    by (rule safe_plift [OF assms(3)]) (auto simp: rec_guar_def no_park_def ps_set_mailbox_def ps_mailbox_def)
  from sl_mailbox_parts [OF assms(1,2) C] show ?thesis by simp
qed

lemma quiet_has_parked: "quiet (has_parked g)"
  unfolding has_parked_def by (auto intro!: quiet_pbind)

lemma has_parked_safe: "mb_safe i cpu (\<lambda>_. True) (has_parked g) (\<lambda>r s. \<exists>b. r = Ok b \<and> (b \<longrightarrow> mb_past finished s))"
  unfolding has_parked_def
  by (rule safe_pbind [OF lifecycle_of_safe [where P = "\<lambda>_. True" and S = UNIV]])
    (auto intro!: safe_Ret simp: mb_known_def split: outcome.splits)

lemma verify_checkpoint_safe:
  "sl_safe i cpu (\<lambda>_. True) (verify_checkpoint record k g) (\<lambda>r s. r \<noteq> Panic \<and> (r = Ok () \<longrightarrow> passed s \<and> k < MAX_CPUS))"
proof -
  have fin: "sl_stable i cpu (\<lambda>s. mb_past finished (ps_mailbox s))" by (rule sl_stable_mb) simp
  have "sl_safe i cpu (\<lambda>_. True) (on_mailbox (has_parked g)) (\<lambda>r s. \<exists>b. r = Ok b \<and> (b \<longrightarrow> mb_past finished (ps_mailbox s)))"
    by (rule sl_mailbox [OF has_parked_safe quiet_has_parked tame_operations(5)])
  then have parked: "sl_safe i cpu (\<lambda>_. True) (pbind (on_mailbox (has_parked g)) (\<lambda>r. Ret (map_err (\<lambda>_. InvalidCheckpoint) r)))
      (\<lambda>r s. \<exists>b. r = Ok b \<and> (b \<longrightarrow> mb_past finished (ps_mailbox s)))"
    by (rule safe_pbind) (auto intro!: safe_Ret simp: outcome_simps)
  have load: "sl_safe i cpu (\<lambda>s. mb_past finished (ps_mailbox s)) (aload failures_of) (\<lambda>n s. n = 0 \<longrightarrow> passed s)"
  proof (rule safe_aload)
    show "sl_stable i cpu (\<lambda>s. n = 0 \<longrightarrow> passed s)" for n :: u64 by (cases "n = 0") simp_all
  qed (auto simp: passed_def)
  have after: "sl_safe i cpu (\<lambda>s. \<exists>b. Ok parked = Ok b \<and> (b \<longrightarrow> mb_past finished (ps_mailbox s)))
      (if \<not> parked then Ret (Err InvalidCheckpoint)
       else pbind (aload failures_of) (\<lambda>failures. Ret (if failures \<noteq> 0 then Err InvalidCheckpoint else Ok ())))
      (\<lambda>r s. r \<noteq> Panic \<and> (r = Ok () \<longrightarrow> passed s))" for parked
    by (auto intro!: safe_Ret safe_pbind [OF safe_weaken [OF load]] split: if_splits)
  have "sl_safe i cpu (\<lambda>_. True) (verify_checkpoint record k g) (\<lambda>r s. r \<noteq> Panic \<and> (r = Ok () \<longrightarrow> passed s))" if "k < MAX_CPUS"
    unfolding verify_checkpoint_def by (rule safe_if, rule safe_Ret, simp, rule safe_pthen [OF parked after]) auto
  then show ?thesis by (cases "k < MAX_CPUS") (auto simp: verify_checkpoint_def intro: safe_Ret)
qed

lemma claim_entry_slot:
  "sl_safe i cpu (\<lambda>_. True) (on_mailbox (claim_entry cpu g))
     (\<lambda>r s. r \<noteq> Panic \<and> (\<forall>c. r = Ok c \<longrightarrow> claim_generation c = g \<and> holding g cpu (\<lambda>_. True) s))"
  unfolding holding_def using sl_mailbox [OF claim_entry_safe quiet_operations(3) tame_operations(3)] by simp

lemma startup_store_safe:
  assumes "\<And>u. su_mailbox (f u) = su_mailbox u" and "\<And>u. Q (su_failures u) \<Longrightarrow> Q' (su_failures (f u))"
  shows "sl_safe i cpu (holding g cpu Q) (startup_store f) (\<lambda>_. holding g cpu Q')"
  unfolding startup_store_def astore_armw
proof (rule safe_armw [OF _ _ holding_stable sl_guar_inv])
  fix s assume s: "sl_inv s" "holding g cpu Q s"
  have m: "ps_mailbox (s\<lparr>ps_startup := f (ps_startup s)\<rparr>) = ps_mailbox s" using assms(1) by (simp add: ps_mailbox_def)
  have "f (ps_startup s) = (ps_startup s)\<lparr>su_checkpoint := su_checkpoint (f (ps_startup s)), su_entry := su_entry (f (ps_startup s)),
      su_failures := su_failures (f (ps_startup s))\<rparr>" using assms(1) [of "ps_startup s"] by simp
  then have "ps_guar cpu s (s\<lparr>ps_startup := f (ps_startup s)\<rparr>)" using ps_record by metis
  then show "sl_guar i cpu s (fst (s\<lparr>ps_startup := f (ps_startup s)\<rparr>, ()))"
    using s(2) m by (auto simp: sl_guar_def rec_guar_def holding_def mb_held_def)
  show "holding g cpu Q' (fst (s\<lparr>ps_startup := f (ps_startup s)\<rparr>, ()))" using s(2) m assms(2) by (simp add: holding_def)
qed auto

lemma startup_stores_safe:
  assumes "\<And>f u. f \<in> set fs \<Longrightarrow> su_mailbox (f u) = su_mailbox u"
  shows "sl_safe i cpu (holding g cpu (\<lambda>_. True)) (startup_stores fs) (\<lambda>_. holding g cpu (\<lambda>_. True))"
  using assms
proof (induction fs)
  case (Cons f fs)
  then show ?case unfolding startup_stores.simps by (intro safe_pbind [OF startup_store_safe [where Q' = "\<lambda>_. True"]]) auto
qed (auto intro: safe_Ret)

lemma startup_stores_append: "startup_stores (fs @ [f]) = pbind (startup_stores fs) (\<lambda>_. startup_store f)"
proof -
  have "pbind p (\<lambda>_. Ret ()) = p" for p :: "(pcpu_slot, unit) prog"
  proof (induction p)
    case (Atom h)
    have "pbind (snd (h s)) (\<lambda>_. Ret ()) = snd (h s)" for s
    proof -
      have "snd (h s) \<in> Basic_BNFs.snds (h s)" by (cases "h s") simp
      then show ?thesis using Atom [of "h s"] by simp
    qed
    then show ?case by simp
  qed simp
  then show ?thesis by (induction fs) (simp_all add: pbind_assoc)
qed

lemma publish_checkpoint_safe:
  "sl_safe i cpu (holding g cpu (\<lambda>_. True)) (publish_checkpoint s e n) (\<lambda>_. holding g cpu (\<lambda>f. f = n))"
proof -
  define fs where "fs = butlast (checkpoint_writes s e n)"
  have split: "checkpoint_writes s e n = fs @ [su_failures_update (\<lambda>_. n)]" by (simp add: fs_def checkpoint_writes_def)
  have keep: "sl_safe i cpu (holding g cpu (\<lambda>_. True)) (startup_stores fs) (\<lambda>_. holding g cpu (\<lambda>_. True))"
    by (rule startup_stores_safe) (auto simp: fs_def checkpoint_writes_def)
  have last: "sl_safe i cpu (holding g cpu (\<lambda>_. True)) (startup_store (su_failures_update (\<lambda>_. n))) (\<lambda>_. holding g cpu (\<lambda>f. f = n))"
    by (rule startup_store_safe) auto
  show ?thesis
    unfolding publish_checkpoint_def split startup_stores_append by (rule safe_pbind [OF keep last])
qed

text \<open>Finishing an entry.\<close>

lemma claim_fail_slot:
  assumes "claim_generation c = g"
  shows "sl_safe i cpu (holding g cpu Q) (on_mailbox (claim_fail c)) (\<lambda>r s. r = Ok ())"
proof -
  have "sl_safe i cpu (\<lambda>s. mb_gen g (ps_mailbox s) \<and> mb_held cpu (ps_mailbox s)) (on_mailbox (transition g Starting Failed))
      (\<lambda>r s. r = Ok () \<and> mb_gen g (ps_mailbox s) \<and> mb_past finished (ps_mailbox s) \<and> (Failed = Failed \<longrightarrow> mb_past {Failed} (ps_mailbox s)))"
    by (rule sl_mailbox [OF claim_finish_safe]) (auto intro: quiet_transition tame_transition)
  then show ?thesis unfolding claim_fail_def assms by (elim safe_weaken [OF safe_post]) (auto simp: holding_def)
qed

lemma claim_park_slot:
  assumes "claim_generation c = g"
  shows "sl_safe i cpu (holding g cpu (\<lambda>n. n = 0)) (on_mailbox (claim_park c)) (\<lambda>r s. r = Ok () \<and> passed s)"
proof -
  let ?K = "\<lambda>s. mb_winner (ps_mailbox s) = Some cpu \<and> failures_of s = 0"
  have win: "safe (\<lambda>_. True) (\<lambda>_ _. True) (\<lambda>m m'. mb_winner m' = mb_winner m) (\<lambda>_. True) (transition g Starting Parked) (\<lambda>_ _. True)"
    unfolding transition_def mb_check_def observe_ready_def state_cas_def acas_def cas_or_def
    by (auto intro!: safe_pthen [where mid = "\<lambda>_ _. True"] safe_pbind [where mid = "\<lambda>_ _. True"] safe_if safe_armw safe_aload)
  have stable: "sl_stable i cpu ?K"
  proof -
    have "?K s'" if "sl_inv s" "?K s" "j \<noteq> cpu" "sl_guar i j s s'" for s s' j
      using that mb_winner_guar [of "ps_mailbox s" cpu i j "ps_mailbox s'"] by (auto simp: sl_inv_def sl_guar_def rec_guar_def mb_held_def)
    then show ?thesis unfolding stable_under_def by blast
  qed
  have C: "safe sl_inv (sl_rely i cpu) (rec_guar cpu) ?K (on_mailbox (transition g Starting Parked)) (\<lambda>_. ?K)"
    by (rule safe_plift_keep [OF win _ _ _ _ stable]) (auto simp: rec_guar_def ps_set_mailbox_def ps_mailbox_def)
  have q: "quiet (transition g Starting Parked)" by (rule quiet_transition) simp_all
  show ?thesis
    unfolding claim_park_def assms
    by (rule safe_weaken [OF safe_post [OF sl_mailbox_parts [OF claim_finish_safe q C]]])
      (auto simp: passed_def holding_def mb_held_def mb_past_def)
qed

section \<open>The whole start\<close>

text \<open>What a start is about: the CPUs, the required set, the entry point, the cache line and the slot array.\<close>

record boot_facts =
  bf_cpus :: "cpu_descriptor list"
  bf_required :: u64
  bf_entry :: u64
  bf_line :: u64
  bf_slots :: u64

definition resources_of :: "u64 \<Rightarrow> nat \<Rightarrow> startup_resources \<Rightarrow> pcpu_slot \<Rightarrow> bool" where
  "resources_of base i r s \<longleftrightarrow> region_start (sr_context r) = slot_address base i \<and>
     prepared_as (\<lambda>(k, f, bottom, top). k = word_of_nat i \<and> bottom = sl_bottom (sr_stack r) \<and> top = sl_top (sr_stack r)) s"

definition startup_bytes :: "startup_resources \<Rightarrow> u64 set" where
  "startup_bytes r = regions_addrs (shared_regions r) \<union> {x. sl_bottom (sr_stack r) \<le> x \<and> x < sl_top (sr_stack r)}"

text \<open>
  The state after preparation: the tables are frozen, and every required CPU has resources
  that are its own, validated against those tables and cleaned before a completed barrier.
\<close>

definition published_at :: "boot_facts \<Rightarrow> hw_event list \<Rightarrow> boot_sys \<Rightarrow> bool" where
  "published_at fx tr s \<longleftrightarrow> (\<exists>bt. bs_tables s = Some bt \<and> bt_frozen bt \<and>
     (\<forall>i. bit (bf_required fx) i \<longrightarrow> (\<exists>r. validate_resources (bt_tables bt) r = Ok () \<and> resources_of (bf_slots fx) i r (bs_slots s i) \<and>
        (\<forall>x \<in> startup_bytes r. cleaned tr (line_of (bf_line fx) x)))))"

abbreviation boot_trace :: "boot_sys \<Rightarrow> hw_event list" where
  "boot_trace s \<equiv> hw_trace (bs_hw s)"

definition store_ok :: "boot_facts \<Rightarrow> u64 \<Rightarrow> u64 \<Rightarrow> bool" where
  "store_ok fx c v \<longleftrightarrow> v = bf_entry fx \<and>
     (\<exists>i contract. bit (bf_required fx) i \<and> validate_spin_table_release (bf_cpus fx) i contract = Ok c)"

definition all_passed :: "boot_facts \<Rightarrow> boot_sys \<Rightarrow> bool" where
  "all_passed fx s \<longleftrightarrow> (\<forall>i. bit (bf_required fx) i \<longrightarrow> passed (bs_slots s i))"

inductive boot_guar :: "boot_facts \<Rightarrow> nat \<Rightarrow> boot_sys \<Rightarrow> boot_sys \<Rightarrow> bool" for fx cpu where
  bg_skip: "boot_guar fx cpu s s"
| bg_slot: "sl_guar i cpu (bs_slots s i) x \<Longrightarrow> boot_guar fx cpu s (s\<lparr>bs_slots := (bs_slots s)(i := x)\<rparr>)"
| bg_config: "hs_guar cpu (bs_config s) c \<Longrightarrow> boot_guar fx cpu s (s\<lparr>bs_config := c\<rparr>)"
| bg_fatal: "boot_guar fx cpu s (s\<lparr>bs_fatal := True\<rparr>)"
| bg_begin: "cpu = 0 \<Longrightarrow> bs_state s = status_code Idle \<Longrightarrow> boot_guar fx cpu s (s\<lparr>bs_state := status_code Preparing\<rparr>)"
| bg_release: "cpu = 0 \<Longrightarrow> bs_state s = status_code Preparing \<Longrightarrow> published_at fx (boot_trace s) s \<Longrightarrow>
    boot_guar fx cpu s (s\<lparr>bs_state := status_code Releasing\<rparr>)"
| bg_unprepared: "cpu = 0 \<Longrightarrow> bs_state s = status_code Preparing \<Longrightarrow> boot_guar fx cpu s (s\<lparr>bs_state := status_code PreparationFailed\<rparr>)"
| bg_failed: "cpu = 0 \<Longrightarrow> bs_state s = status_code Releasing \<Longrightarrow> st \<in> {ReleaseFailed, WaitFailed} \<Longrightarrow>
    boot_guar fx cpu s (s\<lparr>bs_state := status_code st\<rparr>)"
| bg_ready: "cpu = 0 \<Longrightarrow> bs_state s = status_code Releasing \<Longrightarrow> all_passed fx s \<Longrightarrow>
    boot_guar fx cpu s (s\<lparr>bs_state := status_code Ready\<rparr>)"
| bg_attempt: "cpu = 0 \<Longrightarrow> bs_state s = status_code Releasing \<Longrightarrow> boot_guar fx cpu s (s\<lparr>bs_attempted := n\<rparr>)"
| bg_tables: "cpu = 0 \<Longrightarrow> (\<forall>bt. bs_tables s = Some bt \<longrightarrow> \<not> bt_frozen bt) \<Longrightarrow> boot_guar fx cpu s (s\<lparr>bs_tables := t\<rparr>)"
| bg_hw: "cpu = 0 \<Longrightarrow> hw_guar (\<lambda>_ c v. bs_state s = status_code Releasing \<and> store_ok fx c v) (bs_hw s) h \<Longrightarrow>
    boot_guar fx cpu s (s\<lparr>bs_hw := h\<rparr>)"

definition boot_inv :: "boot_facts \<Rightarrow> boot_sys \<Rightarrow> bool" where
  "boot_inv fx s \<longleftrightarrow> (\<forall>i. sl_inv (bs_slots s i)) \<and> hs_inv (bs_config s) \<and>
     (\<exists>st. bs_state s = status_code st \<and> (st \<notin> {Idle, Preparing, PreparationFailed} \<longrightarrow> published_at fx (boot_trace s) s) \<and>
        (st = Ready \<longrightarrow> all_passed fx s)) \<and>
     (\<forall>xs c v ys. boot_trace s = xs @ EvStore c v # ys \<longrightarrow> published_at fx xs s \<and> store_ok fx c v)"

lemma published_at_append: "published_at fx tr s \<Longrightarrow> published_at fx (tr @ es) s"
  unfolding published_at_def by (meson cleaned_append)

lemma resources_of_guar: "sl_guar i cpu s s' \<Longrightarrow> resources_of base k r s \<Longrightarrow> resources_of base k r s'"
  unfolding resources_of_def prepared_as_def sl_guar_def using ps_guar_prepared [of cpu s s'] by auto

lemma published_at_guar:
  assumes "boot_guar fx cpu s s'" and "published_at fx tr s"
  shows "published_at fx tr s'"
  using assms(1)
proof cases
  case (bg_slot i x)
  have "resources_of base k r (bs_slots s k) \<Longrightarrow> resources_of base k r (bs_slots s' k)" for base k r
    using resources_of_guar [OF bg_slot(2)] bg_slot(1) by (cases "k = i") auto
  moreover have "bs_tables s' = bs_tables s" using bg_slot(1) by simp
  ultimately show ?thesis using assms(2) unfolding published_at_def by metis
next
  case (bg_tables t)
  then show ?thesis using assms(2) by (auto simp: published_at_def)
qed (use assms(2) in \<open>auto simp: published_at_def\<close>)

lemma all_passed_guar: "boot_guar fx' cpu s s' \<Longrightarrow> all_passed fx s \<Longrightarrow> all_passed fx s'"
  by (erule boot_guar.cases) (auto simp: all_passed_def dest: passed_guar)

lemma boot_guar_trace:
  assumes "boot_guar fx cpu s s'" and "boot_trace s' = xs @ EvStore c v # ys"
  shows "(\<exists>zs. boot_trace s = xs @ EvStore c v # zs) \<or> (xs = boot_trace s \<and> bs_state s = status_code Releasing \<and> store_ok fx c v)"
  using assms(1)
proof cases
  case (bg_hw h)
  from bg_hw(3) show ?thesis
  proof cases
    case (hw_event e)
    then show ?thesis using assms(2) bg_hw(1) by (cases ys rule: rev_cases) (auto simp flip: append_assoc append_Cons)
  next
    case (hw_store c' v')
    then show ?thesis using assms(2) bg_hw(1) by (cases ys rule: rev_cases) (auto simp flip: append_assoc append_Cons)
  qed (use assms(2) bg_hw(1) in auto)
qed (use assms(2) in auto)

lemma boot_guar_inv:
  assumes g: "boot_guar fx cpu s s'" and "boot_inv fx s"
  shows "boot_inv fx s'"
proof -
  obtain st where st: "bs_state s = status_code st" "st \<notin> {Idle, Preparing, PreparationFailed} \<Longrightarrow> published_at fx (boot_trace s) s"
    "st = Ready \<Longrightarrow> all_passed fx s"
    and inv: "\<And>i. sl_inv (bs_slots s i)" "hs_inv (bs_config s)"
      "\<And>xs c v ys. boot_trace s = xs @ EvStore c v # ys \<Longrightarrow> published_at fx xs s \<and> store_ok fx c v"
    using assms(2) unfolding boot_inv_def by blast
  note pub = published_at_guar [OF g] and pass = all_passed_guar [OF g, of fx]
  have slots: "sl_inv (bs_slots s' i)" for i
    using g inv(1) by cases (auto dest: sl_guar_inv)
  have config: "hs_inv (bs_config s')"
    using g inv(2) by cases (auto dest: hs_guar_inv)
  have trace: "published_at fx (boot_trace s') s'" if "published_at fx (boot_trace s) s"
  proof -
    obtain es where "boot_trace s' = boot_trace s @ es" using g by cases (auto dest: hw_guar_trace)
    then show ?thesis using published_at_append [OF pub [OF that]] by simp
  qed
  have stores: "published_at fx xs s' \<and> store_ok fx c v" if "boot_trace s' = xs @ EvStore c v # ys" for xs c v ys
    using boot_guar_trace [OF g that] inv(3) pub st(1,2) by (elim disjE) auto
  have "\<exists>st. bs_state s' = status_code st \<and> (st \<notin> {Idle, Preparing, PreparationFailed} \<longrightarrow> published_at fx (boot_trace s') s') \<and> (st = Ready \<longrightarrow> all_passed fx s')"
    using g st trace pass by cases auto
  then show ?thesis using slots config stores unfolding boot_inv_def by blast
qed

section \<open>Programs of the start\<close>

abbreviation boot_rely :: "boot_facts \<Rightarrow> nat \<Rightarrow> boot_sys \<Rightarrow> boot_sys \<Rightarrow> bool" where
  "boot_rely fx cpu \<equiv> (\<lambda>s s'. \<exists>j. j \<noteq> cpu \<and> boot_guar fx j s s')"

abbreviation boot_safe ::
  "boot_facts \<Rightarrow> nat \<Rightarrow> (boot_sys \<Rightarrow> bool) \<Rightarrow> (boot_sys, 'a) prog \<Rightarrow> ('a \<Rightarrow> boot_sys \<Rightarrow> bool) \<Rightarrow> bool" where
  "boot_safe fx cpu \<equiv> safe (boot_inv fx) (boot_rely fx cpu) (boot_guar fx cpu)"

abbreviation boot_stable :: "boot_facts \<Rightarrow> nat \<Rightarrow> (boot_sys \<Rightarrow> bool) \<Rightarrow> bool" where
  "boot_stable fx cpu \<equiv> stable_under (boot_inv fx) (boot_rely fx cpu)"

text \<open>The parts of the state that only CPU 0 changes, and knowledge that survives every step that leaves them alone.\<close>

definition own_part :: "boot_sys \<Rightarrow> u64 \<times> u64 \<times> table_set boot_tables option \<times> release_hw" where
  "own_part s = (bs_state s, bs_attempted s, bs_tables s, bs_hw s)"

definition steady :: "boot_facts \<Rightarrow> (boot_sys \<Rightarrow> bool) \<Rightarrow> bool" where
  "steady fx K \<longleftrightarrow> (\<forall>cpu s s'. boot_guar fx cpu s s' \<longrightarrow> own_part s' = own_part s \<longrightarrow> K s \<longrightarrow> K s')"

lemma own_part_other: "boot_guar fx cpu s s' \<Longrightarrow> cpu \<noteq> 0 \<Longrightarrow> own_part s' = own_part s"
  by (erule boot_guar.cases) (auto simp: own_part_def)

lemma steady_stable: "steady fx K \<Longrightarrow> boot_stable fx 0 K"
  unfolding steady_def stable_under_def using own_part_other by blast

lemma steady_own [simp]: "steady fx (\<lambda>s. Q (own_part s))"
  by (auto simp: steady_def)

lemma steady_parts [simp]:
  "steady fx (\<lambda>s. Q (bs_state s))" "steady fx (\<lambda>s. Q (bs_attempted s))" "steady fx (\<lambda>s. T (bs_tables s))" "steady fx (\<lambda>s. H (bs_hw s))"
  by (auto simp: steady_def own_part_def)

lemma steady_conj [simp, intro]: "steady fx K \<Longrightarrow> steady fx L \<Longrightarrow> steady fx (\<lambda>s. K s \<and> L s)"
  unfolding steady_def by blast

lemma steady_const [simp]: "steady fx (\<lambda>_. b)"
  by (simp add: steady_def)

lemma steady_imp [simp, intro]: "(b \<Longrightarrow> steady fx K) \<Longrightarrow> steady fx (\<lambda>s. b \<longrightarrow> K s)"
  by (auto simp: steady_def)

lemma steady_all [intro]: "(\<And>x. steady fx (K x)) \<Longrightarrow> steady fx (\<lambda>s. \<forall>x. K x s)"
  unfolding steady_def by blast

lemma steady_published [simp]: "steady fx (published_at fx tr)"
  unfolding steady_def using published_at_guar by blast

lemma steady_passed [simp]: "steady fx (\<lambda>s. passed (bs_slots s i))"
  unfolding steady_def
proof (intro allI impI)
  fix cpu s s' assume "boot_guar fx cpu s s'" "passed (bs_slots s i)"
  then show "passed (bs_slots s' i)" by cases (auto dest: passed_guar)
qed

lemma steady_resources [simp]: "steady fx (\<lambda>s. resources_of base k r (bs_slots s i))"
  unfolding steady_def
proof (intro allI impI)
  fix cpu s s' assume "boot_guar fx cpu s s'" "resources_of base k r (bs_slots s i)"
  then show "resources_of base k r (bs_slots s' i)" by cases (auto dest: resources_of_guar)
qed

lemma boot_inv_slot [simp]: "boot_inv fx s \<Longrightarrow> sl_inv (bs_slots s i)"
  by (simp add: boot_inv_def)

lemma slot_guar: "boot_guar fx cpu s s' \<Longrightarrow> sl_guar i cpu (bs_slots s i) (bs_slots s' i) \<or> bs_slots s' i = bs_slots s i"
  by (erule boot_guar.cases) auto

lemma slot_safe:
  assumes "sl_safe i cpu P p post"
  shows "boot_safe fx cpu (\<lambda>s. P (bs_slots s i)) (on_slot i p) (\<lambda>a s. post a (bs_slots s i))"
  by (rule safe_plift [OF assms]) (use slot_guar in \<open>fastforce intro: bg_slot\<close>)+

lemma slot_with:
  assumes "sl_safe i 0 P p post" and "steady fx K"
  shows "boot_safe fx 0 (\<lambda>s. K s \<and> P (bs_slots s i)) (on_slot i p) (\<lambda>a s. K s \<and> post a (bs_slots s i))"
proof (rule safe_plift_with [OF assms(1) _ _ _ _ steady_stable [OF assms(2)]])
  fix s t assume "K s" and g: "sl_guar i 0 (bs_slots s i) t"
  have "boot_guar fx 0 s (s\<lparr>bs_slots := (bs_slots s)(i := t)\<rparr>)" using g by (rule bg_slot)
  moreover from this have "K (s\<lparr>bs_slots := (bs_slots s)(i := t)\<rparr>)"
    using assms(2) \<open>K s\<close> unfolding steady_def own_part_def by fastforce
  ultimately show "boot_guar fx 0 s (s\<lparr>bs_slots := (bs_slots s)(i := t)\<rparr>) \<and> K (s\<lparr>bs_slots := (bs_slots s)(i := t)\<rparr>)" by blast
qed (use slot_guar in fastforce)+

text \<open>The hardware: a program without stores, and what it leaves.\<close>

lemma hw_with:
  assumes "hw_ok (\<lambda>_ _ _. False) p" and "steady fx K" and "\<And>s h. K (s\<lparr>bs_hw := h\<rparr>) = K s"
  shows "boot_safe fx 0 (\<lambda>s. K s \<and> bs_hw s = h) (on_hw p) (\<lambda>a s. K s \<and> (a, bs_hw s) = run p h)"
proof (rule safe_plift_with [OF safe_alone [OF assms(1)] _ _ _ _ steady_stable [OF assms(2)]])
  fix s t assume K: "K s" and g: "hw_guar (\<lambda>_ _ _. False) (bs_hw s) t"
  have "hw_guar (\<lambda>_ c v. bs_state s = status_code Releasing \<and> store_ok fx c v) (bs_hw s) t"
    using g by cases (auto intro: hw_guar.intros)
  then show "boot_guar fx 0 s (s\<lparr>bs_hw := t\<rparr>) \<and> K (s\<lparr>bs_hw := t\<rparr>)" using bg_hw [of 0 s fx t] K assms(3) by simp
next
  fix s s' assume "boot_rely fx 0 s s'"
  then show "bs_hw s = bs_hw s' \<or> bs_hw s' = bs_hw s" using own_part_other by (auto simp: own_part_def)
qed auto

lemma hw_store_with:
  assumes "steady fx K" and "\<And>s h. K (s\<lparr>bs_hw := h\<rparr>) = K s" and "\<And>s. K s \<Longrightarrow> bs_state s = status_code Releasing" and "store_ok fx c v"
  shows "boot_safe fx 0 K (on_hw (write_release_cell_le64 counter c v)) (\<lambda>r s. K s \<and> (\<exists>t. r = Ok t))"
proof -
  have p: "safe (\<lambda>_. True) (=) (hw_guar (\<lambda>_ c' v'. c' = c \<and> v' = v)) (\<lambda>_. True) (write_release_cell_le64 counter c v) (\<lambda>r _. \<exists>t. r = Ok t)"
    unfolding write_release_cell_le64_def astore_armw
    by (rule safe_pbind [OF hw_ok_counter], rule safe_pbind [OF safe_armw [where post = "\<lambda>_ _. True"]]) (auto intro: hw_store safe_Ret)
  have "boot_safe fx 0 (\<lambda>s. K s \<and> True) (on_hw (write_release_cell_le64 counter c v)) (\<lambda>r s. K s \<and> (\<exists>t. r = Ok t))"
  proof (rule safe_plift_with [OF p _ _ _ _ steady_stable [OF assms(1)]])
    fix s t assume K: "K s" and g: "hw_guar (\<lambda>_ c' v'. c' = c \<and> v' = v) (bs_hw s) t"
    have "hw_guar (\<lambda>_ c v. bs_state s = status_code Releasing \<and> store_ok fx c v) (bs_hw s) t"
      using g assms(3) [OF K] assms(4) by cases (auto intro: hw_guar.intros)
    then show "boot_guar fx 0 s (s\<lparr>bs_hw := t\<rparr>) \<and> K (s\<lparr>bs_hw := t\<rparr>)" using bg_hw [of 0 s fx t] K assms(2) by simp
  next
    fix s s' assume "boot_rely fx 0 s s'"
    then show "bs_hw s = bs_hw s' \<or> bs_hw s' = bs_hw s" using own_part_other by (auto simp: own_part_def)
  qed auto
  then show ?thesis by simp
qed

text \<open>A single access of CPU 0.\<close>

lemma own_armw:
  assumes "\<And>s. boot_inv fx s \<Longrightarrow> K s \<Longrightarrow> boot_guar fx 0 s (fst (f s))" and "\<And>s. boot_inv fx s \<Longrightarrow> K s \<Longrightarrow> post (snd (f s)) (fst (f s))"
    and "\<And>a. steady fx (post a)"
  shows "boot_safe fx 0 K (armw f) post"
proof (rule safe_armw)
  show "boot_stable fx 0 (post a)" for a using assms(3) by (rule steady_stable)
qed (use assms boot_guar_inv in blast)+

lemma own_load:
  assumes "\<And>s. boot_inv fx s \<Longrightarrow> K s \<Longrightarrow> post (get s) s" and "\<And>a. steady fx (post a)"
  shows "boot_safe fx 0 K (aload get) post"
  using assms steady_stable by (intro safe_aload) (auto intro: bg_skip)

end
