(* ===== verification/Host_Memory.thy ===== *)
theory Host_Memory
  imports Startup_Resources Cpu_Startup Gicv2
begin

text \<open>
  The hypervisor's own memory (\<open>src/mm.rs\<close>): construction and validation of the EL2 stage-1
  tables, the boot-time edits behind the table gate, and the global page allocator. Both
  statics are behind a lock, so each function is one state transformer. Linker symbols and
  what the CPU's feature registers hold are arguments.
\<close>

datatype prepare_error = PrAddressOverflow | PrTranslation translation_error | PrAllocator allocator_error | PrValidation

definition MAX_TABLE_PAGES :: nat where "MAX_TABLE_PAGES = 16"
definition TABLE_ARENA_SIZE :: u64 where "TABLE_ARENA_SIZE = word_of_nat (MAX_TABLE_PAGES * unat PAGE_SIZE)"

record link_symbols =
  sym_text_start :: u64
  sym_text_end :: u64
  sym_vectors_start :: u64
  sym_vectors_end :: u64
  sym_rodata_start :: u64
  sym_rodata_end :: u64
  sym_writable_start :: u64
  sym_writable_end :: u64
  sym_tables_start :: u64
  sym_tables_end :: u64
  sym_boot_guard :: u64

record el2_stage1_page_table =
  pt_root_pa :: u64
  pt_pa_range :: u8

section \<open>Identity mappings\<close>

definition map_identity :: "table_set \<Rightarrow> u64 \<Rightarrow> u64 \<Rightarrow> bool \<Rightarrow> bool \<Rightarrow> (unit, prepare_error) outcome \<times> table_set" where
  "map_identity ts start stop writable executable =
     (if \<not> is_page_aligned start \<or> \<not> is_page_aligned stop \<or> stop \<le> start then (Err PrValidation, ts)
      else st_map_err PrTranslation (ts_map ts \<lparr>map_va = start, map_pa = start, map_size = stop - start, map_memory_type = Normal,
        map_writable = writable, map_executable = executable\<rparr>))"

definition map_identity_device :: "table_set \<Rightarrow> phys_region \<Rightarrow> (unit, prepare_error) outcome \<times> table_set" where
  "map_identity_device ts region =
     st_then (st_lift (map_err (\<lambda>_. PrAddressOverflow) (region_new_aligned (region_start region) (region_size region) PAGE_SIZE)) ts)
       (\<lambda>aligned ts.
     st_map_err PrTranslation (ts_map ts \<lparr>map_va = region_start aligned, map_pa = region_start aligned, map_size = region_size aligned,
       map_memory_type = Device, map_writable = True, map_executable = False\<rparr>))"

text \<open>The next exclusion that reaches past the cursor and starts before the end; the first of those that start lowest.\<close>

definition excluded_pages :: "u64 \<Rightarrow> u64 \<Rightarrow> phys_region list \<Rightarrow> (u64 \<times> u64) list" where
  "excluded_pages cursor stop exclusions =
     List.map_filter (\<lambda>excluded. case align_up (region_end excluded) PAGE_SIZE of
         None \<Rightarrow> None
       | Some excluded_end \<Rightarrow> let excluded_start = page_address (region_start excluded) in
           if cursor < excluded_end \<and> excluded_start < stop then Some (excluded_start, excluded_end) else None) exclusions"

fun min_start :: "(u64 \<times> u64) list \<Rightarrow> (u64 \<times> u64) option" where
  "min_start [] = None"
| "min_start (x # xs) = Some (foldl (\<lambda>m y. if fst y < fst m then y else m) x xs)"

lemma min_start_in: "min_start xs = Some x \<Longrightarrow> x \<in> set xs"
proof -
  have "foldl (\<lambda>m y. if fst y < fst m then y else m) a ys \<in> set (a # ys)" for a :: "u64 \<times> u64" and ys
    by (induction ys arbitrary: a) fastforce+
  then show "min_start xs = Some x \<Longrightarrow> x \<in> set xs" by (cases xs) auto
qed

lemma excluded_pages_bounds: "(s, e) \<in> set (excluded_pages cursor stop xs) \<Longrightarrow> cursor < e \<and> s < stop"
  by (auto simp: excluded_pages_def map_filter_def Let_def split: option.splits if_splits)

function exclude_loop ::
  "table_set \<Rightarrow> u64 \<Rightarrow> u64 \<Rightarrow> phys_region list \<Rightarrow> bool \<Rightarrow> bool \<Rightarrow> (unit, prepare_error) outcome \<times> table_set" where
  "exclude_loop ts cursor stop exclusions writable executable =
     (if cursor < stop
      then case min_start (excluded_pages cursor stop exclusions) of
          None \<Rightarrow> map_identity ts cursor stop writable executable
        | Some (excluded_start, excluded_end) \<Rightarrow>
            st_then (if cursor < excluded_start then map_identity ts cursor (min excluded_start stop) writable executable else (Ok (), ts))
              (\<lambda>_ ts'. exclude_loop ts' (min (max cursor excluded_end) stop) stop exclusions writable executable)
      else (Ok (), ts))"
  by pat_completeness auto

termination
proof (relation "measure (\<lambda>(ts, cursor, stop, exclusions, w, x). unat stop - unat cursor)")
  fix ts ts' :: table_set and cursor stop :: u64 and exclusions w x u and p :: "u64 \<times> u64" and a b
  assume *: "cursor < stop" "min_start (excluded_pages cursor stop exclusions) = Some p" "(a, b) = p"
  have "cursor < b" using excluded_pages_bounds [OF min_start_in [OF *(2) [folded *(3)]]] by blast
  then have "unat cursor < unat b" "unat cursor < unat stop" using *(1) by (simp_all add: word_less_nat_alt)
  then show "((ts', min (max cursor b) stop, stop, exclusions, w, x), ts, cursor, stop, exclusions, w, x)
      \<in> measure (\<lambda>(ts, cursor, stop, exclusions, w, x). unat stop - unat cursor)"
    by (auto simp: word_le_nat_alt min_def max_def)
qed simp

declare exclude_loop.simps [simp del]

fun map_regions_excluding ::
  "phys_region list \<Rightarrow> bool \<Rightarrow> bool \<Rightarrow> phys_region list \<Rightarrow> table_set \<Rightarrow> (unit, prepare_error) outcome \<times> table_set" where
  "map_regions_excluding exclusions writable executable [] ts = (Ok (), ts)"
| "map_regions_excluding exclusions writable executable (region # regions) ts =
     st_then (st_lift (ok_or PrAddressOverflow (align_up (region_start region) PAGE_SIZE)) ts) (\<lambda>start ts.
     st_then (exclude_loop ts start (page_address (region_end region)) exclusions writable executable) (\<lambda>_ ts.
     map_regions_excluding exclusions writable executable regions ts))"

definition map_identity_regions_excluding ::
  "table_set \<Rightarrow> phys_region fixed_list \<Rightarrow> phys_region fixed_list \<Rightarrow> bool \<Rightarrow> bool \<Rightarrow> (unit, prepare_error) outcome \<times> table_set" where
  "map_identity_regions_excluding ts regions exclusions writable executable =
     st_then (st_lift (fl_iter regions) ts) (\<lambda>rs ts.
     st_then (st_lift (fl_iter exclusions) ts) (\<lambda>xs ts. map_regions_excluding xs writable executable rs ts))"

section \<open>The initial tables\<close>

definition boot_stack :: "link_symbols \<Rightarrow> (stack_layout, 'e) outcome" where
  "boot_stack lk = (case stack_layout_of (sym_boot_guard lk) of Ok l \<Rightarrow> Ok l | _ \<Rightarrow> Panic)"

fun check_translations :: "table_set \<Rightarrow> (u64 \<times> bool \<times> bool \<times> memory_type) list \<Rightarrow> (unit, prepare_error) outcome" where
  "check_translations ts [] = Ok ()"
| "check_translations ts ((va, writable, executable, memory_type) # rest) =
     and_then (and_then (map_err PrTranslation (walk ts va)) (ok_or PrValidation)) (\<lambda>t.
     if tr_pa t \<noteq> va \<or> tr_writable t \<noteq> writable \<or> tr_executable t \<noteq> executable \<or> tr_memory_type t \<noteq> memory_type
     then Err PrValidation else check_translations ts rest)"

definition validate_el2_stage1_page_table :: "link_symbols \<Rightarrow> table_set \<Rightarrow> u64 \<Rightarrow> phys_region \<Rightarrow> (unit, prepare_error) outcome" where
  "validate_el2_stage1_page_table lk ts uart live_dtb_pages =
     and_then (or_panic (checked_sub (sym_tables_end lk) 1)) (\<lambda>arena_last.
     and_then (or_panic (checked_sub (region_end live_dtb_pages) 1)) (\<lambda>dtb_last.
     and_then (check_translations ts
       [(sym_text_start lk, False, True, Normal), (sym_vectors_start lk, False, True, Normal),
        (sym_rodata_start lk, False, False, Normal), (sym_writable_start lk, True, False, Normal),
        (sym_tables_start lk, True, False, Normal), (arena_last, True, False, Normal),
        (region_start live_dtb_pages, False, False, Normal), (dtb_last, False, False, Normal), (uart, True, False, Device)]) (\<lambda>_.
     and_then (boot_stack lk) (\<lambda>stack. map_err PrTranslation (validate_stack ts stack)))))"

text \<open>The sections in the order they are mapped: bounds, writable, executable.\<close>

definition image_sections :: "link_symbols \<Rightarrow> (u64 \<times> u64 \<times> bool \<times> bool) list" where
  "image_sections lk =
     [(sym_text_start lk, sym_text_end lk, False, True), (sym_vectors_start lk, sym_vectors_end lk, False, True),
      (sym_rodata_start lk, sym_rodata_end lk, False, False), (sym_writable_start lk, sym_writable_end lk, True, False)]"

fun map_sections :: "(u64 \<times> u64 \<times> bool \<times> bool) list \<Rightarrow> table_set \<Rightarrow> (unit, prepare_error) outcome \<times> table_set" where
  "map_sections [] ts = (Ok (), ts)"
| "map_sections ((start, stop, w, x) # rest) ts = st_then (map_identity ts start stop w x) (\<lambda>_ ts. map_sections rest ts)"

fun map_devices :: "phys_region list \<Rightarrow> table_set \<Rightarrow> (unit, prepare_error) outcome \<times> table_set" where
  "map_devices [] ts = (Ok (), ts)"
| "map_devices (r # rs) ts = st_then (map_identity_device ts r) (\<lambda>_ ts. map_devices rs ts)"

definition build_tables ::
  "link_symbols \<Rightarrow> table_set \<Rightarrow> phys_region \<Rightarrow> phys_region \<Rightarrow> phys_region \<Rightarrow> phys_region list \<Rightarrow> (unit, prepare_error) outcome \<times> table_set" where
  "build_tables lk ts live_dtb_pages linux_image_pages uart_region gic_regions =
     st_then (map_sections (image_sections lk) ts) (\<lambda>_ ts.
     st_then (st_lift (boot_stack lk) ts) (\<lambda>stack ts.
     st_then (st_map_err PrTranslation (map_stack ts stack)) (\<lambda>_ ts.
     st_then (map_sections [(sym_tables_start lk, sym_tables_end lk, True, False),
       (region_start live_dtb_pages, region_end live_dtb_pages, False, False),
       (region_start linux_image_pages, region_end linux_image_pages, False, False)] ts) (\<lambda>_ ts.
     st_then (map_devices (uart_region # gic_regions) ts) (\<lambda>_ ts.
       (validate_el2_stage1_page_table lk ts (region_start uart_region) live_dtb_pages, ts))))))"

text \<open>
  \<open>mmfr0\<close> holds the translation-granule and address-range fields of ID_AA64MMFR0_EL1 and
  \<open>hcr\<close> the VM and E2H bits of HCR_EL2, where they could be read.
\<close>

record host_mm =
  hm_claimed :: bool
  hm_tables :: "table_set boot_tables option"

definition setup_el2_stage1_page_table ::
  "link_symbols \<Rightarrow> (u8 \<times> u8) option \<Rightarrow> (bool \<times> bool) option \<Rightarrow> phys_region \<Rightarrow> phys_region \<Rightarrow> phys_region \<Rightarrow> phys_region list \<Rightarrow>
   host_mm \<Rightarrow> (el2_stage1_page_table, prepare_error) outcome \<times> host_mm" where
  "setup_el2_stage1_page_table lk mmfr0 hcr live_dtb_pages linux_image_pages uart_region gic_regions hm =
     (if hm_claimed hm then (Err PrValidation, hm) else
      let hm = hm\<lparr>hm_claimed := True\<rparr> in
      st_then (st_lift (ok_or PrValidation mmfr0) hm) (\<lambda>(tgran4, pa_range) hm.
      if tgran4 \<noteq> 0 then (Err PrValidation, hm) else
      st_then (st_lift (ok_or PrValidation hcr) hm) (\<lambda>(vm, e2h) hm.
      if vm \<or> e2h then (Err PrValidation, hm) else
      if \<not> is_page_aligned (sym_tables_start lk) \<or> \<not> is_page_aligned (sym_tables_end lk) then (Err PrValidation, hm) else
      if checked_sub (sym_tables_end lk) (sym_tables_start lk) \<noteq> Some TABLE_ARENA_SIZE then (Err PrValidation, hm) else
      st_then (st_lift (map_err PrTranslation (pa_bits_from_pa_range pa_range)) hm) (\<lambda>bits hm.
      st_then (st_lift (map_err PrTranslation (ts_new (storage_zeroed MAX_TABLE_PAGES) (sym_tables_start lk) bits)) hm) (\<lambda>tables hm.
      case build_tables lk tables live_dtb_pages linux_image_pages uart_region gic_regions of
        (r, ts) \<Rightarrow> st_then (st_lift r hm) (\<lambda>_ hm.
          (Ok \<lparr>pt_root_pa = root_pa ts, pt_pa_range = pa_range\<rparr>, hm\<lparr>hm_tables := Some (bt_new ts)\<rparr>)))))))"

section \<open>Edits behind the gate\<close>

definition with_tables ::
  "(table_set \<Rightarrow> ('a, prepare_error) outcome \<times> table_set) \<Rightarrow> table_set boot_tables option \<Rightarrow>
   ('a, prepare_error) outcome \<times> table_set boot_tables option" where
  "with_tables operation tables =
     (case tables of
        None \<Rightarrow> (Err PrValidation, None)
      | Some bt \<Rightarrow> (case bt_edit bt operation of
            (Ok r, bt') \<Rightarrow> (r, Some bt') | (Err _, bt') \<Rightarrow> (Err PrValidation, Some bt') | (Panic, bt') \<Rightarrow> (Panic, Some bt')))"

fun push_guards :: "secondary_stack list \<Rightarrow> phys_region fixed_list \<Rightarrow> (phys_region fixed_list, prepare_error) outcome" where
  "push_guards [] exclusions = Ok exclusions"
| "push_guards (stack # stacks) exclusions =
     and_then (map_err (\<lambda>_. PrValidation) (region_new (sl_guard_start (ss_layout stack)) GUARD_SIZE)) (\<lambda>guard.
     case fl_push exclusions guard of (r, exclusions') \<Rightarrow> and_then (map_err (\<lambda>_. PrValidation) r) (\<lambda>_. push_guards stacks exclusions'))"

fun validate_secondary_stacks :: "table_set \<Rightarrow> secondary_stack list \<Rightarrow> (unit, prepare_error) outcome" where
  "validate_secondary_stacks ts [] = Ok ()"
| "validate_secondary_stacks ts (s # ss) =
     and_then (map_err PrTranslation (validate_stack ts (ss_layout s))) (\<lambda>_. validate_secondary_stacks ts ss)"

definition map_ram_tables ::
  "link_symbols \<Rightarrow> memory_map \<Rightarrow> phys_region \<Rightarrow> phys_region fixed_list \<Rightarrow> secondary_stack list \<Rightarrow> table_set \<Rightarrow>
   (nat, prepare_error) outcome \<times> table_set" where
  "map_ram_tables lk m linux_image_pages exclusions stacks ts =
     st_then (map_identity_regions_excluding ts (mm_usable m) exclusions True False) (\<lambda>_ ts.
     st_then (map_identity ts (region_start linux_image_pages) (region_end linux_image_pages) False False) (\<lambda>_ ts.
     st_then (st_lift (boot_stack lk) ts) (\<lambda>stack ts.
     st_then (st_lift (map_err PrTranslation (validate_stack ts stack)) ts) (\<lambda>_ ts.
     st_then (st_lift (validate_secondary_stacks ts stacks) ts) (\<lambda>_ ts. (Ok (ts_used ts), ts))))))"

definition map_usable_ram ::
  "link_symbols \<Rightarrow> memory_map \<Rightarrow> phys_region \<Rightarrow> phys_region \<Rightarrow> secondary_stack fixed_list \<Rightarrow> table_set boot_tables option \<Rightarrow>
   (unit, prepare_error) outcome \<times> table_set boot_tables option" where
  "map_usable_ram lk m live_dtb linux_image_pages secondary_stacks tables =
     st_then (st_lift (fl_iter secondary_stacks) tables) (\<lambda>stacks tables.
     st_then (st_lift (push_guards stacks (fl_new MAX_CPUS)) tables) (\<lambda>exclusions tables.
     st_then (st_lift (map_err (\<lambda>_. PrAddressOverflow) (region_new_aligned (region_start live_dtb) (region_size live_dtb) PAGE_SIZE)) tables)
       (\<lambda>live_dtb_aligned tables.
     case fl_push exclusions live_dtb_aligned of (r, exclusions') \<Rightarrow>
     st_then (st_lift (map_err (\<lambda>_. PrValidation) r) tables) (\<lambda>_ tables.
     st_then (with_tables (map_ram_tables lk m linux_image_pages exclusions' stacks) tables) (\<lambda>_ tables. (Ok (), tables))))))"

definition is_release_cell :: "startup_memory_contract option \<Rightarrow> u64 \<Rightarrow> (bool, 'e) outcome" where
  "is_release_cell contract address =
     (case contract of None \<Rightarrow> Ok False
      | Some c \<Rightarrow> and_then (fl_iter (sc_release_cells c)) (\<lambda>cells. Ok (list_ex (\<lambda>cell. region_start cell = address) cells)))"

definition map_cell_page :: "u64 \<Rightarrow> u64 \<Rightarrow> u64 \<Rightarrow> table_set \<Rightarrow> (unit, prepare_error) outcome \<times> table_set" where
  "map_cell_page start stop address ts =
     st_then (st_then (st_lift (map_err PrTranslation (walk ts start)) ts) (\<lambda>t ts. case t of
         None \<Rightarrow> map_identity ts start stop True False
       | Some m \<Rightarrow> if tr_pa m = start \<and> tr_memory_type m = Normal \<and> tr_writable m \<and> \<not> tr_executable m then (Ok (), ts)
                  else (Err PrValidation, ts))) (\<lambda>_ ts.
     st_then (st_lift (and_then (map_err PrTranslation (walk ts address)) (ok_or PrValidation)) ts) (\<lambda>m ts.
     if tr_pa m \<noteq> address \<or> tr_memory_type m \<noteq> Normal \<or> \<not> tr_writable m \<or> tr_executable m then (Err PrValidation, ts)
     else (Ok (), ts)))"

definition map_firmware_release_cell ::
  "startup_memory_contract option \<Rightarrow> memory_map option \<Rightarrow> u64 \<Rightarrow> table_set boot_tables option \<Rightarrow>
   (unit, prepare_error) outcome \<times> table_set boot_tables option" where
  "map_firmware_release_cell contract memory_map address tables =
     st_then (st_lift (is_release_cell contract address) tables) (\<lambda>known tables.
     if \<not> known then (Err PrValidation, tables)
     else case memory_map of None \<Rightarrow> (Err PrValidation, tables) | Some m \<Rightarrow>
       st_then (st_lift (map_err (\<lambda>_. PrValidation) (release_page m address)) tables) (\<lambda>page tables.
       with_tables (map_cell_page (region_start page) (region_end page) address) tables))"

definition validate_and_freeze_startups ::
  "(table_set \<Rightarrow> (unit, resource_error) outcome) \<Rightarrow> table_set boot_tables option \<Rightarrow>
   (unit, prepare_error) outcome \<times> table_set boot_tables option" where
  "validate_and_freeze_startups validate tables =
     (case tables of
        None \<Rightarrow> (Err PrValidation, None)
      | Some bt \<Rightarrow> (case validate_and_freeze bt validate of (r, bt') \<Rightarrow> (map_err (\<lambda>_. PrValidation) r, Some bt')))"

definition startup_tables_frozen :: "table_set boot_tables option \<Rightarrow> bool" where
  "startup_tables_frozen tables = (case tables of None \<Rightarrow> False | Some bt \<Rightarrow> bt_frozen bt)"

text \<open>
  Before a CPU touches a device: every page of the region is a device mapping of the retained
  tables, and \<open>par\<close>, the result of the CPU's own address translation for a write, agrees.
\<close>

lemma next_page_greater: "checked_add (a AND NOT 4095) 4096 = Some b \<Longrightarrow> unat a < unat b" for a b :: u64
proof -
  assume *: "checked_add (a AND NOT 4095) 4096 = Some b"
  have "unat (a AND NOT 4095) = unat a div 4096 * 4096"
    using unat_and_not_mask [of a 12] by (simp add: mask_eq_exp_minus_1 minus_mod_eq_div_mult)
  moreover have "unat b = unat (a AND NOT 4095) + 4096" using unat_checked_add [OF *] by simp
  ultimately show ?thesis by simp
qed

function device_loop :: "table_set \<Rightarrow> (u64 \<Rightarrow> u64) \<Rightarrow> u64 \<Rightarrow> u64 \<Rightarrow> (unit, prepare_error) outcome" where
  "device_loop ts par address stop =
     (if address < stop
      then and_then (and_then (map_err PrTranslation (walk ts address)) (ok_or PrValidation)) (\<lambda>m.
        if tr_pa m \<noteq> address \<or> \<not> tr_writable m \<or> tr_executable m \<or> tr_memory_type m \<noteq> Device then Err PrValidation
        else if par address AND 1 \<noteq> 0 \<or> par address AND 0x000ffffffffff000 \<noteq> address AND NOT 4095 then Err PrValidation
        else case checked_add (address AND NOT 4095) 4096 of None \<Rightarrow> Err PrValidation | Some a \<Rightarrow> device_loop ts par a stop)
      else Ok ())"
  by pat_completeness auto

termination
  by (relation "measure (\<lambda>(ts, par, address, stop). unat stop - unat address)")
    (auto simp: word_less_nat_alt dest!: next_page_greater [simplified])

declare device_loop.simps [simp del]

definition validate_device_identity :: "(u64 \<Rightarrow> u64) \<Rightarrow> phys_region \<Rightarrow> table_set boot_tables option \<Rightarrow> (unit, prepare_error) outcome" where
  "validate_device_identity par region tables =
     and_then (ok_or PrValidation tables) (\<lambda>bt. device_loop (bt_tables bt) par (region_start region) (region_end region))"

section \<open>The global page allocator\<close>

datatype allocator_init_error = AiAllocator allocator_error | AiInvalidDtb | AiDtbAllocatable

record global_page_allocator =
  ga_managed :: page_bitmap
  ga_in_use :: page_bitmap
  ga_ram_pages :: nat
  ga_initialized :: bool

definition ga_new :: global_page_allocator where
  "ga_new = \<lparr>ga_managed = bm_zeroed PAGE_BITMAP_BYTES, ga_in_use = bm_zeroed PAGE_BITMAP_BYTES, ga_ram_pages = 0, ga_initialized = False\<rparr>"

definition read_be32 :: "(u64 \<Rightarrow> u8) \<Rightarrow> u64 \<Rightarrow> u64" where
  "read_be32 mem a = push_bit 24 (ucast (mem a)) OR push_bit 16 (ucast (mem (a + 1))) OR push_bit 8 (ucast (mem (a + 2))) OR ucast (mem (a + 3))"

definition validate_live_dtb :: "(u64 \<Rightarrow> u8) \<Rightarrow> phys_region \<Rightarrow> (unit, allocator_init_error) outcome" where
  "validate_live_dtb mem region =
     (if region_size region < 8 then Err AiInvalidDtb
      else if read_be32 mem (region_start region) \<noteq> 0xd00dfeed \<or> read_be32 mem (region_start region + 4) \<noteq> region_size region
      then Err AiInvalidDtb else Ok ())"

function reserved_loop :: "page_allocator \<Rightarrow> u64 \<Rightarrow> u64 \<Rightarrow> (unit, allocator_init_error) outcome" where
  "reserved_loop a page stop =
     (if page < stop
      then and_then (map_err AiAllocator (pa_state a page)) (\<lambda>state.
        if state \<noteq> Reserved then Err AiDtbAllocatable
        else case checked_add page PAGE_SIZE of None \<Rightarrow> Err (AiAllocator AddressOverflow) | Some page' \<Rightarrow> reserved_loop a page' stop)
      else Ok ())"
  by pat_completeness auto

termination
  by (relation "measure (\<lambda>(a, page, stop). unat stop - unat page)")
    (auto simp: word_less_nat_alt PAGE_SIZE_def dest!: unat_checked_add)

declare reserved_loop.simps [simp del]

text \<open>
  The bitmaps are written only through the allocator under construction; a construction that
  fails leaves contents that the next attempt clears and that nothing reads before, because the
  allocator is not marked initialized.
\<close>

definition initialize_allocator_after_takeover ::
  "(u64 \<Rightarrow> u8) \<Rightarrow> memory_map \<Rightarrow> phys_region \<Rightarrow> global_page_allocator \<Rightarrow>
   (allocator_stats \<times> phys_region, allocator_init_error) outcome \<times> global_page_allocator" where
  "initialize_allocator_after_takeover mem m live_dtb ga =
     (if ga_initialized ga then (Err (AiAllocator DoubleFree), ga) else
      st_then (st_lift (validate_live_dtb mem live_dtb) ga) (\<lambda>_ ga.
      st_then (st_lift (map_err (\<lambda>_. AiInvalidDtb) (region_new_aligned (region_start live_dtb) (region_size live_dtb) PAGE_SIZE)) ga) (\<lambda>pages ga.
      st_then (st_lift (map_err AiAllocator (pa_new (mm_ram m) (mm_usable m) (mm_usable m) (ga_managed ga) (ga_in_use ga))) ga) (\<lambda>a ga.
      let ga = ga\<lparr>ga_managed := pa_managed a, ga_in_use := pa_in_use a\<rparr> in
      st_then (st_lift (reserved_loop a (region_start pages) (region_end pages)) ga) (\<lambda>_ ga.
      st_then (st_lift (map_err AiAllocator (pa_stats a)) ga) (\<lambda>stats ga.
        (Ok (stats, live_dtb), ga\<lparr>ga_ram_pages := stat_ram_pages stats, ga_initialized := True\<rparr>)))))))"

definition with_allocator ::
  "(page_allocator \<Rightarrow> ('a, allocator_error) outcome \<times> page_allocator) \<Rightarrow> global_page_allocator \<Rightarrow>
   ('a, allocator_error) outcome \<times> global_page_allocator" where
  "with_allocator operation ga =
     (if \<not> ga_initialized ga then (Err NotInitialized, ga) else
      st_then (st_lift (pa_from_existing (ga_managed ga) (ga_in_use ga) (ga_ram_pages ga)) ga) (\<lambda>a ga.
      case operation a of (r, a') \<Rightarrow> (r, ga\<lparr>ga_managed := pa_managed a', ga_in_use := pa_in_use a'\<rparr>)))"

definition mm_allocate_page :: "global_page_allocator \<Rightarrow> (phys_addr, allocator_error) outcome \<times> global_page_allocator" where
  "mm_allocate_page = with_allocator allocate"

definition mm_allocate_secondary_stacks ::
  "cpu_topology \<Rightarrow> global_page_allocator \<Rightarrow> (secondary_stack fixed_list, allocator_error) outcome \<times> global_page_allocator" where
  "mm_allocate_secondary_stacks topology = with_allocator (allocate_secondary_stacks topology)"

definition mm_allocate_contiguous_pages :: "nat \<Rightarrow> global_page_allocator \<Rightarrow> (phys_addr, allocator_error) outcome \<times> global_page_allocator" where
  "mm_allocate_contiguous_pages pages = with_allocator (\<lambda>a. allocate_contiguous a pages)"

definition mm_free_page :: "phys_addr \<Rightarrow> global_page_allocator \<Rightarrow> (unit, allocator_error) outcome \<times> global_page_allocator" where
  "mm_free_page page = with_allocator (\<lambda>a. pa_free a page)"

definition mm_allocator_stats :: "global_page_allocator \<Rightarrow> (allocator_stats, allocator_error) outcome \<times> global_page_allocator" where
  "mm_allocator_stats = with_allocator (\<lambda>a. (pa_stats a, a))"

section \<open>What the host's tables may hold\<close>

definition in_code :: "link_symbols \<Rightarrow> u64 \<Rightarrow> bool" where
  "in_code lk v \<longleftrightarrow> sym_text_start lk \<le> v \<and> v < sym_text_end lk \<or> sym_vectors_start lk \<le> v \<and> v < sym_vectors_end lk"

definition host_ok :: "link_symbols \<Rightarrow> table_set \<Rightarrow> bool" where
  "host_ok lk ts \<longleftrightarrow> ts_inv ts \<and>
     (\<forall>v t. unat v < 2 ^ 39 \<longrightarrow> walk ts v = Ok (Some t) \<longrightarrow>
        tr_pa t = v \<and> (tr_executable t \<longrightarrow> \<not> tr_writable t \<and> tr_memory_type t = Normal \<and> in_code lk v))"

definition host_run :: "link_symbols \<Rightarrow> table_set \<Rightarrow> 'a \<times> table_set \<Rightarrow> bool" where
  "host_run lk ts res \<longleftrightarrow> (host_ok lk ts \<longrightarrow> host_ok lk (snd res) \<and> stable ts (snd res))"

lemma stable_refl [simp]: "stable ts ts" by (simp add: stable_def)

lemma hr_pure [simp]: "host_run lk ts (r, ts)" by (simp add: host_run_def)

lemma hr_lift [simp]: "host_run lk ts (st_lift r ts)" by (simp add: st_lift_def)

lemma hr_then:
  assumes "host_run lk ts m" and "\<And>x ts'. m = (Ok x, ts') \<Longrightarrow> host_run lk ts' (f x ts')"
  shows "host_run lk ts (st_then m f)"
proof -
  obtain r ts' where m: "m = (r, ts')" by fastforce
  show ?thesis
    using assms(1) assms(2) [of _ ts'] stable_trans [of ts ts'] unfolding m
    by (cases r) (auto simp: host_run_def)
qed

lemma hr_map_err: "host_run lk ts m \<Longrightarrow> host_run lk ts (st_map_err g m)"
  by (cases m) (auto simp: host_run_def st_map_err_def)

lemma host_map:
  assumes "map_va m = map_pa m"
    and x: "map_executable m \<Longrightarrow> \<not> map_writable m \<and> map_memory_type m = Normal \<and>
      (\<forall>v. in_range (map_va m) (unat (map_size m)) v \<longrightarrow> in_code lk v)"
  shows "host_run lk ts (ts_map ts m)"
  unfolding host_run_def
proof
  assume h: "host_ok lk ts"
  then obtain pos where wf: "ts_wf pos ts" by (auto simp: host_ok_def ts_inv_def)
  note spec = ts_map_spec [OF wf, of m]
  show "host_ok lk (snd (ts_map ts m)) \<and> stable ts (snd (ts_map ts m))"
  proof (cases "validate_mapping ts m")
    case (Ok u)
    then have post: "map_post ts (map_va m) (map_va m) (unat (map_size m)) m (ts_map ts m)" using spec assms(1) by simp
    have "walk (snd (ts_map ts m)) v = walk ts v \<or>
        in_range (map_va m) (unat (map_size m)) v \<and> mapped (snd (ts_map ts m)) m v v" if "unat v < 2 ^ 39" for v
      using post that by (cases "fst (ts_map ts m)") (auto simp: map_post_def split: if_splits)
    then have "host_ok lk (snd (ts_map ts m))"
      using h x post unfolding host_ok_def by (fastforce simp: map_post_def ts_inv_def mapped_def)
    then show ?thesis using post by (auto simp: map_post_def)
  qed (use spec h in auto)
qed

lemma in_range_bounds: "start < stop \<Longrightarrow> in_range start (unat (stop - start)) v \<longleftrightarrow> start \<le> v \<and> v < stop"
  by (auto simp: in_range_def word_le_nat_alt word_less_nat_alt unat_sub)

lemma host_map_identity:
  assumes "x \<Longrightarrow> \<not> w \<and> (\<forall>v. start \<le> v \<longrightarrow> v < stop \<longrightarrow> in_code lk v)"
  shows "host_run lk ts (map_identity ts start stop w x)"
proof (cases "start < stop")
  case True
  have "host_run lk ts (st_map_err PrTranslation (ts_map ts \<lparr>map_va = start, map_pa = start, map_size = stop - start,
      map_memory_type = Normal, map_writable = w, map_executable = x\<rparr>))"
    by (rule hr_map_err, rule host_map) (use assms in \<open>simp_all add: in_range_bounds [OF True]\<close>)
  then show ?thesis by (simp add: map_identity_def)
qed (simp add: map_identity_def not_less)

lemma host_map_device: "host_run lk ts (map_identity_device ts region)"
  unfolding map_identity_device_def by (intro hr_then hr_lift hr_map_err host_map) auto

lemma host_map_stack: "host_run lk ts (map_stack ts l)"
  unfolding map_stack_def by (intro hr_then hr_pure host_map) auto

lemma host_sections:
  assumes "\<forall>(s, e, w, x) \<in> set secs. x \<longrightarrow> \<not> w \<and> (\<forall>v. s \<le> v \<longrightarrow> v < e \<longrightarrow> in_code lk v)"
  shows "host_run lk ts (map_sections secs ts)"
  using assms
proof (induction secs ts rule: map_sections.induct)
  case (2 s e w x rest ts)
  then show ?case by (auto intro!: hr_then host_map_identity)
qed simp

lemma host_devices: "host_run lk ts (map_devices rs ts)"
  by (induction rs ts rule: map_devices.induct) (auto intro!: hr_then host_map_device)

lemma host_build: "host_run lk ts (build_tables lk ts live_dtb linux uart gic)"
  unfolding build_tables_def
  by (intro hr_then hr_lift hr_pure hr_map_err host_sections host_map_stack host_devices)
    (auto simp: image_sections_def in_code_def)

lemma host_exclude:
  "\<not> x \<Longrightarrow> host_run lk ts (exclude_loop ts cursor stop exclusions w x)"
proof (induction ts cursor stop exclusions w x rule: exclude_loop.induct)
  case (1 ts cursor stop exclusions w x)
  then show ?case
    by (subst exclude_loop.simps) (auto intro!: hr_then host_map_identity split: option.split)
qed

lemma host_regions: "\<not> x \<Longrightarrow> host_run lk ts (map_regions_excluding xs w x rs ts)"
  by (induction xs w x rs ts rule: map_regions_excluding.induct) (auto intro!: hr_then host_exclude)

lemma host_map_ram: "host_run lk ts (map_ram_tables lk m linux exclusions stacks ts)"
  unfolding map_ram_tables_def map_identity_regions_excluding_def
  by (intro hr_then hr_lift hr_pure host_regions host_map_identity) auto

lemma host_map_cell: "host_run lk ts (map_cell_page start stop address ts)"
  unfolding map_cell_page_def
  by (intro hr_then hr_lift) (auto intro!: hr_then host_map_identity split: option.split)

section \<open>Every history of the tables\<close>

inductive hm_step :: "link_symbols \<Rightarrow> host_mm \<Rightarrow> host_mm \<Rightarrow> bool" for lk where
  hs_setup: "hm_step lk hm (snd (setup_el2_stage1_page_table lk mmfr0 hcr dtb linux uart gic hm))"
| hs_ram: "hm_step lk hm (hm\<lparr>hm_tables := snd (map_usable_ram lk m dtb linux stacks (hm_tables hm))\<rparr>)"
| hs_cell: "hm_step lk hm (hm\<lparr>hm_tables := snd (map_firmware_release_cell contract m address (hm_tables hm))\<rparr>)"
| hs_freeze: "hm_step lk hm (hm\<lparr>hm_tables := snd (validate_and_freeze_startups check (hm_tables hm))\<rparr>)"

definition hm_inv :: "link_symbols \<Rightarrow> host_mm \<Rightarrow> bool" where
  "hm_inv lk hm \<longleftrightarrow> (\<forall>bt. hm_tables hm = Some bt \<longrightarrow> hm_claimed hm \<and> host_ok lk (bt_tables bt))"

definition edit_ok :: "link_symbols \<Rightarrow> table_set boot_tables option \<Rightarrow> 'a \<times> table_set boot_tables option \<Rightarrow> bool" where
  "edit_ok lk t res \<longleftrightarrow>
     (\<forall>bt. t = Some bt \<longrightarrow> host_ok lk (bt_tables bt) \<longrightarrow>
        (\<exists>bt'. snd res = Some bt' \<and> host_ok lk (bt_tables bt') \<and> stable (bt_tables bt) (bt_tables bt') \<and> (bt_frozen bt \<longrightarrow> bt' = bt))) \<and>
     (t = None \<longrightarrow> snd res = None)"

lemma edit_pure [simp]: "edit_ok lk t (r, t)" by (simp add: edit_ok_def)

lemma edit_lift [simp]: "edit_ok lk t (st_lift r t)" by (simp add: st_lift_def)

lemma edit_then:
  assumes "edit_ok lk t m" and "\<And>x t'. m = (Ok x, t') \<Longrightarrow> edit_ok lk t' (f x t')"
  shows "edit_ok lk t (st_then m f)"
proof -
  obtain r t' where m: "m = (r, t')" by fastforce
  show ?thesis
  proof (cases r)
    case (Ok x)
    then have f: "edit_ok lk t' (f x t')" using assms(2) m by simp
    show ?thesis
    proof (cases t)
      case None
      then show ?thesis using assms(1) f unfolding m Ok by (simp add: edit_ok_def)
    next
      case (Some bt)
      {
        assume "host_ok lk (bt_tables bt)"
        then obtain bt1 where 1: "t' = Some bt1" "host_ok lk (bt_tables bt1)" "stable (bt_tables bt) (bt_tables bt1)" "bt_frozen bt \<longrightarrow> bt1 = bt"
          using assms(1) Some unfolding m edit_ok_def by auto
        then obtain bt2 where 2: "snd (f x t') = Some bt2" "host_ok lk (bt_tables bt2)" "stable (bt_tables bt1) (bt_tables bt2)"
          "bt_frozen bt1 \<longrightarrow> bt2 = bt1" using f unfolding edit_ok_def by auto
        have "\<exists>bt2. snd (f x t') = Some bt2 \<and> host_ok lk (bt_tables bt2) \<and> stable (bt_tables bt) (bt_tables bt2) \<and> (bt_frozen bt \<longrightarrow> bt2 = bt)"
          using 1 2 stable_trans [OF 1(3) 2(3)] by auto
      }
      then show ?thesis using Some unfolding m Ok by (simp add: edit_ok_def)
    qed
  qed (use assms(1) m in \<open>auto simp: edit_ok_def\<close>)
qed

lemma edit_with_tables: "(\<And>ts. host_run lk ts (f ts)) \<Longrightarrow> edit_ok lk t (with_tables f t)"
proof -
  assume f: "\<And>ts. host_run lk ts (f ts)"
  show ?thesis
  proof (cases t)
    case (Some bt)
    then show ?thesis
      using f [of "bt_tables bt"]
      by (cases "f (bt_tables bt)") (auto simp: with_tables_def bt_edit_def edit_ok_def host_run_def)
  qed (simp add: with_tables_def edit_ok_def)
qed

lemma edit_ram: "edit_ok lk t (map_usable_ram lk m dtb linux stacks t)"
  unfolding map_usable_ram_def
  by (intro edit_then edit_lift) (auto intro!: edit_then edit_with_tables host_map_ram split: prod.split)

lemma edit_cell: "edit_ok lk t (map_firmware_release_cell contract m address t)"
  unfolding map_firmware_release_cell_def
  by (intro edit_then edit_lift) (auto intro!: edit_then edit_with_tables host_map_cell split: option.split)

lemma edit_freeze: "edit_ok lk t (validate_and_freeze_startups check t)"
  by (cases t; cases "check (bt_tables (the t))")
    (auto simp: validate_and_freeze_startups_def validate_and_freeze_def edit_ok_def)

lemma arena_pages: "\<forall>page \<in> set (storage_zeroed n). length page = 512" "length (storage_zeroed n) = n"
  by (auto simp: storage_zeroed_def tp_zeroed_def ENTRIES_PER_TABLE_def)

lemma fresh_host_ok: "ts_new (storage_zeroed MAX_TABLE_PAGES) base bits = Ok ts \<Longrightarrow> host_ok lk ts"
  using ts_new_wf(1,2) [of "storage_zeroed MAX_TABLE_PAGES" base bits ts] arena_pages [of MAX_TABLE_PAGES]
  by (auto simp: host_ok_def ts_inv_def MAX_TABLE_PAGES_def)

lemma st_lift_state: "st_then (st_lift r s) f = (q, t) \<Longrightarrow> t = s \<or> (\<exists>x. r = Ok x \<and> f x s = (q, t))"
  by (cases r) auto

lemma setup_result:
  assumes "setup_el2_stage1_page_table lk mmfr0 hcr dtb linux uart gic hm = (r, hm')"
  shows "hm_claimed hm'"
    and "hm' = hm\<lparr>hm_claimed := True\<rparr> \<or>
      (\<exists>ts. \<not> hm_claimed hm \<and> hm_tables hm' = Some (bt_new ts) \<and> host_ok lk ts \<and>
        validate_el2_stage1_page_table lk ts (region_start uart) dtb = Ok ())"
proof -
  have "hm_claimed hm' \<and> (hm' = hm\<lparr>hm_claimed := True\<rparr> \<or> (\<exists>ts. \<not> hm_claimed hm \<and> hm_tables hm' = Some (bt_new ts) \<and>
      host_ok lk ts \<and> validate_el2_stage1_page_table lk ts (region_start uart) dtb = Ok ()))"
  proof (cases "hm_claimed hm")
    case True
    then show ?thesis using assms by (simp add: setup_el2_stage1_page_table_def)
  next
    case False
    let ?hm = "hm\<lparr>hm_claimed := True\<rparr>"
    let ?built = "\<lambda>bits. ts_new (storage_zeroed MAX_TABLE_PAGES) (sym_tables_start lk) bits"
    consider "hm' = ?hm" | bits t0 u ts where "?built bits = Ok t0" "build_tables lk t0 dtb linux uart gic = (Ok u, ts)"
        "hm' = ?hm\<lparr>hm_tables := Some (bt_new ts)\<rparr>"
      using assms False
      by (auto simp: setup_el2_stage1_page_table_def Let_def outcome_simps dest!: st_lift_state split: if_splits prod.splits)
    then show ?thesis
    proof cases
      case 2
      have "host_ok lk ts"
        using host_build [of lk t0 dtb linux uart gic] fresh_host_ok [OF 2(1)] 2(2) by (simp add: host_run_def)
      moreover have "validate_el2_stage1_page_table lk ts (region_start uart) dtb = Ok ()"
        using 2(2) by (auto simp: build_tables_def outcome_simps)
      ultimately show ?thesis using 2(3) False by auto
    qed simp
  qed
  then show "hm_claimed hm'" "hm' = hm\<lparr>hm_claimed := True\<rparr> \<or>
      (\<exists>ts. \<not> hm_claimed hm \<and> hm_tables hm' = Some (bt_new ts) \<and> host_ok lk ts \<and>
        validate_el2_stage1_page_table lk ts (region_start uart) dtb = Ok ())" by blast+
qed

lemma hm_step_kept:
  assumes "hm_step lk hm hm'" and "hm_inv lk hm"
  shows "hm_inv lk hm'"
    and "hm_tables hm = Some bt \<Longrightarrow> \<exists>bt'. hm_tables hm' = Some bt' \<and> stable (bt_tables bt) (bt_tables bt') \<and> (bt_frozen bt \<longrightarrow> bt' = bt)"
proof -
  have edit: "hm_inv lk (hm\<lparr>hm_tables := snd res\<rparr>) \<and>
      (\<forall>bt. hm_tables hm = Some bt \<longrightarrow> (\<exists>bt'. snd res = Some bt' \<and> stable (bt_tables bt) (bt_tables bt') \<and> (bt_frozen bt \<longrightarrow> bt' = bt)))"
    if "edit_ok lk (hm_tables hm) res" for res :: "(unit, prepare_error) outcome \<times> table_set boot_tables option"
    using that assms(2) by (cases "hm_tables hm") (auto simp: edit_ok_def hm_inv_def)
  have "hm_inv lk hm' \<and> (\<forall>bt. hm_tables hm = Some bt \<longrightarrow>
      (\<exists>bt'. hm_tables hm' = Some bt' \<and> stable (bt_tables bt) (bt_tables bt') \<and> (bt_frozen bt \<longrightarrow> bt' = bt)))"
    using assms(1)
  proof cases
    case (hs_setup mmfr0 hcr dtb linux uart gic)
    obtain r where R: "setup_el2_stage1_page_table lk mmfr0 hcr dtb linux uart gic hm = (r, hm')"
      using hs_setup by (metis prod.collapse)
    show ?thesis using setup_result [OF R] assms(2) by (auto simp: hm_inv_def bt_new_def)
  next
    case hs_ram
    then show ?thesis using edit [OF edit_ram] by simp
  next
    case hs_cell
    then show ?thesis using edit [OF edit_cell] by simp
  next
    case hs_freeze
    then show ?thesis using edit [OF edit_freeze] by simp
  qed
  then show "hm_inv lk hm'" "hm_tables hm = Some bt \<Longrightarrow> \<exists>bt'. hm_tables hm' = Some bt' \<and> stable (bt_tables bt) (bt_tables bt') \<and> (bt_frozen bt \<longrightarrow> bt' = bt)"
    by blast+
qed

interpretation hmt: transition_system "hm_inv lk" "hm_step lk" "hm_inv lk" for lk
  by unfold_locales (auto intro: hm_step_kept(1))

lemma hm_steps_kept:
  assumes "(hm_step lk)\<^sup>*\<^sup>* hm hm'" and "hm_inv lk hm" and "hm_tables hm = Some bt"
  shows "\<exists>bt'. hm_tables hm' = Some bt' \<and> stable (bt_tables bt) (bt_tables bt') \<and> (bt_frozen bt \<longrightarrow> bt' = bt)"
  using assms(1)
proof (induction rule: rtranclp_induct)
  case base
  then show ?case using assms(3) by simp
next
  case (step y z)
  have "hm_inv lk y" using hmt.steps_invar [OF step(1) assms(2)] .
  obtain b1 where 1: "hm_tables y = Some b1" "stable (bt_tables bt) (bt_tables b1)" "bt_frozen bt \<longrightarrow> b1 = bt" using step.IH by blast
  obtain b2 where 2: "hm_tables z = Some b2" "stable (bt_tables b1) (bt_tables b2)" "bt_frozen b1 \<longrightarrow> b2 = b1"
    using hm_step_kept(2) [OF step(2) \<open>hm_inv lk y\<close> 1(1)] by blast
  show ?case using 1 2 stable_trans [OF 1(2) 2(2)] by auto
qed

section \<open>Mapping RAM around the exclusions\<close>

definition excluded_at :: "phys_region list \<Rightarrow> u64 \<Rightarrow> bool" where
  "excluded_at xs v \<longleftrightarrow>
     (\<exists>e \<in> set xs. \<exists>stop. align_up (region_end e) PAGE_SIZE = Some stop \<and> page_address (region_start e) \<le> v \<and> v < stop)"

definition remapped :: "table_set \<Rightarrow> table_set \<Rightarrow> u64 set \<Rightarrow> bool \<Rightarrow> bool \<Rightarrow> bool" where
  "remapped ts ts' A w x \<longleftrightarrow> ts_inv ts' \<and>
     (\<forall>v. unat v < 2 ^ 39 \<longrightarrow> (if v \<in> A then identity_mapped ts' w x v else walk ts' v = walk ts v))"

lemma remapped_trans:
  assumes "remapped a b A w x" and "remapped b c B w x"
  shows "remapped a c (A \<union> B) w x"
proof -
  have "if v \<in> A \<union> B then identity_mapped c w x v else walk c v = walk a v" if "unat v < 2 ^ 39" for v
    using assms that unfolding remapped_def by (cases "v \<in> B"; cases "v \<in> A") (auto simp: identity_mapped_def)
  then show ?thesis using assms by (auto simp: remapped_def)
qed

lemma map_identity_Ok:
  assumes "ts_inv ts" and "map_identity ts start stop w x = (Ok u, ts')"
  shows "remapped ts ts' {start..<stop} w x"
proof -
  let ?m = "\<lparr>map_va = start, map_pa = start, map_size = stop - start, map_memory_type = Normal, map_writable = w, map_executable = x\<rparr>"
  obtain pos where wf: "ts_wf pos ts" using assms(1) by (auto simp: ts_inv_def)
  have lt: "start < stop" and run: "ts_map ts ?m = (Ok u, ts')"
    using assms(2) by (auto simp: map_identity_def st_map_err_def prod_eq_iff outcome_simps split: if_splits)
  have "map_post ts start start (unat (stop - start)) ?m (Ok u, ts')"
    using ts_map_spec [OF wf, of ?m] run by (cases "validate_mapping ts ?m") auto
  moreover have "identity_mapped ts' w x v" if "mapped ts' ?m v v" for v
    using that by (auto simp: mapped_def identity_mapped_def)
  ultimately show ?thesis by (auto simp: map_post_def remapped_def ts_inv_def in_range_bounds [OF lt])
qed

lemma min_start_least: "min_start xs = Some x \<Longrightarrow> y \<in> set xs \<Longrightarrow> fst x \<le> fst y"
proof -
  have "\<forall>y \<in> set (a # ys). fst (foldl (\<lambda>m y. if fst y < fst m then y else m) a ys) \<le> fst y" for a :: "u64 \<times> u64" and ys
  proof (induction ys arbitrary: a)
    case (Cons b ys)
    show ?case using Cons.IH [of "if fst b < fst a then b else a"] by (auto split: if_splits)
  qed simp
  then show "min_start xs = Some x \<Longrightarrow> y \<in> set xs \<Longrightarrow> fst x \<le> fst y" by (cases xs) auto
qed

lemma min_start_None [simp]: "min_start xs = None \<longleftrightarrow> xs = []" by (cases xs) auto

lemma set_excluded_pages:
  "(s, e) \<in> set (excluded_pages cursor stop xs) \<longleftrightarrow>
     (\<exists>r \<in> set xs. align_up (region_end r) PAGE_SIZE = Some e \<and> s = page_address (region_start r) \<and> cursor < e \<and> s < stop)"
  by (induction xs) (auto simp: excluded_pages_def Let_def List.map_filter_simps split: option.split)

lemma exclude_loop_Ok:
  "ts_inv ts \<Longrightarrow> exclude_loop ts cursor stop xs w x = (Ok u, ts') \<Longrightarrow>
   remapped ts ts' {v. cursor \<le> v \<and> v < stop \<and> \<not> excluded_at xs v} w x"
proof (induction ts cursor stop xs w x arbitrary: u ts' rule: exclude_loop.induct)
  case (1 ts cursor stop xs w x)
  show ?case
  proof (cases "cursor < stop")
    case False
    then show ?thesis using 1(2,3) by (subst (asm) exclude_loop.simps) (auto simp: remapped_def)
  next
    case lt: True
    have free: "\<not> excluded_at xs v" if "cursor \<le> v" "v < stop" "\<forall>p \<in> set (excluded_pages cursor stop xs). v < fst p" for v
    proof
      assume "excluded_at xs v"
      then obtain e stop' where e: "e \<in> set xs" "align_up (region_end e) PAGE_SIZE = Some stop'" "page_address (region_start e) \<le> v" "v < stop'"
        by (auto simp: excluded_at_def)
      then have "(page_address (region_start e), stop') \<in> set (excluded_pages cursor stop xs)"
        using that unfolding set_excluded_pages by force
      then show False using that(3) e(3) by fastforce
    qed
    show ?thesis
    proof (cases "min_start (excluded_pages cursor stop xs)")
      case None
      then have "map_identity ts cursor stop w x = (Ok u, ts')" using 1(3) lt by (subst (asm) exclude_loop.simps) simp
      then have "remapped ts ts' {cursor..<stop} w x" by (rule map_identity_Ok [OF 1(2)])
      moreover have "{v. cursor \<le> v \<and> v < stop \<and> \<not> excluded_at xs v} = {cursor..<stop}" using free None by auto
      ultimately show ?thesis by simp
    next
      case (Some p)
      obtain s e where p: "p = (s, e)" by fastforce
      have mem: "(s, e) \<in> set (excluded_pages cursor stop xs)" using min_start_in [OF Some] p by simp
      have least: "\<forall>q \<in> set (excluded_pages cursor stop xs). s \<le> fst q" using min_start_least [OF Some] p by fastforce
      obtain u1 ts1 where first: "(if cursor < s then map_identity ts cursor (min s stop) w x else (Ok (), ts)) = (Ok u1, ts1)"
        and rest: "exclude_loop ts1 (min (max cursor e) stop) stop xs w x = (Ok u, ts')"
        using 1(3) lt Some p by (subst (asm) exclude_loop.simps) (auto simp: outcome_simps)
      have A: "remapped ts ts1 {v. cursor \<le> v \<and> v < s \<and> v < stop} w x"
      proof (cases "cursor < s")
        case True
        then have "remapped ts ts1 {cursor..<min s stop} w x" using first by (intro map_identity_Ok [OF 1(2)]) simp
        moreover have "{cursor..<min s stop} = {v. cursor \<le> v \<and> v < s \<and> v < stop}" by auto
        ultimately show ?thesis by simp
      next
        case False
        then show ?thesis using first 1(2) by (auto simp: remapped_def)
      qed
      have B: "remapped ts1 ts' {v. min (max cursor e) stop \<le> v \<and> v < stop \<and> \<not> excluded_at xs v} w x"
        using A by (intro 1(1) [OF lt Some p [symmetric] first _ rest]) (auto simp: remapped_def)
      have busy: "excluded_at xs v" if "s \<le> v" "v < e" for v
        using mem that unfolding set_excluded_pages excluded_at_def by blast
      have gap: "\<not> excluded_at xs v" if "cursor \<le> v" "v < s" "v < stop" for v
        using that least by (intro free) auto
      have "v \<in> {v. cursor \<le> v \<and> v < stop \<and> \<not> excluded_at xs v} \<longleftrightarrow>
          v \<in> {v. cursor \<le> v \<and> v < s \<and> v < stop} \<union> {v. min (max cursor e) stop \<le> v \<and> v < stop \<and> \<not> excluded_at xs v}" for v
        using busy [of v] gap [of v] by (cases "v < s"; cases "v < e") (auto simp: min_le_iff_disj)
      then have "{v. cursor \<le> v \<and> v < stop \<and> \<not> excluded_at xs v} =
          {v. cursor \<le> v \<and> v < s \<and> v < stop} \<union> {v. min (max cursor e) stop \<le> v \<and> v < stop \<and> \<not> excluded_at xs v}" by blast
      then show ?thesis using remapped_trans [OF A B] by simp
    qed
  qed
qed

definition region_inner :: "phys_region \<Rightarrow> u64 set" where
  "region_inner r = (case align_up (region_start r) PAGE_SIZE of None \<Rightarrow> {} | Some s \<Rightarrow> {s..<page_address (region_end r)})"

lemma map_regions_Ok:
  "ts_inv ts \<Longrightarrow> map_regions_excluding xs w x rs ts = (Ok u, ts') \<Longrightarrow>
   remapped ts ts' {v. (\<exists>r \<in> set rs. v \<in> region_inner r) \<and> \<not> excluded_at xs v} w x"
proof (induction xs w x rs ts arbitrary: u ts' rule: map_regions_excluding.induct)
  case (1 xs w x ts)
  then show ?case by (simp add: remapped_def)
next
  case (2 xs w x r rs ts)
  obtain start u1 ts1 where s: "align_up (region_start r) PAGE_SIZE = Some start"
    and one: "exclude_loop ts start (page_address (region_end r)) xs w x = (Ok u1, ts1)" and rest: "map_regions_excluding xs w x rs ts1 = (Ok u, ts')"
    using 2(3) by (auto simp: outcome_simps)
  have A: "remapped ts ts1 {v. start \<le> v \<and> v < page_address (region_end r) \<and> \<not> excluded_at xs v} w x" by (rule exclude_loop_Ok [OF 2(2) one])
  have "st_lift (ok_or PrAddressOverflow (align_up (region_start r) PAGE_SIZE)) ts = (Ok start, ts)" using s by (simp add: st_lift_def)
  then have B: "remapped ts1 ts' {v. (\<exists>r \<in> set rs. v \<in> region_inner r) \<and> \<not> excluded_at xs v} w x"
    using A by (intro 2(1) [OF _ one _ rest]) (auto simp: remapped_def)
  have "{v. (\<exists>r \<in> set (r # rs). v \<in> region_inner r) \<and> \<not> excluded_at xs v} =
      {v. start \<le> v \<and> v < page_address (region_end r) \<and> \<not> excluded_at xs v} \<union> {v. (\<exists>r \<in> set rs. v \<in> region_inner r) \<and> \<not> excluded_at xs v}"
    using s by (auto simp: region_inner_def)
  then show ?case using remapped_trans [OF A B] by simp
qed

lemma validate_secondary_stacks_Ok: "validate_secondary_stacks ts ss = Ok () \<longleftrightarrow> (\<forall>s \<in> set ss. validate_stack ts (ss_layout s) = Ok ())"
  by (induction ss) (auto simp: outcome_simps)

text \<open>
  Usable RAM after a successful mapping: the guards of the boot stack and of every secondary
  stack are unmapped, the stacks themselves are identity mapped, writable and never executable.
\<close>

lemma map_usable_ram_Ok:
  assumes "map_usable_ram lk m dtb linux stacks (Some bt) = (Ok (), t')" and "stack_layout_of (sym_boot_guard lk) = Ok boot"
    and "fl_inv stacks" and "\<forall>s \<in> set (fl_list stacks). stack_layout_of (sl_guard_start (ss_layout s)) = Ok (ss_layout s)"
  shows "\<exists>bt'. t' = Some bt' \<and> (\<forall>l \<in> insert boot (ss_layout ` set (fl_list stacks)).
     (\<forall>v. in_range (sl_guard_start l) 4096 v \<longrightarrow> unmapped (bt_tables bt') v) \<and>
     (\<forall>v. in_range (sl_bottom l) 65536 v \<longrightarrow> identity_mapped (bt_tables bt') True False v))"
proof -
  obtain n ss where ss: "stacks = fl_of n ss" "length ss \<le> n" using fl_invE [OF assms(3)] by metis
  have boot: "stack_layout_of (sl_guard_start boot) = Ok boot" using assms(2) by (auto simp: stack_layout_Ok)
  obtain ex k where "with_tables (map_ram_tables lk m linux ex ss) (Some bt) = (Ok k, t')"
    using assms(1) ss by (auto simp: map_usable_ram_def fl_iter_eq outcome_simps case_prod_unfold)
  then obtain bt' where run: "with_tables (map_ram_tables lk m linux ex ss) (Some bt) = (Ok k, Some bt')" and t': "t' = Some bt'"
    by (auto simp: with_tables_def bt_edit_def split: if_splits prod.splits)
  have "map_ram_tables lk m linux ex ss (bt_tables bt) = (Ok k, bt_tables bt')"
    using run by (auto simp: with_tables_def bt_edit_def split: if_splits prod.splits)
  then have "validate_stack (bt_tables bt') boot = Ok ()" "validate_secondary_stacks (bt_tables bt') ss = Ok ()"
    using assms(2) by (auto simp: map_ram_tables_def boot_stack_def outcome_simps)
  then show ?thesis
    using t' ss validate_stack_Ok boot assms(4) unfolding validate_secondary_stacks_Ok by (intro exI [of _ bt']) (auto simp: fl_of_simps)
qed

section \<open>One allocator behind the statics\<close>

definition alloc_of :: "global_page_allocator \<Rightarrow> page_allocator" where
  "alloc_of ga = \<lparr>pa_managed = ga_managed ga, pa_in_use = ga_in_use ga, pa_ram_pages = ga_ram_pages ga\<rparr>"

definition ga_rel :: "nat set \<Rightarrow> nat set \<Rightarrow> global_page_allocator \<Rightarrow> bool" where
  "ga_rel M U ga \<longleftrightarrow> ga_initialized ga \<and> pa_rel PAGE_BITMAP_BYTES M U (alloc_of ga) \<and>
     card M \<le> ga_ram_pages ga \<and> ga_ram_pages ga \<le> 8 * PAGE_BITMAP_BYTES"

lemma bitmap_bytes: "PAGE_BITMAP_BYTES = 131072" "32768 * PAGE_BITMAP_BYTES < 2 ^ 64"
  by (simp_all add: PAGE_BITMAP_BYTES_def MAX_PHYSICAL_ADDRESS_def PAGE_SIZE_def)

lemma with_allocator_eq:
  assumes "ga_rel M U ga"
  shows "with_allocator f ga = (case f (alloc_of ga) of (r, a') \<Rightarrow> (r, ga\<lparr>ga_managed := pa_managed a', ga_in_use := pa_in_use a'\<rparr>))"
proof -
  note r = pa_relD [of PAGE_BITMAP_BYTES M U "alloc_of ga"]
  have rel: "bm_rel PAGE_BITMAP_BYTES M (ga_managed ga)" "bm_rel PAGE_BITMAP_BYTES U (ga_in_use ga)" "U \<subseteq> M"
    using assms by (simp_all add: ga_rel_def pa_rel_def alloc_of_def)
  then have "card U \<le> card M" using bm_rel_finite by (auto intro: card_mono)
  then have "pa_from_existing (ga_managed ga) (ga_in_use ga) (ga_ram_pages ga) = Ok (alloc_of ga)"
    using assms rel bm_rel_pages [OF rel(1)] bm_rel_pages [OF rel(2)] bitmap_bytes
    by (simp add: pa_from_existing_def validate_bitmaps_def bm_rel_def ga_rel_def alloc_of_def)
  then show ?thesis using assms by (simp add: with_allocator_def ga_rel_def)
qed

lemma with_allocator_rel:
  assumes "ga_rel M U ga" and "f (alloc_of ga) = (r, a')" and "pa_rel PAGE_BITMAP_BYTES M V a'" and "pa_ram_pages a' = ga_ram_pages ga"
  shows "with_allocator f ga = (r, ga\<lparr>ga_managed := pa_managed a', ga_in_use := pa_in_use a'\<rparr>)"
    and "ga_rel M V (ga\<lparr>ga_managed := pa_managed a', ga_in_use := pa_in_use a'\<rparr>)"
  using assms with_allocator_eq [OF assms(1), of f] by (simp_all add: ga_rel_def alloc_of_def pa_rel_def)

lemma free_pages_steps: "pa_step\<^sup>*\<^sup>* a (snd (free_pages pa_free a ps))"
proof (induction ps arbitrary: a)
  case (Cons p ps)
  obtain r a1 where R: "pa_free a p = (r, a1)" by fastforce
  have "pa_step a a1" using step_free [of a p] R by simp
  then show ?case using Cons.IH [of a1] R by (cases r) (auto intro: converse_rtranclp_into_rtranclp)
qed simp

lemma free_stacks_steps: "pa_step\<^sup>*\<^sup>* a (snd (free_stacks ss a))"
proof (induction ss arbitrary: a)
  case (Cons s ss)
  let ?ps = "step_pages (sl_guard_start (ss_layout s)) (sl_top (ss_layout s))"
  obtain r a1 where R: "free_pages pa_free a ?ps = (r, a1)" by fastforce
  have "pa_step\<^sup>*\<^sup>* a a1" using free_pages_steps [of a ?ps] R by simp
  then show ?case using Cons.IH [of a1] R by (cases r) auto
qed simp

lemma stack_loop_steps: "pa_step\<^sup>*\<^sup>* a (snd (snd (stack_loop cpus stacks a)))"
proof (induction cpus stacks a rule: stack_loop.induct)
  case (2 cpu cpus stacks a)
  have "pa_step a (snd (allocate_contiguous a STACK_ALLOCATION_PAGES))" by (rule step_contiguous)
  then show ?case
    using 2 by (auto split: option.split outcome.split prod.split intro: converse_rtranclp_into_rtranclp)
qed simp

lemma allocate_stacks_steps: "pa_step\<^sup>*\<^sup>* a (snd (allocate_secondary_stacks t a))"
proof -
  let ?cpus = "filter (\<lambda>cpu. cd_enabled cpu \<and> cd_logical_id cpu \<noteq> Some 0) (ct_cpus t)"
  obtain r stacks a1 where R: "stack_loop ?cpus (fl_new MAX_CPUS) a = (r, stacks, a1)" by (metis prod.collapse)
  have 1: "pa_step\<^sup>*\<^sup>* a a1" using stack_loop_steps [of a ?cpus "fl_new MAX_CPUS"] R by simp
  have 2: "pa_step\<^sup>*\<^sup>* a1 (snd (st_then (fl_iter stacks, a1) (\<lambda>ss a1. st_then (free_stacks ss a1) (\<lambda>_ a2. (Err e, a2)))))" for e :: allocator_error
  proof (cases "fl_iter stacks :: (_, allocator_error) outcome")
    case (Ok ss)
    then show ?thesis using free_stacks_steps [of a1 ss] by (cases "free_stacks ss a1"; cases "fst (free_stacks ss a1)") auto
  qed simp_all
  show ?thesis using 1 2 R by (cases r) (auto simp: allocate_secondary_stacks_def intro: rtranclp_trans)
qed

inductive ga_step :: "global_page_allocator \<Rightarrow> global_page_allocator \<Rightarrow> bool" where
  ga_page: "ga_step ga (snd (mm_allocate_page ga))"
| ga_stacks: "ga_step ga (snd (mm_allocate_secondary_stacks topology ga))"
| ga_contiguous: "ga_step ga (snd (mm_allocate_contiguous_pages pages ga))"
| ga_free: "ga_step ga (snd (mm_free_page page ga))"
| ga_stats: "ga_step ga (snd (mm_allocator_stats ga))"
| ga_again: "ga_step ga (snd (initialize_allocator_after_takeover mem m dtb ga))"

lemma with_allocator_steps:
  assumes "ga_rel M U ga" and "pa_step\<^sup>*\<^sup>* (alloc_of ga) (snd (f (alloc_of ga)))"
  shows "\<exists>V. ga_rel M V (snd (with_allocator f ga))"
proof -
  have "pa_inv PAGE_BITMAP_BYTES M (ga_ram_pages ga) (alloc_of ga)" using assms(1) by (auto simp: pa_inv_def ga_rel_def alloc_of_def)
  then have "pa_inv PAGE_BITMAP_BYTES M (ga_ram_pages ga) (snd (f (alloc_of ga)))" by (rule pas.steps_invar [OF assms(2)])
  then obtain V where "pa_rel PAGE_BITMAP_BYTES M V (snd (f (alloc_of ga)))" "pa_ram_pages (snd (f (alloc_of ga))) = ga_ram_pages ga"
    by (auto simp: pa_inv_def)
  then show ?thesis using with_allocator_rel [OF assms(1), of f "fst (f (alloc_of ga))" "snd (f (alloc_of ga))" V] by auto
qed

lemma ga_step_rel:
  assumes "ga_step ga ga'" and "ga_rel M U ga"
  shows "\<exists>V. ga_rel M V ga'"
  using assms(1)
proof cases
  case ga_again
  then show ?thesis using assms(2) by (auto simp: initialize_allocator_after_takeover_def ga_rel_def)
next
  case ga_page
  then show ?thesis using with_allocator_steps [OF assms(2), of allocate] by (simp add: mm_allocate_page_def step_allocate r_into_rtranclp)
next
  case (ga_stacks t)
  then show ?thesis using with_allocator_steps [OF assms(2), of "allocate_secondary_stacks t"] allocate_stacks_steps
    by (simp add: mm_allocate_secondary_stacks_def)
next
  case (ga_contiguous k)
  then show ?thesis using with_allocator_steps [OF assms(2), of "\<lambda>a. allocate_contiguous a k"]
    by (simp add: mm_allocate_contiguous_pages_def step_contiguous r_into_rtranclp)
next
  case (ga_free p)
  then show ?thesis using with_allocator_steps [OF assms(2), of "\<lambda>a. pa_free a p"] by (simp add: mm_free_page_def step_free r_into_rtranclp)
next
  case ga_stats
  then show ?thesis using with_allocator_steps [OF assms(2), of "\<lambda>a. (pa_stats a, a)"] by (simp add: mm_allocator_stats_def)
qed

interpretation gat: transition_system "\<lambda>ga. \<exists>U. ga_rel M U ga" ga_step "\<lambda>ga. \<exists>U. ga_rel M U ga" for M
  by unfold_locales (auto intro: ga_step_rel)

lemma reserved_loop_Ok:
  "pa_rel n M U a \<Longrightarrow> 4096 dvd unat page \<Longrightarrow> reserved_loop a page stop = Ok () \<Longrightarrow> unat page \<le> 4096 * k \<Longrightarrow> 4096 * k < unat stop \<Longrightarrow> k \<notin> M"
proof (induction a page stop rule: reserved_loop.induct)
  case (1 a page stop)
  have lt: "page < stop" using 1(5,6) by (simp add: word_less_nat_alt)
  have st: "pa_state a page = Ok Reserved" and rest: "\<exists>q. checked_add page PAGE_SIZE = Some q \<and> reserved_loop a q stop = Ok ()"
    using 1(4) lt by (subst (asm) reserved_loop.simps, auto simp: outcome_simps split: if_splits option.splits)+
  obtain q where q: "checked_add page PAGE_SIZE = Some q" "reserved_loop a q stop = Ok ()" using rest by blast
  have uq: "unat q = unat page + 4096" using unat_checked_add [OF q(1)] by (simp add: PAGE_SIZE_def)
  show ?case
  proof (cases "unat page = 4096 * k")
    case True
    then show ?thesis using st pa_state_eq [OF 1(2), of page] by (auto split: if_splits)
  next
    case False
    then have "unat q \<le> 4096 * k" using 1(3,5) uq by (auto elim!: dvdE)
    then show ?thesis using 1(1) [OF lt _ _ q(1) 1(2) _ q(2)] 1(3,6) uq st by (auto intro: dvd_add)
  qed
qed

lemma aligned_region:
  assumes "region_new_aligned start sz PAGE_SIZE = Ok r"
  shows "4096 dvd unat (region_start r)" "unat (region_start r) = page_floor (unat start)" "unat (region_end r) = page_ceil (unat start + unat sz)"
    "unat start + unat sz + 4095 < 2 ^ 64"
proof -
  obtain e d where *: "checked_add start sz = Some e" "unat e + 4095 < 2 ^ 64"
      "checked_sub (word_of_nat (page_ceil (unat e))) (word_of_nat (page_floor (unat start))) = Some d"
      "r = \<lparr>region_start = word_of_nat (page_floor (unat start)), region_size = d\<rparr>"
    using assms by (auto simp: region_new_aligned_def align_down_page_eq align_up_page_eq split: if_splits option.splits)
  have e: "unat e = unat start + unat sz" using unat_checked_add [OF *(1)] .
  have f: "page_floor (unat start) < 2 ^ 64" using less_imp_diff_less [OF unsigned_less [where w = start and 'a = nat]] by (simp add: page_floor_def)
  have c: "page_ceil (unat e) < 2 ^ 64" using *(2) by (simp add: page_ceil_def page_floor_def)
  show s: "unat (region_start r) = page_floor (unat start)" using *(4) f by (simp add: unat_word_of_nat_u64)
  show "4096 dvd unat (region_start r)" unfolding s by (simp add: page_floor_def dvd_minus_mod)
  show "unat (region_end r) = page_ceil (unat start + unat sz)"
    using *(3,4) c e by (auto simp: region_end_def checked_sub_def unat_word_of_nat_u64 split: if_splits)
  show "unat start + unat sz + 4095 < 2 ^ 64" using *(2) e by simp
qed

lemma initialize_rel:
  assumes "mm_inv m" and "initialize_allocator_after_takeover mem m dtb ga_new = (Ok (stats, d), ga)"
    and "(\<Sum>r\<leftarrow>fl_list (mm_ram m). card (region_pages r)) \<le> 8 * PAGE_BITMAP_BYTES"
  shows "ga_rel (\<Union>(region_pages ` set (fl_list (mm_usable m)))) {} ga"
    and "v \<in> region_addrs dtb \<Longrightarrow> unat v div 4096 \<notin> \<Union>(region_pages ` set (fl_list (mm_usable m)))"
proof -
  let ?M = "\<Union>(region_pages ` set (fl_list (mm_usable m)))"
  obtain rs where rs: "mm_ram m = fl_of MAX_RAM_REGIONS rs" "length rs \<le> MAX_RAM_REGIONS" "\<forall>r \<in> set rs. region_wf r"
    using assms(1) unfolding mm_inv_def by (metis region_list_invE canonical_wf)
  obtain us where us: "mm_usable m = fl_of MAX_USABLE_RAM_REGIONS us" "length us \<le> MAX_USABLE_RAM_REGIONS" "\<forall>r \<in> set us. region_wf r"
    using assms(1) unfolding mm_inv_def by (metis region_list_invE canonical_wf)
  have wf: "\<forall>r \<in> set rs \<union> set us \<union> set us. region_wf r" using rs us by blast
  obtain a pages where new: "pa_new (mm_ram m) (mm_usable m) (mm_usable m) (bm_zeroed PAGE_BITMAP_BYTES) (bm_zeroed PAGE_BITMAP_BYTES) = Ok a"
    and pages: "region_new_aligned (region_start dtb) (region_size dtb) PAGE_SIZE = Ok pages"
    and loop: "reserved_loop a (region_start pages) (region_end pages) = Ok ()" and st: "pa_stats a = Ok stats"
    and ga: "ga = \<lparr>ga_managed = pa_managed a, ga_in_use = pa_in_use a, ga_ram_pages = stat_ram_pages stats, ga_initialized = True\<rparr>"
    using assms(2) by (auto simp: initialize_allocator_after_takeover_def ga_new_def outcome_simps Let_def)
  have len: "length (bm_bits (bm_zeroed PAGE_BITMAP_BYTES)) = PAGE_BITMAP_BYTES" by (simp add: bm_zeroed_def)
  have rel: "pa_rel PAGE_BITMAP_BYTES ?M {} a" "pa_ram_pages a = (\<Sum>r\<leftarrow>fl_list (mm_ram m). card (region_pages r))"
    using pa_new_Ok [OF new rs(1,2) us(1,2) us(1,2) wf len len bitmap_bytes(2)] rs us by (simp_all add: fl_of_simps)
  have "card ?M \<le> pa_ram_pages a" "stat_ram_pages stats = pa_ram_pages a"
    using st bm_rel_pages [of PAGE_BITMAP_BYTES ?M "pa_managed a"] rel(1) by (auto simp: pa_stats_def pa_rel_def Let_def split: if_splits)
  then show "ga_rel ?M {} ga" using rel assms(3) ga by (simp add: ga_rel_def alloc_of_def pa_rel_def)
  assume v: "v \<in> region_addrs dtb"
  note al = aligned_region [OF pages]
  have "region_wf dtb" using al(4) v by (auto simp: region_wf_def region_addrs_mem region_end_def)
  then have b: "unat (region_start dtb) \<le> unat v" "unat v < unat (region_start dtb) + unat (region_size dtb)"
    using v unat_region_end by (auto simp: region_addrs_mem word_le_nat_alt word_less_nat_alt)
  have "unat (region_start pages) \<le> 4096 * (unat v div 4096)"
    using div_le_mono [OF b(1), of 4096] unfolding al(2) page_floor_def by (simp add: minus_mod_eq_mult_div)
  moreover have "4096 * (unat v div 4096) < unat (region_end pages)"
    using b(2) page_ceil_le_iff [of _ "unat v div 4096"] times_div_less_eq_dividend [of 4096 "unat v"] unfolding al(3)
    by (meson le_less_trans not_less)
  ultimately show "unat v div 4096 \<notin> ?M" by (rule reserved_loop_Ok [OF rel(1) al(1) loop])
qed

section \<open>Correctness\<close>

text \<open>
  After a successful takeover, whatever sequence of page requests, stack allocations, frees
  and repeated initializations runs, the allocator statics stay one allocator over exactly the
  pages of usable RAM: the header checks of every call succeed, no page that holds a byte of the
  live device tree is managed, and a request for contiguous pages hands out a run of managed
  pages that were not in use, or reports exhaustion without a change when there is none.
\<close>

theorem global_allocator_correct:
  assumes "mm_inv m" and "initialize_allocator_after_takeover mem m dtb ga_new = (Ok (stats, d), ga0)"
    and "(\<Sum>r\<leftarrow>fl_list (mm_ram m). card (region_pages r)) \<le> 8 * PAGE_BITMAP_BYTES" and "ga_step\<^sup>*\<^sup>* ga0 ga"
    and "M = \<Union>(region_pages ` set (fl_list (mm_usable m)))"
  shows "\<exists>U. ga_rel M U ga \<and> U \<subseteq> M \<and> (\<forall>v \<in> region_addrs dtb. unat v div 4096 \<notin> M) \<and>
    (\<forall>k > 0. case mm_allocate_contiguous_pages k ga of
       (Ok p, ga') \<Rightarrow> \<exists>s. p = page_addr s \<and> {s..<s + k} \<subseteq> M - U \<and> ga_rel M (U \<union> {s..<s + k}) ga'
     | (Err e, ga') \<Rightarrow> e = Exhausted \<and> ga' = ga \<and> (\<nexists>s. {s..<s + k} \<subseteq> M - U)
     | (Panic, _) \<Rightarrow> False)"
proof -
  note start = initialize_rel [OF assms(1-3), folded assms(5)]
  obtain U where U: "ga_rel M U ga" using gat.steps_invar [OF assms(4)] start(1) by blast
  have rel: "pa_rel PAGE_BITMAP_BYTES M U (alloc_of ga)" using U by (simp add: ga_rel_def)
  have "case mm_allocate_contiguous_pages k ga of
       (Ok p, ga') \<Rightarrow> \<exists>s. p = page_addr s \<and> {s..<s + k} \<subseteq> M - U \<and> ga_rel M (U \<union> {s..<s + k}) ga'
     | (Err e, ga') \<Rightarrow> e = Exhausted \<and> ga' = ga \<and> (\<nexists>s. {s..<s + k} \<subseteq> M - U)
     | (Panic, _) \<Rightarrow> False" if "k > 0" for k
  proof -
    note post = allocate_contiguous_spec [OF rel that]
    let ?f = "\<lambda>a. allocate_contiguous a k"
    show ?thesis
    proof (cases "\<exists>s. free_run (M - U) k s")
      case True
      define z where "z = (LEAST s. free_run (M - U) k s)"
      have p: "fst (?f (alloc_of ga)) = Ok (page_addr z)" "free_run (M - U) k z"
        "pa_rel PAGE_BITMAP_BYTES M (U \<union> {z..<z + k}) (snd (?f (alloc_of ga)))" "pa_ram_pages (snd (?f (alloc_of ga))) = ga_ram_pages ga"
        using post True by (simp_all add: contiguous_post_def Let_def alloc_of_def z_def)
      have "?f (alloc_of ga) = (Ok (page_addr z), snd (?f (alloc_of ga)))" using p(1) by (simp add: prod_eq_iff)
      from with_allocator_rel [where f = ?f, OF U this p(3,4)] show ?thesis
        using p(2) by (auto simp: mm_allocate_contiguous_pages_def free_run_def)
    next
      case False
      then have "?f (alloc_of ga) = (Err Exhausted, alloc_of ga)" using post by (simp add: contiguous_post_def)
      then show ?thesis using False with_allocator_eq [OF U, of ?f]
        by (simp add: mm_allocate_contiguous_pages_def alloc_of_def free_run_def)
    qed
  qed
  then show ?thesis using U start(2) pa_relD(3) [OF rel] by blast
qed

text \<open>Eight pages of RAM, four of them usable, and a device tree of 64 bytes in the seventh.\<close>

definition tiny_map :: memory_map where
  "tiny_map = \<lparr>mm_ram = fl_of MAX_RAM_REGIONS [\<lparr>region_start = 0, region_size = 0x8000\<rparr>],
     mm_reserved = fl_of MAX_NORMALIZED_RESERVED_REGIONS [], mm_mmio = fl_of MAX_MMIO_REGIONS [],
     mm_usable = fl_of MAX_USABLE_RAM_REGIONS [\<lparr>region_start = 0x1000, region_size = 0x4000\<rparr>]\<rparr>"

definition tiny_dtb :: phys_region where
  "tiny_dtb = \<lparr>region_start = 0x6000, region_size = 64\<rparr>"

definition tiny_mem :: "u64 \<Rightarrow> u8" where
  "tiny_mem a = (if a = 0x6000 then 0xd0 else if a = 0x6001 then 0x0d else if a = 0x6002 then 0xfe else if a = 0x6003 then 0xed
     else if a = 0x6007 then 64 else 0)"

lemma tiny_pages:
  "region_pages \<lparr>region_start = 0, region_size = 0x8000\<rparr> = {..<8}" "region_pages \<lparr>region_start = 0x1000, region_size = 0x4000\<rparr> = {1..<5}"
  by (auto simp: region_pages_def)

lemma tiny_inv: "mm_inv tiny_map"
  by (simp add: mm_inv_def tiny_map_def canonical_def region_wf_def MAX_RAM_REGIONS_def MAX_NORMALIZED_RESERVED_REGIONS_def
      MAX_MMIO_REGIONS_def MAX_USABLE_RAM_REGIONS_def)

lemma tiny_initialize: "\<exists>stats ga. initialize_allocator_after_takeover tiny_mem tiny_map tiny_dtb ga_new = (Ok (stats, tiny_dtb), ga)"
proof -
  let ?r = "\<lparr>region_start = 0, region_size = 0x8000\<rparr> :: phys_region" and ?u = "\<lparr>region_start = 0x1000, region_size = 0x4000\<rparr> :: phys_region"
  let ?z = "bm_zeroed PAGE_BITMAP_BYTES"
  note defs = region_countable_def region_wf_def bounds_fit_def first_page_def end_page_def page_ceil_def page_floor_def region_end_def
  have len: "length (bm_bits ?z) = PAGE_BITMAP_BYTES" "0 < PAGE_BITMAP_BYTES" by (simp_all add: bm_zeroed_def bitmap_bytes(1))
  have fits: "length [?r] \<le> MAX_RAM_REGIONS" "length [?u] \<le> MAX_USABLE_RAM_REGIONS" by (simp_all add: MAX_RAM_REGIONS_def MAX_USABLE_RAM_REGIONS_def)
  have ok: "\<forall>r \<in> set [?r]. region_countable r" "\<forall>r \<in> set [?u]. region_wf r \<and> bounds_fit r \<and> end_page r \<le> 8 * PAGE_BITMAP_BYTES"
    "\<forall>r \<in> set [?u]. region_wf r \<and> bounds_fit r" "length [?r] < 2 ^ 31" "\<forall>r \<in> set [?r] \<union> set [?u] \<union> set [?u]. region_wf r"
    by (simp_all add: defs bitmap_bytes(1))
  obtain a where a: "pa_new (fl_of MAX_RAM_REGIONS [?r]) (fl_of MAX_USABLE_RAM_REGIONS [?u]) (fl_of MAX_USABLE_RAM_REGIONS [?u]) ?z ?z = Ok a"
    using pa_new_total [OF refl fits(1) refl fits(2) refl fits(2) ok(1,4,2,3) len(1) len(1) len(2) bitmap_bytes(2)] by blast
  have rel: "pa_rel PAGE_BITMAP_BYTES {1..<5} {} a" "pa_ram_pages a = 8"
    using pa_new_Ok [OF a refl fits(1) refl fits(2) refl fits(2) ok(5) len(1) len(1) bitmap_bytes(2)] by (simp_all add: tiny_pages)
  have st: "pa_state a 0x6000 = Ok Reserved" using pa_state_eq [OF rel(1), of "0x6000"] by (simp add: bitmap_bytes(1))
  obtain stats where stats: "pa_stats a = Ok stats" using pa_stats_spec [OF rel(1)] rel(2) by auto
  have "reserved_loop a 0x6000 0x7000 = Ok ()"
    by (subst reserved_loop.simps, subst reserved_loop.simps) (simp add: st PAGE_SIZE_def checked_add_def)
  moreover have "region_new_aligned 0x6000 64 PAGE_SIZE = Ok \<lparr>region_start = 0x6000, region_size = 0x1000\<rparr>"
    by (simp add: region_new_aligned_def align_down_page_eq align_up_page_eq checked_add_def checked_sub_def page_floor_def page_ceil_def)
  moreover have "validate_live_dtb tiny_mem tiny_dtb = Ok ()"
    by (simp add: validate_live_dtb_def tiny_dtb_def tiny_mem_def read_be32_def)
  ultimately show ?thesis
    using a stats by (simp add: initialize_allocator_after_takeover_def ga_new_def tiny_map_def tiny_dtb_def region_end_def Let_def)
qed

theorem global_allocator_correct_witness:
  "\<exists>stats ga0. initialize_allocator_after_takeover tiny_mem tiny_map tiny_dtb ga_new = (Ok (stats, tiny_dtb), ga0) \<and>
     mm_allocate_contiguous_pages 5 (snd (mm_allocate_page ga0)) = (Err Exhausted, snd (mm_allocate_page ga0))"
proof -
  obtain stats ga0 where i: "initialize_allocator_after_takeover tiny_mem tiny_map tiny_dtb ga_new = (Ok (stats, tiny_dtb), ga0)"
    using tiny_initialize by blast
  let ?ga = "snd (mm_allocate_page ga0)"
  have ram: "(\<Sum>r\<leftarrow>fl_list (mm_ram tiny_map). card (region_pages r)) \<le> 8 * PAGE_BITMAP_BYTES"
    and M: "{1..<5} = \<Union>(region_pages ` set (fl_list (mm_usable tiny_map)))"
    using tiny_pages by (simp_all add: tiny_map_def MAX_RAM_REGIONS_def MAX_USABLE_RAM_REGIONS_def bitmap_bytes(1))
  have s: "ga_step\<^sup>*\<^sup>* ga0 ?ga" using ga_page by blast
  obtain U where U: "U \<subseteq> {1..<5}" and c: "\<forall>k > 0. case mm_allocate_contiguous_pages k ?ga of
       (Ok p, ga') \<Rightarrow> \<exists>s. p = page_addr s \<and> {s..<s + k} \<subseteq> {1..<5} - U \<and> ga_rel {1..<5} (U \<union> {s..<s + k}) ga'
     | (Err e, ga') \<Rightarrow> e = Exhausted \<and> ga' = ?ga \<and> (\<nexists>s. {s..<s + k} \<subseteq> {1..<5} - U) | (Panic, _) \<Rightarrow> False"
    using global_allocator_correct [OF tiny_inv i ram s M] by blast
  have "\<not> {s..<s + 5} \<subseteq> {1..<5} - U" for s :: nat
  proof
    assume "{s..<s + 5} \<subseteq> {1..<5} - U"
    then have "{s..<s + 5} \<subseteq> {1..<5}" by blast
    then have "card {s..<s + 5} \<le> card {1..<5 :: nat}" by (intro card_mono) auto
    then show False by simp
  qed
  then have "mm_allocate_contiguous_pages 5 ?ga = (Err Exhausted, ?ga)"
    using c [rule_format, of 5] by (cases "mm_allocate_contiguous_pages 5 ?ga"; cases "fst (mm_allocate_contiguous_pages 5 ?ga)") auto
  then show ?thesis using i by blast
qed

text \<open>
  C10: the hypervisor's own tables. In every state the boot code can reach by building the
  tables, mapping usable RAM, mapping release cells and freezing, in any order, with any
  arguments and whether or not the calls succeed, every address translates to itself, no
  executable translation is writable and all of them lie in the text or the vectors of the
  image; a translation once present is never changed or removed, and after the freeze the
  tables never change again.
\<close>

theorem host_tables_safe:
  assumes "hm_inv lk hm0" and "(hm_step lk)\<^sup>*\<^sup>* hm0 hm" and "hm_tables hm = Some bt"
  shows "(\<forall>v t. unat v < 2 ^ 39 \<longrightarrow> walk (bt_tables bt) v = Ok (Some t) \<longrightarrow>
       tr_pa t = v \<and> (tr_executable t \<longrightarrow> \<not> tr_writable t \<and> tr_memory_type t = Normal \<and> in_code lk v)) \<and>
     (\<forall>hm'. (hm_step lk)\<^sup>*\<^sup>* hm hm' \<longrightarrow> (\<exists>bt'. hm_tables hm' = Some bt' \<and> (bt_frozen bt \<longrightarrow> bt' = bt) \<and>
       (\<forall>v t. unat v < 2 ^ 39 \<longrightarrow> walk (bt_tables bt) v = Ok (Some t) \<longrightarrow> walk (bt_tables bt') v = Ok (Some t)))) \<and>
     hm_inv lk \<lparr>hm_claimed = False, hm_tables = None\<rparr>"
proof -
  have inv: "hm_inv lk hm" using hmt.steps_invar [OF assms(2,1)] .
  then have "(\<forall>v t. unat v < 2 ^ 39 \<longrightarrow> walk (bt_tables bt) v = Ok (Some t) \<longrightarrow>
       tr_pa t = v \<and> (tr_executable t \<longrightarrow> \<not> tr_writable t \<and> tr_memory_type t = Normal \<and> in_code lk v))"
    using assms(3) by (auto simp: hm_inv_def host_ok_def)
  moreover have "\<exists>bt'. hm_tables hm' = Some bt' \<and> (bt_frozen bt \<longrightarrow> bt' = bt) \<and>
       (\<forall>v t. unat v < 2 ^ 39 \<longrightarrow> walk (bt_tables bt) v = Ok (Some t) \<longrightarrow> walk (bt_tables bt') v = Ok (Some t))"
    if "(hm_step lk)\<^sup>*\<^sup>* hm hm'" for hm'
    using hm_steps_kept [OF that inv assms(3)] by (auto simp: stable_def)
  moreover have "hm_inv lk \<lparr>hm_claimed = False, hm_tables = None\<rparr>" by (simp add: hm_inv_def)
  ultimately show ?thesis by blast
qed

definition block_symbols :: link_symbols where
  "block_symbols = \<lparr>sym_text_start = 0, sym_text_end = 0x40000000, sym_vectors_start = 0, sym_vectors_end = 0,
     sym_rodata_start = 0x40000000, sym_rodata_end = 0x80000000, sym_writable_start = 0x80000000, sym_writable_end = 0xc0000000,
     sym_tables_start = 0x80000000, sym_tables_end = 0x80010000, sym_boot_guard = 0x13ffff000\<rparr>"

lemma block_unmapped:
  assumes "unat v < 2 ^ 39" and "index_for 1 v \<notin> {0, 1, 2, 5}"
  shows "walk block_ts v = Ok None"
proof -
  have "entry_of block_ts 0 (index_for 1 v) = 0" using assms(2) by (simp add: block_entry)
  moreover have "0 < ts_used block_ts" by (simp add: block_ts_def)
  ultimately have "walk_loop block_ts v 0 (1 # [2, 3]) = Ok None" using walk_loop_zero [OF block_ts_frame] by blast
  then show ?thesis using walk_eq [OF assms(1)] by (simp add: upt_rec numeral_eq_Suc)
qed

lemma block_host_ok: "host_ok block_symbols block_ts"
proof -
  have "tr_pa t = v \<and> (tr_executable t \<longrightarrow> \<not> tr_writable t \<and> tr_memory_type t = Normal \<and> in_code block_symbols v)"
    if v: "unat v < 2 ^ 39" and t: "walk block_ts v = Ok (Some t)" for v t
  proof -
    define k where "k = unat v div 2 ^ 30"
    have i: "index_for 1 v = k" using v by (simp add: index_for_eq vpn_def level_shift_simps k_def less_mult_imp_div_less)
    then have k: "k \<in> {0, 1, 2, 5}" using block_unmapped [OF v] t by fastforce
    have b: "k * 2 ^ 30 \<le> unat v" "unat v < k * 2 ^ 30 + 2 ^ 30"
      unfolding k_def using dividend_less_times_div [of "2 ^ 30" "unat v"] times_div_less_eq_dividend [of "2 ^ 30" "unat v"] by simp_all
    have m: "identity_mapped block_ts (k = 2 \<or> k = 5) (k = 0) v"
      using k b block_walk [of 0 0 False True v] block_walk [of 1 "0x40000000" False False v] block_walk [of 2 "0x80000000" True False v]
        block_walk [of 5 "0x140000000" True False v] by (auto simp: block_entry)
    show ?thesis using m t b by (auto simp: identity_mapped_def in_code_def block_symbols_def word_less_nat_alt)
  qed
  then show ?thesis using block_ts_inv by (simp add: host_ok_def)
qed

theorem host_tables_safe_witness:
  "let frozen = \<lparr>hm_claimed = True, hm_tables = Some \<lparr>bt_tables = block_ts, bt_frozen = True\<rparr>\<rparr> in
     (hm_step block_symbols)\<^sup>*\<^sup>* \<lparr>hm_claimed = True, hm_tables = Some (bt_new block_ts)\<rparr> frozen \<and>
     hm_tables (snd (setup_el2_stage1_page_table block_symbols None None tiny_dtb tiny_dtb tiny_dtb [] frozen)) = hm_tables frozen"
proof -
  let ?first = "\<lparr>hm_claimed = True, hm_tables = Some (bt_new block_ts)\<rparr>"
  let ?hm = "\<lparr>hm_claimed = True, hm_tables = Some \<lparr>bt_tables = block_ts, bt_frozen = True\<rparr>\<rparr>"
  have inv: "hm_inv block_symbols ?first" using block_host_ok by (simp add: hm_inv_def bt_new_def)
  have "snd (validate_and_freeze_startups (\<lambda>_. Ok ()) (hm_tables ?first)) = hm_tables ?hm"
    by (simp add: validate_and_freeze_startups_def validate_and_freeze_def bt_new_def)
  then have s: "(hm_step block_symbols)\<^sup>*\<^sup>* ?first ?hm"
    using hs_freeze [of block_symbols ?first "\<lambda>_. Ok ()"] by simp
  have t: "(hm_step block_symbols)\<^sup>*\<^sup>* ?hm (snd (setup_el2_stage1_page_table block_symbols None None tiny_dtb tiny_dtb tiny_dtb [] ?hm))"
    using hs_setup by blast
  have "hm_tables ?hm = Some \<lparr>bt_tables = block_ts, bt_frozen = True\<rparr>" by simp
  from host_tables_safe [OF inv s this, THEN conjunct2, THEN conjunct1, rule_format, OF t]
  have "hm_tables (snd (setup_el2_stage1_page_table block_symbols None None tiny_dtb tiny_dtb tiny_dtb [] ?hm)) = hm_tables ?hm" by auto
  then show ?thesis unfolding Let_def by (rule conjI [OF s])
qed

end
