(* ===== verification/Secondary_Start.thy ===== *)
theory Secondary_Start
  imports Boot_Protocol Host_Memory
begin

text \<open>
  Starting the secondary CPUs (\<open>src/secondary.rs\<close> with the parts of \<open>src/pcpu.rs\<close> and
  \<open>src/smp.rs\<close> it calls), as programs over the shared state of the boot: \<open>start_all\<close> runs on
  CPU 0, \<open>secondary_main\<close> on each released CPU, and \<open>ensure_guest_authorized\<close> before a guest.
  The tables and the statics behind a lock or a \<open>Once\<close> are read in one step; messages to the
  console are left out.
\<close>

text \<open>
  What the boot CPU finds: the statics fixed by discovery, the addresses the linker chose and
  the values its registers hold. \<open>be_par\<close> is the result of an address translation request
  against the tables, \<open>be_counter\<close> the successive values of the physical counter.
\<close>

record boot_env =
  be_topology :: "cpu_topology option"
  be_memory_map :: "memory_map option"
  be_contract :: "startup_memory_contract option"
  be_link :: link_symbols
  be_slots :: u64
  be_config :: u64
  be_entry :: u64
  be_vectors :: u64
  be_midr :: u64
  be_mpidr :: u64
  be_mair :: u64
  be_tcr :: u64
  be_root :: u64
  be_sctlr :: u64
  be_cntfrq :: u64
  be_ctr :: u64
  be_tpidr :: u64
  be_sp :: u64
  be_par :: "table_set boot_tables option \<Rightarrow> u64 \<Rightarrow> u64"
  be_counter :: "nat \<Rightarrow> u64"

definition GENERATION :: u64 where "GENERATION = 1"

definition slot_at :: "boot_env \<Rightarrow> nat \<Rightarrow> u64" where
  "slot_at env i = slot_address (be_slots env) i"

definition startup :: "boot_env \<Rightarrow> nat \<Rightarrow> u64 \<Rightarrow> (boot_sys, (startup_view option, string) outcome) prog" where
  "startup env i generation =
     (if MAX_CPUS \<le> i then Ret (Ok None)
      else pbind (on_config hs_get) (\<lambda>c. case c of
          None \<Rightarrow> Ret (Ok None)
        | Some config \<Rightarrow> on_slot i (slot_startup_view (slot_at env i) (be_config env) generation config)))"

definition startup_or :: "'e \<Rightarrow> boot_env \<Rightarrow> nat \<Rightarrow> (boot_sys, (startup_view, 'e) outcome) prog" where
  "startup_or e env i = pbind (startup env i GENERATION) (\<lambda>r. Ret (and_then (map_err (\<lambda>_. e) r) (ok_or e)))"

definition required_mask :: "boot_env \<Rightarrow> (u64, 'e) outcome" where
  "required_mask env = (case be_topology env of
       None \<Rightarrow> Ok 0
     | Some t \<Rightarrow> (case secondary_mask (ct_cpus t) of Ok m \<Rightarrow> Ok m | Err _ \<Rightarrow> Ok 0 | Panic \<Rightarrow> Panic))"

section \<open>Per-CPU storage (\<open>src/pcpu.rs\<close>)\<close>

definition assert_ctx :: "(pcpu_context \<Rightarrow> u64) \<Rightarrow> (u64 \<Rightarrow> bool) \<Rightarrow> (pcpu_slot, (unit, 'e) outcome) prog" where
  "assert_ctx field ok = pbind (aload (\<lambda>s. field (ps_context s))) (\<lambda>v. Ret (if ok v then Ok () else Panic))"

definition assert_boot_cpu_idle :: "boot_env \<Rightarrow> (boot_sys, (unit, 'e) outcome) prog" where
  "assert_boot_cpu_idle env =
     (if be_tpidr env \<noteq> slot_at env 0 then Ret Panic
      else on_slot 0 (
        pthen (assert_ctx pc_logical_id (\<lambda>v. v = 0)) (\<lambda>_.
        pthen (assert_ctx pc_affinity (\<lambda>v. v = be_mpidr env AND MPIDR_AFFINITY_MASK)) (\<lambda>_.
        pthen (assert_ctx pc_present (\<lambda>v. v = 1)) (\<lambda>_.
        pthen (assert_ctx pc_active_vcpu (\<lambda>v. v = 0)) (\<lambda>_.
        pbind (aload (\<lambda>s. pc_host_sp (ps_context s))) (\<lambda>saved.
        pthen (if saved = 0 then Ret (Ok ())
               else pthen (assert_ctx pc_stack_bottom (\<lambda>v. v \<le> saved)) (\<lambda>_.
                    assert_ctx pc_stack_top (\<lambda>v. saved < v \<and> saved AND 15 = 0))) (\<lambda>_.
        pthen (assert_ctx pc_stack_bottom (\<lambda>v. v \<le> be_sp env)) (\<lambda>_.
        assert_ctx pc_stack_top (\<lambda>v. be_sp env < v))))))))))"

definition prepared_layout :: "cpu_identity \<Rightarrow> (stack_layout, string) outcome" where
  "prepared_layout c =
     and_then (ok_or ''invalid prepared guard'' (checked_sub (ci_stack_bottom c) GUARD_SIZE)) (\<lambda>guard.
     and_then (map_err (\<lambda>_. ''invalid prepared stack'') (stack_layout_of guard)) (\<lambda>layout.
     if sl_top layout \<noteq> ci_stack_top c then Err ''inconsistent prepared stack'' else Ok layout))"

fun stacks_loop :: "boot_env \<Rightarrow> nat list \<Rightarrow> stack_layout fixed_list \<Rightarrow> (boot_sys, (stack_layout fixed_list, string) outcome) prog" where
  "stacks_loop env [] result = Ret (Ok result)"
| "stacks_loop env (i # is) result =
     pthen (on_slot i is_prepared) (\<lambda>prepared.
     if \<not> prepared then stacks_loop env is result else
     pthen (on_slot i (slot_identity (slot_at env i))) (\<lambda>x.
     pthen (Ret (and_then (ok_or ''unpublished prepared context'' x) prepared_layout)) (\<lambda>layout.
     case fl_push result layout of (r, result') \<Rightarrow>
     pthen (Ret (map_err (\<lambda>_. ''prepared stack capacity exceeded'') r)) (\<lambda>_. stacks_loop env is result'))))"

definition prepared_stacks :: "boot_env \<Rightarrow> (boot_sys, (stack_layout fixed_list, string) outcome) prog" where
  "prepared_stacks env = pthen (assert_boot_cpu_idle env) (\<lambda>_. stacks_loop env [0..<MAX_CPUS] (fl_new MAX_CPUS))"

definition validate_secondary_context :: "boot_env \<Rightarrow> u64 \<Rightarrow> u64 \<Rightarrow> u64 \<Rightarrow> u64 \<Rightarrow> u64 \<Rightarrow> (boot_sys, (bool, string) outcome) prog" where
  "validate_secondary_context env k affinity bottom stack_top pointer =
     (let i = unat k in
      if MAX_CPUS \<le> i \<or> i = 0 \<or> slot_at env i \<noteq> pointer then Ret (Ok False)
      else on_slot i (pthen is_prepared (\<lambda>prepared.
        if \<not> prepared then Ret (Ok False)
        else pthen (slot_identity (slot_at env i)) (\<lambda>x. case x of
            None \<Rightarrow> Ret (Ok False)
          | Some identity \<Rightarrow>
              if ci_logical_id identity \<noteq> k \<or> ci_affinity identity \<noteq> affinity \<or> ci_stack_bottom identity \<noteq> bottom \<or>
                 ci_stack_top identity \<noteq> stack_top then Ret (Ok False)
              else pbind (aload (\<lambda>s. pc_host_sp (ps_context s))) (\<lambda>saved.
                if saved \<noteq> 0 then Ret (Ok False)
                else pbind (aload (\<lambda>s. pc_active_vcpu (ps_context s))) (\<lambda>v. Ret (Ok (v = 0))))))))"

section \<open>Release cells (\<open>src/smp.rs\<close>)\<close>

definition PA_PAGE_MASK :: u64 where "PA_PAGE_MASK = 0x000ffffffffff000"

definition smp_read_release_cell :: "boot_env \<Rightarrow> u64 \<Rightarrow> (boot_sys, (u64, startup_contract_error) outcome) prog" where
  "smp_read_release_cell env address =
     pbind (aload bs_tables) (\<lambda>tables.
       let par = be_par env tables address in
       if par AND 1 \<noteq> 0 \<or> par AND PA_PAGE_MASK \<noteq> address AND PA_PAGE_MASK then Ret (Err ReleaseCellNotIdentityMapped)
       else on_hw (read_release_cell address))"

definition verify_unreleased_cell :: "boot_env \<Rightarrow> u64 \<Rightarrow> (boot_sys, (unit, startup_contract_error) outcome) prog" where
  "verify_unreleased_cell env address =
     pthen (Ret (is_release_cell (be_contract env) address)) (\<lambda>known.
     if \<not> known then Ret (Err MissingHoldingReservation)
     else pthen (smp_read_release_cell env address) (\<lambda>value. Ret (if value \<noteq> 0 then Err NonzeroReleaseCell else Ok ())))"

fun release_set_loop :: "boot_env \<Rightarrow> cpu_descriptor list \<Rightarrow> u64 \<Rightarrow> u64 \<Rightarrow> phys_region list \<Rightarrow> (boot_sys, (unit, string) outcome) prog" where
  "release_set_loop env cpus released entry [] = Ret (Ok ())"
| "release_set_loop env cpus released entry (cell # cells) =
     pthen (pbind (smp_read_release_cell env (region_start cell)) (\<lambda>r. Ret (map_err (\<lambda>_. ''release-cell readback failed'') r))) (\<lambda>value.
     case verify_release_value cpus released (region_start cell) entry value of
       Ok _ \<Rightarrow> release_set_loop env cpus released entry cells
     | Err _ \<Rightarrow> Ret (Err ''unexpected release-cell value'')
     | Panic \<Rightarrow> Ret Panic)"

definition verify_release_set :: "boot_env \<Rightarrow> u64 \<Rightarrow> u64 \<Rightarrow> (boot_sys, (unit, string) outcome) prog" where
  "verify_release_set env released entry =
     pthen (Ret (ok_or ''startup contract unavailable'' (be_contract env))) (\<lambda>contract.
     pthen (Ret (ok_or ''topology unavailable'' (be_topology env))) (\<lambda>topology.
     pthen (Ret (fl_iter (sc_release_cells contract))) (\<lambda>cells. release_set_loop env (ct_cpus topology) released entry cells)))"

section \<open>Preparation (\<open>src/secondary.rs\<close>)\<close>

primrec progress_loop :: "boot_env \<Rightarrow> u64 \<Rightarrow> nat \<Rightarrow> (boot_sys, bool) prog" where
  "progress_loop env start 0 = Ret False"
| "progress_loop env start (Suc n) =
     pbind (on_hw (physical_counter (be_counter env))) (\<lambda>now.
     if counter_progresses start now then Ret True else progress_loop env start n)"

definition validate_platform ::
  "('n, 'p, 'z) device_tree_scheme \<Rightarrow> boot_env \<Rightarrow> host_translation \<Rightarrow> (boot_sys, (entry_contract \<times> startup_deadline, string) outcome) prog" where
  "validate_platform dt env policy =
     pthen (Ret (ok_or ''missing CPU topology'' (be_topology env))) (\<lambda>topology.
     pthen (Ret (map_err (\<lambda>_. ''unsupported Raspberry Pi 4 Model B backend profile'')
       (backend_select dt topology (be_midr env) (be_mpidr env)))) (\<lambda>backend.
     let contract = backend_contract backend in
     pthen (assert_boot_cpu_idle env) (\<lambda>_.
     if \<not> el2_mmu_off contract \<or> \<not> coherent contract then Ret (Err ''unverified entry contract'')
     else if (be_mair env, be_tcr env, be_root env, be_sctlr env) \<noteq> (ht_mair policy, ht_tcr policy, ht_root policy, ht_sctlr policy)
     then Ret (Err ''active host translation differs from startup policy'') else
     pthen (Ret (ok_or ''invalid startup counter frequency'' (deadline_new (be_cntfrq env) 2))) (\<lambda>deadline.
     pbind (on_hw (physical_counter (be_counter env))) (\<lambda>start.
     pbind (progress_loop env start 100000) (\<lambda>progressed.
     Ret (if \<not> progressed then Err ''physical startup counter did not progress'' else Ok (contract, deadline))))))))"

text \<open>The tables lock is held for the whole call.\<close>

definition tables_op :: "(table_set boot_tables option \<Rightarrow> 'a \<times> table_set boot_tables option) \<Rightarrow> (boot_sys, 'a) prog" where
  "tables_op f = armw (\<lambda>s. case f (bs_tables s) of (a, t) \<Rightarrow> (s\<lparr>bs_tables := t\<rparr>, a))"

fun identity_loop :: "boot_env \<Rightarrow> u64 list \<Rightarrow> (boot_sys, (unit, string) outcome) prog" where
  "identity_loop env [] = Ret (Ok ())"
| "identity_loop env (address # rest) =
     pbind (aload bs_tables) (\<lambda>tables.
       let par = be_par env tables address in
       if par AND 1 \<noteq> 0 \<or> par AND PA_PAGE_MASK \<noteq> address then Ret (Err ''startup mapping is not identity mapped'')
       else identity_loop env rest)"

definition validate_identity_range :: "boot_env \<Rightarrow> u64 \<Rightarrow> u64 \<Rightarrow> (boot_sys, (unit, string) outcome) prog" where
  "validate_identity_range env start stop =
     (if stop \<le> start \<or> start AND 4095 \<noteq> 0 \<or> stop AND 4095 \<noteq> 0 then Ret (Err ''invalid startup mapping range'')
      else identity_loop env (step_pages start stop))"

definition bounds :: "u64 \<Rightarrow> u64 \<Rightarrow> (phys_region, string) outcome" where
  "bounds start stop = map_err (\<lambda>_. ''invalid startup region'') (region_from_bounds start stop)"

definition resources_new :: "boot_env \<Rightarrow> host_translation \<Rightarrow> cpu_identity \<Rightarrow> phys_region \<Rightarrow> (startup_resources, string) outcome" where
  "resources_new env policy identity page =
     (let lk = be_link env in
      and_then (bounds (sym_text_start lk) (sym_text_end lk)) (\<lambda>code.
      and_then (bounds (sym_vectors_start lk) (sym_vectors_end lk)) (\<lambda>vectors.
      and_then (bounds (sym_rodata_start lk) (sym_rodata_end lk)) (\<lambda>rodata.
      and_then (bounds (sym_writable_start lk) (sym_writable_end lk)) (\<lambda>writable.
      and_then (bounds (sym_tables_start lk) (sym_tables_end lk)) (\<lambda>tables.
      and_then (map_err (\<lambda>_. ''invalid slot array region'') (region_new (be_slots env) SIZE_OF_SLOTS)) (\<lambda>slots.
      and_then (map_err (\<lambda>_. ''invalid shared host config region'') (region_new (be_config env) SIZE_OF_CONFIG_STORAGE)) (\<lambda>config.
      and_then (map_err (\<lambda>_. ''invalid context region'') (region_new (ci_context identity) SIZE_OF_CONTEXT)) (\<lambda>context.
      and_then (ok_or ''invalid stack guard'' (checked_sub (ci_stack_bottom identity) GUARD_SIZE)) (\<lambda>guard.
      and_then (map_err (\<lambda>_. ''invalid stack layout'') (stack_layout_of guard)) (\<lambda>stack.
      Ok \<lparr>sr_code = code, sr_vectors = vectors, sr_rodata = rodata, sr_writable = writable, sr_tables = tables, sr_slots = slots,
          sr_config = config, sr_context = context, sr_release_page = page, sr_stack = stack, sr_entry = be_entry env,
          sr_root = ht_root policy\<rparr>)))))))))))"

definition startup_resources_for :: "boot_env \<Rightarrow> nat \<Rightarrow> host_translation \<Rightarrow> (boot_sys, (startup_resources, string) outcome) prog" where
  "startup_resources_for env i policy =
     (let lk = be_link env in
     pthen (Ret (ok_or ''missing topology'' (be_topology env))) (\<lambda>topology.
     pthen (Ret (map_err (\<lambda>_. ''invalid release target'') (validate_spin_table_target (ct_cpus topology) i))) (\<lambda>address.
     if MAX_CPUS \<le> i then Ret (Err ''secondary slot unavailable'') else
     pthen (on_slot i (slot_identity (slot_at env i))) (\<lambda>x.
     pthen (Ret (ok_or ''secondary resources unavailable'' x)) (\<lambda>identity.
     pthen (plift bs_slots (\<lambda>x s. s\<lparr>bs_slots := x\<rparr>) (find_slot_by_affinity (be_slots env) MAX_CPUS (ci_affinity identity))) (\<lambda>matched.
     if matched \<noteq> Some i then Ret (Err ''secondary affinity is not uniquely routed to its slot'')
     else if \<not> list_ex (\<lambda>cpu. cd_enabled cpu \<and> cd_logical_id cpu = Some i \<and> cd_affinity cpu = ci_affinity identity) (ct_cpus topology)
     then Ret (Err ''prepared secondary affinity differs from topology'') else
     pthen (validate_identity_range env (sym_text_start lk) (sym_writable_end lk)) (\<lambda>_.
     pthen (validate_identity_range env (sym_tables_start lk) (sym_tables_end lk)) (\<lambda>_.
     pthen (validate_identity_range env (ci_stack_bottom identity) (ci_stack_top identity)) (\<lambda>_.
     pthen (Ret (ok_or ''memory map unavailable'' (be_memory_map env))) (\<lambda>m.
     pthen (Ret (map_err (\<lambda>_. ''firmware release page ownership failed'') (release_page m address))) (\<lambda>page.
     pthen (Ret (resources_new env policy identity page)) (\<lambda>resources.
     pthen (pbind (verify_unreleased_cell env address) (\<lambda>r. Ret (map_err (\<lambda>_. ''release cell is not zero or identity mapped'') r))) (\<lambda>_.
     Ret (Ok resources))))))))))))))"

fun prepare_loop ::
  "boot_env \<Rightarrow> u64 \<Rightarrow> host_translation \<Rightarrow> host_config \<Rightarrow> cpu_descriptor list \<Rightarrow> nat list \<Rightarrow>
   (boot_sys, (startup_resources option list, string) outcome) prog" where
  "prepare_loop env required policy config cpus [] = Ret (Ok [])"
| "prepare_loop env required policy config cpus (i # is) =
     (if required AND push_bit i 1 = 0
      then pthen (prepare_loop env required policy config cpus is) (\<lambda>rest. Ret (Ok (None # rest)))
      else
     pthen (Ret (map_err (\<lambda>_. ''invalid target'') (validate_spin_table_target cpus i))) (\<lambda>address.
     pthen (pbind (tables_op (map_firmware_release_cell (be_contract env) (be_memory_map env) address)) (\<lambda>r.
       Ret (map_err (\<lambda>_. ''release mapping failed'') r))) (\<lambda>_.
     pthen (startup_resources_for env i policy) (\<lambda>resource.
     if MAX_CPUS \<le> i then Ret (Err ''missing slot'') else
     pthen (on_slot i (publish_startup (slot_at env i) GENERATION config)) (\<lambda>_.
     pthen (prepare_loop env required policy config cpus is) (\<lambda>rest. Ret (Ok (Some resource # rest))))))))"

definition prepare_all_cpus :: "boot_env \<Rightarrow> u64 \<Rightarrow> host_translation \<Rightarrow> (boot_sys, (startup_resources option list, string) outcome) prog" where
  "prepare_all_cpus env required policy =
     pthen (pbind (on_config (hs_publish 0 policy)) (\<lambda>r. Ret (map_err (\<lambda>_. ''host config already published'') r))) (\<lambda>_.
     pbind (on_config hs_get) (\<lambda>c.
     pthen (Ret (ok_or ''host config unavailable'' c)) (\<lambda>config.
     pthen (Ret (ok_or ''missing topology'' (be_topology env))) (\<lambda>topology.
     pthen (prepare_loop env required policy config (ct_cpus topology) [1..<MAX_CPUS]) (\<lambda>rest. Ret (Ok (None # rest)))))))"

fun validate_all :: "table_set \<Rightarrow> startup_resources option list \<Rightarrow> (unit, resource_error) outcome" where
  "validate_all ts [] = Ok ()"
| "validate_all ts (None # rs) = validate_all ts rs"
| "validate_all ts (Some r # rs) = and_then (validate_resources ts r) (\<lambda>_. validate_all ts rs)"

definition freeze_startups :: "boot_env \<Rightarrow> startup_resources option list \<Rightarrow> (boot_sys, (unit, string) outcome) prog" where
  "freeze_startups env resources =
     pthen (prepared_stacks env) (\<lambda>stacks.
     pbind (tables_op (validate_and_freeze_startups (\<lambda>ts. and_then (validate_all ts resources) (\<lambda>_. validate_stacks ts stacks)))) (\<lambda>r.
     Ret (map_err (\<lambda>_. ''startup resource validation/freeze failed'') r)))"

definition cache_line_size :: "boot_env \<Rightarrow> u64" where
  "cache_line_size env = push_bit (unat (drop_bit 16 (be_ctr env) AND 15)) 4"

section \<open>Publication and release\<close>

fun check_publications ::
  "boot_env \<Rightarrow> cpu_descriptor list \<Rightarrow> entry_contract \<Rightarrow> u64 \<Rightarrow> startup_resources \<Rightarrow> nat \<Rightarrow> startup_resources option list \<Rightarrow>
   (boot_sys, (unit, string) outcome) prog" where
  "check_publications env cpus contract line shared i [] = Ret (Ok ())"
| "check_publications env cpus contract line shared i (None # rs) = check_publications env cpus contract line shared (Suc i) rs"
| "check_publications env cpus contract line shared i (Some r # rs) =
     (if shared_regions r \<noteq> shared_regions shared then Ret (Err ''inconsistent shared startup regions'') else
     pthen (startup_or ''missing startup'' env i) (\<lambda>record.
     pthen (pbind (on_slot i (validate_publication cpus i contract record r line)) (\<lambda>x. Ret (map_err (\<lambda>_. ''invalid publication'') x))) (\<lambda>_.
     check_publications env cpus contract line shared (Suc i) rs)))"

fun publish_stacks :: "u64 \<Rightarrow> startup_resources list \<Rightarrow> (release_hw, (unit, publication_error) outcome) prog" where
  "publish_stacks line [] = Ret (Ok ())"
| "publish_stacks line (r # rs) = pthen (publish_cpu_startup (sr_stack r) line) (\<lambda>_. publish_stacks line rs)"

definition publish_all_startups ::
  "boot_env \<Rightarrow> startup_resources option list \<Rightarrow> entry_contract \<Rightarrow> u64 \<Rightarrow> (boot_sys, (unit, string) outcome) prog" where
  "publish_all_startups env resources contract line =
     pthen (on_boot boot_status) (\<lambda>st.
     if st \<noteq> Preparing then Ret (Err ''publication outside frozen preparation'') else
     pbind (aload (\<lambda>s. startup_tables_frozen (bs_tables s))) (\<lambda>frozen.
     if \<not> frozen then Ret (Err ''publication outside frozen preparation'') else
     pthen (Ret (ok_or ''missing topology'' (be_topology env))) (\<lambda>topology.
     case List.map_filter (\<lambda>x. x) resources of
       [] \<Rightarrow> Ret (Err ''no startup resources'')
     | shared # _ \<Rightarrow>
         pthen (check_publications env (ct_cpus topology) contract line shared 0 resources) (\<lambda>_.
         pthen (pbind (on_hw (publish_shared_startup shared line)) (\<lambda>r. Ret (map_err (\<lambda>_. ''shared publication failed'') r))) (\<lambda>_.
         pthen (pbind (on_hw (publish_stacks line (List.map_filter (\<lambda>x. x) resources))) (\<lambda>r.
           Ret (map_err (\<lambda>_. ''stack publication failed'') r))) (\<lambda>_.
         on_hw publication_barrier))))))"

definition wait_for_secondary :: "boot_env \<Rightarrow> nat \<Rightarrow> startup_deadline \<Rightarrow> u64 \<Rightarrow> (boot_sys, (unit, boot_error) outcome) prog" where
  "wait_for_secondary env i deadline start =
     pthen (startup_or InvalidCheckpoint env i) (\<lambda>record.
     pbind (wait_for_parked i record i GENERATION (sd_ticks deadline) 100000000
       (pbind (on_hw (physical_counter (be_counter env))) (\<lambda>now. Ret (deadline_elapsed deadline start now)))) (\<lambda>result.
     if result = Panic then Ret Panic else
     pbind (on_slot i (on_mailbox (mb_lifecycle_of GENERATION))) (\<lambda>st. Ret (if st = Panic then Panic else result))))"

fun release_each_cpu ::
  "boot_env \<Rightarrow> u64 \<Rightarrow> cpu_descriptor list \<Rightarrow> entry_contract \<Rightarrow> startup_deadline \<Rightarrow> u64 \<Rightarrow> nat list \<Rightarrow>
   (boot_sys, (unit, boot_error) outcome) prog" where
  "release_each_cpu env required cpus contract deadline line [] = Ret (Ok ())"
| "release_each_cpu env required cpus contract deadline line (i # is) =
     (if required AND push_bit i 1 = 0 then release_each_cpu env required cpus contract deadline line is else
     pbind has_fatal (\<lambda>fatal.
     if fatal then Ret (Err Fatal) else
     pthen (startup_or InvalidCheckpoint env i) (\<lambda>record.
     pthen (pbind (release_secondary (be_counter env) cpus contract i record (be_entry env) line) (\<lambda>r. Ret (map_err Release r))) (\<lambda>start.
     pthen (wait_for_secondary env i deadline start) (\<lambda>_.
     pbind (aload bs_attempted) (\<lambda>attempted.
     pthen (pbind (verify_release_set env attempted (be_entry env)) (\<lambda>r. Ret (map_err (\<lambda>_. Readback) r))) (\<lambda>_.
     release_each_cpu env required cpus contract deadline line is)))))))"

definition release_and_wait ::
  "boot_env \<Rightarrow> u64 \<Rightarrow> entry_contract \<Rightarrow> startup_deadline \<Rightarrow> u64 \<Rightarrow> (boot_sys, (unit, boot_error) outcome) prog" where
  "release_and_wait env required contract deadline line =
     pthen (on_boot boot_status) (\<lambda>st.
     if st \<noteq> Releasing then Ret (Err BadTransition) else
     pbind (aload (\<lambda>s. startup_tables_frozen (bs_tables s))) (\<lambda>frozen.
     if \<not> frozen then Ret (Err BadTransition) else
     pthen (Ret (ok_or InvalidCheckpoint (be_topology env))) (\<lambda>topology.
     release_each_cpu env required (ct_cpus topology) contract deadline line [1..<MAX_CPUS])))"

definition parked_record :: "boot_env \<Rightarrow> nat \<Rightarrow> record_source" where
  "parked_record env i = pbind (startup env i GENERATION) (\<lambda>r.
     Ret (and_then (map_err (\<lambda>_. InvalidCheckpoint) r) (\<lambda>x. Ok (map_option (\<lambda>record. (i, i, record)) x))))"

definition check_all_parked :: "boot_env \<Rightarrow> u64 \<Rightarrow> (boot_sys, (unit, boot_error) outcome) prog" where
  "check_all_parked env required =
     pbind (aload bs_attempted) (\<lambda>attempted.
     if attempted \<noteq> required then Ret (Err InvalidCheckpoint) else
     pbind has_fatal (\<lambda>fatal.
     verify_all_parked required GENERATION
       (map (parked_record env) (filter (\<lambda>i. required AND push_bit i 1 \<noteq> 0) [1..<MAX_CPUS])) fatal))"

abbreviation preparation :: "(boot_sys, ('a, string) outcome) prog \<Rightarrow> (boot_sys, ('a, boot_error) outcome) prog" where
  "preparation p \<equiv> pbind p (\<lambda>r. Ret (map_err Preparation r))"

definition boot_procedure ::
  "('n, 'p, 'z) device_tree_scheme \<Rightarrow> boot_env \<Rightarrow> host_translation \<Rightarrow> (boot_sys, (unit, boot_error) outcome) prog" where
  "boot_procedure dt env policy =
     pthen (preparation (validate_platform dt env policy)) (\<lambda>(contract, deadline).
     pthen (Ret (required_mask env)) (\<lambda>required.
     if required = 0 then Ret (Err (Preparation ''no eligible secondary'')) else
     pthen (preparation (prepare_all_cpus env required policy)) (\<lambda>resources.
     pthen (preparation (freeze_startups env resources)) (\<lambda>_.
     let line = cache_line_size env in
     pthen (preparation (publish_all_startups env resources contract line)) (\<lambda>_.
     pthen (on_boot begin_release) (\<lambda>_.
     pthen (release_and_wait env required contract deadline line) (\<lambda>_.
     check_all_parked env required)))))))"

definition start_all ::
  "('n, 'p, 'z) device_tree_scheme \<Rightarrow> boot_env \<Rightarrow> host_translation \<Rightarrow> (boot_sys, (unit, boot_error) outcome) prog" where
  "start_all dt env policy =
     pthen (on_boot begin_boot_once) (\<lambda>_.
     pbind (boot_procedure dt env policy) (\<lambda>result.
     if result = Panic then Ret Panic else on_boot (finalize_boot result)))"

definition ensure_guest_authorized :: "(boot_sys, (unit, boot_error) outcome) prog" where
  "ensure_guest_authorized = pbind has_fatal (\<lambda>fatal. on_boot (guest_authorized fatal))"

section \<open>A released CPU\<close>

datatype entry_result = Halted | Worker nat u64

definition find_index :: "boot_env \<Rightarrow> u64 \<Rightarrow> nat option" where
  "find_index env pointer = find (\<lambda>i. slot_at env i = pointer) [0..<MAX_CPUS]"

text \<open>\<open>cpu\<close> is the executing CPU, \<open>s\<close> what it reads from its own registers.\<close>

definition secondary_entered ::
  "boot_env \<Rightarrow> nat \<Rightarrow> startup_view \<Rightarrow> entry_claim \<Rightarrow> local_state \<Rightarrow> entry_state \<Rightarrow> (boot_sys, (entry_result, string) outcome) prog" where
  "secondary_entered env i record claim s e =
     (let identity = sv_identity record in
     pthen (validate_secondary_context env (ci_logical_id identity) (ci_affinity identity) (ci_stack_bottom identity)
       (ci_stack_top identity) (ls_tpidr s)) (\<lambda>context_valid.
     pbind (on_slot i (validate record s e (be_vectors env) context_valid (be_memory_map env \<noteq> None))) (\<lambda>failures.
     pbind (on_slot i (publish_checkpoint s e failures)) (\<lambda>_.
     if failures = 0
     then pbind (on_slot i (on_mailbox (claim_park claim))) (\<lambda>r.
       Ret (if r = Panic then Panic else Ok (Worker (unat (ci_logical_id identity)) (sv_generation record))))
     else pbind (on_slot i (on_mailbox (claim_fail claim))) (\<lambda>r. Ret (if r = Panic then Panic else Ok Halted))))))"

definition secondary_main ::
  "boot_env \<Rightarrow> nat \<Rightarrow> u64 \<Rightarrow> u64 \<Rightarrow> local_state \<Rightarrow> entry_state \<Rightarrow> (boot_sys, (entry_result, string) outcome) prog" where
  "secondary_main env cpu pointer generation s e =
     (case find_index env pointer of
        None \<Rightarrow> Ret (Ok Halted)
      | Some i \<Rightarrow>
          pbind (on_config hs_get) (\<lambda>c. case c of
              None \<Rightarrow> Ret (Ok Halted)
            | Some config \<Rightarrow>
                pthen (on_slot i (slot_startup_view (slot_at env i) (be_config env) generation config)) (\<lambda>x. case x of
                    None \<Rightarrow> Ret (Ok Halted)
                  | Some record \<Rightarrow>
                      pbind (on_slot i (on_mailbox (claim_entry cpu (sv_generation record)))) (\<lambda>r. case r of
                          Ok claim \<Rightarrow> secondary_entered env i record claim s e
                        | Err _ \<Rightarrow> Ret (Ok Halted)
                        | Panic \<Rightarrow> Ret Panic))))"

end
