(* ===== verification/Boot_Composition.thy ===== *)
theory Boot_Composition
  imports Secondary_Start
begin

text \<open>
  The start as a whole: every program of \<open>Secondary_Start\<close> keeps the protocol of
  \<open>Boot_Protocol\<close>, so what the protocol promises holds of every interleaving of the boot CPU,
  the released CPUs, their workers and fatal reports.
\<close>

section \<open>Programs that only read, and what a program can return\<close>

inductive readonly :: "('s, 'a) prog \<Rightarrow> bool" where
  ro_Ret: "readonly (Ret a)"
| ro_Atom: "(\<And>s. fst (f s) = s \<and> readonly (snd (f s))) \<Longrightarrow> readonly (Atom f)"

lemma ro_pbind: "readonly p \<Longrightarrow> (\<And>a. readonly (k a)) \<Longrightarrow> readonly (pbind p k)"
  by (induction rule: readonly.induct) (auto intro: ro_Atom)

lemma ro_pthen: "readonly p \<Longrightarrow> (\<And>a. readonly (k a)) \<Longrightarrow> readonly (pthen p k)"
  unfolding pthen_def by (rule ro_pbind) (auto split: outcome.splits intro: ro_Ret)

lemma ro_aload: "readonly (aload get)"
  unfolding aload_def by (rule ro_Atom) (auto intro: ro_Ret)

lemma ro_if: "readonly p \<Longrightarrow> readonly q \<Longrightarrow> readonly (if b then p else q)" by simp

lemma ro_plift: "readonly p \<Longrightarrow> (\<And>s. put (get s) s = s) \<Longrightarrow> readonly (plift get put p)"
proof (induction rule: readonly.induct)
  case (ro_Atom f)
  then show ?case unfolding plift_Atom by (intro readonly.ro_Atom) auto
qed (auto intro: ro_Ret)

lemma ro_on_mailbox: "readonly p \<Longrightarrow> readonly (on_mailbox p)"
  by (rule ro_plift) (auto simp: ps_mailbox_def ps_set_mailbox_def)

lemma ro_lifts: "readonly p \<Longrightarrow> readonly (on_slot i p)" "readonly q \<Longrightarrow> readonly (on_config q)" "readonly r \<Longrightarrow> readonly (on_boot r)"
  by (auto intro: ro_plift)

lemmas ro_intros = ro_Ret ro_pbind ro_pthen ro_aload ro_if ro_on_mailbox ro_lifts

lemma ro_keep:
  assumes "readonly p" and "\<And>s. I s \<Longrightarrow> G s s" and "stable_under I R P"
  shows "safe I R G P p (\<lambda>_. P)"
  using assms(1)
proof (induction rule: readonly.induct)
  case (ro_Atom f)
  then show ?case using assms(2,3) by (intro safe_Atom) auto
qed (auto intro: safe_Ret)

lemma ro_equal: "readonly p \<Longrightarrow> safe I R (\<lambda>s s'. s' = s) P p (\<lambda>_ _. True)"
  by (rule safe_weaken [OF safe_post [OF ro_keep [where P = "\<lambda>_. True"]]]) auto

lemma ro_slot_programs:
  "readonly lifecycle" "readonly (mb_check g)" "readonly (mb_lifecycle_of g)" "readonly (observe_ready g)" "readonly is_prepared"
  "readonly (slot_identity a)" "readonly (slot_startup_view a ca g c)" "readonly hs_get" "readonly has_fatal" "readonly boot_status"
  "readonly (validate_publication cpus i contract record r line)" "readonly (assert_ctx field ok)" "readonly (has_parked g)"
  "readonly (verify_checkpoint record k g)" "readonly (validate record ls es v b m)"
  by (auto simp: lifecycle_def mb_check_def mb_lifecycle_of_def observe_ready_def is_prepared_def slot_identity_def read_identity_def
      slot_startup_view_def hs_get_def has_fatal_def boot_status_def validate_publication_def assert_ctx_def has_parked_def
      verify_checkpoint_def validate_def intro!: ro_intros split: option.split)

lemma sl_ro:
  assumes "ps_safe cpu P p post" and "readonly p"
  shows "sl_safe i cpu P p post"
proof -
  have "safe sl_inv (sl_rely i cpu) (ps_guar cpu) P p post"
    by (rule safe_mono [OF assms(1)]) (auto simp: sl_inv_def sl_guar_def)
  from safe_mono [OF safe_conj [OF this ro_equal [OF assms(2), where P = "\<lambda>_. True"]],
      where I' = sl_inv and R' = "sl_rely i cpu" and G' = "sl_guar i cpu"]
  show ?thesis by auto
qed

inductive returns :: "('a \<Rightarrow> bool) \<Rightarrow> ('s, 'a) prog \<Rightarrow> bool" for Q where
  rt_Ret: "Q a \<Longrightarrow> returns Q (Ret a)"
| rt_Atom: "(\<And>s. returns Q (snd (f s))) \<Longrightarrow> returns Q (Atom f)"

lemma rt_mono: "returns Q p \<Longrightarrow> (\<And>a. Q a \<Longrightarrow> Q' a) \<Longrightarrow> returns Q' p"
  by (induction rule: returns.induct) (auto intro: returns.intros)

lemma rt_True: "returns (\<lambda>_. True) p"
proof (induction p)
  case (Atom h)
  have "returns (\<lambda>_. True) (snd (h s))" for s
  proof -
    have "snd (h s) \<in> Basic_BNFs.snds (h s)" by (cases "h s") simp
    then show ?thesis using Atom by blast
  qed
  then show ?case by (rule rt_Atom)
qed (rule rt_Ret, simp)

lemma rt_pbind: "returns (\<lambda>a. returns Q (k a)) p \<Longrightarrow> returns Q (pbind p k)"
  by (induction rule: returns.induct) (auto intro: returns.intros)

lemma rt_plift: "returns Q p \<Longrightarrow> returns Q (plift get put p)"
  by (induction rule: returns.induct) (auto intro: returns.intros)

lemma rt_bind: "(\<And>a. returns Q (k a)) \<Longrightarrow> returns Q (pbind p k)"
  by (rule rt_pbind) (rule rt_mono [OF rt_True], simp)

abbreviation gives :: "('a \<Rightarrow> bool) \<Rightarrow> ('s, ('a, 'e) outcome) prog \<Rightarrow> bool" where
  "gives Q \<equiv> returns (\<lambda>r. \<forall>a. r = Ok a \<longrightarrow> Q a)"

lemma gv_Ret: "(\<And>a. r = Ok a \<Longrightarrow> Q a) \<Longrightarrow> gives Q (Ret r)"
  by (rule rt_Ret) blast

lemma gv_then: "gives P p \<Longrightarrow> (\<And>a. P a \<Longrightarrow> gives Q (k a)) \<Longrightarrow> gives Q (pthen p k)"
  unfolding pthen_def by (rule rt_pbind, erule rt_mono) (auto split: outcome.split intro: rt_Ret)

lemma gv_next: "(\<And>a. gives Q (k a)) \<Longrightarrow> gives Q (pthen p k)"
  by (rule gv_then [where P = "\<lambda>_. True"]) (auto intro: rt_mono [OF rt_True])

lemma gv_pure: "(\<And>a. r = Ok a \<Longrightarrow> gives Q (k a)) \<Longrightarrow> gives Q (pthen (Ret r) k)"
  by (rule gv_then [where P = "\<lambda>a. r = Ok a"]) (auto intro: gv_Ret)

lemma gv_map_err: "gives Q p \<Longrightarrow> gives Q (pbind p (\<lambda>r. Ret (map_err g r)))"
  by (rule rt_pbind, erule rt_mono) (auto intro!: gv_Ret simp: outcome_simps)

lemma gv_if: "(b \<Longrightarrow> gives Q p) \<Longrightarrow> (\<not> b \<Longrightarrow> gives Q q) \<Longrightarrow> gives Q (if b then p else q)" by simp

lemma safe_returns:
  assumes "safe I R G P p post" and "returns Q p"
  shows "safe I R G P p (\<lambda>a s. post a s \<and> Q a)"
  using assms
proof (induction rule: safe.induct)
  case (safe_Ret P post a)
  then have "Q a" by (auto elim: returns.cases)
  then show ?case using safe_Ret by (intro safe.safe_Ret) auto
next
  case (safe_Atom P f post)
  have "returns Q (snd (f s))" for s using safe_Atom.prems by (auto elim: returns.cases)
  then show ?case using safe_Atom.IH by (intro safe.safe_Atom) blast
qed

section \<open>What CPU 0 does without touching anything\<close>

definition boots :: "boot_facts \<Rightarrow> (boot_sys \<Rightarrow> bool) \<Rightarrow> (boot_sys, 'a) prog \<Rightarrow> ('a \<Rightarrow> boot_sys \<Rightarrow> bool) \<Rightarrow> bool" where
  "boots fx = safe (boot_inv fx) (boot_rely fx 0) (boot_guar fx 0)"

lemma b_Ret: "(\<And>s. boot_inv fx s \<Longrightarrow> P s \<Longrightarrow> post a s) \<Longrightarrow> boots fx P (Ret a) post"
  unfolding boots_def by (rule safe_Ret)

lemma b_bind: "boots fx P p mid \<Longrightarrow> (\<And>a. boots fx (mid a) (k a) post) \<Longrightarrow> boots fx P (pbind p k) post"
  unfolding boots_def by (rule safe_pbind)

lemma b_then:
  "boots fx P p mid \<Longrightarrow> (\<And>a. boots fx (mid (Ok a)) (k a) post) \<Longrightarrow> (\<And>e s. boot_inv fx s \<Longrightarrow> mid (Err e) s \<Longrightarrow> post (Err e) s) \<Longrightarrow>
   (\<And>s. boot_inv fx s \<Longrightarrow> mid Panic s \<Longrightarrow> post Panic s) \<Longrightarrow> boots fx P (pthen p k) post"
  unfolding boots_def by (rule safe_pthen)

lemma b_weaken: "boots fx Q p post \<Longrightarrow> (\<And>s. boot_inv fx s \<Longrightarrow> P s \<Longrightarrow> Q s) \<Longrightarrow> boots fx P p post"
  unfolding boots_def by (rule safe_weaken)

lemma b_post: "boots fx P p post \<Longrightarrow> (\<And>a s. boot_inv fx s \<Longrightarrow> post a s \<Longrightarrow> post' a s) \<Longrightarrow> boots fx P p post'"
  unfolding boots_def by (rule safe_post)

lemma b_if: "(b \<Longrightarrow> boots fx P p post) \<Longrightarrow> (\<not> b \<Longrightarrow> boots fx P q post) \<Longrightarrow> boots fx P (if b then p else q) post" by simp

lemma b_pure: "(b \<Longrightarrow> boots fx P p post) \<Longrightarrow> boots fx (\<lambda>s. b \<and> P s) p post"
  unfolding boots_def by (rule safe_pure)

lemma b_ex: "(\<And>x. boots fx (P x) p post) \<Longrightarrow> boots fx (\<lambda>s. \<exists>x. P x s) p post"
  unfolding boots_def by (rule safe_ex)

lemma b_returns: "boots fx P p post \<Longrightarrow> returns Q p \<Longrightarrow> boots fx P p (\<lambda>a s. post a s \<and> Q a)"
  unfolding boots_def by (rule safe_returns)

definition kept :: "boot_facts \<Rightarrow> (boot_sys \<Rightarrow> bool) \<Rightarrow> bool" where
  "kept fx K \<longleftrightarrow> steady fx K \<and> (\<forall>s h. K (s\<lparr>bs_hw := h\<rparr>) = K s)"

abbreviation calm :: "boot_facts \<Rightarrow> (boot_sys \<Rightarrow> bool) \<Rightarrow> (boot_sys, 'a) prog \<Rightarrow> bool" where
  "calm fx K p \<equiv> boots fx K p (\<lambda>_. K)"

lemma calm_ro: "readonly p \<Longrightarrow> steady fx K \<Longrightarrow> calm fx K p"
  unfolding boots_def by (rule ro_keep [OF _ bg_skip steady_stable])

lemma calm_hw: "hw_ok (\<lambda>_ _ _. False) p \<Longrightarrow> kept fx K \<Longrightarrow> calm fx K (on_hw p)"
proof -
  assume p: "hw_ok (\<lambda>_ _ _. False) p" and K: "kept fx K"
  have "boot_safe fx 0 (\<lambda>s. K s \<and> True) (on_hw p) (\<lambda>_ s. K s \<and> True)"
  proof (rule safe_plift_with [OF p])
    fix s t assume "K s" and g: "hw_guar (\<lambda>_ _ _. False) (bs_hw s) t"
    have "hw_guar (\<lambda>_ c v. bs_state s = status_code Releasing \<and> store_ok fx c v) (bs_hw s) t"
      using g by cases (auto intro: hw_guar.intros)
    then show "boot_guar fx 0 s (s\<lparr>bs_hw := t\<rparr>) \<and> K (s\<lparr>bs_hw := t\<rparr>)" using bg_hw [of 0 s fx t] \<open>K s\<close> K by (simp add: kept_def)
  next
    fix s s' assume "boot_rely fx 0 s s'"
    then show "bs_hw s = bs_hw s' \<or> bs_hw s' = bs_hw s" using own_part_other by (auto simp: own_part_def)
  next
    show "boot_stable fx 0 K" using K by (intro steady_stable) (simp add: kept_def)
  qed auto
  then show ?thesis by (simp add: boots_def)
qed

lemma calm_bind: "calm fx K p \<Longrightarrow> (\<And>a. calm fx K (k a)) \<Longrightarrow> calm fx K (pbind p k)"
  by (rule b_bind)

lemma calm_then: "calm fx K p \<Longrightarrow> (\<And>a. calm fx K (k a)) \<Longrightarrow> calm fx K (pthen p k)"
  by (rule b_then) auto

lemma calm_Ret: "calm fx K (Ret a)" by (rule b_Ret)

lemma calm_if: "calm fx K p \<Longrightarrow> calm fx K q \<Longrightarrow> calm fx K (if b then p else q)" by simp

lemma kept_steady: "kept fx K \<Longrightarrow> steady fx K" by (simp add: kept_def)

lemma calm_aload: "kept fx K \<Longrightarrow> calm fx K (aload get)"
  by (rule calm_ro [OF ro_aload kept_steady])

lemma calm_slot: "readonly p \<Longrightarrow> kept fx K \<Longrightarrow> calm fx K (on_slot i p)"
  by (rule calm_ro [OF ro_lifts(1) kept_steady])

lemma calm_idle: "kept fx K \<Longrightarrow> calm fx K (assert_boot_cpu_idle env)"
  unfolding assert_boot_cpu_idle_def by (rule calm_ro [OF _ kept_steady]) (auto intro!: ro_intros ro_slot_programs)

lemma calm_stacks_loop: "kept fx K \<Longrightarrow> calm fx K (stacks_loop env is result)"
  by (induction "is" arbitrary: result)
    (auto intro!: calm_then calm_Ret calm_slot ro_slot_programs split: prod.split)

lemma calm_prepared_stacks: "kept fx K \<Longrightarrow> calm fx K (prepared_stacks env)"
  unfolding prepared_stacks_def by (intro calm_then calm_idle calm_stacks_loop)

lemma calm_read_cell: "kept fx K \<Longrightarrow> calm fx K (smp_read_release_cell env a)"
  unfolding smp_read_release_cell_def Let_def by (intro calm_bind calm_aload calm_if calm_Ret calm_hw) simp_all

lemma calm_unreleased: "kept fx K \<Longrightarrow> calm fx K (verify_unreleased_cell env a)"
  unfolding verify_unreleased_cell_def by (intro calm_then calm_Ret calm_if calm_read_cell)

lemma calm_release_set: "kept fx K \<Longrightarrow> calm fx K (verify_release_set env n entry)"
proof -
  assume K: "kept fx K"
  have "calm fx K (release_set_loop env cpus n entry cells)" for cpus cells
    by (induction cells) (auto intro!: calm_then calm_bind calm_Ret calm_read_cell [OF K] split: outcome.split)
  then show ?thesis unfolding verify_release_set_def by (intro calm_then calm_Ret)
qed

lemma calm_progress: "kept fx K \<Longrightarrow> calm fx K (progress_loop env start n)"
  by (induction n) (auto intro!: calm_bind calm_hw calm_Ret calm_if)

lemma calm_platform: "kept fx K \<Longrightarrow> calm fx K (validate_platform dt env policy)"
  unfolding validate_platform_def Let_def by (intro calm_then calm_bind calm_Ret calm_if calm_idle calm_hw calm_progress) simp_all

lemma calm_identity_range: "kept fx K \<Longrightarrow> calm fx K (validate_identity_range env start stop)"
proof -
  assume K: "kept fx K"
  have "calm fx K (identity_loop env as)" for as
    by (induction as) (auto intro!: calm_bind calm_aload [OF K] calm_Ret simp: Let_def)
  then show ?thesis unfolding validate_identity_range_def by (auto intro: calm_Ret)
qed

lemma ro_find_slot: "readonly (find_slot_by_affinity base n mpidr)"
proof -
  have "readonly (find_slot_loop base f found is)" for f found "is"
    by (induction "is" arbitrary: found) (auto intro!: ro_intros ro_plift ro_slot_programs)
  then show ?thesis by (auto simp: find_slot_by_affinity_def intro: ro_Ret)
qed

lemma calm_resources: "kept fx K \<Longrightarrow> calm fx K (startup_resources_for env i policy)"
proof -
  assume K: "kept fx K"
  have "calm fx K (plift bs_slots (\<lambda>x s. s\<lparr>bs_slots := x\<rparr>) (find_slot_by_affinity (be_slots env) MAX_CPUS a))" for a
    by (rule calm_ro [OF ro_plift [OF ro_find_slot] kept_steady [OF K]]) simp
  then show ?thesis
    unfolding startup_resources_for_def Let_def
    by (intro calm_then calm_bind calm_Ret calm_if calm_identity_range [OF K] calm_unreleased [OF K] calm_slot [OF _ K] ro_slot_programs)
qed

section \<open>Accesses of CPU 0\<close>

lemma kept_parts [simp]: "kept fx (\<lambda>s. Q (bs_state s))" "kept fx (\<lambda>s. T (bs_tables s))" "kept fx (\<lambda>s. N (bs_attempted s))"
  by (simp_all add: kept_def)

lemma kept_conj [simp, intro]: "kept fx K \<Longrightarrow> kept fx L \<Longrightarrow> kept fx (\<lambda>s. K s \<and> L s)"
  by (simp add: kept_def)

lemma kept_const [simp]: "kept fx (\<lambda>_. b)"
  by (simp add: kept_def)

lemma steady_identity [simp]: "steady fx (\<lambda>s. reads_as a c (bs_slots s i))"
  unfolding steady_def
proof (intro allI impI)
  fix cpu s s' assume "boot_guar fx cpu s s'" "reads_as a c (bs_slots s i)"
  then show "reads_as a c (bs_slots s' i)"
    by cases (auto simp: sl_guar_def reads_as_def prepared_as_def dest: ps_guar_prepared)
qed

lemma kept_slots [simp]:
  "kept fx (\<lambda>s. passed (bs_slots s i))" "kept fx (\<lambda>s. resources_of base k r (bs_slots s i))" "kept fx (\<lambda>s. reads_as a c (bs_slots s i))"
  by (simp_all add: kept_def)

lemma kept_all: "(\<And>x. kept fx (K x)) \<Longrightarrow> kept fx (\<lambda>s. \<forall>x. K x s)"
  unfolding kept_def by (auto intro: steady_all)

lemma kept_imp [simp]: "(b \<Longrightarrow> kept fx K) \<Longrightarrow> kept fx (\<lambda>s. b \<longrightarrow> K s)"
  by (auto simp: kept_def)

lemma b_slot:
  assumes "sl_safe i 0 P p post" and "kept fx K"
  shows "boots fx (\<lambda>s. K s \<and> P (bs_slots s i)) (on_slot i p) (\<lambda>a s. K s \<and> post a (bs_slots s i))"
  unfolding boots_def by (rule slot_with [OF assms(1) kept_steady [OF assms(2)]])

lemma b_slot_any:
  assumes "sl_safe i 0 (\<lambda>_. True) p post" and "kept fx K"
  shows "boots fx K (on_slot i p) (\<lambda>a s. K s \<and> post a (bs_slots s i))"
  using b_slot [OF assms] by simp

lemma b_config:
  assumes "hs_safe 0 (\<lambda>_. True) p post" and "kept fx K"
  shows "calm fx K (on_config p)"
proof -
  have "boot_safe fx 0 (\<lambda>s. K s \<and> True) (on_config p) (\<lambda>a s. K s \<and> post a (bs_config s))"
  proof (rule safe_plift_with [OF assms(1)])
    fix s t assume "K s" and g: "hs_guar 0 (bs_config s) t"
    then have "boot_guar fx 0 s (s\<lparr>bs_config := t\<rparr>)" by (intro bg_config)
    moreover from this have "K (s\<lparr>bs_config := t\<rparr>)"
      using kept_steady [OF assms(2)] \<open>K s\<close> unfolding steady_def own_part_def by fastforce
    ultimately show "boot_guar fx 0 s (s\<lparr>bs_config := t\<rparr>) \<and> K (s\<lparr>bs_config := t\<rparr>)" by blast
  next
    fix s s' assume "boot_rely fx 0 s s'"
    then obtain j where "j \<noteq> 0" "boot_guar fx j s s'" by blast
    from this(2,1) show "(\<exists>j. j \<noteq> 0 \<and> hs_guar j (bs_config s) (bs_config s')) \<or> bs_config s' = bs_config s" by cases auto
  next
    show "boot_stable fx 0 K" by (rule steady_stable [OF kept_steady [OF assms(2)]])
  qed (auto simp: boot_inv_def)
  then show ?thesis unfolding boots_def by (rule safe_weaken [OF safe_post]) auto
qed

lemma b_armw:
  assumes "\<And>s. boot_inv fx s \<Longrightarrow> K s \<Longrightarrow> boot_guar fx 0 s (fst (f s))" and "\<And>s. boot_inv fx s \<Longrightarrow> K s \<Longrightarrow> post (snd (f s)) (fst (f s))"
    and "\<And>a. steady fx (post a)"
  shows "boots fx K (armw f) post"
  unfolding boots_def by (rule own_armw) (use assms in auto)

lemma b_load: "(\<And>s. boot_inv fx s \<Longrightarrow> K s \<Longrightarrow> post (get s) s) \<Longrightarrow> (\<And>a. steady fx (post a)) \<Longrightarrow> boots fx K (aload get) post"
  unfolding boots_def by (rule own_load)

text \<open>The tables behind their gate.\<close>

definition gated :: "(table_set boot_tables option \<Rightarrow> 'a \<times> table_set boot_tables option) \<Rightarrow> bool" where
  "gated f \<longleftrightarrow> (\<forall>bt. bt_frozen bt \<longrightarrow> snd (f (Some bt)) = Some bt)"

lemma b_tables:
  assumes "gated f" and "\<And>s t. K (s\<lparr>bs_tables := t\<rparr>) = K s" and "steady fx K"
  shows "boots fx K (tables_op f) (\<lambda>a s. K s \<and> (\<exists>t. f t = (a, bs_tables s)))"
  unfolding tables_op_def
proof (rule b_armw)
  fix s assume "K s"
  show "boot_guar fx 0 s (fst (case f (bs_tables s) of (a, t) \<Rightarrow> (s\<lparr>bs_tables := t\<rparr>, a)))"
  proof (cases "\<exists>bt. bs_tables s = Some bt \<and> bt_frozen bt")
    case True
    then have "snd (f (bs_tables s)) = bs_tables s" using assms(1) by (auto simp: gated_def)
    then have "fst (case f (bs_tables s) of (a, t) \<Rightarrow> (s\<lparr>bs_tables := t\<rparr>, a)) = s" by (simp add: case_prod_unfold)
    then show ?thesis by (simp add: bg_skip)
  next
    case False
    then show ?thesis by (auto simp: case_prod_unfold intro: bg_tables)
  qed
  show "K (fst (case f (bs_tables s) of (a, t) \<Rightarrow> (s\<lparr>bs_tables := t\<rparr>, a))) \<and>
      (\<exists>t. f t = (snd (case f (bs_tables s) of (a, t) \<Rightarrow> (s\<lparr>bs_tables := t\<rparr>, a)), bs_tables (fst (case f (bs_tables s) of (a, t) \<Rightarrow> (s\<lparr>bs_tables := t\<rparr>, a)))))"
    using \<open>K s\<close> assms(2) by (auto simp: case_prod_unfold)
next
  show "steady fx (\<lambda>s. K s \<and> (\<exists>t. f t = (a, bs_tables s)))" for a
    by (rule steady_conj [OF assms(3) steady_parts(3)])
qed

lemma gated_freeze: "gated (validate_and_freeze_startups check)"
  by (simp add: gated_def validate_and_freeze_startups_def validate_and_freeze_def)

lemma gated_cell: "gated (map_firmware_release_cell contract m address)"
proof -
  have w: "snd (with_tables f (Some bt)) = Some bt" if "bt_frozen bt" for f :: "table_set \<Rightarrow> (unit, prepare_error) outcome \<times> table_set" and bt
    using that by (simp add: with_tables_def bt_edit_def)
  have c: "snd (st_then (st_lift r t) g) = t" if "\<And>x. snd (g x t) = t" for r :: "('x, prepare_error) outcome" and g :: "'x \<Rightarrow> _ \<Rightarrow> (unit, prepare_error) outcome \<times> _" and t :: "table_set boot_tables option"
    using that by (cases r) (simp_all add: st_lift_def)
  show ?thesis
    unfolding gated_def map_firmware_release_cell_def by (auto intro!: c w split: option.split)
qed

lemma freeze_Ok:
  assumes "validate_and_freeze_startups check t = (Ok (), t')"
  shows "\<exists>bt. t' = Some bt \<and> bt_frozen bt \<and> check (bt_tables bt) = Ok ()"
  using assms by (cases t; cases "check (bt_tables (the t))")
    (auto simp: validate_and_freeze_startups_def validate_and_freeze_def outcome_simps split: if_splits)

text \<open>The boot status.\<close>

lemma plift_pbind: "plift get put (pbind p k) = pbind (plift get put p) (\<lambda>a. plift get put (k a))"
proof (induction p)
  case (Atom h)
  have "plift get put (pbind (snd (h s)) k) = pbind (plift get put (snd (h s))) (\<lambda>a. plift get put (k a))" for s
  proof -
    have "snd (h s) \<in> Basic_BNFs.snds (h s)" by (cases "h s") simp
    then show ?thesis using Atom by blast
  qed
  then show ?case by simp
qed simp

lemma plift_pthen: "plift get put (pthen p k) = pthen (plift get put p) (\<lambda>a. plift get put (k a))"
  unfolding pthen_def plift_pbind by (rule arg_cong [where f = "pbind _"]) (auto split: outcome.split)

lemma on_boot_cas:
  "on_boot (status_cas a b) = armw (\<lambda>s. if bs_state s = status_code a then (s\<lparr>bs_state := status_code b\<rparr>, True) else (s, False))"
  by (auto simp: status_cas_def acas_def armw_def fun_eq_iff)

lemma on_boot_status: "on_boot boot_status = aload (\<lambda>s. decode_status (bs_state s))"
  by (simp add: boot_status_def aload_def)

end
