(* ===== verification/Boot_Safety.thy ===== *)
theory Boot_Safety
  imports Boot_Composition
begin

text \<open>
  The boot procedure of CPU 0 step by step against the protocol of a start: preparation
  leaves validated and frozen tables, publication every byte a secondary reads cleaned, the
  release stores only to validated cells, and the last check sees every required CPU parked.
\<close>

section \<open>Bits of the required set\<close>

lemma and_push_bit: "i < 64 \<Longrightarrow> (m :: u64) AND 2 ^ i = 0 \<longleftrightarrow> \<not> bit m i"
  unfolding bit_eq_iff [where 'a = u64] by (auto simp: bit_simps)

lemma bit_or_push: "i < 64 \<Longrightarrow> bit ((m :: u64) OR 2 ^ i) k \<longleftrightarrow> bit m k \<or> k = i"
  by (auto simp: bit_simps)

lemma mask_loop_bits:
  "mask_loop cpus n rest seen = Ok m \<Longrightarrow> bit m k \<Longrightarrow> bit seen k \<or> k < MAX_CPUS"
proof (induction rest arbitrary: n seen)
  case (Cons cpu rest)
  show ?case
  proof (cases "cd_enabled cpu")
    case True
    then obtain j where j: "j < MAX_CPUS" "mask_loop cpus (Suc n) rest (seen OR 2 ^ j) = Ok m"
      using Cons.prems(1) by (auto simp: outcome_simps not_le split: if_splits)
    have "j < 64" using j(1) by (simp add: MAX_CPUS_def)
    then show ?thesis using Cons.IH [OF j(2) Cons.prems(2)] j(1) by (auto simp: bit_or_push)
  next
    case False
    then show ?thesis using Cons by auto
  qed
qed auto

lemma required_bits:
  assumes "required_mask env = Ok m" and "bit m k"
  shows "0 < k \<and> k < MAX_CPUS"
proof -
  obtain cpus where "secondary_mask cpus = Ok m"
    using assms by (auto simp: required_mask_def split: option.splits outcome.splits)
  then obtain seen where seen: "mask_loop cpus 0 cpus 0 = Ok seen" "m = seen AND NOT 1"
    by (auto simp: secondary_mask_def outcome_simps split: if_splits)
  have "bit seen k" "k \<noteq> 0" using assms(2) seen(2) by (auto simp: bit_simps bit_1_iff)
  then show ?thesis using mask_loop_bits [OF seen(1), of k] by simp
qed

section \<open>Preparation\<close>

abbreviation in_state :: "boot_status \<Rightarrow> boot_sys \<Rightarrow> bool" where
  "in_state st s \<equiv> bs_state s = status_code st"

lemma in_state_kept [simp]: "kept fx (in_state st)" "steady fx (in_state st)"
  by (rule kept_parts(1), rule steady_parts(1))

lemma publish_startup_slot: "sl_safe i cpu (\<lambda>_. True) (publish_startup a g c) (\<lambda>_ _. True)"
proof -
  have pub: "sl_safe i cpu (\<lambda>_. True) (on_mailbox (mb_publish g)) (\<lambda>_ _. True)"
    using safe_post [OF sl_mailbox [OF publish_safe quiet_operations(1) tame_operations(1)]] by auto
  have idn: "sl_safe i cpu (\<lambda>_. True) (slot_identity a) (\<lambda>_ _. True)"
    using safe_post [OF sl_ro [OF slot_identity_safe [OF stable_under_True] ro_slot_programs(6)]] by auto
  show ?thesis
    unfolding publish_startup_def
    by (rule safe_pthen [OF idn]) (auto intro!: safe_Ret safe_pbind [OF pub] split: option.split)
qed

lemma calm_startup: "kept fx K \<Longrightarrow> calm fx K (startup env i g)"
  unfolding startup_def by (rule calm_ro [OF _ kept_steady]) (auto intro!: ro_intros ro_slot_programs split: option.split)

lemma calm_prepare_loop: "calm fx (in_state Preparing) (prepare_loop env required policy config cpus is)"
proof -
  let ?K = "in_state Preparing"
  have K: "kept fx ?K" by simp
  have t: "calm fx ?K (tables_op (map_firmware_release_cell c m a))" for c m a
    by (rule b_post [OF b_tables [OF gated_cell]]) auto
  have s: "calm fx ?K (on_slot i (publish_startup a g c))" for i a g c
    by (rule b_post [OF b_slot_any [OF publish_startup_slot K]]) auto
  show ?thesis
    by (induction "is") (auto intro!: calm_then calm_bind calm_Ret calm_resources [OF K] t s)
qed

lemma calm_prepare: "calm fx (in_state Preparing) (prepare_all_cpus env required policy)"
  unfolding prepare_all_cpus_def
  by (intro calm_then calm_bind calm_Ret calm_prepare_loop calm_ro [OF ro_lifts(2)] ro_slot_programs b_config [OF hs_publish_safe] in_state_kept)

lemma prepare_loop_shape:
  "gives (\<lambda>rs. map (\<lambda>x. x \<noteq> None) rs = map (\<lambda>i. required AND push_bit i 1 \<noteq> 0) is) (prepare_loop env required policy config cpus is)"
proof (induction "is")
  case (Cons i "is")
  then show ?case
    unfolding prepare_loop.simps
    by (intro gv_if gv_next gv_then [OF Cons] gv_Ret) auto
qed (auto intro: gv_Ret)

lemma prepare_shape:
  assumes "\<not> bit required 0"
  shows "gives (\<lambda>rs. length rs = MAX_CPUS \<and> (\<forall>i < MAX_CPUS. rs ! i \<noteq> None \<longleftrightarrow> bit required i)) (prepare_all_cpus env required policy)"
proof -
  have "length (None # rs) = MAX_CPUS \<and> (\<forall>i < MAX_CPUS. (None # rs) ! i \<noteq> None \<longleftrightarrow> bit required i)"
    if shape: "map (\<lambda>x. x \<noteq> None) rs = map (\<lambda>i. required AND push_bit i 1 \<noteq> 0) [1..<MAX_CPUS]" for rs :: "startup_resources option list"
  proof -
    have l: "length rs = 3" using arg_cong [OF shape, of length] by (simp add: MAX_CPUS_def)
    have "rs ! i \<noteq> None \<longleftrightarrow> bit required (Suc i)" if i: "i < 3" for i
      using arg_cong [OF shape, of "\<lambda>l. l ! i"] i l by (simp add: MAX_CPUS_def and_push_bit [of "Suc i", simplified])
    then show ?thesis using l assms by (auto simp: MAX_CPUS_def nth_Cons split: nat.split)
  qed
  then show ?thesis
    unfolding prepare_all_cpus_def by (intro gv_next rt_bind gv_then [OF prepare_loop_shape] gv_Ret) auto
qed

text \<open>The tables after the freeze.\<close>

definition validated :: "startup_resources option list \<Rightarrow> table_set boot_tables option \<Rightarrow> bool" where
  "validated rs t \<longleftrightarrow> (\<exists>bt. t = Some bt \<and> bt_frozen bt \<and> (\<forall>r. Some r \<in> set rs \<longrightarrow> validate_resources (bt_tables bt) r = Ok ()))"

lemma validate_all_Ok: "validate_all ts rs = Ok u \<Longrightarrow> Some r \<in> set rs \<Longrightarrow> validate_resources ts r = Ok ()"
  by (induction ts rs rule: validate_all.induct) (auto simp: outcome_simps)

lemma freeze_validated:
  assumes "validate_and_freeze_startups (\<lambda>ts. and_then (validate_all ts rs) (\<lambda>_. validate_stacks ts stacks)) t = (Ok (), t')"
  shows "validated rs t'"
proof -
  obtain bt where bt: "t' = Some bt" "bt_frozen bt" "and_then (validate_all (bt_tables bt) rs) (\<lambda>_. validate_stacks (bt_tables bt) stacks) = Ok ()"
    using freeze_Ok [OF assms] by blast
  then have "validate_all (bt_tables bt) rs = Ok ()" by (auto simp: outcome_simps)
  then show ?thesis unfolding validated_def using bt(1,2) validate_all_Ok by blast
qed

lemma b_freeze:
  "boots fx (in_state Preparing) (freeze_startups env rs)
     (\<lambda>r s. in_state Preparing s \<and> (r = Ok () \<longrightarrow> validated rs (bs_tables s)))"
  unfolding freeze_startups_def
proof (rule b_then [OF calm_prepared_stacks])
  fix stacks
  show "boots fx (in_state Preparing)
      (pbind (tables_op (validate_and_freeze_startups (\<lambda>ts. and_then (validate_all ts rs) (\<lambda>_. validate_stacks ts stacks))))
         (\<lambda>r. Ret (map_err (\<lambda>_. ''startup resource validation/freeze failed'') r)))
      (\<lambda>r s. in_state Preparing s \<and> (r = Ok () \<longrightarrow> validated rs (bs_tables s)))"
    by (rule b_bind [OF b_tables [OF gated_freeze]])
      (auto intro!: b_Ret simp: outcome_simps dest: freeze_validated)
qed auto

section \<open>Publication\<close>

abbreviation viewed :: "boot_env \<Rightarrow> nat \<Rightarrow> startup_view \<Rightarrow> boot_sys \<Rightarrow> bool" where
  "viewed env i v s \<equiv> reads_as (slot_at env i) (sv_identity v) (bs_slots s i) \<and> sv_slot_address v = slot_at env i \<and> sv_generation v = GENERATION"

lemma b_startup:
  assumes "kept fx K"
  shows "boots fx K (startup env i GENERATION) (\<lambda>r s. K s \<and> (\<forall>v. r = Ok (Some v) \<longrightarrow> viewed env i v s))"
  unfolding startup_def
proof (rule b_if)
  note view = b_slot_any [OF sl_ro [OF slot_startup_view_safe ro_slot_programs(7)] assms]
  show "boots fx K (pbind (on_config hs_get) (\<lambda>c. case c of None \<Rightarrow> Ret (Ok None)
      | Some config \<Rightarrow> on_slot i (slot_startup_view (slot_at env i) (be_config env) GENERATION config)))
    (\<lambda>r s. K s \<and> (\<forall>v. r = Ok (Some v) \<longrightarrow> viewed env i v s))"
  proof (rule b_bind [OF calm_ro [OF ro_lifts(2) [OF ro_slot_programs(8)] kept_steady [OF assms]]])
    fix c
    show "boots fx K (case c of None \<Rightarrow> Ret (Ok None) | Some config \<Rightarrow> on_slot i (slot_startup_view (slot_at env i) (be_config env) GENERATION config))
      (\<lambda>r s. K s \<and> (\<forall>v. r = Ok (Some v) \<longrightarrow> viewed env i v s))"
      by (cases c) (auto intro!: b_Ret b_post [OF view])
  qed
qed (auto intro: b_Ret)

lemma b_startup_or:
  assumes "kept fx K"
  shows "boots fx K (startup_or e env i) (\<lambda>r s. K s \<and> (\<forall>v. r = Ok v \<longrightarrow> viewed env i v s))"
  unfolding startup_or_def by (rule b_bind [OF b_startup [OF assms]]) (auto intro!: b_Ret simp: outcome_simps)

lemma publication_checked:
  "gives (\<lambda>_. sv_slot_address rc = region_start (sr_context r) \<and> ci_logical_id (sv_identity rc) = word_of_nat i \<and>
      ci_stack_bottom (sv_identity rc) = sl_bottom (sr_stack r) \<and> ci_stack_top (sv_identity rc) = sl_top (sr_stack r))
    (validate_publication cpus i contract rc r line)"
  unfolding validate_publication_def
  by (intro gv_if gv_pure rt_bind gv_Ret)
    (auto simp: publication_identity_def publication_layout_def outcome_simps split: if_splits option.splits)

lemma b_checked:
  assumes "kept fx K"
  shows "boots fx K (check_publications env cpus contract line shared i rs)
    (\<lambda>x s. K s \<and> (x = Ok () \<longrightarrow> (\<forall>k r. k < length rs \<longrightarrow> rs ! k = Some r \<longrightarrow>
       shared_regions r = shared_regions shared \<and> resources_of (be_slots env) (i + k) r (bs_slots s (i + k)))))"
  using assms
proof (induction env cpus contract line shared i rs arbitrary: K rule: check_publications.induct)
  case (1 env cpus contract line shared i)
  then show ?case by (auto intro: b_Ret)
next
  case (2 env cpus contract line shared i rs)
  show ?case unfolding check_publications.simps
    by (rule b_post [OF 2(1) [OF 2(2)]]) (auto simp: nth_Cons split: nat.splits)
next
  case (3 env cpus contract line shared i r rs)
  let ?own = "\<lambda>s. resources_of (be_slots env) i r (bs_slots s i)"
  let ?post = "\<lambda>x s. K s \<and> (x = Ok () \<longrightarrow> (\<forall>k q. k < length (Some r # rs) \<longrightarrow> (Some r # rs) ! k = Some q \<longrightarrow>
       shared_regions q = shared_regions shared \<and> resources_of (be_slots env) (i + k) q (bs_slots s (i + k))))"
  show ?case unfolding check_publications.simps
  proof (rule b_if)
    assume sh: "\<not> shared_regions r \<noteq> shared_regions shared"
    have rest: "boots fx (\<lambda>s. K s \<and> ?own s) (check_publications env cpus contract line shared (Suc i) rs) ?post"
      by (rule b_post [OF 3(1) [where K = "\<lambda>s. K s \<and> ?own s"]]) (use sh 3(2) in \<open>auto simp: nth_Cons split: nat.splits\<close>)
    have valid: "boots fx (\<lambda>s. K s \<and> viewed env i rc s)
        (pbind (on_slot i (validate_publication cpus i contract rc r line)) (\<lambda>x. Ret (map_err (\<lambda>_. ''invalid publication'') x)))
        (\<lambda>x s. K s \<and> (x = Ok () \<longrightarrow> ?own s))" for rc
    proof (rule b_bind [OF b_returns [OF calm_slot [OF ro_slot_programs(11)]]])
      show "kept fx (\<lambda>s. K s \<and> viewed env i rc s)" using 3(2) by simp
      show "gives (\<lambda>_. sv_slot_address rc = region_start (sr_context r) \<and> ci_logical_id (sv_identity rc) = word_of_nat i \<and>
          ci_stack_bottom (sv_identity rc) = sl_bottom (sr_stack r) \<and> ci_stack_top (sv_identity rc) = sl_top (sr_stack r))
        (on_slot i (validate_publication cpus i contract rc r line))"
        by (rule rt_plift [OF publication_checked])
    qed (auto intro!: b_Ret simp: outcome_simps resources_of_def reads_as_def prepared_as_def slot_at_def)
    show "boots fx K (pthen (startup_or ''missing startup'' env i) (\<lambda>rc.
       pthen (pbind (on_slot i (validate_publication cpus i contract rc r line)) (\<lambda>x. Ret (map_err (\<lambda>_. ''invalid publication'') x))) (\<lambda>_.
       check_publications env cpus contract line shared (Suc i) rs))) ?post"
      by (rule b_then [OF b_startup_or [OF 3(2)]], rule b_then [OF b_weaken [OF valid]], simp, rule b_weaken [OF rest]) auto
  qed (auto intro: b_Ret)
qed

definition facts_of :: "boot_env \<Rightarrow> boot_facts" where
  "facts_of env = \<lparr>bf_cpus = (case be_topology env of None \<Rightarrow> [] | Some t \<Rightarrow> ct_cpus t),
     bf_required = (case required_mask env :: (u64, unit) outcome of Ok m \<Rightarrow> m | _ \<Rightarrow> 0),
     bf_entry = be_entry env, bf_line = cache_line_size env, bf_slots = be_slots env\<rparr>"

lemma b_hw_trace:
  assumes "hw_ok (\<lambda>_ _ _. False) p" and "kept fx K"
  shows "boots fx (\<lambda>s. K s \<and> T (boot_trace s)) (on_hw p) (\<lambda>a s. K s \<and> (\<exists>h. T (hw_trace h) \<and> (a, bs_hw s) = run p h))"
proof -
  have hw: "boots fx (\<lambda>s. K s \<and> bs_hw s = h) (on_hw p) (\<lambda>a s. K s \<and> (a, bs_hw s) = run p h)" for h
    unfolding boots_def by (rule hw_with) (use assms in \<open>auto simp: kept_def\<close>)
  have "boots fx (\<lambda>s. \<exists>h. T (hw_trace h) \<and> K s \<and> bs_hw s = h) (on_hw p) (\<lambda>a s. K s \<and> (\<exists>h. T (hw_trace h) \<and> (a, bs_hw s) = run p h))"
    by (rule b_ex, rule b_pure, rule b_post [OF hw]) blast
  then show ?thesis by (rule b_weaken) auto
qed

lemma b_cleans:
  assumes "cleans p line A" and "kept fx K"
  shows "boots fx (\<lambda>s. K s \<and> C \<subseteq> set (boot_trace s)) (on_hw p)
    (\<lambda>r s. K s \<and> r \<noteq> Panic \<and> (r = Ok () \<longrightarrow> C \<union> (\<lambda>x. EvClean (line_of line x)) ` A \<subseteq> set (boot_trace s)))"
proof (rule b_post [OF b_hw_trace [OF _ assms(2)]])
  show "hw_ok (\<lambda>_ _ _. False) p" using assms(1) by (simp add: cleans_def)
  fix r s assume "K s \<and> (\<exists>h. C \<subseteq> set (hw_trace h) \<and> (r, bs_hw s) = run p h)"
  then obtain h where h: "K s" "C \<subseteq> set (hw_trace h)" "(r, bs_hw s) = run p h" by blast
  obtain r' es where "run p h = (r', h\<lparr>hw_trace := hw_trace h @ es\<rparr>)" "r' \<noteq> Panic" "r' = Ok () \<Longrightarrow> \<forall>x \<in> A. EvClean (line_of line x) \<in> set es"
    using assms(1) unfolding cleans_def by metis
  then show "K s \<and> r \<noteq> Panic \<and> (r = Ok () \<longrightarrow> C \<union> (\<lambda>x. EvClean (line_of line x)) ` A \<subseteq> set (boot_trace s))"
    using h by auto
qed

abbreviation stack_bytes :: "startup_resources \<Rightarrow> u64 set" where
  "stack_bytes r \<equiv> {x. sl_bottom (sr_stack r) \<le> x \<and> x < sl_top (sr_stack r)}"

lemma cleans_stacks: "cleans (publish_stacks line rs) line (\<Union>r \<in> set rs. stack_bytes r)"
proof (induction rs)
  case (Cons r rs)
  then show ?case using cleans_then [OF cleans_publish_cpu Cons] by simp
qed (auto intro: cleans_none)

text \<open>What the checks of the publication leave, and the state once the barrier is complete.\<close>

definition owned :: "boot_env \<Rightarrow> startup_resources \<Rightarrow> startup_resources option list \<Rightarrow> boot_sys \<Rightarrow> bool" where
  "owned env shared rs s \<longleftrightarrow> (\<forall>k r. k < length rs \<longrightarrow> rs ! k = Some r \<longrightarrow>
     shared_regions r = shared_regions shared \<and> resources_of (be_slots env) k r (bs_slots s k))"

definition shaped :: "boot_facts \<Rightarrow> startup_resources option list \<Rightarrow> bool" where
  "shaped fx rs \<longleftrightarrow> length rs = MAX_CPUS \<and> (\<forall>i < MAX_CPUS. rs ! i \<noteq> None \<longleftrightarrow> bit (bf_required fx) i) \<and>
     (\<forall>i. bit (bf_required fx) i \<longrightarrow> i < MAX_CPUS)"

lemma owned_kept: "kept fx (owned env shared rs)"
proof -
  have "kept fx (\<lambda>s. \<forall>k r. k < length rs \<longrightarrow> rs ! k = Some r \<longrightarrow>
     shared_regions r = shared_regions shared \<and> resources_of (be_slots env) k r (bs_slots s k))"
    by (intro kept_all kept_imp kept_conj) simp_all
  moreover have "owned env shared rs = (\<lambda>s. \<forall>k r. k < length rs \<longrightarrow> rs ! k = Some r \<longrightarrow>
     shared_regions r = shared_regions shared \<and> resources_of (be_slots env) k r (bs_slots s k))"
    by (simp add: owned_def fun_eq_iff)
  ultimately show ?thesis by metis
qed

lemma member_filtered: "Some r \<in> set rs \<Longrightarrow> r \<in> set (List.map_filter (\<lambda>x. x) rs)"
  by (force simp: List.map_filter_def)

lemma published_from:
  assumes s: "validated rs (bs_tables s)" "owned env shared rs s" "boot_trace s = tr @ [EvBarrier]"
    "(\<lambda>x. EvClean (line_of line x)) ` regions_addrs (shared_regions shared) \<union>
     (\<lambda>x. EvClean (line_of line x)) ` (\<Union>r \<in> set (List.map_filter (\<lambda>x. x) rs). stack_bytes r) \<subseteq> set tr"
    and fx: "shaped fx rs" "bf_line fx = line" "bf_slots fx = be_slots env"
  shows "published_at fx (boot_trace s) s"
proof -
  obtain bt where bt: "bs_tables s = Some bt" "bt_frozen bt" "\<And>r. Some r \<in> set rs \<Longrightarrow> validate_resources (bt_tables bt) r = Ok ()"
    using s(1) unfolding validated_def by blast
  have "\<exists>r. validate_resources (bt_tables bt) r = Ok () \<and> resources_of (bf_slots fx) i r (bs_slots s i) \<and>
      (\<forall>x \<in> startup_bytes r. cleaned (boot_trace s) (line_of (bf_line fx) x))" if i: "bit (bf_required fx) i" for i
  proof -
    have l: "i < length rs" using fx(1) i by (simp add: shaped_def)
    then obtain r where r: "rs ! i = Some r" using fx(1) i by (fastforce simp: shaped_def)
    then have m: "Some r \<in> set rs" using l nth_mem by metis
    have o: "shared_regions r = shared_regions shared" "resources_of (bf_slots fx) i r (bs_slots s i)"
      using s(2) l r fx(3) by (auto simp: owned_def)
    have "stack_bytes r \<subseteq> (\<Union>r \<in> set (List.map_filter (\<lambda>x. x) rs). stack_bytes r)" using member_filtered [OF m] by (rule UN_upper)
    then have "startup_bytes r \<subseteq> regions_addrs (shared_regions shared) \<union> (\<Union>r \<in> set (List.map_filter (\<lambda>x. x) rs). stack_bytes r)"
      unfolding startup_bytes_def o(1) by (rule Un_mono [OF order_refl])
    then have clean: "(\<lambda>x. EvClean (line_of line x)) ` startup_bytes r \<subseteq> set tr"
      using s(4) unfolding image_Un [symmetric] by (rule order_trans [OF image_mono])
    have "cleaned (boot_trace s) (line_of (bf_line fx) x)" if "x \<in> startup_bytes r" for x
      unfolding s(3) fx(2) by (rule cleaned_barrier [OF subsetD [OF clean imageI [OF that]]])
    then show ?thesis using bt(3) [OF m] o(2) by blast
  qed
  then show ?thesis unfolding published_at_def using bt(1,2) by blast
qed

lemma b_publish_main:
  assumes fx: "shaped fx rs" "bf_line fx = line" "bf_slots fx = be_slots env"
  shows "boots fx (\<lambda>s. in_state Preparing s \<and> validated rs (bs_tables s))
     (pthen (check_publications env cpus contract line shared 0 rs) (\<lambda>_.
      pthen (pbind (on_hw (publish_shared_startup shared line)) (\<lambda>r. Ret (map_err (\<lambda>_. ''shared publication failed'') r))) (\<lambda>_.
      pthen (pbind (on_hw (publish_stacks line (List.map_filter (\<lambda>x. x) rs))) (\<lambda>r.
        Ret (map_err (\<lambda>_. ''stack publication failed'') r))) (\<lambda>_.
      on_hw publication_barrier))))
     (\<lambda>x s. in_state Preparing s \<and> (x = Ok () \<longrightarrow> published_at fx (boot_trace s) s))"
proof -
  let ?P = "\<lambda>s. in_state Preparing s \<and> validated rs (bs_tables s)"
  let ?K = "\<lambda>s. ?P s \<and> owned env shared rs s"
  let ?ev = "\<lambda>A. (\<lambda>x. EvClean (line_of line x)) ` A"
  let ?A = "?ev (regions_addrs (shared_regions shared))" and ?B = "?ev (\<Union>r \<in> set (List.map_filter (\<lambda>x. x) rs). stack_bytes r)"
  have P: "kept fx ?P" by (rule kept_conj [OF kept_parts(1,2)])
  have K: "kept fx ?K" by (rule kept_conj [OF P owned_kept])
  have checked: "boots fx ?P (check_publications env cpus contract line shared 0 rs) (\<lambda>x s. ?P s \<and> (x = Ok () \<longrightarrow> owned env shared rs s))"
    by (rule b_post [OF b_checked [OF P]]) (auto simp: owned_def)
  have barrier: "boots fx (\<lambda>s. ?K s \<and> {} \<union> ?A \<union> ?B \<subseteq> set (boot_trace s)) (on_hw (publication_barrier :: (release_hw, (unit, string) outcome) prog))
      (\<lambda>x s. in_state Preparing s \<and> (x = Ok () \<longrightarrow> published_at fx (boot_trace s) s))"
  proof (rule b_post [OF b_hw_trace [OF hw_ok_primitives(2) K]])
    fix x :: "(unit, string) outcome" and s
    assume "?K s \<and> (\<exists>h. {} \<union> ?A \<union> ?B \<subseteq> set (hw_trace h) \<and> (x, bs_hw s) = run publication_barrier h)"
    then obtain h where h: "?K s" "?A \<union> ?B \<subseteq> set (hw_trace h)" "(x, bs_hw s) = run publication_barrier h" by auto
    have "boot_trace s = hw_trace h @ [EvBarrier]" using h(3) by (simp add: hw_defs prog_defs)
    then show "in_state Preparing s \<and> (x = Ok () \<longrightarrow> published_at fx (boot_trace s) s)"
      using published_from [OF _ _ _ h(2) fx, of s] h(1) by blast
  qed
  have stacks: "boots fx (\<lambda>s. ?K s \<and> {} \<union> ?A \<subseteq> set (boot_trace s))
      (pbind (on_hw (publish_stacks line (List.map_filter (\<lambda>x. x) rs))) (\<lambda>r. Ret (map_err (\<lambda>_. ''stack publication failed'') r)))
      (\<lambda>r s. ?K s \<and> (r = Ok () \<longrightarrow> {} \<union> ?A \<union> ?B \<subseteq> set (boot_trace s)))"
    by (rule b_bind [OF b_cleans [OF cleans_stacks K]], rule b_Ret) (auto simp: outcome_simps)
  have shared: "boots fx (\<lambda>s. ?K s \<and> {} \<subseteq> set (boot_trace s))
      (pbind (on_hw (publish_shared_startup shared line)) (\<lambda>r. Ret (map_err (\<lambda>_. ''shared publication failed'') r)))
      (\<lambda>r s. ?K s \<and> (r = Ok () \<longrightarrow> {} \<union> ?A \<subseteq> set (boot_trace s)))"
    by (rule b_bind [OF b_cleans [OF cleans_publish_shared K]], rule b_Ret) (auto simp: outcome_simps)
  show ?thesis
    by (rule b_then [OF checked], rule b_then [OF b_weaken [OF shared]], simp,
        rule b_then [OF b_weaken [OF stacks]], simp, rule b_weaken [OF barrier]) simp_all
qed

lemma b_list:
  "boots fx P p post \<Longrightarrow> (\<And>x xs. boots fx P (k x xs) post) \<Longrightarrow> boots fx P (case l of [] \<Rightarrow> p | x # xs \<Rightarrow> k x xs) post"
  by (cases l) auto

lemma b_publish_all:
  assumes "shaped fx rs" and "bf_line fx = line" and "bf_slots fx = be_slots env"
  shows "boots fx (\<lambda>s. in_state Preparing s \<and> validated rs (bs_tables s)) (publish_all_startups env rs contract line)
    (\<lambda>x s. in_state Preparing s \<and> (x = Ok () \<longrightarrow> published_at fx (boot_trace s) s))"
  (is "boots fx ?P _ ?post")
proof -
  have P: "kept fx ?P" by (rule kept_conj [OF kept_parts(1,2)])
  have fail: "boots fx ?P (Ret (Err e)) ?post" for e by (rule b_Ret) auto
  show ?thesis
    unfolding publish_all_startups_def on_boot_status
    by (rule b_then [OF calm_aload [OF P]], rule b_if, rule fail, rule b_bind [OF calm_aload [OF P]], rule b_if, rule fail, rule b_then [OF calm_Ret],
        rule b_list [OF fail b_publish_main [OF assms]]) auto
qed

section \<open>Release\<close>

lemma b_begin_release:
  "boots fx (\<lambda>s. in_state Preparing s \<and> published_at fx (boot_trace s) s) (on_boot begin_release)
     (\<lambda>r s. in_state Releasing s \<and> r = Ok ())"
proof -
  have cas: "boots fx (\<lambda>s. in_state Preparing s \<and> published_at fx (boot_trace s) s) (on_boot (status_cas Preparing Releasing)) (\<lambda>b s. in_state Releasing s \<and> b)"
    unfolding on_boot_cas by (rule b_armw) (auto intro: bg_release)
  show ?thesis unfolding begin_release_def plift_pbind by (rule b_bind [OF cas]) (auto simp: cas_or_def intro: b_Ret)
qed

lemma calm_zero_cell: "kept fx K \<Longrightarrow> calm fx K (expect_zero_cell cell)"
  unfolding expect_zero_cell_def by (intro calm_then calm_hw calm_Ret) simp_all

lemma calm_begin_start: "kept fx K \<Longrightarrow> calm fx K (on_slot i (on_mailbox (begin_start g)))"
  by (rule b_post [OF b_slot_any [OF sl_mailbox [OF begin_start_safe quiet_operations(2) tame_operations(2)]]]) auto

lemma calm_store:
  assumes "store_ok fx cell entry"
  shows "calm fx (in_state Releasing) (release_store counter i cell entry line)"
proof -
  let ?K = "in_state Releasing"
  have mark: "calm fx ?K (mark_attempt i)"
    unfolding mark_attempt_def by (rule b_armw) (auto intro: bg_attempt bg_skip)
  have store: "calm fx ?K (on_hw (write_release_cell_le64 counter cell entry))"
    unfolding boots_def by (rule safe_post [OF hw_store_with [OF _ _ _ assms]]) auto
  show ?thesis
    unfolding release_store_def by (intro calm_bind calm_then calm_if calm_Ret mark store calm_hw) simp_all
qed

lemma calm_release:
  assumes "bit (bf_required fx) (unat (ci_logical_id (sv_identity rc)))"
  shows "calm fx (in_state Releasing) (release_secondary counter (bf_cpus fx) contract slot rc (bf_entry fx) line)"
proof -
  have K: "kept fx (in_state Releasing)" by simp
  have pure: "calm fx (in_state Releasing) (pthen (Ret x) k)" if "\<And>a. x = Ok a \<Longrightarrow> calm fx (in_state Releasing) (k a)"
    for x :: "('a, publication_error) outcome" and k :: "'a \<Rightarrow> (boot_sys, (u64, publication_error) outcome) prog"
    using that by (cases x) (auto simp: pthen_def intro: calm_Ret)
  have store: "store_ok fx cell (bf_entry fx)" if "map_err (\<lambda>_. Preconditions) (validate_spin_table_release (bf_cpus fx) (unat (ci_logical_id (sv_identity rc))) contract) = Ok cell" for cell
    using that assms by (auto simp: store_ok_def outcome_simps)
  show ?thesis
    unfolding release_secondary_def Let_def
    by (rule pure, intro calm_then calm_bind calm_Ret calm_if calm_slot [OF _ K] calm_aload [OF K] calm_zero_cell [OF K] calm_begin_start [OF K]
        calm_hw [OF _ K] ro_intros ro_slot_programs calm_store store) simp_all
qed

text \<open>Waiting.\<close>

lemma calm_poll:
  assumes "calm fx K life" and "\<And>c. calm fx K (counter c)"
  shows "calm fx K (poll_loop life counter start ticks polls c)"
proof (induction polls arbitrary: c)
  case (Suc polls)
  have "calm fx K (if ticks \<le> now - start then Ret (Err WTimeout, c)
     else pbind life (\<lambda>r. case r of Panic \<Rightarrow> Ret (Panic, c) | Err e \<Rightarrow> Ret (Err e, c)
       | Ok st \<Rightarrow> if st = Failed then Ret (Err WCpuFailed, c)
           else if st = Parked then pbind (counter c) (\<lambda>(now, c). Ret (if ticks \<le> now - start then Err WTimeout else Ok (), c))
           else poll_loop life counter start ticks polls c))" for now c
    by (intro calm_if calm_Ret calm_bind [OF assms(1)]) (auto intro!: calm_Ret calm_bind [OF assms(2)] Suc split: outcome.split)
  then show ?case unfolding poll_loop.simps by (intro calm_bind [OF assms(2)]) (simp add: case_prod_unfold)
qed (simp add: calm_Ret)

lemma calm_wait_parked:
  assumes "kept fx K" and "calm fx K elapsed"
  shows "calm fx K (wait_for_parked slot rc i g ticks polls elapsed)"
proof -
  note ro = calm_ro [OF _ kept_steady [OF assms(1)]]
  have fatal: "calm fx K has_fatal" by (rule ro) (rule ro_slot_programs)
  have slot: "calm fx K (on_slot slot (on_mailbox p))" if "readonly p" for p :: "(mailbox, 'x) prog"
    by (intro ro ro_lifts ro_on_mailbox that)
  have counter: "calm fx K (fatal_or_elapsed ticks elapsed c)" for c
    unfolding fatal_or_elapsed_def by (intro calm_bind fatal calm_if calm_Ret assms(2))
  have mail: "calm fx K (wait_mailbox slot g 0 ticks polls (fatal_or_elapsed ticks elapsed) c)" for c
    unfolding wait_mailbox_def
    by (rule calm_bind [OF slot [OF ro_slot_programs(2)]])
      (auto intro!: calm_Ret calm_poll slot [OF ro_slot_programs(1)] counter split: outcome.split)
  have verify: "calm fx K (on_slot slot (verify_checkpoint rc i g))" by (intro ro ro_lifts ro_slot_programs)
  have status: "calm fx K (on_boot boot_status)" by (intro ro ro_lifts ro_slot_programs)
  show ?thesis
    unfolding wait_for_parked_def case_prod_unfold by (intro calm_then calm_bind calm_if calm_Ret status mail fatal verify)
qed

lemma calm_wait: "kept fx K \<Longrightarrow> calm fx K (wait_for_secondary env i deadline start)"
  unfolding wait_for_secondary_def startup_or_def
  by (intro calm_then calm_bind calm_if calm_Ret calm_startup calm_wait_parked calm_hw calm_slot ro_on_mailbox ro_slot_programs) simp_all

lemma releasing_identity:
  assumes "boot_inv fx s" and "in_state Releasing s" and "bit (bf_required fx) i" and "i < 64" and "reads_as a c (bs_slots s i)"
  shows "unat (ci_logical_id c) = i"
proof -
  have "published_at fx (boot_trace s) s" using assms(1,2) by (auto simp: boot_inv_def)
  then have "ci_logical_id c = word_of_nat i"
    using assms(3,5) by (fastforce simp: published_at_def resources_of_def reads_as_def prepared_as_def)
  then show ?thesis using assms(4) by (simp add: unat_word_of_nat_u64)
qed

lemma calm_release_loop:
  assumes "bf_required fx = required" and "bf_entry fx = be_entry env" and "\<forall>i \<in> set is. i < 64"
  shows "calm fx (in_state Releasing) (release_each_cpu env required (bf_cpus fx) contract deadline line is)"
  using assms(3)
proof (induction "is")
  case (Cons i "is")
  let ?K = "in_state Releasing"
  have K: "kept fx ?K" by simp
  have rest: "calm fx ?K (pthen (wait_for_secondary env i deadline start) (\<lambda>_.
     pbind (aload bs_attempted) (\<lambda>attempted.
     pthen (pbind (verify_release_set env attempted (be_entry env)) (\<lambda>r. Ret (map_err (\<lambda>_. Readback) r))) (\<lambda>_.
     release_each_cpu env required (bf_cpus fx) contract deadline line is))))" for start
    using Cons by (intro calm_then calm_bind calm_Ret calm_aload [OF K] calm_wait [OF K] calm_release_set [OF K]) simp
  have fatal: "calm fx ?K has_fatal" by (rule calm_ro [OF ro_slot_programs(9) kept_steady [OF K]])
  show ?case
  proof (cases "required AND push_bit i 1 = 0")
    case False
    then have bit: "bit (bf_required fx) i" using Cons.prems assms(1) by (simp add: and_push_bit)
    have release: "boots fx (\<lambda>s. ?K s \<and> (\<forall>v. Ok rc = Ok v \<longrightarrow> viewed env i v s))
        (release_secondary (be_counter env) (bf_cpus fx) contract i rc (be_entry env) line) (\<lambda>_. ?K)" for rc
    proof -
      have "boots fx (\<lambda>s. unat (ci_logical_id (sv_identity rc)) = i \<and> ?K s)
          (release_secondary (be_counter env) (bf_cpus fx) contract i rc (bf_entry fx) line) (\<lambda>_. ?K)"
        by (rule b_pure) (use bit in \<open>auto intro: calm_release\<close>)
      then show ?thesis unfolding assms(2)
        by (rule b_weaken) (use Cons.prems bit in \<open>auto dest: releasing_identity\<close>)
    qed
    show ?thesis
      unfolding release_each_cpu.simps if_not_P [OF False]
      by (rule calm_bind [OF fatal], rule calm_if [OF calm_Ret], rule b_then [OF b_startup_or [OF K]],
          rule b_then [OF b_bind [OF release]], rule b_Ret, assumption, rule rest) auto
  qed (use Cons in simp)
qed (auto intro: calm_Ret)

lemma calm_release_and_wait:
  assumes "fx = facts_of env" and "bf_required fx = required"
  shows "calm fx (in_state Releasing) (release_and_wait env required contract deadline line)"
proof -
  have K: "kept fx (in_state Releasing)" by simp
  have loop: "calm fx (in_state Releasing) (release_each_cpu env required (bf_cpus fx) contract deadline line [1..<MAX_CPUS])"
    by (rule calm_release_loop) (use assms in \<open>auto simp: facts_of_def MAX_CPUS_def\<close>)
  have main: "calm fx (in_state Releasing) (pthen (Ret (ok_or InvalidCheckpoint (be_topology env))) (\<lambda>topology.
     release_each_cpu env required (ct_cpus topology) contract deadline line [1..<MAX_CPUS]))"
    using loop assms(1) by (cases "be_topology env") (auto simp: facts_of_def pthen_def outcome_simps intro: calm_Ret)
  show ?thesis
    unfolding release_and_wait_def on_boot_status
    by (rule calm_then [OF calm_aload [OF K]], rule calm_if [OF calm_Ret], rule calm_bind [OF calm_aload [OF K]], rule calm_if [OF calm_Ret main])
qed

section \<open>The last check\<close>

lemma b_verify_records:
  "boots fx (\<lambda>s. in_state Releasing s \<and> (\<forall>k. bit seen k \<longrightarrow> passed (bs_slots s k)))
     (verify_records required GENERATION seen (map (parked_record env) is))
     (\<lambda>r s. in_state Releasing s \<and> (r = Ok () \<longrightarrow> (\<forall>k. bit required k \<longrightarrow> passed (bs_slots s k))))"
proof (induction "is" arbitrary: seen)
  case (Cons i "is")
  let ?K = "\<lambda>seen s. in_state Releasing s \<and> (\<forall>k. bit seen k \<longrightarrow> passed (bs_slots s k))"
  let ?post = "\<lambda>r s. in_state Releasing s \<and> (r = Ok () \<longrightarrow> (\<forall>k. bit required k \<longrightarrow> passed (bs_slots s k)))"
  have K: "kept fx (?K seen)" for seen :: u64 by (intro kept_conj kept_parts kept_all kept_imp kept_slots)
  have src: "boots fx (?K seen) (parked_record env i) (\<lambda>r s. ?K seen s \<and> (\<forall>x. r = Ok (Some x) \<longrightarrow> (\<exists>rc. x = (i, i, rc))))"
    unfolding parked_record_def by (rule b_bind [OF calm_startup [OF K]], rule b_Ret) (auto simp: outcome_simps)
  have step: "boots fx (?K seen) (pthen (on_slot i (verify_checkpoint rc i GENERATION)) (\<lambda>_.
       if required AND push_bit i 1 = 0 \<or> seen AND push_bit i 1 \<noteq> 0 then Ret (Err InvalidCheckpoint)
       else verify_records required GENERATION (seen OR push_bit i 1) (map (parked_record env) is))) ?post" for rc
  proof (rule b_then [OF b_slot_any [OF verify_checkpoint_safe K]])
    fix u :: unit
    have "boots fx (\<lambda>s. i < MAX_CPUS \<and> ?K seen s \<and> passed (bs_slots s i))
        (verify_records required GENERATION (seen OR push_bit i 1) (map (parked_record env) is)) ?post"
      by (rule b_pure, rule b_weaken [OF Cons [of "seen OR push_bit i 1"]]) (auto simp: bit_or_push MAX_CPUS_def)
    then show "boots fx (\<lambda>s. ?K seen s \<and> Ok u \<noteq> Panic \<and> (Ok u = Ok () \<longrightarrow> passed (bs_slots s i) \<and> i < MAX_CPUS))
        (if required AND push_bit i 1 = 0 \<or> seen AND push_bit i 1 \<noteq> 0 then Ret (Err InvalidCheckpoint)
         else verify_records required GENERATION (seen OR push_bit i 1) (map (parked_record env) is)) ?post"
      by (intro b_if b_Ret) (auto elim: b_weaken)
  qed auto
  show ?case
    unfolding list.map verify_records.simps
  proof (rule b_then [OF src])
    fix x
    show "boots fx (\<lambda>s. ?K seen s \<and> (\<forall>xa. Ok x = Ok (Some xa) \<longrightarrow> (\<exists>rc. xa = (i, i, rc))))
      (case x of None \<Rightarrow> verify_records required GENERATION seen (map (parked_record env) is)
       | Some (k, slot, record) \<Rightarrow>
           pthen (on_slot slot (verify_checkpoint record k GENERATION)) (\<lambda>_.
           if required AND push_bit k 1 = 0 \<or> seen AND push_bit k 1 \<noteq> 0 then Ret (Err InvalidCheckpoint)
           else verify_records required GENERATION (seen OR push_bit k 1) (map (parked_record env) is))) ?post"
    proof (cases "\<exists>rc. x = Some (i, i, rc)")
      case True
      then show ?thesis using step by (auto elim: b_weaken)
    next
      case False
      then show ?thesis by (cases x) (auto intro: b_weaken [OF Cons] b_weaken [OF b_pure [where b = False]])
    qed
  qed auto
qed (auto intro: b_Ret)

lemma b_check_all:
  assumes "bf_required fx = required"
  shows "boots fx (in_state Releasing) (check_all_parked env required)
     (\<lambda>r s. in_state Releasing s \<and> (r = Ok () \<longrightarrow> all_passed fx s))"
proof -
  let ?K = "in_state Releasing"
  have K: "kept fx ?K" by simp
  have records: "boots fx ?K (verify_records required GENERATION 0 (map (parked_record env) is)) (\<lambda>r s. ?K s \<and> (r = Ok () \<longrightarrow> all_passed fx s))" for "is"
    by (rule b_weaken [OF b_post [OF b_verify_records]]) (auto simp: all_passed_def assms)
  have fail: "boots fx ?K (Ret (Err e)) (\<lambda>r s. ?K s \<and> (r = Ok () \<longrightarrow> all_passed fx s))" for e by (rule b_Ret) auto
  show ?thesis
    unfolding check_all_parked_def verify_all_parked_def on_boot_status has_fatal_def
    by (rule b_bind [OF calm_aload [OF K]], rule b_if, rule fail, rule b_bind [OF calm_aload [OF K]], rule b_then [OF calm_aload [OF K]])
      (auto intro!: fail records)
qed

section \<open>The boot CPU\<close>

lemma required_fact: "required_mask env = Ok m \<Longrightarrow> bf_required (facts_of env) = m"
  by (auto simp: facts_of_def required_mask_def split: option.splits outcome.splits)

lemma b_pure_then: "(\<And>a. x = Ok a \<Longrightarrow> boots fx P (k a) post) \<Longrightarrow> (\<And>s y. P s \<Longrightarrow> (\<forall>a. y \<noteq> Ok a) \<Longrightarrow> post y s) \<Longrightarrow> boots fx P (pthen (Ret x) k) post"
  by (cases x) (auto simp: pthen_def intro: b_Ret)

lemma b_map_err:
  assumes "boots fx P p post" and "\<And>r s. post r s \<Longrightarrow> post' (map_err g r) s"
  shows "boots fx P (pbind p (\<lambda>r. Ret (map_err g r))) post'"
  by (rule b_bind [OF assms(1)], rule b_Ret) (rule assms(2))

abbreviation booted :: "boot_facts \<Rightarrow> (unit, boot_error) outcome \<Rightarrow> boot_sys \<Rightarrow> bool" where
  "booted fx r s \<equiv> (in_state Preparing s \<and> r \<noteq> Ok ()) \<or> (in_state Releasing s \<and> (r = Ok () \<longrightarrow> all_passed fx s))"

lemma b_release_phase:
  assumes "fx = facts_of env" and "bf_required fx = required"
  shows "boots fx (\<lambda>s. in_state Preparing s \<and> published_at fx (boot_trace s) s)
     (pthen (on_boot begin_release) (\<lambda>_. pthen (release_and_wait env required contract deadline line) (\<lambda>_. check_all_parked env required)))
     (booted fx)"
  by (rule b_then [OF b_begin_release], rule b_then [OF b_weaken [OF calm_release_and_wait [OF assms]]], simp,
      rule b_post [OF b_check_all [OF assms(2)]]) auto

lemma b_procedure:
  assumes fx: "fx = facts_of env"
  shows "boots fx (in_state Preparing) (boot_procedure dt env policy) (booted fx)"
proof -
  have K: "kept fx (in_state Preparing)" by simp
  have platform: "calm fx (in_state Preparing) (preparation (validate_platform dt env policy))"
    by (intro calm_bind calm_platform calm_Ret K)
  have after: "boots fx (in_state Preparing)
      (pthen (preparation (prepare_all_cpus env required policy)) (\<lambda>resources.
       pthen (preparation (freeze_startups env resources)) (\<lambda>_.
       pthen (preparation (publish_all_startups env resources contract (cache_line_size env))) (\<lambda>_.
       pthen (on_boot begin_release) (\<lambda>_.
       pthen (release_and_wait env required contract deadline (cache_line_size env)) (\<lambda>_. check_all_parked env required))))))
      (booted fx)" if m: "required_mask env = Ok required" for required contract deadline
  proof -
    have req: "bf_required fx = required" using required_fact [OF m] fx by simp
    have bits: "\<not> bit required 0" "\<And>i. bit required i \<Longrightarrow> i < MAX_CPUS" using required_bits [OF m] by blast+
    have prepare: "boots fx (in_state Preparing) (preparation (prepare_all_cpus env required policy))
        (\<lambda>r s. (\<forall>rs. r = Ok rs \<longrightarrow> shaped fx rs) \<and> in_state Preparing s)"
      by (rule b_map_err [OF b_returns [OF calm_prepare prepare_shape [OF bits(1)]]])
        (use bits(2) in \<open>auto simp: outcome_simps shaped_def req\<close>)
    have freeze: "boots fx (in_state Preparing) (preparation (freeze_startups env rs))
        (\<lambda>r s. in_state Preparing s \<and> (r = Ok () \<longrightarrow> validated rs (bs_tables s)))" for rs
      by (rule b_map_err [OF b_freeze]) (auto simp: outcome_simps)
    have publish: "boots fx (\<lambda>s. in_state Preparing s \<and> validated rs (bs_tables s))
        (preparation (publish_all_startups env rs contract (cache_line_size env)))
        (\<lambda>r s. in_state Preparing s \<and> (r = Ok () \<longrightarrow> published_at fx (boot_trace s) s))" if "shaped fx rs" for rs
      by (rule b_map_err [OF b_publish_all [OF that]]) (auto simp: outcome_simps fx facts_of_def)
    show ?thesis
      by (rule b_then [OF prepare], rule b_weaken [OF b_pure, rotated], simp, rule b_then [OF freeze],
          rule b_then [OF b_weaken [OF publish]], assumption, simp, rule b_weaken [OF b_release_phase [OF fx req]]) auto
  qed
  show ?thesis
    unfolding boot_procedure_def Let_def
    by (rule b_then [OF platform], simp add: case_prod_unfold, rule b_pure_then, rule b_if, rule b_Ret, simp, rule after) auto
qed

lemma steady_all_passed [simp]: "steady fx (all_passed fx)"
  unfolding steady_def using all_passed_guar by blast

lemma final_status_cases:
  assumes "final_status st r = Some new"
  shows "(st = Preparing \<and> new = PreparationFailed) \<or> (st = Releasing \<and> new \<in> {ReleaseFailed, WaitFailed}) \<or>
    (st = Releasing \<and> new = Ready \<and> r = Ok ())"
  using assms by (cases "(st, r)" rule: final_status.cases) auto

lemma b_finalize: "boots fx (booted fx result) (on_boot (finalize_boot result)) (\<lambda>r s. r = Ok () \<longrightarrow> in_state Ready s)"
proof -
  let ?at = "\<lambda>st s. in_state st s \<and> (st = Preparing \<longrightarrow> result \<noteq> Ok ()) \<and> (st = Releasing \<and> result = Ok () \<longrightarrow> all_passed fx s)"
  have load: "boots fx (booted fx result) (aload (\<lambda>s. decode_status (bs_state s) :: (boot_status, boot_error) outcome)) (\<lambda>r s. case r of Ok st \<Rightarrow> ?at st s | _ \<Rightarrow> False)"
  proof (rule b_load)
    show "steady fx (\<lambda>s. case r of Ok st \<Rightarrow> ?at st s | _ \<Rightarrow> False)" for r :: "(boot_status, boot_error) outcome"
      by (cases r) (auto intro!: steady_conj steady_imp)
  qed auto
  have cas: "boots fx (?at st) (on_boot (status_cas st new)) (\<lambda>b s. b \<and> in_state new s)" if f: "final_status st result = Some new" for st new
    unfolding on_boot_cas
  proof (rule b_armw)
    fix s assume s: "?at st s"
    show "boot_guar fx 0 s (fst (if in_state st s then (s\<lparr>bs_state := status_code new\<rparr>, True) else (s, False)))"
      using final_status_cases [OF f] s by (auto intro: bg_unprepared bg_failed bg_ready)
  qed auto
  show ?thesis
    unfolding finalize_boot_def plift_pthen on_boot_status
  proof (rule b_then [OF load])
    fix st
    show "boots fx (\<lambda>s. case Ok st of Ok st \<Rightarrow> ?at st s | _ \<Rightarrow> False)
        (on_boot (case final_status st result of None \<Rightarrow> Ret (Err BadTransition)
         | Some new \<Rightarrow> pthen (pbind (status_cas st new) (cas_or BadTransition)) (\<lambda>_.
             Ret (if new = Ready then Ok () else case result of Err e \<Rightarrow> Err e | _ \<Rightarrow> Err BadTransition))))
        (\<lambda>r s. r = Ok () \<longrightarrow> in_state Ready s)"
    proof (cases "final_status st result")
      case (Some new)
      have "boots fx (?at st) (pbind (on_boot (status_cas st new)) (\<lambda>b. on_boot (cas_or BadTransition b))) (\<lambda>r s. r = Ok () \<and> in_state new s)"
        by (rule b_bind [OF cas [OF Some]]) (auto simp: cas_or_def intro: b_Ret)
      then show ?thesis unfolding Some option.case plift_pthen plift_pbind outcome.case
        by (rule b_then) (auto intro!: b_Ret split: outcome.splits)
    qed (auto intro: b_Ret)
  qed auto
qed

text \<open>The boot CPU keeps the protocol from any state, and reports success only when the start is authorized.\<close>

lemma b_start_all: "boots (facts_of env) (\<lambda>_. True) (start_all dt env policy) (\<lambda>r s. r = Ok () \<longrightarrow> in_state Ready s)"
proof -
  let ?fx = "facts_of env"
  have cas: "boots ?fx (\<lambda>_. True) (on_boot (status_cas Idle Preparing)) (\<lambda>b s. b \<longrightarrow> in_state Preparing s)"
    unfolding on_boot_cas by (rule b_armw) (auto intro: bg_begin bg_skip)
  have once: "boots ?fx (\<lambda>_. True) (on_boot begin_boot_once) (\<lambda>r s. r = Ok () \<longrightarrow> in_state Preparing s)"
    unfolding begin_boot_once_def plift_pbind by (rule b_bind [OF cas]) (auto simp: cas_or_def intro: b_Ret)
  show ?thesis
    unfolding start_all_def
    by (rule b_then [OF once], rule b_bind [OF b_weaken [OF b_procedure [OF refl]]], simp, rule b_if, rule b_Ret, simp, rule b_finalize) auto
qed

end
