(* ===== verification/Smp_Boot.thy ===== *)
theory Smp_Boot
  imports Boot_Safety
begin

text \<open>
  The other side of a start, and the start as a whole: a released CPU, the workers, fatal
  reports and the preparation of the slots keep the protocol too, so it holds in every
  interleaving of all CPUs.
\<close>

section \<open>A released CPU\<close>

lemma any_ro: "readonly p \<Longrightarrow> boot_stable fx cpu P \<Longrightarrow> boot_safe fx cpu P p (\<lambda>_. P)"
  by (rule ro_keep) (auto intro: bg_skip)

lemma slot_stable: "sl_stable i cpu P \<Longrightarrow> boot_stable fx cpu (\<lambda>s. P (bs_slots s i))"
  unfolding stable_under_def using slot_guar by (metis boot_inv_slot)

lemma ro_secondary_context: "readonly (validate_secondary_context env k a b t p)"
  by (auto simp: validate_secondary_context_def Let_def intro!: ro_intros ro_slot_programs split: option.split)

lemma entered_safe:
  assumes "claim_generation claim = g"
  shows "boot_safe fx cpu (\<lambda>s. holding g cpu (\<lambda>_. True) (bs_slots s i)) (secondary_entered env i rc claim ls e) (\<lambda>_ _. True)"
proof -
  let ?hold = "\<lambda>Q s. holding g cpu Q (bs_slots s i)"
  have ctx: "boot_safe fx cpu (?hold (\<lambda>_. True)) (validate_secondary_context env k a b t p) (\<lambda>_. ?hold (\<lambda>_. True))" for k a b t p
    by (rule any_ro [OF ro_secondary_context slot_stable [OF holding_stable]])
  have check: "boot_safe fx cpu (?hold (\<lambda>_. True)) (on_slot i (validate rc ls e v c m)) (\<lambda>_. ?hold (\<lambda>_. True))" for v c m
    by (rule any_ro [OF ro_lifts(1) [OF ro_slot_programs(15)] slot_stable [OF holding_stable]])
  have finish: "boot_safe fx cpu (?hold (\<lambda>f. f = n))
      (if n = 0
       then pbind (on_slot i (on_mailbox (claim_park claim))) (\<lambda>r. Ret (if r = Panic then Panic else Ok (Worker k g')))
       else pbind (on_slot i (on_mailbox (claim_fail claim))) (\<lambda>r. Ret (if r = Panic then Panic else Ok Halted))) (\<lambda>_ _. True)"
    for n :: u64 and k g'
  proof (cases "n = 0")
    case True
    have "boot_safe fx cpu (?hold (\<lambda>f. f = 0)) (on_slot i (on_mailbox (claim_park claim))) (\<lambda>_ _. True)"
      by (rule safe_post [OF slot_safe [OF claim_park_slot [OF assms]]]) simp
    then show ?thesis using True by (auto intro!: safe_pbind safe_Ret)
  next
    case False
    have "boot_safe fx cpu (?hold (\<lambda>f. f = n)) (on_slot i (on_mailbox (claim_fail claim))) (\<lambda>_ _. True)"
      by (rule safe_post [OF slot_safe [OF claim_fail_slot [OF assms]]]) simp
    then show ?thesis using False by (auto intro!: safe_pbind safe_Ret)
  qed
  show ?thesis
    unfolding secondary_entered_def Let_def
    by (rule safe_pthen [OF ctx], rule safe_pbind [OF check], rule safe_pbind [OF slot_safe [OF publish_checkpoint_safe]], rule finish) auto
qed

lemma secondary_main_safe: "boot_safe fx cpu (\<lambda>_. True) (secondary_main env cpu pointer g ls e) (\<lambda>_ _. True)"
proof (cases "find_index env pointer")
  case (Some i)
  have entered: "boot_safe fx cpu (\<lambda>_. True) (pbind (on_slot i (on_mailbox (claim_entry cpu h))) (\<lambda>r. case r of
      Ok claim \<Rightarrow> secondary_entered env i rc claim ls e | Err _ \<Rightarrow> Ret (Ok Halted) | Panic \<Rightarrow> Ret Panic)) (\<lambda>_ _. True)" for h rc
  proof (rule safe_pbind [OF slot_safe [OF claim_entry_slot]])
    fix r :: "(entry_claim, protocol_error) outcome"
    show "boot_safe fx cpu (\<lambda>s. r \<noteq> Panic \<and> (\<forall>c. r = Ok c \<longrightarrow> claim_generation c = h \<and> holding h cpu (\<lambda>_. True) (bs_slots s i)))
      (case r of Ok claim \<Rightarrow> secondary_entered env i rc claim ls e | Err _ \<Rightarrow> Ret (Ok Halted) | Panic \<Rightarrow> Ret Panic) (\<lambda>_ _. True)"
    proof (cases r)
      case (Ok claim)
      have "boot_safe fx cpu (\<lambda>s. claim_generation claim = h \<and> holding h cpu (\<lambda>_. True) (bs_slots s i)) (secondary_entered env i rc claim ls e) (\<lambda>_ _. True)"
        by (rule safe_pure) (rule entered_safe)
      then show ?thesis using Ok by simp
    qed (auto intro: safe_Ret)
  qed
  have config: "boot_safe fx cpu (\<lambda>_. True) (on_config hs_get) (\<lambda>_ _. True)"
    by (rule any_ro [OF ro_lifts(2) [OF ro_slot_programs(8)] stable_under_True])
  have view: "boot_safe fx cpu (\<lambda>_. True) (on_slot i (slot_startup_view a ca g c)) (\<lambda>_ _. True)" for a ca c
    by (rule any_ro [OF ro_lifts(1) [OF ro_slot_programs(7)] stable_under_True])
  show ?thesis
    unfolding secondary_main_def Some option.case
    by (rule safe_pbind [OF config])
      (auto intro!: safe_Ret safe_pthen [OF view] entered split: option.split)
qed (auto simp: secondary_main_def intro: safe_Ret)

section \<open>Preparation of a slot\<close>

text \<open>The part of the protocol \<open>slot_prepare_safe\<close> does not cover: what it does to the mailbox and the record.\<close>

lemma slot_prepare_slot: "sl_safe k cpu (\<lambda>_. True) (slot_prepare cpu i f l) (\<lambda>_ _. True)"
proof -
  let ?I = "\<lambda>s. mb_inv (ps_mailbox s)"
  let ?G = "\<lambda>s s'. mb_guar k cpu (ps_mailbox s) (ps_mailbox s') \<and> rec_guar cpu s s'"
  have claim: "safe ?I (sl_rely k cpu) ?G (\<lambda>_. True) (claim_slot cpu) (\<lambda>_ _. True)"
    unfolding claim_slot_def by (rule safe_armw) (use mb_guar_inv in \<open>auto simp: ps_mailbox_def rec_guar_def\<close>)
  have store: "safe ?I (sl_rely k cpu) ?G (\<lambda>_. True) (ctx_store h) (\<lambda>_ _. True)" for h
    unfolding ctx_store_def astore_armw by (rule safe_armw) (use mb_guar_inv in \<open>auto simp: ps_mailbox_def rec_guar_def\<close>)
  have stores: "safe ?I (sl_rely k cpu) ?G (\<lambda>_. True) (ctx_stores hs) (\<lambda>_ _. True)" for hs
    by (induction hs) (auto intro: safe_Ret safe_pbind [OF store])
  have mail: "safe ?I (sl_rely k cpu) (\<lambda>s s'. mb_guar k cpu (ps_mailbox s) (ps_mailbox s')) (\<lambda>_. True) (on_mailbox mark_prepared) (\<lambda>r s. r \<noteq> Panic)"
    by (rule safe_plift [OF mark_prepared_safe]) (auto simp: sl_guar_def)
  have tame: "tame mark_prepared"
    unfolding mark_prepared_def state_cas_def acas_def
    by (auto simp: cas_or_def no_park_def intro!: tame_pbind tame_armw split: if_splits)
  have quiet: "safe ?I (sl_rely k cpu) (rec_guar cpu) (\<lambda>_. True) (on_mailbox mark_prepared) (\<lambda>_ _. True)"
    by (rule safe_plift [OF tame]) (auto simp: rec_guar_def no_park_def ps_set_mailbox_def ps_mailbox_def)
  have mark: "safe ?I (sl_rely k cpu) ?G (\<lambda>_. True) (on_mailbox mark_prepared) (\<lambda>_ _. True)"
    using safe_weaken [OF safe_post [OF safe_conj [OF mail quiet]]] by simp
  have "safe ?I (sl_rely k cpu) ?G (\<lambda>_. True) (slot_prepare cpu i f l) (\<lambda>_ _. True)"
    unfolding slot_prepare_def by (auto intro!: safe_if safe_Ret safe_pbind [OF claim] safe_pbind [OF stores] safe_pbind [OF mark])
  then have B: "safe sl_inv (sl_rely k cpu) ?G (\<lambda>_. True) (slot_prepare cpu i f l) (\<lambda>_ _. True)"
    by (rule safe_mono) (auto simp: sl_inv_def)
  have A: "safe sl_inv (sl_rely k cpu) (ps_guar cpu) (\<lambda>_. True) (slot_prepare cpu i f l) (\<lambda>_ _. True)"
    by (rule safe_mono [OF safe_post [OF slot_prepare_safe]]) (auto simp: sl_inv_def sl_guar_def)
  from safe_mono [OF safe_conj [OF A B], where I' = sl_inv and R' = "sl_rely k cpu" and G' = "sl_guar k cpu"]
  show ?thesis by (simp add: sl_guar_def)
qed

section \<open>All CPUs\<close>

text \<open>
  What the CPUs run: CPU 0 the start, any CPU the entry point, the authorization of a guest
  and a fatal report; a worker moves its own lifecycle, and slots are prepared.
\<close>

inductive boot_api :: "('n, 'p, 'z) device_tree_scheme \<Rightarrow> boot_env \<Rightarrow> nat \<Rightarrow> (boot_sys, unit) prog \<Rightarrow> bool" for dt env where
  bapi_start: "boot_api dt env 0 (discard (start_all dt env policy))"
| bapi_entry: "boot_api dt env cpu (discard (secondary_main env cpu pointer g ls e))"
| bapi_guest: "boot_api dt env cpu (discard ensure_guest_authorized)"
| bapi_fatal: "boot_api dt env cpu (astore (bs_fatal_update (\<lambda>_. True)))"
| bapi_prepare: "boot_api dt env cpu (discard (on_slot k (slot_prepare cpu i f l)))"
| bapi_online: "boot_api dt env i (discard (on_slot i (on_mailbox (management_online g))))"
| bapi_park: "boot_api dt env i (discard (on_slot i (on_mailbox (management_park g))))"
| bapi_failed: "boot_api dt env i (discard (on_slot i (on_mailbox (management_failed g))))"

lemma management_slot:
  "sl_safe i i (\<lambda>_. True) (on_mailbox (management_online g)) (\<lambda>_ _. True)"
  "sl_safe i i (\<lambda>_. True) (on_mailbox (management_park g)) (\<lambda>_ _. True)"
  "sl_safe i i (\<lambda>_. True) (on_mailbox (management_failed g)) (\<lambda>_ _. True)"
proof -
  have ok: "sl_safe i i (\<lambda>_. True) (on_mailbox p) (\<lambda>_ _. True)" if "mb_safe i i (\<lambda>_. True) p post" "quiet p" "tame p"
    for p :: "(mailbox, (unit, protocol_error) outcome) prog" and post
    by (rule safe_post [OF sl_mailbox [OF that]]) simp
  show "sl_safe i i (\<lambda>_. True) (on_mailbox (management_online g)) (\<lambda>_ _. True)"
    by (rule ok [OF _ quiet_operations(6) tame_operations(6)], unfold management_online_def, rule management_safe(1)) simp
  show "sl_safe i i (\<lambda>_. True) (on_mailbox (management_park g)) (\<lambda>_ _. True)"
    by (rule ok [OF _ quiet_operations(7) tame_operations(7)], unfold management_park_def, rule management_safe(1)) simp
  show "sl_safe i i (\<lambda>_. True) (on_mailbox (management_failed g)) (\<lambda>_ _. True)"
    by (rule ok [OF management_failed_safe(1) quiet_operations(8) tame_operations(8)])
qed

text \<open>Authorization: once the status is final it never changes.\<close>

lemma final_guar:
  "boot_guar fx cpu s s' \<Longrightarrow> in_state st s \<Longrightarrow> st \<notin> {Idle, Preparing, Releasing} \<Longrightarrow> in_state st s'"
  by (erule boot_guar.cases) auto

lemma authorized_safe:
  "boot_safe fx cpu (\<lambda>_. True) ensure_guest_authorized (\<lambda>r s. r = Ok () \<longrightarrow> in_state Ready s)"
proof -
  have load: "boot_safe fx cpu (\<lambda>_. True) (aload (\<lambda>s. decode_status (bs_state s) :: (boot_status, boot_error) outcome)) (\<lambda>r s. r = Ok Ready \<longrightarrow> in_state Ready s)"
  proof (rule safe_aload)
    show "boot_stable fx cpu (\<lambda>s. r = Ok Ready \<longrightarrow> in_state Ready s)" for r :: "(boot_status, boot_error) outcome"
      unfolding stable_under_def using final_guar [where st = Ready] by blast
  qed (auto simp: boot_inv_def bg_skip)
  have status: "boot_safe fx cpu (\<lambda>_. True) (on_boot (guest_authorized fatal)) (\<lambda>r s. r = Ok () \<longrightarrow> in_state Ready s)" for fatal
    by (cases fatal) (auto simp: guest_authorized_def plift_pthen on_boot_status intro!: safe_Ret safe_pthen [OF load] split: if_splits)
  have fatal: "boot_safe fx cpu (\<lambda>_. True) has_fatal (\<lambda>_ _. True)" by (rule any_ro [OF ro_slot_programs(9) stable_under_True])
  show ?thesis unfolding ensure_guest_authorized_def by (rule safe_pbind [OF fatal status])
qed

lemma boot_api_safe:
  assumes "boot_api dt env cpu p"
  shows "boot_safe (facts_of env) cpu (\<lambda>_. True) p (\<lambda>_ _. True)"
  using assms
proof cases
  case (bapi_start policy)
  then show ?thesis using safe_discard [OF b_start_all [unfolded boots_def]] by blast
next
  case bapi_fatal
  then show ?thesis unfolding astore_armw by (auto intro!: safe_armw bg_fatal intro: boot_guar_inv)
qed (auto intro!: safe_discard [OF secondary_main_safe] safe_discard [OF authorized_safe]
    safe_discard [OF slot_safe [OF slot_prepare_slot]] safe_discard [OF slot_safe [OF management_slot(1)]]
    safe_discard [OF slot_safe [OF management_slot(2)]] safe_discard [OF slot_safe [OF management_slot(3)]])

interpretation bt: shared_protocol "boot_inv (facts_of env)" "boot_guar (facts_of env)" "boot_api dt env" for dt env
proof
  show "boot_inv (facts_of env) s \<Longrightarrow> boot_guar (facts_of env) i s s' \<Longrightarrow> boot_inv (facts_of env) s'" for s i s'
    using boot_guar_inv by blast
qed (rule boot_api_safe)

text \<open>The state the boot CPU starts from: nothing attempted, no slot prepared, the tables and the cells as they are.\<close>

definition fresh_boot :: "table_set boot_tables option \<Rightarrow> (u64 \<Rightarrow> u64) \<Rightarrow> boot_sys" where
  "fresh_boot t cells = \<lparr>bs_state = status_code Idle, bs_attempted = 0, bs_fatal = False, bs_slots = (\<lambda>_. slot_new), bs_config = hs_new,
     bs_tables = t, bs_hw = \<lparr>hw_cells = cells, hw_trace = [], hw_clock = 0\<rparr>\<rparr>"

lemma fresh_inv: "boot_inv fx (fresh_boot t cells)"
proof -
  have m: "ps_mailbox slot_new = mb_new" by (simp add: slot_new_def startup_new_def ps_mailbox_def)
  have "mb_inv mb_new" "\<not> mb_past {Parked, Online} mb_new" by (auto simp: mb_inv_def mb_new_def mb_past_def)
  then have "sl_inv slot_new" using slot_new_inv by (simp add: sl_inv_def m)
  moreover have "hs_inv hs_new" by (simp add: hs_inv_def hs_new_def)
  ultimately show ?thesis by (auto simp: boot_inv_def fresh_boot_def)
qed

text \<open>
  C4: the start of the secondary CPUs is sound in every interleaving of the boot CPU, the
  released CPUs, their workers, the preparation of slots and fatal reports. Every store to a
  release cell writes the entry point to the cell of a required, validated CPU, and before it
  the tables were frozen, the resources of every required CPU were validated against them and
  bound to the prepared slot of that CPU, and every byte the CPU reads with its cache off was
  cleaned ahead of a completed barrier. A start that reports success, and a guest that is
  authorized, find the status ready, and then every required CPU has finished its entry with
  no failure recorded. A final status never changes, and what it stands for stays true.
\<close>

theorem smp_boot_sound:
  assumes "(istep (boot_api dt env))\<^sup>*\<^sup>* (fresh_boot t cells, \<lambda>_. Ret ()) (s, pool)"
    and "(istep (boot_api dt env))\<^sup>*\<^sup>* (s, pool) (s', pool')"
  shows "(\<forall>xs c v ys. boot_trace s = xs @ EvStore c v # ys \<longrightarrow> published_at (facts_of env) xs s \<and> store_ok (facts_of env) c v) \<and>
    (\<forall>cpu u. exec (boot_rely (facts_of env) cpu) ensure_guest_authorized s (Ok ()) u \<longrightarrow> in_state Ready u \<and> all_passed (facts_of env) u) \<and>
    (\<forall>policy u. exec (boot_rely (facts_of env) 0) (start_all dt env policy) s (Ok ()) u \<longrightarrow> in_state Ready u \<and> all_passed (facts_of env) u) \<and>
    (\<forall>st. in_state st s \<and> st \<notin> {Idle, Preparing, Releasing} \<longrightarrow> in_state st s') \<and>
    (in_state Ready s \<longrightarrow> all_passed (facts_of env) s \<and> all_passed (facts_of env) s')"
proof -
  let ?fx = "facts_of env"
  have inv: "boot_inv ?fx s" using bt.reachable_inv [OF fresh_inv refl assms(1)] .
  have ok: "bt.conf_ok env (s, pool)" by (rule bt.isteps_ok [OF assms(1) bt.start_ok [OF fresh_inv]]) simp
  have ready: "all_passed ?fx u" if "boot_inv ?fx u" "in_state Ready u" for u
    using that by (auto simp: boot_inv_def)
  have auth: "in_state Ready u \<and> all_passed ?fx u" if "exec (boot_rely ?fx cpu) ensure_guest_authorized s (Ok ()) u" for cpu u
    using bt.exec_ok [where P = "\<lambda>_. True", OF that inv TrueI authorized_safe stable_under_True] ready by simp
  have start: "in_state Ready u \<and> all_passed ?fx u" if "exec (boot_rely ?fx 0) (start_all dt env policy) s (Ok ()) u" for policy u
    using bt.exec_ok [where P = "\<lambda>_. True", OF that inv TrueI b_start_all [unfolded boots_def] stable_under_True] ready by simp
  have final: "in_state st s'" if "in_state st s" "st \<notin> {Idle, Preparing, Releasing}" for st
    using bt.isteps_stable [OF assms(2) ok, of "in_state st"] that final_guar by auto
  have "boot_inv ?fx s'" using bt.isteps_ok [OF assms(2) ok] by (simp add: bt.conf_ok_def)
  then have "all_passed ?fx s'" if "in_state Ready s" using ready final [OF that] by simp
  then show ?thesis using inv auth start final ready unfolding boot_inv_def by blast
qed

text \<open>A machine whose discovery found no CPU topology: the start fails in its preparation, for good.\<close>

definition example_boot_env :: boot_env where
  "example_boot_env = \<lparr>be_topology = None, be_memory_map = None, be_contract = None, 
     be_link = \<lparr>sym_text_start = 0x80000, sym_text_end = 0x81000, sym_vectors_start = 0x81000, sym_vectors_end = 0x82000,
       sym_rodata_start = 0x82000, sym_rodata_end = 0x83000, sym_writable_start = 0x83000, sym_writable_end = 0x92000,
       sym_tables_start = 0x92000, sym_tables_end = 0x98000, sym_boot_guard = 0x84000\<rparr>, be_slots = 0x90000, be_config = 0x91000,
     be_entry = 0x80000, be_vectors = 0x81000, be_midr = 0x410fd083, be_mpidr = 0x80000000, be_mair = 0, be_tcr = 0, be_root = 0, be_sctlr = 0,
     be_cntfrq = 54000000, be_ctr = 0x84448004, be_tpidr = 0x90000, be_sp = 0x88000, be_par = (\<lambda>_ a. a), be_counter = (\<lambda>n. word_of_nat n)\<rparr>"

definition example_failed :: boot_sys where
  "example_failed = (fresh_boot None (\<lambda>_. 0))\<lparr>bs_slots := (\<lambda>_. slot_new)(1 := example_prepared), bs_state := status_code PreparationFailed\<rparr>"

lemma example_start:
  "snd (run (start_all dt example_boot_env policy) ((fresh_boot None (\<lambda>_. 0))\<lparr>bs_slots := (\<lambda>_. slot_new)(1 := example_prepared)\<rparr>)) = example_failed"
  by (simp add: start_all_def begin_boot_once_def status_cas_def boot_procedure_def validate_platform_def example_boot_env_def
      finalize_boot_def boot_status_def cas_or_def prog_defs run_pbind outcome_simps fresh_boot_def example_failed_def)

theorem smp_boot_sound_witness:
  "(istep (boot_api example_memory_tree example_boot_env))\<^sup>*\<^sup>* (fresh_boot None (\<lambda>_. 0), \<lambda>_. Ret ()) (example_failed, \<lambda>_. Ret ()) \<and>
   (istep (boot_api example_memory_tree example_boot_env))\<^sup>*\<^sup>* (example_failed, \<lambda>_. Ret ()) (example_failed\<lparr>bs_fatal := True\<rparr>, \<lambda>_. Ret ()) \<and>
   in_state PreparationFailed (example_failed\<lparr>bs_fatal := True\<rparr>)"
proof -
  let ?api = "boot_api example_memory_tree example_boot_env"
  let ?mid = "(fresh_boot None (\<lambda>_. 0))\<lparr>bs_slots := (\<lambda>_. slot_new)(1 := example_prepared)\<rparr>"
  have r: "run (on_slot 1 (slot_prepare 0 1 1 example_stack)) (fresh_boot None (\<lambda>_. 0)) = (Ok (), ?mid)"
    by (subst run_plift) (simp_all add: example_prepare [simplified] fresh_boot_def)
  have a: "(istep ?api)\<^sup>*\<^sup>* (fresh_boot None (\<lambda>_. 0), \<lambda>_. Ret ()) (?mid, \<lambda>_. Ret ())"
    using run_isteps [where api = ?api, OF bapi_prepare [where cpu = 0 and k = 1 and i = 1 and f = 1 and l = example_stack],
        where pool = "\<lambda>_. Ret ()" and s = "fresh_boot None (\<lambda>_. 0)"]
    by (simp only: run_discard r snd_conv)
  have b: "(istep ?api)\<^sup>*\<^sup>* (?mid, \<lambda>_. Ret ()) (example_failed, \<lambda>_. Ret ())"
    using run_isteps [where api = ?api, OF bapi_start, where pool = "\<lambda>_. Ret ()" and s = ?mid]
    by (simp only: run_discard example_start snd_conv)
  have c: "(istep ?api)\<^sup>*\<^sup>* (example_failed, \<lambda>_. Ret ()) (example_failed\<lparr>bs_fatal := True\<rparr>, \<lambda>_. Ret ())"
    using run_isteps [where api = ?api, OF bapi_fatal [where cpu = 2], where pool = "\<lambda>_. Ret ()" and s = example_failed] by (simp add: prog_defs)
  have ab: "(istep ?api)\<^sup>*\<^sup>* (fresh_boot None (\<lambda>_. 0), \<lambda>_. Ret ()) (example_failed, \<lambda>_. Ret ())" using a b by (rule rtranclp_trans)
  have "in_state PreparationFailed example_failed" by (simp add: example_failed_def)
  then have "in_state PreparationFailed (example_failed\<lparr>bs_fatal := True\<rparr>)" using smp_boot_sound [OF ab c, THEN conjunct2, THEN conjunct2, THEN conjunct2, THEN conjunct1] by simp
  then show ?thesis using ab c by (intro conjI)
qed

end
