(* ===== verification/Spec2Isabelle.thy ===== *)
theory Spec2Isabelle
  imports Memory_Map Page_Allocator El2_Stage1 El2_Policy Guest_Stage2 Secondary_Mailbox Tlb_Update Cpu_Topology
    Secondary_Entry Platform Guest_Platform Mmio Gicv2 World_Switch Management_Channel Linux_Boot Vcpu Debug_Util Failure Irq_Lock Allocation_Check Heap_Allocator Startup_Resources Pcpu Cpu_Startup Smp_Boot
begin

text \<open>
  Verification development for tvisor, an AArch64 EL2 hypervisor in Rust.
\<close>

end
